(* ===== verification/Prelude.thy ===== *)
theory Prelude
  imports Main "HOL-Library.Word" "HOL-Library.List_Lexorder" "HOL-Library.Sublist"
begin

text \<open>
  Shared ground of the development: the types every component uses (bytes, Go strings, machine
  words, errors as values), the fixed-width integer encodings of Go's \<open>encoding/binary\<close>, and the
  generic list, option and word lemmas that carry the component proofs.

  A Go \<open>string\<close> and a Go \<open>[]byte\<close> are both sequences of bytes; both are \<open>bytes\<close> here, and the
  conversions between the two (which copy) are the identity.  The order of
  \<open>HOL-Library.List_Lexorder\<close> on \<open>bytes\<close> is Go's \<open><\<close> on strings and \<open>bytes.Compare\<close>.
\<close>

unbundle bit_operations_syntax

named_theorems res_simps \<open>rewrite rules for results (an error or a value)\<close>
named_theorems byte_simps \<open>rewrite rules for the fixed-width integer encodings\<close>

type_synonym byte = "8 word"
type_synonym bytes = "byte list"
type_synonym uint16 = "16 word"
type_synonym uint32 = "32 word"
type_synonym uint64 = "64 word"

text \<open>The bytes of a Go string literal.\<close>

definition str :: "string \<Rightarrow> bytes" where
  "str s = map of_char s"

text \<open>
  The error values of \<open>errors.go\<close>, the two unexported WAL errors of \<open>wal.go\<close>, and \<open>ErrOther\<close> for an
  error with no sentinel, which carries the fixed part of its text.  The formatted detail that
  \<open>fmt.Errorf\<close> adds around a sentinel (offsets, quoted names) is not modelled: callers branch on
  the sentinel with \<open>errors.Is\<close>, never on the text.
\<close>

datatype err =
    ErrDuplicatePK | ErrUnknownTable | ErrUnknownColumn | ErrTypeMismatch | ErrParamMismatch
  | ErrPKUpdate | ErrParse | ErrUnindexedJoin | ErrWALCorrupt | ErrWALVersion | ErrTableExists
  | ErrTxUnsupported | ErrTxConflict | ErrBatchTooLarge | ErrCapacity | ErrReservedName
  | ErrCompanionInMemory | ErrClosed | ErrMirrorSchema | ErrMirrorCorrupt | ErrTooManyTables
  | ErrCatalogTooLarge | errWALFraming | errWALMissingSegment | ErrOther string

type_synonym 'a res = "err + 'a"

text \<open>\<open>if err != nil { return err }\<close>: the rest of the function runs on the value only.\<close>

definition andThen :: "'a res \<Rightarrow> ('a \<Rightarrow> 'b res) \<Rightarrow> 'b res" where
  "andThen m k = (case m of Inl e \<Rightarrow> Inl e | Inr x \<Rightarrow> k x)"

definition guard_err :: "bool \<Rightarrow> err \<Rightarrow> unit res" where
  "guard_err ok e = (if ok then Inr () else Inl e)"

lemma andThen_simps [simp, res_simps]:
  "andThen (Inl e) k = Inl e"
  "andThen (Inr x) k = k x"
  by (simp_all add: andThen_def)

lemma andThen_eq_Inr [res_simps]:
  "andThen m k = Inr y \<longleftrightarrow> (\<exists>x. m = Inr x \<and> k x = Inr y)"
  by (auto simp: andThen_def split: sum.splits)

lemma andThen_eq_Inl [res_simps]:
  "andThen m k = Inl e \<longleftrightarrow> m = Inl e \<or> (\<exists>x. m = Inr x \<and> k x = Inl e)"
  by (auto simp: andThen_def split: sum.splits)

lemma andThen_cong [fundef_cong]:
  "m = m' \<Longrightarrow> (\<And>x. m' = Inr x \<Longrightarrow> k x = k' x) \<Longrightarrow> andThen m k = andThen m' k'"
  by (cases m') simp_all

lemma andThen_assoc: "andThen (andThen m k) l = andThen m (\<lambda>x. andThen (k x) l)"
  by (cases m) simp_all

lemma guard_err_simps [simp, res_simps]:
  "guard_err True e = Inr ()"
  "guard_err False e = Inl e"
  "guard_err ok e = Inr u \<longleftrightarrow> ok"
  "guard_err ok e = Inl e' \<longleftrightarrow> \<not> ok \<and> e' = e"
  by (auto simp: guard_err_def)


section \<open>Loops with early return\<close>

text \<open>
  \<open>for i := 0; i < n; i++\<close> and \<open>for _, x := range xs\<close> over a loop state, where the body may return
  an error and end the function.
\<close>

fun for_n :: "nat \<Rightarrow> ('s \<Rightarrow> 's res) \<Rightarrow> 's \<Rightarrow> 's res" where
  "for_n 0 body st = Inr st"
| "for_n (Suc n) body st = andThen (body st) (for_n n body)"

fun for_each :: "('x \<Rightarrow> 's \<Rightarrow> 's res) \<Rightarrow> 'x list \<Rightarrow> 's \<Rightarrow> 's res" where
  "for_each body [] st = Inr st"
| "for_each body (x # xs) st = andThen (body x st) (for_each body xs)"

lemma for_each_append: "for_each body (xs @ ys) st = andThen (for_each body xs st) (for_each body ys)"
  by (induction xs arbitrary: st) (auto simp: andThen_assoc intro: andThen_cong)

text \<open>An invariant of the loop state, kept by every iteration that does not return an error.\<close>

lemma for_each_invariant:
  assumes "for_each body xs st = Inr st'" and "I st"
    and "\<And>x s s'. x \<in> set xs \<Longrightarrow> I s \<Longrightarrow> body x s = Inr s' \<Longrightarrow> I s'"
  shows "I st'"
  using assms by (induction xs arbitrary: st) (auto simp: andThen_eq_Inr)

text \<open>The same with the items already visited.\<close>

lemma for_each_prefix_invariant:
  assumes "for_each body xs st = Inr st'" and "P [] st"
    and "\<And>ys x s s'. prefix (ys @ [x]) xs \<Longrightarrow> P ys s \<Longrightarrow> body x s = Inr s' \<Longrightarrow> P (ys @ [x]) s'"
  shows "P xs st'"
proof -
  have "P (ys @ zs) st'" if "for_each body zs s = Inr st'" "P ys s" "xs = ys @ zs" for ys zs s
    using that
  proof (induction zs arbitrary: ys s)
    case (Cons z zs)
    then obtain s1 where s1: "body z s = Inr s1" "for_each body zs s1 = Inr st'" by (auto simp: andThen_eq_Inr)
    then have "P (ys @ [z]) s1" using assms(3) Cons.prems(2,3) by (auto simp: prefix_def)
    then show ?case using Cons.IH [OF s1(2), of "ys @ [z]"] Cons.prems(3) by simp
  qed simp
  from this [of xs st "[]"] assms(1,2) show ?thesis by simp
qed

lemma for_n_invariant:
  assumes "for_n n body st = Inr st'" and "I st"
    and "\<And>s s'. I s \<Longrightarrow> body s = Inr s' \<Longrightarrow> I s'"
  shows "I st'"
  using assms by (induction n arbitrary: st) (auto simp: andThen_eq_Inr)

lemma for_each_errors:
  assumes "for_each body xs st = Inl e" and "\<And>x s. x \<in> set xs \<Longrightarrow> body x s = Inl e \<Longrightarrow> P e"
  shows "P e"
  using assms by (induction xs arbitrary: st) (auto simp: andThen_eq_Inl)

lemma for_n_errors:
  assumes "for_n n body st = Inl e" and "\<And>s e. body s = Inl e \<Longrightarrow> P e"
  shows "P e"
  using assms by (induction n arbitrary: st) (auto simp: andThen_eq_Inl)


section \<open>Fixed-width integers as bytes\<close>

text \<open>
  \<open>le_put n w\<close> is the \<open>n\<close>-byte little-endian form of \<open>w\<close> (\<open>LittleEndian.PutUint16/32/64\<close> and the
  append helpers), \<open>le_get\<close> reads it back (\<open>LittleEndian.Uint16/32/64\<close>); the big-endian pair reads
  the same bytes in the other order.
\<close>

definition le_put :: "nat \<Rightarrow> 'a::len word \<Rightarrow> bytes" where
  "le_put n w = map (\<lambda>i. ucast (drop_bit (8 * i) w)) [0..<n]"

fun le_get :: "bytes \<Rightarrow> 'a::len word" where
  "le_get [] = 0"
| "le_get (b # bs) = ucast b OR push_bit 8 (le_get bs)"

definition be_put :: "nat \<Rightarrow> 'a::len word \<Rightarrow> bytes" where
  "be_put n w = rev (le_put n w)"

definition be_get :: "bytes \<Rightarrow> 'a::len word" where
  "be_get bs = le_get (rev bs)"

lemma length_le_put [simp]: "length (le_put n w) = n"
  by (simp add: le_put_def)

lemma length_be_put [simp]: "length (be_put n w) = n"
  by (simp add: be_put_def)

lemma bit_le_get:
  "bit (le_get bs :: 'a::len word) i \<longleftrightarrow>
     i < LENGTH('a) \<and> i div 8 < length bs \<and> bit (bs ! (i div 8)) (i mod 8)"
proof (induction bs arbitrary: i)
  case Nil
  then show ?case by simp
next
  case (Cons b bs)
  show ?case
  proof (cases "i < 8")
    case True
    then show ?thesis
      by (auto simp: bit_or_iff bit_push_bit_iff bit_ucast_iff dest: bit_imp_le_length)
  next
    case False
    then obtain j where i: "i = 8 + j" by (metis le_iff_add not_less)
    have "i div 8 = Suc (j div 8)" "i mod 8 = j mod 8" by (simp_all add: i)
    moreover have "\<not> bit (ucast b :: 'a word) i"
      using False by (auto simp: bit_ucast_iff dest: bit_imp_le_length)
    ultimately show ?thesis
      using Cons.IH [of j] i by (auto simp: bit_or_iff bit_push_bit_iff dest: bit_imp_le_length)
  qed
qed

lemma bit_nth_le_put: "i < n \<Longrightarrow> bit (le_put n (w :: 'a::len word) ! i) j \<longleftrightarrow> j < 8 \<and> bit w (8 * i + j)"
  by (auto simp: le_put_def bit_ucast_iff bit_drop_bit_eq)

lemma le_get_put [simp, byte_simps]:
  assumes "LENGTH('a::len) \<le> 8 * n"
  shows "le_get (le_put n (w :: 'a word)) = w"
proof (rule bit_word_eqI)
  fix i assume "i < LENGTH('a)"
  moreover from this assms have "i div 8 < n" by linarith
  ultimately show "bit (le_get (le_put n w) :: 'a word) i = bit w i"
    by (simp add: bit_le_get bit_nth_le_put)
qed

lemma le_put_get [simp, byte_simps]:
  assumes "8 * n \<le> LENGTH('a::len)" and "length bs = n"
  shows "le_put n (le_get bs :: 'a word) = bs"
proof (rule nth_equalityI)
  show "length (le_put n (le_get bs :: 'a word)) = length bs" using assms by simp
  fix i assume "i < length (le_put n (le_get bs :: 'a word))"
  then have i: "i < n" by simp
  show "le_put n (le_get bs :: 'a word) ! i = bs ! i"
  proof (rule bit_word_eqI)
    fix j assume "j < LENGTH(8)"
    then have j: "j < 8" by simp
    have "8 * i + j < LENGTH('a)" using i j assms(1) by linarith
    then show "bit (le_put n (le_get bs :: 'a word) ! i) j = bit (bs ! i) j"
      using i j assms(2) by (simp add: bit_nth_le_put bit_le_get)
  qed
qed

lemma be_get_put [simp, byte_simps]:
  "LENGTH('a::len) \<le> 8 * n \<Longrightarrow> be_get (be_put n (w :: 'a word)) = w"
  by (simp add: be_get_def be_put_def)

lemma be_put_get [simp, byte_simps]:
  "8 * n \<le> LENGTH('a::len) \<Longrightarrow> length bs = n \<Longrightarrow> be_put n (be_get bs :: 'a word) = bs"
  by (simp add: be_get_def be_put_def)

text \<open>A truncating conversion \<open>uint16(n)\<close> that loses nothing when \<open>n\<close> fits.\<close>

lemma unat_word_of_nat_small:
  "n < 2 ^ LENGTH('a::len) \<Longrightarrow> unat (word_of_nat n :: 'a word) = n"
  by (simp add: unat_of_nat take_bit_nat_eq_self)

lemma unat_of_nat_width [simp, byte_simps]:
  "n < 256 \<Longrightarrow> unat (word_of_nat n :: byte) = n"
  "n < 65536 \<Longrightarrow> unat (word_of_nat n :: uint16) = n"
  "n < 4294967296 \<Longrightarrow> unat (word_of_nat n :: uint32) = n"
  by (rule unat_word_of_nat_small, simp)+

lemma sint_small:
  assumes "unat (w :: 'a::len word) < 2 ^ (LENGTH('a) - 1)"
  shows "sint w = int (unat w)"
proof -
  have u: "uint w = int (unat w)" by simp
  have "int (unat w) < 2 ^ (LENGTH('a) - 1)"
    using assms by (metis of_nat_less_iff of_nat_numeral of_nat_power)
  moreover have "- (2 ^ (LENGTH('a) - 1)) \<le> int (unat w)"
    by (rule order_trans [of _ 0]) (simp_all del: of_nat_unat)
  ultimately show ?thesis unfolding sint_uint u by (simp add: signed_take_bit_int_eq_self del: of_nat_unat)
qed

lemma unat_le_get_put [simp, byte_simps]:
  "LENGTH('a::len) \<le> 8 * k \<Longrightarrow> n < 2 ^ LENGTH('a) \<Longrightarrow>
     unat (le_get (le_put k (word_of_nat n :: 'a word)) :: 'a word) = n"
  by (simp add: unat_word_of_nat_small)


section \<open>Byte order and number order\<close>

text \<open>
  Comparing two big-endian encodings of the same width byte by byte is comparing the numbers.  Both
  sides are read as sums over base 256.
\<close>

abbreviation le_val :: "bytes \<Rightarrow> nat" where
  "le_val bs \<equiv> horner_sum unat 256 bs"

lemma unat_byte_less: "unat (b :: byte) < 256"
  using unsigned_less [of b] by simp

lemma le_val_less: "le_val bs < 256 ^ length bs"
proof (induction bs)
  case Nil
  then show ?case by simp
next
  case (Cons b bs)
  then have "Suc (le_val bs) \<le> 256 ^ length bs" by simp
  then have "256 * Suc (le_val bs) \<le> 256 * 256 ^ length bs" by (rule mult_le_mono2)
  moreover have "unat b < 256" by (rule unat_byte_less)
  ultimately show ?case by simp
qed

lemma unat_le_get:
  "8 * length bs \<le> LENGTH('a::len) \<Longrightarrow> unat (le_get bs :: 'a word) = le_val bs"
proof (induction bs)
  case Nil
  then show ?case by simp
next
  case (Cons b bs)
  let ?r = "le_get bs :: 'a word"
  have b: "unat (ucast b :: 'a word) = unat b"
  proof -
    have "unat b < 2 ^ LENGTH('a)"
      using unat_byte_less [of b] Cons.prems power_increasing [of 8 "LENGTH('a)" "2::nat"] by simp
    then show ?thesis by (simp add: unsigned_ucast_eq take_bit_nat_eq_self)
  qed
  have r: "unat ?r = le_val bs" using Cons by simp
  have small: "2 ^ 8 * le_val bs < 2 ^ LENGTH('a)"
  proof -
    have "2 ^ 8 * le_val bs < 2 ^ 8 * 256 ^ length bs" using le_val_less [of bs] by simp
    also have "\<dots> = 2 ^ (8 * length (b # bs))" by (simp add: power_mult power_add)
    also have "\<dots> \<le> 2 ^ LENGTH('a)" using Cons.prems by (intro power_increasing) simp_all
    finally show ?thesis .
  qed
  have p: "unat (push_bit 8 ?r) = 2 ^ 8 * le_val bs"
  proof -
    have "unat (push_bit 8 ?r) = take_bit LENGTH('a) (2 ^ 8 * le_val bs)"
      unfolding unsigned_push_bit_eq r by (simp only: push_bit_eq_mult mult.commute)
    with small show ?thesis by (simp only: take_bit_nat_eq_self)
  qed
  have "ucast b AND push_bit 8 ?r = 0"
    by (rule bit_word_eqI) (auto simp: bit_and_iff bit_ucast_iff bit_push_bit_iff dest: bit_imp_le_length)
  then have "ucast b OR push_bit 8 ?r = ucast b + push_bit 8 ?r"
    by (simp add: disjunctive_add_eq_or)
  moreover have "unat (ucast b + push_bit 8 ?r) = unat b + 2 ^ 8 * le_val bs"
  proof -
    have "unat b + 2 ^ 8 * le_val bs < 256 ^ length (b # bs)"
      using le_val_less [of "b # bs"] by simp
    also have "\<dots> = 2 ^ (8 * length (b # bs))" by (simp add: power_mult power_add)
    also have "\<dots> \<le> 2 ^ LENGTH('a)" using Cons.prems by (intro power_increasing) simp_all
    finally show ?thesis
      using unat_add_lem [of "ucast b :: 'a word" "push_bit 8 ?r"] by (simp only: b p)
  qed
  ultimately show ?case by simp
qed

lemma less_iff_le_val:
  "length xs = length ys \<Longrightarrow> xs < ys \<longleftrightarrow> le_val (rev xs) < le_val (rev ys)"
proof (induction xs ys rule: list_induct2)
  case Nil
  then show ?case by simp
next
  case (Cons x xs y ys)
  let ?n = "256 ^ length ys :: nat"
  have less: "le_val (rev xs) < ?n" "le_val (rev ys) < ?n"
    using le_val_less [of "rev xs"] le_val_less [of "rev ys"] Cons.hyps by simp_all
  have lt: "le_val (rev xs) + ?n * unat x < le_val (rev ys) + ?n * unat y" if "unat x < unat y"
  proof -
    have "le_val (rev xs) + ?n * unat x < ?n * Suc (unat x)" using less(1) by simp
    also have "\<dots> \<le> ?n * unat y" using that by (intro mult_le_mono2) simp
    finally show ?thesis by simp
  qed
  have gt: "le_val (rev ys) + ?n * unat y < le_val (rev xs) + ?n * unat x" if "unat y < unat x"
  proof -
    have "le_val (rev ys) + ?n * unat y < ?n * Suc (unat y)" using less(2) by simp
    also have "\<dots> \<le> ?n * unat x" using that by (intro mult_le_mono2) simp
    finally show ?thesis by simp
  qed
  have "le_val (rev (x # xs)) = le_val (rev xs) + ?n * unat x"
    "le_val (rev (y # ys)) = le_val (rev ys) + ?n * unat y"
    using Cons.hyps by (simp_all add: horner_sum_append)
  with lt gt Cons.IH show ?case
    by (cases "unat x" "unat y" rule: linorder_cases)
      (auto simp: word_less_nat_alt word_unat_eq_iff)
qed

lemma be_put_less_iff [byte_simps]:
  assumes "8 * n = LENGTH('a::len)"
  shows "be_put n (v :: 'a word) < be_put n w \<longleftrightarrow> v < w"
proof -
  have "unat (le_get (le_put n u) :: 'a word) = le_val (le_put n u)" for u :: "'a word"
    using assms by (intro unat_le_get) simp
  then have "le_val (le_put n u) = unat u" for u :: "'a word"
    using assms by simp
  then show ?thesis
    by (simp add: less_iff_le_val be_put_def word_less_nat_alt)
qed

lemma be_put_inj [byte_simps]:
  "8 * n = LENGTH('a::len) \<Longrightarrow> be_put n (v :: 'a word) = be_put n w \<longleftrightarrow> v = w"
  by (metis be_get_put order_refl)

text \<open>Appending to two lists of the same length: the first difference decides.\<close>

lemma append_less_iff:
  "length xs = length ys \<Longrightarrow>
     xs @ as < ys @ bs \<longleftrightarrow> xs < ys \<or> (xs = ys \<and> as < (bs :: 'a::order list))"
  by (induction xs ys rule: list_induct2) auto


section \<open>Lists\<close>

lemma sum_list_upd:
  "i < length xs \<Longrightarrow> sum_list (xs[i := x]) = sum_list xs + x - xs ! i"
  for x :: "'a::ab_group_add"
  by (induction xs arbitrary: i) (auto split: nat.splits simp: algebra_simps)

lemma take_drop_append3 [simp]:
  "length xs = n \<Longrightarrow> take n (xs @ ys) = xs"
  "length xs = n \<Longrightarrow> drop n (xs @ ys) = ys"
  by simp_all


lemma option_eqI: "(\<And>r. a = Some r \<longleftrightarrow> b = Some r) \<Longrightarrow> a = b"
  by (cases a; cases b) auto

end
