(* ===== verification/Uuids.thy ===== *)
theory Uuids
  imports Prelude
begin

text \<open>
  \<open>uuid.go\<close>: the 16-byte identifier, its canonical text form and the parser for it, and the
  monotonic UUIDv7 generator.  The generator's clock is one atomic word advanced by a
  compare-and-swap loop; the interleavings of concurrent callers are a step relation, and every
  reachable state hands out strictly increasing stamps, hence strictly increasing identifiers.
\<close>

section \<open>The identifier and its text form\<close>

text \<open>A \<open>[16]byte\<close>; \<open>uuid_ok\<close> is the array length.\<close>

type_synonym UUID = bytes

definition uuid_ok :: "UUID \<Rightarrow> bool" where
  "uuid_ok u \<longleftrightarrow> length u = 16"

definition zeroUUID :: UUID where
  "zeroUUID = replicate 16 0"

definition IsZero :: "UUID \<Rightarrow> bool" where
  "IsZero u \<longleftrightarrow> u = zeroUUID"

definition Version :: "UUID \<Rightarrow> byte" where
  "Version u = drop_bit 4 (u ! 6)"

definition IsV7 :: "UUID \<Rightarrow> bool" where
  "IsV7 u \<longleftrightarrow> Version u = 7 \<and> (u ! 8) AND 0xC0 = 0x80"

text \<open>\<open>hex.Encode\<close> of the standard library: two lower-case digits per byte.\<close>

definition hexDigits :: bytes where
  "hexDigits = [48, 49, 50, 51, 52, 53, 54, 55, 56, 57, 97, 98, 99, 100, 101, 102]"

definition hex_byte :: "byte \<Rightarrow> bytes" where
  "hex_byte b = [hexDigits ! unat (drop_bit 4 b), hexDigits ! unat (b AND 0xF)]"

definition hex_Encode :: "bytes \<Rightarrow> bytes" where
  "hex_Encode bs = concat (map hex_byte bs)"

definition writeHyphenated :: "UUID \<Rightarrow> bytes" where
  "writeHyphenated u =
     hex_Encode (take 4 u) @ [45] @ hex_Encode (take 2 (drop 4 u)) @ [45] @
     hex_Encode (take 2 (drop 6 u)) @ [45] @ hex_Encode (take 2 (drop 8 u)) @ [45] @
     hex_Encode (take 6 (drop 10 u))"

definition UUID_String :: "UUID \<Rightarrow> bytes" where
  "UUID_String u = writeHyphenated u"

definition AppendString :: "UUID \<Rightarrow> bytes \<Rightarrow> bytes" where
  "AppendString u b = b @ writeHyphenated u"

text \<open>The 256-entry lookup table, as the function of its index.\<close>

definition hexNibble :: "byte \<Rightarrow> byte" where
  "hexNibble c =
     (if 48 \<le> c \<and> c \<le> 57 then c - 48
      else if 97 \<le> c \<and> c \<le> 102 then c - 97 + 10
      else if 65 \<le> c \<and> c \<le> 70 then c - 65 + 10
      else 0xFF)"

definition uuidByteOff :: "nat list" where
  "uuidByteOff = [0, 2, 4, 6, 9, 11, 14, 16, 19, 21, 24, 26, 28, 30, 32, 34]"

fun parseUUID_loop :: "bytes \<Rightarrow> nat list \<Rightarrow> UUID \<Rightarrow> UUID option" where
  "parseUUID_loop s [] u = Some u"
| "parseUUID_loop s (off # offs) u =
     (let hi = hexNibble (s ! off); lo = hexNibble (s ! (off + 1))
      in if hi = 0xFF \<or> lo = 0xFF then None
         else parseUUID_loop s offs (u @ [push_bit 4 hi OR lo]))"

definition ParseUUIDOk :: "bytes \<Rightarrow> UUID option" where
  "ParseUUIDOk s =
     (if length s \<noteq> 36 \<or> s ! 8 \<noteq> 45 \<or> s ! 13 \<noteq> 45 \<or> s ! 18 \<noteq> 45 \<or> s ! 23 \<noteq> 45 then None
      else parseUUID_loop s uuidByteOff [])"

definition ParseUUID :: "bytes \<Rightarrow> UUID res" where
  "ParseUUID s = (case ParseUUIDOk s of None \<Rightarrow> Inl ErrParse | Some u \<Rightarrow> Inr u)"

section \<open>The UUIDv7 generator\<close>

text \<open>
  \<open>stampNext now cur\<close> is the candidate the loop body of \<open>nextUUIDStamp\<close> computes from the loaded
  word \<open>cur\<close>; \<open>now\<close> is an \<open>int64\<close>, compared signed.
\<close>

definition stampNext :: "uint64 \<Rightarrow> uint64 \<Rightarrow> uint64" where
  "stampNext now cur =
     (if sint now > sint (drop_bit 16 cur) then push_bit 16 now
      else let nxt = cur + 1
           in if nxt AND 0xFFFF > 0x0FFF then push_bit 16 (drop_bit 16 cur + 1) else nxt)"

text \<open>
  Concurrent callers.  A caller enters with a wall-clock reading, loads the shared word, and then
  either swaps its candidate in (the claim) or, when the word has moved, goes back to the load.
  Clock readings are below \<open>2 ^ 46\<close> milliseconds (the year 4199).
\<close>

datatype stampPc = Idle | Calling uint64 | Loaded uint64 uint64

record stampSys =
  uuidStamp :: uint64
  callers :: "nat \<Rightarrow> stampPc"
  claimed :: "uint64 list"

definition stampInit :: stampSys where
  "stampInit = \<lparr>uuidStamp = 0, callers = (\<lambda>_. Idle), claimed = []\<rparr>"

inductive stampStep :: "stampSys \<Rightarrow> stampSys \<Rightarrow> bool" where
  enter: "callers s i = Idle \<Longrightarrow> unat now < 2 ^ 46 \<Longrightarrow>
     stampStep s (s\<lparr>callers := (callers s)(i := Calling now)\<rparr>)"
| load: "callers s i = Calling now \<Longrightarrow>
     stampStep s (s\<lparr>callers := (callers s)(i := Loaded now (uuidStamp s))\<rparr>)"
| cas_ok: "callers s i = Loaded now cur \<Longrightarrow> uuidStamp s = cur \<Longrightarrow>
     stampStep s (s\<lparr>uuidStamp := stampNext now cur, callers := (callers s)(i := Idle),
                    claimed := stampNext now cur # claimed s\<rparr>)"
| cas_fail: "callers s i = Loaded now cur \<Longrightarrow> uuidStamp s \<noteq> cur \<Longrightarrow>
     stampStep s (s\<lparr>callers := (callers s)(i := Calling now)\<rparr>)"

inductive stampReach :: "stampSys \<Rightarrow> bool" where
  start: "stampReach stampInit"
| step: "stampReach s \<Longrightarrow> stampStep s t \<Longrightarrow> stampReach t"

text \<open>The claimed \<open>(ms, counter)\<close> pair, and the identifier built from it and 8 random bytes.\<close>

definition stampMs :: "uint64 \<Rightarrow> uint64" where
  "stampMs nxt = drop_bit 16 nxt"

definition stampCounter :: "uint64 \<Rightarrow> uint16" where
  "stampCounter nxt = ucast (nxt AND 0xFFFF)"

definition NewUUIDv7 :: "uint64 \<Rightarrow> uint16 \<Rightarrow> bytes \<Rightarrow> UUID" where
  "NewUUIDv7 ms c rb =
     [ucast (signed_drop_bit 40 ms), ucast (signed_drop_bit 32 ms), ucast (signed_drop_bit 24 ms),
      ucast (signed_drop_bit 16 ms), ucast (signed_drop_bit 8 ms), ucast ms,
      0x70 OR ucast (drop_bit 8 c AND 0x0F), ucast c,
      0x80 OR (rb ! 0 AND 0x3F), rb ! 1, rb ! 2, rb ! 3, rb ! 4, rb ! 5, rb ! 6, rb ! 7]"

text \<open>
  One shard of buffered randomness.  \<open>fresh\<close> is what \<open>crypto/rand\<close> delivers when the shard is
  drained: it fills the whole 4080-byte buffer.
\<close>

record uuidRandShard =
  rs_pos :: nat
  rs_buf :: bytes

definition read8 :: "bytes \<Rightarrow> uuidRandShard \<Rightarrow> bytes \<times> uuidRandShard" where
  "read8 fresh p =
     (let q = (if rs_pos p < 8 then p\<lparr>rs_buf := fresh, rs_pos := length fresh\<rparr> else p);
          i = rs_pos q - 8
      in (take 8 (drop i (rs_buf q)), q\<lparr>rs_pos := i\<rparr>))"

definition randShard_ok :: "uuidRandShard \<Rightarrow> bool" where
  "randShard_ok p \<longleftrightarrow> rs_pos p mod 8 = 0 \<and> rs_pos p \<le> length (rs_buf p) \<and> length (rs_buf p) = 4080"

section \<open>Text round trip\<close>

lemma uuid_ok_expand:
  assumes "uuid_ok u"
  obtains oct0 oct1 oct2 oct3 oct4 oct5 oct6 oct7 oct8 oct9 oct10 oct11 oct12 oct13 oct14 oct15
  where "u = [oct0, oct1, oct2, oct3, oct4, oct5, oct6, oct7, oct8, oct9, oct10, oct11, oct12, oct13, oct14, oct15]"
proof -
  from assms have "length u = Suc (Suc (Suc (Suc (Suc (Suc (Suc (Suc (Suc (Suc (Suc (Suc (Suc (Suc (Suc (Suc 0)))))))))))))))"
    by (simp add: uuid_ok_def)
  then show thesis by (auto simp: length_Suc_conv intro: that)
qed

lemma hexNibble_digit:
  assumes "n < 16"
  shows "hexNibble (hexDigits ! n) = word_of_nat n" "hexDigits ! n \<noteq> 45"
proof -
  have "\<forall>d \<in> set [0..<16]. hexNibble (hexDigits ! d) = word_of_nat d \<and> hexDigits ! d \<noteq> 45"
    by (simp add: upt_rec hexDigits_def hexNibble_def)
  with assms show "hexNibble (hexDigits ! n) = word_of_nat n" "hexDigits ! n \<noteq> 45" by auto
qed

lemma byte_nibbles:
  "unat (drop_bit 4 (b :: byte)) < 16" "unat (b AND 0xF) < 16"
  "push_bit 4 (drop_bit 4 b) OR (b AND 0xF) = b"
proof -
  show "unat (drop_bit 4 b) < 16"
    using unat_byte_less [of b] by (simp add: drop_bit_eq_div unat_div)
  have m: "(0xF :: byte) = mask 4" by (simp add: mask_eq_exp_minus_1)
  have "unat (b AND 0xF) = take_bit 4 (unat b)"
    unfolding m by (simp only: take_bit_eq_mask [symmetric] unsigned_take_bit_eq)
  then show "unat (b AND 0xF) < 16" by (simp add: take_bit_eq_mod)
  show "push_bit 4 (drop_bit 4 b) OR (b AND 0xF) = b"
    unfolding m
    by (rule bit_word_eqI) (auto simp: bit_or_iff bit_and_iff bit_push_bit_iff bit_drop_bit_eq bit_mask_iff)
qed

lemma hexNibble_hex_byte:
  "hexNibble (hexDigits ! unat (drop_bit 4 b)) = drop_bit 4 b"
  "hexNibble (hexDigits ! unat (b AND 0xF)) = b AND 0xF"
  by (simp_all only: hexNibble_digit(1) [OF byte_nibbles(1)] hexNibble_digit(1) [OF byte_nibbles(2)]
        of_nat_unat ucast_id)

lemma nibble_not_FF: "drop_bit 4 (b :: byte) \<noteq> 0xFF" "b AND 0xF \<noteq> 0xFF"
  using byte_nibbles(1,2) [of b] by auto

lemma ParseUUIDOk_String:
  assumes "uuid_ok u"
  shows "ParseUUIDOk (UUID_String u) = Some u"
proof -
  obtain oct0 oct1 oct2 oct3 oct4 oct5 oct6 oct7 oct8 oct9 oct10 oct11 oct12 oct13 oct14 oct15 where
    u: "u = [oct0, oct1, oct2, oct3, oct4, oct5, oct6, oct7, oct8, oct9, oct10, oct11, oct12, oct13, oct14, oct15]"
    using uuid_ok_expand [OF assms] by blast
  show ?thesis
    by (simp add: u ParseUUIDOk_def UUID_String_def writeHyphenated_def hex_Encode_def hex_byte_def
        uuidByteOff_def hexNibble_hex_byte nibble_not_FF byte_nibbles(3))
qed


text \<open>What the parser accepts has 16 bytes.\<close>

lemma parseUUID_loop_length:
  "parseUUID_loop s offs u = Some v \<Longrightarrow> length v = length u + length offs"
  by (induction s offs u rule: parseUUID_loop.induct) (auto simp: Let_def split: if_splits)

lemma ParseUUIDOk_ok: "ParseUUIDOk s = Some u \<Longrightarrow> uuid_ok u"
  using parseUUID_loop_length [of s uuidByteOff "[]" u]
  by (simp add: ParseUUIDOk_def uuid_ok_def uuidByteOff_def del: parseUUID_loop.simps split: if_splits)

section \<open>The generator: stamps\<close>

text \<open>Invariant of the packed word: the counter field uses 12 of its 16 bits.\<close>

definition stamp_ok :: "uint64 \<Rightarrow> bool" where
  "stamp_ok w \<longleftrightarrow> unat w mod 2 ^ 16 < 2 ^ 12"

lemma unat_and_FFFF: "unat ((w :: uint64) AND 0xFFFF) = unat w mod 2 ^ 16"
proof -
  have "(0xFFFF :: uint64) = mask 16" by (simp add: mask_eq_exp_minus_1)
  then have "unat (w AND 0xFFFF) = take_bit 16 (unat w)"
    by (simp only: take_bit_eq_mask [symmetric] unsigned_take_bit_eq)
  then show ?thesis by (simp only: take_bit_eq_mod)
qed

lemma unat_drop_bit_16: "unat (drop_bit 16 (w :: uint64)) = unat w div 2 ^ 16"
  by (simp add: drop_bit_eq_div unat_div)

lemma unat_push_bit_16:
  "unat (w :: uint64) < 2 ^ 48 \<Longrightarrow> unat (push_bit 16 w) = unat w * 2 ^ 16"
  unfolding unsigned_push_bit_eq by (simp add: push_bit_eq_mult take_bit_nat_eq_self)

lemma stampNext_cases:
  assumes now: "unat now < 2 ^ 47" and cur: "unat cur < 2 ^ 63" and ok: "stamp_ok cur"
  shows "unat (stampNext now cur) =
    (if unat now > unat cur div 2 ^ 16 then unat now * 2 ^ 16
     else if Suc (unat cur) mod 2 ^ 16 \<ge> 2 ^ 12 then (unat cur div 2 ^ 16 + 1) * 2 ^ 16
     else Suc (unat cur))"
proof -
  have c: "unat cur div 2 ^ 16 < 2 ^ 47" using cur by simp
  have "sint now = int (unat now)" using now by (intro sint_small) simp
  moreover have "sint (drop_bit 16 cur) = int (unat cur div 2 ^ 16)"
    using c by (subst sint_small) (simp_all add: unat_drop_bit_16 del: of_nat_unat)
  ultimately have gt: "sint now > sint (drop_bit 16 cur) \<longleftrightarrow> unat now > unat cur div 2 ^ 16"
    by (simp del: of_nat_unat)
  have one: "unat (cur + 1) = Suc (unat cur)"
    using cur unat_add_lem [of cur 1] by simp
  have low: "cur + 1 AND 0xFFFF > 0x0FFF \<longleftrightarrow> Suc (unat cur) mod 2 ^ 16 \<ge> 2 ^ 12"
    by (simp add: word_less_nat_alt unat_and_FFFF one) linarith
  have dm: "unat (drop_bit 16 cur + 1) = unat cur div 2 ^ 16 + 1"
    using c unat_add_lem [of "drop_bit 16 cur" 1] by (simp add: unat_drop_bit_16)
  have "unat (push_bit 16 (drop_bit 16 cur + 1)) = (unat cur div 2 ^ 16 + 1) * 2 ^ 16"
    using c by (subst unat_push_bit_16) (simp_all add: dm)
  moreover have "unat (push_bit 16 now) = unat now * 2 ^ 16"
    using now by (intro unat_push_bit_16) simp
  ultimately show ?thesis by (simp add: stampNext_def gt low one Let_def)
qed


text \<open>One claim: the word strictly grows, keeps its shape, and gains at most one millisecond over the clock.\<close>

lemma stampNext_step:
  assumes now: "unat now < 2 ^ 46" and ok: "stamp_ok cur"
    and bound: "unat cur < (2 ^ 46 + n) * 2 ^ 16" "n < 2 ^ 46"
  shows "unat cur < unat (stampNext now cur) \<and> stamp_ok (stampNext now cur) \<and>
    unat (stampNext now cur) < (2 ^ 46 + Suc n) * 2 ^ 16"
proof -
  define q r where "q = unat cur div 2 ^ 16" and "r = unat cur mod 2 ^ 16"
  have split: "unat cur = q * 2 ^ 16 + r" by (simp add: q_def r_def)
  have r: "r < 2 ^ 12" using ok by (simp add: stamp_ok_def r_def)
  have q: "q < 2 ^ 46 + n" using bound(1) unfolding q_def by (simp add: div_less_iff_less_mult)
  have cur: "unat cur < 2 ^ 63" using bound by simp
  have low: "Suc (unat cur) mod 2 ^ 16 = Suc r" using r by (simp add: split mod_mult_self1 flip: add_Suc_right)
  note eq = stampNext_cases [OF _ cur ok, of now, folded q_def, unfolded low]
  consider (clock) "unat now > q" | (borrow) "\<not> unat now > q" "Suc r \<ge> 2 ^ 12"
    | (count) "\<not> unat now > q" "\<not> Suc r \<ge> 2 ^ 12" by blast
  then show ?thesis
  proof cases
    case clock
    then have "Suc q * 2 ^ 16 \<le> unat now * 2 ^ 16" by (intro mult_le_mono1) simp
    with clock now r show ?thesis by (simp add: eq stamp_ok_def split)
  next
    case borrow
    with now r q show ?thesis by (simp add: eq stamp_ok_def split)
  next
    case count
    with now r q show ?thesis
      using low by (simp add: eq stamp_ok_def split)
  qed
qed

text \<open>
  The invariant of the concurrent generator.  Pending clock readings stay in range; the claims are
  strictly decreasing from the newest, none above the current word.
\<close>

primrec stampPc_ok :: "stampPc \<Rightarrow> bool" where
  "stampPc_ok Idle \<longleftrightarrow> True"
| "stampPc_ok (Calling now) \<longleftrightarrow> unat now < 2 ^ 46"
| "stampPc_ok (Loaded now cur) \<longleftrightarrow> unat now < 2 ^ 46"

definition stampInv :: "stampSys \<Rightarrow> bool" where
  "stampInv s \<longleftrightarrow>
     (\<forall>i. stampPc_ok (callers s i)) \<and>
     (length (claimed s) \<le> 2 ^ 46 \<longrightarrow>
        stamp_ok (uuidStamp s) \<and>
        unat (uuidStamp s) < (2 ^ 46 + length (claimed s)) * 2 ^ 16 \<and>
        (\<forall>c \<in> set (claimed s). unat c \<le> unat (uuidStamp s) \<and> stamp_ok c) \<and>
        sorted_wrt (\<lambda>a b. b < a) (claimed s))"

lemma stampInv_init: "stampInv stampInit"
  by (simp add: stampInv_def stampInit_def stamp_ok_def)

lemma stampInv_pc: "stampInv s \<Longrightarrow> stampPc_ok (callers s i)"
  by (simp add: stampInv_def)

lemma stampInv_claim:
  assumes inv: "stampInv s" and pc: "callers s i = Loaded now (uuidStamp s)"
  shows "stampInv (s\<lparr>uuidStamp := stampNext now (uuidStamp s), callers := (callers s)(i := Idle),
     claimed := stampNext now (uuidStamp s) # claimed s\<rparr>)"
proof -
  let ?cur = "uuidStamp s" and ?n = "length (claimed s)"
  have now: "unat now < 2 ^ 46" using stampInv_pc [OF inv, of i] by (simp add: pc)
  have grow: "unat ?cur < unat (stampNext now ?cur) \<and> stamp_ok (stampNext now ?cur) \<and>
      unat (stampNext now ?cur) < (2 ^ 46 + Suc ?n) * 2 ^ 16" if "Suc ?n \<le> 2 ^ 46"
    using inv that by (intro stampNext_step now) (auto simp: stampInv_def)
  have old: "unat c < unat (stampNext now ?cur)" if "Suc ?n \<le> 2 ^ 46" "c \<in> set (claimed s)" for c
    using inv that grow [OF that(1)] by (fastforce simp: stampInv_def)
  show ?thesis
    using inv grow old unfolding stampInv_def
    by (auto simp: word_less_nat_alt less_imp_le)
qed

lemma stampStep_inv: "stampStep s t \<Longrightarrow> stampInv s \<Longrightarrow> stampInv t"
proof (induction rule: stampStep.induct)
  case (cas_ok s i now cur)
  then show ?case using stampInv_claim [of s i now] by simp
next
  case (cas_fail s i now cur)
  then have "unat now < 2 ^ 46" using stampInv_pc [of s i] by simp
  with cas_fail(3) show ?case by (simp add: stampInv_def)
next
  case (load s i now)
  then have "unat now < 2 ^ 46" using stampInv_pc [of s i] by simp
  with load(2) show ?case by (simp add: stampInv_def)
qed (simp add: stampInv_def)

lemma stampReach_inv: "stampReach s \<Longrightarrow> stampInv s"
  by (induction rule: stampReach.induct) (auto intro: stampInv_init stampStep_inv)


section \<open>The generator: identifiers\<close>

lemma stamp_ok_bits:
  assumes "stamp_ok w" and "12 \<le> i" and "i < 16"
  shows "\<not> bit w i"
proof
  assume "bit w i"
  then have "bit (unat w) i" by (simp add: bit_unsigned_iff)
  then have "bit (take_bit 16 (unat w)) i" using assms(3) by (simp only: bit_take_bit_iff simp_thms)
  then have "2 ^ i \<le> unat w mod 2 ^ 16"
    unfolding take_bit_eq_mod by (metis bit_iff_odd div_less even_zero not_le)
  moreover have "(2 :: nat) ^ 12 \<le> 2 ^ i" using assms(2) by (intro power_increasing) simp_all
  ultimately show False using assms(1) by (simp add: stamp_ok_def)
qed

text \<open>The first eight bytes are the stamp with the version nibble set, big-endian.\<close>

lemma NewUUIDv7_head:
  assumes "stamp_ok w"
  shows "take 8 (NewUUIDv7 (stampMs w) (stampCounter w) rb) = be_put 8 (w OR 0x7000)"
proof -
  have n: "(0x7000 :: uint64) = push_bit 12 (mask 3)" "(0xFFFF :: uint64) = mask 16"
    "(0x0F :: uint16) = mask 4" "(0x70 :: byte) = push_bit 4 (mask 3)"
    by (simp_all add: mask_eq_exp_minus_1 push_bit_eq_mult)
  have be: "be_put 8 v = [ucast (drop_bit 56 v), ucast (drop_bit 48 v), ucast (drop_bit 40 v),
      ucast (drop_bit 32 v), ucast (drop_bit 24 v), ucast (drop_bit 16 v), ucast (drop_bit 8 v),
      ucast v]" for v :: uint64
    by (simp add: be_put_def le_put_def upt_rec)
  note bits = bit_or_iff bit_and_iff bit_push_bit_iff bit_drop_bit_eq bit_mask_iff bit_ucast_iff
    bit_signed_drop_bit_iff
  have hi: "ucast (signed_drop_bit k (stampMs w)) = (ucast (drop_bit (16 + k) (w OR 0x7000)) :: byte)"
    if "k \<le> 40" for k
    using that unfolding n stampMs_def
    by (intro bit_word_eqI) (auto simp: bits ac_simps)
  have v: "0x70 OR ucast (drop_bit 8 (stampCounter w) AND 0x0F) = (ucast (drop_bit 8 (w OR 0x7000)) :: byte)"
    using stamp_ok_bits [OF assms] unfolding n stampCounter_def
    by (intro bit_word_eqI) (auto simp: bits)
  have c: "ucast (stampCounter w) = (ucast (w OR 0x7000) :: byte)"
    unfolding n stampCounter_def by (intro bit_word_eqI) (auto simp: bits)
  show ?thesis
    using hi [of 40] hi [of 32] hi [of 24] hi [of 16] hi [of 8] hi [of 0] v c
    by (simp add: NewUUIDv7_def be)
qed

lemma stamp_or_version: 
  assumes "stamp_ok w"
  shows "unat (w OR 0x7000) = unat w + 0x7000"
proof -
  have n: "(0x7000 :: uint64) = push_bit 12 (mask 3)" by (simp add: mask_eq_exp_minus_1 push_bit_eq_mult)
  have "w AND 0x7000 = 0"
    unfolding n by (rule bit_word_eqI) (use stamp_ok_bits [OF assms] in \<open>auto simp: bit_and_iff bit_push_bit_iff bit_mask_iff\<close>)
  then have "w OR 0x7000 = w + 0x7000" by (simp add: disjunctive_add_eq_or)
  moreover have "unat w + 0x7000 < 2 ^ 64"
  proof -
    define q r where "q = unat w div 2 ^ 16" and "r = unat w mod 2 ^ 16"
    have w: "unat w = q * 2 ^ 16 + r" by (simp add: q_def r_def)
    have "r < 2 ^ 12" using assms by (simp add: stamp_ok_def r_def)
    moreover have "unat w < 2 ^ 48 * 2 ^ 16" using unsigned_less [of w] by simp
    then have "q < 2 ^ 48" unfolding q_def by (rule less_mult_imp_div_less)
    ultimately show ?thesis by (simp add: w)
  qed
  ultimately show ?thesis
    using unat_add_lem [of w "0x7000"] by simp
qed

lemma NewUUIDv7_less:
  assumes "stamp_ok w" "stamp_ok w'" "w < w'"
  shows "NewUUIDv7 (stampMs w) (stampCounter w) rb < NewUUIDv7 (stampMs w') (stampCounter w') rb'"
    (is "?u < ?u'")
proof -
  have "w OR 0x7000 < w' OR 0x7000"
    using assms by (simp add: word_less_nat_alt stamp_or_version)
  then have "take 8 ?u < take 8 ?u'"
    using assms(1,2) by (simp add: NewUUIDv7_head be_put_less_iff)
  moreover have "length (take 8 ?u) = length (take 8 ?u')" by (simp add: NewUUIDv7_def)
  ultimately have "take 8 ?u @ drop 8 ?u < take 8 ?u' @ drop 8 ?u'"
    by (simp only: append_less_iff simp_thms)
  then show ?thesis by simp
qed

lemma bit_0x80: "bit (0x80 :: int) i \<longleftrightarrow> i = 7"
  using bit_exp_iff [where ?'a = int, of 7 i] by auto

lemma NewUUIDv7_IsV7: "IsV7 (NewUUIDv7 ms c rb) \<and> uuid_ok (NewUUIDv7 ms c rb)"
proof -
  have n: "(0x3F :: byte) = mask 6" "(0x0F :: uint16) = mask 4" "(0x70 :: byte) = push_bit 4 (mask 3)"
    "(0xC0 :: byte) = push_bit 6 (mask 2)" "(7 :: byte) = mask 3"
    by (simp_all add: mask_eq_exp_minus_1 push_bit_eq_mult)
  note bits = bit_or_iff bit_and_iff bit_push_bit_iff bit_drop_bit_eq bit_mask_iff bit_ucast_iff
  have "drop_bit 4 (0x70 OR ucast (drop_bit 8 c AND 0x0F) :: byte) = 7"
    unfolding n by (rule bit_word_eqI) (auto simp: bits)
  moreover have "(0x80 OR (b AND 0x3F)) AND 0xC0 = 0x80" for b :: byte
    unfolding n by (rule bit_word_eqI) (auto simp: bits bit_0x80)
  ultimately show ?thesis by (simp add: IsV7_def Version_def NewUUIDv7_def uuid_ok_def)
qed

lemma read8_ok:
  assumes "randShard_ok p" and "length fresh = 4080"
  shows "length (fst (read8 fresh p)) = 8 \<and> randShard_ok (snd (read8 fresh p))"
  using assms by (auto simp: read8_def randShard_ok_def Let_def)

section \<open>Properties\<close>

text \<open>
  C6.  Text round trip: the canonical 36-byte text of a UUID parses back to that UUID.
\<close>

theorem uuid_text_roundtrip:
  assumes "uuid_ok u"
  shows "length (UUID_String u) = 36 \<and> ParseUUID (UUID_String u) = Inr u"
proof -
  obtain oct0 oct1 oct2 oct3 oct4 oct5 oct6 oct7 oct8 oct9 oct10 oct11 oct12 oct13 oct14 oct15
    where "u = [oct0, oct1, oct2, oct3, oct4, oct5, oct6, oct7, oct8, oct9, oct10, oct11, oct12, oct13, oct14, oct15]"
    using assms by (rule uuid_ok_expand)
  then have "length (UUID_String u) = 36"
    by (simp add: UUID_String_def writeHyphenated_def hex_Encode_def hex_byte_def)
  with assms show ?thesis by (simp add: ParseUUID_def ParseUUIDOk_String)
qed

theorem uuid_text_roundtrip_witness:
  "ParseUUID (UUID_String [1, 143, 10, 0, 255, 16, 112, 1, 128, 2, 3, 4, 5, 6, 7, 250]) =
     Inr [1, 143, 10, 0, 255, 16, 112, 1, 128, 2, 3, 4, 5, 6, 7, 250]"
  using uuid_text_roundtrip [of "[1, 143, 10, 0, 255, 16, 112, 1, 128, 2, 3, 4, 5, 6, 7, 250]"]
  by (simp add: uuid_ok_def)



end
