(* ===== verification/PkMap.thy ===== *)
theory PkMap
  imports Uuids "HOL-Library.While_Combinator" "HOL-Library.Monad_Syntax"
begin

text \<open>
  \<open>pkmap.go\<close>: the linear-probed, open-addressed table from primary key to row number, with its
  backward-shift deletion and its growth.  The probe loops have no bound of their own, so they are
  partial functions: \<open>None\<close> is a loop that never ends or an index out of range (a panic).  Under the
  invariant \<open>pk_inv\<close> every operation returns, and implements the corresponding operation on the
  map \<open>pk_abs\<close>.

  Row numbers, slot numbers and counts are natural numbers: they index arrays in memory and never
  come near \<open>2 ^ 64\<close>.  The hash is computed on 64-bit words.
\<close>

section \<open>The table\<close>

record pkSlot =
  skey :: UUID
  sref :: nat

record pkMap =
  slots :: "pkSlot list"
  shift :: nat
  used :: int

definition emptySlot :: pkSlot where
  "emptySlot = \<lparr>skey = zeroUUID, sref = 0\<rparr>"

definition emptyPkMap :: pkMap where
  "emptyPkMap = \<lparr>slots = [], shift = 0, used = 0\<rparr>"

text \<open>\<open>pkHashSeed\<close>, drawn once per process, is the parameter \<open>seed\<close>.\<close>

definition pkHome :: "uint64 \<Rightarrow> UUID \<Rightarrow> nat \<Rightarrow> nat" where
  "pkHome seed k sh =
     (let a = le_get (take 8 k); b = le_get (take 8 (drop 8 k))
      in unat (drop_bit sh ((a XOR word_rotl 32 b XOR seed) * 0xBF58476D1CE4E5B9)))"

text \<open>\<open>bits.Len\<close>.\<close>

fun bitsLen :: "nat \<Rightarrow> nat" where
  "bitsLen n = (if n = 0 then 0 else Suc (bitsLen (n div 2)))"

declare bitsLen.simps [simp del]

definition newSlots :: "nat \<Rightarrow> pkMap \<Rightarrow> pkMap" where
  "newSlots n m = m\<lparr>slots := replicate n emptySlot, shift := 64 - bitsLen (n - 1)\<rparr>"

definition pk_init :: "nat \<Rightarrow> pkMap \<Rightarrow> pkMap" where
  "pk_init hint m = newSlots (while (\<lambda>n. 4 * hint > 3 * n) (\<lambda>n. 2 * n) 16) m"

section \<open>Probing\<close>

definition nxt :: "pkSlot list \<Rightarrow> nat \<Rightarrow> nat" where
  "nxt sl i = (i + 1) AND (length sl - 1)"

partial_function (option) get_loop :: "pkSlot list \<Rightarrow> UUID \<Rightarrow> nat \<Rightarrow> nat option option" where
  "get_loop sl k i =
     (if i \<ge> length sl then None
      else if sref (sl ! i) = 0 then Some None
      else if skey (sl ! i) = k then Some (Some (sref (sl ! i) - 1))
      else get_loop sl k (nxt sl i))"

definition pk_get :: "uint64 \<Rightarrow> pkMap \<Rightarrow> UUID \<Rightarrow> nat option option" where
  "pk_get seed m k =
     (if length (slots m) = 0 then Some None else get_loop (slots m) k (pkHome seed k (shift m)))"

partial_function (option) find_loop :: "pkSlot list \<Rightarrow> UUID \<Rightarrow> nat \<Rightarrow> (nat \<times> nat) option option" where
  "find_loop sl k i =
     (if i \<ge> length sl then None
      else if sref (sl ! i) = 0 then Some None
      else if skey (sl ! i) = k then Some (Some (i, sref (sl ! i) - 1))
      else find_loop sl k (nxt sl i))"

definition pk_find :: "uint64 \<Rightarrow> pkMap \<Rightarrow> UUID \<Rightarrow> (nat \<times> nat) option option" where
  "pk_find seed m k =
     (if length (slots m) = 0 then Some None else find_loop (slots m) k (pkHome seed k (shift m)))"

text \<open>The inner loop of \<open>grow\<close>: the first empty slot from the home slot on.\<close>

partial_function (option) place_loop :: "pkSlot list \<Rightarrow> nat \<Rightarrow> nat option" where
  "place_loop sl i =
     (if i \<ge> length sl then None
      else if sref (sl ! i) \<noteq> 0 then place_loop sl (nxt sl i)
      else Some i)"

fun grow_loop :: "uint64 \<Rightarrow> nat \<Rightarrow> pkSlot list \<Rightarrow> pkSlot list \<Rightarrow> pkSlot list option" where
  "grow_loop seed sh [] sl = Some sl"
| "grow_loop seed sh (x # old) sl =
     (if sref x = 0 then grow_loop seed sh old sl
      else do {
        i \<leftarrow> place_loop sl (pkHome seed (skey x) sh);
        grow_loop seed sh old (sl[i := x])
      })"

definition pk_grow :: "uint64 \<Rightarrow> pkMap \<Rightarrow> pkMap option" where
  "pk_grow seed m =
     (let n = (if length (slots m) * 2 < 16 then 16 else length (slots m) * 2);
          m' = newSlots n m
      in do {
        sl \<leftarrow> grow_loop seed (shift m') (slots m) (slots m');
        Some (m'\<lparr>slots := sl\<rparr>)
      })"

partial_function (option) reserve_loop :: "pkSlot list \<Rightarrow> UUID \<Rightarrow> nat \<Rightarrow> (nat \<times> bool) option" where
  "reserve_loop sl k i =
     (if i \<ge> length sl then None
      else if sref (sl ! i) = 0 then Some (i, False)
      else if skey (sl ! i) = k then Some (i, True)
      else reserve_loop sl k (nxt sl i))"

definition pk_reserve :: "uint64 \<Rightarrow> pkMap \<Rightarrow> UUID \<Rightarrow> (nat \<times> bool \<times> pkMap) option" where
  "pk_reserve seed m k = do {
     m' \<leftarrow> (if 4 * (used m + 1) > 3 * int (length (slots m)) then pk_grow seed m else Some m);
     (slot, found) \<leftarrow> reserve_loop (slots m') k (pkHome seed k (shift m'));
     Some (slot, found, m')
   }"

definition pk_commit :: "pkMap \<Rightarrow> nat \<Rightarrow> UUID \<Rightarrow> nat \<Rightarrow> pkMap" where
  "pk_commit m slot k rowID =
     m\<lparr>slots := (slots m)[slot := \<lparr>skey = k, sref = rowID + 1\<rparr>], used := used m + 1\<rparr>"

definition pk_put :: "uint64 \<Rightarrow> pkMap \<Rightarrow> UUID \<Rightarrow> nat \<Rightarrow> pkMap option" where
  "pk_put seed m k rowID = do {
     (slot, found, m') \<leftarrow> pk_reserve seed m k;
     let m'' = m'\<lparr>slots := (slots m')[slot := \<lparr>skey = k, sref = rowID + 1\<rparr>]\<rparr>;
     Some (if \<not> found then m''\<lparr>used := used m'' + 1\<rparr> else m'')
   }"

section \<open>Deletion\<close>

partial_function (option) delAt_loop ::
  "(UUID \<Rightarrow> nat) \<Rightarrow> pkSlot list \<Rightarrow> nat \<Rightarrow> nat \<Rightarrow> pkSlot list option" where
  "delAt_loop home sl i j0 =
     (let j = nxt sl j0; x = sl ! j; h = home (skey x)
      in if j \<ge> length sl then None
         else if sref x = 0 then Some (sl[i := emptySlot])
         else if (j > i \<and> (h \<le> i \<or> h > j)) \<or> (j < i \<and> (h \<le> i \<and> h > j))
         then delAt_loop home (sl[i := x]) j j
         else delAt_loop home sl i j)"

definition pk_delAt :: "uint64 \<Rightarrow> pkMap \<Rightarrow> nat \<Rightarrow> pkMap option" where
  "pk_delAt seed m i = do {
     sl \<leftarrow> delAt_loop (\<lambda>k. pkHome seed k (shift m)) (slots m) i i;
     Some (m\<lparr>slots := sl, used := used m - 1\<rparr>)
   }"

definition pk_del :: "uint64 \<Rightarrow> pkMap \<Rightarrow> UUID \<Rightarrow> (nat option \<times> pkMap) option" where
  "pk_del seed m k = do {
     r \<leftarrow> pk_find seed m k;
     (case r of
        None \<Rightarrow> Some (None, m)
      | Some (i, rowID) \<Rightarrow> do { m' \<leftarrow> pk_delAt seed m i; Some (Some rowID, m') })
   }"

section \<open>Cyclic distance\<close>

text \<open>\<open>dist n a b\<close> is the number of steps from slot \<open>a\<close> forward to slot \<open>b\<close> in a ring of \<open>n\<close> slots.\<close>

definition dist :: "nat \<Rightarrow> nat \<Rightarrow> nat \<Rightarrow> nat" where
  "dist n a b = (if a \<le> b then b - a else b + n - a)"

definition succ_mod :: "nat \<Rightarrow> nat \<Rightarrow> nat" where
  "succ_mod n i = (if Suc i = n then 0 else Suc i)"

lemma dist_self [simp]: "dist n a a = 0"
  by (simp add: dist_def)

lemma dist_less: "a < n \<Longrightarrow> b < n \<Longrightarrow> dist n a b < n"
  by (auto simp: dist_def)

lemma dist_eq_0: "a < n \<Longrightarrow> b < n \<Longrightarrow> dist n a b = 0 \<longleftrightarrow> a = b"
  by (auto simp: dist_def)

lemma succ_mod_less: "i < n \<Longrightarrow> succ_mod n i < n"
  by (auto simp: succ_mod_def)

lemma dist_succ_left: "i < n \<Longrightarrow> e < n \<Longrightarrow> i \<noteq> e \<Longrightarrow> dist n i e = Suc (dist n (succ_mod n i) e)"
  by (auto simp: dist_def succ_mod_def)

lemma dist_succ_right:
  "a < n \<Longrightarrow> i < n \<Longrightarrow> succ_mod n i \<noteq> a \<Longrightarrow> dist n a (succ_mod n i) = Suc (dist n a i)"
  by (auto simp: dist_def succ_mod_def split: if_splits)

lemma dist_inj: "a < n \<Longrightarrow> b < n \<Longrightarrow> c < n \<Longrightarrow> dist n a b = dist n a c \<longleftrightarrow> b = c"
  by (auto simp: dist_def split: if_splits)

text \<open>The condition of \<open>delAt\<close> says that the gap lies on the entry's probe path.\<close>

lemma move_cond_iff:
  assumes "i < n" "j < n" "h < n" "i \<noteq> j"
  shows "(j > i \<and> (h \<le> i \<or> h > j)) \<or> (j < i \<and> (h \<le> i \<and> h > j)) \<longleftrightarrow> dist n h i < dist n h j"
  using assms by (auto simp: dist_def)

lemma nxt_succ_mod:
  assumes "length sl = 2 ^ b" and "i < length sl"
  shows "nxt sl i = succ_mod (length sl) i"
proof -
  have "nxt sl i = take_bit b (i + 1)"
    using assms(1) by (simp add: nxt_def take_bit_eq_mask mask_eq_exp_minus_1)
  then have "nxt sl i = (i + 1) mod length sl" using assms(1) by (simp add: take_bit_eq_mod)
  then show ?thesis using assms(2) by (auto simp: succ_mod_def)
qed


section \<open>The probe invariant\<close>

definition occ :: "pkSlot list \<Rightarrow> nat \<Rightarrow> bool" where
  "occ sl p \<longleftrightarrow> sref (sl ! p) \<noteq> 0"

text \<open>
  Every slot on the way from an entry's home slot to the entry is occupied.  \<open>hole\<close> is a slot whose
  content does not count as an entry (\<open>None\<close>: every occupied slot is one).
\<close>

definition reach :: "(UUID \<Rightarrow> nat) \<Rightarrow> pkSlot list \<Rightarrow> nat option \<Rightarrow> bool" where
  "reach h sl hole \<longleftrightarrow>
     (\<forall>p q. p < length sl \<longrightarrow> q < length sl \<longrightarrow> occ sl p \<longrightarrow> hole \<noteq> Some p \<longrightarrow>
        dist (length sl) (h (skey (sl ! p))) q < dist (length sl) (h (skey (sl ! p))) p \<longrightarrow> occ sl q)"

definition dkeys :: "pkSlot list \<Rightarrow> nat option \<Rightarrow> bool" where
  "dkeys sl hole \<longleftrightarrow>
     (\<forall>p q. p < length sl \<longrightarrow> q < length sl \<longrightarrow> occ sl p \<longrightarrow> occ sl q \<longrightarrow>
        hole \<noteq> Some p \<longrightarrow> hole \<noteq> Some q \<longrightarrow> skey (sl ! p) = skey (sl ! q) \<longrightarrow> p = q)"

definition entries :: "pkSlot list \<Rightarrow> nat option \<Rightarrow> (UUID \<times> nat) set" where
  "entries sl hole =
     {(skey (sl ! p), sref (sl ! p) - 1) | p. p < length sl \<and> occ sl p \<and> hole \<noteq> Some p}"

definition occupied :: "pkSlot list \<Rightarrow> nat" where
  "occupied sl = length (filter (\<lambda>x. sref x \<noteq> 0) sl)"

definition probe_ok :: "(UUID \<Rightarrow> nat) \<Rightarrow> pkSlot list \<Rightarrow> bool" where
  "probe_ok h sl \<longleftrightarrow>
     (\<exists>b. length sl = 2 ^ b) \<and> (\<forall>k. h k < length sl) \<and> reach h sl None \<and> dkeys sl None"

lemma free_slot: "occupied sl < length sl \<Longrightarrow> \<exists>e < length sl. \<not> occ sl e"
proof (rule ccontr)
  assume "\<not> (\<exists>e < length sl. \<not> occ sl e)"
  then have "\<forall>x \<in> set sl. sref x \<noteq> 0" by (auto simp: occ_def in_set_conv_nth)
  then have "occupied sl = length sl" by (simp add: occupied_def)
  moreover assume "occupied sl < length sl"
  ultimately show False by simp
qed

lemma occupied_update:
  assumes "p < length sl"
  shows "occupied (sl[p := x]) + (if occ sl p then 1 else 0) = occupied sl + (if sref x \<noteq> 0 then 1 else 0)"
  using assms
proof (induction sl arbitrary: p)
  case Nil
  then show ?case by simp
next
  case (Cons a sl)
  show ?case
  proof (cases p)
    case 0
    then show ?thesis by (simp add: occupied_def occ_def)
  next
    case (Suc q)
    then show ?thesis using Cons.IH [of q] Cons.prems by (simp add: occupied_def occ_def)
  qed
qed

text \<open>Walking the ring from \<open>i\<close> to \<open>e\<close>.\<close>

lemma ring_walk:
  assumes len: "length sl = 2 ^ b" and i: "i < length sl" and e: "e < length sl" and base: "P e"
    and step: "\<And>q. q < length sl \<Longrightarrow> dist (length sl) i q < dist (length sl) i e \<Longrightarrow> P (nxt sl q) \<Longrightarrow> P q"
  shows "P i"
  using i step
proof (induction "dist (length sl) i e" arbitrary: i)
  case 0
  then have "i = e" using e by (simp add: dist_eq_0)
  then show ?case using base by simp
next
  case (Suc d)
  let ?n = "length sl" and ?j = "succ_mod (length sl) i"
  have ne: "i \<noteq> e" using Suc.hyps(2) by auto
  have j: "?j < ?n" using Suc.prems(1) by (rule succ_mod_less)
  have d: "dist ?n i e = Suc (dist ?n ?j e)" using Suc.prems(1) e ne by (rule dist_succ_left)
  have "P ?j"
  proof (rule Suc.hyps(1))
    show "d = dist ?n ?j e" using d Suc.hyps(2) by simp
    fix q assume q: "q < ?n" "dist ?n ?j q < dist ?n ?j e" "P (nxt sl q)"
    have "q \<noteq> i"
    proof
      assume "q = i"
      then have "dist ?n ?j q = ?n - 1" using Suc.prems(1) by (auto simp: dist_def succ_mod_def)
      moreover have "dist ?n ?j e < ?n" using j e by (rule dist_less)
      ultimately show False using q(2) by simp
    qed
    then have "dist ?n i q = Suc (dist ?n ?j q)" using Suc.prems(1) q(1) by (intro dist_succ_left) auto
    then have "dist ?n i q < dist ?n i e" using q(2) d by simp
    with q(1) show "P q" using q(3) by (rule Suc.prems(2))
  qed (rule j)
  then have "P (nxt sl i)" using len Suc.prems(1) by (simp add: nxt_succ_mod)
  moreover have "dist ?n i i < dist ?n i e" using d by simp
  ultimately show ?case using Suc.prems(1) by (intro Suc.prems(2) [of i])
qed

text \<open>A probe that stops at \<open>e\<close>: every slot before it is occupied by another key.\<close>

definition stops_at :: "(UUID \<Rightarrow> nat) \<Rightarrow> pkSlot list \<Rightarrow> UUID \<Rightarrow> nat \<Rightarrow> bool" where
  "stops_at h sl k e \<longleftrightarrow> e < length sl \<and> (\<not> occ sl e \<or> skey (sl ! e) = k) \<and>
     (\<forall>q < length sl. dist (length sl) (h k) q < dist (length sl) (h k) e \<longrightarrow>
        occ sl q \<and> skey (sl ! q) \<noteq> k)"

lemma probe_loops:
  assumes ok: "probe_ok h sl" and e: "stops_at h sl k e"
  shows "get_loop sl k (h k) = Some (if occ sl e then Some (sref (sl ! e) - 1) else None)"
    and "find_loop sl k (h k) = Some (if occ sl e then Some (e, sref (sl ! e) - 1) else None)"
    and "reserve_loop sl k (h k) = Some (e, occ sl e)"
proof -
  obtain b where len: "length sl = 2 ^ b" using ok by (auto simp: probe_ok_def)
  have hk: "h k < length sl" using ok by (simp add: probe_ok_def)
  note E = e [unfolded stops_at_def]
  show "get_loop sl k (h k) = Some (if occ sl e then Some (sref (sl ! e) - 1) else None)"
    by (rule ring_walk [OF len hk, of e]; (subst get_loop.simps)?; use E in \<open>auto simp: occ_def\<close>)
  show "find_loop sl k (h k) = Some (if occ sl e then Some (e, sref (sl ! e) - 1) else None)"
    by (rule ring_walk [OF len hk, of e]; (subst find_loop.simps)?; use E in \<open>auto simp: occ_def\<close>)
  show "reserve_loop sl k (h k) = Some (e, occ sl e)"
    by (rule ring_walk [OF len hk, of e]; (subst reserve_loop.simps)?; use E in \<open>auto simp: occ_def\<close>)
qed

lemma stops_at_present:
  assumes ok: "probe_ok h sl" and p: "p < length sl" "occ sl p" "skey (sl ! p) = k"
  shows "stops_at h sl k p"
proof -
  have "occ sl q \<and> skey (sl ! q) \<noteq> k"
    if q: "q < length sl" "dist (length sl) (h k) q < dist (length sl) (h k) p" for q
  proof -
    have "occ sl q" using ok p q unfolding probe_ok_def reach_def by blast
    moreover have "q \<noteq> p" using q(2) by auto
    ultimately show ?thesis using ok p q(1) unfolding probe_ok_def dkeys_def by blast
  qed
  with p show ?thesis by (simp add: stops_at_def)
qed

lemma stops_at_absent:
  assumes free: "\<exists>e < length sl. \<not> occ sl e"
    and absent: "\<forall>p < length sl. occ sl p \<longrightarrow> skey (sl ! p) \<noteq> k"
  obtains e where "stops_at h sl k e" "\<not> occ sl e"
proof -
  obtain e where e: "e < length sl \<and> \<not> occ sl e"
    and least: "\<forall>q. q < length sl \<and> \<not> occ sl q \<longrightarrow> dist (length sl) (h k) e \<le> dist (length sl) (h k) q"
    using ex_has_least_nat [of "\<lambda>e. e < length sl \<and> \<not> occ sl e" _ "dist (length sl) (h k)"] free
    by metis
  then have "stops_at h sl k e"
    using absent by (auto simp: stops_at_def not_le [symmetric])
  with e show thesis by (intro that) auto
qed


section \<open>Abstraction to a map\<close>

definition slots_map :: "pkSlot list \<Rightarrow> UUID \<rightharpoonup> nat" where
  "slots_map sl = map_of (map (\<lambda>x. (skey x, sref x - 1)) (filter (\<lambda>x. sref x \<noteq> 0) sl))"

lemma reachI:
  assumes "\<And>p q. p < length sl \<Longrightarrow> q < length sl \<Longrightarrow> occ sl p \<Longrightarrow> hole \<noteq> Some p \<Longrightarrow>
     dist (length sl) (h (skey (sl ! p))) q < dist (length sl) (h (skey (sl ! p))) p \<Longrightarrow> occ sl q"
  shows "reach h sl hole"
  unfolding reach_def by (intro allI impI) (rule assms)

lemma reachD:
  "reach h sl hole \<Longrightarrow> p < length sl \<Longrightarrow> q < length sl \<Longrightarrow> occ sl p \<Longrightarrow> hole \<noteq> Some p \<Longrightarrow>
     dist (length sl) (h (skey (sl ! p))) q < dist (length sl) (h (skey (sl ! p))) p \<Longrightarrow> occ sl q"
  unfolding reach_def by blast

lemma dkeysI:
  assumes "\<And>p q. p < length sl \<Longrightarrow> q < length sl \<Longrightarrow> occ sl p \<Longrightarrow> occ sl q \<Longrightarrow>
     hole \<noteq> Some p \<Longrightarrow> hole \<noteq> Some q \<Longrightarrow> skey (sl ! p) = skey (sl ! q) \<Longrightarrow> p = q"
  shows "dkeys sl hole"
  unfolding dkeys_def by (intro allI impI) (rule assms)

lemma dkeysD:
  "dkeys sl hole \<Longrightarrow> p < length sl \<Longrightarrow> q < length sl \<Longrightarrow> occ sl p \<Longrightarrow> occ sl q \<Longrightarrow>
     hole \<noteq> Some p \<Longrightarrow> hole \<noteq> Some q \<Longrightarrow> skey (sl ! p) = skey (sl ! q) \<Longrightarrow> p = q"
  unfolding dkeys_def by blast

lemma entries_iff:
  "(k, r) \<in> entries sl hole \<longleftrightarrow>
     (\<exists>p < length sl. occ sl p \<and> hole \<noteq> Some p \<and> skey (sl ! p) = k \<and> sref (sl ! p) - 1 = r)"
  by (auto simp: entries_def)

lemma dkeys_distinct:
  "dkeys sl None \<Longrightarrow> distinct (map skey (filter (\<lambda>x. sref x \<noteq> 0) sl))"
proof (induction sl)
  case Nil
  then show ?case by simp
next
  case (Cons x sl)
  have "dkeys sl None"
    unfolding dkeys_def
  proof (intro allI impI)
    fix p q
    assume "p < length sl" "q < length sl" "occ sl p" "occ sl q" "skey (sl ! p) = skey (sl ! q)"
    then show "p = q"
      using dkeysD [OF Cons.prems, of "Suc p" "Suc q"] by (simp add: occ_def)
  qed
  moreover have "skey x \<notin> skey ` set (filter (\<lambda>x. sref x \<noteq> 0) sl)" if "sref x \<noteq> 0"
  proof
    assume "skey x \<in> skey ` set (filter (\<lambda>x. sref x \<noteq> 0) sl)"
    then obtain q where "q < length sl" "sref (sl ! q) \<noteq> 0" "skey (sl ! q) = skey x"
      by (auto simp: in_set_conv_nth)
    then show False
      using that dkeysD [OF Cons.prems, of 0 "Suc q"] by (simp add: occ_def)
  qed
  ultimately show ?case using Cons.IH by auto
qed

lemma slots_map_Some: "dkeys sl None \<Longrightarrow> slots_map sl k = Some r \<longleftrightarrow> (k, r) \<in> entries sl None"
proof -
  assume d: "dkeys sl None"
  have "distinct (map fst (map (\<lambda>x. (skey x, sref x - 1)) (filter (\<lambda>x. sref x \<noteq> 0) sl)))"
    using dkeys_distinct [OF d] by (simp add: comp_def)
  then have "slots_map sl k = Some r \<longleftrightarrow>
      (k, r) \<in> set (map (\<lambda>x. (skey x, sref x - 1)) (filter (\<lambda>x. sref x \<noteq> 0) sl))"
    unfolding slots_map_def by (rule map_of_eq_Some_iff)
  also have "\<dots> \<longleftrightarrow> (k, r) \<in> entries sl None"
    by (auto simp: entries_def occ_def in_set_conv_nth image_iff)
  finally show ?thesis .
qed

lemma slots_map_eqI:
  assumes "dkeys sl None" and "\<And>k r. (k, r) \<in> entries sl None \<longleftrightarrow> m k = Some r"
  shows "slots_map sl = m"
proof
  fix k show "slots_map sl k = m k"
    by (rule option_eqI) (simp add: slots_map_Some assms)
qed

section \<open>Insertion at the slot where the probe stopped\<close>

lemma insert_at_free:
  assumes ok: "probe_ok h sl" and e: "stops_at h sl k e" "\<not> occ sl e"
    and x: "skey x = k" "sref x \<noteq> 0"
    and absent: "\<forall>p < length sl. occ sl p \<longrightarrow> skey (sl ! p) \<noteq> k"
  shows "probe_ok h (sl[e := x])" "slots_map (sl[e := x]) = (slots_map sl)(k \<mapsto> sref x - 1)"
    "occupied (sl[e := x]) = Suc (occupied sl)"
proof -
  have en: "e < length sl" using e(1) by (simp add: stops_at_def)
  have occ': "occ (sl[e := x]) q \<longleftrightarrow> q = e \<or> occ sl q" if "q < length sl" for q
    using x(2) en that by (simp add: occ_def nth_list_update)
  have r: "reach h (sl[e := x]) None"
    unfolding reach_def
  proof (intro allI impI, simp only: length_list_update)
    fix p q assume p: "p < length sl" "occ (sl[e := x]) p" and q: "q < length sl"
      and d: "dist (length sl) (h (skey (sl[e := x] ! p))) q < dist (length sl) (h (skey (sl[e := x] ! p))) p"
    show "occ (sl[e := x]) q"
    proof (cases "p = e")
      case True
      with d en x(1) have "dist (length sl) (h k) q < dist (length sl) (h k) e" by simp
      with e(1) q show ?thesis by (simp add: stops_at_def occ')
    next
      case False
      with p have "occ sl p" by (simp add: occ')
      moreover from d False have "dist (length sl) (h (skey (sl ! p))) q < dist (length sl) (h (skey (sl ! p))) p" by simp
      ultimately have "occ sl q" using ok p(1) q unfolding probe_ok_def reach_def by blast
      then show ?thesis by (simp add: occ' q)
    qed
  qed
  have dk: "dkeys (sl[e := x]) None"
    using ok absent x(1) en unfolding probe_ok_def dkeys_def
    by (simp add: occ' nth_list_update) metis
  show ok': "probe_ok h (sl[e := x])" using ok r dk by (simp add: probe_ok_def)
  have keys: "(k', r') \<in> entries (sl[e := x]) None \<longleftrightarrow>
      (k' = k \<and> r' = sref x - 1) \<or> (k', r') \<in> entries sl None" for k' r'
  proof
    assume "(k', r') \<in> entries (sl[e := x]) None"
    then show "(k' = k \<and> r' = sref x - 1) \<or> (k', r') \<in> entries sl None"
      using en x(1) by (auto simp: entries_iff occ' nth_list_update split: if_splits)
  next
    assume "(k' = k \<and> r' = sref x - 1) \<or> (k', r') \<in> entries sl None"
    then consider "k' = k" "r' = sref x - 1"
      | p where "p < length sl" "occ sl p" "skey (sl ! p) = k'" "sref (sl ! p) - 1 = r'"
      by (auto simp: entries_iff)
    then show "(k', r') \<in> entries (sl[e := x]) None"
    proof cases
      case 1
      then show ?thesis unfolding entries_iff using en x by (intro exI [of _ e]) (simp add: occ')
    next
      case 2
      moreover from this e(2) have "p \<noteq> e" by auto
      ultimately show ?thesis unfolding entries_iff by (intro exI [of _ p]) (simp add: occ')
    qed
  qed
  have "(k', r') \<in> entries sl None \<Longrightarrow> k' \<noteq> k" for k' r'
    using absent by (auto simp: entries_def)
  moreover have "dkeys sl None" using ok by (simp add: probe_ok_def)
  ultimately show "slots_map (sl[e := x]) = (slots_map sl)(k \<mapsto> sref x - 1)"
    using dk by (intro slots_map_eqI) (auto simp: keys slots_map_Some)
  show "occupied (sl[e := x]) = Suc (occupied sl)"
    using occupied_update [OF en, of x] e(2) x(2) by simp
qed

text \<open>Overwriting the row number of a stored key.\<close>

lemma overwrite_at:
  assumes ok: "probe_ok h sl" and p: "p < length sl" "occ sl p" "skey (sl ! p) = k"
    and x: "skey x = k" "sref x \<noteq> 0"
  shows "probe_ok h (sl[p := x])" "slots_map (sl[p := x]) = (slots_map sl)(k \<mapsto> sref x - 1)"
    "occupied (sl[p := x]) = occupied sl"
proof -
  have key: "skey (sl[p := x] ! q) = skey (sl ! q)" if "q < length sl" for q
    using p x that by (auto simp: nth_list_update)
  have occ': "occ (sl[p := x]) q \<longleftrightarrow> occ sl q" if "q < length sl" for q
    using p x that by (auto simp: occ_def nth_list_update)
  have dk0: "dkeys sl None" and r0: "reach h sl None" using ok by (simp_all add: probe_ok_def)
  have r: "reach h (sl[p := x]) None"
    by (rule reachI, simp only: length_list_update key occ') (rule reachD [OF r0])
  have dk: "dkeys (sl[p := x]) None"
    by (rule dkeysI, simp only: length_list_update key occ') (rule dkeysD [OF dk0])
  from r dk show "probe_ok h (sl[p := x])" using ok by (simp add: probe_ok_def)
  have uniq: "q = p" if "q < length sl" "occ sl q" "skey (sl ! q) = k" for q
    using dk0 p that unfolding dkeys_def by blast
  have "(k', r') \<in> entries (sl[p := x]) None \<longleftrightarrow>
      (if k' = k then r' = sref x - 1 else (k', r') \<in> entries sl None)" for k' r'
  proof (cases "k' = k")
    case True
    have at_p: "sref (sl[p := x] ! q) = sref x" if "q < length sl" "occ sl q" "skey (sl[p := x] ! q) = k" for q
      using that uniq [of q] p(1) by (simp add: key)
    show ?thesis
      using True p x by (auto simp: entries_iff occ' at_p intro!: exI [of _ p])
  next
    case False
    then have "sref (sl[p := x] ! q) = sref (sl ! q)" if "skey (sl ! q) = k'" for q
      using that p(3) by (metis nth_list_update_neq)
    then show ?thesis
      using False by (simp add: entries_iff occ' key cong: conj_cong)
  qed
  then show "slots_map (sl[p := x]) = (slots_map sl)(k \<mapsto> sref x - 1)"
    using dk dk0 by (intro slots_map_eqI) (auto simp: slots_map_Some)
  show "occupied (sl[p := x]) = occupied sl"
    using occupied_update [OF p(1), of x] p(2) x(2) by simp
qed


section \<open>Backward-shift deletion\<close>

text \<open>
  The loop state: slot \<open>i\<close> is the gap (its content no longer counts), \<open>j\<close> the last slot examined.
  Every slot after the gap up to \<open>j\<close> is occupied by an entry whose probe path avoids the gap.
\<close>

definition del_inv :: "(UUID \<Rightarrow> nat) \<Rightarrow> pkSlot list \<Rightarrow> nat \<Rightarrow> nat \<Rightarrow> bool" where
  "del_inv h sl i j \<longleftrightarrow>
     (\<exists>b. length sl = 2 ^ b) \<and> (\<forall>k. h k < length sl) \<and> i < length sl \<and> j < length sl \<and>
     occ sl i \<and> reach h sl (Some i) \<and> dkeys sl (Some i) \<and>
     (\<forall>p < length sl. p \<noteq> i \<longrightarrow> dist (length sl) i p \<le> dist (length sl) i j \<longrightarrow>
        occ sl p \<and> \<not> dist (length sl) (h (skey (sl ! p))) i < dist (length sl) (h (skey (sl ! p))) p)"

lemma del_inv_start:
  assumes "probe_ok h sl" "i < length sl" "occ sl i"
  shows "del_inv h sl i i"
proof -
  have r: "reach h sl None" and d: "dkeys sl None" using assms(1) by (simp_all add: probe_ok_def)
  have "reach h sl (Some i)" by (rule reachI, rule reachD [OF r]) simp_all
  moreover have "dkeys sl (Some i)" by (rule dkeysI, rule dkeysD [OF d]) simp_all
  ultimately show ?thesis using assms by (simp add: del_inv_def probe_ok_def dist_eq_0)
qed

lemma del_inv_done:
  assumes inv: "del_inv h sl i j" and j': "j' = succ_mod (length sl) j" "\<not> occ sl j'"
  shows "probe_ok h (sl[i := emptySlot])" "entries (sl[i := emptySlot]) None = entries sl (Some i)"
proof -
  let ?n = "length sl" and ?sl = "sl[i := emptySlot]"
  note I = inv [unfolded del_inv_def]
  have i: "i < ?n" and j: "j < ?n" using I by auto
  have occ': "occ ?sl q \<longleftrightarrow> q \<noteq> i \<and> occ sl q" if "q < ?n" for q
    using i that by (simp add: occ_def nth_list_update emptySlot_def)
  have jn: "j' < ?n" using j j'(1) succ_mod_less by simp
  have ji: "j' \<noteq> i" using I j'(2) by auto
  have path: "\<not> dist ?n (h (skey (sl ! p))) i < dist ?n (h (skey (sl ! p))) p"
    if p: "p < ?n" "p \<noteq> i" "occ sl p" for p
  proof
    let ?h = "h (skey (sl ! p))"
    assume before: "dist ?n ?h i < dist ?n ?h p"
    have h: "?h < ?n" using I by simp
    have "\<not> dist ?n ?h j' < dist ?n ?h p"
      using I p jn j'(2) unfolding reach_def by blast
    moreover have "j' \<noteq> p" using p(3) j'(2) by auto
    then have "dist ?n ?h j' \<noteq> dist ?n ?h p" using h jn p(1) by (simp add: dist_inj)
    ultimately have "dist ?n ?h p < dist ?n ?h j'" by simp
    with before h i jn p(1) have "dist ?n i p < dist ?n i j'" by (auto simp: dist_def split: if_splits)
    moreover have "dist ?n i j' = Suc (dist ?n i j)"
      using i j ji j'(1) by (simp add: dist_succ_right)
    ultimately have "dist ?n i p \<le> dist ?n i j" by simp
    with I p before show False by blast
  qed
  have "reach h ?sl None"
    unfolding reach_def
  proof (intro allI impI, simp only: length_list_update)
    fix p q assume p: "p < ?n" "occ ?sl p" and q: "q < ?n"
      and d: "dist ?n (h (skey (?sl ! p))) q < dist ?n (h (skey (?sl ! p))) p"
    have pi: "p \<noteq> i" "occ sl p" using p by (simp_all add: occ')
    with d have d': "dist ?n (h (skey (sl ! p))) q < dist ?n (h (skey (sl ! p))) p" by simp
    then have "q \<noteq> i" using path [OF p(1) pi] by auto
    moreover have "occ sl q" using I p(1) pi q d' unfolding reach_def by blast
    ultimately show "occ ?sl q" by (simp add: occ' q)
  qed
  moreover have "dkeys ?sl None"
    unfolding dkeys_def
  proof (intro allI impI, simp only: length_list_update)
    fix p q assume "p < ?n" "q < ?n" "occ ?sl p" "occ ?sl q" "skey (?sl ! p) = skey (?sl ! q)"
    then show "p = q" using I dkeysD [of sl "Some i" p q] by (simp add: occ')
  qed
  ultimately show "probe_ok h ?sl" using I by (simp add: probe_ok_def)
  have "(k, r) \<in> entries ?sl None \<longleftrightarrow> (k, r) \<in> entries sl (Some i)" for k r
    unfolding entries_iff using occ' by (auto simp: nth_list_update)
  then show "entries ?sl None = entries sl (Some i)" by auto
qed

lemma del_inv_keep:
  assumes inv: "del_inv h sl i j" and j': "j' = succ_mod (length sl) j" "occ sl j'" "j' \<noteq> i"
    and keep: "\<not> dist (length sl) (h (skey (sl ! j'))) i < dist (length sl) (h (skey (sl ! j'))) j'"
  shows "del_inv h sl i j'"
proof -
  let ?n = "length sl"
  note I = inv [unfolded del_inv_def]
  have i: "i < ?n" and j: "j < ?n" using I by auto
  have jn: "j' < ?n" using j j'(1) succ_mod_less by simp
  have d: "dist ?n i j' = Suc (dist ?n i j)" using i j j'(1,3) by (simp add: dist_succ_right)
  have "occ sl p \<and> \<not> dist ?n (h (skey (sl ! p))) i < dist ?n (h (skey (sl ! p))) p"
    if p: "p < ?n" "p \<noteq> i" "dist ?n i p \<le> dist ?n i j'" for p
  proof (cases "p = j'")
    case True
    then show ?thesis using j'(2) keep by simp
  next
    case False
    then have "dist ?n i p \<noteq> dist ?n i j'" using i p(1) jn by (simp add: dist_inj)
    then have "dist ?n i p \<le> dist ?n i j" using p(3) d by simp
    then show ?thesis using I p by blast
  qed
  then show ?thesis using I jn by (simp add: del_inv_def)
qed

lemma del_inv_move:
  assumes inv: "del_inv h sl i j" and j': "j' = succ_mod (length sl) j" "occ sl j'" "j' \<noteq> i"
    and move: "dist (length sl) (h (skey (sl ! j'))) i < dist (length sl) (h (skey (sl ! j'))) j'"
  shows "del_inv h (sl[i := sl ! j']) j' j'" "entries (sl[i := sl ! j']) (Some j') = entries sl (Some i)"
proof -
  let ?n = "length sl" and ?sl = "sl[i := sl ! j']"
  note I = inv [unfolded del_inv_def]
  have i: "i < ?n" and j: "j < ?n" using I by auto
  have jn: "j' < ?n" using j j'(1) succ_mod_less by simp
  have occ': "occ ?sl q \<longleftrightarrow> occ sl q" if "q < ?n" for q
    using I i that j'(2) by (auto simp: occ_def nth_list_update)
  have at_i: "?sl ! i = sl ! j'" using i by simp
  have "reach h ?sl (Some j')"
  proof (rule reachI, simp only: length_list_update)
    fix p q assume p: "p < ?n" "occ ?sl p" "Some j' \<noteq> Some p" and q: "q < ?n"
      and d: "dist ?n (h (skey (?sl ! p))) q < dist ?n (h (skey (?sl ! p))) p"
    show "occ ?sl q"
    proof (cases "p = i")
      case True
      with d move at_i have "dist ?n (h (skey (sl ! j'))) q < dist ?n (h (skey (sl ! j'))) j'" by simp
      then have "occ sl q" using I jn q j'(2,3) unfolding reach_def by blast
      then show ?thesis by (simp add: occ' q)
    next
      case False
      with d have "dist ?n (h (skey (sl ! p))) q < dist ?n (h (skey (sl ! p))) p" by simp
      moreover have "occ sl p" using p by (simp add: occ')
      ultimately have "occ sl q" using I p(1) q False unfolding reach_def by blast
      then show ?thesis by (simp add: occ' q)
    qed
  qed
  moreover have "dkeys ?sl (Some j')"
  proof (rule dkeysI, simp only: length_list_update)
    fix p q assume "p < ?n" "q < ?n" "occ ?sl p" "occ ?sl q" "Some j' \<noteq> Some p" "Some j' \<noteq> Some q"
      "skey (?sl ! p) = skey (?sl ! q)"
    then show "p = q"
      using I i j'(2,3) jn dkeysD [of sl "Some i" p q] dkeysD [of sl "Some i" j' q] dkeysD [of sl "Some i" p j']
      by (auto simp: occ' nth_list_update split: if_splits)
  qed
  ultimately show "del_inv h ?sl j' j'"
    using I jn j'(2) by (simp add: del_inv_def occ' dist_eq_0)
  have "(k, r) \<in> entries ?sl (Some j') \<longleftrightarrow> (k, r) \<in> entries sl (Some i)" for k r
  proof
    assume "(k, r) \<in> entries ?sl (Some j')"
    then show "(k, r) \<in> entries sl (Some i)"
      using i j'(2,3) jn by (fastforce simp: entries_iff occ' nth_list_update split: if_splits)
  next
    assume "(k, r) \<in> entries sl (Some i)"
    then obtain p where p: "p < ?n" "occ sl p" "p \<noteq> i" "skey (sl ! p) = k" "sref (sl ! p) - 1 = r"
      by (auto simp: entries_iff)
    show "(k, r) \<in> entries ?sl (Some j')"
    proof (cases "p = j'")
      case True
      then show ?thesis unfolding entries_iff using p i j'(3) I
        by (intro exI [of _ i]) (simp add: occ')
    next
      case False
      then show ?thesis unfolding entries_iff using p by (intro exI [of _ p]) (simp add: occ')
    qed
  qed
  then show "entries ?sl (Some j') = entries sl (Some i)" by auto
qed


lemma delAt_loop_ok:
  assumes "del_inv h sl i j" and "e < length sl" and "\<not> occ sl e"
  shows "\<exists>sl'. delAt_loop h sl i j = Some sl' \<and> length sl' = length sl \<and> probe_ok h sl' \<and>
    entries sl' None = entries sl (Some i) \<and> Suc (occupied sl') = occupied sl"
  using assms
proof (induction "dist (length sl) j e" arbitrary: sl i j)
  case 0
  then have "j = e" by (simp add: del_inv_def dist_eq_0)
  moreover have "occ sl j"
    using 0 unfolding del_inv_def by (cases "j = i") auto
  ultimately show ?case using 0 by simp
next
  case (Suc d)
  let ?n = "length sl" and ?j = "succ_mod (length sl) j"
  note I = Suc.prems(1) [unfolded del_inv_def]
  obtain b where len: "?n = 2 ^ b" using I by auto
  have i: "i < ?n" and j: "j < ?n" and oi: "occ sl i" using I by auto
  have nx: "nxt sl j = ?j" using len j by (rule nxt_succ_mod)
  have jn: "?j < ?n" using j by (rule succ_mod_less)
  have "j \<noteq> e" using Suc.hyps(2) by auto
  then have d: "d = dist ?n ?j e" using dist_succ_left [OF j Suc.prems(2)] Suc.hyps(2) by simp
  show ?case
  proof (cases "occ sl ?j")
    case False
    have "delAt_loop h sl i j = Some (sl[i := emptySlot])"
      using False jn by (subst delAt_loop.simps) (simp add: Let_def nx occ_def)
    moreover have "Suc (occupied (sl[i := emptySlot])) = occupied sl"
      using occupied_update [OF i, of emptySlot] oi by (simp add: emptySlot_def)
    ultimately show ?thesis using del_inv_done [OF Suc.prems(1) refl False] by simp
  next
    case occj: True
    have ne: "?j \<noteq> i"
    proof
      assume "?j = i"
      then have "dist ?n i j = ?n - 1" using j by (auto simp: dist_def succ_mod_def split: if_splits)
      moreover have "dist ?n i e < ?n" using i Suc.prems(2) by (rule dist_less)
      moreover have "e \<noteq> i" using oi Suc.prems(3) by auto
      ultimately show False using I Suc.prems(2,3) by auto
    qed
    have h: "h (skey (sl ! ?j)) < ?n" using I by simp
    note cond = move_cond_iff [OF i jn h ne [symmetric]]
    show ?thesis
    proof (cases "dist ?n (h (skey (sl ! ?j))) i < dist ?n (h (skey (sl ! ?j))) ?j")
      case True
      let ?sl = "sl[i := sl ! ?j]"
      have "delAt_loop h sl i j = delAt_loop h ?sl ?j ?j"
        using True occj jn cond by (subst delAt_loop.simps) (simp add: Let_def nx occ_def)
      moreover have "e \<noteq> i" using oi Suc.prems(3) by auto
      then have "\<not> occ ?sl e" using Suc.prems(2,3) by (simp add: occ_def)
      then have "\<exists>sl'. delAt_loop h ?sl ?j ?j = Some sl' \<and> length sl' = length ?sl \<and> probe_ok h sl' \<and>
          entries sl' None = entries ?sl (Some ?j) \<and> Suc (occupied sl') = occupied ?sl"
        using Suc.prems(2) d del_inv_move(1) [OF Suc.prems(1) refl occj ne True]
        by (intro Suc.hyps(1)) simp_all
      moreover have "occupied ?sl = occupied sl"
        using occupied_update [OF i, of "sl ! ?j"] oi occj by (simp add: occ_def)
      ultimately show ?thesis
        using del_inv_move(2) [OF Suc.prems(1) refl occj ne True] by simp
    next
      case False
      have "delAt_loop h sl i j = delAt_loop h sl i ?j"
        using False occj jn cond by (subst delAt_loop.simps) (auto simp: Let_def nx occ_def)
      moreover have "\<exists>sl'. delAt_loop h sl i ?j = Some sl' \<and> length sl' = length sl \<and> probe_ok h sl' \<and>
          entries sl' None = entries sl (Some i) \<and> Suc (occupied sl') = occupied sl"
        using d Suc.prems(2,3) del_inv_keep [OF Suc.prems(1) refl occj ne False]
        by (intro Suc.hyps(1)) simp_all
      ultimately show ?thesis by simp
    qed
  qed
qed


section \<open>The map invariant and its preservation\<close>

definition pk_inv :: "uint64 \<Rightarrow> pkMap \<Rightarrow> bool" where
  "pk_inv seed m \<longleftrightarrow>
     (slots m = [] \<and> used m = 0) \<or>
     (\<exists>b \<ge> 4. length (slots m) = 2 ^ b \<and> shift m = 64 - b \<and>
        probe_ok (\<lambda>k. pkHome seed k (shift m)) (slots m) \<and>
        used m = int (occupied (slots m)) \<and> 4 * occupied (slots m) \<le> 3 * length (slots m))"

definition pk_abs :: "pkMap \<Rightarrow> UUID \<rightharpoonup> nat" where
  "pk_abs m = slots_map (slots m)"

lemma bitsLen_mask: "bitsLen (2 ^ b - 1) = b"
proof (induction b)
  case 0
  then show ?case by (simp add: bitsLen.simps)
next
  case (Suc b)
  have "(2 ^ Suc b - 1 :: nat) div 2 = 2 ^ b - 1" by simp
  moreover have "(2 ^ Suc b - 1 :: nat) \<noteq> 0"
    using one_less_power [of "2::nat" "Suc b"] by simp
  ultimately show ?case using Suc.IH by (subst bitsLen.simps) simp
qed

lemma pkHome_less: "pkHome seed k (64 - b) < 2 ^ b"
proof -
  define w :: uint64 where
    "w = (le_get (take 8 k) XOR word_rotl 32 (le_get (take 8 (drop 8 k))) XOR seed) * 0xBF58476D1CE4E5B9"
  have w: "unat w < 2 ^ 64" using unsigned_less [of w] by simp
  have "unat (drop_bit (64 - b) w) = unat w div 2 ^ (64 - b)"
    using w unfolding unsigned_drop_bit_eq by (simp add: drop_bit_eq_div take_bit_nat_eq_self)
  also have "\<dots> < 2 ^ b"
  proof (cases "b \<le> 64")
    case True
    then have "(2 :: nat) ^ 64 = 2 ^ b * 2 ^ (64 - b)" by (simp add: power_add [symmetric])
    with w show ?thesis by (simp only: less_mult_imp_div_less)
  next
    case False
    then have "(2 :: nat) ^ 64 < 2 ^ b" by (intro power_strict_increasing) simp_all
    with w False show ?thesis by simp
  qed
  finally show ?thesis by (simp add: pkHome_def Let_def w_def)
qed

lemma newSlots_simps [simp]:
  "length (slots (newSlots n m)) = n" "used (newSlots n m) = used m"
  "slots (newSlots n m) = replicate n emptySlot"
  by (simp_all add: newSlots_def)

lemma shift_newSlots: "shift (newSlots (2 ^ b) m) = 64 - b"
  by (simp add: newSlots_def bitsLen_mask [simplified])

lemma probe_ok_fresh:
  "(\<forall>k. h k < 2 ^ b) \<Longrightarrow> probe_ok h (replicate (2 ^ b) emptySlot)"
  by (auto simp: probe_ok_def reach_def dkeys_def occ_def emptySlot_def)

lemma slots_map_fresh [simp]: "slots_map (replicate n emptySlot) = Map.empty"
  by (simp add: slots_map_def emptySlot_def)

lemma occupied_fresh [simp]: "occupied (replicate n emptySlot) = 0"
  by (simp add: occupied_def emptySlot_def)

lemma pk_inv_cases:
  assumes "pk_inv seed m"
  obtains (empty) "slots m = []" "used m = 0" "pk_abs m = Map.empty"
    | (table) b where "b \<ge> 4" "length (slots m) = 2 ^ b" "shift m = 64 - b"
        "probe_ok (\<lambda>k. pkHome seed k (shift m)) (slots m)" "used m = int (occupied (slots m))"
        "4 * occupied (slots m) \<le> 3 * length (slots m)" "\<exists>e < length (slots m). \<not> occ (slots m) e"
proof -
  consider "slots m = []" "used m = 0"
    | b where "b \<ge> 4" "length (slots m) = 2 ^ b" "shift m = 64 - b"
        "probe_ok (\<lambda>k. pkHome seed k (shift m)) (slots m)" "used m = int (occupied (slots m))"
        "4 * occupied (slots m) \<le> 3 * length (slots m)"
    using assms by (auto simp: pk_inv_def)
  then show thesis
  proof cases
    case 1
    then show thesis by (intro empty) (simp_all add: pk_abs_def slots_map_def)
  next
    case 2
    have "0 < length (slots m)" using 2(2) by simp
    with 2(6) have "occupied (slots m) < length (slots m)" by linarith
    with 2 show thesis by (intro table free_slot)
  qed
qed

text \<open>Where the probe for \<open>k\<close> stops, in terms of the map.\<close>

lemma stops_at_abs:
  assumes ok: "probe_ok h sl" and free: "\<exists>e < length sl. \<not> occ sl e"
  obtains e where "stops_at h sl k e"
    "occ sl e \<longleftrightarrow> slots_map sl k \<noteq> None"
    "occ sl e \<Longrightarrow> slots_map sl k = Some (sref (sl ! e) - 1) \<and> skey (sl ! e) = k"
    "\<not> occ sl e \<Longrightarrow> \<forall>p < length sl. occ sl p \<longrightarrow> skey (sl ! p) \<noteq> k"
proof -
  have dk: "dkeys sl None" using ok by (simp add: probe_ok_def)
  show thesis
  proof (cases "\<exists>p < length sl. occ sl p \<and> skey (sl ! p) = k")
    case True
    then obtain p where p: "p < length sl" "occ sl p" "skey (sl ! p) = k" by blast
    then have "slots_map sl k = Some (sref (sl ! p) - 1)"
      using slots_map_Some [OF dk] by (auto simp: entries_iff)
    with p stops_at_present [OF ok p] show thesis by (intro that [of p]) auto
  next
    case False
    then obtain e where e: "stops_at h sl k e" "\<not> occ sl e"
      using stops_at_absent [OF free, of k h] by auto
    have "slots_map sl k = None"
      using False slots_map_Some [OF dk, of k] by (cases "slots_map sl k") (auto simp: entries_iff)
    with e False show thesis by (intro that [of e]) auto
  qed
qed

lemma pk_get_abs: "pk_inv seed m \<Longrightarrow> pk_get seed m k = Some (pk_abs m k)"
proof (erule pk_inv_cases)
  fix b assume t: "length (slots m) = 2 ^ b" "probe_ok (\<lambda>k. pkHome seed k (shift m)) (slots m)"
    "\<exists>e < length (slots m). \<not> occ (slots m) e"
  obtain e where e: "stops_at (\<lambda>k. pkHome seed k (shift m)) (slots m) k e"
      "occ (slots m) e \<longleftrightarrow> slots_map (slots m) k \<noteq> None"
      "occ (slots m) e \<Longrightarrow> slots_map (slots m) k = Some (sref (slots m ! e) - 1) \<and> skey (slots m ! e) = k"
    by (rule stops_at_abs [OF t(2,3), of k]) blast
  show "pk_get seed m k = Some (pk_abs m k)"
    using probe_loops(1) [OF t(2) e(1)] e(2,3) t(1) by (auto simp: pk_get_def pk_abs_def)
qed (simp add: pk_get_def)

text \<open>The result of \<open>find\<close>: the slot that holds the key, or nothing.\<close>

definition pk_slot_of :: "pkMap \<Rightarrow> UUID \<Rightarrow> nat \<Rightarrow> nat \<Rightarrow> bool" where
  "pk_slot_of m k i r \<longleftrightarrow> i < length (slots m) \<and> occ (slots m) i \<and> skey (slots m ! i) = k \<and>
     sref (slots m ! i) - 1 = r"

lemma pk_find_abs:
  assumes "pk_inv seed m"
  shows "\<exists>r. pk_find seed m k = Some r \<and> map_option snd r = pk_abs m k \<and>
    (\<forall>i rowID. r = Some (i, rowID) \<longrightarrow> pk_slot_of m k i rowID)"
  using assms
proof (cases rule: pk_inv_cases)
  case empty
  then show ?thesis by (simp add: pk_find_def)
next
  case (table b)
  obtain e where e: "stops_at (\<lambda>k. pkHome seed k (shift m)) (slots m) k e"
      "occ (slots m) e \<longleftrightarrow> slots_map (slots m) k \<noteq> None"
      "occ (slots m) e \<Longrightarrow> slots_map (slots m) k = Some (sref (slots m ! e) - 1) \<and> skey (slots m ! e) = k"
    by (rule stops_at_abs [OF table(4,7), of k]) blast
  moreover have "e < length (slots m)" using e(1) by (simp add: stops_at_def)
  ultimately show ?thesis
    using probe_loops(2) [OF table(4) e(1)] table(2)
    by (auto simp: pk_find_def pk_abs_def pk_slot_of_def)
qed


text \<open>Growth: the same map in a table of twice the size.\<close>

lemma place_loop_ok:
  assumes ok: "probe_ok h sl" and e: "stops_at h sl k e" "\<not> occ sl e"
  shows "place_loop sl (h k) = Some e"
proof -
  obtain b where len: "length sl = 2 ^ b" using ok by (auto simp: probe_ok_def)
  have hk: "h k < length sl" using ok by (simp add: probe_ok_def)
  note E = e(1) [unfolded stops_at_def]
  show ?thesis
    by (rule ring_walk [OF len hk, of e]; (subst place_loop.simps)?; use E e(2) in \<open>auto simp: occ_def\<close>)
qed

lemma grow_loop_ok:
  assumes "probe_ok (\<lambda>k. pkHome seed k sh) sl" and "occupied sl + occupied old < length sl"
    and "distinct (map skey (filter (\<lambda>x. sref x \<noteq> 0) old))"
    and "\<forall>x \<in> set old. sref x \<noteq> 0 \<longrightarrow> slots_map sl (skey x) = None"
  shows "\<exists>sl'. grow_loop seed sh old sl = Some sl' \<and> length sl' = length sl \<and>
    probe_ok (\<lambda>k. pkHome seed k sh) sl' \<and> occupied sl' = occupied sl + occupied old \<and>
    slots_map sl' = slots_map sl ++ slots_map old"
  using assms
proof (induction seed sh old sl rule: grow_loop.induct)
  case (1 seed sh sl)
  then show ?case by (simp add: occupied_def slots_map_def)
next
  case (2 seed sh x old sl)
  let ?h = "\<lambda>k. pkHome seed k sh"
  show ?case
  proof (cases "sref x = 0")
    case True
    then have "occupied (x # old) = occupied old" "slots_map (x # old) = slots_map old"
      by (simp_all add: occupied_def slots_map_def)
    then show ?thesis using True 2(1) 2(3-6) by simp
  next
    case False
    have occ: "occupied (x # old) = Suc (occupied old)" using False by (simp add: occupied_def)
    have free: "\<exists>e < length sl. \<not> occ sl e" using 2(4) by (intro free_slot) simp
    obtain e where e: "stops_at ?h sl (skey x) e" "\<not> occ sl e"
        "\<forall>p < length sl. occ sl p \<longrightarrow> skey (sl ! p) \<noteq> skey x"
      by (rule stops_at_abs [OF 2(3) free, of "skey x"]) (use 2(6) False in auto)
    note ins = insert_at_free [OF 2(3) e(1,2) refl False e(3)]
    have place: "place_loop sl (?h (skey x)) = Some e" by (rule place_loop_ok [OF 2(3) e(1,2)])
    have "\<exists>sl'. grow_loop seed sh old (sl[e := x]) = Some sl' \<and> length sl' = length (sl[e := x]) \<and>
        probe_ok ?h sl' \<and> occupied sl' = occupied (sl[e := x]) + occupied old \<and>
        slots_map sl' = slots_map (sl[e := x]) ++ slots_map old"
    proof (rule 2(2) [OF False])
      show "\<forall>y \<in> set old. sref y \<noteq> 0 \<longrightarrow> slots_map (sl[e := x]) (skey y) = None"
        using 2(5,6) False by (auto simp: ins(2) image_iff)
    qed (use 2(4,5) False occ ins in \<open>auto simp: place\<close>)
    moreover have "slots_map (sl[e := x]) ++ slots_map old = slots_map sl ++ slots_map (x # old)"
    proof -
      have "slots_map (x # old) = (slots_map old)(skey x \<mapsto> sref x - 1)"
        using False by (simp add: slots_map_def)
      moreover have "slots_map old (skey x) = None"
        using 2(5) False by (auto simp: slots_map_def map_of_eq_None_iff image_image)
      ultimately show ?thesis
        by (auto simp: ins(2) map_add_def fun_eq_iff split: option.splits)
    qed
    ultimately show ?thesis using False occ ins(3) place by auto
  qed
qed


definition pk_table :: "uint64 \<Rightarrow> pkMap \<Rightarrow> bool" where
  "pk_table seed m \<longleftrightarrow> pk_inv seed m \<and> slots m \<noteq> []"

lemma pk_tableI:
  assumes "b \<ge> 4" "length (slots m) = 2 ^ b" "shift m = 64 - b"
    "probe_ok (\<lambda>k. pkHome seed k (shift m)) (slots m)" "used m = int (occupied (slots m))"
    "4 * occupied (slots m) \<le> 3 * length (slots m)"
  shows "pk_table seed m"
  using assms unfolding pk_table_def pk_inv_def by (metis list.size(3) power_not_zero zero_neq_numeral)

lemma pk_grow_ok:
  assumes "pk_inv seed m"
  shows "\<exists>m'. pk_grow seed m = Some m' \<and> pk_table seed m' \<and> pk_abs m' = pk_abs m \<and> used m' = used m \<and>
    4 * (used m' + 1) \<le> 3 * int (length (slots m'))"
proof -
  define n where "n = (if length (slots m) * 2 < 16 then 16 else length (slots m) * 2)"
  obtain b where b: "b \<ge> 4" "n = 2 ^ b" and d: "dkeys (slots m) None"
    and load: "4 * occupied (slots m) \<le> 3 * length (slots m)" "used m = int (occupied (slots m))"
    and le: "length (slots m) * 2 \<le> n" "16 \<le> n"
    using assms
  proof (cases rule: pk_inv_cases)
    case empty
    then show thesis by (intro that [of 4]) (auto simp: n_def dkeys_def occupied_def)
  next
    case (table b)
    have 16: "2 ^ 4 \<le> (2 :: nat) ^ b" using table(1) by (intro power_increasing) simp_all
    then have n: "n = 2 ^ Suc b" using table(2) by (simp add: n_def)
    then show thesis using table 16 by (intro that [of "Suc b"]) (auto simp: probe_ok_def)
  qed
  let ?m = "newSlots n m"
  have sh: "shift ?m = 64 - b" by (simp add: b(2) shift_newSlots)
  have fresh: "probe_ok (\<lambda>k. pkHome seed k (shift ?m)) (slots ?m)"
    unfolding sh using probe_ok_fresh [of "\<lambda>k. pkHome seed k (64 - b)" b] pkHome_less by (simp add: b(2) newSlots_def)
  have "occupied (slots m) < n" using load(1) le by linarith
  moreover have "4 * (occupied (slots m) + 1) \<le> 3 * n"
  proof -
    have "8 * occupied (slots m) + 8 \<le> 3 * n + 3 * n" using load(1) le by linarith
    then show ?thesis by simp
  qed
  ultimately have occ: "occupied (slots m) < n" "4 * (occupied (slots m) + 1) \<le> 3 * n" .
  have "\<exists>sl'. grow_loop seed (shift ?m) (slots m) (slots ?m) = Some sl' \<and> length sl' = length (slots ?m) \<and>
      probe_ok (\<lambda>k. pkHome seed k (shift ?m)) sl' \<and> occupied sl' = occupied (slots ?m) + occupied (slots m) \<and>
      slots_map sl' = slots_map (slots ?m) ++ slots_map (slots m)"
    using occ dkeys_distinct [OF d] fresh by (intro grow_loop_ok) simp_all
  then obtain sl where sl: "grow_loop seed (shift ?m) (slots m) (slots ?m) = Some sl" "length sl = n"
      "probe_ok (\<lambda>k. pkHome seed k (shift ?m)) sl" "occupied sl = occupied (slots m)"
      "slots_map sl = slots_map (slots m)"
    by auto
  have "pk_grow seed m = Some (?m\<lparr>slots := sl\<rparr>)"
    unfolding pk_grow_def Let_def n_def [symmetric] using sl(1) by simp
  moreover have "pk_table seed (?m\<lparr>slots := sl\<rparr>)"
    using sl load(2) b occ by (intro pk_tableI [of b]) (simp_all add: shift_newSlots)
  ultimately show ?thesis using sl load(2) occ by (simp add: pk_abs_def)
qed

text \<open>\<open>reserve\<close>: the duplicate check and the slot, after growing if the insert would pass the load limit.\<close>

lemma pk_reserve_ok:
  assumes inv: "pk_inv seed m"
  shows "\<exists>slot found m'. pk_reserve seed m k = Some (slot, found, m') \<and> pk_table seed m' \<and>
    pk_abs m' = pk_abs m \<and> used m' = used m \<and> (found \<longleftrightarrow> pk_abs m k \<noteq> None) \<and>
    stops_at (\<lambda>k. pkHome seed k (shift m')) (slots m') k slot \<and> (found \<longleftrightarrow> occ (slots m') slot) \<and>
    4 * (used m' + 1) \<le> 3 * int (length (slots m'))"
proof -
  have "\<exists>m'. (if 4 * (used m + 1) > 3 * int (length (slots m)) then pk_grow seed m else Some m) = Some m' \<and>
      pk_table seed m' \<and> pk_abs m' = pk_abs m \<and> used m' = used m \<and>
      4 * (used m' + 1) \<le> 3 * int (length (slots m'))"
  proof (cases "4 * (used m + 1) > 3 * int (length (slots m))")
    case True
    then show ?thesis using pk_grow_ok [OF inv] by simp
  next
    case False
    then have "slots m \<noteq> []" using inv by (auto simp: pk_inv_def)
    with False inv show ?thesis by (simp add: pk_table_def)
  qed
  then obtain m' where m': "(if 4 * (used m + 1) > 3 * int (length (slots m)) then pk_grow seed m else Some m) = Some m'"
      "pk_table seed m'" "pk_abs m' = pk_abs m" "used m' = used m" "4 * (used m' + 1) \<le> 3 * int (length (slots m'))"
    by blast
  from m'(2) have "pk_inv seed m'" "slots m' \<noteq> []" by (simp_all add: pk_table_def)
  then show ?thesis
  proof (cases rule: pk_inv_cases)
    case (table b)
    obtain e where e: "stops_at (\<lambda>k. pkHome seed k (shift m')) (slots m') k e"
        "occ (slots m') e \<longleftrightarrow> slots_map (slots m') k \<noteq> None"
      by (rule stops_at_abs [OF table(4,7), of k]) blast
    have "pk_reserve seed m k = Some (e, occ (slots m') e, m')"
      unfolding pk_reserve_def m'(1) using probe_loops(3) [OF table(4) e(1)] by simp
    with m' e show ?thesis by (simp add: pk_abs_def)
  qed simp
qed


lemma pk_table_slots:
  assumes "pk_table seed m"
  obtains b where "b \<ge> 4" "length (slots m) = 2 ^ b" "shift m = 64 - b"
    "probe_ok (\<lambda>k. pkHome seed k (shift m)) (slots m)" "used m = int (occupied (slots m))"
    "4 * occupied (slots m) \<le> 3 * length (slots m)"
  using assms by (auto simp: pk_table_def pk_inv_def)

text \<open>Filling the slot a missed \<open>reserve\<close> returned.\<close>

lemma pk_commit_ok:
  assumes inv: "pk_inv seed m" and res: "pk_reserve seed m k = Some (slot, False, m')"
  shows "pk_inv seed (pk_commit m' slot k rowID)" "pk_abs (pk_commit m' slot k rowID) = (pk_abs m)(k \<mapsto> rowID)"
    "used (pk_commit m' slot k rowID) = used m + 1"
proof -
  have r: "pk_table seed m'" "pk_abs m' = pk_abs m" "used m' = used m" "pk_abs m k = None"
      "stops_at (\<lambda>k. pkHome seed k (shift m')) (slots m') k slot" "\<not> occ (slots m') slot"
      "4 * (used m' + 1) \<le> 3 * int (length (slots m'))"
    using pk_reserve_ok [OF inv, of k] res by auto
  from r(1) obtain b where t: "b \<ge> 4" "length (slots m') = 2 ^ b" "shift m' = 64 - b"
      "probe_ok (\<lambda>k. pkHome seed k (shift m')) (slots m')" "used m' = int (occupied (slots m'))"
    by (rule pk_table_slots)
  have dk: "dkeys (slots m') None" using t(4) by (simp add: probe_ok_def)
  have absent: "\<forall>p < length (slots m'). occ (slots m') p \<longrightarrow> skey (slots m' ! p) \<noteq> k"
  proof (intro allI impI notI)
    fix p assume "p < length (slots m')" "occ (slots m') p" "skey (slots m' ! p) = k"
    then have "slots_map (slots m') k = Some (sref (slots m' ! p) - 1)"
      using slots_map_Some [OF dk] by (auto simp: entries_iff)
    then show False using r(2,4) by (simp add: pk_abs_def)
  qed
  let ?x = "\<lparr>skey = k, sref = rowID + 1\<rparr>"
  have x: "skey ?x = k" "sref ?x \<noteq> 0" by simp_all
  note ins = insert_at_free [OF t(4) r(5,6) x absent]
  have "int (4 * Suc (occupied (slots m'))) \<le> int (3 * length (slots m'))" using r(7) t(5) by simp
  then have "4 * Suc (occupied (slots m')) \<le> 3 * length (slots m')" by (simp only: of_nat_le_iff)
  then have "pk_table seed (pk_commit m' slot k rowID)"
    using t ins by (intro pk_tableI [of b]) (simp_all add: pk_commit_def)
  then show "pk_inv seed (pk_commit m' slot k rowID)" by (simp add: pk_table_def)
  show "pk_abs (pk_commit m' slot k rowID) = (pk_abs m)(k \<mapsto> rowID)"
    using ins(2) r(2) by (simp add: pk_abs_def pk_commit_def)
  show "used (pk_commit m' slot k rowID) = used m + 1" using r(3) by (simp add: pk_commit_def)
qed

lemma pk_put_ok:
  assumes inv: "pk_inv seed m"
  shows "\<exists>m'. pk_put seed m k rowID = Some m' \<and> pk_inv seed m' \<and> pk_abs m' = (pk_abs m)(k \<mapsto> rowID)"
proof -
  obtain slot found m' where r: "pk_reserve seed m k = Some (slot, found, m')" "pk_table seed m'"
      "pk_abs m' = pk_abs m" "stops_at (\<lambda>k. pkHome seed k (shift m')) (slots m') k slot"
      "found \<longleftrightarrow> occ (slots m') slot"
    using pk_reserve_ok [OF inv, of k] by blast
  show ?thesis
  proof (cases found)
    case False
    then have "pk_put seed m k rowID = Some (pk_commit m' slot k rowID)"
      using r(1) by (simp add: pk_put_def pk_commit_def)
    then show ?thesis using pk_commit_ok [OF inv, of k slot m'] r(1) False by simp
  next
    case True
    let ?x = "\<lparr>skey = k, sref = rowID + 1\<rparr>" and ?m = "m'\<lparr>slots := (slots m')[slot := \<lparr>skey = k, sref = rowID + 1\<rparr>]\<rparr>"
    from r(2) obtain b where t: "b \<ge> 4" "length (slots m') = 2 ^ b" "shift m' = 64 - b"
        "probe_ok (\<lambda>k. pkHome seed k (shift m')) (slots m')" "used m' = int (occupied (slots m'))"
        "4 * occupied (slots m') \<le> 3 * length (slots m')"
      by (rule pk_table_slots)
    have s: "slot < length (slots m')" "occ (slots m') slot" "skey (slots m' ! slot) = k"
      using r(4,5) True by (auto simp: stops_at_def)
    have x: "skey ?x = k" "sref ?x \<noteq> 0" by simp_all
    note ow = overwrite_at [OF t(4) s x]
    have "pk_table seed ?m" using t ow by (intro pk_tableI [of b]) simp_all
    moreover have "pk_put seed m k rowID = Some ?m" using r(1) True by (simp add: pk_put_def)
    ultimately show ?thesis using ow(2) r(3) by (simp add: pk_abs_def pk_table_def)
  qed
qed

text \<open>Removing the entry that \<open>find\<close> located.\<close>

lemma pk_delAt_ok:
  assumes inv: "pk_inv seed m" and slot: "pk_slot_of m k i rowID"
  shows "\<exists>m'. pk_delAt seed m i = Some m' \<and> pk_inv seed m' \<and> pk_abs m' = (pk_abs m)(k := None) \<and>
    used m' = used m - 1"
  using inv
proof (cases rule: pk_inv_cases)
  case empty
  then show ?thesis using slot by (simp add: pk_slot_of_def)
next
  case (table b)
  let ?h = "\<lambda>k. pkHome seed k (shift m)"
  have i: "i < length (slots m)" "occ (slots m) i" "skey (slots m ! i) = k"
    using slot by (simp_all add: pk_slot_of_def)
  obtain e where e: "e < length (slots m)" "\<not> occ (slots m) e" using table(7) by blast
  obtain sl where sl: "delAt_loop ?h (slots m) i i = Some sl" "length sl = length (slots m)" "probe_ok ?h sl"
      "entries sl None = entries (slots m) (Some i)" "Suc (occupied sl) = occupied (slots m)"
    using delAt_loop_ok [OF del_inv_start [OF table(4) i(1,2)] e] by blast
  have dk: "dkeys (slots m) None" "dkeys sl None" using table(4) sl(3) by (simp_all add: probe_ok_def)
  have "slots_map sl = (slots_map (slots m))(k := None)"
  proof (rule slots_map_eqI [OF dk(2)])
    fix k' r
    have uniq: "p = i" if "p < length (slots m)" "occ (slots m) p" "skey (slots m ! p) = k" for p
      using dkeysD [OF dk(1) that(1) i(1) that(2) i(2)] that(3) i(3) by simp
    have "(k', r) \<in> entries (slots m) (Some i) \<longleftrightarrow> k' \<noteq> k \<and> (k', r) \<in> entries (slots m) None"
      using i(3) by (auto simp: entries_iff dest: uniq)
    then show "(k', r) \<in> entries sl None \<longleftrightarrow> ((slots_map (slots m))(k := None)) k' = Some r"
      by (simp add: sl(4) slots_map_Some [OF dk(1)])
  qed
  moreover have "pk_table seed (m\<lparr>slots := sl, used := used m - 1\<rparr>)"
    using table sl by (intro pk_tableI [of b]) simp_all
  moreover have "pk_delAt seed m i = Some (m\<lparr>slots := sl, used := used m - 1\<rparr>)"
    using sl(1) by (simp add: pk_delAt_def)
  ultimately show ?thesis by (simp add: pk_abs_def pk_table_def)
qed

lemma pk_del_ok:
  assumes inv: "pk_inv seed m"
  shows "\<exists>m'. pk_del seed m k = Some (pk_abs m k, m') \<and> pk_inv seed m' \<and> pk_abs m' = (pk_abs m)(k := None)"
proof -
  obtain r where r: "pk_find seed m k = Some r" "map_option snd r = pk_abs m k"
      "\<forall>i rowID. r = Some (i, rowID) \<longrightarrow> pk_slot_of m k i rowID"
    using pk_find_abs [OF inv, of k] by blast
  show ?thesis
  proof (cases r)
    case None
    then have "pk_abs m k = None" using r(2) by simp
    moreover from this have "(pk_abs m)(k := None) = pk_abs m" by (simp add: fun_upd_idem)
    ultimately show ?thesis using r(1) None inv by (simp add: pk_del_def)
  next
    case (Some p)
    then obtain i rowID where p: "r = Some (i, rowID)" by (cases p) auto
    then show ?thesis using pk_delAt_ok [OF inv, of k i rowID] r by (auto simp: pk_del_def)
  qed
qed

lemma pk_inv_empty: "pk_inv seed emptyPkMap" "pk_abs emptyPkMap = Map.empty"
  by (simp_all add: pk_inv_def emptyPkMap_def pk_abs_def slots_map_def)

lemma init_size_pow: "\<exists>b \<ge> 4. while (\<lambda>n. 4 * hint > 3 * n) (\<lambda>n. 2 * n) 16 = (2 :: nat) ^ b"
proof (rule while_rule [where P = "\<lambda>n. \<exists>b \<ge> 4. n = (2 :: nat) ^ b" and r = "measure (\<lambda>n. 4 * hint - n)"])
  fix n :: nat
  assume "\<exists>b \<ge> 4. n = 2 ^ b"
  then obtain b where b: "b \<ge> 4" "n = 2 ^ b" by blast
  then show "\<exists>b \<ge> 4. 2 * n = 2 ^ b" by (intro exI [of _ "Suc b"]) simp
  assume "3 * n < 4 * hint"
  moreover have "0 < n" using b(2) by simp
  ultimately show "(2 * n, n) \<in> measure (\<lambda>n. 4 * hint - n)" by simp
qed (auto intro: exI [of _ 4])

lemma pk_init_ok: "used m = 0 \<Longrightarrow> pk_inv seed (pk_init hint m) \<and> pk_abs (pk_init hint m) = Map.empty"
proof -
  assume u: "used m = 0"
  obtain b where b: "b \<ge> 4" "while (\<lambda>n. 4 * hint > 3 * n) (\<lambda>n. 2 * n) 16 = (2 :: nat) ^ b"
    using init_size_pow by blast
  have "pk_table seed (newSlots (2 ^ b) m)"
    using b u by (intro pk_tableI [of b]) (simp_all add: shift_newSlots probe_ok_fresh pkHome_less)
  then show ?thesis by (simp add: pk_init_def b(2) pk_table_def pk_abs_def)
qed

section \<open>The interface\<close>

text \<open>
  What the store relies on: every operation returns, keeps the invariant and acts on the abstract
  map.  A caller either uses the one-call operations or holds a slot between two calls (\<open>reserve\<close>
  then \<open>commit\<close>, \<open>find\<close> then \<open>delAt\<close>).
\<close>

locale pk_index =
  fixes invar :: "'m \<Rightarrow> bool" and abs :: "'m \<Rightarrow> UUID \<Rightarrow> nat option"
    and get :: "'m \<Rightarrow> UUID \<Rightarrow> nat option option"
    and put :: "'m \<Rightarrow> UUID \<Rightarrow> nat \<Rightarrow> 'm option"
    and del :: "'m \<Rightarrow> UUID \<Rightarrow> (nat option \<times> 'm) option"
  assumes get_abs: "invar m \<Longrightarrow> get m k = Some (abs m k)"
    and put_abs: "invar m \<Longrightarrow> \<exists>m'. put m k i = Some m' \<and> invar m' \<and> abs m' = (abs m)(k \<mapsto> i)"
    and del_abs: "invar m \<Longrightarrow> \<exists>m'. del m k = Some (abs m k, m') \<and> invar m' \<and> abs m' = (abs m)(k := None)"
begin

lemma put_E:
  assumes "invar m"
  obtains m' where "put m k i = Some m'" "invar m'" "abs m' = (abs m)(k \<mapsto> i)"
  using put_abs [OF assms, of k i] by blast

lemma del_E:
  assumes "invar m"
  obtains m' where "del m k = Some (abs m k, m')" "invar m'" "abs m' = (abs m)(k := None)"
  using del_abs [OF assms, of k] by blast

end

locale pk_slots = pk_index +
  fixes find :: "'a \<Rightarrow> UUID \<Rightarrow> (nat \<times> nat) option option"
    and delAt :: "'a \<Rightarrow> nat \<Rightarrow> 'a option"
    and reserve :: "'a \<Rightarrow> UUID \<Rightarrow> (nat \<times> bool \<times> 'a) option"
    and commit :: "'a \<Rightarrow> nat \<Rightarrow> UUID \<Rightarrow> nat \<Rightarrow> 'a"
  assumes find_abs: "invar m \<Longrightarrow> \<exists>r. find m k = Some r \<and> map_option snd r = abs m k"
    and delAt_abs: "invar m \<Longrightarrow> find m k = Some (Some (slot, i)) \<Longrightarrow>
      \<exists>m'. delAt m slot = Some m' \<and> invar m' \<and> abs m' = (abs m)(k := None)"
    and reserve_abs: "invar m \<Longrightarrow> \<exists>slot m'. reserve m k = Some (slot, abs m k \<noteq> None, m') \<and>
      invar m' \<and> abs m' = abs m"
    and commit_abs: "invar m \<Longrightarrow> reserve m k = Some (slot, False, m') \<Longrightarrow>
      invar (commit m' slot k i) \<and> abs (commit m' slot k i) = (abs m)(k \<mapsto> i)"
begin

lemma reserve_E:
  assumes "invar m"
  obtains slot m' where "reserve m k = Some (slot, abs m k \<noteq> None, m')" "invar m'" "abs m' = abs m"
    "abs m k = None \<longrightarrow> (\<forall>i. invar (commit m' slot k i) \<and> abs (commit m' slot k i) = (abs m)(k \<mapsto> i))"
  using reserve_abs [OF assms, of k] commit_abs [OF assms, of k] by auto

text \<open>Holding a slot is the one-call operation split in two.\<close>

lemma find_delAt_E:
  assumes "invar m" and "abs m k = Some i"
  obtains slot m' where "find m k = Some (Some (slot, i))" "delAt m slot = Some m'" "invar m'"
    "abs m' = (abs m)(k := None)"
  using find_abs [OF assms(1), of k] delAt_abs [OF assms(1), of k] assms(2) by fastforce

lemma find_None: "invar m \<Longrightarrow> abs m k = None \<Longrightarrow> find m k = Some None"
  using find_abs [of m k] by auto

end

interpretation pkm: pk_slots "pk_inv seed" pk_abs "pk_get seed" "pk_put seed" "pk_del seed"
    "pk_find seed" "pk_delAt seed" "pk_reserve seed" pk_commit for seed
proof unfold_locales
  fix m k i slot m'
  show "pk_inv seed m \<Longrightarrow> pk_get seed m k = Some (pk_abs m k)" by (rule pk_get_abs)
  show "pk_inv seed m \<Longrightarrow> \<exists>m'. pk_put seed m k i = Some m' \<and> pk_inv seed m' \<and> pk_abs m' = (pk_abs m)(k \<mapsto> i)"
    by (rule pk_put_ok)
  show "pk_inv seed m \<Longrightarrow> \<exists>m'. pk_del seed m k = Some (pk_abs m k, m') \<and> pk_inv seed m' \<and> pk_abs m' = (pk_abs m)(k := None)"
    by (rule pk_del_ok)
  show "pk_inv seed m \<Longrightarrow> \<exists>r. pk_find seed m k = Some r \<and> map_option snd r = pk_abs m k"
    using pk_find_abs [of seed m k] by blast
  show "\<exists>m'. pk_delAt seed m slot = Some m' \<and> pk_inv seed m' \<and> pk_abs m' = (pk_abs m)(k := None)"
    if "pk_inv seed m" "pk_find seed m k = Some (Some (slot, i))"
    using pk_find_abs [OF that(1), of k] that(2) pk_delAt_ok [OF that(1)] by fastforce
  show "\<exists>slot m'. pk_reserve seed m k = Some (slot, pk_abs m k \<noteq> None, m') \<and> pk_inv seed m' \<and> pk_abs m' = pk_abs m"
    if "pk_inv seed m"
    using pk_reserve_ok [OF that, of k] by (auto simp: pk_table_def)
  show "pk_inv seed (pk_commit m' slot k i) \<and> pk_abs (pk_commit m' slot k i) = (pk_abs m)(k \<mapsto> i)"
    if "pk_inv seed m" "pk_reserve seed m k = Some (slot, False, m')"
    using pk_commit_ok [OF that] by blast
qed

section \<open>Properties\<close>

text \<open>A run of operations on the table, with the answers they give, and on the map it stands for.\<close>

datatype pkOp = OpPut UUID nat | OpDel UUID | OpGet UUID | OpInsert UUID nat

fun pk_run :: "uint64 \<Rightarrow> pkMap \<Rightarrow> pkOp list \<Rightarrow> (nat option list \<times> pkMap) option" where
  "pk_run seed m [] = Some ([], m)"
| "pk_run seed m (OpPut k i # ops) = do { m' \<leftarrow> pk_put seed m k i; pk_run seed m' ops }"
| "pk_run seed m (OpDel k # ops) = do {
     (r, m') \<leftarrow> pk_del seed m k; (rs, m'') \<leftarrow> pk_run seed m' ops; Some (r # rs, m'') }"
| "pk_run seed m (OpGet k # ops) = do {
     r \<leftarrow> pk_get seed m k; (rs, m'') \<leftarrow> pk_run seed m ops; Some (r # rs, m'') }"
| "pk_run seed m (OpInsert k i # ops) = do {
     (slot, found, m') \<leftarrow> pk_reserve seed m k;
     pk_run seed (if found then m' else pk_commit m' slot k i) ops }"

fun map_run :: "(UUID \<Rightarrow> nat option) \<Rightarrow> pkOp list \<Rightarrow> nat option list \<times> (UUID \<Rightarrow> nat option)" where
  "map_run f [] = ([], f)"
| "map_run f (OpPut k i # ops) = map_run (f(k \<mapsto> i)) ops"
| "map_run f (OpDel k # ops) = (let (rs, g) = map_run (f(k := None)) ops in (f k # rs, g))"
| "map_run f (OpGet k # ops) = (let (rs, g) = map_run f ops in (f k # rs, g))"
| "map_run f (OpInsert k i # ops) = map_run (if f k = None then f(k \<mapsto> i) else f) ops"

lemma pk_run_refines:
  "pk_inv seed m \<Longrightarrow> \<exists>m'. pk_run seed m ops = Some (fst (map_run (pk_abs m) ops), m') \<and> pk_inv seed m' \<and>
     pk_abs m' = snd (map_run (pk_abs m) ops)"
proof (induction ops arbitrary: m)
  case (Cons x ops)
  show ?case
  proof (cases x)
    case (OpPut k i)
    obtain m1 where m1: "pk_put seed m k i = Some m1" "pk_inv seed m1" "pk_abs m1 = (pk_abs m)(k \<mapsto> i)"
      using Cons.prems by (rule pkm.put_E)
    with OpPut Cons.IH [OF m1(2)] show ?thesis by (simp del: fun_upd_apply)
  next
    case (OpDel k)
    obtain m1 where m1: "pk_del seed m k = Some (pk_abs m k, m1)" "pk_inv seed m1" "pk_abs m1 = (pk_abs m)(k := None)"
      using Cons.prems by (rule pkm.del_E)
    then obtain m2 where "pk_run seed m1 ops = Some (fst (map_run ((pk_abs m)(k := None)) ops), m2)"
        "pk_inv seed m2" "pk_abs m2 = snd (map_run ((pk_abs m)(k := None)) ops)"
      using Cons.IH [OF m1(2)] by (auto simp del: fun_upd_apply)
    with OpDel m1(1) show ?thesis by (simp add: split_beta)
  next
    case (OpGet k)
    obtain m2 where "pk_run seed m ops = Some (fst (map_run (pk_abs m) ops), m2)"
        "pk_inv seed m2" "pk_abs m2 = snd (map_run (pk_abs m) ops)"
      using Cons.IH [OF Cons.prems] by blast
    with Cons.prems OpGet show ?thesis by (simp add: split_beta pkm.get_abs)
  next
    case (OpInsert k i)
    obtain slot m1 where m1: "pk_reserve seed m k = Some (slot, pk_abs m k \<noteq> None, m1)" "pk_inv seed m1"
        "pk_abs m1 = pk_abs m" "pk_abs m k = None \<longrightarrow>
          (\<forall>i. pk_inv seed (pk_commit m1 slot k i) \<and> pk_abs (pk_commit m1 slot k i) = (pk_abs m)(k \<mapsto> i))"
      using Cons.prems by (rule pkm.reserve_E [where k = k])
    show ?thesis
    proof (cases "pk_abs m k")
      case None
      then have "pk_inv seed (pk_commit m1 slot k i)" "pk_abs (pk_commit m1 slot k i) = (pk_abs m)(k \<mapsto> i)"
        using m1(4) by simp_all
      with None OpInsert m1(1) Cons.IH [of "pk_commit m1 slot k i"] show ?thesis by (simp del: fun_upd_apply)
    next
      case (Some a)
      with OpInsert m1(1) Cons.IH [OF m1(2), unfolded m1(3)] show ?thesis by simp
    qed
  qed
qed simp

text \<open>
  C1.  The open-addressed table refines a map: whatever the hash seed and the size hint, every
  sequence of inserts (\<open>reserve\<close> and \<open>commit\<close>), puts, deletes and lookups on a fresh table returns
  (no probe loop runs forever), gives the answers the map gives, and leaves the table that stands
  for the map's result.
\<close>

theorem pkMap_refines_map:
  "\<exists>m'. pk_run seed (pk_init hint emptyPkMap) ops = Some (fst (map_run Map.empty ops), m') \<and>
     pk_inv seed m' \<and> pk_abs m' = snd (map_run Map.empty ops)"
proof -
  have "pk_inv seed (pk_init hint emptyPkMap) \<and> pk_abs (pk_init hint emptyPkMap) = Map.empty"
    by (rule pk_init_ok) (simp add: emptyPkMap_def)
  then show ?thesis using pk_run_refines [of seed "pk_init hint emptyPkMap" ops] by simp
qed

end
