(* ===== verification/Values.thy ===== *)
theory Values
  imports Uuids
begin

text \<open>
  \<open>value.go\<close>: the packed cell (one tag, two words and a pointer), its constructors, typed accessors,
  comparison, equality and cloning, with the decimal conversions of Go's \<open>strconv\<close> it uses; and the
  byte costs of \<open>stats.go\<close> charged for a cell and a row.

  The record keeps the packing of the source.  \<open>wf_Value\<close> is what the constructors establish, and
  \<open>wf_Value_cases\<close> turns it back into the abstract view: a well-formed cell is exactly one that some
  constructor built.
\<close>

section \<open>Decimal text (strconv)\<close>

fun FormatUint :: "nat \<Rightarrow> bytes" where
  "FormatUint n = (if n < 10 then [48 + word_of_nat n]
                   else FormatUint (n div 10) @ [48 + word_of_nat (n mod 10)])"

declare FormatUint.simps [simp del]

definition FormatInt :: "int \<Rightarrow> bytes" where
  "FormatInt i = (if i < 0 then 45 # FormatUint (nat (- i)) else FormatUint (nat i))"

definition isDigit :: "byte \<Rightarrow> bool" where
  "isDigit c \<longleftrightarrow> 48 \<le> c \<and> c \<le> 57"

fun parseDigits :: "nat \<Rightarrow> bytes \<Rightarrow> nat res" where
  "parseDigits acc [] = Inr acc"
| "parseDigits acc (c # cs) =
     (if \<not> isDigit c then Inl (ErrOther ''invalid syntax'')
      else let acc' = acc * 10 + unat (c - 48)
           in if acc' \<ge> 2 ^ 64 then Inl (ErrOther ''value out of range'') else parseDigits acc' cs)"

definition ParseUint :: "bytes \<Rightarrow> nat res" where
  "ParseUint s = (if s = [] then Inl (ErrOther ''invalid syntax'') else parseDigits 0 s)"

definition ParseInt :: "bytes \<Rightarrow> int res" where
  "ParseInt s =
     (let neg = (s \<noteq> [] \<and> hd s = 45);
          body = (if s \<noteq> [] \<and> (hd s = 45 \<or> hd s = 43) then tl s else s)
      in andThen (ParseUint body) (\<lambda>un.
           if \<not> neg \<and> un \<ge> 2 ^ 63 then Inl (ErrOther ''value out of range'')
           else if neg \<and> un > 2 ^ 63 then Inl (ErrOther ''value out of range'')
           else Inr (if neg then - int un else int un)))"

section \<open>The packed cell\<close>

datatype ValueKind = KindNull | KindInt | KindString | KindBytes | KindBool | KindUUID

text \<open>
  \<open>ptr\<close> is \<open>nil\<close> or the bytes behind the pointer; \<open>w0\<close> is then the length.
\<close>

record Value =
  Kind :: ValueKind
  w0 :: uint64
  w1 :: uint64
  ptr :: "bytes option"

type_synonym Row = "Value list"

definition NullV :: Value where
  "NullV = \<lparr>Kind = KindNull, w0 = 0, w1 = 0, ptr = None\<rparr>"

text \<open>\<open>int64\<close> values are 64-bit words read signed (\<open>sint\<close>); \<open>uint64(v)\<close> keeps the bits.\<close>

definition IntV :: "uint64 \<Rightarrow> Value" where
  "IntV v = \<lparr>Kind = KindInt, w0 = v, w1 = 0, ptr = None\<rparr>"

definition boolToWord :: "bool \<Rightarrow> uint64" where
  "boolToWord b = (if b then 1 else 0)"

definition BoolV :: "bool \<Rightarrow> Value" where
  "BoolV v = \<lparr>Kind = KindBool, w0 = boolToWord v, w1 = 0, ptr = None\<rparr>"

definition StrV :: "bytes \<Rightarrow> Value" where
  "StrV v = (if length v = 0 then \<lparr>Kind = KindString, w0 = 0, w1 = 0, ptr = None\<rparr>
             else \<lparr>Kind = KindString, w0 = word_of_nat (length v), w1 = 0, ptr = Some v\<rparr>)"

definition BytesV :: "bytes \<Rightarrow> Value" where
  "BytesV v = (if length v = 0 then \<lparr>Kind = KindBytes, w0 = 0, w1 = 0, ptr = None\<rparr>
               else \<lparr>Kind = KindBytes, w0 = word_of_nat (length v), w1 = 0, ptr = Some v\<rparr>)"

definition UUIDVal :: "UUID \<Rightarrow> Value" where
  "UUIDVal u = \<lparr>Kind = KindUUID, w0 = be_get (take 8 u), w1 = be_get (take 8 (drop 8 u)), ptr = None\<rparr>"

section \<open>Accessors\<close>

definition Value_Int :: "Value \<Rightarrow> uint64" where
  "Value_Int v = w0 v"

definition Value_Bool :: "Value \<Rightarrow> bool" where
  "Value_Bool v \<longleftrightarrow> w0 v = 1"

definition Value_Str :: "Value \<Rightarrow> bytes" where
  "Value_Str v = (case ptr v of None \<Rightarrow> [] | Some p \<Rightarrow> take (unat (w0 v)) p)"

definition Value_Bytes :: "Value \<Rightarrow> bytes" where
  "Value_Bytes v = (case ptr v of None \<Rightarrow> [] | Some p \<Rightarrow> take (unat (w0 v)) p)"

definition Value_UUID :: "Value \<Rightarrow> UUID" where
  "Value_UUID v = be_put 8 (w0 v) @ be_put 8 (w1 v)"

definition uuidWords :: "Value \<Rightarrow> uint64 \<times> uint64" where
  "uuidWords v = (w0 v, w1 v)"

definition IsNull :: "Value \<Rightarrow> bool" where
  "IsNull v \<longleftrightarrow> Kind v = KindNull"

definition AsString :: "Value \<Rightarrow> bytes" where
  "AsString v = (case Kind v of
       KindNull \<Rightarrow> []
     | KindInt \<Rightarrow> FormatInt (sint (Value_Int v))
     | KindString \<Rightarrow> Value_Str v
     | KindBytes \<Rightarrow> Value_Bytes v
     | KindUUID \<Rightarrow> UUID_String (Value_UUID v)
     | KindBool \<Rightarrow> if Value_Bool v then str ''true'' else str ''false'')"

definition AsInt :: "Value \<Rightarrow> uint64 res" where
  "AsInt v = (case Kind v of
       KindInt \<Rightarrow> Inr (Value_Int v)
     | KindBool \<Rightarrow> Inr (Value_Int v)
     | KindString \<Rightarrow> andThen (ParseInt (Value_Str v)) (\<lambda>i. Inr (word_of_int i))
     | KindNull \<Rightarrow> Inl (ErrOther ''null cannot be coerced to int'')
     | _ \<Rightarrow> Inl (ErrOther ''cannot be coerced to int''))"

section \<open>Comparison and equality\<close>

definition cmp3 :: "'a::linorder \<Rightarrow> 'a \<Rightarrow> int" where
  "cmp3 a b = (if a < b then -1 else if a > b then 1 else 0)"

definition Compare :: "Value \<Rightarrow> Value \<Rightarrow> int \<times> bool" where
  "Compare v o' =
     (if Kind v = KindNull \<or> Kind o' = KindNull then (0, False)
      else if (Kind v = KindInt \<and> Kind o' = KindInt) \<or> (Kind v = KindBool \<and> Kind o' = KindBool) then
        (cmp3 (sint (Value_Int v)) (sint (Value_Int o')), True)
      else if Kind v = KindUUID \<and> Kind o' = KindUUID then
        (if w0 v \<noteq> w0 o' then (if w0 v < w0 o' then (-1, True) else (1, True))
         else if w1 v \<noteq> w1 o' then (if w1 v < w1 o' then (-1, True) else (1, True))
         else (0, True))
      else if Kind v = KindBytes \<and> Kind o' = KindBytes then
        (cmp3 (Value_Bytes v) (Value_Bytes o'), True)
      else if Kind v = KindString \<and> Kind o' = KindString then
        (cmp3 (Value_Str v) (Value_Str o'), True)
      else (cmp3 (AsString v) (AsString o'), True))"

definition Value_Equal :: "Value \<Rightarrow> Value \<Rightarrow> bool" where
  "Value_Equal v o' \<longleftrightarrow>
     Kind v = Kind o' \<and>
     (case Kind v of
        KindNull \<Rightarrow> True
      | KindInt \<Rightarrow> w0 v = w0 o'
      | KindBool \<Rightarrow> w0 v = w0 o'
      | KindString \<Rightarrow> Value_Str v = Value_Str o'
      | KindBytes \<Rightarrow> Value_Bytes v = Value_Bytes o'
      | KindUUID \<Rightarrow> w0 v = w0 o' \<and> w1 v = w1 o')"

section \<open>Cloning and projection\<close>

definition cloneBytes :: "bytes \<Rightarrow> bytes" where
  "cloneBytes b = b"

definition cloneValue :: "Value \<Rightarrow> Value" where
  "cloneValue v = (if Kind v = KindBytes \<and> ptr v \<noteq> None then BytesV (cloneBytes (Value_Bytes v)) else v)"

definition Row_Clone :: "Row \<Rightarrow> Row" where
  "Row_Clone r = map cloneValue r"

definition appendRowClone :: "Value list \<Rightarrow> Row \<Rightarrow> Value list" where
  "appendRowClone dst r = dst @ map cloneValue r"

definition appendProjectClone :: "Value list \<Rightarrow> Row \<Rightarrow> nat list \<Rightarrow> Value list" where
  "appendProjectClone dst r ords = dst @ map (\<lambda>ord. cloneValue (r ! ord)) ords"

section \<open>Byte costs (stats.go)\<close>

definition rowFixedOverhead :: int where "rowFixedOverhead = 64"
definition perIndexRowOverhead :: int where "perIndexRowOverhead = 48"

text \<open>\<open>unsafe.Sizeof(Value{})\<close> is 32; the backing length is read from \<open>w0\<close>.\<close>

definition approxBytes :: "Value \<Rightarrow> int" where
  "approxBytes v = 32 + (if Kind v = KindString \<or> Kind v = KindBytes then sint (w0 v) else 0)"

definition rowCost :: "Row \<Rightarrow> nat \<Rightarrow> int" where
  "rowCost row nIdx = sum_list (map approxBytes row) + rowFixedOverhead + int nIdx * perIndexRowOverhead"

definition cellDelta :: "Value \<Rightarrow> Value \<Rightarrow> int" where
  "cellDelta oldv newv =
     (if Kind newv = KindString \<or> Kind newv = KindBytes then sint (w0 newv) else 0) -
     (if Kind oldv = KindString \<or> Kind oldv = KindBytes then sint (w0 oldv) else 0)"

section \<open>Well-formed cells\<close>

definition wf_Value :: "Value \<Rightarrow> bool" where
  "wf_Value v \<longleftrightarrow> (case Kind v of
       KindNull \<Rightarrow> w0 v = 0 \<and> w1 v = 0 \<and> ptr v = None
     | KindInt \<Rightarrow> w1 v = 0 \<and> ptr v = None
     | KindBool \<Rightarrow> (w0 v = 0 \<or> w0 v = 1) \<and> w1 v = 0 \<and> ptr v = None
     | KindUUID \<Rightarrow> ptr v = None
     | _ \<Rightarrow> w1 v = 0 \<and>
         (case ptr v of None \<Rightarrow> w0 v = 0
          | Some p \<Rightarrow> p \<noteq> [] \<and> length p < 2 ^ 63 \<and> w0 v = word_of_nat (length p)))"

lemmas mkValue_defs = NullV_def IntV_def BoolV_def StrV_def BytesV_def UUIDVal_def
lemmas accessor_defs = Value_Int_def Value_Bool_def Value_Str_def Value_Bytes_def Value_UUID_def IsNull_def

lemma Kind_mk [simp]:
  "Kind NullV = KindNull" "Kind (IntV i) = KindInt" "Kind (BoolV b) = KindBool"
  "Kind (StrV s) = KindString" "Kind (BytesV s) = KindBytes" "Kind (UUIDVal u) = KindUUID"
  by (simp_all add: mkValue_defs)

lemma wf_mk [simp, intro]:
  "wf_Value NullV" "wf_Value (IntV i)" "wf_Value (BoolV b)" "wf_Value (UUIDVal u)"
  "length s < 2 ^ 63 \<Longrightarrow> wf_Value (StrV s)" "length s < 2 ^ 63 \<Longrightarrow> wf_Value (BytesV s)"
  by (auto simp: wf_Value_def mkValue_defs boolToWord_def)

lemma Value_Int_mk [simp]: "Value_Int (IntV i) = i"
  by (simp add: mkValue_defs accessor_defs)

lemma Value_Int_Bool [simp]: "Value_Int (BoolV b) = (if b then 1 else 0)"
  by (simp add: mkValue_defs accessor_defs boolToWord_def)

lemma Value_Bool_mk [simp]: "Value_Bool (BoolV b) = b"
  by (simp add: mkValue_defs accessor_defs boolToWord_def)

lemma unat_length_small: "length s < 2 ^ 63 \<Longrightarrow> unat (word_of_nat (length s) :: uint64) = length s"
  by (rule unat_word_of_nat_small) simp

lemma Value_Str_mk [simp]: "length s < 2 ^ 63 \<Longrightarrow> Value_Str (StrV s) = s"
  by (simp add: mkValue_defs accessor_defs unat_length_small)

lemma Value_Bytes_mk [simp]: "length s < 2 ^ 63 \<Longrightarrow> Value_Bytes (BytesV s) = s"
  by (simp add: mkValue_defs accessor_defs unat_length_small)

lemma Value_UUID_mk [simp]: "uuid_ok u \<Longrightarrow> Value_UUID (UUIDVal u) = u"
  by (simp add: mkValue_defs accessor_defs uuid_ok_def)

lemma UUIDVal_Value_UUID: "Kind v = KindUUID \<Longrightarrow> ptr v = None \<Longrightarrow> UUIDVal (Value_UUID v) = v"
  by (simp add: mkValue_defs accessor_defs)

lemma Value_UUID_ok [simp, intro]: "uuid_ok (Value_UUID v)"
  by (simp add: uuid_ok_def Value_UUID_def)

lemma wf_Value_cases:
  assumes "wf_Value v"
  obtains (Null) "v = NullV" | (Int) i where "v = IntV i" | (Bool) b where "v = BoolV b"
    | (Str) s where "v = StrV s" "length s < 2 ^ 63" | (Bytes) s where "v = BytesV s" "length s < 2 ^ 63"
    | (UUID) u where "v = UUIDVal u" "uuid_ok u"
proof (cases "Kind v")
  case KindNull
  with assms have "v = NullV" by (cases v) (simp add: wf_Value_def NullV_def)
  then show thesis by (rule Null)
next
  case KindInt
  with assms have "v = IntV (w0 v)" by (cases v) (simp add: wf_Value_def IntV_def)
  then show thesis by (rule Int)
next
  case KindBool
  with assms have "v = BoolV (w0 v = 1)"
    by (cases v) (auto simp: wf_Value_def BoolV_def boolToWord_def)
  then show thesis by (rule Bool)
next
  case KindString
  with assms have "v = StrV (case ptr v of None \<Rightarrow> [] | Some p \<Rightarrow> p)"
    by (cases v) (auto simp: wf_Value_def StrV_def split: option.splits)
  moreover from assms KindString have "length (case ptr v of None \<Rightarrow> [] | Some p \<Rightarrow> p) < 2 ^ 63"
    by (auto simp: wf_Value_def split: option.splits)
  ultimately show thesis by (rule Str)
next
  case KindBytes
  with assms have "v = BytesV (case ptr v of None \<Rightarrow> [] | Some p \<Rightarrow> p)"
    by (cases v) (auto simp: wf_Value_def BytesV_def split: option.splits)
  moreover from assms KindBytes have "length (case ptr v of None \<Rightarrow> [] | Some p \<Rightarrow> p) < 2 ^ 63"
    by (auto simp: wf_Value_def split: option.splits)
  ultimately show thesis by (rule Bytes)
next
  case KindUUID
  with assms have "ptr v = None" by (simp add: wf_Value_def)
  with KindUUID have "v = UUIDVal (Value_UUID v)" by (simp add: UUIDVal_Value_UUID)
  then show thesis by (rule UUID) simp
qed

lemma cloneValue_wf [simp]: "wf_Value v \<Longrightarrow> cloneValue v = v"
  by (erule wf_Value_cases) (simp_all add: cloneValue_def cloneBytes_def)

lemma Row_Clone_wf [simp]: "\<forall>v \<in> set r. wf_Value v \<Longrightarrow> Row_Clone r = r"
  by (simp add: Row_Clone_def map_idI)

lemma rowCost_update:
  assumes "ord < length r"
  shows "rowCost (r[ord := v]) nIdx = rowCost r nIdx + cellDelta (r ! ord) v"
proof -
  have "map approxBytes (r[ord := v]) = (map approxBytes r)[ord := approxBytes v]" by (rule map_update)
  then have "sum_list (map approxBytes (r[ord := v])) =
      sum_list (map approxBytes r) + approxBytes v - approxBytes (r ! ord)"
    using assms by (simp add: sum_list_upd)
  then show ?thesis by (simp add: rowCost_def cellDelta_def approxBytes_def)
qed


section \<open>Decimal round trip\<close>

lemma FormatUint_nonempty [simp]: "FormatUint n \<noteq> []"
  by (subst FormatUint.simps) simp

lemma digit_byte:
  assumes "d < 10"
  shows "isDigit (48 + word_of_nat d)" "48 + word_of_nat d - 48 = (word_of_nat d :: byte)"
    "unat (word_of_nat d :: byte) = d" "48 + word_of_nat d \<noteq> (45 :: byte)" "48 + word_of_nat d \<noteq> (43 :: byte)"
proof -
  from assms have "d = 0 \<or> d = 1 \<or> d = 2 \<or> d = 3 \<or> d = 4 \<or> d = 5 \<or> d = 6 \<or> d = 7 \<or> d = 8 \<or> d = 9"
    by (auto simp: numeral_eq_Suc less_Suc_eq)
  then show "isDigit (48 + word_of_nat d)" "48 + word_of_nat d \<noteq> (45 :: byte)" "48 + word_of_nat d \<noteq> (43 :: byte)"
    by (auto simp: isDigit_def)
  show "unat (word_of_nat d :: byte) = d" using assms by (intro unat_word_of_nat_small) simp
qed simp

lemma parseDigits_append:
  "parseDigits acc (xs @ ys) = andThen (parseDigits acc xs) (\<lambda>a. parseDigits a ys)"
  by (induction acc xs rule: parseDigits.induct) (auto simp: Let_def)

lemma parseDigits_FormatUint: "n < 2 ^ 64 \<Longrightarrow> parseDigits 0 (FormatUint n) = Inr n"
proof (induction n rule: FormatUint.induct)
  case (1 n)
  show ?case
  proof (cases "n < 10")
    case True
    then show ?thesis using digit_byte [of n] by (subst FormatUint.simps) simp
  next
    case False
    have m: "n mod 10 < 10" by simp
    have "n div 10 * 10 + n mod 10 = n" by simp
    with False 1 digit_byte [OF m] show ?thesis
      by (subst FormatUint.simps) (simp add: parseDigits_append Let_def del: div_mult_mod_eq mult_div_mod_eq)
  qed
qed

lemma FormatUint_hd: "hd (FormatUint n) \<noteq> 45 \<and> hd (FormatUint n) \<noteq> 43"
proof (induction n rule: FormatUint.induct)
  case (1 n)
  show ?case
  proof (cases "n < 10")
    case True
    with digit_byte(4,5) [OF True] show ?thesis by (subst (1 2) FormatUint.simps) simp
  next
    case False
    with 1 show ?thesis by (subst (1 2) FormatUint.simps) (simp add: hd_append)
  qed
qed

lemma ParseInt_FormatInt:
  assumes "- (2 ^ 63) \<le> i" and "i < 2 ^ 63"
  shows "ParseInt (FormatInt i) = Inr i"
proof (cases "i < 0")
  case True
  with assms have "parseDigits 0 (FormatUint (nat (- i))) = Inr (nat (- i))"
    by (intro parseDigits_FormatUint) simp
  moreover from True assms have "\<not> nat (- i) > 2 ^ 63" by simp
  ultimately show ?thesis
    using True by (simp add: ParseInt_def FormatInt_def ParseUint_def Let_def)
next
  case False
  with assms have "parseDigits 0 (FormatUint (nat i)) = Inr (nat i)"
    by (intro parseDigits_FormatUint) simp
  moreover from False assms have "\<not> nat i \<ge> 2 ^ 63" by simp
  ultimately show ?thesis
    using False FormatUint_hd [of "nat i"] by (simp add: ParseInt_def FormatInt_def ParseUint_def Let_def)
qed

text \<open>Reading an integer cell back from its text form gives the same 64-bit word.\<close>

lemma FormatUint_length: "n < 10 ^ k \<Longrightarrow> 0 < k \<Longrightarrow> length (FormatUint n) \<le> k"
proof (induction n arbitrary: k rule: FormatUint.induct)
  case (1 n)
  show ?case
  proof (cases "n < 10")
    case True
    then show ?thesis using 1(3) by (subst FormatUint.simps) simp
  next
    case False
    then obtain j where k: "k = Suc j" "0 < j" using 1(2,3) by (cases k; cases "k - 1") auto
    have "n div 10 < 10 ^ j" using 1(2) k by (simp add: div_less_iff_less_mult mult.commute)
    then have "length (FormatUint (n div 10)) \<le> j" using 1(1) [OF False, of j] k by simp
    then show ?thesis using False k by (subst FormatUint.simps) simp
  qed
qed

lemma AsString_Int_short: "length (AsString (IntV i)) < 2 ^ 63"
proof -
  have "- (2 ^ 63) \<le> sint i" "sint i < 2 ^ 63" using sint_ge [of i] sint_lt [of i] by simp_all
  then have "length (FormatUint (nat (- sint i))) \<le> 19" "length (FormatUint (nat (sint i))) \<le> 19"
    by (auto intro!: FormatUint_length)
  then show ?thesis by (simp add: AsString_def FormatInt_def)
qed

lemma AsInt_AsString_Int:
  assumes "length (AsString (IntV i)) < 2 ^ 63"
  shows "AsInt (StrV (AsString (IntV i))) = Inr i"
proof -
  have "- (2 ^ 63) \<le> sint i" "sint i < 2 ^ 63"
    using sint_greater_eq [of i] sint_less [of i] by simp_all
  then have "ParseInt (FormatInt (sint i)) = Inr (sint i)" by (rule ParseInt_FormatInt)
  with assms show ?thesis by (simp add: AsString_def AsInt_def)
qed

section \<open>Comparison is an order that agrees with equality\<close>

lemma cmp3_simps [simp]:
  "cmp3 a b = 0 \<longleftrightarrow> a = b" "cmp3 a b < 0 \<longleftrightarrow> a < b" "cmp3 a b > 0 \<longleftrightarrow> b < a"
  "cmp3 a b \<le> 0 \<longleftrightarrow> a \<le> b" "cmp3 a b \<ge> 0 \<longleftrightarrow> b \<le> a"
  "cmp3 a b = - 1 \<longleftrightarrow> a < b" "cmp3 a b = 1 \<longleftrightarrow> b < a"
  by (auto simp: cmp3_def)

lemma cmp3_refl [simp]: "cmp3 a a = 0"
  by (simp add: cmp3_def)

lemma cmp3_antisym: "cmp3 b a = - cmp3 a b"
  by (auto simp: cmp3_def)

text \<open>
  The abstract key of a non-null cell: comparing two cells of one kind is comparing their keys.
\<close>

definition sortKey :: "Value \<Rightarrow> int \<times> bytes" where
  "sortKey v = (case Kind v of
       KindInt \<Rightarrow> (sint (w0 v), []) | KindBool \<Rightarrow> (sint (w0 v), [])
     | KindUUID \<Rightarrow> (0, Value_UUID v) | KindString \<Rightarrow> (0, Value_Str v)
     | KindBytes \<Rightarrow> (0, Value_Bytes v) | KindNull \<Rightarrow> (0, []))"

definition cmpKey :: "int \<times> bytes \<Rightarrow> int \<times> bytes \<Rightarrow> int" where
  "cmpKey a b = (if fst a \<noteq> fst b then cmp3 (fst a) (fst b) else cmp3 (snd a) (snd b))"

lemma Value_UUID_less:
  "Value_UUID v < Value_UUID w \<longleftrightarrow> w0 v < w0 w \<or> (w0 v = w0 w \<and> w1 v < w1 w)"
  by (simp add: Value_UUID_def append_less_iff be_put_less_iff be_put_inj)

lemma Value_UUID_eq: "Value_UUID v = Value_UUID w \<longleftrightarrow> w0 v = w0 w \<and> w1 v = w1 w"
  by (simp add: Value_UUID_def be_put_inj)

lemma Compare_key:
  assumes "Kind v = Kind w" and "Kind v \<noteq> KindNull"
  shows "Compare v w = (cmpKey (sortKey v) (sortKey w), True)"
proof (cases "Kind v = KindUUID")
  case True
  with assms show ?thesis
    by (auto simp: Compare_def cmpKey_def sortKey_def cmp3_def Value_UUID_less Value_UUID_eq)
next
  case False
  with assms show ?thesis
    by (cases "Kind v") (auto simp: Compare_def cmpKey_def sortKey_def Value_Int_def)
qed

lemma Value_Equal_key:
  assumes "Kind v = Kind w"
  shows "Value_Equal v w \<longleftrightarrow> sortKey v = sortKey w"
  using assms
  by (cases "Kind v") (auto simp: Value_Equal_def sortKey_def Value_UUID_eq word_eq_iff_signed)

section \<open>Properties\<close>

lemma cmpKey_trans: "cmpKey a b \<le> 0 \<Longrightarrow> cmpKey b c \<le> 0 \<Longrightarrow> cmpKey a c \<le> 0"
  by (auto simp: cmpKey_def cmp3_def split: if_splits)

lemma cmpKey_swap: "cmpKey b a = - cmpKey a b"
  by (auto simp: cmpKey_def cmp3_def)

lemma cmpKey_0: "cmpKey a b = 0 \<longleftrightarrow> a = b"
  by (auto simp: cmpKey_def prod_eq_iff)

text \<open>
  C5.  \<open>Compare\<close> is a total order on the non-null cells of one kind: it always answers, it is
  antisymmetric and transitive, and it answers 0 exactly when \<open>Equal\<close> holds, so a range scan, an
  \<open>ORDER BY\<close> and a \<open>=\<close> predicate agree.
\<close>

theorem Compare_total_order:
  assumes "Kind v = Kind w" and "Kind w = Kind x" and "Kind v \<noteq> KindNull"
  shows "snd (Compare v w) \<and> fst (Compare w v) = - fst (Compare v w) \<and>
    (fst (Compare v w) = 0 \<longleftrightarrow> Value_Equal v w) \<and>
    (fst (Compare v w) \<le> 0 \<longrightarrow> fst (Compare w x) \<le> 0 \<longrightarrow> fst (Compare v x) \<le> 0)"
  using assms cmpKey_trans [of "sortKey v" "sortKey w" "sortKey x"]
  by (simp add: Compare_key Value_Equal_key cmpKey_swap [of "sortKey w" "sortKey v"] cmpKey_0)

theorem Compare_total_order_witness:
  "fst (Compare (IntV (- 1)) (IntV 0)) = - 1 \<and> fst (Compare (IntV 0) (IntV 7)) = - 1 \<and>
   fst (Compare (IntV (- 1)) (IntV 7)) \<le> 0"
  using Compare_total_order [of "IntV (- 1)" "IntV 0" "IntV 7"]
  by (simp add: Compare_def cmp3_def)

text \<open>
  Integer text round trip: every 64-bit integer cell, rendered with \<open>AsString\<close> and stored as a
  string, reads back through \<open>AsInt\<close> as the same integer, the most negative one included.
\<close>

theorem AsInt_of_AsString: "AsInt (StrV (AsString (IntV i))) = Inr i"
proof (rule AsInt_AsString_Int)
  show "length (AsString (IntV i)) < 2 ^ 63" by (rule AsString_Int_short)
qed

end
