(* ===== verification/CompositeKey.thy ===== *)
theory CompositeKey
  imports Values
begin

text \<open>
  \<open>composite_key.go\<close> and the key type of \<open>secindex.go\<close>: the order-preserving byte encoding of a tuple
  of cells.  The main fact is the design claim of the file: comparing two encodings bytewise is
  comparing the tuples column by column with the scalar index order.
\<close>

section \<open>Scalar index keys (secindex.go)\<close>

record indexKey =
  kkind :: ValueKind
  kw0 :: uint64
  kw1 :: uint64
  ks :: bytes

definition keyOf :: "Value \<Rightarrow> indexKey" where
  "keyOf v = (case Kind v of
       KindInt \<Rightarrow> \<lparr>kkind = KindInt, kw0 = Value_Int v, kw1 = 0, ks = []\<rparr>
     | KindBool \<Rightarrow> \<lparr>kkind = KindBool, kw0 = (if Value_Bool v then 1 else 0), kw1 = 0, ks = []\<rparr>
     | KindString \<Rightarrow> \<lparr>kkind = KindString, kw0 = 0, kw1 = 0, ks = Value_Str v\<rparr>
     | KindBytes \<Rightarrow> \<lparr>kkind = KindBytes, kw0 = 0, kw1 = 0, ks = Value_Bytes v\<rparr>
     | KindUUID \<Rightarrow> (let (hi, lo) = uuidWords v in \<lparr>kkind = KindUUID, kw0 = hi, kw1 = lo, ks = []\<rparr>)
     | KindNull \<Rightarrow> \<lparr>kkind = KindNull, kw0 = 0, kw1 = 0, ks = []\<rparr>)"

definition key_less :: "indexKey \<Rightarrow> indexKey \<Rightarrow> bool" where
  "key_less k k' = (case kkind k of
       KindInt \<Rightarrow> sint (kw0 k) < sint (kw0 k')
     | KindBool \<Rightarrow> sint (kw0 k) < sint (kw0 k')
     | KindUUID \<Rightarrow> if kw0 k \<noteq> kw0 k' then kw0 k < kw0 k' else kw1 k < kw1 k'
     | _ \<Rightarrow> ks k < ks k')"

section \<open>The encoding\<close>

text \<open>
  The chunked copy of \<open>appendEscapedTerminated\<close>: \<open>i\<close> walks the string, \<open>lst\<close> (the source's \<open>last\<close>) is the start of the
  pending span, each \<open>NUL\<close> flushes the span and is escaped.
\<close>

function escape_loop :: "bytes \<Rightarrow> bytes \<Rightarrow> nat \<Rightarrow> nat \<Rightarrow> bytes" where
  "escape_loop b t lst i =
     (if i < length t then
        if t ! i = 0 then escape_loop (b @ take (i - lst) (drop lst t) @ [0, 0xFF]) t (i + 1) (i + 1)
        else escape_loop b t lst (i + 1)
      else b @ drop lst t @ [0, 0])"
  by pat_completeness auto
termination by (relation "measure (\<lambda>(b, t, lst, i). length t - i)") auto

declare escape_loop.simps [simp del]

definition appendEscapedTerminated :: "bytes \<Rightarrow> bytes \<Rightarrow> bytes" where
  "appendEscapedTerminated b t = escape_loop b t 0 0"

definition signBit :: uint64 where
  "signBit = push_bit 63 1"

definition appendOrderedColumn :: "bytes \<Rightarrow> Value \<Rightarrow> bytes" where
  "appendOrderedColumn b v = (case Kind v of
       KindInt \<Rightarrow> b @ be_put 8 (Value_Int v XOR signBit)
     | KindBool \<Rightarrow> if Value_Bool v then b @ [1] else b @ [0]
     | KindUUID \<Rightarrow> (let (hi, lo) = uuidWords v in b @ be_put 8 hi @ be_put 8 lo)
     | KindString \<Rightarrow> appendEscapedTerminated b (Value_Str v)
     | KindBytes \<Rightarrow> appendEscapedTerminated b (Value_Bytes v)
     | KindNull \<Rightarrow> b)"

definition encodeCompositeKeyInto :: "Value list \<Rightarrow> indexKey \<times> bytes" where
  "encodeCompositeKeyInto vals =
     (let b = foldl appendOrderedColumn [] vals in (\<lparr>kkind = KindBytes, kw0 = 0, kw1 = 0, ks = b\<rparr>, b))"

definition encodeCompositeKey :: "Value list \<Rightarrow> indexKey" where
  "encodeCompositeKey vals = fst (encodeCompositeKeyInto vals)"

section \<open>The byte-at-a-time reading of the escape loop\<close>

definition esc_byte :: "byte \<Rightarrow> bytes" where
  "esc_byte c = (if c = 0 then [0, 0xFF] else [c])"

definition esc :: "bytes \<Rightarrow> bytes" where
  "esc t = concat (map esc_byte t) @ [0, 0]"

lemma concat_esc_id: "0 \<notin> set t \<Longrightarrow> concat (map esc_byte t) = t"
  by (induction t) (auto simp: esc_byte_def)

lemma escape_loop_eq:
  assumes "lst \<le> i" "i \<le> length t" "0 \<notin> set (take (i - lst) (drop lst t))"
  shows "escape_loop b t lst i = b @ concat (map esc_byte (drop lst t)) @ [0, 0]"
  using assms
proof (induction b t lst i rule: escape_loop.induct)
  case (1 b t lst i)
  let ?span = "take (i - lst) (drop lst t)"
  show ?case
  proof (cases "i < length t")
    case True
    then have drop: "drop lst t = ?span @ t ! i # drop (i + 1) t"
      using 1(3) by (simp add: Cons_nth_drop_Suc) (metis append_take_drop_id drop_drop le_add_diff_inverse2)
    show ?thesis
    proof (cases "t ! i = 0")
      case z: True
      have "escape_loop b t lst i = escape_loop (b @ ?span @ [0, 0xFF]) t (i + 1) (i + 1)"
        using True z by (simp add: escape_loop.simps [of b t lst i])
      also have "\<dots> = (b @ ?span @ [0, 0xFF]) @ concat (map esc_byte (drop (i + 1) t)) @ [0, 0]"
        using True z by (intro 1(1)) simp_all
      finally show ?thesis
        using z 1(5) by (subst drop) (simp add: concat_esc_id esc_byte_def)
    next
      case nz: False
      have "take (i + 1 - lst) (drop lst t) = ?span @ [t ! i]"
        using True 1(3) by (simp add: Suc_diff_le take_Suc_conv_app_nth)
      then have "escape_loop b t lst (i + 1) = b @ concat (map esc_byte (drop lst t)) @ [0, 0]"
        using True nz 1(3,5) by (intro 1(2)) auto
      then show ?thesis using True nz by (simp add: escape_loop.simps [of b t lst i])
    qed
  next
    case False
    then have "drop lst t = ?span" using 1(3,4) by simp
    then have "concat (map esc_byte (drop lst t)) = drop lst t" using 1(5) by (metis concat_esc_id)
    then show ?thesis using False by (simp add: escape_loop.simps [of b t lst i])
  qed
qed

lemma appendEscapedTerminated_eq: "appendEscapedTerminated b t = b @ esc t"
  by (simp add: appendEscapedTerminated_def escape_loop_eq esc_def)


section \<open>Each column: order and self-delimitation\<close>

definition col :: "Value \<Rightarrow> bytes" where
  "col v = appendOrderedColumn [] v"

lemma appendOrderedColumn_col: "appendOrderedColumn b v = b @ col v"
  by (cases "Kind v")
    (simp_all add: col_def appendOrderedColumn_def appendEscapedTerminated_eq split_def Let_def)

lemma foldl_col: "foldl appendOrderedColumn b vals = b @ concat (map col vals)"
  by (induction vals arbitrary: b) (simp_all add: appendOrderedColumn_col)

lemma encodeCompositeKey_s: "ks (encodeCompositeKey vals) = concat (map col vals)"
  by (simp add: encodeCompositeKey_def encodeCompositeKeyInto_def foldl_col Let_def)

lemma byte_pos: "(0 :: byte) < c \<longleftrightarrow> c \<noteq> 0"
  by (simp add: word_neq_0_conv)

lemma esc_Cons: "esc (c # t) = esc_byte c @ esc t"
  by (simp add: esc_def)

lemma esc_Nil: "esc [] = [0, 0]"
  by (simp add: esc_def)

lemma esc_less: "esc x @ r < esc y @ t \<longleftrightarrow> x < y \<or> (x = y \<and> r < t)"
proof (induction x arbitrary: y)
  case Nil
  then show ?case by (cases y) (auto simp: esc_Nil esc_Cons esc_byte_def byte_pos)
next
  case (Cons c x)
  then show ?case by (cases y) (auto simp: esc_Nil esc_Cons esc_byte_def byte_pos)
qed

lemma esc_eq: "esc x @ r = esc y @ t \<longleftrightarrow> x = y \<and> r = t"
proof (induction x arbitrary: y)
  case Nil
  then show ?case by (cases y) (auto simp: esc_Nil esc_Cons esc_byte_def)
next
  case (Cons c x)
  then show ?case by (cases y) (auto simp: esc_Nil esc_Cons esc_byte_def)
qed

lemma uint_flip_sign: "uint (v XOR signBit) = sint v + 2 ^ 63"
proof -
  have "flip_bit 63 v = v + 2 ^ 63"
  proof (cases "bit v 63")
    case True
    then have "flip_bit 63 v = v - 2 ^ 63" by (simp only: flip_bit_eq_if if_True unset_bit_eq) simp
    then show ?thesis by simp
  next
    case False
    then show ?thesis by (simp only: flip_bit_eq_if if_False set_bit_eq) simp
  qed
  also have "\<dots> = word_of_int (sint v + 2 ^ 63)" by simp
  finally have "v XOR signBit = word_of_int (sint v + 2 ^ 63)"
    by (simp only: signBit_def flip_bit_eq_xor)
  then have "uint (v XOR signBit) = take_bit 64 (sint v + 2 ^ 63)"
    by (simp only: unsigned_of_int) simp
  also have "\<dots> = sint v + 2 ^ 63"
    using sint_greater_eq [of v] sint_less [of v] by (intro take_bit_int_eq_self) simp_all
  finally show ?thesis .
qed

lemma flip_sign_less: "v XOR signBit < w XOR signBit \<longleftrightarrow> sint v < sint w"
  by (simp only: word_less_alt uint_flip_sign add_less_cancel_right)

lemma flip_sign_eq: "v XOR signBit = w XOR signBit \<longleftrightarrow> v = w"
  by (metis uint_flip_sign add_right_cancel word_eq_iff_signed)

lemmas col_simps = col_def appendOrderedColumn_def keyOf_def key_less_def uuidWords_def
  append_less_iff be_put_less_iff be_put_inj appendEscapedTerminated_eq esc_less esc_eq
  flip_sign_less flip_sign_eq

lemma col_order:
  assumes "Kind v = Kind w" "Kind v \<noteq> KindNull"
  shows "col v @ r < col w @ t \<longleftrightarrow> key_less (keyOf v) (keyOf w) \<or> (keyOf v = keyOf w \<and> r < t)"
    and "col v @ r = col w @ t \<longleftrightarrow> keyOf v = keyOf w \<and> r = t"
proof -
  show "col v @ r < col w @ t \<longleftrightarrow> key_less (keyOf v) (keyOf w) \<or> (keyOf v = keyOf w \<and> r < t)"
    using assms by (cases "Kind v") (auto simp: col_simps)
  show "col v @ r = col w @ t \<longleftrightarrow> keyOf v = keyOf w \<and> r = t"
    using assms by (cases "Kind v") (auto simp: col_simps)
qed

section \<open>Tuples\<close>

text \<open>Column-by-column comparison with the scalar order of \<open>indexKey.less\<close>.\<close>

fun tuple_less :: "Value list \<Rightarrow> Value list \<Rightarrow> bool" where
  "tuple_less (v # vs) (w # ws) \<longleftrightarrow>
     key_less (keyOf v) (keyOf w) \<or> (keyOf v = keyOf w \<and> tuple_less vs ws)"
| "tuple_less _ _ \<longleftrightarrow> False"

definition no_nulls :: "Value list \<Rightarrow> bool" where
  "no_nulls vs \<longleftrightarrow> (\<forall>v \<in> set vs. Kind v \<noteq> KindNull)"

lemma no_nulls_simps [simp]:
  "no_nulls []" "no_nulls (v # vs) \<longleftrightarrow> Kind v \<noteq> KindNull \<and> no_nulls vs"
  by (auto simp: no_nulls_def)

lemma encode_order_aux:
  assumes "map Kind vs = map Kind ws" and "no_nulls vs"
  shows "concat (map col vs) < concat (map col ws) \<longleftrightarrow> tuple_less vs ws"
  using assms
proof (induction vs ws rule: tuple_less.induct)
  case (1 v vs w ws)
  then show ?case by (simp add: col_order)
qed auto

lemma encode_prefix_aux:
  assumes "map Kind vs = map Kind (take (length vs) ws)" and "no_nulls vs" and "length vs \<le> length ws"
  shows "prefix (concat (map col vs)) (concat (map col ws)) \<longleftrightarrow> map keyOf vs = map keyOf (take (length vs) ws)"
  using assms
proof (induction vs arbitrary: ws)
  case Nil
  then show ?case by simp
next
  case (Cons v vs)
  then obtain w ws' where ws: "ws = w # ws'" by (cases ws) auto
  with Cons.prems have kinds: "Kind v = Kind w" "Kind v \<noteq> KindNull" by auto
  have "prefix (col v @ concat (map col vs)) (col w @ concat (map col ws')) \<longleftrightarrow>
      keyOf v = keyOf w \<and> prefix (concat (map col vs)) (concat (map col ws'))"
    by (auto simp: prefix_def col_order(2) [OF kinds] intro: exI)
       (metis append.assoc col_order(2) [OF kinds])+
  with Cons ws show ?case by auto
qed

lemma encode_keys_eq:
  assumes "map Kind vs = map Kind ws" and "no_nulls vs"
  shows "encodeCompositeKey vs = encodeCompositeKey ws \<longleftrightarrow> map keyOf vs = map keyOf ws"
proof -
  have "concat (map col vs) = concat (map col ws) \<longleftrightarrow> map keyOf vs = map keyOf ws"
    using assms
  proof (induction vs ws rule: list_induct2')
    case (4 v vs w ws)
    then show ?case by (simp add: col_order(2))
  qed auto
  then show ?thesis
    by (simp add: encodeCompositeKey_def encodeCompositeKeyInto_def foldl_col Let_def)
qed

section \<open>Properties\<close>

text \<open>
  C2.  The composite key encoding preserves order: for two tuples of the same column kinds without
  nulls, the byte order of the encoded keys (\<open>less\<close> on the \<open>KindBytes\<close> keys) is the
  column-by-column order of the values, and the keys are equal only when every column is.
\<close>

theorem encodeCompositeKey_order:
  assumes "map Kind vs = map Kind ws" and "no_nulls vs"
  shows "(key_less (encodeCompositeKey vs) (encodeCompositeKey ws) \<longleftrightarrow> tuple_less vs ws) \<and>
    (encodeCompositeKey vs = encodeCompositeKey ws \<longleftrightarrow> map keyOf vs = map keyOf ws)"
proof -
  have "kkind (encodeCompositeKey vs) = KindBytes"
    by (simp add: encodeCompositeKey_def encodeCompositeKeyInto_def Let_def)
  then have "key_less (encodeCompositeKey vs) (encodeCompositeKey ws) \<longleftrightarrow> tuple_less vs ws"
    by (simp add: key_less_def encodeCompositeKey_s encode_order_aux [OF assms])
  with encode_keys_eq [OF assms] show ?thesis by simp
qed

theorem encodeCompositeKey_order_witness:
  "key_less (encodeCompositeKey [StrV [97], IntV (- 5)]) (encodeCompositeKey [StrV [97, 0], IntV (- 9)])"
  using encodeCompositeKey_order [of "[StrV [97], IntV (- 5)]" "[StrV [97, 0], IntV (- 9)]"]
  by (simp add: key_less_def keyOf_def Value_Str_mk)

text \<open>
  C3.  An encoded prefix of the columns is a byte prefix of exactly the full keys whose first
  columns have those values; this is what a leftmost-prefix lookup relies on.
\<close>

theorem encodeCompositeKey_prefix:
  assumes "map Kind vs = map Kind (take (length vs) ws)" and "no_nulls vs" and "length vs \<le> length ws"
  shows "prefix (ks (encodeCompositeKey vs)) (ks (encodeCompositeKey ws)) \<longleftrightarrow>
    map keyOf vs = map keyOf (take (length vs) ws)"
  using encode_prefix_aux [OF assms] by (simp add: encodeCompositeKey_s)

theorem encodeCompositeKey_prefix_witness:
  "prefix (ks (encodeCompositeKey [StrV [0]])) (ks (encodeCompositeKey [StrV [0], BoolV True])) \<and>
   \<not> prefix (ks (encodeCompositeKey [StrV [0]])) (ks (encodeCompositeKey [StrV [0, 1], BoolV True]))"
  using encodeCompositeKey_prefix [of "[StrV [0]]" "[StrV [0], BoolV True]"]
    encodeCompositeKey_prefix [of "[StrV [0]]" "[StrV [0, 1], BoolV True]"]
  by (simp add: keyOf_def Value_Str_mk)

end
