(* ===== verification/Schemas.thy ===== *)
theory Schemas
  imports Values
begin

text \<open>
  \<open>schema.go\<close>: column, index and table definitions, their resolution into the form the executor
  uses, and the validation of cells and of replayed rows.  Ordinals are \<open>-1\<close> for "none" in the
  source, so \<open>pkOrdinal\<close> and \<open>partitionOrdinal\<close> are integers.
\<close>

section \<open>Definitions\<close>

text \<open>A \<open>ColumnType\<close> is a byte; \<open>TypeOther\<close> stands for the values without a name (such as the zero value).\<close>

datatype ColumnType = TypeInt | TypeString | TypeBytes | TypeBool | TypeUUID | TypeOther byte

record ColumnDef =
  cName :: bytes
  cType :: ColumnType
  cPK :: bool
  cImmutable :: bool
  cPartitionKey :: bool
  cNullable :: bool

record IndexDef =
  iName :: bytes
  iColumns :: "bytes list"
  iOrdered :: bool

record TableDef =
  tName :: bytes
  tColumns :: "ColumnDef list"
  tIndexes :: "IndexDef list"

type_synonym Schema = "TableDef list"

record resolvedIndex =
  ri_name :: bytes
  ri_ordinals :: "nat list"
  ri_ordered :: bool

record resolvedTable =
  rt_def :: TableDef
  colByName :: "bytes \<Rightarrow> nat option"
  pkOrdinal :: int
  partitionOrdinal :: int
  rt_indexes :: "resolvedIndex list"

definition singleOn :: "resolvedIndex \<Rightarrow> nat \<Rightarrow> bool" where
  "singleOn ri ord \<longleftrightarrow> length (ri_ordinals ri) = 1 \<and> ri_ordinals ri ! 0 = ord"

definition indexOfColumn :: "resolvedTable \<Rightarrow> nat \<Rightarrow> resolvedIndex option" where
  "indexOfColumn rt ord = List.find (\<lambda>ri. singleOn ri ord) (rt_indexes rt)"

definition partitioned :: "resolvedTable \<Rightarrow> bool" where
  "partitioned rt \<longleftrightarrow> partitionOrdinal rt \<ge> 0"

section \<open>Resolution\<close>

text \<open>The errors of this file have no sentinel; \<open>schema_err\<close> carries the fixed part of the text.\<close>

abbreviation schema_err :: "string \<Rightarrow> err" where
  "schema_err msg \<equiv> ErrOther (''schema: '' @ msg)"

definition resolveColumn :: "nat \<times> ColumnDef \<Rightarrow> resolvedTable \<Rightarrow> resolvedTable res" where
  "resolveColumn = (\<lambda>(i, c) rt.
     if cName c = [] then Inl (schema_err ''column has empty name'')
     else if colByName rt (cName c) \<noteq> None then Inl (schema_err ''duplicate column'')
     else andThen
       (let rt = rt\<lparr>colByName := (colByName rt)(cName c \<mapsto> i)\<rparr> in
        if cPK c then
          (if pkOrdinal rt \<ge> 0 then Inl (schema_err ''multiple PK columns'')
           else if cType c \<noteq> TypeUUID then Inl (schema_err ''PK column must be UUID'')
           else Inr (rt\<lparr>pkOrdinal := int i\<rparr>))
        else Inr rt)
       (\<lambda>rt. if cPartitionKey c then
          (if partitionOrdinal rt \<ge> 0 then Inl (schema_err ''multiple PartitionKey columns'')
           else if cType c \<noteq> TypeUUID then Inl (schema_err ''PartitionKey column must be UUID'')
           else Inr (rt\<lparr>partitionOrdinal := int i\<rparr>))
        else Inr rt))"

text \<open>The columns of one index; \<open>seenCol\<close> holds exactly the ordinals collected so far.\<close>

definition resolveIndexColumn :: "resolvedTable \<Rightarrow> bytes \<Rightarrow> nat list \<Rightarrow> nat list res" where
  "resolveIndexColumn rt col ords = (case colByName rt col of
       None \<Rightarrow> Inl (schema_err ''INDEX on unknown column'')
     | Some ord \<Rightarrow>
         if int ord = pkOrdinal rt then Inl (schema_err ''INDEX on PK column is redundant'')
         else if ord \<in> set ords then Inl (schema_err ''INDEX repeats column'')
         else Inr (ords @ [ord]))"

fun joinWith :: "bytes \<Rightarrow> bytes list \<Rightarrow> bytes" where
  "joinWith sep [] = []"
| "joinWith sep [x] = x"
| "joinWith sep (x # y # xs) = x @ sep @ joinWith sep (y # xs)"

text \<open>
  \<open>seenIdxSig\<close> and \<open>seenIdxName\<close> hold the column lists and the names of the indexes resolved so far.
\<close>

definition resolveIndex :: "IndexDef \<Rightarrow> resolvedTable \<Rightarrow> resolvedTable res" where
  "resolveIndex ix rt =
     (if length (iColumns ix) = 0 then Inl (schema_err ''index with no columns'')
      else andThen (for_each (resolveIndexColumn rt) (iColumns ix) []) (\<lambda>ords.
        if ords \<in> ri_ordinals ` set (rt_indexes rt) then Inl (schema_err ''multiple indexes on columns'')
        else let name = (if iName ix = [] then str ''idx_'' @ joinWith (str ''_'') (iColumns ix) else iName ix) in
          if name \<in> ri_name ` set (rt_indexes rt) then Inl (schema_err ''duplicate index name'')
          else Inr (rt\<lparr>rt_indexes :=
            rt_indexes rt @ [\<lparr>ri_name = name, ri_ordinals = ords, ri_ordered = iOrdered ix\<rparr>]\<rparr>)))"

definition resolveTable :: "TableDef \<Rightarrow> resolvedTable res" where
  "resolveTable t =
     andThen (for_each resolveColumn (enumerate 0 (tColumns t))
       \<lparr>rt_def = t, colByName = Map.empty, pkOrdinal = -1, partitionOrdinal = -1, rt_indexes = []\<rparr>) (\<lambda>rt.
       if pkOrdinal rt < 0 then Inl (schema_err ''no PK column'')
       else if partitionOrdinal rt = pkOrdinal rt then
         Inl (schema_err ''PartitionKey must be a different column than the PK'')
       else if partitioned rt \<and> length (tIndexes t) > 0 then
         Inl (schema_err ''secondary indexes on partitioned tables are not supported yet'')
       else for_each resolveIndex (tIndexes t) rt)"

definition resolveSchema :: "Schema \<Rightarrow> (bytes \<Rightarrow> resolvedTable option) res" where
  "resolveSchema tables = for_each (\<lambda>t out.
      if tName t = [] then Inl (schema_err ''table with empty name'')
      else if out (tName t) \<noteq> None then Inl (schema_err ''duplicate table'')
      else andThen (resolveTable t) (\<lambda>rt. Inr (out(tName t \<mapsto> rt)))) tables Map.empty"

section \<open>Validation\<close>

text \<open>\<open>utf8.ValidString\<close> of the standard library: the well-formed sequences of RFC 3629.\<close>

definition cont :: "byte \<Rightarrow> bool" where
  "cont c \<longleftrightarrow> 0x80 \<le> c \<and> c \<le> 0xBF"

fun utf8_valid :: "bytes \<Rightarrow> bool" where
  "utf8_valid [] = True"
| "utf8_valid (a # t) =
     (if a < 0x80 then utf8_valid t
      else case t of [] \<Rightarrow> False | b # t2 \<Rightarrow>
        if 0xC2 \<le> a \<and> a \<le> 0xDF then cont b \<and> utf8_valid t2
        else case t2 of [] \<Rightarrow> False | c # t3 \<Rightarrow>
          if 0xE0 \<le> a \<and> a \<le> 0xEF then
            cont b \<and> cont c \<and> (a = 0xE0 \<longrightarrow> 0xA0 \<le> b) \<and> (a = 0xED \<longrightarrow> b \<le> 0x9F) \<and> utf8_valid t3
          else case t3 of [] \<Rightarrow> False | d # t4 \<Rightarrow>
            0xF0 \<le> a \<and> a \<le> 0xF4 \<and> cont b \<and> cont c \<and> cont d \<and>
            (a = 0xF0 \<longrightarrow> 0x90 \<le> b) \<and> (a = 0xF4 \<longrightarrow> b \<le> 0x8F) \<and> utf8_valid t4)"

definition validateValue :: "ColumnDef \<Rightarrow> Value \<Rightarrow> unit res" where
  "validateValue c v =
     (if IsNull v then (if \<not> cNullable c then Inl (ErrOther ''is NOT NULL'') else Inr ())
      else case cType c of
        TypeInt \<Rightarrow> guard_err (Kind v = KindInt) (ErrOther ''expects INT'')
      | TypeString \<Rightarrow>
          if Kind v \<noteq> KindString then Inl (ErrOther ''expects STRING'')
          else if \<not> utf8_valid (Value_Str v) then Inl (ErrOther ''expects valid UTF-8'')
          else Inr ()
      | TypeBytes \<Rightarrow> guard_err (Kind v = KindBytes) (ErrOther ''expects BYTES'')
      | TypeBool \<Rightarrow> guard_err (Kind v = KindBool) (ErrOther ''expects BOOL'')
      | TypeUUID \<Rightarrow> guard_err (Kind v = KindUUID) (ErrOther ''expects UUID'')
      | TypeOther _ \<Rightarrow> Inr ())"

definition validateInsertRow :: "ColumnDef list \<Rightarrow> Row \<Rightarrow> unit res" where
  "validateInsertRow cols row =
     (if length row \<noteq> length cols then Inl ErrWALCorrupt
      else for_each (\<lambda>i _. case validateValue (cols ! i) (row ! i) of
          Inl _ \<Rightarrow> Inl ErrWALCorrupt | Inr _ \<Rightarrow> Inr ()) [0..<length row] ())"

section \<open>Well-formed tables\<close>

definition wf_index :: "resolvedTable \<Rightarrow> resolvedIndex \<Rightarrow> bool" where
  "wf_index rt ri \<longleftrightarrow>
     ri_ordinals ri \<noteq> [] \<and> distinct (ri_ordinals ri) \<and>
     (\<forall>ord \<in> set (ri_ordinals ri). ord < length (tColumns (rt_def rt)) \<and> int ord \<noteq> pkOrdinal rt)"

definition wf_table :: "resolvedTable \<Rightarrow> bool" where
  "wf_table rt \<longleftrightarrow>
     (let cols = tColumns (rt_def rt); n = int (length cols) in
       distinct (map cName cols) \<and>
       (\<forall>i < length cols. colByName rt (cName (cols ! i)) = Some i) \<and>
       (\<forall>nm i. colByName rt nm = Some i \<longrightarrow> i < length cols \<and> cName (cols ! i) = nm) \<and>
       0 \<le> pkOrdinal rt \<and> pkOrdinal rt < n \<and>
       cPK (cols ! nat (pkOrdinal rt)) \<and> cType (cols ! nat (pkOrdinal rt)) = TypeUUID \<and>
       partitionOrdinal rt < n \<and> partitionOrdinal rt \<noteq> pkOrdinal rt \<and>
       (partitioned rt \<longrightarrow> cType (cols ! nat (partitionOrdinal rt)) = TypeUUID \<and> rt_indexes rt = []) \<and>
       (\<forall>ri \<in> set (rt_indexes rt). wf_index rt ri) \<and>
       distinct (map ri_ordinals (rt_indexes rt)) \<and> distinct (map ri_name (rt_indexes rt)))"


definition col_inv :: "TableDef \<Rightarrow> ColumnDef list \<Rightarrow> resolvedTable \<Rightarrow> bool" where
  "col_inv t cols rt \<longleftrightarrow>
     rt_def rt = t \<and> rt_indexes rt = [] \<and> distinct (map cName cols) \<and>
     (\<forall>i < length cols. colByName rt (cName (cols ! i)) = Some i) \<and>
     (\<forall>nm i. colByName rt nm = Some i \<longrightarrow> i < length cols \<and> cName (cols ! i) = nm) \<and>
     (0 \<le> pkOrdinal rt \<longrightarrow> pkOrdinal rt < int (length cols) \<and> cPK (cols ! nat (pkOrdinal rt)) \<and>
        cType (cols ! nat (pkOrdinal rt)) = TypeUUID) \<and>
     partitionOrdinal rt < int (length cols) \<and>
     (0 \<le> partitionOrdinal rt \<longrightarrow> cType (cols ! nat (partitionOrdinal rt)) = TypeUUID)"

lemma col_inv_names:
  assumes "col_inv t cols rt" and "colByName rt (cName c) = None"
  shows "cName c \<notin> cName ` set cols"
  using assms by (auto simp: col_inv_def in_set_conv_nth)

lemma resolveColumn_Inr:
  assumes "resolveColumn (i, c) rt = Inr rt'"
  shows "colByName rt (cName c) = None"
    and "cPK c \<longrightarrow> cType c = TypeUUID" and "cPartitionKey c \<longrightarrow> cType c = TypeUUID"
    and "rt' = rt\<lparr>colByName := (colByName rt)(cName c \<mapsto> i),
       pkOrdinal := (if cPK c then int i else pkOrdinal rt),
       partitionOrdinal := (if cPartitionKey c then int i else partitionOrdinal rt)\<rparr>"
  using assms by (simp_all add: resolveColumn_def Let_def split: if_splits)

lemma resolveColumn_step:
  assumes inv: "col_inv t cols rt" and step: "resolveColumn (length cols, c) rt = Inr rt'"
  shows "col_inv t (cols @ [c]) rt'"
proof -
  note r = resolveColumn_Inr [OF step]
  have fresh: "cName c \<notin> cName ` set cols" using inv r(1) by (rule col_inv_names)
  have i: "\<forall>i < length cols. colByName rt (cName (cols ! i)) = Some i"
      "\<And>nm i. colByName rt nm = Some i \<Longrightarrow> i < length cols" "\<And>nm i. colByName rt nm = Some i \<Longrightarrow> cName (cols ! i) = nm"
    using inv unfolding col_inv_def by blast+
  have lookup: "\<forall>i < length (cols @ [c]). colByName rt' (cName ((cols @ [c]) ! i)) = Some i"
  proof -
    have "cName (cols ! i) \<noteq> cName c" if "i < length cols" for i
      using fresh that by (metis image_eqI nth_mem)
    with i(1) show ?thesis by (auto simp: r(4) nth_append less_Suc_eq)
  qed
  have conv: "\<forall>nm i. colByName rt' nm = Some i \<longrightarrow> i < length (cols @ [c]) \<and> cName ((cols @ [c]) ! i) = nm"
    by (auto simp: r(4) nth_append dest: i(2,3))
  have pk: "0 \<le> pkOrdinal rt' \<longrightarrow> pkOrdinal rt' < int (length (cols @ [c])) \<and>
      cPK ((cols @ [c]) ! nat (pkOrdinal rt')) \<and> cType ((cols @ [c]) ! nat (pkOrdinal rt')) = TypeUUID"
    using inv r(2) by (auto simp: r(4) col_inv_def nth_append)
  have part: "partitionOrdinal rt' < int (length (cols @ [c])) \<and>
      (0 \<le> partitionOrdinal rt' \<longrightarrow> cType ((cols @ [c]) ! nat (partitionOrdinal rt')) = TypeUUID)"
    using inv r(3) by (auto simp: r(4) col_inv_def nth_append)
  have "rt_def rt' = t" "rt_indexes rt' = []" "distinct (map cName (cols @ [c]))"
    using inv fresh by (simp_all add: r(4) col_inv_def)
  with lookup conv pk part show ?thesis unfolding col_inv_def by blast
qed

lemma resolveColumns_inv:
  assumes "for_each resolveColumn (enumerate 0 (tColumns t))
      \<lparr>rt_def = t, colByName = Map.empty, pkOrdinal = -1, partitionOrdinal = -1, rt_indexes = []\<rparr> = Inr rt"
  shows "col_inv t (tColumns t) rt"
proof -
  have "col_inv t (map snd (enumerate 0 (tColumns t))) rt"
  proof (rule for_each_prefix_invariant [OF assms, where P = "\<lambda>xs. col_inv t (map snd xs)"])
    show "col_inv t (map snd []) \<lparr>rt_def = t, colByName = Map.empty, pkOrdinal = -1, partitionOrdinal = -1, rt_indexes = []\<rparr>"
      by (simp add: col_inv_def)
    fix ys x s s'
    assume a: "prefix (ys @ [x]) (enumerate 0 (tColumns t))" "col_inv t (map snd ys) s" "resolveColumn x s = Inr s'"
    then obtain zs where zs: "enumerate 0 (tColumns t) = ys @ x # zs" by (auto simp: prefix_def)
    have "length ys < length (tColumns t)" using arg_cong [OF zs, of length] by simp
    moreover have "enumerate 0 (tColumns t) ! length ys = x" using zs by simp
    ultimately have "fst x = length ys" by (auto simp: nth_enumerate_eq)
    then show "col_inv t (map snd (ys @ [x])) s'"
      using a(2,3) resolveColumn_step [of t "map snd ys" s "snd x" s'] by (cases x) simp
  qed
  then show ?thesis by simp
qed

lemma resolveIndexColumns_inv:
  assumes "for_each (resolveIndexColumn rt) cols [] = Inr ords"
    and "\<forall>nm i. colByName rt nm = Some i \<longrightarrow> i < n"
  shows "length ords = length cols \<and> distinct ords \<and> (\<forall>ord \<in> set ords. ord < n \<and> int ord \<noteq> pkOrdinal rt)"
proof (rule for_each_prefix_invariant [OF assms(1),
    where P = "\<lambda>xs ords. length ords = length xs \<and> distinct ords \<and> (\<forall>ord \<in> set ords. ord < n \<and> int ord \<noteq> pkOrdinal rt)"])
  fix ys :: "bytes list" and x s s'
  assume "length s = length ys \<and> distinct s \<and> (\<forall>ord \<in> set s. ord < n \<and> int ord \<noteq> pkOrdinal rt)"
    "resolveIndexColumn rt x s = Inr s'"
  then show "length s' = length (ys @ [x]) \<and> distinct s' \<and> (\<forall>ord \<in> set s'. ord < n \<and> int ord \<noteq> pkOrdinal rt)"
    using assms(2) by (auto simp: resolveIndexColumn_def split: option.splits if_splits)
qed simp

lemma resolveIndex_step:
  assumes "wf_table rt" and "\<not> partitioned rt" and "resolveIndex ix rt = Inr rt'"
  shows "wf_table rt' \<and> \<not> partitioned rt' \<and> rt_def rt' = rt_def rt"
proof -
  obtain ords name where ords: "for_each (resolveIndexColumn rt) (iColumns ix) [] = Inr ords"
    and ne: "iColumns ix \<noteq> []" and new: "ords \<notin> ri_ordinals ` set (rt_indexes rt)" "name \<notin> ri_name ` set (rt_indexes rt)"
    and rt': "rt' = rt\<lparr>rt_indexes := rt_indexes rt @ [\<lparr>ri_name = name, ri_ordinals = ords, ri_ordered = iOrdered ix\<rparr>]\<rparr>"
    using assms(3) by (auto simp: resolveIndex_def andThen_eq_Inr Let_def split: if_splits)
  have "\<forall>nm i. colByName rt nm = Some i \<longrightarrow> i < length (tColumns (rt_def rt))"
    using assms(1) by (auto simp: wf_table_def Let_def)
  then have "ords \<noteq> [] \<and> distinct ords \<and> (\<forall>ord \<in> set ords. ord < length (tColumns (rt_def rt)) \<and> int ord \<noteq> pkOrdinal rt)"
    using resolveIndexColumns_inv [OF ords, of "length (tColumns (rt_def rt))"] ne by auto
  then show ?thesis
    using assms(1,2) new
    by (auto simp: wf_table_def wf_index_def Let_def rt' partitioned_def)
qed

lemma resolveTable_Inr:
  assumes "resolveTable t = Inr rt"
  obtains rt0 where "col_inv t (tColumns t) rt0" "0 \<le> pkOrdinal rt0" "partitionOrdinal rt0 \<noteq> pkOrdinal rt0"
    "partitioned rt0 \<longrightarrow> tIndexes t = []" "for_each resolveIndex (tIndexes t) rt0 = Inr rt"
proof -
  from assms obtain rt0 where rt0: "for_each resolveColumn (enumerate 0 (tColumns t))
      \<lparr>rt_def = t, colByName = Map.empty, pkOrdinal = -1, partitionOrdinal = -1, rt_indexes = []\<rparr> = Inr rt0"
    unfolding resolveTable_def andThen_eq_Inr by blast
  with assms show thesis
    using that [of rt0] resolveColumns_inv [OF rt0] by (simp add: resolveTable_def not_less split: if_splits)
qed

lemma resolveTable_wf:
  assumes "resolveTable t = Inr rt"
  shows "wf_table rt \<and> rt_def rt = t"
proof -
  obtain rt0 where inv: "col_inv t (tColumns t) rt0" and ok: "0 \<le> pkOrdinal rt0" "partitionOrdinal rt0 \<noteq> pkOrdinal rt0"
      "partitioned rt0 \<longrightarrow> tIndexes t = []" and ixs: "for_each resolveIndex (tIndexes t) rt0 = Inr rt"
    using assms by (rule resolveTable_Inr)
  have wf: "wf_table rt0" "rt_def rt0 = t"
    using inv ok by (simp_all add: wf_table_def col_inv_def Let_def partitioned_def)
  show ?thesis
  proof (cases "partitioned rt0")
    case True
    with ok(3) ixs wf show ?thesis by simp
  next
    case False
    have "wf_table rt \<and> \<not> partitioned rt \<and> rt_def rt = t"
    proof (rule for_each_invariant [OF ixs, where I = "\<lambda>r. wf_table r \<and> \<not> partitioned r \<and> rt_def r = t"])
      show "wf_table rt0 \<and> \<not> partitioned rt0 \<and> rt_def rt0 = t" using wf False by blast
    next
      fix ix r r' assume "wf_table r \<and> \<not> partitioned r \<and> rt_def r = t" "resolveIndex ix r = Inr r'"
      then show "wf_table r' \<and> \<not> partitioned r' \<and> rt_def r' = t" using resolveIndex_step by metis
    qed
    then show ?thesis by simp
  qed
qed

lemma resolveSchema_ok:
  assumes "resolveSchema tables = Inr out"
  shows "distinct (map tName tables) \<and> dom out = tName ` set tables \<and> 
    (\<forall>t \<in> set tables. \<exists>rt. out (tName t) = Some rt \<and> rt_def rt = t \<and> wf_table rt)"
proof (rule for_each_prefix_invariant [OF assms [unfolded resolveSchema_def],
    where P = "\<lambda>ts out. distinct (map tName ts) \<and> dom out = tName ` set ts \<and>
      (\<forall>t \<in> set ts. \<exists>rt. out (tName t) = Some rt \<and> rt_def rt = t \<and> wf_table rt)"])
  fix ys t s s'
  assume a: "distinct (map tName ys) \<and> dom s = tName ` set ys \<and>
      (\<forall>t \<in> set ys. \<exists>rt. s (tName t) = Some rt \<and> rt_def rt = t \<and> wf_table rt)"
    and b: "(if tName t = [] then Inl (schema_err ''table with empty name'')
      else if s (tName t) \<noteq> None then Inl (schema_err ''duplicate table'')
      else andThen (resolveTable t) (\<lambda>rt. Inr (s(tName t \<mapsto> rt)))) = Inr s'"
  then obtain rt where rt: "resolveTable t = Inr rt" "s' = s(tName t \<mapsto> rt)" "tName t \<notin> dom s"
    by (auto simp: andThen_eq_Inr split: if_splits)
  then show "distinct (map tName (ys @ [t])) \<and> dom s' = tName ` set (ys @ [t]) \<and>
      (\<forall>t \<in> set (ys @ [t]). \<exists>rt. s' (tName t) = Some rt \<and> rt_def rt = t \<and> wf_table rt)"
    using a resolveTable_wf [OF rt(1)] by (auto simp: rev_image_eqI)
qed simp


section \<open>Accepted cells\<close>

text \<open>
  What a column admits: NULL if it is nullable, otherwise a cell of the declared type, strings valid
  UTF-8.  A column whose type has no name takes a cell of any kind.
\<close>

fun ofType :: "ColumnType \<Rightarrow> ValueKind \<Rightarrow> bool" where
  "ofType TypeInt k = (k = KindInt)" | "ofType TypeString k = (k = KindString)" | "ofType TypeBytes k = (k = KindBytes)"
| "ofType TypeBool k = (k = KindBool)" | "ofType TypeUUID k = (k = KindUUID)" | "ofType (TypeOther b) k = True"

definition admits :: "ColumnDef \<Rightarrow> Value \<Rightarrow> bool" where
  "admits c v \<longleftrightarrow>
     (if Kind v = KindNull then cNullable c
      else ofType (cType c) (Kind v) \<and> (cType c = TypeString \<longrightarrow> utf8_valid (Value_Str v)))"

lemma validateValue_iff: "validateValue c v = Inr () \<longleftrightarrow> admits c v"
  by (cases "cType c") (auto simp: validateValue_def admits_def IsNull_def)

lemma for_each_unit_iff:
  "for_each (\<lambda>x _. if P x then Inr () else Inl e) xs () = (if \<forall>x \<in> set xs. P x then Inr () else Inl e)"
  by (induction xs) auto

lemma validateInsertRow_eq:
  "validateInsertRow cols row =
     (if list_all2 admits cols row then Inr () else Inl ErrWALCorrupt)"
proof -
  have "(\<lambda>i (_ :: unit). case validateValue (cols ! i) (row ! i) of Inl _ \<Rightarrow> Inl ErrWALCorrupt | Inr _ \<Rightarrow> Inr ()) =
      (\<lambda>i _. if admits (cols ! i) (row ! i) then Inr () else Inl ErrWALCorrupt)"
    by (auto simp: fun_eq_iff validateValue_iff [symmetric] split: sum.splits)
  then show ?thesis by (auto simp: validateInsertRow_def for_each_unit_iff list_all2_conv_all_nth)
qed

section \<open>Properties\<close>



text \<open>
  C11.  A replayed row is accepted exactly when it has the table's width and every cell is admitted by
  its column (null only where nullable, the declared type, strings valid UTF-8); every other row is
  \<open>ErrWALCorrupt\<close>.
\<close>

theorem validateInsertRow_spec:
  "validateInsertRow cols row =
     (if list_all2 admits cols row then Inr () else Inl ErrWALCorrupt)"
  by (rule validateInsertRow_eq)

end
