(* ===== verification/SecIndex.thy ===== *)
theory SecIndex
  imports CompositeKey Schemas "HOL-Library.AList" "HOL-Library.Product_Lexorder"
begin

text \<open>
  \<open>secindex.go\<close>, the index structures: a hash index (value to primary keys) or an ordered one (a
  sorted view of all entries), with the reverse map from primary key to current key that makes an
  update possible without the old row.  \<open>rev\<close> is ranged over by the source, so it is an association
  list with distinct keys; \<open>fwd\<close> is only looked up.  The table-level maintenance (dirty lists and
  the merge) is in \<open>IndexMerge\<close>.
\<close>

section \<open>Entries and indexes\<close>

record ordEntry =
  oe_key :: indexKey
  oe_pk :: UUID

record secIndex =
  si_ordinals :: "nat list"
  si_ordered :: bool
  si_fwd :: "indexKey \<Rightarrow> UUID list option"
  si_rev :: "(UUID \<times> indexKey) list"
  si_sorted :: "ordEntry list"

definition newSecIndex :: "resolvedIndex \<Rightarrow> secIndex" where
  "newSecIndex ri = \<lparr>si_ordinals = ri_ordinals ri, si_ordered = ri_ordered ri, si_fwd = Map.empty,
     si_rev = [], si_sorted = []\<rparr>"

text \<open>The zero \<open>indexKey{}\<close> (\<open>KindNull\<close> is the zero kind).\<close>

definition zeroKey :: indexKey where
  "zeroKey = \<lparr>kkind = KindNull, kw0 = 0, kw1 = 0, ks = []\<rparr>"

definition keyFromCells :: "secIndex \<Rightarrow> Value list \<Rightarrow> indexKey \<times> bool" where
  "keyFromCells si cells =
     (if length (si_ordinals si) = 1 then
        (if Kind (cells ! 0) = KindNull then (zeroKey, False) else (keyOf (cells ! 0), True))
      else if \<exists>c \<in> set cells. Kind c = KindNull then (zeroKey, False)
      else (fst (encodeCompositeKeyInto cells), True))"

section \<open>Updating one key\<close>

text \<open>The swap-remove of \<open>removeFwdLocked\<close>: the first match is overwritten by the last element.\<close>

fun swap_remove :: "UUID \<Rightarrow> UUID list \<Rightarrow> UUID list" where
  "swap_remove pk [] = []"
| "swap_remove pk (x # xs) =
     (if x = pk then (if xs = [] then [] else last xs # butlast xs) else x # swap_remove pk xs)"

definition removeFwd :: "indexKey \<Rightarrow> UUID \<Rightarrow> secIndex \<Rightarrow> secIndex" where
  "removeFwd k pk si =
     (let b = swap_remove pk (case si_fwd si k of None \<Rightarrow> [] | Some b \<Rightarrow> b)
      in if length b = 0 then si\<lparr>si_fwd := (si_fwd si)(k := None)\<rparr> else si\<lparr>si_fwd := (si_fwd si)(k \<mapsto> b)\<rparr>)"

definition appendFwd :: "indexKey \<Rightarrow> UUID \<Rightarrow> secIndex \<Rightarrow> secIndex" where
  "appendFwd k pk si =
     si\<lparr>si_fwd := (si_fwd si)(k \<mapsto> (case si_fwd si k of None \<Rightarrow> [] | Some b \<Rightarrow> b) @ [pk])\<rparr>"

definition si_apply :: "UUID \<Rightarrow> indexKey \<Rightarrow> bool \<Rightarrow> secIndex \<Rightarrow> bool \<times> secIndex" where
  "si_apply pk newKey indexable si =
     (let old = map_of (si_rev si) pk in
      if si_ordered si then
        (if indexable then
           (if old = Some newKey then (False, si)
            else (True, si\<lparr>si_rev := AList.update pk newKey (si_rev si)\<rparr>))
         else if old = None then (False, si)
         else (True, si\<lparr>si_rev := AList.delete pk (si_rev si)\<rparr>))
      else if indexable \<and> old = Some newKey then (False, si)
      else
        (let si = (case old of None \<Rightarrow> si
               | Some k \<Rightarrow> (removeFwd k pk si)\<lparr>si_rev := AList.delete pk (si_rev si)\<rparr>);
             si = (if indexable
                   then (appendFwd newKey pk si)\<lparr>si_rev := AList.update pk newKey (si_rev si)\<rparr>
                   else si)
         in (True, si)))"

section \<open>The sorted view\<close>

definition ordCmp :: "ordEntry \<Rightarrow> ordEntry \<Rightarrow> int" where
  "ordCmp a b =
     (if key_less (oe_key a) (oe_key b) then -1
      else if key_less (oe_key b) (oe_key a) then 1
      else cmp3 (oe_pk a) (oe_pk b))"

definition ordLess :: "ordEntry \<Rightarrow> ordEntry \<Rightarrow> bool" where
  "ordLess a b \<longleftrightarrow> ordCmp a b < 0"

text \<open>\<open>slices.SortFunc\<close> with \<open>ordCmp\<close>, as an insertion sort.\<close>

fun ord_insert :: "ordEntry \<Rightarrow> ordEntry list \<Rightarrow> ordEntry list" where
  "ord_insert x [] = [x]"
| "ord_insert x (y # ys) = (if ordCmp x y \<le> 0 then x # y # ys else y # ord_insert x ys)"

definition ord_sort :: "ordEntry list \<Rightarrow> ordEntry list" where
  "ord_sort xs = foldr ord_insert xs []"

definition entry :: "UUID \<times> indexKey \<Rightarrow> ordEntry" where
  "entry = (\<lambda>(pk, key). \<lparr>oe_key = key, oe_pk = pk\<rparr>)"

definition rebuildSorted :: "secIndex \<Rightarrow> secIndex" where
  "rebuildSorted si = si\<lparr>si_sorted := ord_sort (map entry (si_rev si))\<rparr>"

text \<open>The two-way merge; the third and fourth equations are the two loops after the main one.\<close>

fun merge_loop :: "UUID set \<Rightarrow> ordEntry list \<Rightarrow> ordEntry list \<Rightarrow> ordEntry list" where
  "merge_loop dirty (x # old) (y # add) =
     (if oe_pk x \<in> dirty then merge_loop dirty old (y # add)
      else if ordLess x y then x # merge_loop dirty old (y # add)
      else y # merge_loop dirty (x # old) add)"
| "merge_loop dirty (x # old) [] =
     (if oe_pk x \<in> dirty then merge_loop dirty old [] else x # merge_loop dirty old [])"
| "merge_loop dirty [] add = add"

definition mergeSorted :: "UUID list \<Rightarrow> secIndex \<Rightarrow> secIndex" where
  "mergeSorted dirtyPKs si =
     (let dirty = remdups dirtyPKs;
          add = concat (map (\<lambda>pk. case map_of (si_rev si) pk of None \<Rightarrow> [] | Some key \<Rightarrow> [entry (pk, key)]) dirty)
      in si\<lparr>si_sorted := merge_loop (set dirty) (si_sorted si) (ord_sort add)\<rparr>)"

section \<open>Lookups\<close>

text \<open>\<open>sort.Search\<close> of the standard library: the binary search for the least index satisfying \<open>f\<close>.\<close>

function search_loop :: "(nat \<Rightarrow> bool) \<Rightarrow> nat \<Rightarrow> nat \<Rightarrow> nat" where
  "search_loop f i j =
     (if i < j then
        let h = (i + j) div 2
        in if \<not> f h then search_loop f (h + 1) j else search_loop f i h
      else i)"
  by pat_completeness auto

termination
  by (relation "measure (\<lambda>(f, i, j). j - i)") auto

declare search_loop.simps [simp del]

definition sort_Search :: "nat \<Rightarrow> (nat \<Rightarrow> bool) \<Rightarrow> nat" where
  "sort_Search n f = search_loop f 0 n"

definition lookup_run :: "indexKey \<Rightarrow> ordEntry list \<Rightarrow> UUID list" where
  "lookup_run k es = map oe_pk (takeWhile (\<lambda>e. \<not> key_less k (oe_key e)) es)"

definition si_lookup :: "indexKey \<Rightarrow> secIndex \<Rightarrow> UUID list" where
  "si_lookup k si =
     (if si_ordered si then
        let es = si_sorted si; lo = sort_Search (length es) (\<lambda>i. \<not> key_less (oe_key (es ! i)) k)
        in lookup_run k (drop lo es)
      else case si_fwd si k of None \<Rightarrow> [] | Some b \<Rightarrow> b)"

definition lookupOne :: "indexKey \<Rightarrow> secIndex \<Rightarrow> UUID \<times> bool \<times> bool" where
  "lookupOne k si =
     (if si_ordered si then
        let es = si_sorted si; lo = sort_Search (length es) (\<lambda>i. \<not> key_less (oe_key (es ! i)) k) in
        if lo \<ge> length es \<or> key_less k (oe_key (es ! lo)) then (zeroUUID, False, False)
        else if lo + 1 < length es \<and> \<not> key_less k (oe_key (es ! (lo + 1))) then (zeroUUID, True, False)
        else (oe_pk (es ! lo), True, True)
      else case (case si_fwd si k of None \<Rightarrow> [] | Some b \<Rightarrow> b) of
          [] \<Rightarrow> (zeroUUID, False, False)
        | [pk] \<Rightarrow> (pk, True, True)
        | _ \<Rightarrow> (zeroUUID, True, False))"

definition prefixLookup :: "indexKey \<Rightarrow> secIndex \<Rightarrow> UUID list" where
  "prefixLookup p si =
     (let es = si_sorted si; lo = sort_Search (length es) (\<lambda>i. ks (oe_key (es ! i)) \<ge> ks p)
      in map oe_pk (takeWhile (\<lambda>e. prefix (ks p) (ks (oe_key e))) (drop lo es)))"

fun bump_loop :: "bytes \<Rightarrow> nat \<Rightarrow> bytes" where
  "bump_loop b 0 = []"
| "bump_loop b (Suc i) = (if b ! i \<noteq> 0xFF then take (i + 1) (b[i := b ! i + 1]) else bump_loop b i)"

definition prefixUpperBound :: "bytes \<Rightarrow> bytes" where
  "prefixUpperBound p = bump_loop p (length p)"

definition snapshotPrefix :: "indexKey \<Rightarrow> secIndex \<Rightarrow> ordEntry list" where
  "snapshotPrefix p si =
     (let es = si_sorted si; lo = sort_Search (length es) (\<lambda>i. ks (oe_key (es ! i)) \<ge> ks p);
          ub = prefixUpperBound (ks p);
          hi = (if ub \<noteq> [] then sort_Search (length es) (\<lambda>i. ks (oe_key (es ! i)) \<ge> ub) else length es)
      in drop lo (take hi es))"

definition intersectPKs :: "UUID list \<Rightarrow> UUID list \<Rightarrow> UUID list" where
  "intersectPKs a0 b0 =
     (let (a, b) = (if length a0 > length b0 then (b0, a0) else (a0, b0))
      in if length a = 0 then [] else filter (\<lambda>pk. pk \<in> set a) b)"

definition lookupLeading :: "Value \<Rightarrow> secIndex \<Rightarrow> UUID list" where
  "lookupLeading key si =
     (if length (si_ordinals si) = 1 then si_lookup (keyOf key) si
      else prefixLookup (encodeCompositeKey [key]) si)"

definition countKey :: "Value \<Rightarrow> secIndex \<Rightarrow> nat" where
  "countKey key si =
     (let k = keyOf key; es = si_sorted si in
      if \<not> si_ordered si then length (case si_fwd si k of None \<Rightarrow> [] | Some b \<Rightarrow> b)
      else sort_Search (length es) (\<lambda>i. key_less k (oe_key (es ! i))) -
           sort_Search (length es) (\<lambda>i. \<not> key_less (oe_key (es ! i)) k))"


section \<open>Binary search\<close>

lemma search_loop_bounds:
  assumes "i \<le> j" and "\<forall>a b. i \<le> a \<longrightarrow> a \<le> b \<longrightarrow> b < j \<longrightarrow> f a \<longrightarrow> f b"
  shows "i \<le> search_loop f i j \<and> search_loop f i j \<le> j \<and>
    (\<forall>x. i \<le> x \<and> x < search_loop f i j \<longrightarrow> \<not> f x) \<and> (\<forall>x. search_loop f i j \<le> x \<and> x < j \<longrightarrow> f x)"
  using assms
proof (induction f i j rule: search_loop.induct)
  case (1 f i j)
  show ?case
  proof (cases "i < j")
    case False
    then have "search_loop f i j = i" by (subst search_loop.simps) simp
    with False 1(3) show ?thesis by auto
  next
    case True
    define h where "h = (i + j) div 2"
    have h: "i \<le> h" "h < j" using True by (auto simp: h_def)
    show ?thesis
    proof (cases "f h")
      case True
      let ?r = "search_loop f i h"
      have eq: "search_loop f i j = ?r"
        using \<open>i < j\<close> True by (subst search_loop.simps) (simp add: h_def Let_def)
      have m: "\<forall>a b. i \<le> a \<longrightarrow> a \<le> b \<longrightarrow> b < h \<longrightarrow> f a \<longrightarrow> f b" using 1(4) h(2) less_trans by blast
      have "\<not> \<not> f h" using True by blast
      from 1(2) [OF \<open>i < j\<close> h_def this h(1) m] have ih: "i \<le> ?r" "?r \<le> h"
          "\<forall>x. i \<le> x \<and> x < ?r \<longrightarrow> \<not> f x" "\<forall>x. ?r \<le> x \<and> x < h \<longrightarrow> f x" by blast+
      have "f x" if "?r \<le> x" "x < j" for x
        using 1(4) ih(4) h(1) True that by (meson not_less)
      with ih h show ?thesis unfolding eq by (meson le_less_trans less_imp_le)
    next
      case False
      let ?r = "search_loop f (h + 1) j"
      have eq: "search_loop f i j = ?r"
        using \<open>i < j\<close> False by (subst search_loop.simps) (simp add: h_def Let_def)
      have hj: "h + 1 \<le> j" using h(2) by simp
      have m: "\<forall>a b. h + 1 \<le> a \<longrightarrow> a \<le> b \<longrightarrow> b < j \<longrightarrow> f a \<longrightarrow> f b"
        using 1(4) h(1) by (meson add_leD1 le_trans)
      from 1(1) [OF \<open>i < j\<close> h_def False hj m] have ih: "h + 1 \<le> ?r" "?r \<le> j"
          "\<forall>x. h + 1 \<le> x \<and> x < ?r \<longrightarrow> \<not> f x" "\<forall>x. ?r \<le> x \<and> x < j \<longrightarrow> f x" by blast+
      have "\<not> f x" if "i \<le> x" "x < ?r" for x
        using 1(4) ih(3) h False that by (metis Suc_eq_plus1 not_less_eq_eq)
      with ih h show ?thesis unfolding eq by (meson add_leD1 le_trans)
    qed
  qed
qed

text \<open>On a list along which \<open>P\<close> switches from false to true once, the search cuts where \<open>dropWhile\<close> does.\<close>

lemma sort_Search_cut:
  assumes "sorted_wrt (\<lambda>a b. P a \<longrightarrow> P b) es"
  shows "take (sort_Search (length es) (\<lambda>i. P (es ! i))) es = takeWhile (\<lambda>e. \<not> P e) es"
    and "drop (sort_Search (length es) (\<lambda>i. P (es ! i))) es = dropWhile (\<lambda>e. \<not> P e) es"
    and "sort_Search (length es) (\<lambda>i. P (es ! i)) = length (takeWhile (\<lambda>e. \<not> P e) es)"
proof -
  let ?r = "sort_Search (length es) (\<lambda>i. P (es ! i))"
  have "\<forall>a b. 0 \<le> a \<longrightarrow> a \<le> b \<longrightarrow> b < length es \<longrightarrow> P (es ! a) \<longrightarrow> P (es ! b)"
    using assms by (metis le_neq_implies_less sorted_wrt_iff_nth_less)
  from search_loop_bounds [OF le0 this, folded sort_Search_def]
  have r: "?r \<le> length es" "\<forall>x < ?r. \<not> P (es ! x)" "\<forall>x. ?r \<le> x \<and> x < length es \<longrightarrow> P (es ! x)"
    by blast+
  show t: "take ?r es = takeWhile (\<lambda>e. \<not> P e) es"
  proof (rule takeWhile_eq_take_P_nth [symmetric])
    fix i assume "i < ?r" "i < length es"
    then show "\<not> P (es ! i)" using r(2) by blast
  next
    assume "?r < length es"
    then show "\<not> \<not> P (es ! ?r)" using r(3) by blast
  qed
  then show "?r = length (takeWhile (\<lambda>e. \<not> P e) es)" using r(1) by (metis length_take min.absorb2)
  then show "drop ?r es = dropWhile (\<lambda>e. \<not> P e) es" by (simp add: dropWhile_eq_drop)
qed

section \<open>The order of the sorted view\<close>

text \<open>
  All keys of one index share a kind, and a key only uses the fields of its kind.  On such keys
  \<open>less\<close> is the order of \<open>key_rank\<close>.
\<close>

definition key_ok :: "ValueKind \<Rightarrow> indexKey \<Rightarrow> bool" where
  "key_ok K k \<longleftrightarrow> kkind k = K \<and> (case K of
       KindInt \<Rightarrow> kw1 k = 0 \<and> ks k = [] | KindBool \<Rightarrow> kw1 k = 0 \<and> ks k = []
     | KindUUID \<Rightarrow> ks k = [] | _ \<Rightarrow> kw0 k = 0 \<and> kw1 k = 0)"

definition key_rank :: "indexKey \<Rightarrow> int \<times> int \<times> bytes" where
  "key_rank k = (case kkind k of
       KindInt \<Rightarrow> (sint (kw0 k), 0, []) | KindBool \<Rightarrow> (sint (kw0 k), 0, [])
     | KindUUID \<Rightarrow> (uint (kw0 k), uint (kw1 k), []) | _ \<Rightarrow> (0, 0, ks k))"

definition erank :: "ordEntry \<Rightarrow> (int \<times> int \<times> bytes) \<times> UUID" where
  "erank e = (key_rank (oe_key e), oe_pk e)"

lemma uint_word_eq: "uint (v :: uint64) = uint w \<longleftrightarrow> v = w"
  by (simp add: word_uint_eq_iff)

lemma sint_word_eq: "sint (v :: uint64) = sint w \<longleftrightarrow> v = w"
  using word_eq_iff_signed [of v w] by blast

lemma key_less_rank: "key_ok K k \<Longrightarrow> key_ok K k' \<Longrightarrow> key_less k k' \<longleftrightarrow> key_rank k < key_rank k'"
  by (cases K) (auto simp: key_ok_def key_less_def key_rank_def word_less_alt order.strict_iff_order uint_word_eq)

lemma key_rank_inj: "key_ok K k \<Longrightarrow> key_ok K k' \<Longrightarrow> key_rank k = key_rank k' \<longleftrightarrow> k = k'"
  by (cases K; cases k; cases k') (auto simp: key_ok_def key_rank_def uint_word_eq sint_word_eq)

lemma key_ok_keyOf: "Kind v \<noteq> KindNull \<Longrightarrow> key_ok (Kind v) (keyOf v)"
  by (cases "Kind v") (auto simp: key_ok_def keyOf_def uuidWords_def)

lemma key_ok_composite: "key_ok KindBytes (encodeCompositeKey vs)"
  by (simp add: key_ok_def encodeCompositeKey_def encodeCompositeKeyInto_def Let_def)

abbreviation entries_ok :: "ValueKind \<Rightarrow> ordEntry list \<Rightarrow> bool" where
  "entries_ok K es \<equiv> \<forall>e \<in> set es. key_ok K (oe_key e)"

lemma ordCmp_rank:
  assumes "key_ok K (oe_key a)" and "key_ok K (oe_key b)"
  shows "ordCmp a b = cmp3 (erank a) (erank b)"
proof -
  have "(if p < q then -1 else if q < p then 1 else cmp3 x y) = cmp3 (p, x) (q, y)"
    for p q :: "int \<times> int \<times> bytes" and x y :: UUID
    by (cases p q rule: linorder_cases) (auto simp: cmp3_def)
  then show ?thesis
    by (simp only: ordCmp_def erank_def key_less_rank [OF assms] key_less_rank [OF assms(2,1)])
qed

lemma ordLess_rank:
  "key_ok K (oe_key a) \<Longrightarrow> key_ok K (oe_key b) \<Longrightarrow> ordLess a b \<longleftrightarrow> erank a < erank b"
  by (simp add: ordLess_def ordCmp_rank)

lemma erank_inj:
  "key_ok K (oe_key a) \<Longrightarrow> key_ok K (oe_key b) \<Longrightarrow> erank a = erank b \<longleftrightarrow> a = b"
  by (cases a; cases b) (auto simp: erank_def key_rank_inj)

lemma set_ord_sort [simp]: "set (ord_sort xs) = set xs"
proof -
  have "set (ord_insert x ys) = insert x (set ys)" for x ys by (induction ys) auto
  then show ?thesis by (induction xs) (simp_all add: ord_sort_def)
qed

lemma sorted_ord_insert:
  "entries_ok K (x # ys) \<Longrightarrow> sorted (map erank ys) \<Longrightarrow> sorted (map erank (ord_insert x ys))"
proof (induction ys)
  case (Cons y ys)
  have set: "set (ord_insert x ys) = insert x (set ys)" by (induction ys) auto
  from Cons show ?case by (auto simp: ordCmp_rank [where K = K] set)
qed simp

lemma sorted_ord_sort: "entries_ok K xs \<Longrightarrow> sorted (map erank (ord_sort xs))"
proof (induction xs)
  case (Cons x xs)
  have "ord_sort (x # xs) = ord_insert x (ord_sort xs)" by (simp add: ord_sort_def)
  moreover have "entries_ok K (x # ord_sort xs)" using Cons.prems by simp
  ultimately show ?case using Cons sorted_ord_insert [of x "ord_sort xs" K] by simp
qed (simp add: ord_sort_def)

lemma distinct_ord_sort: "distinct xs \<Longrightarrow> distinct (ord_sort xs)"
proof (induction xs)
  case (Cons x xs)
  have set: "set (ord_insert x ys) = insert x (set ys)" for ys by (induction ys) auto
  have "distinct ys \<Longrightarrow> x \<notin> set ys \<Longrightarrow> distinct (ord_insert x ys)" for ys
    by (induction ys) (auto simp: set)
  moreover have "ord_sort (x # xs) = ord_insert x (ord_sort xs)" by (simp add: ord_sort_def)
  ultimately show ?case using Cons by simp
qed (simp add: ord_sort_def)

text \<open>A sorted view is determined by its entries.\<close>

lemma view_unique:
  assumes "entries_ok K xs" "entries_ok K ys" "set xs = set ys"
    and "sorted (map erank xs)" "sorted (map erank ys)" "distinct xs" "distinct ys"
  shows "xs = ys"
proof -
  have inj: "inj_on erank (set xs \<union> set ys)" using assms(1-3) by (auto intro!: inj_onI simp: erank_inj [where K = K])
  have "distinct (map erank xs)" "distinct (map erank ys)"
    using assms(6,7) inj by (auto simp: distinct_map intro: inj_on_subset)
  then have "map erank xs = map erank ys"
    using assms(3-5) by (intro sorted_distinct_set_unique) auto
  then show ?thesis using inj by (rule map_inj_on)
qed

lemma set_merge_loop: "set (merge_loop dirty old add) = {e \<in> set old. oe_pk e \<notin> dirty} \<union> set add"
  by (induction dirty old add rule: merge_loop.induct) auto

lemma sorted_merge_loop:
  "entries_ok K old \<Longrightarrow> entries_ok K add \<Longrightarrow> sorted (map erank old) \<Longrightarrow> sorted (map erank add) \<Longrightarrow>
     sorted (map erank (merge_loop dirty old add))"
proof (induction dirty old add rule: merge_loop.induct)
  case (1 dirty x old y add)
  then show ?case
    by (auto simp: set_merge_loop ordLess_rank [where K = K] not_less intro: less_imp_le order_trans)
qed (auto simp: set_merge_loop)

lemma distinct_merge_loop:
  "distinct old \<Longrightarrow> distinct add \<Longrightarrow> {e \<in> set old. oe_pk e \<notin> dirty} \<inter> set add = {} \<Longrightarrow>
     distinct (merge_loop dirty old add)"
  by (induction dirty old add rule: merge_loop.induct) (auto simp: set_merge_loop)


section \<open>The index invariant\<close>

abbreviation bucket :: "secIndex \<Rightarrow> indexKey \<Rightarrow> UUID list" where
  "bucket si k \<equiv> (case si_fwd si k of None \<Rightarrow> [] | Some b \<Rightarrow> b)"

definition buckets_ok :: "secIndex \<Rightarrow> bool" where
  "buckets_ok si \<longleftrightarrow> (\<forall>k. distinct (bucket si k) \<and> set (bucket si k) = {pk. map_of (si_rev si) pk = Some k} \<and>
     si_fwd si k \<noteq> Some [])"

text \<open>\<open>K\<close> is the kind of the keys: the column's kind, or \<open>KindBytes\<close> for a composite index.\<close>

definition si_inv :: "ValueKind \<Rightarrow> secIndex \<Rightarrow> bool" where
  "si_inv K si \<longleftrightarrow> distinct (map fst (si_rev si)) \<and> (\<forall>k \<in> snd ` set (si_rev si). key_ok K k) \<and>
     (\<not> si_ordered si \<longrightarrow> buckets_ok si)"

definition view_ok :: "secIndex \<Rightarrow> bool" where
  "view_ok si \<longleftrightarrow> sorted (map erank (si_sorted si)) \<and> distinct (si_sorted si) \<and>
     set (si_sorted si) = entry ` set (si_rev si)"

text \<open>An index whose reads are exact: the buckets of a hash index always are, an ordered one needs its view.\<close>

definition si_synced :: "ValueKind \<Rightarrow> secIndex \<Rightarrow> bool" where
  "si_synced K si \<longleftrightarrow> si_inv K si \<and> (si_ordered si \<longrightarrow> view_ok si)"

lemma set_swap_remove:
  "distinct b \<Longrightarrow> distinct (swap_remove pk b) \<and> set (swap_remove pk b) = set b - {pk}"
proof (induction b)
  case (Cons x xs)
  have "distinct (last xs # butlast xs) \<and> set (last xs # butlast xs) = set xs" if "distinct xs" "xs \<noteq> []"
    using that append_butlast_last_id [OF that(2)] distinct_append [of "butlast xs" "[last xs]"]
    by (metis Diff_insert_absorb disjoint_insert(1) distinct.simps(2) distinct_butlast insert_is_Un inf_commute list.set(1,2)
        list.simps(15) set_append sup.commute)
  with Cons show ?case by auto
qed simp

lemma bucket_removeFwd:
  "bucket (removeFwd k pk si) k' = (if k' = k then swap_remove pk (bucket si k) else bucket si k')"
  by (auto simp: removeFwd_def Let_def)

lemma bucket_appendFwd:
  "bucket (appendFwd k pk si) k' = (if k' = k then bucket si k @ [pk] else bucket si k')"
  by (auto simp: appendFwd_def)

lemma removeFwd_fields [simp]:
  "si_rev (removeFwd k pk si) = si_rev si" "si_ordered (removeFwd k pk si) = si_ordered si"
  "si_ordinals (removeFwd k pk si) = si_ordinals si" "si_sorted (removeFwd k pk si) = si_sorted si"
  by (simp_all add: removeFwd_def Let_def)

lemma appendFwd_fields [simp]:
  "si_rev (appendFwd k pk si) = si_rev si" "si_ordered (appendFwd k pk si) = si_ordered si"
  "si_ordinals (appendFwd k pk si) = si_ordinals si" "si_sorted (appendFwd k pk si) = si_sorted si"
  by (simp_all add: appendFwd_def)

lemma si_apply_fields [simp]:
  "si_ordered (snd (si_apply pk k ix si)) = si_ordered si"
  "si_ordinals (snd (si_apply pk k ix si)) = si_ordinals si"
  "si_sorted (snd (si_apply pk k ix si)) = si_sorted si"
  by (simp_all add: si_apply_def Let_def split: option.split)

lemma map_of_delete: "map_of (AList.delete k al) = (map_of al)(k := None)"
  by (rule AList.delete_conv')

lemma map_of_update: "map_of (AList.update k v al) = (map_of al)(k \<mapsto> v)"
  by (rule AList.update_conv')

lemma si_apply_rev:
  "map_of (si_rev (snd (si_apply pk k ix si))) = (map_of (si_rev si))(pk := if ix then Some k else None)"
  by (auto simp: si_apply_def Let_def map_of_delete map_of_update fun_upd_idem split: option.split)

lemma si_apply_unchanged:
  "\<not> fst (si_apply pk k ix si) \<Longrightarrow> snd (si_apply pk k ix si) = si"
  by (auto simp: si_apply_def Let_def split: if_splits)

lemma si_apply_changed_ordered:
  "si_ordered si \<Longrightarrow> fst (si_apply pk k ix si) \<longleftrightarrow> map_of (si_rev si) pk \<noteq> (if ix then Some k else None)"
  by (auto simp: si_apply_def Let_def)

lemma distinct_rev_apply:
  "distinct (map fst (si_rev si)) \<Longrightarrow> distinct (map fst (si_rev (snd (si_apply pk k ix si))))"
  by (auto simp: si_apply_def Let_def distinct_update distinct_delete split: option.split)

lemma buckets_ok_apply:
  assumes "buckets_ok si" and "\<not> si_ordered si"
  shows "buckets_ok (snd (si_apply pk k ix si))"
proof (cases "ix \<and> map_of (si_rev si) pk = Some k")
  case True
  with assms show ?thesis by (simp add: si_apply_def Let_def)
next
  case False
  define si1 where "si1 = (case map_of (si_rev si) pk of None \<Rightarrow> si
       | Some k0 \<Rightarrow> (removeFwd k0 pk si)\<lparr>si_rev := AList.delete pk (si_rev si)\<rparr>)"
  have rev1: "map_of (si_rev si1) = (map_of (si_rev si))(pk := None)"
    by (auto simp: si1_def map_of_delete fun_upd_idem split: option.split)
  have ok1: "buckets_ok si1"
  proof (cases "map_of (si_rev si) pk")
    case (Some k0)
    have b: "bucket si1 k' = (if k' = k0 then swap_remove pk (bucket si k0) else bucket si k')" for k'
      using bucket_removeFwd [of k0 pk si k'] by (simp add: si1_def Some)
    have ne: "si_fwd si1 k' \<noteq> Some []" for k'
      using assms(1) by (auto simp: si1_def Some removeFwd_def Let_def buckets_ok_def)
    show ?thesis
      using assms(1) set_swap_remove [of "bucket si k0" pk] ne unfolding buckets_ok_def b rev1
      by (auto simp: Some split: if_splits)
  qed (use assms in \<open>simp add: si1_def\<close>)
  show ?thesis
  proof (cases ix)
    case True
    define si2 where "si2 = (appendFwd k pk si1)\<lparr>si_rev := AList.update pk k (si_rev si1)\<rparr>"
    have b: "bucket si2 k' = (if k' = k then bucket si1 k @ [pk] else bucket si1 k')" for k'
      using bucket_appendFwd [of k pk si1 k'] by (simp add: si2_def)
    have ne: "si_fwd si2 k' \<noteq> Some []" for k'
      using ok1 by (auto simp: si2_def appendFwd_def buckets_ok_def)
    have rev2: "map_of (si_rev si2) = (map_of (si_rev si))(pk \<mapsto> k)"
      by (simp add: si2_def map_of_update rev1)
    have "pk \<notin> set (bucket si1 k')" for k' using ok1 by (auto simp: buckets_ok_def rev1)
    then have "buckets_ok si2"
      using ok1 ne unfolding buckets_ok_def b rev2 by (auto simp: rev1 split: if_splits)
    moreover have "snd (si_apply pk k ix si) = si2"
      using False True assms(2) by (simp add: si_apply_def Let_def si1_def [symmetric] si2_def)
    ultimately show ?thesis by simp
  next
    case False
    then have "snd (si_apply pk k ix si) = si1" using assms(2) by (simp add: si_apply_def Let_def si1_def)
    with ok1 show ?thesis by simp
  qed
qed

lemma si_apply_inv:
  assumes "si_inv K si" and "ix \<longrightarrow> key_ok K k"
  shows "si_inv K (snd (si_apply pk k ix si))"
proof -
  let ?si = "snd (si_apply pk k ix si)"
  have d: "distinct (map fst (si_rev ?si))" using assms(1) by (simp add: si_inv_def distinct_rev_apply)
  have "key_ok K x" if "x \<in> snd ` set (si_rev ?si)" for x
  proof -
    from that obtain p where "map_of (si_rev ?si) p = Some x" using d by auto
    then have "x = k \<and> ix \<or> map_of (si_rev si) p = Some x" by (auto simp: si_apply_rev split: if_splits)
    then show ?thesis using assms by (auto simp: si_inv_def dest: map_of_SomeD)
  qed
  with d assms(1) show ?thesis by (auto simp: si_inv_def buckets_ok_apply)
qed


section \<open>Folding a batch into the sorted view\<close>

lemma entry_inj [simp]: "entry x = entry y \<longleftrightarrow> x = y"
  by (cases x; cases y) (auto simp: entry_def)

lemma entry_fields [simp]: "oe_key (entry x) = snd x" "oe_pk (entry x) = fst x"
  by (cases x; simp add: entry_def)+

lemma distinct_entries: "distinct (map fst al) \<Longrightarrow> distinct (map entry al)"
  by (auto simp: distinct_map inj_on_def)

lemma rebuildSorted_view:
  assumes "si_inv K si"
  shows "view_ok (rebuildSorted si)"
proof -
  have "entries_ok K (map entry (si_rev si))" using assms by (auto simp: si_inv_def)
  then show ?thesis
    using assms sorted_ord_sort [of "map entry (si_rev si)" K]
    by (simp add: view_ok_def rebuildSorted_def distinct_ord_sort distinct_entries si_inv_def)
qed

text \<open>
  The incremental fold: \<open>si0\<close> is the index at the previous merge, whose view was complete; since then
  only keys of \<open>dirtyPKs\<close> changed.
\<close>

lemma mergeSorted_eq_rebuild:
  assumes "si_inv K si0" and "view_ok si0" and "si_inv K si" and "si_sorted si = si_sorted si0"
    and "\<And>pk. pk \<notin> set dirtyPKs \<Longrightarrow> map_of (si_rev si) pk = map_of (si_rev si0) pk"
  shows "mergeSorted dirtyPKs si = rebuildSorted si"
proof -
  let ?D = "set dirtyPKs"
  define add where "add = concat (map (\<lambda>pk. case map_of (si_rev si) pk of None \<Rightarrow> []
      | Some key \<Rightarrow> [entry (pk, key)]) (remdups dirtyPKs))"
  have d: "distinct (map fst (si_rev si))" "distinct (map fst (si_rev si0))" using assms(1,3) by (simp_all add: si_inv_def)
  have mem: "x \<in> set (si_rev si) \<longleftrightarrow> map_of (si_rev si) (fst x) = Some (snd x)" for x
    using d(1) by (metis map_of_eq_Some_iff prod.collapse)
  have mem0: "x \<in> set (si_rev si0) \<longleftrightarrow> map_of (si_rev si0) (fst x) = Some (snd x)" for x
    using d(2) by (metis map_of_eq_Some_iff prod.collapse)
  have add_set: "set add = entry ` {x \<in> set (si_rev si). fst x \<in> ?D}"
    by (auto simp: add_def mem image_iff split: option.splits)
  have add_distinct: "distinct add"
  proof -
    have "distinct (concat (map (\<lambda>pk. case f pk of None \<Rightarrow> [] | Some key \<Rightarrow> [entry (pk, key)]) xs))"
      if "distinct xs" for f :: "UUID \<Rightarrow> indexKey option" and xs
      using that by (induction xs) (auto split: option.split)
    then show ?thesis by (simp add: add_def)
  qed
  let ?old = "si_sorted si0" and ?out = "merge_loop ?D (si_sorted si0) (ord_sort add)"
  have old: "sorted (map erank ?old)" "distinct ?old" "set ?old = entry ` set (si_rev si0)"
    using assms(2) by (simp_all add: view_ok_def)
  have ok: "entries_ok K ?old" "entries_ok K add" "entries_ok K (map entry (si_rev si))"
    using assms(1,3) old(3) add_set by (auto simp: si_inv_def)
  have out_set: "set ?out = set (map entry (si_rev si))"
    using assms(5) by (auto simp: set_merge_loop old(3) add_set mem mem0 image_iff)
  have "?out = ord_sort (map entry (si_rev si))"
  proof (rule view_unique)
    show "entries_ok K ?out" using ok(3) out_set by simp
    show "entries_ok K (ord_sort (map entry (si_rev si)))" using ok(3) by simp
    show "set ?out = set (ord_sort (map entry (si_rev si)))" using out_set by simp
    show "sorted (map erank ?out)" using ok old(1) by (intro sorted_merge_loop [where K = K] sorted_ord_sort [where K = K]) simp_all
    show "sorted (map erank (ord_sort (map entry (si_rev si))))" using ok(3) by (rule sorted_ord_sort)
    show "distinct ?out"
      using old(2) add_distinct by (intro distinct_merge_loop) (auto simp: distinct_ord_sort add_set)
    show "distinct (ord_sort (map entry (si_rev si)))" using d(1) by (simp add: distinct_ord_sort distinct_entries)
  qed
  then show ?thesis
    by (simp add: mergeSorted_def rebuildSorted_def Let_def add_def [symmetric] assms(4))
qed

section \<open>Exact lookups\<close>

lemma sorted_view_keys:
  assumes "si_inv K si" and "view_ok si"
  shows "entries_ok K (si_sorted si)"
    and "sorted_wrt (\<lambda>a b. key_rank (oe_key a) \<le> key_rank (oe_key b)) (si_sorted si)"
proof -
  show "entries_ok K (si_sorted si)" using assms by (auto simp: si_inv_def view_ok_def)
  have "sorted_wrt (\<lambda>a b. erank a \<le> erank b) (si_sorted si)" using assms(2) by (simp add: view_ok_def sorted_wrt_map)
  then show "sorted_wrt (\<lambda>a b. key_rank (oe_key a) \<le> key_rank (oe_key b)) (si_sorted si)"
    by (rule sorted_wrt_mono_rel [rotated]) (auto simp only: erank_def less_eq_prod_simp less_imp_le)
qed

text \<open>On a list sorted by a rank, the run of a value is between the two cuts.\<close>

lemma takeWhile_dropWhile_run:
  assumes "sorted_wrt (\<lambda>a b. r a \<le> (r b :: 'b::linorder)) es"
  shows "takeWhile (\<lambda>e. r e \<le> v) (dropWhile (\<lambda>e. r e < v) es) = filter (\<lambda>e. r e = v) es"
  using assms
proof (induction es)
  case (Cons e es)
  consider "r e < v" | "r e = v" | "v < r e" by (rule linorder_cases)
  then show ?case
  proof cases
    case 1
    with Cons show ?thesis by auto
  next
    case 2
    then have "dropWhile (\<lambda>e. r e < v) es = es" using Cons.prems by (cases es) auto
    with 2 Cons show ?thesis by simp
  next
    case 3
    then have "\<forall>x \<in> set es. r x \<noteq> v" using Cons.prems by fastforce
    with 3 show ?thesis by (auto simp: filter_empty_conv)
  qed
qed simp

lemma lookup_cut:
  assumes "si_inv K si" and "view_ok si" and "key_ok K k"
  shows "lookup_run k (drop (sort_Search (length (si_sorted si)) (\<lambda>i. \<not> key_less (oe_key (si_sorted si ! i)) k)) (si_sorted si)) =
    map oe_pk (filter (\<lambda>e. oe_key e = k) (si_sorted si))"
proof -
  let ?es = "si_sorted si"
  note v = sorted_view_keys [OF assms(1,2)]
  have r: "key_less (oe_key e) k \<longleftrightarrow> key_rank (oe_key e) < key_rank k"
      "key_less k (oe_key e) \<longleftrightarrow> key_rank k < key_rank (oe_key e)"
      "oe_key e = k \<longleftrightarrow> key_rank (oe_key e) = key_rank k" if "e \<in> set ?es" for e
    using v(1) assms(3) that by (simp_all add: key_less_rank [where K = K] key_rank_inj [where K = K])
  have "sorted_wrt (\<lambda>a b. \<not> key_less (oe_key a) k \<longrightarrow> \<not> key_less (oe_key b) k) ?es"
    by (rule sorted_wrt_mono_rel [OF _ v(2)]) (auto simp: r not_less intro: order_trans)
  note cut = sort_Search_cut(2) [OF this]
  have "dropWhile (\<lambda>e. \<not> \<not> key_less (oe_key e) k) ?es = dropWhile (\<lambda>e. key_rank (oe_key e) < key_rank k) ?es"
    by (rule dropWhile_cong) (simp_all add: r)
  moreover have "takeWhile (\<lambda>e. \<not> key_less k (oe_key e)) (dropWhile (\<lambda>e. key_rank (oe_key e) < key_rank k) ?es) =
      takeWhile (\<lambda>e. key_rank (oe_key e) \<le> key_rank k) (dropWhile (\<lambda>e. key_rank (oe_key e) < key_rank k) ?es)"
    by (rule takeWhile_cong) (auto simp: r not_less dest: set_dropWhileD)
  moreover have "filter (\<lambda>e. key_rank (oe_key e) = key_rank k) ?es = filter (\<lambda>e. oe_key e = k) ?es"
    by (rule filter_cong) (simp_all add: r)
  ultimately show ?thesis
    using takeWhile_dropWhile_run [OF v(2), of "key_rank k"] by (simp add: lookup_run_def cut)
qed

lemma view_pks:
  assumes "si_inv K si" and "view_ok si"
  shows "distinct (map oe_pk (filter P (si_sorted si)))"
    and "set (map oe_pk (filter P (si_sorted si))) =
      {pk. \<exists>k. map_of (si_rev si) pk = Some k \<and> P (entry (pk, k))}"
proof -
  have d: "distinct (map fst (si_rev si))" using assms(1) by (simp add: si_inv_def)
  have "inj_on oe_pk (set (si_sorted si))"
    using assms(2) d by (auto simp: view_ok_def inj_on_def) (metis map_of_eq_Some_iff option.inject)
  then show "distinct (map oe_pk (filter P (si_sorted si)))"
    using assms(2) by (auto simp: distinct_map view_ok_def intro: inj_on_subset)
  show "set (map oe_pk (filter P (si_sorted si))) = {pk. \<exists>k. map_of (si_rev si) pk = Some k \<and> P (entry (pk, k))}"
    using assms(2) d by (auto simp: view_ok_def image_iff) (metis map_of_SomeD entry_fields(2) fst_conv)
qed

lemma si_lookup_exact:
  assumes "si_synced K si" and "key_ok K k"
  shows "distinct (si_lookup k si) \<and> set (si_lookup k si) = {pk. map_of (si_rev si) pk = Some k}"
proof (cases "si_ordered si")
  case True
  then have "si_lookup k si = map oe_pk (filter (\<lambda>e. oe_key e = k) (si_sorted si))"
    using assms lookup_cut [of K si k] by (simp add: si_lookup_def si_synced_def Let_def)
  with True assms(1) view_pks [of K si "\<lambda>e. oe_key e = k"] show ?thesis by (simp add: si_synced_def)
next
  case False
  with assms show ?thesis by (simp add: si_lookup_def si_synced_def si_inv_def buckets_ok_def)
qed


text \<open>The allocation-free variants agree with the full lookup.\<close>

lemma lookupOne_eq:
  "lookupOne k si = (case si_lookup k si of [] \<Rightarrow> (zeroUUID, False, False) | [pk] \<Rightarrow> (pk, True, True)
     | _ \<Rightarrow> (zeroUUID, True, False))"
proof (cases "si_ordered si")
  case True
  let ?es = "si_sorted si"
  define lo where "lo = sort_Search (length ?es) (\<lambda>i. \<not> key_less (oe_key (?es ! i)) k)"
  have one: "lookupOne k si = (if lo \<ge> length ?es \<or> key_less k (oe_key (?es ! lo)) then (zeroUUID, False, False)
        else if lo + 1 < length ?es \<and> \<not> key_less k (oe_key (?es ! (lo + 1))) then (zeroUUID, True, False)
        else (oe_pk (?es ! lo), True, True))"
    using True by (simp add: lookupOne_def Let_def lo_def)
  have look: "si_lookup k si = lookup_run k (drop lo ?es)" using True by (simp add: si_lookup_def Let_def lo_def)
  show ?thesis
  proof (cases "drop lo ?es")
    case Nil
    then show ?thesis by (simp add: one look lookup_run_def)
  next
    case (Cons e rest)
    then have lo: "lo < length ?es" "?es ! lo = e" by (metis drop_eq_Nil list.distinct(1) not_less) (metis Cons nth_via_drop)
    have rest: "drop (lo + 1) ?es = rest" using arg_cong [OF Cons, of "drop 1"] by (simp add: add.commute)
    show ?thesis
    proof (cases rest)
      case Nil
      with rest have "length ?es \<le> lo + 1" by simp
      with lo Nil Cons show ?thesis by (simp add: one look lookup_run_def)
    next
      case (Cons e2 rest2)
      with rest have "lo + 1 < length ?es" "?es ! (lo + 1) = e2"
        by (metis drop_eq_Nil list.distinct(1) not_less) (metis Cons rest nth_via_drop)
      with lo Cons \<open>drop lo ?es = e # rest\<close> show ?thesis by (simp add: one look lookup_run_def)
    qed
  qed
next
  case False
  then show ?thesis by (simp add: lookupOne_def si_lookup_def split: list.splits option.splits)
qed

lemma countKey_eq:
  assumes "si_synced K si" and "key_ok K (keyOf key)"
  shows "countKey key si = length (si_lookup (keyOf key) si)"
proof (cases "si_ordered si")
  case True
  let ?es = "si_sorted si" and ?k = "keyOf key"
  have inv: "si_inv K si" "view_ok si" using assms(1) True by (simp_all add: si_synced_def)
  note v = sorted_view_keys [OF inv]
  have r: "key_less (oe_key e) ?k \<longleftrightarrow> key_rank (oe_key e) < key_rank ?k"
      "key_less ?k (oe_key e) \<longleftrightarrow> key_rank ?k < key_rank (oe_key e)" if "e \<in> set ?es" for e
    using v(1) assms(2) that by (simp_all add: key_less_rank [where K = K])
  have m1: "sorted_wrt (\<lambda>a b. \<not> key_less (oe_key a) ?k \<longrightarrow> \<not> key_less (oe_key b) ?k) ?es"
    by (rule sorted_wrt_mono_rel [OF _ v(2)]) (auto simp: r not_less intro: order_trans)
  have m2: "sorted_wrt (\<lambda>a b. key_less ?k (oe_key a) \<longrightarrow> key_less ?k (oe_key b)) ?es"
    by (rule sorted_wrt_mono_rel [OF _ v(2)]) (auto simp: r intro: less_le_trans)
  let ?A = "takeWhile (\<lambda>e. key_less (oe_key e) ?k) ?es" and ?B = "dropWhile (\<lambda>e. key_less (oe_key e) ?k) ?es"
  have "takeWhile (\<lambda>e. \<not> key_less ?k (oe_key e)) (?A @ ?B) = ?A @ takeWhile (\<lambda>e. \<not> key_less ?k (oe_key e)) ?B"
    by (rule takeWhile_append2) (auto simp: r dest!: set_takeWhileD)
  then have "length (takeWhile (\<lambda>e. \<not> key_less ?k (oe_key e)) ?es) =
      length ?A + length (takeWhile (\<lambda>e. \<not> key_less ?k (oe_key e)) ?B)"
    by simp
  then show ?thesis
    using True by (simp add: countKey_def si_lookup_def Let_def lookup_run_def sort_Search_cut(2,3) [OF m1] sort_Search_cut(3) [OF m2] dropWhile_eq_drop)
next
  case False
  then show ?thesis by (simp add: countKey_def si_lookup_def Let_def)
qed

section \<open>Prefix lookups\<close>

lemma append_ge: "p \<le> p @ (q :: bytes)"
  by (induction p) auto

lemma prefix_le: "prefix p x \<Longrightarrow> p \<le> (x :: bytes)"
  by (auto simp: prefix_def intro: append_ge)

lemma prefix_between: "p \<le> x \<Longrightarrow> x \<le> y \<Longrightarrow> prefix p y \<Longrightarrow> prefix p (x :: bytes)"
proof (induction p arbitrary: x y)
  case (Cons a p)
  then obtain y' where y: "y = a # y'" "prefix p y'" by (auto simp: prefix_def)
  with Cons.prems obtain x' where "x = a # x'" "p \<le> x'" "x' \<le> y'" by (cases x) auto
  with Cons.IH y show ?case by simp
qed simp

lemma bump_loop_Cons:
  "i \<le> length p \<Longrightarrow> bump_loop (a # p) (Suc i) =
     (if bump_loop p i \<noteq> [] then a # bump_loop p i else if a \<noteq> 0xFF then [a + 1] else [])"
  by (induction i) auto

lemma prefixUpperBound_Cons:
  "prefixUpperBound (a # p) =
     (if prefixUpperBound p \<noteq> [] then a # prefixUpperBound p else if a \<noteq> 0xFF then [a + 1] else [])"
  by (simp add: prefixUpperBound_def bump_loop_Cons del: bump_loop.simps)

lemma less_succ_byte: "a \<noteq> 0xFF \<Longrightarrow> b < a + 1 \<longleftrightarrow> b \<le> (a :: byte)"
proof -
  assume "a \<noteq> 0xFF"
  then have "unat a \<noteq> 255" using word_unat_eq_iff [of a "0xFF"] by simp
  then have "unat (a + 1) = unat a + 1" using unat_byte_less [of a] unat_add_lem [of a 1] by simp
  then show ?thesis by (simp add: word_less_nat_alt word_le_nat_alt less_Suc_eq_le)
qed

lemma byte_le_max: "\<not> 0xFF < (b :: byte)"
  using unat_byte_less [of b] by (simp add: word_less_nat_alt)

text \<open>The upper bound is exact: at or above \<open>p\<close>, having the prefix is being below the bound.\<close>

lemma prefixUpperBound_exact:
  "p \<le> x \<Longrightarrow> prefix p x \<longleftrightarrow> prefixUpperBound p = [] \<or> x < prefixUpperBound p"
proof (induction p arbitrary: x)
  case Nil
  then show ?case by (simp add: prefixUpperBound_def)
next
  case (Cons a p)
  then obtain b y where x: "x = b # y" by (cases x) auto
  have "prefix p y \<longleftrightarrow> prefixUpperBound p = [] \<or> y < prefixUpperBound p" if "p \<le> y" using Cons.IH [OF that] .
  with Cons.prems x show ?case
    using byte_le_max [of b] by (cases "a = b") (auto simp: prefixUpperBound_Cons less_succ_byte)
qed

lemma prefix_run:
  assumes "sorted_wrt (\<lambda>a b. r a \<le> (r b :: bytes)) es"
  shows "takeWhile (\<lambda>e. prefix p (r e)) (dropWhile (\<lambda>e. r e < p) es) = filter (\<lambda>e. prefix p (r e)) es"
  using assms
proof (induction es)
  case (Cons e es)
  consider (low) "r e < p" | (hit) "p \<le> r e" "prefix p (r e)" | (past) "p \<le> r e" "\<not> prefix p (r e)" by fastforce
  then show ?case
  proof cases
    case low
    then have "\<not> prefix p (r e)" using prefix_le by (meson leD)
    with low Cons show ?thesis by simp
  next
    case hit
    then have "dropWhile (\<lambda>e. r e < p) es = es" using Cons.prems by (cases es) (auto dest: order_trans)
    with hit Cons show ?thesis by simp
  next
    case past
    then have "\<forall>x \<in> set es. \<not> prefix p (r x)" using Cons.prems prefix_between by fastforce
    with past show ?thesis by (auto simp: filter_empty_conv)
  qed
qed simp

lemma view_ks_sorted:
  assumes "si_inv KindBytes si" and "view_ok si"
  shows "sorted_wrt (\<lambda>a b. ks (oe_key a) \<le> ks (oe_key b)) (si_sorted si)"
proof -
  note v = sorted_view_keys [OF assms]
  show ?thesis by (rule sorted_wrt_mono_rel [OF _ v(2)]) (use v(1) in \<open>auto simp: key_rank_def key_ok_def\<close>)
qed

lemma prefixLookup_eq:
  assumes "si_inv KindBytes si" and "view_ok si"
  shows "prefixLookup p si = map oe_pk (filter (\<lambda>e. prefix (ks p) (ks (oe_key e))) (si_sorted si))"
proof -
  note v = view_ks_sorted [OF assms]
  have "sorted_wrt (\<lambda>a b. ks p \<le> ks (oe_key a) \<longrightarrow> ks p \<le> ks (oe_key b)) (si_sorted si)"
    by (rule sorted_wrt_mono_rel [OF _ v]) (auto intro: order_trans)
  note cut = sort_Search_cut(2) [OF this]
  show ?thesis using prefix_run [OF v, of "ks p"] by (simp add: prefixLookup_def Let_def cut not_le)
qed

lemma snapshotPrefix_eq:
  assumes "si_inv KindBytes si" and "view_ok si"
  shows "snapshotPrefix p si = filter (\<lambda>e. prefix (ks p) (ks (oe_key e))) (si_sorted si)"
proof -
  let ?es = "si_sorted si" and ?r = "\<lambda>e. ks (oe_key e)" and ?ub = "prefixUpperBound (ks p)"
  note v = view_ks_sorted [OF assms]
  have mono: "sorted_wrt (\<lambda>a b. u \<le> ?r a \<longrightarrow> u \<le> ?r b) ?es" for u
    by (rule sorted_wrt_mono_rel [OF _ v]) (auto intro: order_trans)
  define lo where "lo = sort_Search (length ?es) (\<lambda>i. ks p \<le> ?r (?es ! i))"
  define hi where "hi = (if ?ub \<noteq> [] then sort_Search (length ?es) (\<lambda>i. ?r (?es ! i) \<ge> ?ub) else length ?es)"
  have tk: "take hi ?es = (if ?ub \<noteq> [] then takeWhile (\<lambda>e. ?r e < ?ub) ?es else ?es)"
    using sort_Search_cut(1) [OF mono, of ?ub] by (simp add: hi_def not_le)
  have lo: "lo = length (takeWhile (\<lambda>e. ?r e < ks p) ?es)"
    using sort_Search_cut(3) [OF mono, of "ks p"] by (simp add: lo_def not_le)
  have gen: "drop (length (takeWhile (\<lambda>e. ?r e < q) es)) (if u \<noteq> [] then takeWhile (\<lambda>e. ?r e < u) es else es) =
      filter (\<lambda>e. prefix q (?r e)) es"
    if "sorted_wrt (\<lambda>a b. ?r a \<le> ?r b) es" "u = prefixUpperBound q" for q u es
    using that(1)
  proof (induction es)
    case (Cons e es)
    consider (low) "?r e < q" | (hit) "q \<le> ?r e" "prefix q (?r e)" | (past) "q \<le> ?r e" "\<not> prefix q (?r e)" by fastforce
    then show ?case
    proof cases
      case low
      then have np: "\<not> prefix q (?r e)" using prefix_le by (meson leD)
      have "u \<noteq> [] \<longrightarrow> ?r e < u"
        using low prefixUpperBound_exact [of q q] that(2) by (auto intro: less_trans)
      with low np Cons show ?thesis by auto
    next
      case hit
      then have "takeWhile (\<lambda>e. ?r e < q) es = []" using Cons.prems by (cases es) (auto dest: order_trans)
      moreover have "u \<noteq> [] \<longrightarrow> ?r e < u" using hit prefixUpperBound_exact [OF hit(1)] that(2) by blast
      ultimately show ?thesis using hit Cons by auto
    next
      case past
      then have "u \<noteq> []" "\<not> ?r e < u" using prefixUpperBound_exact [OF past(1)] that(2) by auto
      moreover have "\<forall>x \<in> set es. \<not> prefix q (?r x)" using past Cons.prems prefix_between by fastforce
      ultimately show ?thesis using past by (simp add: filter_empty_conv)
    qed
  qed simp
  have "snapshotPrefix p si = drop lo (take hi ?es)"
    by (simp add: snapshotPrefix_def Let_def lo_def hi_def)
  then show ?thesis using gen [OF v refl, of "ks p"] by (simp only: tk lo)
qed


lemma intersectPKs_set: "set (intersectPKs a b) = set a \<inter> set b"
  by (auto simp: intersectPKs_def Let_def)

lemma si_synced_new: "si_synced K (newSecIndex ri)"
  by (simp add: si_synced_def si_inv_def newSecIndex_def view_ok_def buckets_ok_def)

section \<open>Properties\<close>

text \<open>
  A batch of changes, as the merge applies it: each primary key with its new key, or none when the
  row is gone or has a null.  The abstract index is the map from primary key to key.
\<close>

definition apply_changes :: "(UUID \<times> indexKey option) list \<Rightarrow> secIndex \<Rightarrow> secIndex" where
  "apply_changes cs si = foldl (\<lambda>si (pk, k).
     snd (si_apply pk (case k of None \<Rightarrow> zeroKey | Some k \<Rightarrow> k) (k \<noteq> None) si)) si cs"

definition change_map :: "(UUID \<times> indexKey option) list \<Rightarrow> (UUID \<Rightarrow> indexKey option) \<Rightarrow> UUID \<Rightarrow> indexKey option" where
  "change_map cs m = foldl (\<lambda>m (pk, k). m(pk := k)) m cs"

lemma apply_changes_Cons:
  "apply_changes ((pk, k) # cs) si =
     apply_changes cs (snd (si_apply pk (case k of None \<Rightarrow> zeroKey | Some k \<Rightarrow> k) (k \<noteq> None) si))"
  "apply_changes [] si = si"
  by (simp_all add: apply_changes_def)

lemma change_map_Cons: "change_map ((pk, k) # cs) m = change_map cs (m(pk := k))" "change_map [] m = m"
  by (simp_all add: change_map_def)

lemma apply_changes_ok:
  assumes "si_inv K si" and "\<forall>k \<in> snd ` set cs. case k of None \<Rightarrow> True | Some k \<Rightarrow> key_ok K k"
  shows "si_inv K (apply_changes cs si) \<and> map_of (si_rev (apply_changes cs si)) = change_map cs (map_of (si_rev si)) \<and>
    si_sorted (apply_changes cs si) = si_sorted si \<and> si_ordered (apply_changes cs si) = si_ordered si"
  using assms
proof (induction cs arbitrary: si)
  case (Cons c cs)
  obtain pk k where c: "c = (pk, k)" by (cases c)
  let ?si = "snd (si_apply pk (case k of None \<Rightarrow> zeroKey | Some k \<Rightarrow> k) (k \<noteq> None) si)"
  have "si_inv K ?si" using Cons.prems by (intro si_apply_inv) (auto simp: c split: option.splits)
  moreover have "map_of (si_rev ?si) = (map_of (si_rev si))(pk := k)" by (cases k) (simp_all add: si_apply_rev)
  ultimately show ?case
    using Cons.IH [of ?si] Cons.prems(2) unfolding c apply_changes_Cons change_map_Cons
    by (simp del: fun_upd_apply not_None_eq)
qed (simp add: apply_changes_Cons change_map_Cons)

lemma change_map_other: "pk \<notin> fst ` set cs \<Longrightarrow> change_map cs m pk = m pk"
  by (induction cs arbitrary: m) (auto simp: change_map_def)

lemma apply_merge_synced:
  assumes "si_synced K si" and "\<forall>k \<in> snd ` set cs. case k of None \<Rightarrow> True | Some k \<Rightarrow> key_ok K k"
  shows "si_synced K (if si_ordered si then mergeSorted (map fst cs) (apply_changes cs si) else apply_changes cs si)"
proof -
  have inv: "si_inv K si" using assms(1) by (simp add: si_synced_def)
  note a = apply_changes_ok [OF inv assms(2)]
  show ?thesis
  proof (cases "si_ordered si")
    case True
    have "mergeSorted (map fst cs) (apply_changes cs si) = rebuildSorted (apply_changes cs si)"
      using assms(1) True a by (intro mergeSorted_eq_rebuild [of K si]) (auto simp: si_synced_def change_map_other)
    moreover have "si_inv K (rebuildSorted (apply_changes cs si))"
      using a by (auto simp: si_inv_def rebuildSorted_def buckets_ok_def)
    moreover have "view_ok (rebuildSorted (apply_changes cs si))" using a rebuildSorted_view by blast
    ultimately show ?thesis using True by (simp add: si_synced_def)
  next
    case False
    then show ?thesis using a by (simp add: si_synced_def)
  qed
qed

text \<open>
  C12.  A secondary index is exact after every merge: starting from an index whose reads are exact (a
  new one, or the result of the previous merge), applying a batch of changes and, for an ordered
  index, folding them into the sorted view by the incremental two-way merge, gives an index on which
  a lookup answers each primary key with that key once and no other; the allocation-free single
  lookup and the count agree with it; and the incremental merge produces the view a full
  rebuild would.
\<close>

theorem secIndex_exact_after_merge:
  assumes "si_synced K si" and "\<forall>k \<in> snd ` set cs. case k of None \<Rightarrow> True | Some k \<Rightarrow> key_ok K k"
    and "si' = (if si_ordered si then mergeSorted (map fst cs) (apply_changes cs si) else apply_changes cs si)"
    and "key_ok K k"
  shows "si_synced K si' \<and> distinct (si_lookup k si') \<and>
    set (si_lookup k si') = {pk. change_map cs (map_of (si_rev si)) pk = Some k} \<and>
    lookupOne k si' = (case si_lookup k si' of [] \<Rightarrow> (zeroUUID, False, False) | [pk] \<Rightarrow> (pk, True, True)
      | _ \<Rightarrow> (zeroUUID, True, False)) \<and>
    (\<forall>v. keyOf v = k \<longrightarrow> countKey v si' = length (si_lookup k si')) \<and>
    (si_ordered si \<longrightarrow> si' = rebuildSorted (apply_changes cs si))"
proof -
  have inv: "si_inv K si" using assms(1) by (simp add: si_synced_def)
  note a = apply_changes_ok [OF inv assms(2)]
  have sync: "si_synced K si'" using apply_merge_synced [OF assms(1,2)] by (simp only: assms(3))
  have rev: "map_of (si_rev si') = change_map cs (map_of (si_rev si))"
    using a by (simp add: assms(3) mergeSorted_def Let_def)
  have "si_ordered si \<longrightarrow> si' = rebuildSorted (apply_changes cs si)"
    using assms(1) a unfolding assms(3)
    by (auto intro!: mergeSorted_eq_rebuild [of K si] simp: si_synced_def change_map_other)
  with si_lookup_exact [OF sync assms(4)] sync show ?thesis
    using assms(4) by (auto simp: rev lookupOne_eq countKey_eq [of K])
qed

theorem secIndex_exact_after_merge_witness:
  "let ri = \<lparr>ri_name = [], ri_ordinals = [1], ri_ordered = True\<rparr>;
       k1 = keyOf (IntV 5); k2 = keyOf (IntV (- 3)); a = replicate 16 1; b = replicate 16 2; c = replicate 16 3;
       cs = [(a, Some k1), (b, Some k2), (c, Some k1), (b, Some k1), (c, None)]
   in set (si_lookup k1 (mergeSorted (map fst cs) (apply_changes cs (newSecIndex ri)))) = {a, b}"
proof -
  let ?ri = "\<lparr>ri_name = [], ri_ordinals = [1], ri_ordered = True\<rparr>"
  let ?k1 = "keyOf (IntV 5)" and ?k2 = "keyOf (IntV (- 3))"
  let ?a = "replicate 16 (1 :: byte)" and ?b = "replicate 16 (2 :: byte)" and ?c = "replicate 16 (3 :: byte)"
  let ?cs = "[(?a, Some ?k1), (?b, Some ?k2), (?c, Some ?k1), (?b, Some ?k1), (?c, None)]"
  have ok: "key_ok KindInt (keyOf (IntV i))" for i using key_ok_keyOf [of "IntV i"] by simp
  have cs: "\<forall>k \<in> snd ` set ?cs. case k of None \<Rightarrow> True | Some k \<Rightarrow> key_ok KindInt k" using ok by simp
  have ord: "si_ordered (newSecIndex ?ri) = True" by (simp add: newSecIndex_def)
  from secIndex_exact_after_merge [OF si_synced_new [of _ ?ri] cs refl ok, of 5]
  have "set (si_lookup ?k1 (mergeSorted (map fst ?cs) (apply_changes ?cs (newSecIndex ?ri)))) =
      {pk. change_map ?cs (map_of (si_rev (newSecIndex ?ri))) pk = Some ?k1}"
    unfolding ord if_True by blast
  moreover have "?a \<noteq> ?b" "?a \<noteq> ?c" "?b \<noteq> ?c" by simp_all
  ultimately show ?thesis by (auto simp: change_map_def newSecIndex_def Let_def split: if_splits)
qed

text \<open>
  C13.  Leftmost-prefix reads of a composite index are exact: the prefix lookup answers exactly the
  primary keys whose encoded key starts with the prefix, each once, and the sub-range
  snapshot found by two binary searches (the second at the least string above every string with the
  prefix) holds exactly those entries, in order.
\<close>

theorem prefix_reads_exact:
  assumes "si_synced KindBytes si" and "si_ordered si"
  shows "distinct (prefixLookup p si) \<and>
    set (prefixLookup p si) = {pk. \<exists>k. map_of (si_rev si) pk = Some k \<and> prefix (ks p) (ks k)} \<and>
    map oe_pk (snapshotPrefix p si) = prefixLookup p si"
proof -
  have inv: "si_inv KindBytes si" "view_ok si" using assms by (simp_all add: si_synced_def)
  show ?thesis
    using view_pks [OF inv, of "\<lambda>e. prefix (ks p) (ks (oe_key e))"]
    by (simp add: prefixLookup_eq [OF inv] snapshotPrefix_eq [OF inv])
qed

theorem prefix_reads_exact_witness:
  "let si = rebuildSorted (apply_changes
        [(replicate 16 1, Some (encodeCompositeKey [StrV [97], IntV 3])),
         (replicate 16 2, Some (encodeCompositeKey [StrV [97, 98], IntV 1]))]
        (newSecIndex \<lparr>ri_name = [], ri_ordinals = [0, 1], ri_ordered = True\<rparr>))
   in map oe_pk (snapshotPrefix (encodeCompositeKey [StrV [97]]) si) = prefixLookup (encodeCompositeKey [StrV [97]]) si"
proof -
  let ?cs = "[(replicate 16 1, Some (encodeCompositeKey [StrV [97], IntV 3])),
         (replicate 16 2, Some (encodeCompositeKey [StrV [97, 98], IntV 1]))] :: (UUID \<times> indexKey option) list"
  let ?si = "apply_changes ?cs (newSecIndex \<lparr>ri_name = [], ri_ordinals = [0, 1], ri_ordered = True\<rparr>)"
  have "si_inv KindBytes ?si \<and> si_ordered ?si"
    using apply_changes_ok [of KindBytes "newSecIndex \<lparr>ri_name = [], ri_ordinals = [0, 1], ri_ordered = True\<rparr>" ?cs]
      si_synced_new [of KindBytes "\<lparr>ri_name = [], ri_ordinals = [0, 1], ri_ordered = True\<rparr>"]
    by (simp add: si_synced_def key_ok_composite newSecIndex_def)
  then have "si_synced KindBytes (rebuildSorted ?si)" "si_ordered (rebuildSorted ?si)"
    using rebuildSorted_view [of KindBytes ?si] by (simp_all add: si_synced_def si_inv_def rebuildSorted_def)
  from prefix_reads_exact [OF this] show ?thesis by (simp add: Let_def)
qed

end
