(* ===== verification/Budgets.thy ===== *)
theory Budgets
  imports Prelude
begin

text \<open>
  \<open>budget.go\<close>: the store-wide byte ceiling.  Byte counts are unbounded integers: a total near
  \<open>2 ^ 63\<close> is not reachable in memory.  The operations are given twice: as functions of the shared
  state, for callers that run alone, and, for \<open>reserve\<close>, as the steps of concurrent callers on
  the shared counter, where another caller can run between the addition and the withdrawal.
\<close>

section \<open>The budget\<close>

record byteBudget =
  total :: int
  ceiling :: int

definition reserve :: "byteBudget \<Rightarrow> int \<Rightarrow> bool \<times> byteBudget" where
  "reserve b cost =
     (if ceiling b = 0 then (True, b)
      else let b' = b\<lparr>total := total b + cost\<rparr>
        in if total b' > ceiling b then (False, b'\<lparr>total := total b' - cost\<rparr>) else (True, b'))"

definition release :: "byteBudget \<Rightarrow> int \<Rightarrow> byteBudget" where
  "release b cost = (if ceiling b \<noteq> 0 then b\<lparr>total := total b - cost\<rparr> else b)"

definition adjust :: "byteBudget \<Rightarrow> int \<Rightarrow> byteBudget" where
  "adjust b delta = (if ceiling b \<noteq> 0 \<and> delta \<noteq> 0 then b\<lparr>total := total b + delta\<rparr> else b)"

text \<open>The effect of the operations on the total; a budget without a ceiling stays as it is.\<close>

definition charge :: "byteBudget \<Rightarrow> int \<Rightarrow> byteBudget" where
  "charge b d = (if ceiling b = 0 then b else b\<lparr>total := total b + d\<rparr>)"

lemma charge_simps [simp]:
  "charge b 0 = b" "charge (charge b d) e = charge b (d + e)" "ceiling (charge b d) = ceiling b"
  by (simp_all add: charge_def)

lemma release_charge: "release b c = charge b (- c)"
  by (simp add: release_def charge_def)

lemma adjust_charge: "adjust b d = charge b d"
  by (simp add: adjust_def charge_def)

lemma reserve_cases:
  "reserve b c = (if ceiling b = 0 \<or> total b + c \<le> ceiling b then (True, charge b c) else (False, b))"
  by (simp add: reserve_def charge_def Let_def)

lemma reserve_Some: "reserve b c = (True, b') \<Longrightarrow> b' = charge b c"
  by (simp add: reserve_cases split: if_splits)

lemma reserve_None: "reserve b c = (False, b') \<Longrightarrow> b' = b"
  by (simp add: reserve_cases split: if_splits)

section \<open>Concurrent reservations\<close>

text \<open>
  A caller adds its cost and, when that took the total over the ceiling, withdraws it in a second
  step.  \<open>bg_held\<close> is what each caller's admitted rows hold, \<open>bg_pending\<close> what it has added and must
  withdraw.
\<close>

record budgetSys =
  bg_counter :: int
  bg_held :: "nat \<Rightarrow> int"
  bg_pending :: "nat \<Rightarrow> int"

inductive budgetStep :: "int \<Rightarrow> budgetSys \<Rightarrow> budgetSys \<Rightarrow> bool" for limit where
  admit: "bg_pending s i = 0 \<Longrightarrow> cost \<ge> 0 \<Longrightarrow> \<not> bg_counter s + cost > limit \<Longrightarrow>
     budgetStep limit s (s\<lparr>bg_counter := bg_counter s + cost, bg_held := (bg_held s)(i := bg_held s i + cost)\<rparr>)"
| overshoot: "bg_pending s i = 0 \<Longrightarrow> cost \<ge> 0 \<Longrightarrow> bg_counter s + cost > limit \<Longrightarrow>
     budgetStep limit s (s\<lparr>bg_counter := bg_counter s + cost, bg_pending := (bg_pending s)(i := cost)\<rparr>)"
| withdraw: "bg_pending s i > 0 \<Longrightarrow>
     budgetStep limit s (s\<lparr>bg_counter := bg_counter s - bg_pending s i, bg_pending := (bg_pending s)(i := 0)\<rparr>)"
| release: "0 \<le> cost \<Longrightarrow> cost \<le> bg_held s i \<Longrightarrow> bg_pending s i = 0 \<Longrightarrow>
     budgetStep limit s (s\<lparr>bg_counter := bg_counter s - cost, bg_held := (bg_held s)(i := bg_held s i - cost)\<rparr>)"

inductive budgetReach :: "int \<Rightarrow> budgetSys \<Rightarrow> bool" for limit where
  start: "budgetReach limit \<lparr>bg_counter = 0, bg_held = (\<lambda>_. 0), bg_pending = (\<lambda>_. 0)\<rparr>"
| step: "budgetReach limit s \<Longrightarrow> budgetStep limit s t \<Longrightarrow> budgetReach limit t"

text \<open>\<open>n\<close> bounds the callers that have acted; the sums range over them.\<close>

definition budgetInv :: "int \<Rightarrow> budgetSys \<Rightarrow> bool" where
  "budgetInv limit s \<longleftrightarrow>
     (\<forall>i. 0 \<le> bg_held s i \<and> 0 \<le> bg_pending s i) \<and>
     (\<exists>n. (\<forall>i \<ge> n. bg_held s i = 0 \<and> bg_pending s i = 0) \<and>
        bg_counter s = (\<Sum>i < n. bg_held s i) + (\<Sum>i < n. bg_pending s i) \<and> (\<Sum>i < n. bg_held s i) \<le> max limit 0)"

lemma sum_upd: "i < n \<Longrightarrow> sum (f(i := x)) {..<n} = sum f {..<n} + x - f i" for x :: int and n i :: nat
proof -
  assume "i < n"
  then have "sum (f(i := x)) {..<n} = x + sum (f(i := x)) ({..<n} - {i})" by (simp add: sum.remove [of _ i])
  also have "sum (f(i := x)) ({..<n} - {i}) = sum f ({..<n} - {i})" by (rule sum.cong) auto
  also have "\<dots> = sum f {..<n} - f i" using \<open>i < n\<close> by (simp add: sum.remove [of "{..<n}" i])
  finally show ?thesis by simp
qed

lemma sum_extend:
  fixes n m :: nat
  assumes "\<forall>i \<ge> n. f i = (0 :: int)" and "n \<le> m"
  shows "sum f {..<m} = sum f {..<n}"
proof (rule sum.mono_neutral_right)
  show "\<forall>i \<in> {..<m} - {..<n}. f i = 0" using assms(1) by (simp add: not_less)
qed (use assms in auto)

lemma budgetInvI:
  assumes "\<And>i. 0 \<le> bg_held s i \<and> 0 \<le> bg_pending s i" and "\<forall>i \<ge> n. bg_held s i = 0 \<and> bg_pending s i = 0"
    and "bg_counter s = sum (bg_held s) {..<n} + sum (bg_pending s) {..<n}" and "sum (bg_held s) {..<n} \<le> max limit 0"
  shows "budgetInv limit s"
  using assms unfolding budgetInv_def by blast

lemma budgetInv_nonneg: "budgetInv limit s \<Longrightarrow> 0 \<le> bg_held s i \<and> 0 \<le> bg_pending s i"
  by (simp add: budgetInv_def)

lemma budgetInv_sums: "budgetInv limit s \<Longrightarrow> 0 \<le> sum (bg_held s) A \<and> 0 \<le> sum (bg_pending s) A"
  by (simp add: budgetInv_def sum_nonneg)

lemma budgetInv_bound:
  assumes "budgetInv limit s"
  obtains n where "i < n" "\<forall>i \<ge> n. bg_held s i = 0 \<and> bg_pending s i = 0"
    "bg_counter s = (\<Sum>i < n. bg_held s i) + (\<Sum>i < n. bg_pending s i)" "(\<Sum>i < n. bg_held s i) \<le> max limit 0"
proof -
  from assms obtain n where n: "\<forall>i \<ge> n. bg_held s i = 0 \<and> bg_pending s i = 0"
    "bg_counter s = (\<Sum>i < n. bg_held s i) + (\<Sum>i < n. bg_pending s i)" "(\<Sum>i < n. bg_held s i) \<le> max limit 0"
    by (auto simp: budgetInv_def)
  let ?m = "max n (Suc i)"
  have "(\<Sum>i < ?m. bg_held s i) = (\<Sum>i < n. bg_held s i)" "(\<Sum>i < ?m. bg_pending s i) = (\<Sum>i < n. bg_pending s i)"
    using n(1) by (auto intro!: sum_extend)
  with n show thesis by (intro that [of ?m]) auto
qed

lemma budgetStep_inv: "budgetStep limit s t \<Longrightarrow> budgetInv limit s \<Longrightarrow> budgetInv limit t"
proof (induction rule: budgetStep.induct)
  case (admit s i cost)
  note inv = admit(4)
  from inv obtain n where n: "i < n" "\<forall>i \<ge> n. bg_held s i = 0 \<and> bg_pending s i = 0"
    "bg_counter s = sum (bg_held s) {..<n} + sum (bg_pending s) {..<n}" "sum (bg_held s) {..<n} \<le> max limit 0"
    by (rule budgetInv_bound)
  show ?case
    by (rule budgetInvI [of _ n])
      (use admit n budgetInv_nonneg [OF inv] budgetInv_sums [OF inv, of "{..<n}"] in \<open>simp_all add: sum_upd del: fun_upd_apply\<close>, simp_all)
next
  case (overshoot s i cost)
  note inv = overshoot(4)
  from inv obtain n where n: "i < n" "\<forall>i \<ge> n. bg_held s i = 0 \<and> bg_pending s i = 0"
    "bg_counter s = sum (bg_held s) {..<n} + sum (bg_pending s) {..<n}" "sum (bg_held s) {..<n} \<le> max limit 0"
    by (rule budgetInv_bound)
  show ?case
    by (rule budgetInvI [of _ n])
      (use overshoot n budgetInv_nonneg [OF inv] budgetInv_sums [OF inv, of "{..<n}"] in \<open>simp_all add: sum_upd del: fun_upd_apply\<close>, simp_all)
next
  case (withdraw s i)
  note inv = withdraw(2)
  from inv obtain n where n: "i < n" "\<forall>i \<ge> n. bg_held s i = 0 \<and> bg_pending s i = 0"
    "bg_counter s = sum (bg_held s) {..<n} + sum (bg_pending s) {..<n}" "sum (bg_held s) {..<n} \<le> max limit 0"
    by (rule budgetInv_bound)
  show ?case
    by (rule budgetInvI [of _ n])
      (use withdraw n budgetInv_nonneg [OF inv] budgetInv_sums [OF inv, of "{..<n}"] in \<open>simp_all add: sum_upd del: fun_upd_apply\<close>, simp_all)
next
  case (release cost s i)
  note inv = release(4)
  from inv obtain n where n: "i < n" "\<forall>i \<ge> n. bg_held s i = 0 \<and> bg_pending s i = 0"
    "bg_counter s = sum (bg_held s) {..<n} + sum (bg_pending s) {..<n}" "sum (bg_held s) {..<n} \<le> max limit 0"
    by (rule budgetInv_bound)
  show ?case
    by (rule budgetInvI [of _ n])
      (use release n budgetInv_nonneg [OF inv] budgetInv_sums [OF inv, of "{..<n}"] in \<open>simp_all add: sum_upd del: fun_upd_apply\<close>, simp_all)
qed

lemma budgetReach_inv: "budgetReach limit s \<Longrightarrow> budgetInv limit s"
proof (induction rule: budgetReach.induct)
  case start
  then show ?case by (auto simp: budgetInv_def)
qed (rule budgetStep_inv)

section \<open>Properties\<close>



end
