(* ===== verification/StoreTypes.thy ===== *)
theory StoreTypes
  imports PkMap SecIndex Budgets
begin

text \<open>
  \<open>store.go\<close> and the shared helpers of \<open>store_write.go\<close> and \<open>store_compact.go\<close>: the sharded table,
  its arenas, and the bookkeeping every row mutation goes through.

  Each operation of the source runs under the locks of the shards it touches, so it is one atomic
  step on the table; it is a function from the state before to the state after.  \<open>None\<close> stands for
  a run that does not return: a probe loop that never ends or an index out of range (a panic).

  The byte budget is shared by all tables and the write-ahead log is reached through the journal, so
  both are threaded next to the table in \<open>store\<close>; \<open>'w\<close> is the state of the log.
\<close>

section \<open>Tables\<close>

text \<open>An arena slot is \<open>None\<close> for a tombstone (a nil row).\<close>

record tableShard =
  sh_rows :: "Row option list"
  sh_pk :: pkMap
  sh_tails :: "UUID \<Rightarrow> nat list option"
  sh_tailsDead :: "UUID \<Rightarrow> int option"
  sh_live :: int
  sh_bytes :: int
  sh_dirtyRead :: "UUID list"
  sh_dirtyDel :: "UUID list"

record rowLocation =
  loc_shard :: nat
  loc_rowID :: nat

record table =
  t_def :: resolvedTable
  t_shards :: "tableShard list"
  t_mask :: uint32
  t_indexes :: "secIndex list"
  t_pkDir :: "(UUID \<Rightarrow> rowLocation option) option"
  t_readDirtyCount :: int
  t_delDirtyCount :: int

record 'w store =
  st_table :: table
  st_budget :: byteBudget
  st_wal :: 'w

text \<open>\<open>runtime.NumCPU()\<close> is the parameter \<open>cpus\<close>.\<close>

definition shardCount :: "nat \<Rightarrow> nat" where
  "shardCount cpus =
     (let n = cpus * 4; n = (if n < 64 then 64 else n); n = (if n > 1024 then 1024 else n)
      in 2 ^ bitsLen (n - 1))"

definition newTable :: "nat \<Rightarrow> resolvedTable \<Rightarrow> nat \<Rightarrow> table" where
  "newTable cpus rt sizeHint =
     (let n = shardCount cpus;
          per = (if sizeHint div n < 16 then 16 else sizeHint div n);
          sh = \<lparr>sh_rows = [], sh_pk = (if partitioned rt then emptyPkMap else pk_init per emptyPkMap),
                sh_tails = Map.empty, sh_tailsDead = Map.empty, sh_live = 0, sh_bytes = 0,
                sh_dirtyRead = [], sh_dirtyDel = []\<rparr>
      in \<lparr>t_def = rt, t_shards = replicate n sh, t_mask = word_of_nat (n - 1),
          t_indexes = map newSecIndex (rt_indexes rt),
          t_pkDir = (if partitioned rt then Some Map.empty else None),
          t_readDirtyCount = 0, t_delDirtyCount = 0\<rparr>)"

definition shardIdxOf :: "table \<Rightarrow> UUID \<Rightarrow> nat" where
  "shardIdxOf t u =
     (let a = le_get (take 8 u) :: uint64; b = le_get (take 8 (drop 8 u));
          h = (a XOR word_rotl 32 b) * 0x9E3779B97F4A7C15
      in unat ((ucast (drop_bit 32 h) :: uint32) AND t_mask t))"

definition pkOrd :: "table \<Rightarrow> nat" where
  "pkOrd t = nat (pkOrdinal (t_def t))"

definition partOrd :: "table \<Rightarrow> nat" where
  "partOrd t = nat (partitionOrdinal (t_def t))"

definition nIdx :: "table \<Rightarrow> nat" where
  "nIdx t = length (t_indexes t)"

text \<open>The primary key cell of a row.\<close>

definition pkOf :: "table \<Rightarrow> Row \<Rightarrow> UUID" where
  "pkOf t r = Value_UUID (r ! pkOrd t)"

definition partOf :: "table \<Rightarrow> Row \<Rightarrow> UUID" where
  "partOf t r = Value_UUID (r ! partOrd t)"

abbreviation setShard :: "nat \<Rightarrow> tableShard \<Rightarrow> table \<Rightarrow> table" where
  "setShard i s t \<equiv> t\<lparr>t_shards := (t_shards t)[i := s]\<rparr>"

section \<open>The journal\<close>

text \<open>
  \<open>mutJournal\<close> of \<open>exec_write.go\<close>: whether mutations are journaled, and the three log appends, each
  an effect on the log that may fail.  The zero value journals nothing.  The journal that encodes
  records and appends them to the log is in \<open>Journals\<close>.
\<close>

record 'w mutJournal =
  j_live :: bool
  j_insert :: "Row \<Rightarrow> 'w \<Rightarrow> err option \<times> 'w"
  j_update :: "Row \<Rightarrow> 'w \<Rightarrow> err option \<times> 'w"
  j_delete :: "'w \<Rightarrow> err option \<times> 'w"

definition noJournal :: "'w mutJournal" where
  "noJournal = \<lparr>j_live = False, j_insert = (\<lambda>_ w. (None, w)), j_update = (\<lambda>_ w. (None, w)), j_delete = (\<lambda>w. (None, w))\<rparr>"

section \<open>Bookkeeping of one shard\<close>

definition markDirty :: "nat \<Rightarrow> UUID \<Rightarrow> table \<Rightarrow> table" where
  "markDirty i pk t =
     (if nIdx t > 0 then
        (setShard i ((t_shards t ! i)\<lparr>sh_dirtyRead := sh_dirtyRead (t_shards t ! i) @ [pk]\<rparr>) t)
          \<lparr>t_readDirtyCount := t_readDirtyCount t + 1\<rparr>
      else t)"

definition markDelDirty :: "nat \<Rightarrow> UUID \<Rightarrow> table \<Rightarrow> table" where
  "markDelDirty i pk t =
     (if nIdx t > 0 then
        (setShard i ((t_shards t ! i)\<lparr>sh_dirtyDel := sh_dirtyDel (t_shards t ! i) @ [pk]\<rparr>) t)
          \<lparr>t_delDirtyCount := t_delDirtyCount t + 1\<rparr>
      else t)"

definition addRow :: "Row \<Rightarrow> int \<Rightarrow> tableShard \<Rightarrow> nat \<times> tableShard" where
  "addRow row cost s =
     (length (sh_rows s),
      s\<lparr>sh_rows := sh_rows s @ [Some row], sh_live := sh_live s + 1, sh_bytes := sh_bytes s + cost\<rparr>)"

definition addBytes :: "int \<Rightarrow> tableShard \<Rightarrow> byteBudget \<Rightarrow> tableShard \<times> byteBudget" where
  "addBytes delta s b = (s\<lparr>sh_bytes := sh_bytes s + delta\<rparr>, adjust b delta)"

definition tombstone :: "nat \<Rightarrow> nat \<Rightarrow> tableShard \<Rightarrow> byteBudget \<Rightarrow> (tableShard \<times> byteBudget) option" where
  "tombstone rowID n s b =
     (if rowID \<ge> length (sh_rows s) then None
      else let cost = rowCost (case sh_rows s ! rowID of None \<Rightarrow> [] | Some r \<Rightarrow> r) n
        in Some (s\<lparr>sh_bytes := sh_bytes s - cost, sh_rows := (sh_rows s)[rowID := None], sh_live := sh_live s - 1\<rparr>,
                 release b cost))"

definition ordIsIndexed :: "table \<Rightarrow> nat \<Rightarrow> bool" where
  "ordIsIndexed t ord \<longleftrightarrow> (\<exists>ix \<in> set (t_indexes t). \<exists>ixOrd \<in> set (si_ordinals ix). ord = ixOrd)"

definition updateTouchesIndex :: "table \<Rightarrow> nat list \<Rightarrow> bool" where
  "updateTouchesIndex t ords \<longleftrightarrow> (\<exists>ord \<in> set ords. ordIsIndexed t ord)"

text \<open>Assigning the SET values cell by cell; a missing cell or value is an index out of range.\<close>

fun setCells :: "Row \<Rightarrow> nat list \<Rightarrow> Value list \<Rightarrow> Row option" where
  "setCells r [] vals = Some r"
| "setCells r (ord # ords) [] = None"
| "setCells r (ord # ords) (v # vals) = (if ord \<ge> length r then None else setCells (r[ord := v]) ords vals)"

text \<open>The memory-only loop: the delta is taken cell by cell while the row changes.\<close>

fun setCellsDelta :: "Row \<Rightarrow> nat list \<Rightarrow> Value list \<Rightarrow> int \<Rightarrow> (Row \<times> int) option" where
  "setCellsDelta r [] vals delta = Some (r, delta)"
| "setCellsDelta r (ord # ords) [] delta = None"
| "setCellsDelta r (ord # ords) (v # vals) delta =
     (if ord \<ge> length r then None else setCellsDelta (r[ord := v]) ords vals (delta + cellDelta (r ! ord) v))"

section \<open>The arena invariant\<close>

text \<open>Live rows: the cells of the arena that are not tombstones.\<close>

definition live_rows :: "Row option list \<Rightarrow> Row list" where
  "live_rows rs = List.map_filter (\<lambda>x. x) rs"

text \<open>The running tallies of a shard: live count and byte total.\<close>

definition tally_ok :: "nat \<Rightarrow> tableShard \<Rightarrow> bool" where
  "tally_ok n s \<longleftrightarrow> sh_live s = int (length (live_rows (sh_rows s))) \<and>
     sh_bytes s = sum_list (map (\<lambda>r. rowCost r n) (live_rows (sh_rows s)))"

lemma live_rows_simps [simp]:
  "live_rows [] = []" "live_rows (None # rs) = live_rows rs" "live_rows (Some r # rs) = r # live_rows rs"
  "live_rows (rs @ rs') = live_rows rs @ live_rows rs'"
  by (simp_all add: live_rows_def List.map_filter_def)

lemma set_live_rows: "set (live_rows rs) = {r. Some r \<in> set rs}"
  by (induction rs) (auto simp: live_rows_def List.map_filter_def)

lemma live_rows_update:
  assumes "i < length rs" and "rs ! i = Some r"
  obtains xs ys where "live_rows rs = xs @ r # ys" "live_rows (rs[i := None]) = xs @ ys"
    "\<And>r'. live_rows (rs[i := Some r']) = xs @ r' # ys"
proof -
  have rs: "rs = take i rs @ Some r # drop (Suc i) rs" using assms id_take_nth_drop [of i rs] by simp
  have upd: "rs[i := x] = take i rs @ x # drop (Suc i) rs" for x using assms(1) by (rule upd_conv_take_nth_drop)
  have "live_rows rs = live_rows (take i rs) @ r # live_rows (drop (Suc i) rs)"
    by (subst rs) simp
  moreover have "live_rows (rs[i := None]) = live_rows (take i rs) @ live_rows (drop (Suc i) rs)"
    "\<And>r'. live_rows (rs[i := Some r']) = live_rows (take i rs) @ r' # live_rows (drop (Suc i) rs)"
    by (simp_all add: upd)
  ultimately show thesis by (rule that)
qed

lemma tally_addRow: "tally_ok n s \<Longrightarrow> tally_ok n (snd (addRow row (rowCost row n) s))"
  by (simp add: tally_ok_def addRow_def)

lemma tally_replace:
  assumes "tally_ok n s" "i < length (sh_rows s)" "sh_rows s ! i = Some r"
  shows "tally_ok n (s\<lparr>sh_rows := (sh_rows s)[i := Some r'], sh_bytes := sh_bytes s + (rowCost r' n - rowCost r n)\<rparr>)"
proof -
  from assms(2,3) obtain xs ys where "live_rows (sh_rows s) = xs @ r # ys"
      "\<And>r'. live_rows ((sh_rows s)[i := Some r']) = xs @ r' # ys"
    by (rule live_rows_update) blast
  with assms(1) show ?thesis by (simp add: tally_ok_def)
qed

lemma tombstone_ok:
  assumes "tally_ok n s" "i < length (sh_rows s)" "sh_rows s ! i = Some r"
  obtains s' where "tombstone i n s b = Some (s', charge b (- rowCost r n))" "tally_ok n s'"
    "sh_rows s' = (sh_rows s)[i := None]" "sh_pk s' = sh_pk s" "sh_tails s' = sh_tails s"
    "sh_tailsDead s' = sh_tailsDead s" "sh_dirtyRead s' = sh_dirtyRead s" "sh_dirtyDel s' = sh_dirtyDel s"
    "sh_bytes s' = sh_bytes s - rowCost r n"
proof -
  let ?s = "s\<lparr>sh_bytes := sh_bytes s - rowCost r n, sh_rows := (sh_rows s)[i := None], sh_live := sh_live s - 1\<rparr>"
  from assms(2,3) obtain xs ys where "live_rows (sh_rows s) = xs @ r # ys"
      "live_rows ((sh_rows s)[i := None]) = xs @ ys"
    by (rule live_rows_update) blast
  with assms(1) have "tally_ok n ?s" by (simp add: tally_ok_def)
  with assms show thesis
    by (intro that [of ?s]) (simp_all add: tombstone_def Let_def release_charge)
qed

section \<open>Assigning cells\<close>

lemma setCells_length: "setCells r ords vals = Some r' \<Longrightarrow> length r' = length r"
  by (induction r ords vals rule: setCells.induct) (auto split: if_splits)

lemma setCells_other: "setCells r ords vals = Some r' \<Longrightarrow> i \<notin> set ords \<Longrightarrow> r' ! i = r ! i"
  by (induction r ords vals rule: setCells.induct) (auto split: if_splits)

text \<open>The delta accumulated cell by cell is the difference of the row costs.\<close>

lemma setCellsDelta_eq:
  "setCellsDelta r ords vals d =
     map_option (\<lambda>r'. (r', d + rowCost r' n - rowCost r n)) (setCells r ords vals)"
proof (induction r ords vals arbitrary: d rule: setCells.induct)
  case (3 r ord ords v vals)
  show ?case
  proof (cases "ord < length r")
    case True
    then show ?thesis using 3 [of "d + cellDelta (r ! ord) v"] rowCost_update [OF True, of v n]
      by (cases "setCells (r[ord := v]) ords vals") auto
  qed simp
qed simp_all

text \<open>So is the delta from the saved cells, when no column is set twice.\<close>

lemma setCells_saved_delta:
  assumes "distinct ords" and "setCells r ords vals = Some r'"
  shows "sum_list (map2 cellDelta (map (nth r) ords) vals) = rowCost r' n - rowCost r n"
  using assms
proof (induction r ords vals rule: setCells.induct)
  case (3 r ord ords v vals)
  then have len: "ord < length r" and rest: "setCells (r[ord := v]) ords vals = Some r'" by (auto split: if_splits)
  have "map (nth (r[ord := v])) ords = map (nth r) ords"
    using 3(2) by (auto intro!: nth_list_update_neq)
  moreover have "sum_list (map2 cellDelta (map (nth (r[ord := v])) ords) vals) = rowCost r' n - rowCost (r[ord := v]) n"
    using 3 rest len by simp
  ultimately have "sum_list (map2 cellDelta (map (nth r) ords) vals) = rowCost r' n - rowCost (r[ord := v]) n"
    by (simp only:)
  then show ?case using rowCost_update [OF len, of v n] by simp
qed simp_all


text \<open>Writing the saved cells back restores the row.\<close>

lemma setCells_old:
  assumes "setCells r ords vals = Some r'"
  shows "setCells r' ords (map (nth r) ords) = Some r"
proof -
  have len: "length r' = length r" using assms by (rule setCells_length)
  have in_range: "\<forall>ord \<in> set ords. ord < length r"
    using assms by (induction r ords vals rule: setCells.induct) (auto split: if_splits)
  have "\<exists>r''. setCells x os (map (nth r) os) = Some r'' \<and> length r'' = length r \<and>
      (\<forall>i. r'' ! i = (if i \<in> set os then r ! i else x ! i))"
    if "length x = length r" "\<forall>ord \<in> set os. ord < length r" for x os
    using that
  proof (induction os arbitrary: x)
    case (Cons a os)
    have upd: "x[a := r ! a] ! i = (if i = a then r ! i else x ! i)" for i
      using Cons.prems by (auto simp: nth_list_update)
    obtain r'' where r'': "setCells (x[a := r ! a]) os (map (nth r) os) = Some r''" "length r'' = length r"
        "\<forall>i. r'' ! i = (if i \<in> set os then r ! i else x[a := r ! a] ! i)"
      using Cons.IH [of "x[a := r ! a]"] Cons.prems by auto
    have "\<forall>i. r'' ! i = (if i \<in> set (a # os) then r ! i else x ! i)" using r''(3) by (simp add: upd)
    with r''(1,2) Cons.prems show ?case by simp
  qed simp
  from this [of r' ords] obtain r'' where r'': "setCells r' ords (map (nth r) ords) = Some r''" "length r'' = length r"
      "\<forall>i. r'' ! i = (if i \<in> set ords then r ! i else r' ! i)"
    using len in_range by blast
  have "r'' = r" using r''(2,3) setCells_other [OF assms] by (intro nth_equalityI) auto
  with r''(1) show ?thesis by simp
qed

end
