(* ===== verification/PartitionStore.thy ===== *)
theory PartitionStore
  imports StoreTypes
begin

text \<open>
  \<open>partition_store.go\<close> and the tail lists of \<open>store_compact.go\<close>: tables whose rows are routed by a
  partition key, with a table-wide directory from primary key to location and, per partition, the
  list of its row numbers in insertion order.

  A point read releases the directory lock before it takes the shard lock and retries when the
  location went stale, so other operations may run in between: it is a function of \<open>hist\<close>, the
  table as it was at each lock acquisition.
\<close>

section \<open>Tail lists\<close>

definition minTailPrune :: nat where "minTailPrune = 16"

definition tailsTombstone :: "UUID \<Rightarrow> tableShard \<Rightarrow> tableShard" where
  "tailsTombstone part s =
     (let dead = (case sh_tailsDead s part of None \<Rightarrow> 0 | Some d \<Rightarrow> d) + 1;
          s = s\<lparr>sh_tailsDead := (sh_tailsDead s)(part \<mapsto> dead)\<rparr>;
          ids = (case sh_tails s part of None \<Rightarrow> [] | Some ids \<Rightarrow> ids)
      in if dead * 2 < int (length ids) \<or> length ids < minTailPrune then s
         else let keep = filter (\<lambda>rid. rid < length (sh_rows s) \<and> sh_rows s ! rid \<noteq> None) ids
           in if length keep = 0
              then s\<lparr>sh_tails := (sh_tails s)(part := None), sh_tailsDead := (sh_tailsDead s)(part := None)\<rparr>
              else s\<lparr>sh_tails := (sh_tails s)(part \<mapsto> keep), sh_tailsDead := (sh_tailsDead s)(part \<mapsto> 0)\<rparr>)"

section \<open>Insert\<close>

definition insertPartitioned :: "Row \<Rightarrow> 'w mutJournal \<Rightarrow> 'w store \<Rightarrow> (err option \<times> 'w store) option" where
  "insertPartitioned row j st =
     (let t = st_table st; pk = pkOf t row; part = partOf t row; idx = shardIdxOf t part in
      case t_pkDir t of None \<Rightarrow> None | Some dir \<Rightarrow>
        if idx \<ge> length (t_shards t) then None
        else if dir pk \<noteq> None then Some (Some ErrDuplicatePK, st)
        else
          let s = t_shards t ! idx; cost = rowCost row (nIdx t); (ok, b) = reserve (st_budget st) cost in
          if \<not> ok then Some (Some ErrCapacity, st\<lparr>st_budget := b\<rparr>)
          else case j_insert j row (st_wal st) of
            (Some e, w) \<Rightarrow> Some (Some e, st\<lparr>st_budget := release b cost, st_wal := w\<rparr>)
          | (None, w) \<Rightarrow>
              let (rowID, s) = addRow row cost s;
                  s = s\<lparr>sh_tails := (sh_tails s)(part \<mapsto> (case sh_tails s part of None \<Rightarrow> [] | Some ids \<Rightarrow> ids) @ [rowID])\<rparr>;
                  t = (setShard idx s t)\<lparr>t_pkDir := Some (dir(pk \<mapsto> \<lparr>loc_shard = idx, loc_rowID = rowID\<rparr>))\<rparr>
              in Some (None, st\<lparr>st_table := t, st_budget := b, st_wal := w\<rparr>))"

section \<open>Scans\<close>

text \<open>The callback works on a state and answers whether to go on.\<close>

fun scan_ids :: "Row option list \<Rightarrow> (Row \<Rightarrow> 's \<Rightarrow> bool \<times> 's) \<Rightarrow> nat list \<Rightarrow> 's \<Rightarrow> 's" where
  "scan_ids rs fn [] acc = acc"
| "scan_ids rs fn (rowID # ids) acc =
     (if rowID \<ge> length rs then scan_ids rs fn ids acc
      else case rs ! rowID of None \<Rightarrow> scan_ids rs fn ids acc
        | Some r \<Rightarrow> (let (go, acc) = fn r acc in if \<not> go then acc else scan_ids rs fn ids acc))"

definition scanPartition :: "UUID \<Rightarrow> (Row \<Rightarrow> 's \<Rightarrow> bool \<times> 's) \<Rightarrow> table \<Rightarrow> 's \<Rightarrow> 's" where
  "scanPartition part fn t acc =
     (let s = t_shards t ! shardIdxOf t part
      in scan_ids (sh_rows s) fn (case sh_tails s part of None \<Rightarrow> [] | Some ids \<Rightarrow> ids) acc)"

definition scanPartitionRev :: "UUID \<Rightarrow> (Row \<Rightarrow> 's \<Rightarrow> bool \<times> 's) \<Rightarrow> table \<Rightarrow> 's \<Rightarrow> 's" where
  "scanPartitionRev part fn t acc =
     (let s = t_shards t ! shardIdxOf t part
      in scan_ids (sh_rows s) fn (rev (case sh_tails s part of None \<Rightarrow> [] | Some ids \<Rightarrow> ids)) acc)"

section \<open>Point reads\<close>

definition pkRetryBudget :: nat where "pkRetryBudget = 8"

text \<open>
  The resolve-and-retry loop the four readers share; \<open>f\<close> is what a reader does with the row it finds
  under the shard lock.  Attempt \<open>k\<close> reads the directory at \<open>hist (2 * k)\<close> and the shard at
  \<open>hist (2 * k + 1)\<close>.
\<close>

fun resolve_loop :: "nat \<Rightarrow> nat \<Rightarrow> (nat \<Rightarrow> table) \<Rightarrow> UUID \<Rightarrow> (Row \<Rightarrow> 'a) \<Rightarrow> 'a option" where
  "resolve_loop 0 k hist pk f = None"
| "resolve_loop (Suc n) k hist pk f =
     (case the (t_pkDir (hist (2 * k))) pk of None \<Rightarrow> None
      | Some loc \<Rightarrow>
          let t = hist (2 * k + 1); s = t_shards t ! loc_shard loc in
          if loc_rowID loc < length (sh_rows s) then
            (case sh_rows s ! loc_rowID loc of
               Some r \<Rightarrow> if pkOf t r = pk then Some (f r) else resolve_loop n (k + 1) hist pk f
             | None \<Rightarrow> resolve_loop n (k + 1) hist pk f)
          else resolve_loop n (k + 1) hist pk f)"

definition getByPKPartitioned :: "(nat \<Rightarrow> table) \<Rightarrow> UUID \<Rightarrow> Row option" where
  "getByPKPartitioned hist pk = resolve_loop pkRetryBudget 0 hist pk Row_Clone"

definition projectClone :: "Row \<Rightarrow> nat list \<Rightarrow> Row" where
  "projectClone r ords = map (\<lambda>ord. cloneValue (r ! ord)) ords"

definition getByPKProjectPartitioned :: "(nat \<Rightarrow> table) \<Rightarrow> UUID \<Rightarrow> nat list \<Rightarrow> Row option" where
  "getByPKProjectPartitioned hist pk ords = resolve_loop pkRetryBudget 0 hist pk (\<lambda>r. projectClone r ords)"

text \<open>\<open>ords = None\<close> is a nil slice: all columns.  The destination is overwritten from the start.\<close>

definition getByPKProjectIntoPartitioned :: "(nat \<Rightarrow> table) \<Rightarrow> UUID \<Rightarrow> nat list option \<Rightarrow> Value list option" where
  "getByPKProjectIntoPartitioned hist pk ords = resolve_loop pkRetryBudget 0 hist pk
     (\<lambda>r. case ords of None \<Rightarrow> appendRowClone [] r | Some ords \<Rightarrow> appendProjectClone [] r ords)"

section \<open>Update\<close>

text \<open>
  The common body of the multi-column updates: apply the values to the row at \<open>(i, rowID)\<close>; with a
  live journal, save the old cells, journal the new image, and on a log failure write the old
  cells back.
\<close>

definition updateCells :: "nat \<Rightarrow> nat \<Rightarrow> Row \<Rightarrow> nat list \<Rightarrow> Value list \<Rightarrow> 'w mutJournal \<Rightarrow> 'w store \<Rightarrow>
    (err option \<times> 'w store) option" where
  "updateCells i rowID r ords vals j st =
     (let t = st_table st; s = t_shards t ! i;
          put = (\<lambda>r. s\<lparr>sh_rows := (sh_rows s)[rowID := Some r]\<rparr>)
      in if \<not> j_live j then do {
           (r', delta) \<leftarrow> setCellsDelta r ords vals 0;
           let (s', b) = addBytes delta (put r') (st_budget st);
           Some (None, st\<lparr>st_table := setShard i s' t, st_budget := b\<rparr>)
         } else do {
           let old = map (nth r) ords;
           r' \<leftarrow> setCells r ords vals;
           (case j_update j r' (st_wal st) of
              (Some e, w) \<Rightarrow> do {
                r'' \<leftarrow> setCells r' ords old;
                Some (Some e, st\<lparr>st_table := setShard i (put r'') t, st_wal := w\<rparr>)
              }
            | (None, w) \<Rightarrow>
                let delta = sum_list (map2 cellDelta old vals);
                    (s', b) = addBytes delta (put r') (st_budget st)
                in Some (None, st\<lparr>st_table := setShard i s' t, st_budget := b, st_wal := w\<rparr>))
         })"

text \<open>The row a location points at: absent, stale, or the row with that primary key.\<close>

definition locate :: "table \<Rightarrow> UUID \<Rightarrow> (nat \<times> nat \<times> Row) option" where
  "locate t pk = (case the (t_pkDir t) pk of None \<Rightarrow> None
     | Some loc \<Rightarrow>
         let s = t_shards t ! loc_shard loc in
         if loc_rowID loc \<ge> length (sh_rows s) then None
         else case sh_rows s ! loc_rowID loc of None \<Rightarrow> None
           | Some r \<Rightarrow> if pkOf t r \<noteq> pk then None else Some (loc_shard loc, loc_rowID loc, r))"

definition updateByPKJournaledPartitioned :: "UUID \<Rightarrow> nat list \<Rightarrow> (Row \<Rightarrow> Value list res) \<Rightarrow> 'w mutJournal \<Rightarrow>
    'w store \<Rightarrow> (bool res \<times> 'w store) option" where
  "updateByPKJournaledPartitioned pk ords compute j st =
     (case locate (st_table st) pk of None \<Rightarrow> Some (Inr False, st)
      | Some (i, rowID, r) \<Rightarrow>
          (case compute r of Inl e \<Rightarrow> Some (Inl e, st)
           | Inr vals \<Rightarrow> do {
               (e, st) \<leftarrow> updateCells i rowID r ords vals j st;
               Some (case e of Some e \<Rightarrow> Inl e | None \<Rightarrow> Inr True, st)
             }))"

text \<open>The one-column variants: no buffer of values, the saved cell is a local.\<close>

definition updateOneCell :: "nat \<Rightarrow> nat \<Rightarrow> Row \<Rightarrow> nat \<Rightarrow> Value \<Rightarrow> 'w mutJournal \<Rightarrow> 'w store \<Rightarrow>
    (err option \<times> 'w store) option" where
  "updateOneCell i rowID r ord val j st =
     (let t = st_table st; s = t_shards t ! i;
          put = (\<lambda>r. s\<lparr>sh_rows := (sh_rows s)[rowID := Some r]\<rparr>)
      in if ord \<ge> length r then None
         else if \<not> j_live j then
           (let (s', b) = addBytes (cellDelta (r ! ord) val) (put (r[ord := val])) (st_budget st)
            in Some (None, st\<lparr>st_table := setShard i s' t, st_budget := b\<rparr>))
         else
           (let old = r ! ord; r' = r[ord := val] in
            case j_update j r' (st_wal st) of
              (Some e, w) \<Rightarrow> Some (Some e, st\<lparr>st_table := setShard i (put (r'[ord := old])) t, st_wal := w\<rparr>)
            | (None, w) \<Rightarrow>
                let (s', b) = addBytes (cellDelta old val) (put r') (st_budget st)
                in Some (None, st\<lparr>st_table := setShard i s' t, st_budget := b, st_wal := w\<rparr>)))"

definition updateByPKOneJournaledPartitioned :: "UUID \<Rightarrow> nat \<Rightarrow> (Row \<Rightarrow> Value res) \<Rightarrow> 'w mutJournal \<Rightarrow>
    'w store \<Rightarrow> (bool res \<times> 'w store) option" where
  "updateByPKOneJournaledPartitioned pk ord compute j st =
     (case locate (st_table st) pk of None \<Rightarrow> Some (Inr False, st)
      | Some (i, rowID, r) \<Rightarrow>
          (case compute r of Inl e \<Rightarrow> Some (Inl e, st)
           | Inr val \<Rightarrow> do {
               (e, st) \<leftarrow> updateOneCell i rowID r ord val j st;
               Some (case e of Some e \<Rightarrow> Inl e | None \<Rightarrow> Inr True, st)
             }))"

text \<open>
  The replay update: \<open>mutate\<close> returns the new row or nil (\<open>None\<close>).  The source reads the old row
  without a nil test; a directory entry for a tombstone cannot exist, and \<open>rowCost(nil)\<close> is defined.
\<close>

definition updatePartitioned :: "UUID \<Rightarrow> (Row \<Rightarrow> Row option) \<Rightarrow> 'w store \<Rightarrow> (bool \<times> 'w store) option" where
  "updatePartitioned pk mutate st =
     (let t = st_table st in
      case the (t_pkDir t) pk of None \<Rightarrow> Some (False, st)
      | Some loc \<Rightarrow>
          let s = t_shards t ! loc_shard loc; rowID = loc_rowID loc in
          if rowID \<ge> length (sh_rows s) then Some (False, st)
          else
            let r = (case sh_rows s ! rowID of None \<Rightarrow> [] | Some r \<Rightarrow> r); before = rowCost r (nIdx t) in
            case mutate r of None \<Rightarrow> Some (False, st)
            | Some nr \<Rightarrow>
                if pkOf t nr \<noteq> pk then Some (False, st)
                else let (s', b) = addBytes (rowCost nr (nIdx t) - before) s (st_budget st);
                         s' = s'\<lparr>sh_rows := (sh_rows s')[rowID := Some nr]\<rparr>
                  in Some (True, st\<lparr>st_table := setShard (loc_shard loc) s' t, st_budget := b\<rparr>))"

section \<open>Delete\<close>

definition deleteByPKJournaledPartitioned :: "UUID \<Rightarrow> 'w mutJournal \<Rightarrow> 'w store \<Rightarrow> (bool res \<times> 'w store) option" where
  "deleteByPKJournaledPartitioned pk j st =
     (let t = st_table st; dir = the (t_pkDir t) in
      case dir pk of None \<Rightarrow> Some (Inr False, st)
      | Some loc \<Rightarrow>
          (case j_delete j (st_wal st) of
             (Some e, w) \<Rightarrow> Some (Inl e, st\<lparr>st_wal := w\<rparr>)
           | (None, w) \<Rightarrow>
               let i = loc_shard loc; s = t_shards t ! i in do {
                 (s, b) \<leftarrow> (if loc_rowID loc < length (sh_rows s) then
                    (case sh_rows s ! loc_rowID loc of None \<Rightarrow> None
                     | Some r \<Rightarrow> do {
                         (s', b) \<leftarrow> tombstone (loc_rowID loc) (nIdx t) s (st_budget st);
                         Some (tailsTombstone (partOf t r) s', b)
                       })
                  else Some (s, st_budget st));
                 Some (Inr True, st\<lparr>st_table := (setShard i s t)\<lparr>t_pkDir := Some (dir(pk := None))\<rparr>,
                                  st_budget := b, st_wal := w\<rparr>)
               }))"

definition deleteByPKPartitioned :: "UUID \<Rightarrow> 'w store \<Rightarrow> (bool \<times> 'w store) option" where
  "deleteByPKPartitioned pk st = do {
     (r, st) \<leftarrow> deleteByPKJournaledPartitioned pk noJournal st;
     Some (case r of Inl _ \<Rightarrow> False | Inr ok \<Rightarrow> ok, st)
   }"

text \<open>Every live row with its shard and row number, in the order of the scan.\<close>

definition live_at :: "table \<Rightarrow> (nat \<times> nat \<times> Row) list" where
  "live_at t = [(i, k, r). i \<leftarrow> [0..<length (t_shards t)], k \<leftarrow> [0..<length (sh_rows (t_shards t ! i))],
     r \<leftarrow> (case sh_rows (t_shards t ! i) ! k of None \<Rightarrow> [] | Some r \<Rightarrow> [r])]"

fun applyPartitionedDeletes :: "(nat \<times> nat \<times> Row) list \<Rightarrow> 'w store \<Rightarrow> 'w store option" where
  "applyPartitionedDeletes [] st = Some st"
| "applyPartitionedDeletes ((i, k, r) # ps) st =
     (let t = st_table st in do {
        (s, b) \<leftarrow> tombstone k (nIdx t) (t_shards t ! i) (st_budget st);
        let s = tailsTombstone (partOf t r) s;
        let dir = the (t_pkDir t);
        applyPartitionedDeletes ps
          (st\<lparr>st_table := (setShard i s t)\<lparr>t_pkDir := Some (dir(pkOf t r := None))\<rparr>, st_budget := b\<rparr>)
      })"

text \<open>\<open>encode\<close> and \<open>journalAll\<close> are \<open>None\<close> for a memory-only database.\<close>

definition journalBodies :: "(bytes list \<Rightarrow> 'w \<Rightarrow> err option \<times> 'w) option \<Rightarrow> bytes list \<Rightarrow> 'w \<Rightarrow> err option \<times> 'w" where
  "journalBodies journalAll bodies w =
     (case journalAll of None \<Rightarrow> (None, w)
      | Some ja \<Rightarrow> if length bodies > 0 then ja bodies w else (None, w))"

definition deleteWhereAllPartitioned :: "(Row \<Rightarrow> bool) \<Rightarrow> (Value \<Rightarrow> bytes) option \<Rightarrow>
    (bytes list \<Rightarrow> 'w \<Rightarrow> err option \<times> 'w) option \<Rightarrow> 'w store \<Rightarrow> (nat res \<times> 'w store) option" where
  "deleteWhereAllPartitioned match encode journalAll st =
     (let t = st_table st; pending = filter (\<lambda>(i, k, r). match r) (live_at t);
          bodies = (case encode of None \<Rightarrow> [] | Some enc \<Rightarrow> map (\<lambda>(i, k, r). enc (r ! pkOrd t)) pending)
      in case journalBodies journalAll bodies (st_wal st) of
           (Some e, w) \<Rightarrow> Some (Inl e, st\<lparr>st_wal := w\<rparr>)
         | (None, w) \<Rightarrow> do {
             st \<leftarrow> applyPartitionedDeletes pending (st\<lparr>st_wal := w\<rparr>);
             Some (Inr (length pending), st)
           })"

end
