(* ===== verification/MutationCodec.thy ===== *)
theory MutationCodec
  imports Values
begin

text \<open>
  \<open>mutation_codec.go\<close>: the bytes of a mutation inside a write-ahead log record.  Encoders append to
  a buffer, decoders answer with the value and the number of bytes consumed; every length is checked
  against the input before it is used.  An \<open>int\<close> is 64 bits wide, so a 32-bit length never turns
  negative (the \<open>ln < 0\<close> guards of the source cannot fire).
\<close>

section \<open>Cells and rows\<close>

definition appendU16LE :: "bytes \<Rightarrow> uint16 \<Rightarrow> bytes" where
  "appendU16LE b v = b @ le_put 2 v"

definition appendU32LE :: "bytes \<Rightarrow> uint32 \<Rightarrow> bytes" where
  "appendU32LE b v = b @ le_put 4 v"

fun kindByte :: "ValueKind \<Rightarrow> byte" where
  "kindByte KindNull = 0" | "kindByte KindInt = 1" | "kindByte KindString = 2"
| "kindByte KindBytes = 3" | "kindByte KindBool = 4" | "kindByte KindUUID = 5"

definition encodeCell :: "bytes \<Rightarrow> Value \<Rightarrow> bytes" where
  "encodeCell buf v =
     (let buf = buf @ [kindByte (Kind v)]
      in case Kind v of
           KindInt \<Rightarrow> buf @ le_put 8 (Value_Int v)
         | KindString \<Rightarrow> appendU32LE buf (word_of_nat (length (Value_Str v))) @ Value_Str v
         | KindBytes \<Rightarrow> appendU32LE buf (word_of_nat (length (Value_Bytes v))) @ Value_Bytes v
         | KindUUID \<Rightarrow> buf @ Value_UUID v
         | KindBool \<Rightarrow> buf @ [ucast (Value_Int v)]
         | KindNull \<Rightarrow> buf)"

definition decodeCell :: "bytes \<Rightarrow> (Value \<times> nat) res" where
  "decodeCell b =
     (if length b < 1 then Inl ErrWALCorrupt
      else let kind = b ! 0; off = 1 in
        if kind = kindByte KindNull then Inr (NullV, off)
        else if kind = kindByte KindInt then
          (if off + 8 > length b then Inl ErrWALCorrupt
           else Inr (IntV (le_get (take 8 (drop off b))), off + 8))
        else if kind = kindByte KindString then
          (if off + 4 > length b then Inl ErrWALCorrupt
           else let ln = unat (le_get (take 4 (drop off b)) :: uint32); off = off + 4
             in if off + ln > length b then Inl ErrWALCorrupt
                else Inr (StrV (take ln (drop off b)), off + ln))
        else if kind = kindByte KindBytes then
          (if off + 4 > length b then Inl ErrWALCorrupt
           else let ln = unat (le_get (take 4 (drop off b)) :: uint32); off = off + 4
             in if off + ln > length b then Inl ErrWALCorrupt
                else Inr (BytesV (take ln (drop off b)), off + ln))
        else if kind = kindByte KindUUID then
          (if off + 16 > length b then Inl ErrWALCorrupt
           else Inr (UUIDVal (take 16 (drop off b)), off + 16))
        else if kind = kindByte KindBool then
          (if off + 1 > length b then Inl ErrWALCorrupt
           else Inr (BoolV (b ! off = 1), off + 1))
        else Inl ErrWALCorrupt)"

definition encodeRow :: "bytes \<Rightarrow> Row \<Rightarrow> bytes" where
  "encodeRow buf row = foldl encodeCell (appendU16LE buf (word_of_nat (length row))) row"

definition decodeRow :: "bytes \<Rightarrow> Row res" where
  "decodeRow b =
     (if length b < 2 then Inl ErrWALCorrupt
      else let n = unat (le_get (take 2 b) :: uint16) in
        andThen (for_n n (\<lambda>(row, off).
            andThen (decodeCell (drop off b)) (\<lambda>(v, sz). Inr (row @ [v], off + sz))) ([], 2))
          (\<lambda>(row, off). if off \<noteq> length b then Inl ErrWALCorrupt else Inr row))"

section \<open>Mutations\<close>

definition opInsert :: byte where "opInsert = 1"
definition opUpdate :: byte where "opUpdate = 2"
definition opDelete :: byte where "opDelete = 3"

definition encodeInsertMutation :: "bytes \<Rightarrow> uint16 \<Rightarrow> Row \<Rightarrow> bytes" where
  "encodeInsertMutation buf tableID row = encodeRow (appendU16LE (buf @ [opInsert]) tableID) row"

definition encodeUpdateMutation :: "bytes \<Rightarrow> uint16 \<Rightarrow> Value \<Rightarrow> nat list \<Rightarrow> Row \<Rightarrow> bytes" where
  "encodeUpdateMutation buf tableID pk ords row =
     (let buf = appendU16LE (buf @ [opUpdate]) tableID;
          buf = encodeCell buf pk;
          buf = appendU16LE buf (word_of_nat (length ords))
      in foldl (\<lambda>buf ord. encodeCell (appendU16LE buf (word_of_nat ord)) (row ! ord)) buf ords)"

definition encodeDeleteMutation :: "bytes \<Rightarrow> uint16 \<Rightarrow> Value \<Rightarrow> bytes" where
  "encodeDeleteMutation buf tableID pk = encodeCell (appendU16LE (buf @ [opDelete]) tableID) pk"

text \<open>\<open>set\<close> is the caller's callback; \<open>'s\<close> is the state it works on.\<close>

definition decodeUpdateMutation ::
    "bytes \<Rightarrow> (nat \<Rightarrow> Value \<Rightarrow> 's \<Rightarrow> 's res) \<Rightarrow> 's \<Rightarrow> (Value \<times> 's) res" where
  "decodeUpdateMutation body setf st =
     andThen (decodeCell body) (\<lambda>(pk, n).
       let body = drop n body in
       if length body < 2 then Inl ErrWALCorrupt
       else let nsets = unat (le_get (take 2 body) :: uint16); body = drop 2 body in
         andThen (for_n nsets (\<lambda>(st, body).
             if length body < 2 then Inl ErrWALCorrupt
             else let ord = unat (le_get (take 2 body) :: uint16); body = drop 2 body in
               andThen (decodeCell body) (\<lambda>(v, m).
                 andThen (setf ord v st) (\<lambda>st. Inr (st, drop m body)))) (st, body))
           (\<lambda>(st, body). if length body \<noteq> 0 then Inl ErrWALCorrupt else Inr (pk, st)))"

definition decodeDeleteBody :: "bytes \<Rightarrow> Value res" where
  "decodeDeleteBody body =
     andThen (decodeCell body) (\<lambda>(pk, n). if n \<noteq> length body then Inl ErrWALCorrupt else Inr pk)"

section \<open>Transactions\<close>

definition encodeTxn :: "bytes \<Rightarrow> bytes list \<Rightarrow> bytes" where
  "encodeTxn buf muts =
     foldl (\<lambda>buf m. appendU32LE buf (word_of_nat (length m)) @ m)
       (appendU16LE buf (word_of_nat (length muts))) muts"

definition forEachTxnMutation :: "bytes \<Rightarrow> (bytes \<Rightarrow> 's \<Rightarrow> 's res) \<Rightarrow> 's \<Rightarrow> 's res" where
  "forEachTxnMutation payload app st =
     (if length payload < 2 then Inl ErrWALCorrupt
      else let nmut = unat (le_get (take 2 payload) :: uint16) in
        andThen (for_n nmut (\<lambda>(st, off).
            if off + 4 > length payload then Inl ErrWALCorrupt
            else let mlen = unat (le_get (take 4 (drop off payload)) :: uint32); off = off + 4 in
              if off + mlen > length payload then Inl ErrWALCorrupt
              else andThen (app (take mlen (drop off payload)) st) (\<lambda>st. Inr (st, off + mlen))) (st, 2))
          (\<lambda>(st, off). if off \<noteq> length payload then Inl ErrWALCorrupt else Inr st))"

section \<open>Self-delimiting codecs\<close>

text \<open>
  An encoder that appends, and a decoder that answers with the bytes it used: reading back what was
  written, whatever follows it, and never using more than it was given.
\<close>

locale codec =
  fixes enc :: "bytes \<Rightarrow> 'a \<Rightarrow> bytes" and dec :: "bytes \<Rightarrow> ('a \<times> nat) res" and valid :: "'a \<Rightarrow> bool"
  assumes enc_append: "enc buf x = buf @ enc [] x"
    and dec_enc: "valid x \<Longrightarrow> dec (enc [] x @ rest) = Inr (x, length (enc [] x))"
    and dec_bound: "dec b = Inr (x, n) \<Longrightarrow> 0 < n \<and> n \<le> length b"
    and dec_local: "dec b = Inr (x, n) \<Longrightarrow> dec (b @ rest) = Inr (x, n)"
    and dec_valid: "dec b = Inr (x, n) \<Longrightarrow> valid x"
begin

lemma foldl_enc: "foldl enc buf xs = buf @ concat (map (enc []) xs)"
proof (induction xs arbitrary: buf)
  case (Cons x xs)
  then show ?case using enc_append [of buf x] by simp
qed simp

text \<open>Reading a sequence of items back, at an offset of a larger input.\<close>

lemma for_n_dec:
  assumes "\<forall>x \<in> set xs. valid x" and "drop off b = concat (map (enc []) xs) @ rest"
  shows "for_n (length xs) (\<lambda>(acc, off). andThen (dec (drop off b)) (\<lambda>(v, sz). Inr (acc @ [v], off + sz))) (acc, off) =
    Inr (acc @ xs, off + length (concat (map (enc []) xs)))"
  using assms
proof (induction xs arbitrary: acc off)
  case Nil
  then show ?case by simp
next
  case (Cons x xs)
  have "dec (drop off b) = Inr (x, length (enc [] x))" using Cons.prems by (simp add: dec_enc)
  moreover have "drop (off + length (enc [] x)) b = concat (map (enc []) xs) @ rest"
    using arg_cong [OF Cons.prems(2), of "drop (length (enc [] x))"] by (simp add: add.commute)
  ultimately show ?case using Cons.IH [of "off + length (enc [] x)" "acc @ [x]"] Cons.prems(1) by (simp add: add.assoc)
qed

text \<open>A cut-off item is an error.\<close>

lemma dec_truncated:
  assumes "valid x" and "enc [] x = p @ q" and "q \<noteq> []"
  shows "\<exists>e. dec p = Inl e"
proof (cases "dec p")
  case (Inr r)
  obtain y n where r: "r = (y, n)" by (cases r)
  then have "dec (p @ q) = Inr (y, n)" "n \<le> length p" using Inr dec_local dec_bound by auto
  moreover have "dec (p @ q) = Inr (x, length (p @ q))" using dec_enc [OF assms(1), of "[]"] assms(2) by simp
  ultimately have "length q = 0" by auto
  with assms(3) show ?thesis by simp
qed simp

end


definition encodable :: "Value \<Rightarrow> bool" where
  "encodable v \<longleftrightarrow> wf_Value v \<and>
     ((Kind v = KindString \<or> Kind v = KindBytes) \<longrightarrow> unat (w0 v) < 2 ^ 32)"

lemma encodable_wf [simp]: "encodable v \<Longrightarrow> wf_Value v"
  by (simp add: encodable_def)

lemma encodable_cases:
  assumes "encodable v"
  obtains (Null) "v = NullV" | (Int) i where "v = IntV i" | (Bool) b where "v = BoolV b"
    | (Str) t where "v = StrV t" "length t < 2 ^ 32" | (Bytes) t where "v = BytesV t" "length t < 2 ^ 32"
    | (UUID) u where "v = UUIDVal u" "uuid_ok u"
proof -
  have "wf_Value v" using assms by simp
  then show thesis
  proof (cases rule: wf_Value_cases)
    case (Str t)
    then have "length t < 2 ^ 32" using assms by (auto simp: encodable_def StrV_def unat_length_small split: if_splits)
    with Str that show ?thesis by blast
  next
    case (Bytes t)
    then have "length t < 2 ^ 32" using assms by (auto simp: encodable_def BytesV_def unat_length_small split: if_splits)
    with Bytes that show ?thesis by blast
  qed (use that in blast)+
qed

lemma encodable_mk [simp]:
  "encodable NullV" "encodable (IntV i)" "encodable (BoolV b)" "encodable (UUIDVal u)"
  "length t < 2 ^ 32 \<Longrightarrow> encodable (StrV t)" "length t < 2 ^ 32 \<Longrightarrow> encodable (BytesV t)"
  by (auto simp: encodable_def StrV_def BytesV_def unat_length_small wf_Value_def mkValue_defs boolToWord_def split: if_splits)

lemmas cell_defs = encodeCell_def decodeCell_def Let_def appendU32LE_def

lemma encodeCell_append: "encodeCell buf v = buf @ encodeCell [] v"
  by (cases "Kind v") (simp_all add: cell_defs)

lemma decodeCell_encode:
  assumes "encodable v"
  shows "decodeCell (encodeCell [] v @ rest) = Inr (v, length (encodeCell [] v))"
  using assms
proof (cases rule: encodable_cases)
  case (UUID u)
  then show ?thesis by (simp add: cell_defs uuid_ok_def)
qed (simp_all add: cell_defs unat_word_of_nat_small)

lemma decodeCell_bound: "decodeCell b = Inr (v, n) \<Longrightarrow> 0 < n \<and> n \<le> length b"
  by (cases b) (auto simp: decodeCell_def Let_def Suc_le_eq split: if_splits)

lemma decodeCell_local:
  assumes "decodeCell b = Inr (v, n)"
  shows "decodeCell (b @ rest) = Inr (v, n)"
proof (cases b)
  case (Cons c t)
  have "decodeCell (c # t @ rest) = Inr (v, n)"
    using assms unfolding Cons
    by (auto simp: decodeCell_def Let_def nth_append split: if_splits)
  then show ?thesis using Cons by simp
qed (use assms in \<open>simp add: decodeCell_def\<close>)

lemma unat_le_get4: "unat (le_get (take 4 b) :: uint32) < 2 ^ 32"
  using unsigned_less [of "le_get (take 4 b) :: uint32"] by simp

lemma decodeCell_valid: "decodeCell b = Inr (v, n) \<Longrightarrow> encodable v"
  using unat_le_get4 [of "drop 1 b"] 
  by (auto simp: decodeCell_def Let_def split: if_splits intro!: encodable_mk)

lemma decodeCell_error: "decodeCell b = Inl e \<Longrightarrow> e = ErrWALCorrupt"
  by (auto simp: decodeCell_def Let_def split: if_splits)

interpretation cell: codec encodeCell decodeCell encodable
  using decodeCell_bound decodeCell_local decodeCell_valid
  by unfold_locales (auto simp: encodeCell_append [symmetric] decodeCell_encode)


section \<open>Round trips\<close>

lemma encodeRow_eq: "encodeRow buf row = buf @ le_put 2 (word_of_nat (length row) :: uint16) @ concat (map (encodeCell []) row)"
  by (simp add: encodeRow_def appendU16LE_def cell.foldl_enc)

lemma decodeRow_encode:
  assumes "\<forall>v \<in> set row. encodable v" and "length row < 2 ^ 16"
  shows "decodeRow (encodeRow [] row) = Inr row"
proof -
  let ?b = "encodeRow [] row"
  have "drop 2 ?b = concat (map (encodeCell []) row) @ []" by (simp add: encodeRow_eq)
  note loop = cell.for_n_dec [OF assms(1) this, of "[]"]
  have "unat (le_get (take 2 ?b) :: uint16) = length row" using assms(2) by (simp add: encodeRow_eq)
  with loop show ?thesis by (simp add: decodeRow_def encodeRow_eq Let_def)
qed

lemma decodeDeleteBody_encode: "encodable pk \<Longrightarrow> decodeDeleteBody (encodeCell [] pk) = Inr pk"
  using cell.dec_enc [of pk "[]"] by (simp add: decodeDeleteBody_def)

text \<open>What an UPDATE record carries: the changed columns with their new cells, in order.\<close>

abbreviation update_item :: "nat \<times> Value \<Rightarrow> bytes" where
  "update_item x \<equiv> le_put 2 (word_of_nat (fst x) :: uint16) @ encodeCell [] (snd x)"

lemma encodeUpdate_eq:
  "encodeUpdateMutation [] tableID pk ords row =
     opUpdate # le_put 2 tableID @ encodeCell [] pk @ le_put 2 (word_of_nat (length ords) :: uint16) @
     concat (map update_item (map (\<lambda>ord. (ord, row ! ord)) ords))"
proof -
  have "foldl (\<lambda>buf ord. encodeCell (appendU16LE buf (word_of_nat ord)) (row ! ord)) buf ords =
      buf @ concat (map update_item (map (\<lambda>ord. (ord, row ! ord)) ords))" for buf
  proof (induction ords arbitrary: buf)
    case (Cons x ords)
    have "encodeCell (appendU16LE buf (word_of_nat x)) (row ! x) = buf @ update_item (x, row ! x)"
      by (subst encodeCell_append) (simp add: appendU16LE_def)
    with Cons show ?case by simp
  qed simp
  then show ?thesis
    by (simp add: encodeUpdateMutation_def Let_def appendU16LE_def encodeCell_append [of "_ # _"])
qed

lemma decodeUpdate_loop:
  assumes "\<forall>(ord, v) \<in> set xs. ord < 2 ^ 16 \<and> encodable v"
  shows "for_n (length xs) (\<lambda>(st, body).
             if length body < 2 then Inl ErrWALCorrupt
             else let ord = unat (le_get (take 2 body) :: uint16); body = drop 2 body in
               andThen (decodeCell body) (\<lambda>(v, m).
                 andThen (setf ord v st) (\<lambda>st. Inr (st, drop m body)))) (st, concat (map update_item xs)) =
    andThen (for_each (\<lambda>(ord, v). setf ord v) xs st) (\<lambda>st. Inr (st, []))"
  using assms
proof (induction xs arbitrary: st)
  case (Cons x xs)
  obtain ord v where x: "x = (ord, v)" by (cases x)
  with Cons.prems have ok: "ord < 2 ^ 16" "encodable v" by auto
  then show ?case
    using Cons.IH Cons.prems
    by (cases "setf ord v st") (simp_all add: x Let_def cell.dec_enc)
qed simp

lemma decodeUpdate_encode:
  assumes "encodable pk" and "\<forall>ord \<in> set ords. ord < 2 ^ 16 \<and> encodable (row ! ord)" and "length ords < 2 ^ 16"
  shows "decodeUpdateMutation (drop 3 (encodeUpdateMutation [] tableID pk ords row)) setf st =
    andThen (for_each (\<lambda>(ord, v). setf ord v) (map (\<lambda>ord. (ord, row ! ord)) ords) st) (\<lambda>st. Inr (pk, st))"
proof -
  let ?xs = "map (\<lambda>ord. (ord, row ! ord)) ords"
  have "\<forall>(ord, v) \<in> set ?xs. ord < 2 ^ 16 \<and> encodable v" using assms(2) by auto
  note loop = decodeUpdate_loop [OF this, of setf st]
  have n: "unat (le_get (le_put 2 (word_of_nat (length ords) :: uint16)) :: uint16) = length ?xs"
    using assms(3) by simp
  show ?thesis
    unfolding encodeUpdate_eq
    using loop assms(1)
    by (simp add: decodeUpdateMutation_def cell.dec_enc n [simplified] Let_def andThen_assoc)
qed

text \<open>Transactions: the callback sees the sub-mutations in order.\<close>

lemma encodeTxn_eq:
  "encodeTxn buf muts = buf @ le_put 2 (word_of_nat (length muts) :: uint16) @
     concat (map (\<lambda>m. le_put 4 (word_of_nat (length m) :: uint32) @ m) muts)"
proof -
  have "foldl (\<lambda>buf m. appendU32LE buf (word_of_nat (length m)) @ m) buf muts =
      buf @ concat (map (\<lambda>m. le_put 4 (word_of_nat (length m) :: uint32) @ m) muts)" for buf
    by (induction muts arbitrary: buf) (simp_all add: appendU32LE_def)
  then show ?thesis by (simp add: encodeTxn_def appendU16LE_def)
qed

abbreviation txn_items :: "bytes list \<Rightarrow> bytes" where
  "txn_items muts \<equiv> concat (map (\<lambda>m. le_put 4 (word_of_nat (length m) :: uint32) @ m) muts)"

lemma forEachTxn_loop:
  assumes "\<forall>m \<in> set muts. length m < 2 ^ 32" and "drop off payload = txn_items muts @ rest" and "off \<le> length payload"
  shows "for_n (length muts) (\<lambda>(st, off).
            if off + 4 > length payload then Inl ErrWALCorrupt
            else let mlen = unat (le_get (take 4 (drop off payload)) :: uint32); off = off + 4 in
              if off + mlen > length payload then Inl ErrWALCorrupt
              else andThen (app (take mlen (drop off payload)) st) (\<lambda>st. Inr (st, off + mlen))) (st, off) =
    andThen (for_each app muts st) (\<lambda>st. Inr (st, length payload - length rest))"
  using assms
proof (induction muts arbitrary: st off)
  case Nil
  then show ?case by (auto dest!: arg_cong [of _ _ length])
next
  case (Cons m muts)
  let ?rest = "txn_items muts @ rest"
  have d: "drop off payload = le_put 4 (word_of_nat (length m) :: uint32) @ m @ ?rest"
    using Cons.prems(2) by simp
  have len: "length payload = off + (4 + length m + length ?rest)"
    using arg_cong [OF d, of length] Cons.prems(3) by simp
  have m: "unat (le_get (take 4 (drop off payload)) :: uint32) = length m"
    using Cons.prems(1) by (simp add: d)
  have d4: "drop (off + 4) payload = m @ ?rest"
    using arg_cong [OF d, of "drop 4"] by (simp add: add.commute)
  have dm: "drop (off + 4 + length m) payload = ?rest"
    using arg_cong [OF d4, of "drop (length m)"] by (simp add: add.commute add.left_commute)
  show ?case
    using Cons.IH [OF _ dm] Cons.prems(1)
    by (cases "app m st") (simp_all add: m d4 len Let_def)
qed

text \<open>
  The count field is 16 bits wide: the walk sees the number of sub-mutations modulo 65536, and stops
  short of the end of the payload when there are more.
\<close>

lemma forEachTxn_any:
  assumes "\<forall>m \<in> set muts. length m < 2 ^ 32"
  shows "forEachTxnMutation (encodeTxn [] muts) app st =
    andThen (for_each app (take (length muts mod 2 ^ 16) muts) st) (\<lambda>st. if length muts < 2 ^ 16 then Inr st else Inl ErrWALCorrupt)"
proof -
  let ?p = "encodeTxn [] muts" and ?n = "length muts mod 2 ^ 16"
  have items: "drop 2 ?p = txn_items (take ?n muts) @ txn_items (drop ?n muts)" "2 \<le> length ?p"
    by (simp_all add: encodeTxn_eq flip: concat_append map_append)
  have small: "\<forall>m \<in> set (take ?n muts). length m < 2 ^ 32" using assms by (auto dest: in_set_takeD)
  have n: "length (take ?n muts) = ?n" by (simp add: mod_less_eq_dividend min_absorb2)
  note loop = forEachTxn_loop [OF small items, of app st, unfolded n Let_def]
  have count: "unat (le_get (take 2 ?p) :: uint16) = ?n" by (simp add: encodeTxn_eq unat_of_nat)
  have rest: "length (txn_items (drop ?n muts)) = 0 \<longleftrightarrow> length muts < 2 ^ 16"
  proof
    assume "length (txn_items (drop ?n muts)) = 0"
    moreover have "length (txn_items ms) = 0 \<longrightarrow> ms = []" for ms by (cases ms) (simp_all del: length_0_conv)
    ultimately have "drop ?n muts = []" by blast
    then have "length muts \<le> ?n" by simp
    then show "length muts < 2 ^ 16" by (rule le_less_trans) simp
  qed simp
  have "length (txn_items (drop ?n muts)) \<le> length ?p" using arg_cong [OF items(1), of length] by simp
  with rest have end_iff: "length ?p - length (txn_items (drop ?n muts)) = length ?p \<longleftrightarrow> length muts < 2 ^ 16"
    using items(2) by linarith
  show ?thesis unfolding forEachTxnMutation_def Let_def count loop using items(2) end_iff
    by (cases "for_each app (take ?n muts) st") simp_all
qed

lemma forEachTxn_encode:
  assumes "\<forall>m \<in> set muts. length m < 2 ^ 32" and "length muts < 2 ^ 16"
  shows "forEachTxnMutation (encodeTxn [] muts) app st = for_each app muts st"
  using assms by (cases "for_each app muts st") (simp_all add: forEachTxn_any)

section \<open>Properties\<close>

text \<open>
  C7.  Row round trip: the row of an INSERT record decodes to exactly the row that was journaled,
  for every row of at most 65535 cells whose strings and byte strings are shorter than 4 GiB.
\<close>

theorem row_roundtrip:
  assumes "\<forall>v \<in> set row. encodable v" and "length row < 2 ^ 16"
  shows "decodeRow (drop 3 (encodeInsertMutation [] tableID row)) = Inr row"
proof -
  have "drop 3 (encodeInsertMutation [] tableID row) = encodeRow [] row"
    by (simp add: encodeInsertMutation_def encodeRow_eq appendU16LE_def)
  with decodeRow_encode [OF assms] show ?thesis by simp
qed

theorem row_roundtrip_witness:
  "decodeRow (drop 3 (encodeInsertMutation [] 7 [UUIDVal (replicate 16 1), IntV (- 1), StrV [104, 105], NullV, BoolV True])) =
     Inr [UUIDVal (replicate 16 1), IntV (- 1), StrV [104, 105], NullV, BoolV True]"
  by (rule row_roundtrip) auto

text \<open>
  C8.  A record cut off inside a cell never decodes: every proper prefix of an encoded cell is
  rejected with \<open>ErrWALCorrupt\<close>; and whatever a decoder accepts lies inside its input and is a
  well-formed cell that can be encoded again.
\<close>

theorem cell_truncation_detected:
  assumes "encodable v" and "strict_prefix p (encodeCell [] v)"
  shows "decodeCell p = Inl ErrWALCorrupt \<and> (decodeCell b = Inr (x, n) \<longrightarrow> n \<le> length b \<and> encodable x)"
proof -
  obtain q where "encodeCell [] v = p @ q" "q \<noteq> []"
    using assms(2) by (auto simp: strict_prefix_def prefix_def)
  then obtain e where "decodeCell p = Inl e" using cell.dec_truncated [OF assms(1)] by blast
  then have "decodeCell p = Inl ErrWALCorrupt" using decodeCell_error by blast
  moreover have "decodeCell b = Inr (x, n) \<longrightarrow> n \<le> length b \<and> encodable x"
    using decodeCell_bound decodeCell_valid by blast
  ultimately show ?thesis by blast
qed

theorem cell_truncation_detected_witness:
  "strict_prefix [2, 3, 0, 0, 0, 97] (encodeCell [] (StrV [97, 98, 99])) \<and>
   decodeCell [2, 3, 0, 0, 0, 97] = Inl ErrWALCorrupt"
proof -
  have "encodeCell [] (StrV [97, 98, 99]) = [2, 3, 0, 0, 0, 97, 98, 99]"
    by (simp add: cell_defs le_put_def upt_rec drop_bit_eq_div)
  then have "strict_prefix [2, 3, 0, 0, 0, 97] (encodeCell [] (StrV [97, 98, 99]))" by simp
  then show ?thesis using cell_truncation_detected [of "StrV [97, 98, 99]"] by simp
qed

text \<open>
  C9.  Transaction round trip: walking the payload of a transaction record hands the callback
  exactly the sub-mutations that were framed, in order, stopping at the first error, for at most
  65535 sub-mutations shorter than 4 GiB.
\<close>

theorem txn_roundtrip:
  assumes "\<forall>m \<in> set muts. length m < 2 ^ 32" and "length muts < 2 ^ 16"
  shows "forEachTxnMutation (encodeTxn [] muts) app st = for_each app muts st"
  using assms by (rule forEachTxn_encode)

theorem txn_roundtrip_witness:
  "forEachTxnMutation (encodeTxn [] [[1, 2], [], [3]]) (\<lambda>m st. Inr (st @ [m])) [] = Inr [[1, 2], [], [3]]"
  using txn_roundtrip [of "[[1, 2], [], [3]]" "\<lambda>m st. Inr (st @ [m])" "[]"] by simp



end
