(* ===== verification/WalLog.thy ===== *)
theory WalLog
  imports MutationCodec "HOL-Library.AList"
begin

text \<open>
  \<open>wal.go\<close> and \<open>wal_segment.go\<close>: the record envelope with its checksum, the pending buffer that is
  sealed into numbered segments, the scan of a segment and the replay of the undrained tail.

  The disk is the list of segments in the directory, number and content; a segment appears by an
  atomic rename, so it is never seen half-written.  What the file system answers to each seal is
  part of the state (\<open>wl_io\<close>): success, a failure before the rename took effect, or a failure of the
  directory sync after it.
\<close>

section \<open>CRC-32C\<close>

text \<open>\<open>hash/crc32\<close> with the Castagnoli polynomial, bit by bit.\<close>

definition crcPoly :: uint32 where "crcPoly = 0x82F63B78"

definition crc_bit :: "uint32 \<Rightarrow> uint32" where
  "crc_bit c = (if bit c 0 then drop_bit 1 c XOR crcPoly else drop_bit 1 c)"

definition crc_byte :: "uint32 \<Rightarrow> byte \<Rightarrow> uint32" where
  "crc_byte c b = (crc_bit ^^ 8) (c XOR ucast b)"

definition crc32_Update :: "uint32 \<Rightarrow> bytes \<Rightarrow> uint32" where
  "crc32_Update crc p = NOT (foldl crc_byte (NOT crc) p)"

definition crc32_Checksum :: "bytes \<Rightarrow> uint32" where
  "crc32_Checksum p = crc32_Update 0 p"

section \<open>Records\<close>

definition walMagic :: uint16 where "walMagic = 0x485A"
definition walVersion :: byte where "walVersion = 2"
definition recMutation :: byte where "recMutation = 1"
definition recTxn :: byte where "recTxn = 2"
definition recCheckpoint :: byte where "recCheckpoint = 3"
definition recCreateTable :: byte where "recCreateTable = 4"
definition recDropTable :: byte where "recDropTable = 5"
definition flushMaxBytes :: nat where "flushMaxBytes = 1048576"

text \<open>The bytes \<open>writeRecord\<close> appends: header, payload, checksum of both.\<close>

definition recordHeader :: "byte \<Rightarrow> bytes \<Rightarrow> bytes" where
  "recordHeader recType payload =
     le_put 2 walMagic @ [recType, walVersion] @ le_put 4 (word_of_nat (length payload) :: uint32)"

definition frame_record :: "byte \<Rightarrow> bytes \<Rightarrow> bytes" where
  "frame_record recType payload =
     (let body = recordHeader recType payload @ payload in body @ le_put 4 (crc32_Checksum body))"

section \<open>The log\<close>

datatype ioResult = IoOk | IoFails err | IoDirSyncFails err

record wal =
  wl_buf :: bytes
  wl_disk :: "(nat \<times> bytes) list"
  wl_seg :: nat
  wl_recs :: nat
  wl_err :: "err option"
  wl_failWrites :: bool
  wl_closed :: "err option option"
  wl_io :: "nat \<Rightarrow> ioResult"
  wl_tick :: nat

definition listSegments :: "(nat \<times> bytes) list \<Rightarrow> nat list" where
  "listSegments disk = sort (map fst disk)"

definition scanMaxSeg :: "(nat \<times> bytes) list \<Rightarrow> nat" where
  "scanMaxSeg disk = (let segs = listSegments disk in if length segs = 0 then 0 else last segs)"

definition openWAL :: "(nat \<times> bytes) list \<Rightarrow> (nat \<Rightarrow> ioResult) \<Rightarrow> wal" where
  "openWAL disk io = \<lparr>wl_buf = [], wl_disk = disk, wl_seg = scanMaxSeg disk, wl_recs = 0, wl_err = None,
     wl_failWrites = False, wl_closed = None, wl_io = io, wl_tick = 0\<rparr>"

text \<open>\<open>os.Rename\<close> onto the final path.\<close>

definition putSegment :: "nat \<Rightarrow> wal \<Rightarrow> wal" where
  "putSegment n w = w\<lparr>wl_disk := AList.update n (wl_buf w) (wl_disk w)\<rparr>"

definition flushLocked :: "wal \<Rightarrow> err option \<times> wal" where
  "flushLocked w = (case wl_err w of
       Some e \<Rightarrow> (Some e, w)
     | None \<Rightarrow>
         if length (wl_buf w) = 0 then (None, w)
         else let n = wl_seg w + 1; r = wl_io w (wl_tick w); w = w\<lparr>wl_tick := wl_tick w + 1\<rparr> in
           (case r of
              IoFails e \<Rightarrow> (Some e, w\<lparr>wl_err := Some e\<rparr>)
            | IoDirSyncFails e \<Rightarrow> (Some e, (putSegment n w)\<lparr>wl_err := Some e\<rparr>)
            | IoOk \<Rightarrow> (None, (putSegment n w)\<lparr>wl_seg := n, wl_buf := []\<rparr>)))"

definition writeRecord :: "byte \<Rightarrow> bytes \<Rightarrow> wal \<Rightarrow> err option \<times> wal" where
  "writeRecord recType payload w = (case wl_err w of
       Some e \<Rightarrow> (Some e, w)
     | None \<Rightarrow>
         if wl_failWrites w then
           (let e = ErrOther ''wal: injected write failure (test)'' in (Some e, w\<lparr>wl_err := Some e\<rparr>))
         else
           (let w = w\<lparr>wl_buf := wl_buf w @ frame_record recType payload, wl_recs := wl_recs w + 1\<rparr> in
            if length (wl_buf w) \<ge> flushMaxBytes then flushLocked w else (None, w)))"

definition wal_flush :: "wal \<Rightarrow> err option \<times> wal" where
  "wal_flush w = flushLocked w"

text \<open>The flusher skips a log in error.\<close>

definition flushTick :: "wal \<Rightarrow> wal" where
  "flushTick w = (if wl_err w = None then snd (flushLocked w) else w)"

text \<open>\<open>closeOnce\<close> remembers the result of the first call.\<close>

definition wal_close :: "wal \<Rightarrow> err option \<times> wal" where
  "wal_close w = (case wl_closed w of
       Some r \<Rightarrow> (r, w)
     | None \<Rightarrow>
         let (r, w) = flushLocked w;
             w = (if wl_err w = None then w\<lparr>wl_err := Some ErrClosed\<rparr> else w)
         in (r, w\<lparr>wl_closed := Some r\<rparr>))"

section \<open>Reading segments\<close>

text \<open>
  \<open>scanRecords\<close>: the callback's effect is on the state; the state is kept when the scan stops with an
  error, since recovery goes on with the records before the break.
\<close>

function scan_loop :: "bytes \<Rightarrow> (byte \<Rightarrow> bytes \<Rightarrow> 's \<Rightarrow> 's res) \<Rightarrow> 's \<Rightarrow> err option \<times> 's" where
  "scan_loop b app st =
     (if length b = 0 then (None, st)
      else if length b < 8 then (Some errWALFraming, st)
      else
        let hdr = take 8 b; rest = drop 8 b;
            magic = le_get (take 2 hdr) :: uint16; recType = hdr ! 2; version = hdr ! 3;
            len = unat (le_get (drop 4 hdr) :: uint32)
        in
        if magic \<noteq> walMagic then (Some errWALFraming, st)
        else if version \<noteq> walVersion then (Some ErrWALVersion, st)
        else if len + 4 > length rest then (Some errWALFraming, st)
        else
          let payload = take len rest; crc = le_get (take 4 (drop len rest)) :: uint32 in
          if crc32_Update (crc32_Update 0 hdr) payload \<noteq> crc then (Some errWALFraming, st)
          else case app recType payload st of
            Inl e \<Rightarrow> (Some e, st)
          | Inr st \<Rightarrow> scan_loop (drop (len + 4) rest) app st)"
  by pat_completeness auto

termination
  by (relation "measure (\<lambda>(b, app, st). length b)") auto

declare scan_loop.simps [simp del]

definition scanRecords :: "bytes \<Rightarrow> (byte \<Rightarrow> bytes \<Rightarrow> 's \<Rightarrow> 's res) \<Rightarrow> 's \<Rightarrow> err option \<times> 's" where
  "scanRecords content app st = scan_loop content app st"

text \<open>
  \<open>replaySegments\<close>: ascending numbers above \<open>minSeg\<close>, contiguous from \<open>minSeg + 1\<close>; a framing break is
  reported through \<open>onCorrupt\<close> and the next segment goes on, every other error stops.
\<close>

fun replay_loop :: "(nat \<times> bytes) list \<Rightarrow> nat \<Rightarrow> nat \<Rightarrow> (byte \<Rightarrow> bytes \<Rightarrow> 's \<Rightarrow> 's res) \<Rightarrow> (nat \<Rightarrow> err \<Rightarrow> 's \<Rightarrow> 's) \<Rightarrow>
    nat list \<Rightarrow> 's \<Rightarrow> err option \<times> 's" where
  "replay_loop disk minSeg expected app onCorrupt [] st = (None, st)"
| "replay_loop disk minSeg expected app onCorrupt (n # segs) st =
     (if n \<le> minSeg then replay_loop disk minSeg expected app onCorrupt segs st
      else if n \<noteq> expected then (Some errWALMissingSegment, st)
      else case scanRecords (the (map_of disk n)) app st of
        (None, st) \<Rightarrow> replay_loop disk minSeg (n + 1) app onCorrupt segs st
      | (Some e, st) \<Rightarrow>
          if e = errWALFraming then replay_loop disk minSeg (n + 1) app onCorrupt segs (onCorrupt n e st)
          else (Some e, st))"

definition replaySegments :: "(nat \<times> bytes) list \<Rightarrow> nat \<Rightarrow> (byte \<Rightarrow> bytes \<Rightarrow> 's \<Rightarrow> 's res) \<Rightarrow> (nat \<Rightarrow> err \<Rightarrow> 's \<Rightarrow> 's) \<Rightarrow>
    's \<Rightarrow> err option \<times> 's" where
  "replaySegments disk minSeg app onCorrupt st =
     replay_loop disk minSeg (minSeg + 1) app onCorrupt (listSegments disk) st"

definition replayFrom :: "(nat \<times> bytes) list \<Rightarrow> nat \<Rightarrow> (byte \<Rightarrow> bytes \<Rightarrow> 's \<Rightarrow> 's res) \<Rightarrow> (nat \<Rightarrow> err \<Rightarrow> 's \<Rightarrow> 's) \<Rightarrow>
    's \<Rightarrow> err option \<times> 's" where
  "replayFrom disk minSeg app onCorrupt st = replaySegments disk minSeg app onCorrupt st"

definition removeDrainedSegments :: "nat \<Rightarrow> wal \<Rightarrow> wal" where
  "removeDrainedSegments minSeg w = w\<lparr>wl_disk := filter (\<lambda>(n, c). \<not> n \<le> minSeg) (wl_disk w)\<rparr>"

definition sealedSegments :: "wal \<Rightarrow> nat list" where
  "sealedSegments w = listSegments (wl_disk w)"

section \<open>Segment names\<close>

definition segPrefix :: bytes where "segPrefix = str ''seg-''"
definition segSuffix :: bytes where "segSuffix = str ''.wal''"
definition segTmpSuffix :: bytes where "segTmpSuffix = str ''.wal.tmp''"

text \<open>\<open>%010d\<close>.\<close>

definition pad10 :: "bytes \<Rightarrow> bytes" where
  "pad10 s = replicate (10 - length s) 48 @ s"

definition segName :: "nat \<Rightarrow> bytes" where
  "segName n = segPrefix @ pad10 (FormatUint n) @ segSuffix"

definition segNumber :: "bytes \<Rightarrow> nat option" where
  "segNumber name =
     (if \<not> prefix segPrefix name \<or> \<not> suffix segSuffix name then None
      else case ParseUint (take (length name - length segSuffix - length segPrefix) (drop (length segPrefix) name)) of
        Inl _ \<Rightarrow> None | Inr n \<Rightarrow> Some n)"

definition isSegmentTemp :: "bytes \<Rightarrow> bool" where
  "isSegmentTemp name =
     (if \<not> prefix segPrefix name \<or> \<not> suffix segTmpSuffix name then False
      else case ParseUint (take (length name - length segTmpSuffix - length segPrefix) (drop (length segPrefix) name)) of
        Inl _ \<Rightarrow> False | Inr _ \<Rightarrow> True)"

lemma segNumber_segName: "n < 2 ^ 64 \<Longrightarrow> segNumber (segName n) = Some n"
proof -
  assume n: "n < 2 ^ 64"
  have zeros: "parseDigits 0 (replicate k 48 @ s) = parseDigits 0 s" for k s
    by (induction k) (simp_all add: isDigit_def)
  have "pad10 (FormatUint n) \<noteq> []" using parseDigits_FormatUint [OF n] by (auto simp: pad10_def FormatUint.simps [of n])
  then have "ParseUint (pad10 (FormatUint n)) = Inr n"
    using parseDigits_FormatUint [OF n] by (simp add: ParseUint_def pad10_def zeros)
  then show ?thesis by (simp add: segNumber_def segName_def suffix_def)
qed

lemma isSegmentTemp_segName: "\<not> isSegmentTemp (segName n)"
proof -
  have "\<not> suffix segTmpSuffix (x @ segSuffix)" for x
  proof
    assume "suffix segTmpSuffix (x @ segSuffix)"
    then obtain z where "x @ segSuffix = z @ segTmpSuffix" by (auto simp: suffix_def)
    then have "last (x @ segSuffix) = last (z @ segTmpSuffix)" by simp
    then show False by (simp add: segSuffix_def segTmpSuffix_def str_def)
  qed
  from this [of "segPrefix @ pad10 (FormatUint n)"] show ?thesis by (simp add: isSegmentTemp_def segName_def)
qed

section \<open>The checksum\<close>

lemma crc_Update_append: "crc32_Update (crc32_Update c a) b = crc32_Update c (a @ b)"
  by (simp add: crc32_Update_def)

lemma xor_cancel: "a XOR k = b XOR (k :: uint32) \<Longrightarrow> a = b"
  by (metis xor.assoc xor_self_eq xor.right_neutral)

text \<open>The bit step is a permutation: the top bit of the result tells which branch was taken.\<close>

lemma crc_bit_inj: "crc_bit c = crc_bit d \<Longrightarrow> c = d"
proof -
  assume eq: "crc_bit c = crc_bit d"
  have top: "bit (crc_bit x) 31 = bit x 0" for x
    using bit_imp_le_length [of x 32] by (auto simp: crc_bit_def bit_xor_iff bit_drop_bit_eq crcPoly_def)
  have low: "bit c 0 = bit d 0" using eq top by metis
  then have "drop_bit 1 c = drop_bit 1 d"
    using eq by (auto simp: crc_bit_def split: if_splits dest: xor_cancel)
  then have "bit c (Suc n) = bit d (Suc n)" for n
    by (metis bit_drop_bit_eq comp_apply plus_1_eq_Suc)
  with low show "c = d" by (intro bit_eqI) (metis not0_implies_Suc)
qed

lemma funpow_inj:
  fixes f :: "'a \<Rightarrow> 'a"
  assumes "\<And>x y. f x = f y \<Longrightarrow> x = y"
    and "(f ^^ n) x = (f ^^ n) y"
  shows "x = y"
  using assms(2) by (induction n) (auto dest: assms(1))

lemma crc_byte_inj: "crc_byte c b = crc_byte d b \<Longrightarrow> c = d" "crc_byte c b = crc_byte c b' \<Longrightarrow> b = b'"
proof -
  assume "crc_byte c b = crc_byte d b"
  then have "c XOR ucast b = d XOR ucast b" unfolding crc_byte_def using crc_bit_inj by (rule funpow_inj [rotated])
  then show "c = d" by (rule xor_cancel)
next
  assume "crc_byte c b = crc_byte c b'"
  then have "c XOR ucast b = c XOR ucast b'" unfolding crc_byte_def using crc_bit_inj by (rule funpow_inj [rotated])
  then have "ucast b XOR c = ucast b' XOR c" by (simp only: xor.commute)
  then have "(ucast b :: uint32) = ucast b'" by (rule xor_cancel)
  then have "(ucast (ucast b :: uint32) :: byte) = ucast (ucast b' :: uint32)" by (rule arg_cong)
  then show "b = b'" by (simp add: ucast_up_ucast_id is_up)
qed

lemma foldl_crc_inj: "foldl crc_byte c p = foldl crc_byte d p \<Longrightarrow> c = d"
  by (induction p arbitrary: c d) (auto dest: crc_byte_inj(1))

text \<open>Changing one byte of the input, anywhere, changes the checksum.\<close>

lemma crc_detects_byte:
  assumes "i < length p" and "p ! i \<noteq> x"
  shows "crc32_Checksum (p[i := x]) \<noteq> crc32_Checksum p"
proof
  assume eq: "crc32_Checksum (p[i := x]) = crc32_Checksum p"
  have p: "p = take i p @ p ! i # drop (Suc i) p" using assms(1) by (rule id_take_nth_drop)
  have p': "p[i := x] = take i p @ x # drop (Suc i) p" using assms(1) by (rule upd_conv_take_nth_drop)
  let ?c = "foldl crc_byte (NOT 0) (take i p)"
  have "foldl crc_byte (NOT 0) (p[i := x]) = foldl crc_byte (NOT 0) p"
    using eq by (simp add: crc32_Checksum_def crc32_Update_def)
  then have "foldl crc_byte (crc_byte ?c x) (drop (Suc i) p) = foldl crc_byte (crc_byte ?c (p ! i)) (drop (Suc i) p)"
    unfolding p' by (subst (asm) (3) p) simp
  then show False using foldl_crc_inj crc_byte_inj(2) assms(2) by metis
qed

section \<open>Scanning what was written\<close>

type_synonym rec = "byte \<times> bytes"

abbreviation frame_rec :: "rec \<Rightarrow> bytes" where
  "frame_rec r \<equiv> frame_record (fst r) (snd r)"

definition rec_ok :: "rec \<Rightarrow> bool" where
  "rec_ok r \<longleftrightarrow> length (snd r) < 2 ^ 32"

text \<open>Handing records to the callback until it fails.\<close>

fun feed :: "(byte \<Rightarrow> bytes \<Rightarrow> 's \<Rightarrow> 's res) \<Rightarrow> rec list \<Rightarrow> 's \<Rightarrow> err option \<times> 's" where
  "feed app [] st = (None, st)"
| "feed app (r # rs) st = (case app (fst r) (snd r) st of Inl e \<Rightarrow> (Some e, st) | Inr st \<Rightarrow> feed app rs st)"

lemma feed_append: "feed app (xs @ ys) st = (case feed app xs st of (None, st) \<Rightarrow> feed app ys st | (Some e, st) \<Rightarrow> (Some e, st))"
  by (induction xs arbitrary: st) (auto split: sum.split)

lemma length_recordHeader [simp]: "length (recordHeader t p) = 8"
  by (simp add: recordHeader_def)

lemma header_fields:
  assumes "length p < 2 ^ 32"
  shows "(le_get (take 2 (recordHeader t p)) :: uint16) = walMagic" "recordHeader t p ! 2 = t" "recordHeader t p ! 3 = walVersion"
    "unat (le_get (drop 4 (recordHeader t p)) :: uint32) = length p"
  using assms by (simp_all add: recordHeader_def nth_append le_get_put)

text \<open>The step of the scan on a header and the bytes after it.\<close>

lemma scan_step:
  assumes "length hdr = 8"
  shows "scan_loop (hdr @ rest) app st =
    (let len = unat (le_get (drop 4 hdr) :: uint32) in
     if (le_get (take 2 hdr) :: uint16) \<noteq> walMagic then (Some errWALFraming, st)
     else if hdr ! 3 \<noteq> walVersion then (Some ErrWALVersion, st)
     else if len + 4 > length rest then (Some errWALFraming, st)
     else if crc32_Checksum (hdr @ take len rest) \<noteq> le_get (take 4 (drop len rest)) then (Some errWALFraming, st)
     else case app (hdr ! 2) (take len rest) st of
       Inl e \<Rightarrow> (Some e, st) | Inr st \<Rightarrow> scan_loop (drop (len + 4) rest) app st)"
proof -
  have t: "take 8 (hdr @ rest) = hdr" "drop 8 (hdr @ rest) = rest" using assms by simp_all
  show ?thesis
    by (subst scan_loop.simps, unfold t) (use assms in \<open>simp add: Let_def crc_Update_append crc32_Checksum_def\<close>)
qed

lemma scan_frame:
  assumes "rec_ok r"
  shows "scan_loop (frame_rec r @ rest) app st =
    (case app (fst r) (snd r) st of Inl e \<Rightarrow> (Some e, st) | Inr st \<Rightarrow> scan_loop rest app st)"
proof -
  have len: "length (snd r) < 2 ^ 32" using assms by (simp add: rec_ok_def)
  let ?h = "recordHeader (fst r) (snd r)"
  have "frame_rec r @ rest = ?h @ (snd r @ le_put 4 (crc32_Checksum (?h @ snd r)) @ rest)" by (simp add: frame_record_def Let_def)
  then show ?thesis by (simp add: scan_step [of ?h] header_fields [OF len] le_get_put Let_def split: sum.split)
qed

lemma scan_records:
  assumes "\<forall>r \<in> set rs. rec_ok r"
  shows "scan_loop (concat (map frame_rec rs) @ rest) app st =
    (case feed app rs st of (None, st) \<Rightarrow> scan_loop rest app st | (Some e, st) \<Rightarrow> (Some e, st))"
  using assms by (induction rs arbitrary: st) (simp_all add: scan_frame split: sum.split)

lemma scan_nil [simp]: "scan_loop [] app st = (None, st)"
  by (simp add: scan_loop.simps)

text \<open>A record cut short.\<close>

lemma scan_truncated:
  assumes "rec_ok r" and "frame_rec r = p @ q" and "p \<noteq> []" and "q \<noteq> []"
  shows "scan_loop p app st = (Some errWALFraming, st)"
proof (cases "length p < 8")
  case True
  with assms(3) show ?thesis by (simp add: scan_loop.simps)
next
  case False
  have len: "length (snd r) < 2 ^ 32" using assms(1) by (simp add: rec_ok_def)
  let ?h = "recordHeader (fst r) (snd r)"
  let ?b = "snd r @ le_put 4 (crc32_Checksum (?h @ snd r))"
  have fr: "frame_rec r = ?h @ ?b" by (simp add: frame_record_def Let_def)
  define p' where "p' = drop 8 p"
  have "take 8 (p @ q) = ?h" "drop 8 (p @ q) = ?b" unfolding assms(2) [symmetric] fr by simp_all
  then have p': "p = ?h @ p'" "?b = p' @ q" using False append_take_drop_id [of 8 p] by (simp_all add: p'_def)
  have "length ?b = length p' + length q" using p'(2) by (metis length_append)
  then have "length p' < length (snd r) + 4" using assms(4) by simp
  then show ?thesis by (simp add: p'(1) scan_step [of ?h] header_fields [OF len] Let_def)
qed

lemma le_get_inj:
  assumes "8 * length a \<le> LENGTH('a::len)" and "length b = length a" and "(le_get a :: 'a word) = le_get b"
  shows "a = b"
proof -
  have "a = le_put (length a) (le_get a :: 'a word)" by (rule le_put_get [OF assms(1) refl, symmetric])
  also have "\<dots> = b" unfolding assms(3) by (rule le_put_get [OF assms(1,2)])
  finally show ?thesis .
qed

text \<open>One byte of a record changed: every position but the length field is decided.\<close>

lemma scan_corrupt:
  assumes "rec_ok r" and "i < length (frame_rec r)" and "frame_rec r ! i \<noteq> x" and "i < 4 \<or> 8 \<le> i"
  shows "scan_loop ((frame_rec r)[i := x] @ rest) app st =
    (Some (if i = 3 then ErrWALVersion else errWALFraming), st)"
proof -
  have len: "length (snd r) < 2 ^ 32" using assms(1) by (simp add: rec_ok_def)
  let ?h = "recordHeader (fst r) (snd r)" and ?p = "snd r"
  let ?c = "crc32_Checksum (?h @ ?p)"
  have fr: "frame_rec r = ?h @ ?p @ le_put 4 ?c" by (simp add: frame_record_def Let_def)
  note hf = header_fields [OF len, of "fst r"]
  have put: "length (le_put 4 ?c) = 4" by simp
  consider "i < 4" | "8 \<le> i" "i < 8 + length ?p" | "8 + length ?p \<le> i" using assms(4) by linarith
  then show ?thesis
  proof cases
    case 1
    let ?h' = "?h[i := x]"
    have upd: "(frame_rec r)[i := x] @ rest = ?h' @ (?p @ le_put 4 ?c @ rest)" using 1 by (simp add: fr list_update_append)
    have h8: "length ?h' = 8" by simp
    have x: "?h ! i \<noteq> x" using assms(3) 1 by (simp add: fr nth_append)
    have drop: "drop 4 ?h' = drop 4 ?h" using 1 by simp
    have crc: "crc32_Checksum (?h' @ ?p) \<noteq> ?c"
      using crc_detects_byte [of i "?h @ ?p" x] x 1 by (simp add: list_update_append nth_append)
    have len': "unat (le_get (drop 4 ?h') :: uint32) = length ?p" by (simp only: drop hf)
    consider "i < 2" | "i = 2" | "i = 3" using 1 by linarith
    then show ?thesis
    proof cases
      case 1
      have "take 2 ?h' \<noteq> take 2 ?h"
      proof
        assume "take 2 ?h' = take 2 ?h"
        then have "take 2 ?h' ! i = take 2 ?h ! i" by simp
        then show False using x 1 by simp
      qed
      moreover have "(le_get (take 2 ?h') :: uint16) = le_get (take 2 ?h) \<Longrightarrow> take 2 ?h' = take 2 ?h"
        by (rule le_get_inj [where 'a = 16]) simp_all
      ultimately have "(le_get (take 2 ?h') :: uint16) \<noteq> walMagic" using hf(1) by auto
      then show ?thesis unfolding upd scan_step [OF h8] using 1 by (simp add: Let_def)
    next
      case 2
      then have "take 2 ?h' = take 2 ?h" "?h' ! 3 = ?h ! 3" by simp_all
      then show ?thesis unfolding upd scan_step [OF h8] using crc hf 2 len' by (simp add: Let_def le_get_put)
    next
      case 3
      then have "take 2 ?h' = take 2 ?h" "?h' ! 3 = x" by simp_all
      then show ?thesis unfolding upd scan_step [OF h8] using x 3 hf by (simp add: Let_def)
    qed
  next
    case 2
    have k: "i - 8 < length ?p" using 2 by linarith
    define p' where "p' = ?p[i - 8 := x]"
    have upd: "(frame_rec r)[i := x] @ rest = ?h @ (p' @ le_put 4 ?c @ rest)" "length p' = length ?p"
      using 2 k by (simp_all add: fr list_update_append p'_def)
    have "crc32_Checksum (?h @ p') \<noteq> ?c"
      using crc_detects_byte [of i "?h @ ?p" x] assms(3) 2 k by (simp add: fr list_update_append nth_append p'_def)
    then show ?thesis using upd hf 2 by (simp add: scan_step [of ?h] Let_def le_get_put)
  next
    case 3
    have k: "\<not> i - 8 < length ?p" using 3 by linarith
    define c' where "c' = (le_put 4 ?c)[i - 8 - length ?p := x]"
    have upd: "(frame_rec r)[i := x] @ rest = ?h @ (?p @ c' @ rest)" "length c' = 4"
      using 3 k by (simp_all add: fr list_update_append c'_def)
    have "c' \<noteq> le_put 4 ?c"
    proof
      assume "c' = le_put 4 ?c"
      then have "c' ! (i - 8 - length ?p) = le_put 4 ?c ! (i - 8 - length ?p)" by simp
      then show False using assms(2,3) 3 k by (simp add: fr c'_def nth_append)
    qed
    then have "?c \<noteq> le_get c'" using upd(2) le_put_get [where 'a = 32, of 4 c'] by auto
    then show ?thesis using upd hf 3 by (simp add: scan_step [of ?h] Let_def)
  qed
qed

section \<open>What the disk holds\<close>

text \<open>
  \<open>segs\<close> are the records of the sealed segments, in order from segment 1; \<open>tail\<close> those of the pending
  buffer.  After a failed directory sync the buffer is on disk too, as the next segment.
\<close>

definition disk_holds :: "rec list list \<Rightarrow> (nat \<times> bytes) list \<Rightarrow> bool" where
  "disk_holds segs disk \<longleftrightarrow> distinct (map fst disk) \<and>
     map_of disk = (\<lambda>n. if 1 \<le> n \<and> n \<le> length segs then Some (concat (map frame_rec (segs ! (n - 1)))) else None)"

definition wal_inv :: "rec list list \<Rightarrow> rec list \<Rightarrow> wal \<Rightarrow> bool" where
  "wal_inv segs tail w \<longleftrightarrow> length segs = wl_seg w \<and> wl_buf w = concat (map frame_rec tail) \<and>
     (disk_holds segs (wl_disk w) \<or> (wl_err w \<noteq> None \<and> disk_holds (segs @ [tail]) (wl_disk w))) \<and>
     (\<forall>r \<in> set (concat segs @ tail). rec_ok r)"

lemma disk_holds_put:
  assumes "disk_holds segs disk"
  shows "disk_holds (segs @ [tail]) (AList.update (Suc (length segs)) (concat (map frame_rec tail)) disk)"
proof -
  have "distinct (map fst (AList.update (Suc (length segs)) (concat (map frame_rec tail)) disk))"
    using assms by (simp add: disk_holds_def distinct_update)
  moreover have "map_of (AList.update (Suc (length segs)) (concat (map frame_rec tail)) disk) =
      (\<lambda>n. if 1 \<le> n \<and> n \<le> Suc (length segs) then Some (concat (map frame_rec ((segs @ [tail]) ! (n - 1)))) else None)"
    using assms unfolding disk_holds_def update_conv' by (auto simp: fun_eq_iff nth_append)
  ultimately show ?thesis by (simp add: disk_holds_def)
qed

lemma frame_rec_nonempty [simp]: "frame_record t p \<noteq> []"
  by (simp add: frame_record_def Let_def recordHeader_def)

lemma flushLocked_inv:
  assumes "wal_inv segs tail w" and "flushLocked w = (e, w')"
  obtains segs' tail' where "wal_inv segs' tail' w'" "concat segs' @ tail' = concat segs @ tail" "e = None \<longrightarrow> tail' = []"
    "prefix segs segs'" "wl_err w = None \<longrightarrow> wl_err w' = e" "wl_err w \<noteq> None \<longrightarrow> w' = w \<and> e = wl_err w"
proof (cases "wl_err w")
  case (Some x)
  then show thesis by (intro that [of segs tail]) (use assms in \<open>auto simp: flushLocked_def\<close>)
next
  case None
  show thesis
  proof (cases "tail = []")
    case True
    then show thesis by (intro that [of segs tail]) (use assms None in \<open>auto simp: flushLocked_def wal_inv_def\<close>)
  next
    case False
    have nb: "wl_buf w \<noteq> []" using assms(1) False by (cases tail) (simp_all add: wal_inv_def)
    have dh: "disk_holds segs (wl_disk w)" and len: "length segs = wl_seg w" and buf: "wl_buf w = concat (map frame_rec tail)"
      using assms(1) None by (auto simp: wal_inv_def)
    have put: "disk_holds (segs @ [tail]) (AList.update (Suc (wl_seg w)) (wl_buf w) (wl_disk w))"
      using disk_holds_put [OF dh] by (simp add: len buf)
    show thesis
    proof (cases "wl_io w (wl_tick w)")
      case IoOk
      then have "w' = w\<lparr>wl_tick := wl_tick w + 1, wl_disk := AList.update (Suc (wl_seg w)) (wl_buf w) (wl_disk w),
          wl_seg := Suc (wl_seg w), wl_buf := []\<rparr>" "e = None"
        using assms(2) None nb by (auto simp: flushLocked_def Let_def putSegment_def)
      then show thesis by (intro that [of "segs @ [tail]" "[]"]) (use assms(1) put None in \<open>auto simp: wal_inv_def\<close>)
    next
      case (IoFails er)
      then have "w' = w\<lparr>wl_tick := wl_tick w + 1, wl_err := Some er\<rparr>" "e = Some er"
        using assms(2) None nb by (auto simp: flushLocked_def Let_def)
      then show thesis by (intro that [of segs tail]) (use assms(1) dh None in \<open>auto simp: wal_inv_def\<close>)
    next
      case (IoDirSyncFails er)
      then have "w' = w\<lparr>wl_tick := wl_tick w + 1, wl_disk := AList.update (Suc (wl_seg w)) (wl_buf w) (wl_disk w), wl_err := Some er\<rparr>"
          "e = Some er"
        using assms(2) None nb by (auto simp: flushLocked_def Let_def putSegment_def)
      then show thesis by (intro that [of segs tail]) (use assms(1) put None in \<open>auto simp: wal_inv_def\<close>)
    qed
  qed
qed

lemma writeRecord_inv:
  assumes "wal_inv segs tail w" and "rec_ok (t, p)" and "writeRecord t p w = (e, w')"
  obtains segs' tail' where "wal_inv segs' tail' w'" "prefix segs segs'"
    "concat segs' @ tail' = (if wl_err w = None \<and> \<not> wl_failWrites w then concat segs @ tail @ [(t, p)] else concat segs @ tail)"
    "wl_err w = None \<and> e = None \<longrightarrow> \<not> wl_failWrites w" "wl_err w' = None \<longleftrightarrow> e = None" "wl_err w \<noteq> None \<longrightarrow> w' = w \<and> e = wl_err w"
proof (cases "wl_err w = None \<and> \<not> wl_failWrites w")
  case False
  have "wal_inv segs tail w'" "wl_err w' = e" "e \<noteq> None" "wl_err w \<noteq> None \<longrightarrow> w' = w \<and> e = wl_err w"
    using assms(1,3) False by (cases "wl_err w"; auto simp: writeRecord_def wal_inv_def Let_def)+
  then show thesis using False by (intro that [of segs tail]) auto
next
  case True
  define w1 where "w1 = w\<lparr>wl_buf := wl_buf w @ frame_record t p, wl_recs := wl_recs w + 1\<rparr>"
  have inv1: "wal_inv segs (tail @ [(t, p)]) w1" using assms(1,2) True by (auto simp: wal_inv_def w1_def)
  have run: "(if length (wl_buf w1) \<ge> flushMaxBytes then flushLocked w1 else (None, w1)) = (e, w')"
    using assms(3) True by (auto simp: writeRecord_def w1_def Let_def split: if_splits)
  have e1: "wl_err w1 = None" using True by (simp add: w1_def)
  show thesis
  proof (cases "length (wl_buf w1) \<ge> flushMaxBytes")
    case False
    with run have "e = None" "w' = w1" by auto
    with inv1 True e1 show thesis by (intro that [of segs "tail @ [(t, p)]"]) simp_all
  next
    case big: True
    with run have "flushLocked w1 = (e, w')" by simp
    with inv1 obtain segs' tail' where "wal_inv segs' tail' w'" "concat segs' @ tail' = concat segs @ tail @ [(t, p)]"
        "prefix segs segs'" "wl_err w1 = None \<longrightarrow> wl_err w' = e"
      by (rule flushLocked_inv)
    with True e1 show thesis by (intro that [of segs' tail']) simp_all
  qed
qed

text \<open>
  Histories of a log: writes, seals (by hand, by the flusher or at close) and whatever the file system
  answers.  \<open>written\<close> are the records that reached the buffer, \<open>acked\<close> those whose write reported success,
  \<open>durable\<close> those acknowledged when a seal last reported success.
\<close>

inductive walReach :: "(nat \<Rightarrow> ioResult) \<Rightarrow> wal \<Rightarrow> rec list \<Rightarrow> rec list \<Rightarrow> rec list \<Rightarrow> bool" for io where
  start: "walReach io (openWAL [] io) [] [] []"
| writ: "walReach io w wr ak du \<Longrightarrow> rec_ok (t, p) \<Longrightarrow> writeRecord t p w = (e, w') \<Longrightarrow>
    walReach io w' (if wl_err w = None \<and> \<not> wl_failWrites w then wr @ [(t, p)] else wr)
      (if e = None then ak @ [(t, p)] else ak) du"
| seal: "walReach io w wr ak du \<Longrightarrow> wal_flush w = (e, w') \<Longrightarrow> walReach io w' wr ak (if e = None then ak else du)"
| tick: "walReach io w wr ak du \<Longrightarrow> walReach io (flushTick w) wr ak du"
| shut: "walReach io w wr ak du \<Longrightarrow> wal_close w = (e, w') \<Longrightarrow> wl_closed w = None \<Longrightarrow> walReach io w' wr ak (if e = None then ak else du)"

definition reach_inv :: "wal \<Rightarrow> rec list \<Rightarrow> rec list \<Rightarrow> rec list \<Rightarrow> bool" where
  "reach_inv w wr ak du \<longleftrightarrow> (\<exists>segs tail. wal_inv segs tail w \<and> concat segs @ tail = wr \<and> prefix du (concat segs) \<and>
     (if wl_err w = None then ak = wr else prefix ak wr \<and> length wr \<le> length ak + 1))"

lemma prefix_concat: "prefix xs ys \<Longrightarrow> prefix (concat xs) (concat ys)"
  by (auto simp: prefix_def)

lemma reach_inv_flush:
  assumes inv: "reach_inv w wr ak du" and run: "flushLocked w = (e, w')"
  shows "reach_inv w' wr ak (if e = None then ak else du)"
proof -
  from inv obtain segs tail where w: "wal_inv segs tail w" "concat segs @ tail = wr" "prefix du (concat segs)"
      "if wl_err w = None then ak = wr else prefix ak wr \<and> length wr \<le> length ak + 1" by (auto simp: reach_inv_def)
  from w(1) run obtain segs' tail' where w': "wal_inv segs' tail' w'" "concat segs' @ tail' = concat segs @ tail"
      "e = None \<longrightarrow> tail' = []" "prefix segs segs'" "wl_err w = None \<longrightarrow> wl_err w' = e" "wl_err w \<noteq> None \<longrightarrow> w' = w \<and> e = wl_err w"
    by (rule flushLocked_inv)
  have du: "prefix du (concat segs')" using w(3) prefix_concat [OF w'(4)] by (rule prefix_order.trans)
  have ak: "if wl_err w' = None then ak = wr else prefix ak wr \<and> length wr \<le> length ak + 1"
    using w(4) w'(5,6) by (auto split: if_splits)
  have "prefix (if e = None then ak else du) (concat segs')"
    using du w' w(2,4) by (auto split: if_splits)
  then show ?thesis unfolding reach_inv_def using w' w(2) ak by (intro exI [of _ segs'] exI [of _ tail']) simp
qed

lemma reach_inv_du: "reach_inv w wr ak du \<Longrightarrow> prefix du' du \<Longrightarrow> reach_inv w wr ak du'"
  unfolding reach_inv_def using prefix_order.trans by blast

lemma reach_du_ak: "reach_inv w wr ak du \<Longrightarrow> wl_err w = None \<Longrightarrow> prefix du ak"
  unfolding reach_inv_def by (metis prefix_order.trans prefix_def)

lemma walReach_inv: "walReach io w wr ak du \<Longrightarrow> reach_inv w wr ak du"
proof (induction rule: walReach.induct)
  case start
  have "disk_holds [] []" by (auto simp: disk_holds_def)
  then show ?case by (simp add: reach_inv_def wal_inv_def openWAL_def scanMaxSeg_def listSegments_def)
next
  case (writ w wr ak du t p e w')
  from writ.IH obtain segs tail where w: "wal_inv segs tail w" "concat segs @ tail = wr" "prefix du (concat segs)"
      "if wl_err w = None then ak = wr else prefix ak wr \<and> length wr \<le> length ak + 1" by (auto simp: reach_inv_def)
  from w(1) writ.hyps(2,3) obtain segs' tail' where w': "wal_inv segs' tail' w'" "prefix segs segs'"
      "concat segs' @ tail' = (if wl_err w = None \<and> \<not> wl_failWrites w then concat segs @ tail @ [(t, p)] else concat segs @ tail)"
      "wl_err w = None \<and> e = None \<longrightarrow> \<not> wl_failWrites w" "wl_err w' = None \<longleftrightarrow> e = None" "wl_err w \<noteq> None \<longrightarrow> w' = w \<and> e = wl_err w"
    by (rule writeRecord_inv)
  have du: "prefix du (concat segs')" using w(3) prefix_concat [OF w'(2)] by (rule prefix_order.trans)
  show ?case unfolding reach_inv_def
    by (rule exI [of _ segs'], rule exI [of _ tail']) (use w w' du in \<open>auto split: if_splits\<close>)
next
  case (seal w wr ak du e w')
  then show ?case using reach_inv_flush by (simp add: wal_flush_def)
next
  case (tick w wr ak du)
  obtain e w' where run: "flushLocked w = (e, w')" by (cases "flushLocked w")
  show ?case
  proof (cases "wl_err w = None")
    case True
    from reach_inv_flush [OF tick.IH run] reach_du_ak [OF tick.IH True] have "reach_inv w' wr ak du"
      by (auto split: if_splits intro: reach_inv_du)
    then show ?thesis using True run by (simp add: flushTick_def)
  next
    case False
    then show ?thesis using tick.IH by (simp add: flushTick_def del: not_None_eq)
  qed
next
  case (shut w wr ak du e w')
  obtain w1 where run: "flushLocked w = (e, w1)" "w' = (if wl_err w1 = None then w1\<lparr>wl_err := Some ErrClosed\<rparr> else w1)\<lparr>wl_closed := Some e\<rparr>"
    using shut.hyps by (auto simp: wal_close_def Let_def split: prod.splits)
  from reach_inv_flush [OF shut.IH run(1)] show ?case
    unfolding reach_inv_def run(2) wal_inv_def by (auto split: if_splits)
qed

section \<open>Recovery\<close>

lemma listSegments_holds:
  assumes "disk_holds segs disk"
  shows "listSegments disk = [1..<Suc (length segs)]"
proof (unfold listSegments_def, rule sorted_distinct_set_unique)
  have "set (map fst disk) = dom (map_of disk)" by (simp add: dom_map_of_conv_image_fst)
  also have "\<dots> = {1..<Suc (length segs)}" using assms by (auto simp: disk_holds_def split: if_splits)
  finally show "set (sort (map fst disk)) = set [1..<Suc (length segs)]" by (simp del: upt_Suc)
qed (use assms in \<open>simp_all add: disk_holds_def del: upt_Suc\<close>)

lemma replay_loop_holds:
  assumes dh: "disk_holds segs disk" and ok: "\<forall>r \<in> set (concat segs). rec_ok r"
    and app: "\<And>t p st. app t p st \<noteq> Inl errWALFraming"
  shows "k \<le> length segs \<Longrightarrow> replay_loop disk 0 (Suc k) app onCorrupt [Suc k..<Suc (length segs)] st = feed app (concat (drop k segs)) st"
proof (induction "length segs - k" arbitrary: k st)
  case 0
  then show ?case by simp
next
  case (Suc d)
  then have k: "k < length segs" by simp
  have content: "the (map_of disk (Suc k)) = concat (map frame_rec (segs ! k))" using dh k by (simp add: disk_holds_def)
  have okk: "\<forall>r \<in> set (segs ! k). rec_ok r" using ok k by auto
  have scan: "scanRecords (the (map_of disk (Suc k))) app st = feed app (segs ! k) st"
    using scan_records [OF okk, of "[]" app st] by (auto simp: scanRecords_def content split: prod.splits option.splits)
  have not_framing: "feed app rs st \<noteq> (Some errWALFraming, st')" for rs st st'
    by (induction rs arbitrary: st) (use app in \<open>auto split: sum.splits\<close>)
  have IH: "replay_loop disk 0 (Suc (Suc k)) app onCorrupt [Suc (Suc k)..<Suc (length segs)] st' = feed app (concat (drop (Suc k) segs)) st'" for st'
    using Suc.hyps k by simp
  have "[Suc k..<Suc (length segs)] = Suc k # [Suc (Suc k)..<Suc (length segs)]" using k by (simp add: upt_rec)
  moreover have "drop k segs = segs ! k # drop (Suc k) segs" using k by (rule Cons_nth_drop_Suc [symmetric])
  ultimately show ?case using not_framing [of "segs ! k" st]
    by (simp add: scan IH feed_append del: upt_Suc split: prod.split option.split)
qed

lemma replay_holds:
  assumes "disk_holds segs disk" and "\<forall>r \<in> set (concat segs). rec_ok r" and "\<And>t p st. app t p st \<noteq> Inl errWALFraming"
  shows "replayFrom disk 0 app onCorrupt st = feed app (concat segs) st"
  using replay_loop_holds [OF assms, of 0] listSegments_holds [OF assms(1)]
  by (simp add: replayFrom_def replaySegments_def del: upt_Suc)

text \<open>
  C20.  Durability of the log: after any history of writes, seals and file system failures, a
  crash that loses the buffer leaves segments whose replay hands the callback exactly a prefix of the records
  in the order they were written; the prefix contains every record acknowledged before the last
  successful seal; and what was written is what was acknowledged, plus at most the one record
  whose write reported the failure that closed the log.
\<close>

theorem wal_recovers_prefix:
  assumes "walReach io w written acked durable" and "\<forall>t p st. app t p st \<noteq> Inl errWALFraming"
  shows "\<exists>recovered. replayFrom (wl_disk w) 0 app onCorrupt st = feed app recovered st \<and>
    prefix durable recovered \<and> prefix recovered written \<and> prefix acked written \<and> length written \<le> length acked + 1"
proof -
  from walReach_inv [OF assms(1)] obtain segs tail where w: "wal_inv segs tail w" "concat segs @ tail = written"
      "prefix durable (concat segs)" "if wl_err w = None then acked = written else prefix acked written \<and> length written \<le> length acked + 1"
    by (auto simp: reach_inv_def)
  have ok: "\<forall>r \<in> set (concat segs @ tail). rec_ok r" using w(1) unfolding wal_inv_def by blast
  have ack: "prefix acked written \<and> length written \<le> length acked + 1" using w(4) by (auto split: if_splits)
  from w(1) consider "disk_holds segs (wl_disk w)" | "disk_holds (segs @ [tail]) (wl_disk w)" unfolding wal_inv_def by blast
  then show ?thesis
  proof cases
    case 1
    have "replayFrom (wl_disk w) 0 app onCorrupt st = feed app (concat segs) st"
      using ok assms(2) by (intro replay_holds [OF 1]) auto
    then show ?thesis using w(2,3) ack by (intro exI [of _ "concat segs"]) auto
  next
    case 2
    have "replayFrom (wl_disk w) 0 app onCorrupt st = feed app (concat (segs @ [tail])) st"
      using ok assms(2) by (intro replay_holds [OF 2]) auto
    moreover have "prefix durable (concat (segs @ [tail]))" using w(3) by (auto simp: prefix_def)
    ultimately show ?thesis using w(2) ack by (intro exI [of _ "concat (segs @ [tail])"]) auto
  qed
qed

theorem wal_recovers_prefix_witness:
  "\<exists>w recovered. walReach (\<lambda>_. IoOk) w [(1, [7]), (1, [8])] [(1, [7]), (1, [8])] [(1, [7])] \<and>
    replayFrom (wl_disk w) 0 (\<lambda>t p st. Inr (st @ [p])) (\<lambda>_ _ st. st) [] = feed (\<lambda>t p st. Inr (st @ [p])) recovered [] \<and>
    prefix [(1, [7])] recovered"
proof -
  let ?io = "\<lambda>_ :: nat. IoOk"
  let ?w0 = "openWAL [] ?io"
  let ?w1 = "snd (writeRecord 1 [7] ?w0)"
  let ?w2 = "snd (wal_flush ?w1)"
  let ?w3 = "snd (writeRecord 1 [8] ?w2)"
  have len: "length (frame_record t p) = 12 + length p" for t p by (simp add: frame_record_def Let_def)
  note defs = writeRecord_def wal_flush_def flushLocked_def openWAL_def flushMaxBytes_def putSegment_def Let_def len
  have "walReach ?io ?w1 ([] @ [(1, [7])]) ([] @ [(1, [7])]) []"
    using walReach.writ [OF walReach.start [of ?io], of 1 "[7]" None ?w1] by (simp add: defs rec_ok_def)
  from walReach.seal [OF this, of None ?w2] have "walReach ?io ?w2 [(1, [7])] [(1, [7])] [(1, [7])]"
    by (simp add: defs)
  from walReach.writ [OF this, of 1 "[8]" None ?w3] have r: "walReach ?io ?w3 [(1, [7]), (1, [8])] [(1, [7]), (1, [8])] [(1, [7])]"
    by (simp add: defs rec_ok_def)
  have "\<forall>t p st. (\<lambda>t p st. Inr (st @ [p])) t p st \<noteq> Inl errWALFraming" by simp
  from wal_recovers_prefix [OF r this, of "\<lambda>_ _ st. st" "[]"] r show ?thesis by blast
qed

text \<open>
  C21.  Damage to a sealed segment is found at the record it touches: the records before it are handed
  over, then a record cut short, or with one byte changed anywhere but in its length field,
  stops the scan with the framing error that recovery survives.  The exception is
  the version byte: it is tested before the checksum, so damage to it is the fatal version error.
\<close>

theorem scan_detects_damage:
  assumes "\<forall>r \<in> set (rs @ [r]). rec_ok r" and "feed app rs st = (None, st')"
  shows "(\<forall>p q. frame_rec r = p @ q \<and> p \<noteq> [] \<and> q \<noteq> [] \<longrightarrow>
      scanRecords (concat (map frame_rec rs) @ p) app st = (Some errWALFraming, st')) \<and>
    (\<forall>i x rest. i < length (frame_rec r) \<and> frame_rec r ! i \<noteq> x \<and> (i < 4 \<or> 8 \<le> i) \<longrightarrow>
      scanRecords (concat (map frame_rec rs) @ (frame_rec r)[i := x] @ rest) app st =
        (Some (if i = 3 then ErrWALVersion else errWALFraming), st'))"
proof -
  have ok: "\<forall>r \<in> set rs. rec_ok r" and okr: "rec_ok r" using assms(1) by simp_all
  have scan: "scanRecords (concat (map frame_rec rs) @ x) app st = scan_loop x app st'" for x
    by (simp add: scanRecords_def scan_records [OF ok] assms(2))
  show ?thesis
  proof (unfold scan, intro conjI allI impI; elim conjE)
    fix p q assume "frame_rec r = p @ q" "p \<noteq> []" "q \<noteq> []"
    then show "scan_loop p app st' = (Some errWALFraming, st')" by (rule scan_truncated [OF okr])
  next
    fix i x rest assume "i < length (frame_rec r)" "frame_rec r ! i \<noteq> x" "i < 4 \<or> 8 \<le> i"
    then show "scan_loop ((frame_rec r)[i := x] @ rest) app st' = (Some (if i = 3 then ErrWALVersion else errWALFraming), st')"
      by (rule scan_corrupt [OF okr])
  qed
qed

theorem scan_detects_damage_witness:
  "scanRecords (frame_record 1 [7] @ (frame_record 1 [8, 9])[8 := 0]) (\<lambda>t p st. Inr (st @ [p])) [] = (Some errWALFraming, [[7]])"
proof -
  let ?app = "\<lambda>t p st. Inr (st @ [p]) :: bytes list res"
  have ok: "\<forall>r \<in> set ([(1, [7])] @ [(1, [8, 9])]). rec_ok r" by (simp add: rec_ok_def)
  have f: "feed ?app [(1, [7])] [] = (None, [[7]])" by simp
  have "frame_rec (1, [8, 9]) ! 8 = 8" "8 < length (frame_rec (1, [8, 9]))" by (simp_all add: frame_record_def Let_def nth_append)
  then show ?thesis using conjunct2 [OF scan_detects_damage [OF ok f], rule_format, of 8 0 "[]"] by simp
qed

abbreviation below :: "nat \<Rightarrow> (nat \<times> bytes) list \<Rightarrow> (nat \<times> bytes) list" where
  "below g disk \<equiv> filter (\<lambda>(n, c). n < g) disk"

lemma map_of_below: "n < g \<Longrightarrow> map_of (below g disk) n = map_of disk n"
  by (induction disk) auto

lemma replay_loop_gap:
  assumes "\<forall>n \<in> set ys. g < n" "ys \<noteq> []" "minSeg < g"
  shows "\<forall>n \<in> set xs. n < g \<Longrightarrow> expected \<le> g \<Longrightarrow>
    replay_loop disk minSeg expected app onCorrupt (xs @ ys) st =
      (case replay_loop (below g disk) minSeg expected app onCorrupt xs st of
        (None, st') \<Rightarrow> (Some errWALMissingSegment, st') | (Some e, st') \<Rightarrow> (Some e, st'))"
proof (induction xs arbitrary: expected st)
  case Nil
  obtain y ys' where "ys = y # ys'" using assms(2) by (cases ys) auto
  then show ?case using assms(1, 3) Nil by simp
next
  case (Cons n xs)
  then have "n < g" and IH: "expected \<le> g \<Longrightarrow> replay_loop disk minSeg expected app onCorrupt (xs @ ys) st =
      (case replay_loop (below g disk) minSeg expected app onCorrupt xs st of
        (None, st') \<Rightarrow> (Some errWALMissingSegment, st') | (Some e, st') \<Rightarrow> (Some e, st'))" for expected st by simp_all
  then have "map_of (below g disk) n = map_of disk n" by (simp add: map_of_below)
  moreover obtain r st' where "scanRecords (the (map_of disk n)) app st = (r, st')" by (cases "scanRecords (the (map_of disk n)) app st")
  ultimately show ?case using \<open>n < g\<close> \<open>expected \<le> g\<close>
    by (cases "n \<le> minSeg"; cases "n = expected"; cases r) (simp_all add: IH)
qed

lemma sorted_split_at:
  "sorted xs \<Longrightarrow> g \<notin> set xs \<Longrightarrow> xs = filter (\<lambda>n. n < g) xs @ filter (\<lambda>n. (g :: nat) < n) xs"
proof (induction xs)
  case (Cons x xs)
  then have IH: "xs = filter (\<lambda>n. n < g) xs @ filter (\<lambda>n. g < n) xs" and "x \<noteq> g" by auto
  show ?case
  proof (cases "x < g")
    case False
    then have "\<forall>y \<in> set xs. g < y" using Cons.prems \<open>x \<noteq> g\<close> by (fastforce dest: not_le_imp_less)
    then have "filter (\<lambda>n. n < g) xs = []" by (auto simp: filter_empty_conv)
    then show ?thesis using False \<open>x \<noteq> g\<close> IH by simp
  qed (use IH in simp)
qed simp

lemma listSegments_below: "listSegments (below g disk) = filter (\<lambda>n. n < g) (listSegments disk)"
  by (simp add: listSegments_def filter_sort filter_map comp_def case_prod_unfold)

text \<open>
  C22.  A lost segment is never crossed: when a number above the drain cursor is missing while a higher segment
  exists, the replay applies what a replay of the segments below the gap alone would apply, and then fails with the
  missing-segment error (or with the error that replay had met before).
\<close>

theorem replay_refuses_gap:
  assumes "minSeg < g" and "g \<notin> fst ` set disk" and "\<exists>n \<in> fst ` set disk. g < n"
  shows "replayFrom disk minSeg app onCorrupt st =
    (case replayFrom (below g disk) minSeg app onCorrupt st of
      (None, st') \<Rightarrow> (Some errWALMissingSegment, st') | (Some e, st') \<Rightarrow> (Some e, st'))"
proof -
  let ?xs = "filter (\<lambda>n. n < g) (listSegments disk)" and ?ys = "filter (\<lambda>n. g < n) (listSegments disk)"
  have split: "listSegments disk = ?xs @ ?ys"
    by (rule sorted_split_at) (use assms(2) in \<open>auto simp: listSegments_def\<close>)
  have "?ys \<noteq> []" using assms(3) by (auto simp: filter_empty_conv listSegments_def)
  then have "replay_loop disk minSeg (minSeg + 1) app onCorrupt (?xs @ ?ys) st =
    (case replay_loop (below g disk) minSeg (minSeg + 1) app onCorrupt ?xs st of
      (None, st') \<Rightarrow> (Some errWALMissingSegment, st') | (Some e, st') \<Rightarrow> (Some e, st'))"
    using assms(1) by (intro replay_loop_gap) auto
  then show ?thesis by (simp only: replayFrom_def replaySegments_def split [symmetric] listSegments_below)
qed

theorem replay_refuses_gap_witness:
  "fst (replayFrom [(8, frame_record 1 [1]), (6, []), (5, [])] 5 (\<lambda>t p st. Inr (st @ [p])) (\<lambda>_ _ st. st) []) = Some errWALMissingSegment"
  by (subst replay_refuses_gap [of 5 7]) (simp_all add: replayFrom_def replaySegments_def listSegments_def scanRecords_def)

end
