(* ===== verification/StoreOps.thy ===== *)
theory StoreOps
  imports PartitionStore
begin

text \<open>
  \<open>store_write.go\<close>, \<open>store_read.go\<close>, \<open>store_compact.go\<close> and \<open>compact.go\<close>: the operations of a
  table.  Each dispatches to its partitioned form when the table has a directory.  \<open>seed\<close> is the
  process-wide hash seed of the primary key maps.
\<close>

section \<open>Insert\<close>

text \<open>
  The body \<open>insertJournaled\<close> and \<open>insert\<close> share; \<open>mark\<close> tells whether the row is marked dirty, and
  the boot path journals nothing.
\<close>

definition insertRow :: "uint64 \<Rightarrow> bool \<Rightarrow> Row \<Rightarrow> 'w mutJournal \<Rightarrow> 'w store \<Rightarrow> (err option \<times> 'w store) option" where
  "insertRow seed mark row j st =
     (let t = st_table st; pk = pkOf t row; i = shardIdxOf t pk; s = t_shards t ! i in
      if i \<ge> length (t_shards t) then None
      else do {
        (slot, exists, m) \<leftarrow> pk_reserve seed (sh_pk s) pk;
        let s = s\<lparr>sh_pk := m\<rparr>;
        let st = st\<lparr>st_table := setShard i s t\<rparr>;
        if exists then Some (Some ErrDuplicatePK, st)
        else
          let cost = rowCost row (nIdx t); (ok, b) = reserve (st_budget st) cost in
          if \<not> ok then Some (Some ErrCapacity, st\<lparr>st_budget := b\<rparr>)
          else case j_insert j row (st_wal st) of
            (Some e, w) \<Rightarrow> Some (Some e, st\<lparr>st_budget := release b cost, st_wal := w\<rparr>)
          | (None, w) \<Rightarrow>
              let (rowID, s) = addRow row cost s;
                  s = s\<lparr>sh_pk := pk_commit (sh_pk s) slot pk rowID\<rparr>;
                  t' = setShard i s t
              in Some (None, st\<lparr>st_table := (if mark then markDirty i pk t' else t'), st_budget := b, st_wal := w\<rparr>)
      })"

definition insertJournaled :: "uint64 \<Rightarrow> Row \<Rightarrow> 'w mutJournal \<Rightarrow> 'w store \<Rightarrow> (err option \<times> 'w store) option" where
  "insertJournaled seed row j st =
     (if t_pkDir (st_table st) \<noteq> None then insertPartitioned row j st else insertRow seed True row j st)"

text \<open>The boot path: no journal, and no dirty mark (the indexes are rebuilt afterwards).\<close>

definition storeInsert :: "uint64 \<Rightarrow> Row \<Rightarrow> 'w store \<Rightarrow> (err option \<times> 'w store) option" where
  "storeInsert seed row st =
     (if t_pkDir (st_table st) \<noteq> None then insertPartitioned row noJournal st
      else insertRow seed False row noJournal st)"

section \<open>Finding a row\<close>

text \<open>
  \<open>s.pk.get(pk)\<close> and \<open>s.rows[rowID]\<close>: no entry, or the slot's content.  The outer \<open>None\<close> is an index
  out of range.
\<close>

definition rowAt :: "uint64 \<Rightarrow> table \<Rightarrow> UUID \<Rightarrow> (nat \<times> Row option) option option" where
  "rowAt seed t pk =
     (let i = shardIdxOf t pk; s = t_shards t ! i in
      if i \<ge> length (t_shards t) then None
      else do {
        r \<leftarrow> pk_get seed (sh_pk s) pk;
        (case r of None \<Rightarrow> Some None
         | Some rowID \<Rightarrow> if rowID \<ge> length (sh_rows s) then None else Some (Some (rowID, sh_rows s ! rowID)))
      })"

section \<open>Update by primary key\<close>

text \<open>A nil row here would be indexed by the callers' expressions, so it is a panic.\<close>

definition updateByPKJournaled :: "uint64 \<Rightarrow> UUID \<Rightarrow> nat list \<Rightarrow> (Row \<Rightarrow> Value list res) \<Rightarrow> 'w mutJournal \<Rightarrow>
    'w store \<Rightarrow> (bool res \<times> 'w store) option" where
  "updateByPKJournaled seed pk ords compute j st =
     (let t = st_table st in
      if t_pkDir t \<noteq> None then updateByPKJournaledPartitioned pk ords compute j st
      else do {
        found \<leftarrow> rowAt seed t pk;
        (case found of None \<Rightarrow> Some (Inr False, st)
         | Some (_, None) \<Rightarrow> None
         | Some (rowID, Some r) \<Rightarrow>
             (case compute r of Inl e \<Rightarrow> Some (Inl e, st)
              | Inr vals \<Rightarrow> do {
                  (e, st) \<leftarrow> updateCells (shardIdxOf t pk) rowID r ords vals j st;
                  Some (case e of Some e \<Rightarrow> (Inl e, st)
                    | None \<Rightarrow> (Inr True, if updateTouchesIndex t ords
                        then st\<lparr>st_table := markDirty (shardIdxOf t pk) pk (st_table st)\<rparr> else st))
                }))
      })"

definition updateByPKOneJournaled :: "uint64 \<Rightarrow> UUID \<Rightarrow> nat \<Rightarrow> (Row \<Rightarrow> Value res) \<Rightarrow> 'w mutJournal \<Rightarrow>
    'w store \<Rightarrow> (bool res \<times> 'w store) option" where
  "updateByPKOneJournaled seed pk ord compute j st =
     (let t = st_table st in
      if t_pkDir t \<noteq> None then updateByPKOneJournaledPartitioned pk ord compute j st
      else do {
        found \<leftarrow> rowAt seed t pk;
        (case found of None \<Rightarrow> Some (Inr False, st)
         | Some (_, None) \<Rightarrow> None
         | Some (rowID, Some r) \<Rightarrow>
             (case compute r of Inl e \<Rightarrow> Some (Inl e, st)
              | Inr val \<Rightarrow> do {
                  (e, st) \<leftarrow> updateOneCell (shardIdxOf t pk) rowID r ord val j st;
                  Some (case e of Some e \<Rightarrow> (Inl e, st)
                    | None \<Rightarrow> (Inr True, if ordIsIndexed t ord
                        then st\<lparr>st_table := markDirty (shardIdxOf t pk) pk (st_table st)\<rparr> else st))
                }))
      })"

text \<open>One index candidate, re-checked against the whole WHERE.\<close>

definition updateOneByCandidate :: "uint64 \<Rightarrow> UUID \<Rightarrow> nat \<Rightarrow> (Row \<Rightarrow> bool) \<Rightarrow> (Row \<Rightarrow> Value res) \<Rightarrow> 'w mutJournal \<Rightarrow>
    'w store \<Rightarrow> (nat res \<times> 'w store) option" where
  "updateOneByCandidate seed pk ord match computeOne j st =
     (let t = st_table st in do {
        found \<leftarrow> rowAt seed t pk;
        (case found of None \<Rightarrow> Some (Inr 0, st)
         | Some (_, None) \<Rightarrow> Some (Inr 0, st)
         | Some (rowID, Some r) \<Rightarrow>
             if \<not> match r then Some (Inr 0, st)
             else (case computeOne r of Inl e \<Rightarrow> Some (Inl e, st)
              | Inr val \<Rightarrow> do {
                  (e, st) \<leftarrow> updateOneCell (shardIdxOf t pk) rowID r ord val j st;
                  Some (case e of Some e \<Rightarrow> (Inl e, st)
                    | None \<Rightarrow> (Inr 1, if ordIsIndexed t ord
                        then st\<lparr>st_table := markDirty (shardIdxOf t pk) pk (st_table st)\<rparr> else st))
                }))
      })"

text \<open>The replay update.\<close>

definition storeUpdate :: "uint64 \<Rightarrow> UUID \<Rightarrow> (Row \<Rightarrow> Row option) \<Rightarrow> 'w store \<Rightarrow> (bool \<times> 'w store) option" where
  "storeUpdate seed pk mutate st =
     (let t = st_table st in
      if t_pkDir t \<noteq> None then updatePartitioned pk mutate st
      else do {
        found \<leftarrow> rowAt seed t pk;
        (case found of None \<Rightarrow> Some (False, st)
         | Some (rowID, x) \<Rightarrow>
             let i = shardIdxOf t pk; s = t_shards t ! i;
                 r = (case x of None \<Rightarrow> [] | Some r \<Rightarrow> r); before = rowCost r (nIdx t) in
             (case mutate r of None \<Rightarrow> Some (False, st)
              | Some nr \<Rightarrow>
                  if pkOf t nr \<noteq> pk then Some (False, st)
                  else let (s', b) = addBytes (rowCost nr (nIdx t) - before) s (st_budget st);
                           s' = s'\<lparr>sh_rows := (sh_rows s')[rowID := Some nr]\<rparr>
                    in Some (True, st\<lparr>st_table := markDirty i pk (setShard i s' t), st_budget := b\<rparr>)))
      })"

section \<open>Delete by primary key\<close>

text \<open>Removing a found row: tombstone, drop the map entry at its slot, mark it for index cleanup.\<close>

definition removeFound :: "uint64 \<Rightarrow> UUID \<Rightarrow> nat \<Rightarrow> nat \<Rightarrow> 'w store \<Rightarrow> 'w store option" where
  "removeFound seed pk slot rowID st =
     (let t = st_table st; i = shardIdxOf t pk in do {
        (s, b) \<leftarrow> tombstone rowID (nIdx t) (t_shards t ! i) (st_budget st);
        m \<leftarrow> pk_delAt seed (sh_pk s) slot;
        Some (st\<lparr>st_table := markDelDirty i pk (setShard i (s\<lparr>sh_pk := m\<rparr>) t), st_budget := b\<rparr>)
      })"

definition deleteByPKJournaled :: "uint64 \<Rightarrow> UUID \<Rightarrow> 'w mutJournal \<Rightarrow> 'w store \<Rightarrow> (bool res \<times> 'w store) option" where
  "deleteByPKJournaled seed pk j st =
     (let t = st_table st; i = shardIdxOf t pk; s = t_shards t ! i in
      if t_pkDir t \<noteq> None then deleteByPKJournaledPartitioned pk j st
      else if i \<ge> length (t_shards t) then None
      else do {
        found \<leftarrow> pk_find seed (sh_pk s) pk;
        (case found of None \<Rightarrow> Some (Inr False, st)
         | Some (slot, rowID) \<Rightarrow>
             (case j_delete j (st_wal st) of
                (Some e, w) \<Rightarrow> Some (Inl e, st\<lparr>st_wal := w\<rparr>)
              | (None, w) \<Rightarrow> do {
                  st \<leftarrow> removeFound seed pk slot rowID (st\<lparr>st_wal := w\<rparr>);
                  Some (Inr True, st)
                }))
      })"

definition deleteOneByCandidate :: "uint64 \<Rightarrow> UUID \<Rightarrow> (Row \<Rightarrow> bool) option \<Rightarrow> 'w mutJournal \<Rightarrow> 'w store \<Rightarrow>
    (bool res \<times> 'w store) option" where
  "deleteOneByCandidate seed pk match j st =
     (let t = st_table st; i = shardIdxOf t pk; s = t_shards t ! i in
      if i \<ge> length (t_shards t) then None
      else do {
        found \<leftarrow> pk_find seed (sh_pk s) pk;
        (case found of None \<Rightarrow> Some (Inr False, st)
         | Some (slot, rowID) \<Rightarrow>
             if rowID \<ge> length (sh_rows s) then None
             else (case sh_rows s ! rowID of None \<Rightarrow> Some (Inr False, st)
               | Some r \<Rightarrow>
                   if (case match of None \<Rightarrow> False | Some m \<Rightarrow> \<not> m r) then Some (Inr False, st)
                   else (case j_delete j (st_wal st) of
                      (Some e, w) \<Rightarrow> Some (Inl e, st\<lparr>st_wal := w\<rparr>)
                    | (None, w) \<Rightarrow> do {
                        st \<leftarrow> removeFound seed pk slot rowID (st\<lparr>st_wal := w\<rparr>);
                        Some (Inr True, st)
                      })))
      })"

text \<open>\<open>del\<close> and tombstone, as the replay delete and the predicate deletes do it.\<close>

definition deleteRow :: "uint64 \<Rightarrow> nat \<Rightarrow> UUID \<Rightarrow> nat option \<Rightarrow> 'w store \<Rightarrow> (bool \<times> 'w store) option" where
  "deleteRow seed i pk at st =
     (let t = st_table st; s = t_shards t ! i in do {
        (r, m) \<leftarrow> pk_del seed (sh_pk s) pk;
        let s = s\<lparr>sh_pk := m\<rparr>;
        (case (case at of None \<Rightarrow> r | Some k \<Rightarrow> Some k) of
           None \<Rightarrow> Some (False, st\<lparr>st_table := setShard i s t\<rparr>)
         | Some rowID \<Rightarrow> do {
             (s, b) \<leftarrow> tombstone rowID (nIdx t) s (st_budget st);
             Some (True, st\<lparr>st_table := markDelDirty i pk (setShard i s t), st_budget := b\<rparr>)
           })
      })"

definition deleteByPK :: "uint64 \<Rightarrow> UUID \<Rightarrow> 'w store \<Rightarrow> (bool \<times> 'w store) option" where
  "deleteByPK seed pk st =
     (let t = st_table st; i = shardIdxOf t pk in
      if t_pkDir t \<noteq> None then deleteByPKPartitioned pk st
      else if i \<ge> length (t_shards t) then None
      else deleteRow seed i pk None st)"

section \<open>Predicate updates and deletes\<close>

text \<open>
  Pass 1 computes the new image of every matching row, stopping at the first error; then the batch is
  journaled as one record; pass 2 applies it.  The full scan visits every live row, the candidate
  form the rows found for a list of primary keys.
\<close>

fun collectUpdates :: "(Row \<Rightarrow> bool) \<Rightarrow> nat list \<Rightarrow> (Row \<Rightarrow> Value list res) \<Rightarrow> (nat \<times> nat \<times> Row) list \<Rightarrow>
    (nat \<times> nat \<times> Row) list res option" where
  "collectUpdates match ords compute [] = Some (Inr [])"
| "collectUpdates match ords compute ((i, k, r) # rest) =
     (if \<not> match r then collectUpdates match ords compute rest
      else case compute r of Inl e \<Rightarrow> Some (Inl e)
        | Inr vals \<Rightarrow> do {
            nr \<leftarrow> setCells (Row_Clone r) ords vals;
            x \<leftarrow> collectUpdates match ords compute rest;
            Some (andThen x (\<lambda>ps. Inr ((i, k, nr) # ps)))
          })"

fun applyUpdates :: "bool \<Rightarrow> (nat \<times> nat \<times> Row) list \<Rightarrow> 'w store \<Rightarrow> 'w store" where
  "applyUpdates touch [] st = st"
| "applyUpdates touch ((i, k, nr) # ps) st =
     (let t = st_table st; s = t_shards t ! i;
          old = (case sh_rows s ! k of None \<Rightarrow> [] | Some r \<Rightarrow> r);
          (s', b) = addBytes (rowCost nr (nIdx t) - rowCost old (nIdx t)) s (st_budget st);
          t' = setShard i (s'\<lparr>sh_rows := (sh_rows s')[k := Some nr]\<rparr>) t;
          t' = (if touch then markDirty i (pkOf t nr) t' else t')
      in applyUpdates touch ps (st\<lparr>st_table := t', st_budget := b\<rparr>))"

definition updateRows :: "(Row \<Rightarrow> bool) \<Rightarrow> nat list \<Rightarrow> (Row \<Rightarrow> Value list res) \<Rightarrow> (Row \<Rightarrow> bytes) option \<Rightarrow>
    (bytes list \<Rightarrow> 'w \<Rightarrow> err option \<times> 'w) option \<Rightarrow> (nat \<times> nat \<times> Row) list \<Rightarrow> 'w store \<Rightarrow> (nat res \<times> 'w store) option" where
  "updateRows match ords compute encode journalAll rs st = do {
     x \<leftarrow> collectUpdates match ords compute rs;
     (case x of Inl e \<Rightarrow> Some (Inl e, st)
      | Inr pending \<Rightarrow>
          let bodies = (case encode of None \<Rightarrow> [] | Some enc \<Rightarrow> map (\<lambda>(i, k, nr). enc nr) pending) in
          (case journalBodies journalAll bodies (st_wal st) of
             (Some e, w) \<Rightarrow> Some (Inl e, st\<lparr>st_wal := w\<rparr>)
           | (None, w) \<Rightarrow>
               Some (Inr (length pending),
                 applyUpdates (updateTouchesIndex (st_table st) ords) pending (st\<lparr>st_wal := w\<rparr>))))
   }"

definition updateWhereAll :: "(Row \<Rightarrow> bool) \<Rightarrow> nat list \<Rightarrow> (Row \<Rightarrow> Value list res) \<Rightarrow> (Row \<Rightarrow> bytes) option \<Rightarrow>
    (bytes list \<Rightarrow> 'w \<Rightarrow> err option \<times> 'w) option \<Rightarrow> 'w store \<Rightarrow> (nat res \<times> 'w store) option" where
  "updateWhereAll match ords compute encode journalAll st =
     updateRows match ords compute encode journalAll (live_at (st_table st)) st"

fun candidateRows :: "uint64 \<Rightarrow> table \<Rightarrow> UUID list \<Rightarrow> (nat \<times> nat \<times> Row) list option" where
  "candidateRows seed t [] = Some []"
| "candidateRows seed t (pk # pks) = do {
     found \<leftarrow> rowAt seed t pk;
     rest \<leftarrow> candidateRows seed t pks;
     Some (case found of Some (rowID, Some r) \<Rightarrow> (shardIdxOf t pk, rowID, r) # rest | _ \<Rightarrow> rest)
   }"

definition updateByCandidates :: "uint64 \<Rightarrow> UUID list \<Rightarrow> (Row \<Rightarrow> bool) \<Rightarrow> nat list \<Rightarrow> (Row \<Rightarrow> Value list res) \<Rightarrow>
    (Row \<Rightarrow> bytes) option \<Rightarrow> (bytes list \<Rightarrow> 'w \<Rightarrow> err option \<times> 'w) option \<Rightarrow> 'w store \<Rightarrow> (nat res \<times> 'w store) option" where
  "updateByCandidates seed pks match ords compute encode journalAll st = do {
     rs \<leftarrow> candidateRows seed (st_table st) pks;
     updateRows match ords compute encode journalAll rs st
   }"

fun applyDeletes :: "uint64 \<Rightarrow> (nat \<times> nat \<times> UUID) list \<Rightarrow> 'w store \<Rightarrow> 'w store option" where
  "applyDeletes seed [] st = Some st"
| "applyDeletes seed ((i, k, pk) # ps) st = do {
     (_, st) \<leftarrow> deleteRow seed i pk (Some k) st;
     applyDeletes seed ps st
   }"

definition deleteRows :: "uint64 \<Rightarrow> (Value \<Rightarrow> bytes) option \<Rightarrow> (bytes list \<Rightarrow> 'w \<Rightarrow> err option \<times> 'w) option \<Rightarrow>
    (nat \<times> nat \<times> Row) list \<Rightarrow> 'w store \<Rightarrow> (nat res \<times> 'w store) option" where
  "deleteRows seed encode journalAll pending st =
     (let t = st_table st;
          bodies = (case encode of None \<Rightarrow> [] | Some enc \<Rightarrow> map (\<lambda>(i, k, r). enc (r ! pkOrd t)) pending)
      in case journalBodies journalAll bodies (st_wal st) of
           (Some e, w) \<Rightarrow> Some (Inl e, st\<lparr>st_wal := w\<rparr>)
         | (None, w) \<Rightarrow> do {
             st \<leftarrow> applyDeletes seed (map (\<lambda>(i, k, r). (i, k, pkOf t r)) pending) (st\<lparr>st_wal := w\<rparr>);
             Some (Inr (length pending), st)
           })"

definition deleteWhereAll :: "uint64 \<Rightarrow> (Row \<Rightarrow> bool) \<Rightarrow> (Value \<Rightarrow> bytes) option \<Rightarrow>
    (bytes list \<Rightarrow> 'w \<Rightarrow> err option \<times> 'w) option \<Rightarrow> 'w store \<Rightarrow> (nat res \<times> 'w store) option" where
  "deleteWhereAll seed match encode journalAll st =
     (if t_pkDir (st_table st) \<noteq> None then deleteWhereAllPartitioned match encode journalAll st
      else deleteRows seed encode journalAll (filter (\<lambda>(i, k, r). match r) (live_at (st_table st))) st)"

definition deleteByCandidates :: "uint64 \<Rightarrow> UUID list \<Rightarrow> (Row \<Rightarrow> bool) \<Rightarrow> (Value \<Rightarrow> bytes) option \<Rightarrow>
    (bytes list \<Rightarrow> 'w \<Rightarrow> err option \<times> 'w) option \<Rightarrow> 'w store \<Rightarrow> (nat res \<times> 'w store) option" where
  "deleteByCandidates seed pks match encode journalAll st = do {
     rs \<leftarrow> candidateRows seed (st_table st) pks;
     deleteRows seed encode journalAll (filter (\<lambda>(i, k, r). match r) rs) st
   }"

section \<open>Reads\<close>

definition liveCount :: "table \<Rightarrow> int" where
  "liveCount t = sum_list (map sh_live (t_shards t))"

definition dirtyTooDenseForScan :: "table \<Rightarrow> bool" where
  "dirtyTooDenseForScan t = (if t_readDirtyCount t = 0 then False else t_readDirtyCount t \<ge> liveCount t)"

definition getByPK :: "uint64 \<Rightarrow> table \<Rightarrow> UUID \<Rightarrow> Row option option" where
  "getByPK seed t pk =
     (if t_pkDir t \<noteq> None then Some (getByPKPartitioned (\<lambda>_. t) pk)
      else do {
        found \<leftarrow> rowAt seed t pk;
        Some (case found of Some (_, Some r) \<Rightarrow> Some (Row_Clone r) | _ \<Rightarrow> None)
      })"

definition getByPKProject :: "uint64 \<Rightarrow> table \<Rightarrow> UUID \<Rightarrow> nat list \<Rightarrow> Row option option" where
  "getByPKProject seed t pk ords =
     (if t_pkDir t \<noteq> None then Some (getByPKProjectPartitioned (\<lambda>_. t) pk ords)
      else do {
        found \<leftarrow> rowAt seed t pk;
        Some (case found of Some (_, Some r) \<Rightarrow> Some (projectClone r ords) | _ \<Rightarrow> None)
      })"

definition getByPKProjectInto :: "uint64 \<Rightarrow> table \<Rightarrow> UUID \<Rightarrow> nat list option \<Rightarrow> Value list option option" where
  "getByPKProjectInto seed t pk ords =
     (if t_pkDir t \<noteq> None then Some (getByPKProjectIntoPartitioned (\<lambda>_. t) pk ords)
      else do {
        found \<leftarrow> rowAt seed t pk;
        Some (case found of
            Some (_, Some r) \<Rightarrow>
              Some (case ords of None \<Rightarrow> appendRowClone [] r | Some ords \<Rightarrow> appendProjectClone [] r ords)
          | _ \<Rightarrow> None)
      })"

text \<open>The scan loop over one shard answers whether the callback stopped it.\<close>

fun scan_rows :: "(Row \<Rightarrow> 's \<Rightarrow> bool \<times> 's) \<Rightarrow> Row option list \<Rightarrow> 's \<Rightarrow> bool \<times> 's" where
  "scan_rows fn [] acc = (False, acc)"
| "scan_rows fn (None # rs) acc = scan_rows fn rs acc"
| "scan_rows fn (Some r # rs) acc = (let (go, acc) = fn r acc in if \<not> go then (True, acc) else scan_rows fn rs acc)"

fun scan_shards :: "(Row \<Rightarrow> 's \<Rightarrow> bool \<times> 's) \<Rightarrow> tableShard list \<Rightarrow> 's \<Rightarrow> 's" where
  "scan_shards fn [] acc = acc"
| "scan_shards fn (s # ss) acc =
     (let (stop, acc) = scan_rows fn (sh_rows s) acc in if stop then acc else scan_shards fn ss acc)"

definition scanAll :: "(Row \<Rightarrow> 's \<Rightarrow> bool \<times> 's) \<Rightarrow> table \<Rightarrow> 's \<Rightarrow> 's" where
  "scanAll fn t acc = scan_shards fn (t_shards t) acc"

section \<open>Compaction\<close>

fun compact_loop :: "uint64 \<Rightarrow> table \<Rightarrow> Row option list \<Rightarrow> Row option list \<Rightarrow> pkMap \<Rightarrow> (Row option list \<times> pkMap) option" where
  "compact_loop seed t [] newRows newPk = Some (newRows, newPk)"
| "compact_loop seed t (None # rs) newRows newPk = compact_loop seed t rs newRows newPk"
| "compact_loop seed t (Some r # rs) newRows newPk = do {
     newPk \<leftarrow> pk_put seed newPk (pkOf t r) (length newRows);
     compact_loop seed t rs (newRows @ [Some r]) newPk
   }"

fun compact_partitioned_loop :: "table \<Rightarrow> nat \<Rightarrow> Row option list \<Rightarrow> Row option list \<Rightarrow> (UUID \<Rightarrow> nat list option) \<Rightarrow>
    (UUID \<Rightarrow> rowLocation option) \<Rightarrow> Row option list \<times> (UUID \<Rightarrow> nat list option) \<times> (UUID \<Rightarrow> rowLocation option)" where
  "compact_partitioned_loop t i [] newRows tails dir = (newRows, tails, dir)"
| "compact_partitioned_loop t i (None # rs) newRows tails dir = compact_partitioned_loop t i rs newRows tails dir"
| "compact_partitioned_loop t i (Some r # rs) newRows tails dir =
     (let k = length newRows; part = partOf t r
      in compact_partitioned_loop t i rs (newRows @ [Some r])
           (tails(part \<mapsto> (case tails part of None \<Rightarrow> [] | Some ids \<Rightarrow> ids) @ [k]))
           (dir(pkOf t r \<mapsto> \<lparr>loc_shard = i, loc_rowID = k\<rparr>)))"

definition compactShardLocked :: "uint64 \<Rightarrow> nat \<Rightarrow> table \<Rightarrow> table option" where
  "compactShardLocked seed i t =
     (let s = t_shards t ! i in
      case t_pkDir t of
        Some dir \<Rightarrow>
          let (newRows, tails, dir) = compact_partitioned_loop t i (sh_rows s) [] Map.empty dir
          in Some ((setShard i (s\<lparr>sh_rows := newRows, sh_tails := tails, sh_tailsDead := Map.empty\<rparr>) t)\<lparr>t_pkDir := Some dir\<rparr>)
      | None \<Rightarrow> do {
          (newRows, newPk) \<leftarrow> compact_loop seed t (sh_rows s) [] (pk_init (nat (sh_live s)) emptyPkMap);
          Some (setShard i (s\<lparr>sh_rows := newRows, sh_pk := newPk\<rparr>) t)
        })"

definition compactShard :: "uint64 \<Rightarrow> nat \<Rightarrow> table \<Rightarrow> table option" where
  "compactShard seed i t = compactShardLocked seed i t"

definition compactMinSlots :: nat where "compactMinSlots = 64"

definition shardDense :: "tableShard \<Rightarrow> bool" where
  "shardDense s \<longleftrightarrow> int (length (sh_rows s)) - sh_live s > sh_live s \<and> length (sh_rows s) \<ge> compactMinSlots"

text \<open>\<open>before\<close> is the table at the pre-check, \<open>t\<close> the table once the write lock is held.\<close>

definition compactShardIfDense :: "uint64 \<Rightarrow> nat \<Rightarrow> table \<Rightarrow> table \<Rightarrow> table option" where
  "compactShardIfDense seed i before t =
     (if \<not> shardDense (t_shards before ! i) then Some t
      else if shardDense (t_shards t ! i) then compactShardLocked seed i t else Some t)"

end
