(* ===== verification/StoreInv.thy ===== *)
theory StoreInv
  imports StoreOps
begin

text \<open>
  The invariant of a table without partitions and what every operation does to the map from primary
  key to row that the table stands for: the operation returns, keeps the invariant and the byte
  accounting, and acts on the map as its specification says, on every branch, errors included.
\<close>

section \<open>The invariant\<close>

text \<open>The primary key map of a shard indexes exactly its live rows.\<close>

definition arena_index :: "Row option list \<Rightarrow> (UUID \<Rightarrow> nat option) \<Rightarrow> (Row \<Rightarrow> UUID) \<Rightarrow> bool" where
  "arena_index rs m pkof \<longleftrightarrow>
     (\<forall>k rid. m k = Some rid \<longleftrightarrow> rid < length rs \<and> (\<exists>r. rs ! rid = Some r \<and> pkof r = k))"

definition shard_inv :: "uint64 \<Rightarrow> table \<Rightarrow> nat \<Rightarrow> tableShard \<Rightarrow> bool" where
  "shard_inv seed t i s \<longleftrightarrow>
     pk_inv seed (sh_pk s) \<and> arena_index (sh_rows s) (pk_abs (sh_pk s)) (pkOf t) \<and>
     (\<forall>r. Some r \<in> set (sh_rows s) \<longrightarrow> shardIdxOf t (pkOf t r) = i) \<and> tally_ok (nIdx t) s"

definition shards_ok :: "table \<Rightarrow> bool" where
  "shards_ok t \<longleftrightarrow> (\<exists>k \<le> 31. length (t_shards t) = 2 ^ k \<and> t_mask t = word_of_nat (2 ^ k - 1))"

definition table_inv :: "uint64 \<Rightarrow> table \<Rightarrow> bool" where
  "table_inv seed t \<longleftrightarrow> t_pkDir t = None \<and> shards_ok t \<and>
     (\<forall>i < length (t_shards t). shard_inv seed t i (t_shards t ! i))"

text \<open>The map a table stands for.\<close>

definition shard_abs :: "tableShard \<Rightarrow> UUID \<Rightarrow> Row option" where
  "shard_abs s k = (case pk_abs (sh_pk s) k of None \<Rightarrow> None | Some rid \<Rightarrow> sh_rows s ! rid)"

definition tbl_abs :: "table \<Rightarrow> UUID \<Rightarrow> Row option" where
  "tbl_abs t k = shard_abs (t_shards t ! shardIdxOf t k) k"

text \<open>The bytes held by a table, and the budget that accounts for them (\<open>base\<close>: the other tables).\<close>

definition tbl_bytes :: "table \<Rightarrow> int" where
  "tbl_bytes t = sum_list (map sh_bytes (t_shards t))"

definition budget_ok :: "int \<Rightarrow> 'w store \<Rightarrow> bool" where
  "budget_ok base st \<longleftrightarrow> ceiling (st_budget st) = 0 \<or> total (st_budget st) = base + tbl_bytes (st_table st)"

section \<open>Routing\<close>

lemma table_upd_simps [simp]:
  "shardIdxOf (t\<lparr>t_shards := x\<rparr>) = shardIdxOf t" "shardIdxOf (t\<lparr>t_readDirtyCount := n\<rparr>) = shardIdxOf t"
  "shardIdxOf (t\<lparr>t_delDirtyCount := n\<rparr>) = shardIdxOf t" "shardIdxOf (t\<lparr>t_indexes := ix\<rparr>) = shardIdxOf t"
  "pkOf (t\<lparr>t_shards := x\<rparr>) = pkOf t" "pkOf (t\<lparr>t_readDirtyCount := n\<rparr>) = pkOf t"
  "pkOf (t\<lparr>t_delDirtyCount := n\<rparr>) = pkOf t" "pkOf (t\<lparr>t_indexes := ix\<rparr>) = pkOf t"
  "nIdx (t\<lparr>t_shards := x\<rparr>) = nIdx t" "nIdx (t\<lparr>t_readDirtyCount := n\<rparr>) = nIdx t"
  "nIdx (t\<lparr>t_delDirtyCount := n\<rparr>) = nIdx t"
  by (simp_all add: shardIdxOf_def pkOf_def pkOrd_def nIdx_def fun_eq_iff)

lemma table_of_markDirty [simp]:
  "shardIdxOf (markDirty i pk t) = shardIdxOf t" "pkOf (markDirty i pk t) = pkOf t"
  "nIdx (markDirty i pk t) = nIdx t" "t_pkDir (markDirty i pk t) = t_pkDir t" "t_mask (markDirty i pk t) = t_mask t"
  "length (t_shards (markDirty i pk t)) = length (t_shards t)" "t_indexes (markDirty i pk t) = t_indexes t"
  "t_def (markDirty i pk t) = t_def t"
  by (simp_all add: markDirty_def)

lemma table_of_markDelDirty [simp]:
  "shardIdxOf (markDelDirty i pk t) = shardIdxOf t" "pkOf (markDelDirty i pk t) = pkOf t"
  "nIdx (markDelDirty i pk t) = nIdx t" "t_pkDir (markDelDirty i pk t) = t_pkDir t" "t_mask (markDelDirty i pk t) = t_mask t"
  "length (t_shards (markDelDirty i pk t)) = length (t_shards t)" "t_indexes (markDelDirty i pk t) = t_indexes t"
  "t_def (markDelDirty i pk t) = t_def t"
  by (simp_all add: markDelDirty_def)

lemma shardIdxOf_less: "shards_ok t \<Longrightarrow> shardIdxOf t u < length (t_shards t)"
proof -
  assume "shards_ok t"
  then obtain k where k: "k \<le> 31" "length (t_shards t) = 2 ^ k" "t_mask t = word_of_nat (2 ^ k - 1)"
    by (auto simp: shards_ok_def)
  have "unat (t_mask t) = 2 ^ k - 1"
  proof -
    have "(2 :: nat) ^ k \<le> 2 ^ 31" using k(1) by (intro power_increasing) simp_all
    then have "2 ^ k - 1 < (2 :: nat) ^ LENGTH(32)" by simp
    then show ?thesis unfolding k(3) by (rule unat_word_of_nat_small)
  qed
  moreover have "unat (w AND t_mask t) \<le> unat (t_mask t)" for w :: uint32
    using word_and_le1 [of w "t_mask t"] by (simp add: word_le_nat_alt)
  ultimately have "unat (w AND t_mask t) < 2 ^ k" for w :: uint32
    by (metis le_imp_less_Suc Suc_pred' zero_less_numeral zero_less_power)
  then show ?thesis unfolding shardIdxOf_def Let_def k(2) .
qed

section \<open>Arenas\<close>

lemma arena_indexI:
  assumes "\<And>k rid. m k = Some rid \<Longrightarrow> rid < length rs \<and> (\<exists>r. rs ! rid = Some r \<and> pkof r = k)"
    and "\<And>rid r. rid < length rs \<Longrightarrow> rs ! rid = Some r \<Longrightarrow> m (pkof r) = Some rid"
  shows "arena_index rs m pkof"
  using assms unfolding arena_index_def by blast

lemma arena_index_row:
  assumes "arena_index rs m pkof" and "m k = Some rid"
  obtains r where "rid < length rs" "rs ! rid = Some r" "pkof r = k"
  using assms unfolding arena_index_def by blast

lemma arena_index_entry: "arena_index rs m pkof \<Longrightarrow> rid < length rs \<Longrightarrow> rs ! rid = Some r \<Longrightarrow> m (pkof r) = Some rid"
  unfolding arena_index_def by blast

lemma arena_index_append:
  assumes "arena_index rs m pkof" and "m (pkof r) = None"
  shows "arena_index (rs @ [Some r]) (m(pkof r \<mapsto> length rs)) pkof"
proof (rule arena_indexI)
  fix k rid assume "(m(pkof r \<mapsto> length rs)) k = Some rid"
  then show "rid < length (rs @ [Some r]) \<and> (\<exists>r'. (rs @ [Some r]) ! rid = Some r' \<and> pkof r' = k)"
    using assms(1) by (auto simp: nth_append split: if_splits elim: arena_index_row)
next
  fix rid r' assume a: "rid < length (rs @ [Some r])" "(rs @ [Some r]) ! rid = Some r'"
  show "(m(pkof r \<mapsto> length rs)) (pkof r') = Some rid"
  proof (cases "rid = length rs")
    case False
    with a have "m (pkof r') = Some rid" by (auto simp: nth_append intro: arena_index_entry [OF assms(1)])
    with assms(2) show ?thesis by auto
  qed (use a in simp)
qed

lemma arena_index_delete:
  assumes "arena_index rs m pkof" and "m k = Some i"
  shows "arena_index (rs[i := None]) (m(k := None)) pkof"
proof (rule arena_indexI)
  from assms obtain r where r: "i < length rs" "rs ! i = Some r" "pkof r = k" by (rule arena_index_row)
  {
    fix k' rid assume a: "(m(k := None)) k' = Some rid"
    then have k': "k' \<noteq> k" "m k' = Some rid" by (auto split: if_splits)
    from assms(1) k'(2) obtain r' where r': "rid < length rs" "rs ! rid = Some r'" "pkof r' = k'" by (rule arena_index_row)
    with k' r show "rid < length (rs[i := None]) \<and> (\<exists>r'. rs[i := None] ! rid = Some r' \<and> pkof r' = k')"
      by (cases "rid = i") auto
  next
    fix rid r' assume "rid < length (rs[i := None])" "rs[i := None] ! rid = Some r'"
    then have a: "rid \<noteq> i" "rid < length rs" "rs ! rid = Some r'"
      using r(1) by (auto simp: nth_list_update split: if_splits)
    with assms(1) have "m (pkof r') = Some rid" by (auto intro: arena_index_entry)
    with a(1) assms(2) show "(m(k := None)) (pkof r') = Some rid" by auto
  }
qed

lemma arena_index_replace:
  assumes "arena_index rs m pkof" and "i < length rs" and "rs ! i = Some r" and "pkof r' = pkof r"
  shows "arena_index (rs[i := Some r']) m pkof"
proof (rule arena_indexI)
  fix k rid assume "m k = Some rid"
  with assms(1) obtain r2 where r2: "rid < length rs" "rs ! rid = Some r2" "pkof r2 = k" by (rule arena_index_row)
  with assms show "rid < length (rs[i := Some r']) \<and> (\<exists>r''. rs[i := Some r'] ! rid = Some r'' \<and> pkof r'' = k)"
    by (cases "rid = i") auto
next
  fix rid r2 assume "rid < length (rs[i := Some r'])" "rs[i := Some r'] ! rid = Some r2"
  then show "m (pkof r2) = Some rid"
    using assms by (cases "rid = i") (auto intro: arena_index_entry)
qed

lemma shard_abs_Some:
  assumes "arena_index (sh_rows s) (pk_abs (sh_pk s)) pkof" and "shard_abs s k = Some r"
  obtains rid where "pk_abs (sh_pk s) k = Some rid" "rid < length (sh_rows s)" "sh_rows s ! rid = Some r" "pkof r = k"
proof -
  from assms(2) obtain rid where rid: "pk_abs (sh_pk s) k = Some rid" "sh_rows s ! rid = Some r"
    by (auto simp: shard_abs_def split: option.splits)
  from assms(1) rid(1) obtain r' where "rid < length (sh_rows s)" "sh_rows s ! rid = Some r'" "pkof r' = k"
    by (rule arena_index_row)
  with rid that show thesis by simp
qed

lemma shard_abs_None:
  assumes "arena_index (sh_rows s) (pk_abs (sh_pk s)) pkof"
  shows "shard_abs s k = None \<longleftrightarrow> pk_abs (sh_pk s) k = None"
proof (cases "pk_abs (sh_pk s) k")
  case (Some rid)
  with assms obtain r where "sh_rows s ! rid = Some r" by (rule arena_index_row)
  with Some show ?thesis by (simp add: shard_abs_def)
qed (simp add: shard_abs_def)


section \<open>One shard changes\<close>

lemma shard_inv_upd [simp]:
  "shard_inv seed (t\<lparr>t_shards := x\<rparr>) = shard_inv seed t"
  "shard_inv seed (t\<lparr>t_readDirtyCount := n\<rparr>) = shard_inv seed t"
  "shard_inv seed (t\<lparr>t_delDirtyCount := n\<rparr>) = shard_inv seed t"
  by (simp_all add: shard_inv_def fun_eq_iff)

text \<open>The dirty lists play no part in the invariant or in the abstraction.\<close>

lemma shard_dirty [simp]:
  "shard_inv seed t i (s\<lparr>sh_dirtyRead := x\<rparr>) = shard_inv seed t i s" "shard_abs (s\<lparr>sh_dirtyRead := x\<rparr>) = shard_abs s"
  "shard_inv seed t i (s\<lparr>sh_dirtyDel := x\<rparr>) = shard_inv seed t i s" "shard_abs (s\<lparr>sh_dirtyDel := x\<rparr>) = shard_abs s"
  by (simp_all add: shard_inv_def shard_abs_def tally_ok_def fun_eq_iff cong: option.case_cong)

lemma table_inv_setShard:
  assumes "table_inv seed t" and "shard_inv seed t i s"
  shows "table_inv seed (setShard i s t)"
proof -
  have "shard_inv seed t k ((t_shards t)[i := s] ! k)" if "k < length (t_shards t)" for k
    using assms that by (cases "k = i") (simp_all add: table_inv_def)
  then show ?thesis using assms(1) by (simp add: table_inv_def shards_ok_def)
qed

lemma tbl_abs_setShard:
  assumes "i < length (t_shards t)"
  shows "tbl_abs (setShard i s t) k = (if shardIdxOf t k = i then shard_abs s k else tbl_abs t k)"
  using assms by (simp add: tbl_abs_def)

lemma tbl_bytes_setShard:
  assumes "i < length (t_shards t)"
  shows "tbl_bytes (setShard i s t) = tbl_bytes t + sh_bytes s - sh_bytes (t_shards t ! i)"
  using assms by (simp add: tbl_bytes_def map_update sum_list_upd)

lemma nth_upd_same: "i < length xs \<Longrightarrow> j < length xs \<Longrightarrow> xs[i := x] ! j = (if j = i then x else xs ! j)"
  by simp

lemma mark_ok:
  assumes "table_inv seed t" and "i < length (t_shards t)"
  shows "table_inv seed (markDirty i pk t) \<and> tbl_abs (markDirty i pk t) = tbl_abs t \<and> tbl_bytes (markDirty i pk t) = tbl_bytes t"
    and "table_inv seed (markDelDirty i pk t) \<and> tbl_abs (markDelDirty i pk t) = tbl_abs t \<and> tbl_bytes (markDelDirty i pk t) = tbl_bytes t"
proof -
  let ?s = "t_shards t ! i"
  have inv: "shard_inv seed t i ?s" using assms by (simp add: table_inv_def)
  let ?t = "setShard i (?s\<lparr>sh_dirtyRead := sh_dirtyRead ?s @ [pk]\<rparr>) t"
  have "table_inv seed ?t" using assms(1) inv by (intro table_inv_setShard) simp_all
  moreover have "tbl_abs ?t = tbl_abs t" by (rule ext, unfold tbl_abs_setShard [OF assms(2)]) (simp add: tbl_abs_def)
  moreover have "tbl_bytes ?t = tbl_bytes t" by (simp add: tbl_bytes_setShard [OF assms(2)])
  moreover have "table_inv seed (?t\<lparr>t_readDirtyCount := n\<rparr>) = table_inv seed ?t"
      "tbl_abs (?t\<lparr>t_readDirtyCount := n\<rparr>) = tbl_abs ?t" "tbl_bytes (?t\<lparr>t_readDirtyCount := n\<rparr>) = tbl_bytes ?t" for n
    by (simp_all add: table_inv_def shards_ok_def tbl_abs_def tbl_bytes_def fun_eq_iff)
  ultimately show "table_inv seed (markDirty i pk t) \<and> tbl_abs (markDirty i pk t) = tbl_abs t \<and> tbl_bytes (markDirty i pk t) = tbl_bytes t"
    using assms(1) by (auto simp: markDirty_def)
  let ?u = "setShard i (?s\<lparr>sh_dirtyDel := sh_dirtyDel ?s @ [pk]\<rparr>) t"
  have "table_inv seed ?u" using assms(1) inv by (intro table_inv_setShard) simp_all
  moreover have "tbl_abs ?u = tbl_abs t" by (rule ext, unfold tbl_abs_setShard [OF assms(2)]) (simp add: tbl_abs_def)
  moreover have "tbl_bytes ?u = tbl_bytes t" by (simp add: tbl_bytes_setShard [OF assms(2)])
  moreover have "table_inv seed (?u\<lparr>t_delDirtyCount := n\<rparr>) = table_inv seed ?u"
      "tbl_abs (?u\<lparr>t_delDirtyCount := n\<rparr>) = tbl_abs ?u" "tbl_bytes (?u\<lparr>t_delDirtyCount := n\<rparr>) = tbl_bytes ?u" for n
    by (simp_all add: table_inv_def shards_ok_def tbl_abs_def tbl_bytes_def fun_eq_iff)
  ultimately show "table_inv seed (markDelDirty i pk t) \<and> tbl_abs (markDelDirty i pk t) = tbl_abs t \<and> tbl_bytes (markDelDirty i pk t) = tbl_bytes t"
    using assms(1) by (auto simp: markDelDirty_def)
qed

text \<open>
  The three ways a write changes a shard: a row is appended under a key that was absent, the row of a
  key is replaced, the row of a key is removed.
\<close>

lemma shard_same_map:
  assumes "shard_inv seed t i s" and "pk_inv seed m" and "pk_abs m = pk_abs (sh_pk s)"
  shows "shard_inv seed t i (s\<lparr>sh_pk := m\<rparr>)" "shard_abs (s\<lparr>sh_pk := m\<rparr>) = shard_abs s"
  using assms by (simp add: shard_inv_def tally_ok_def, intro ext) (simp add: shard_abs_def cong: option.case_cong)

lemma shard_insert:
  assumes inv: "shard_inv seed t i s" and new: "shard_abs s (pkOf t row) = None" and i: "shardIdxOf t (pkOf t row) = i"
    and m: "pk_inv seed m" "pk_abs m = (pk_abs (sh_pk s))(pkOf t row \<mapsto> length (sh_rows s))"
    and s': "s' = (snd (addRow row (rowCost row (nIdx t)) s))\<lparr>sh_pk := m\<rparr>"
  shows "shard_inv seed t i s'" "shard_abs s' = (shard_abs s)(pkOf t row \<mapsto> row)"
    "sh_bytes s' = sh_bytes s + rowCost row (nIdx t)"
proof -
  have ai: "arena_index (sh_rows s) (pk_abs (sh_pk s)) (pkOf t)" and tally: "tally_ok (nIdx t) s"
    using inv by (simp_all add: shard_inv_def)
  have none: "pk_abs (sh_pk s) (pkOf t row) = None" using new shard_abs_None [OF ai] by simp
  have rows: "sh_rows s' = sh_rows s @ [Some row]" and pk': "sh_pk s' = m" by (simp_all add: s' addRow_def)
  have "tally_ok (nIdx t) s'" using tally_addRow [OF tally, of row] by (simp add: s' tally_ok_def)
  moreover have "arena_index (sh_rows s') (pk_abs (sh_pk s')) (pkOf t)"
    unfolding rows pk' m(2) using ai none by (rule arena_index_append)
  ultimately show "shard_inv seed t i s'" using inv m(1) i by (auto simp: shard_inv_def rows pk')
  show "shard_abs s' = (shard_abs s)(pkOf t row \<mapsto> row)"
  proof
    fix k
    show "shard_abs s' k = ((shard_abs s)(pkOf t row \<mapsto> row)) k"
    proof (cases "pk_abs (sh_pk s) k")
      case (Some rid)
      with ai obtain r where "rid < length (sh_rows s)" by (rule arena_index_row)
      with Some none show ?thesis by (auto simp: shard_abs_def rows pk' m(2) nth_append)
    qed (auto simp: shard_abs_def rows pk' m(2) nth_append)
  qed
  show "sh_bytes s' = sh_bytes s + rowCost row (nIdx t)" by (simp add: s' addRow_def)
qed

lemma shard_replace:
  assumes inv: "shard_inv seed t i s" and rid: "pk_abs (sh_pk s) k = Some rid" "sh_rows s ! rid = Some r"
    and r': "pkOf t r' = k"
    and s': "s' = s\<lparr>sh_rows := (sh_rows s)[rid := Some r'], sh_bytes := sh_bytes s + (rowCost r' (nIdx t) - rowCost r (nIdx t))\<rparr>"
  shows "shard_inv seed t i s'" "shard_abs s' = (shard_abs s)(k \<mapsto> r')"
    "sh_bytes s' = sh_bytes s + (rowCost r' (nIdx t) - rowCost r (nIdx t))"
proof -
  have ai: "arena_index (sh_rows s) (pk_abs (sh_pk s)) (pkOf t)" and tally: "tally_ok (nIdx t) s"
    using inv by (simp_all add: shard_inv_def)
  from ai rid(1) obtain r2 where "rid < length (sh_rows s)" "sh_rows s ! rid = Some r2" "pkOf t r2 = k"
    by (rule arena_index_row)
  with rid(2) have len: "rid < length (sh_rows s)" and k: "pkOf t r = k" by simp_all
  have "tally_ok (nIdx t) s'" using tally_replace [OF tally len rid(2), of r'] by (simp add: s')
  moreover have "arena_index (sh_rows s') (pk_abs (sh_pk s')) (pkOf t)"
    using arena_index_replace [where pkof = "pkOf t", OF ai len rid(2)] r' k by (simp add: s')
  moreover have "shardIdxOf t (pkOf t x) = i" if "Some x \<in> set (sh_rows s')" for x
  proof -
    from that have "x = r' \<or> Some x \<in> set (sh_rows s)" using set_update_subset_insert [of "sh_rows s" rid "Some r'"] by (auto simp: s')
    moreover have "Some r \<in> set (sh_rows s)" using len rid(2) by (metis nth_mem)
    ultimately show ?thesis using inv r' k by (auto simp: shard_inv_def)
  qed
  ultimately show "shard_inv seed t i s'" using inv by (simp add: shard_inv_def s')
  show "shard_abs s' = (shard_abs s)(k \<mapsto> r')"
  proof
    fix k'
    show "shard_abs s' k' = ((shard_abs s)(k \<mapsto> r')) k'"
    proof (cases "pk_abs (sh_pk s) k'")
      case (Some rid')
      with ai obtain r3 where "rid' < length (sh_rows s)" "sh_rows s ! rid' = Some r3" "pkOf t r3 = k'" by (rule arena_index_row)
      with Some rid k len show ?thesis by (cases "rid' = rid") (auto simp: shard_abs_def s')
    qed (use rid in \<open>auto simp: shard_abs_def s'\<close>)
  qed
  show "sh_bytes s' = sh_bytes s + (rowCost r' (nIdx t) - rowCost r (nIdx t))" by (simp add: s')
qed

lemma shard_remove:
  assumes inv: "shard_inv seed t i s" and rid: "pk_abs (sh_pk s) k = Some rid" "sh_rows s ! rid = Some r"
    and m: "pk_inv seed m" "pk_abs m = (pk_abs (sh_pk s))(k := None)"
  obtains s1 where "tombstone rid (nIdx t) s b = Some (s1, charge b (- rowCost r (nIdx t)))"
    "shard_inv seed t i (s1\<lparr>sh_pk := m\<rparr>)" "shard_abs (s1\<lparr>sh_pk := m\<rparr>) = (shard_abs s)(k := None)"
    "sh_bytes s1 = sh_bytes s - rowCost r (nIdx t)" "sh_pk s1 = sh_pk s"
    "sh_dirtyRead s1 = sh_dirtyRead s" "sh_dirtyDel s1 = sh_dirtyDel s"
proof -
  have ai: "arena_index (sh_rows s) (pk_abs (sh_pk s)) (pkOf t)" and tally: "tally_ok (nIdx t) s"
    using inv by (simp_all add: shard_inv_def)
  from ai rid(1) obtain r2 where "rid < length (sh_rows s)" "sh_rows s ! rid = Some r2" "pkOf t r2 = k"
    by (rule arena_index_row)
  with rid(2) have len: "rid < length (sh_rows s)" and k: "pkOf t r = k" by simp_all
  obtain s1 where s1: "tombstone rid (nIdx t) s b = Some (s1, charge b (- rowCost r (nIdx t)))" "tally_ok (nIdx t) s1"
      "sh_rows s1 = (sh_rows s)[rid := None]" "sh_pk s1 = sh_pk s" "sh_bytes s1 = sh_bytes s - rowCost r (nIdx t)"
      "sh_dirtyRead s1 = sh_dirtyRead s" "sh_dirtyDel s1 = sh_dirtyDel s"
    using tombstone_ok [OF tally len rid(2)] by metis
  have "tally_ok (nIdx t) (s1\<lparr>sh_pk := m\<rparr>)" using s1(2) by (simp add: tally_ok_def)
  moreover have "arena_index (sh_rows s1) (pk_abs m) (pkOf t)"
    unfolding s1(3) m(2) using ai rid(1) by (rule arena_index_delete)
  moreover have "Some x \<in> set (sh_rows s)" if "Some x \<in> set (sh_rows s1)" for x
    using that set_update_subset_insert [of "sh_rows s" rid None] by (auto simp: s1(3))
  ultimately have "shard_inv seed t i (s1\<lparr>sh_pk := m\<rparr>)" using inv m(1) by (simp add: shard_inv_def)
  moreover have "shard_abs (s1\<lparr>sh_pk := m\<rparr>) = (shard_abs s)(k := None)"
  proof
    fix k'
    show "shard_abs (s1\<lparr>sh_pk := m\<rparr>) k' = ((shard_abs s)(k := None)) k'"
    proof (cases "pk_abs (sh_pk s) k'")
      case (Some rid')
      with ai obtain r3 where "rid' < length (sh_rows s)" "sh_rows s ! rid' = Some r3" "pkOf t r3 = k'" by (rule arena_index_row)
      with Some rid k len show ?thesis by (cases "rid' = rid") (auto simp: shard_abs_def s1(3) m(2))
    qed (simp add: shard_abs_def m(2))
  qed
  ultimately show thesis using s1 that by blast
qed


section \<open>The store\<close>

definition store_inv :: "uint64 \<Rightarrow> int \<Rightarrow> 'w store \<Rightarrow> bool" where
  "store_inv seed base st \<longleftrightarrow> table_inv seed (st_table st) \<and> budget_ok base st"

lemma store_invD:
  assumes "store_inv seed base st"
  shows "table_inv seed (st_table st)" "budget_ok base st" "t_pkDir (st_table st) = None"
    "shardIdxOf (st_table st) u < length (t_shards (st_table st))"
    "shard_inv seed (st_table st) (shardIdxOf (st_table st) u) (t_shards (st_table st) ! shardIdxOf (st_table st) u)"
  using assms shardIdxOf_less [of "st_table st" u] by (auto simp: store_inv_def table_inv_def)

lemma store_inv_wal [simp]: "store_inv seed base (st\<lparr>st_wal := w\<rparr>) = store_inv seed base st"
  by (simp add: store_inv_def budget_ok_def)

lemma budget_charge:
  assumes "budget_ok base st" and "tbl_bytes t' = tbl_bytes (st_table st) + d"
  shows "budget_ok base (st\<lparr>st_table := t', st_budget := charge (st_budget st) d\<rparr>)"
  using assms by (auto simp: budget_ok_def charge_def)

text \<open>One shard is replaced, the budget moves by the change of its tally, and the row of one key changes.\<close>

lemma store_step:
  assumes inv: "store_inv seed base st" and t: "t = st_table st" and i: "i = shardIdxOf t pk"
    and s': "shard_inv seed t i s'" "shard_abs s' = (shard_abs (t_shards t ! i))(pk := new)"
    and d: "sh_bytes s' = sh_bytes (t_shards t ! i) + d"
  shows "store_inv seed base (st\<lparr>st_table := setShard i s' t, st_budget := charge (st_budget st) d\<rparr>)"
    and "tbl_abs (setShard i s' t) = (tbl_abs t)(pk := new)"
proof -
  have i': "i < length (t_shards t)" using store_invD(4) [OF inv, of pk] by (simp add: i t)
  have ti: "table_inv seed t" using inv by (simp add: store_inv_def t)
  have "tbl_bytes (setShard i s' t) = tbl_bytes t + d" by (simp add: tbl_bytes_setShard [OF i'] d)
  then have "budget_ok base (st\<lparr>st_table := setShard i s' t, st_budget := charge (st_budget st) d\<rparr>)"
    using inv by (intro budget_charge) (simp_all add: store_inv_def t)
  then show "store_inv seed base (st\<lparr>st_table := setShard i s' t, st_budget := charge (st_budget st) d\<rparr>)"
    using table_inv_setShard [OF ti s'(1)] by (simp add: store_inv_def)
  show "tbl_abs (setShard i s' t) = (tbl_abs t)(pk := new)"
    by (rule ext, unfold tbl_abs_setShard [OF i']) (auto simp: s'(2) tbl_abs_def i)
qed

lemma store_mark:
  assumes "store_inv seed base st" and "i < length (t_shards (st_table st))"
  shows "store_inv seed base (st\<lparr>st_table := markDirty i pk (st_table st)\<rparr>)"
    "tbl_abs (markDirty i pk (st_table st)) = tbl_abs (st_table st)"
    "store_inv seed base (st\<lparr>st_table := markDelDirty i pk (st_table st)\<rparr>)"
    "tbl_abs (markDelDirty i pk (st_table st)) = tbl_abs (st_table st)"
  using assms mark_ok [of seed "st_table st" i pk] by (auto simp: store_inv_def budget_ok_def)

section \<open>Insert\<close>

text \<open>
  What an insert promises, on the map: a duplicate is refused before the budget and the journal are
  touched, the ceiling before the journal, and a failed append changes nothing but the log.
\<close>

definition insert_spec :: "(UUID \<Rightarrow> Row option) \<Rightarrow> byteBudget \<Rightarrow> 'w mutJournal \<Rightarrow> UUID \<Rightarrow> Row \<Rightarrow> int \<Rightarrow> 'w \<Rightarrow> err option \<times> 'w" where
  "insert_spec m b j pk row cost w =
     (if m pk \<noteq> None then (Some ErrDuplicatePK, w)
      else if ceiling b \<noteq> 0 \<and> total b + cost > ceiling b then (Some ErrCapacity, w)
      else j_insert j row w)"

lemma insertRow_ok:
  assumes inv: "store_inv seed base st" and t: "t = st_table st" and pk: "pk = pkOf t row" and cost: "cost = rowCost row (nIdx t)"
  shows "\<exists>e st'. insertRow seed mark row j st = Some (e, st') \<and> store_inv seed base st' \<and>
    (e, st_wal st') = insert_spec (tbl_abs t) (st_budget st) j pk row cost (st_wal st) \<and>
    tbl_abs (st_table st') = (if e = None then (tbl_abs t)(pk \<mapsto> row) else tbl_abs t) \<and>
    st_budget st' = (if e = None then charge (st_budget st) cost else st_budget st)"
proof -
  define i where "i = shardIdxOf t pk"
  define s where "s = t_shards t ! i"
  note d = store_invD [OF inv, folded t]
  have i: "i < length (t_shards t)" using d(4) by (simp add: i_def)
  have si: "shard_inv seed t i s" using d(5) [of pk] by (simp add: s_def i_def)
  then have pki: "pk_inv seed (sh_pk s)" and ai: "arena_index (sh_rows s) (pk_abs (sh_pk s)) (pkOf t)"
    by (simp_all add: shard_inv_def)
  have m_pk: "tbl_abs t pk = None \<longleftrightarrow> pk_abs (sh_pk s) pk = None"
    using shard_abs_None [OF ai] by (simp add: tbl_abs_def s_def i_def)
  obtain slot m where m: "pk_reserve seed (sh_pk s) pk = Some (slot, pk_abs (sh_pk s) pk \<noteq> None, m)"
      "pk_inv seed m" "pk_abs m = pk_abs (sh_pk s)" "pk_abs (sh_pk s) pk = None \<longrightarrow>
        (\<forall>k. pk_inv seed (pk_commit m slot pk k) \<and> pk_abs (pk_commit m slot pk k) = (pk_abs (sh_pk s))(pk \<mapsto> k))"
    using pki by (rule pkm.reserve_E [where k = pk])
  let ?s = "s\<lparr>sh_pk := m\<rparr>"
  let ?st = "st\<lparr>st_table := setShard i ?s t\<rparr>"
  have s1: "shard_inv seed t i ?s" "shard_abs ?s = shard_abs s"
    using shard_same_map [OF si m(2,3)] by blast+
  have st1: "store_inv seed base ?st" "tbl_abs (setShard i ?s t) = tbl_abs t"
    using store_step [OF inv t i_def s1(1), of "shard_abs s pk" 0] s1(2)
    by (simp_all add: s_def i_def tbl_abs_def fun_upd_idem)
  show ?thesis
  proof (cases "pk_abs (sh_pk s) pk")
    case (Some rid)
    then have "insertRow seed mark row j st = Some (Some ErrDuplicatePK, ?st)"
      using m(1) i d(3) by (simp add: insertRow_def Let_def t [symmetric] pk [symmetric] i_def [symmetric] s_def [symmetric])
    with st1 Some m_pk show ?thesis by (auto simp: insert_spec_def)
  next
    case None
    then have new: "tbl_abs t pk = None" using m_pk by simp
    let ?b = "st_budget st"
    show ?thesis
    proof (cases "ceiling ?b = 0 \<or> total ?b + cost \<le> ceiling ?b")
      case False
      then have "insertRow seed mark row j st = Some (Some ErrCapacity, ?st)"
        using m(1) i d(3) None by (simp add: insertRow_def Let_def t [symmetric] pk [symmetric] i_def [symmetric]
            s_def [symmetric] cost [symmetric] reserve_cases)
      with st1 new False show ?thesis by (auto simp: insert_spec_def)
    next
      case True
      obtain e w where jw: "j_insert j row (st_wal st) = (e, w)" by (cases "j_insert j row (st_wal st)")
      show ?thesis
      proof (cases e)
        case (Some er)
        then have "insertRow seed mark row j st = Some (Some er, ?st\<lparr>st_wal := w\<rparr>)"
          using m(1) i d(3) None True jw by (simp add: insertRow_def Let_def t [symmetric] pk [symmetric]
              i_def [symmetric] s_def [symmetric] cost [symmetric] reserve_cases release_charge)
        moreover have "store_inv seed base (?st\<lparr>st_wal := w\<rparr>)" using st1(1) by (simp only: store_inv_wal)
        ultimately show ?thesis using st1(2) new True jw Some by (auto simp: insert_spec_def)
      next
        case None': None
        define m' where "m' = pk_commit m slot pk (length (sh_rows s))"
        define s' where "s' = (snd (addRow row cost s))\<lparr>sh_pk := m'\<rparr>"
        have m': "pk_inv seed m'" "pk_abs m' = (pk_abs (sh_pk s))(pkOf t row \<mapsto> length (sh_rows s))"
          using m(4) None by (simp_all add: m'_def pk)
        have sa: "shard_abs s (pkOf t row) = None" using shard_abs_None [OF ai] None by (simp add: pk)
        have route: "shardIdxOf t (pkOf t row) = i" by (simp add: i_def pk)
        note ins = shard_insert [OF si sa route m' s'_def [unfolded cost]]
        have sa': "shard_abs s' = (shard_abs (t_shards t ! i))(pk := Some row)" using ins(2) by (simp add: pk s_def)
        have by': "sh_bytes s' = sh_bytes (t_shards t ! i) + cost" using ins(3) by (simp add: s_def cost)
        note step = store_step [OF inv t i_def ins(1) sa' by']
        let ?st' = "st\<lparr>st_table := setShard i s' t, st_budget := charge ?b cost\<rparr>"
        let ?t' = "if mark then markDirty i pk (setShard i s' t) else setShard i s' t"
        note mark = store_mark [OF step(1), of i pk]
        have "insertRow seed mark row j st = Some (None, ?st'\<lparr>st_table := ?t', st_wal := w\<rparr>)"
          using m(1) i d(3) None None' True jw by (simp add: insertRow_def Let_def t [symmetric] pk [symmetric]
              i_def [symmetric] s_def [symmetric] cost [symmetric] reserve_cases addRow_def s'_def m'_def)
        moreover have "store_inv seed base (?st'\<lparr>st_table := ?t', st_wal := w\<rparr>)"
          using mark(1) i step(1) by (cases mark) (simp_all add: store_inv_def budget_ok_def)
        moreover have "tbl_abs ?t' = (tbl_abs t)(pk \<mapsto> row)"
          using mark(2) i step(2) by simp
        ultimately show ?thesis using new True jw None' by (auto simp: insert_spec_def)
      qed
    qed
  qed
qed


section \<open>Finding a row\<close>

lemma rowAt_cases:
  assumes inv: "table_inv seed t"
  obtains (absent) "tbl_abs t pk = None" "rowAt seed t pk = Some None"
    | (present) rid r where "tbl_abs t pk = Some r" "rowAt seed t pk = Some (Some (rid, Some r))"
        "pk_abs (sh_pk (t_shards t ! shardIdxOf t pk)) pk = Some rid" "rid < length (sh_rows (t_shards t ! shardIdxOf t pk))"
        "sh_rows (t_shards t ! shardIdxOf t pk) ! rid = Some r" "pkOf t r = pk"
proof -
  let ?s = "t_shards t ! shardIdxOf t pk"
  have i: "shardIdxOf t pk < length (t_shards t)" using inv shardIdxOf_less by (simp add: table_inv_def)
  then have si: "pk_inv seed (sh_pk ?s)" and ai: "arena_index (sh_rows ?s) (pk_abs (sh_pk ?s)) (pkOf t)"
    using inv by (simp_all add: table_inv_def shard_inv_def)
  show thesis
  proof (cases "pk_abs (sh_pk ?s) pk")
    case None
    then show thesis
      using i by (intro absent) (simp_all add: rowAt_def Let_def pkm.get_abs [OF si] tbl_abs_def shard_abs_def)
  next
    case (Some rid)
    with ai obtain r where "rid < length (sh_rows ?s)" "sh_rows ?s ! rid = Some r" "pkOf t r = pk" by (rule arena_index_row)
    with Some i show thesis
      by (intro present [of r rid]) (simp_all add: rowAt_def Let_def pkm.get_abs [OF si] tbl_abs_def shard_abs_def)
  qed
qed

lemma getByPK_abs:
  assumes "table_inv seed t"
  shows "getByPK seed t pk = Some (map_option Row_Clone (tbl_abs t pk))"
  using assms
  by (cases rule: rowAt_cases [of seed t pk]) (use assms in \<open>auto simp: getByPK_def table_inv_def\<close>)

lemma getByPKProjectInto_abs:
  assumes "table_inv seed t"
  shows "getByPKProjectInto seed t pk (Some ords) = Some (map_option (\<lambda>r. projectClone r ords) (tbl_abs t pk))"
  using assms
  by (cases rule: rowAt_cases [of seed t pk])
    (use assms in \<open>auto simp: getByPKProjectInto_def table_inv_def appendProjectClone_def projectClone_def\<close>)

section \<open>Update\<close>

text \<open>The one-column bodies are the general ones.\<close>

lemma updateOneCell_eq: "updateOneCell i rowID r ord val j st = updateCells i rowID r [ord] [val] j st"
  by (simp add: updateOneCell_def updateCells_def Let_def split: option.split prod.split)

lemma updateTouchesIndex_one: "updateTouchesIndex t [ord] = ordIsIndexed t ord"
  by (simp add: updateTouchesIndex_def)

lemma pkOf_setCells: "setCells r ords vals = Some r' \<Longrightarrow> pkOrd t \<notin> set ords \<Longrightarrow> pkOf t r' = pkOf t r"
  by (simp add: pkOf_def setCells_other)

text \<open>The effect of journaling a new row image.\<close>

definition journaled :: "'w mutJournal \<Rightarrow> Row \<Rightarrow> 'w \<Rightarrow> err option \<times> 'w" where
  "journaled j r w = (if j_live j then j_update j r w else (None, w))"

lemma updateCells_ok:
  assumes inv: "store_inv seed base st" and t: "t = st_table st" and i: "i = shardIdxOf t pk" and s: "s = t_shards t ! i"
    and rid: "pk_abs (sh_pk s) pk = Some rid" "sh_rows s ! rid = Some r"
    and r': "setCells r ords vals = Some r'" and ords: "distinct ords" "pkOrd t \<notin> set ords"
    and jw: "journaled j r' (st_wal st) = (e, w)"
  shows "\<exists>t' b'. updateCells i rid r ords vals j st = Some (e, st\<lparr>st_table := t', st_budget := b', st_wal := w\<rparr>) \<and>
    store_inv seed base (st\<lparr>st_table := t', st_budget := b', st_wal := w\<rparr>) \<and>
    tbl_abs t' = (if e = None then (tbl_abs t)(pk \<mapsto> r') else tbl_abs t) \<and> length (t_shards t') = length (t_shards t) \<and>
    shardIdxOf t' = shardIdxOf t"
proof -
  note d = store_invD [OF inv, folded t]
  have i': "i < length (t_shards t)" using d(4) by (simp add: i)
  have si: "shard_inv seed t i s" using d(5) [of pk] by (simp add: s i)
  then have ai: "arena_index (sh_rows s) (pk_abs (sh_pk s)) (pkOf t)" by (simp add: shard_inv_def)
  from ai rid(1) obtain r2 where "rid < length (sh_rows s)" "sh_rows s ! rid = Some r2" "pkOf t r2 = pk" by (rule arena_index_row)
  with rid(2) have len: "rid < length (sh_rows s)" and pk: "pkOf t r = pk" by simp_all
  have pk': "pkOf t r' = pk" using pkOf_setCells [OF r' ords(2)] pk by simp
  let ?d = "rowCost r' (nIdx t) - rowCost r (nIdx t)"
  define s' where "s' = s\<lparr>sh_rows := (sh_rows s)[rid := Some r'], sh_bytes := sh_bytes s + ?d\<rparr>"
  note rep = shard_replace [OF si rid pk' s'_def]
  have step: "store_inv seed base (st\<lparr>st_table := setShard i s' t, st_budget := charge (st_budget st) ?d\<rparr>)"
    "tbl_abs (setShard i s' t) = (tbl_abs t)(pk \<mapsto> r')"
    using store_step [OF inv t i rep(1), of "Some r'" ?d] rep(2,3) by (simp_all add: s)
  let ?S = "\<lambda>t' b'. st\<lparr>st_table := t', st_budget := b', st_wal := w\<rparr>"
  have S: "store_inv seed base (?S (setShard i s' t) (charge (st_budget st) ?d))"
    using step(1) by (simp add: store_inv_def budget_ok_def)
  show ?thesis
  proof (cases "j_live j")
    case False
    then have e: "e = None" "w = st_wal st" using jw by (simp_all add: journaled_def)
    have "updateCells i rid r ords vals j st = Some (e, ?S (setShard i s' t) (charge (st_budget st) ?d))"
      using False r' by (simp add: updateCells_def Let_def t [symmetric] s [symmetric] setCellsDelta_eq [where n = "nIdx t"]
          addBytes_def adjust_charge s'_def e)
    with S step(2) e show ?thesis
      by (intro exI [of _ "setShard i s' t"] exI [of _ "charge (st_budget st) ?d"]) simp
  next
    case True
    then have jw': "j_update j r' (st_wal st) = (e, w)" using jw by (simp add: journaled_def)
    show ?thesis
    proof (cases e)
      case None
      have "updateCells i rid r ords vals j st = Some (e, ?S (setShard i s' t) (charge (st_budget st) ?d))"
        using True r' jw' None setCells_saved_delta [OF ords(1) r', of "nIdx t"]
        by (simp add: updateCells_def Let_def t [symmetric] s [symmetric] addBytes_def adjust_charge s'_def)
      with S step(2) None show ?thesis
        by (intro exI [of _ "setShard i s' t"] exI [of _ "charge (st_budget st) ?d"]) simp
    next
      case (Some er)
      have "(sh_rows s)[rid := Some r] = sh_rows s" using rid(2) by (metis list_update_id)
      then have same: "setShard i (s\<lparr>sh_rows := (sh_rows s)[rid := Some r]\<rparr>) t = t"
        using i' by (simp add: s [symmetric]) (simp add: s)
      have "updateCells i rid r ords vals j st = Some (e, ?S t (st_budget st))"
        using True r' jw' Some setCells_old [OF r'] same
        by (simp add: updateCells_def Let_def t [symmetric] s [symmetric])
      moreover have "store_inv seed base (?S t (st_budget st))" using inv by (simp add: store_inv_def budget_ok_def t)
      ultimately show ?thesis using Some by (intro exI [of _ t] exI [of _ "st_budget st"]) simp
    qed
  qed
qed

end
