(* ===== verification/StoreSpec.thy ===== *)
theory StoreSpec
  imports StoreInv
begin

text \<open>
  What the writes of a table promise, stated on the map from primary key to row, and the proofs that
  the operations of \<open>store_write.go\<close> and \<open>compact.go\<close> keep it: point updates and deletes, the
  two-pass predicate statements, compaction, and whole histories of operations.
\<close>

section \<open>Update by primary key\<close>

text \<open>
  The update reads the row, computes the new values from it, journals the new image and only then
  replaces the row; a computation or log failure leaves the map as it was.
\<close>

definition update_spec :: "(UUID \<Rightarrow> Row option) \<Rightarrow> UUID \<Rightarrow> nat list \<Rightarrow> (Row \<Rightarrow> Value list res) \<Rightarrow> 'w mutJournal \<Rightarrow>
    'w \<Rightarrow> bool res \<times> (UUID \<Rightarrow> Row option) \<times> 'w" where
  "update_spec m pk ords compute j w =
     (case m pk of None \<Rightarrow> (Inr False, m, w)
      | Some r \<Rightarrow>
          (case compute r of Inl e \<Rightarrow> (Inl e, m, w)
           | Inr vals \<Rightarrow>
               let r' = the (setCells r ords vals) in
               (case journaled j r' w of
                  (Some e, w) \<Rightarrow> (Inl e, m, w)
                | (None, w) \<Rightarrow> (Inr True, m(pk \<mapsto> r'), w))))"

text \<open>
  What the planner guarantees of a SET list on the rows it is applied to: no column twice, never the
  primary key, every column in range, and one value for each; the cells of the row are values the
  constructors build.
\<close>

definition set_ok :: "table \<Rightarrow> nat list \<Rightarrow> (Row \<Rightarrow> Value list res) \<Rightarrow> Row \<Rightarrow> bool" where
  "set_ok t ords compute r \<longleftrightarrow> distinct ords \<and> pkOrd t \<notin> set ords \<and> (\<forall>ord \<in> set ords. ord < length r) \<and>
     (case compute r of Inl e \<Rightarrow> True | Inr vals \<Rightarrow> length vals = length ords) \<and> (\<forall>v \<in> set r. wf_Value v)"

lemma setCells_defined: "\<forall>ord \<in> set ords. ord < length r \<Longrightarrow> length vals = length ords \<Longrightarrow> \<exists>r'. setCells r ords vals = Some r'"
  by (induction r ords vals rule: setCells.induct) auto

lemma set_okD:
  assumes "set_ok t ords compute r" "compute r = Inr vals"
  obtains r' where "setCells r ords vals = Some r'" "distinct ords" "pkOrd t \<notin> set ords"
  using assms setCells_defined [of ords r vals] by (auto simp: set_ok_def)

text \<open>
  Rewriting the row of a key through \<open>updateCells\<close> and marking it dirty when an indexed column
  changed: the part the four point updates share.
\<close>

lemma update_found:
  assumes inv: "store_inv seed base st" and t: "t = st_table st" and i: "i = shardIdxOf t pk" and s: "s = t_shards t ! i"
    and rid: "pk_abs (sh_pk s) pk = Some rid" "sh_rows s ! rid = Some r"
    and r': "setCells r ords vals = Some r'" and ords: "distinct ords" "pkOrd t \<notin> set ords"
    and jw: "journaled j r' (st_wal st) = (e, w)"
  obtains st1 where "updateCells i rid r ords vals j st = Some (e, st1)"
    "\<forall>c. store_inv seed base (if c then st1\<lparr>st_table := markDirty i pk (st_table st1)\<rparr> else st1)"
    "store_inv seed base st1" "st_wal st1 = w"
    "\<forall>c. tbl_abs (st_table (if c then st1\<lparr>st_table := markDirty i pk (st_table st1)\<rparr> else st1)) =
      (if e = None then (tbl_abs t)(pk \<mapsto> r') else tbl_abs t)"
    "tbl_abs (st_table st1) = (if e = None then (tbl_abs t)(pk \<mapsto> r') else tbl_abs t)"
proof -
  obtain t' b' where u: "updateCells i rid r ords vals j st = Some (e, st\<lparr>st_table := t', st_budget := b', st_wal := w\<rparr>)"
      "store_inv seed base (st\<lparr>st_table := t', st_budget := b', st_wal := w\<rparr>)"
      "tbl_abs t' = (if e = None then (tbl_abs t)(pk \<mapsto> r') else tbl_abs t)" "length (t_shards t') = length (t_shards t)"
    using updateCells_ok [OF inv t i s rid r' ords jw] by blast
  let ?st = "st\<lparr>st_table := t', st_budget := b', st_wal := w\<rparr>"
  have len: "i < length (t_shards (st_table ?st))" using store_invD(4) [OF inv, of pk] u(4) by (simp add: i t)
  show thesis
    by (rule that [of ?st]) (use u store_mark [OF u(2) len, of pk] in auto)
qed

lemma updateByPKJournaled_ok:
  assumes inv: "store_inv seed base st" and t: "t = st_table st"
    and ok: "\<forall>r. tbl_abs t pk = Some r \<longrightarrow> set_ok t ords compute r"
  shows "\<exists>x st'. updateByPKJournaled seed pk ords compute j st = Some (x, st') \<and> store_inv seed base st' \<and>
    (x, tbl_abs (st_table st'), st_wal st') = update_spec (tbl_abs t) pk ords compute j (st_wal st)"
proof -
  note d = store_invD [OF inv, folded t]
  from d(1) show ?thesis
  proof (cases rule: rowAt_cases [of seed t pk])
    case absent
    then show ?thesis using inv d(3) by (simp add: updateByPKJournaled_def update_spec_def t [symmetric])
  next
    case (present rid r)
    show ?thesis
    proof (cases "compute r")
      case (Inl e)
      then show ?thesis using present inv d(3) by (simp add: updateByPKJournaled_def update_spec_def t [symmetric])
    next
      case (Inr vals)
      have "set_ok t ords compute r" using ok present(1) by blast
      then obtain r' where r': "setCells r ords vals = Some r'" "distinct ords" "pkOrd t \<notin> set ords"
        using Inr by (rule set_okD)
      obtain e w where jw: "journaled j r' (st_wal st) = (e, w)" by fastforce
      obtain st1 where st1: "updateCells (shardIdxOf t pk) rid r ords vals j st = Some (e, st1)"
          "\<forall>c. store_inv seed base (if c then st1\<lparr>st_table := markDirty (shardIdxOf t pk) pk (st_table st1)\<rparr> else st1)"
          "store_inv seed base st1" "st_wal st1 = w"
          "\<forall>c. tbl_abs (st_table (if c then st1\<lparr>st_table := markDirty (shardIdxOf t pk) pk (st_table st1)\<rparr> else st1)) =
            (if e = None then (tbl_abs t)(pk \<mapsto> r') else tbl_abs t)"
          "tbl_abs (st_table st1) = (if e = None then (tbl_abs t)(pk \<mapsto> r') else tbl_abs t)"
        using update_found [OF inv t refl refl present(3) present(5) r' jw] by blast
      show ?thesis
      proof (cases e)
        case None
        let ?st = "if updateTouchesIndex t ords
            then st1\<lparr>st_table := markDirty (shardIdxOf t pk) pk (st_table st1)\<rparr> else st1"
        have "updateByPKJournaled seed pk ords compute j st = Some (Inr True, ?st)"
          using present(2) Inr st1(1) None d(3) by (simp add: updateByPKJournaled_def t [symmetric] Let_def)
        moreover have "store_inv seed base ?st" using st1(2) by blast
        moreover have "tbl_abs (st_table ?st) = (tbl_abs t)(pk \<mapsto> r')" using st1(5) None by auto
        moreover have "st_wal ?st = w" using st1(4) by simp
        ultimately show ?thesis using present(1) Inr r'(1) jw None by (auto simp: update_spec_def)
      next
        case (Some er)
        have "updateByPKJournaled seed pk ords compute j st = Some (Inl er, st1)"
          using present(2) Inr st1(1) Some d(3) by (simp add: updateByPKJournaled_def t [symmetric] Let_def)
        then show ?thesis using present(1) Inr r'(1) jw Some st1 by (auto simp: update_spec_def)
      qed
    qed
  qed
qed

text \<open>The one-column forms are the general ones on a singleton SET list.\<close>

lemma updateByPKOneJournaled_eq:
  "updateByPKOneJournaled seed pk ord compute j st =
     updateByPKJournaled seed pk [ord] (\<lambda>r. andThen (compute r) (\<lambda>v. Inr [v])) j st"
proof -
  have "updateByPKOneJournaledPartitioned pk ord compute j st =
      updateByPKJournaledPartitioned pk [ord] (\<lambda>r. andThen (compute r) (\<lambda>v. Inr [v])) j st"
    by (simp add: updateByPKOneJournaledPartitioned_def updateByPKJournaledPartitioned_def updateOneCell_eq
        split: option.split prod.split sum.split)
  then show ?thesis
    unfolding updateByPKOneJournaled_def updateByPKJournaled_def Let_def updateTouchesIndex_one updateOneCell_eq
    by (cases "rowAt seed (st_table st) pk") (simp_all split: option.split prod.split sum.split)
qed

text \<open>The single-candidate update is the point update restricted to a row that passes the WHERE.\<close>

lemma updateOneByCandidate_eq:
  assumes inv: "store_inv seed base st" and t: "t = st_table st"
  shows "updateOneByCandidate seed pk ord match compute j st =
    (case tbl_abs t pk of None \<Rightarrow> Some (Inr 0, st)
     | Some r \<Rightarrow> if \<not> match r then Some (Inr 0, st)
         else map_option (\<lambda>(x, st'). (andThen x (\<lambda>ok. Inr (1 :: nat)), st')) (updateByPKOneJournaled seed pk ord compute j st))"
proof -
  note d = store_invD [OF inv, folded t]
  from d(1) show ?thesis
    by (cases rule: rowAt_cases [of seed t pk])
      (use d(3) in \<open>auto simp: updateOneByCandidate_def updateByPKOneJournaled_def t [symmetric] Let_def
         split: option.split sum.split bind_split\<close>)
qed

lemma store_upd_swap: "st\<lparr>st_budget := b, st_table := t\<rparr> = st\<lparr>st_table := t, st_budget := b\<rparr>"
  by simp

lemma shard_upd_swap: "s\<lparr>sh_bytes := n, sh_rows := rs\<rparr> = s\<lparr>sh_rows := rs, sh_bytes := n\<rparr>"
  by simp

text \<open>The replay update: it rewrites the row, and refuses a result that is nil or has another primary key.\<close>

lemma storeUpdate_ok:
  assumes inv: "store_inv seed base st" and t: "t = st_table st"
  shows "\<exists>st'. storeUpdate seed pk mutate st =
      Some (case Option.bind (tbl_abs t pk) mutate of None \<Rightarrow> False | Some nr \<Rightarrow> pkOf t nr = pk, st') \<and>
    store_inv seed base st' \<and> st_wal st' = st_wal st \<and>
    tbl_abs (st_table st') = (case Option.bind (tbl_abs t pk) mutate of None \<Rightarrow> tbl_abs t
      | Some nr \<Rightarrow> if pkOf t nr = pk then (tbl_abs t)(pk \<mapsto> nr) else tbl_abs t)"
proof -
  note d = store_invD [OF inv, folded t]
  from d(1) show ?thesis
  proof (cases rule: rowAt_cases [of seed t pk])
    case absent
    then show ?thesis using inv d(3) by (simp add: storeUpdate_def t [symmetric])
  next
    case (present rid r)
    show ?thesis
    proof (cases "\<exists>nr. mutate r = Some nr \<and> pkOf t nr = pk")
      case False
      then show ?thesis using present inv d(3)
        by (auto simp: storeUpdate_def t [symmetric] Let_def split: option.split)
    next
      case True
      then obtain nr where nr: "mutate r = Some nr" "pkOf t nr = pk" by blast
      let ?i = "shardIdxOf t pk" and ?d = "rowCost nr (nIdx t) - rowCost r (nIdx t)"
      let ?s = "t_shards t ! ?i"
      define s' where "s' = ?s\<lparr>sh_rows := (sh_rows ?s)[rid := Some nr], sh_bytes := sh_bytes ?s + ?d\<rparr>"
      note rep = shard_replace [OF d(5) [of pk] present(3,5) nr(2) s'_def]
      note step = store_step [OF inv t refl rep(1,2), of ?d, OF rep(3)]
      have "storeUpdate seed pk mutate st = Some (True, st\<lparr>st_table := markDirty ?i pk (setShard ?i s' t),
          st_budget := charge (st_budget st) ?d\<rparr>)"
        using present(2) nr d(3)
        by (simp add: storeUpdate_def t [symmetric] Let_def addBytes_def adjust_charge s'_def shard_upd_swap)
      then show ?thesis using present(1) nr store_mark(1,2) [OF step(1), of ?i pk] step(2) d(4) by (simp add: store_upd_swap)
    qed
  qed
qed

section \<open>Delete by primary key\<close>

definition delete_spec :: "(UUID \<Rightarrow> Row option) \<Rightarrow> UUID \<Rightarrow> (Row \<Rightarrow> bool) \<Rightarrow> 'w mutJournal \<Rightarrow> 'w \<Rightarrow>
    bool res \<times> (UUID \<Rightarrow> Row option) \<times> 'w" where
  "delete_spec m pk match j w =
     (if case m pk of None \<Rightarrow> True | Some r \<Rightarrow> \<not> match r then (Inr False, m, w)
      else case j_delete j w of (Some e, w) \<Rightarrow> (Inl e, m, w) | (None, w) \<Rightarrow> (Inr True, m(pk := None), w))"

text \<open>The removal of a found row, whichever map call drops the entry.\<close>

lemma remove_step:
  assumes inv: "store_inv seed base st" and t: "t = st_table st" and i: "i = shardIdxOf t pk" and s: "s = t_shards t ! i"
    and rid: "pk_abs (sh_pk s) pk = Some rid" "sh_rows s ! rid = Some r"
    and m: "pk_inv seed m" "pk_abs m = (pk_abs (sh_pk s))(pk := None)"
  obtains s1 b1 where "tombstone rid (nIdx t) s (st_budget st) = Some (s1, b1)" "sh_pk s1 = sh_pk s"
    "store_inv seed base (st\<lparr>st_table := markDelDirty i pk (setShard i (s1\<lparr>sh_pk := m\<rparr>) t), st_budget := b1\<rparr>)"
    "tbl_abs (markDelDirty i pk (setShard i (s1\<lparr>sh_pk := m\<rparr>) t)) = (tbl_abs t)(pk := None)"
proof -
  note d = store_invD [OF inv, folded t]
  have si: "shard_inv seed t i s" using d(5) [of pk] by (simp add: s i)
  obtain s1 where s1: "tombstone rid (nIdx t) s (st_budget st) = Some (s1, charge (st_budget st) (- rowCost r (nIdx t)))"
      "shard_inv seed t i (s1\<lparr>sh_pk := m\<rparr>)" "shard_abs (s1\<lparr>sh_pk := m\<rparr>) = (shard_abs s)(pk := None)"
      "sh_bytes s1 = sh_bytes s - rowCost r (nIdx t)" "sh_pk s1 = sh_pk s"
    using shard_remove [OF si rid m, of "st_budget st"] by metis
  have bytes: "sh_bytes (s1\<lparr>sh_pk := m\<rparr>) = sh_bytes (t_shards t ! i) + - rowCost r (nIdx t)" using s1(4) by (simp add: s)
  note step = store_step [OF inv t i s1(2) s1(3) [unfolded s] bytes]
  have len: "i < length (t_shards (setShard i (s1\<lparr>sh_pk := m\<rparr>) t))" using d(4) by (simp add: i)
  show thesis
    by (rule that [OF s1(1,5)]) (use store_mark(3,4) [OF step(1), of i pk] step(2) len in \<open>simp_all add: store_upd_swap\<close>)
qed

lemma removeFound_ok:
  assumes inv: "store_inv seed base st" and t: "t = st_table st" and some: "tbl_abs t pk = Some r"
  obtains slot rid where "pk_find seed (sh_pk (t_shards t ! shardIdxOf t pk)) pk = Some (Some (slot, rid))"
    "rid < length (sh_rows (t_shards t ! shardIdxOf t pk))" "sh_rows (t_shards t ! shardIdxOf t pk) ! rid = Some r"
    "\<forall>w. \<exists>st'. removeFound seed pk slot rid (st\<lparr>st_wal := w\<rparr>) = Some st' \<and> store_inv seed base st' \<and>
      tbl_abs (st_table st') = (tbl_abs t)(pk := None) \<and> st_wal st' = w"
proof -
  note d = store_invD [OF inv, folded t]
  let ?s = "t_shards t ! shardIdxOf t pk"
  have pki: "pk_inv seed (sh_pk ?s)" using d(5) by (simp add: shard_inv_def)
  from d(1) show thesis
  proof (cases rule: rowAt_cases [of seed t pk])
    case absent
    with some show thesis by simp
  next
    case (present rid r')
    with some have r: "sh_rows ?s ! rid = Some r" by simp
    obtain slot m where m: "pk_find seed (sh_pk ?s) pk = Some (Some (slot, rid))" "pk_delAt seed (sh_pk ?s) slot = Some m"
        "pk_inv seed m" "pk_abs m = (pk_abs (sh_pk ?s))(pk := None)"
      using pkm.find_delAt_E [OF pki present(3)] by blast
    have "\<exists>st'. removeFound seed pk slot rid (st\<lparr>st_wal := w\<rparr>) = Some st' \<and> store_inv seed base st' \<and>
        tbl_abs (st_table st') = (tbl_abs t)(pk := None) \<and> st_wal st' = w" for w
    proof -
      have inv': "store_inv seed base (st\<lparr>st_wal := w\<rparr>)" using inv by simp
      have t': "t = st_table (st\<lparr>st_wal := w\<rparr>)" by (simp add: t)
      obtain s1 b1 where s1: "tombstone rid (nIdx t) ?s (st_budget st) = Some (s1, b1)" "sh_pk s1 = sh_pk ?s"
          "store_inv seed base (st\<lparr>st_wal := w, st_table := markDelDirty (shardIdxOf t pk) pk
             (setShard (shardIdxOf t pk) (s1\<lparr>sh_pk := m\<rparr>) t), st_budget := b1\<rparr>)"
          "tbl_abs (markDelDirty (shardIdxOf t pk) pk (setShard (shardIdxOf t pk) (s1\<lparr>sh_pk := m\<rparr>) t)) = (tbl_abs t)(pk := None)"
        using remove_step [OF inv' t' refl refl present(3) r m(3,4)] by auto
      then show ?thesis using m(2) by (simp add: removeFound_def Let_def t [symmetric])
    qed
    then show thesis using that m(1) present(4) r by blast
  qed
qed

lemma pk_find_absent: "store_inv seed base st \<Longrightarrow> tbl_abs (st_table st) pk = None \<Longrightarrow>
    pk_find seed (sh_pk (t_shards (st_table st) ! shardIdxOf (st_table st) pk)) pk = Some None"
  using store_invD(5) [of seed base st pk] pkm.find_None
  by (auto simp: shard_inv_def tbl_abs_def shard_abs_None)

lemma deleteOneByCandidate_ok:
  assumes inv: "store_inv seed base st" and t: "t = st_table st"
  shows "\<exists>x st'. deleteOneByCandidate seed pk match j st = Some (x, st') \<and> store_inv seed base st' \<and>
    (x, tbl_abs (st_table st'), st_wal st') =
      delete_spec (tbl_abs t) pk (case match of None \<Rightarrow> \<lambda>_. True | Some f \<Rightarrow> f) j (st_wal st)"
proof (cases "tbl_abs t pk")
  case None
  then show ?thesis using inv store_invD(3,4) [OF inv] pk_find_absent [OF inv, of pk] t
    by (simp add: deleteOneByCandidate_def delete_spec_def Let_def not_le)
next
  case (Some r)
  note d = store_invD [OF inv, folded t]
  obtain e w where jw: "j_delete j (st_wal st) = (e, w)" by fastforce
  obtain slot rid where f: "pk_find seed (sh_pk (t_shards t ! shardIdxOf t pk)) pk = Some (Some (slot, rid))"
      "rid < length (sh_rows (t_shards t ! shardIdxOf t pk))" "sh_rows (t_shards t ! shardIdxOf t pk) ! rid = Some r"
      "\<forall>w. \<exists>st'. removeFound seed pk slot rid (st\<lparr>st_wal := w\<rparr>) = Some st' \<and> store_inv seed base st' \<and>
        tbl_abs (st_table st') = (tbl_abs t)(pk := None) \<and> st_wal st' = w"
    using removeFound_ok [OF inv t Some] by blast
  from f(4) obtain st' where st': "removeFound seed pk slot rid (st\<lparr>st_wal := w\<rparr>) = Some st'" "store_inv seed base st'"
      "tbl_abs (st_table st') = (tbl_abs t)(pk := None)" "st_wal st' = w" by blast
  show ?thesis
    using f(1-3) st' Some d(4) [of pk] jw inv
    by (cases e; cases match) (auto simp: deleteOneByCandidate_def delete_spec_def Let_def t [symmetric] not_le)
qed

text \<open>\<open>deleteByPKJournaled\<close> is the candidate delete without a residual WHERE.\<close>

lemma deleteByPKJournaled_ok:
  assumes inv: "store_inv seed base st" and t: "t = st_table st"
  shows "\<exists>x st'. deleteByPKJournaled seed pk j st = Some (x, st') \<and> store_inv seed base st' \<and>
    (x, tbl_abs (st_table st'), st_wal st') = delete_spec (tbl_abs t) pk (\<lambda>_. True) j (st_wal st)"
proof -
  note d = store_invD [OF inv, folded t]
  have "deleteByPKJournaled seed pk j st = deleteOneByCandidate seed pk None j st"
  proof (cases "tbl_abs t pk")
    case None
    then show ?thesis using d(3,4) pk_find_absent [OF inv, of pk] t
      by (simp add: deleteOneByCandidate_def deleteByPKJournaled_def Let_def not_le)
  next
    case (Some r)
    obtain slot rid where f: "pk_find seed (sh_pk (t_shards t ! shardIdxOf t pk)) pk = Some (Some (slot, rid))"
        "rid < length (sh_rows (t_shards t ! shardIdxOf t pk))" "sh_rows (t_shards t ! shardIdxOf t pk) ! rid = Some r"
      using removeFound_ok [OF inv t Some] by blast
    then show ?thesis using d(3) d(4) [of pk] by (simp add: deleteOneByCandidate_def deleteByPKJournaled_def Let_def t [symmetric] not_le)
  qed
  then show ?thesis using deleteOneByCandidate_ok [OF inv t, of pk None j] by simp
qed

lemma deleteRow_ok:
  assumes inv: "store_inv seed base st" and t: "t = st_table st" and i: "i = shardIdxOf t pk"
    and rid: "case rid of None \<Rightarrow> True | Some k \<Rightarrow> pk_abs (sh_pk (t_shards t ! i)) pk = Some k"
  shows "\<exists>st'. deleteRow seed i pk rid st = Some (tbl_abs t pk \<noteq> None, st') \<and> store_inv seed base st' \<and>
    tbl_abs (st_table st') = (tbl_abs t)(pk := None) \<and> st_wal st' = st_wal st"
proof -
  note d = store_invD [OF inv, folded t]
  let ?s = "t_shards t ! i"
  have pki: "pk_inv seed (sh_pk ?s)" using d(5) [of pk] by (simp add: shard_inv_def i)
  obtain m where m: "pk_del seed (sh_pk ?s) pk = Some (pk_abs (sh_pk ?s) pk, m)" "pk_inv seed m"
      "pk_abs m = (pk_abs (sh_pk ?s))(pk := None)"
    using pkm.del_E [OF pki] by blast
  from d(1) show ?thesis
  proof (cases rule: rowAt_cases [of seed t pk])
    case absent
    have none: "pk_abs (sh_pk ?s) pk = None"
      using absent(1) d(5) [of pk] shard_abs_None [of ?s "pkOf t" pk] by (simp add: tbl_abs_def i shard_inv_def)
    then have same: "pk_abs m = pk_abs (sh_pk ?s)" using m(3) by (simp add: fun_upd_idem)
    have si: "shard_inv seed t i ?s" using d(5) [of pk] by (simp add: i)
    note sm = shard_same_map [OF si m(2) same]
    have eq: "deleteRow seed i pk rid st = Some (False, st\<lparr>st_table := setShard i (?s\<lparr>sh_pk := m\<rparr>) t\<rparr>)"
      using none rid m(1) by (cases rid) (simp_all add: deleteRow_def Let_def t [symmetric])
    have abs: "shard_abs (?s\<lparr>sh_pk := m\<rparr>) = (shard_abs ?s)(pk := None)"
      using sm(2) absent(1) by (simp add: tbl_abs_def i fun_upd_idem)
    have "store_inv seed base (st\<lparr>st_table := setShard i (?s\<lparr>sh_pk := m\<rparr>) t, st_budget := charge (st_budget st) 0\<rparr>)"
        "tbl_abs (setShard i (?s\<lparr>sh_pk := m\<rparr>) t) = (tbl_abs t)(pk := None)"
      using store_step [OF inv t i sm(1) abs, of 0] by simp_all
    then show ?thesis using eq absent(1) by simp
  next
    case (present k r)
    obtain s1 b1 where s1: "tombstone k (nIdx t) ?s (st_budget st) = Some (s1, b1)" "sh_pk s1 = sh_pk ?s"
        "store_inv seed base (st\<lparr>st_table := markDelDirty i pk (setShard i (s1\<lparr>sh_pk := m\<rparr>) t), st_budget := b1\<rparr>)"
        "tbl_abs (markDelDirty i pk (setShard i (s1\<lparr>sh_pk := m\<rparr>) t)) = (tbl_abs t)(pk := None)"
      using remove_step [OF inv t i refl present(3) [folded i] present(5) [folded i] m(2,3)] by blast
    have "tombstone k (nIdx t) (?s\<lparr>sh_pk := m\<rparr>) (st_budget st) = Some (s1\<lparr>sh_pk := m\<rparr>, b1)"
      using s1(1) by (auto simp: tombstone_def Let_def split: if_splits)
    then show ?thesis using s1(3,4) present m(1) rid
      by (cases rid) (simp_all add: deleteRow_def Let_def t [symmetric] i [symmetric])
  qed
qed

lemma deleteByPK_ok:
  assumes inv: "store_inv seed base st" and t: "t = st_table st"
  shows "\<exists>st'. deleteByPK seed pk st = Some (tbl_abs t pk \<noteq> None, st') \<and> store_inv seed base st' \<and>
    tbl_abs (st_table st') = (tbl_abs t)(pk := None) \<and> st_wal st' = st_wal st"
  using deleteRow_ok [OF inv t refl, of pk None] store_invD(3,4) [OF inv, folded t]
  by (simp add: deleteByPK_def Let_def t [symmetric] not_le)

section \<open>Predicate statements\<close>

text \<open>A row with the place it is stored at, as pass 1 of a predicate statement collects it.\<close>

definition located :: "table \<Rightarrow> nat \<times> nat \<times> Row \<Rightarrow> bool" where
  "located t = (\<lambda>(i, k, r). i = shardIdxOf t (pkOf t r) \<and> pk_abs (sh_pk (t_shards t ! i)) (pkOf t r) = Some k \<and>
     sh_rows (t_shards t ! i) ! k = Some r)"

text \<open>The keys of a list of located rows.\<close>

definition loc_keys :: "table \<Rightarrow> (nat \<times> nat \<times> Row) list \<Rightarrow> UUID list" where
  "loc_keys t rs = map (\<lambda>(i, k, r). pkOf t r) rs"

lemma loc_keys_simps [simp]: "loc_keys t [] = []" "loc_keys t ((i, k, r) # rs) = pkOf t r # loc_keys t rs"
  by (simp_all add: loc_keys_def)

lemma located_abs: "located t (i, k, r) \<Longrightarrow> tbl_abs t (pkOf t r) = Some r"
  by (auto simp: located_def tbl_abs_def shard_abs_def)

lemma located_of_abs:
  assumes "table_inv seed t" and "tbl_abs t pk = Some r"
  obtains i k where "located t (i, k, r)" "pkOf t r = pk"
  using assms(1) by (cases rule: rowAt_cases [of seed t pk]) (use assms(2) that in \<open>auto simp: located_def\<close>)

text \<open>Pass 1 of an update: the first failing computation, or the new image of every matching row.\<close>

definition newRow :: "nat list \<Rightarrow> (Row \<Rightarrow> Value list res) \<Rightarrow> Row \<Rightarrow> Row" where
  "newRow ords compute r = (case compute r of Inl e \<Rightarrow> r | Inr vals \<Rightarrow> the (setCells r ords vals))"

definition firstError :: "(Row \<Rightarrow> Value list res) \<Rightarrow> Row list \<Rightarrow> err option" where
  "firstError compute rs = fold (\<lambda>r e. case e of Some x \<Rightarrow> Some x
     | None \<Rightarrow> (case compute r of Inl x \<Rightarrow> Some x | Inr _ \<Rightarrow> None)) rs None"

lemma firstError_stuck: "fold (\<lambda>r e. case e of Some x \<Rightarrow> Some x
     | None \<Rightarrow> (case compute r of Inl x \<Rightarrow> Some x | Inr _ \<Rightarrow> None)) rs (Some x) = Some x"
  by (induction rs) simp_all

lemma firstError_simps [simp]:
  "firstError compute [] = None"
  "firstError compute (r # rs) = (case compute r of Inl e \<Rightarrow> Some e | Inr _ \<Rightarrow> firstError compute rs)"
  by (simp_all add: firstError_def firstError_stuck split: sum.split)

lemma collectUpdates_ok:
  assumes "\<forall>(i, k, r) \<in> set rs. match r \<longrightarrow> set_ok t ords compute r"
  shows "collectUpdates match ords compute rs =
    Some (case firstError compute (filter match (map (\<lambda>(i, k, r). r) rs)) of
        Some e \<Rightarrow> Inl e
      | None \<Rightarrow> Inr (map (\<lambda>(i, k, r). (i, k, newRow ords compute r)) (filter (\<lambda>(i, k, r). match r) rs)))"
  using assms
proof (induction rs)
  case (Cons x rs)
  obtain i k r where x: "x = (i, k, r)" by (cases x)
  have rest: "\<forall>(i, k, r) \<in> set rs. match r \<longrightarrow> set_ok t ords compute r" using Cons.prems by simp
  show ?case
  proof (cases "match r")
    case True
    with Cons.prems have ok: "set_ok t ords compute r" by (simp add: x)
    show ?thesis
    proof (cases "compute r")
      case (Inr vals)
      with ok obtain r' where "setCells r ords vals = Some r'" by (rule set_okD)
      moreover have "Row_Clone r = r" using ok by (simp add: set_ok_def)
      ultimately show ?thesis using True Inr Cons.IH [OF rest] by (simp add: x newRow_def andThen_def split: option.split)
    qed (use True x in simp)
  next
    case False
    then show ?thesis unfolding x using Cons.IH [OF rest] by (simp split: option.split)
  qed
qed simp

lemma newRow_pk: "set_ok t ords compute r \<Longrightarrow> pkOf t (newRow ords compute r) = pkOf t r"
  by (auto simp: newRow_def split: sum.split elim!: set_okD intro!: pkOf_setCells)

text \<open>Pass 2 of an update.  The other collected rows stay where they are.\<close>

lemma located_setShard_row:
  assumes "located t (i', k', r')" "i < length (t_shards t)" "k < length (sh_rows (t_shards t ! i))"
    "sh_rows (t_shards t ! i) ! k = Some r" "pkOf t r \<noteq> pkOf t r'"
    and "sh_pk s' = sh_pk (t_shards t ! i)" "sh_rows s' = (sh_rows (t_shards t ! i))[k := x]"
  shows "located (setShard i s' t) (i', k', r')"
  using assms by (auto simp: located_def nth_list_update)

lemma located_markDirty: "i < length (t_shards t) \<Longrightarrow> located (markDirty i pk t) = located t"
  by (auto simp: located_def markDirty_def fun_eq_iff nth_list_update)

lemma located_markDelDirty: "i < length (t_shards t) \<Longrightarrow> located (markDelDirty i pk t) = located t"
  by (auto simp: located_def markDelDirty_def fun_eq_iff nth_list_update)

lemma applyUpdates_ok:
  assumes "store_inv seed base st" and "distinct (loc_keys (st_table st) rs)"
    and "\<forall>x \<in> set rs. located (st_table st) x" and "\<forall>(i, k, r) \<in> set rs. pkOf (st_table st) (f r) = pkOf (st_table st) r"
  shows "store_inv seed base (applyUpdates touch (map (\<lambda>(i, k, r). (i, k, f r)) rs) st) \<and>
    tbl_abs (st_table (applyUpdates touch (map (\<lambda>(i, k, r). (i, k, f r)) rs) st)) =
      (\<lambda>pk. if pk \<in> set (loc_keys (st_table st) rs) then map_option f (tbl_abs (st_table st) pk) else tbl_abs (st_table st) pk) \<and>
    st_wal (applyUpdates touch (map (\<lambda>(i, k, r). (i, k, f r)) rs) st) = st_wal st"
  using assms
proof (induction rs arbitrary: st)
  case (Cons x rs)
  obtain i k r where x: "x = (i, k, r)" by (cases x)
  define t where "t = st_table st"
  let ?pk = "pkOf t r" and ?s = "t_shards t ! i" and ?d = "rowCost (f r) (nIdx t) - rowCost r (nIdx t)"
  note inv = Cons.prems(1)
  note d = store_invD [OF inv, folded t_def]
  have loc: "located t (i, k, r)" and pk': "pkOf t (f r) = ?pk" using Cons.prems(3,4) by (simp_all add: x t_def)
  then have i: "i = shardIdxOf t ?pk" and rid: "pk_abs (sh_pk ?s) ?pk = Some k" "sh_rows ?s ! k = Some r"
    unfolding located_def by blast+
  have i': "i < length (t_shards t)" using d(4) by (subst i)
  have si: "shard_inv seed t i ?s" using d(5) [of ?pk] i by simp
  have k: "k < length (sh_rows ?s)"
    using si rid(1) arena_index_row [of "sh_rows ?s" "pk_abs (sh_pk ?s)" "pkOf t"] by (auto simp: shard_inv_def)
  define s' where "s' = ?s\<lparr>sh_rows := (sh_rows ?s)[k := Some (f r)], sh_bytes := sh_bytes ?s + ?d\<rparr>"
  note rep = shard_replace [OF si rid pk' s'_def]
  note step = store_step [OF inv t_def i rep(1,2), of ?d, OF rep(3)]
  define st1 where "st1 = st\<lparr>st_table := setShard i s' t, st_budget := charge (st_budget st) ?d\<rparr>"
  define st2 where "st2 = (if touch then st1\<lparr>st_table := markDirty i ?pk (st_table st1)\<rparr> else st1)"
  have st1: "store_inv seed base st1" "st_table st1 = setShard i s' t" using step(1) by (simp_all add: st1_def)
  note mark = store_mark [OF st1(1), of i ?pk]
  have inv2: "store_inv seed base st2" using mark(1) st1 i' by (simp add: st2_def)
  have abs2: "tbl_abs (st_table st2) = (tbl_abs t)(?pk \<mapsto> f r)" using mark(2) st1(2) i' step(2) by (simp add: st2_def)
  have tbl2: "pkOf (st_table st2) = pkOf t" "loc_keys (st_table st2) = loc_keys t" "st_wal st2 = st_wal st"
    by (simp_all add: st2_def st1_def loc_keys_def fun_eq_iff)
  have loc2: "\<forall>y \<in> set rs. located (st_table st2) y"
  proof
    fix y assume y: "y \<in> set rs"
    obtain i' k' r' where y': "y = (i', k', r')" by (cases y)
    have "located t y" "pkOf t r \<noteq> pkOf t r'" using Cons.prems(2,3) y by (force simp: x y' t_def loc_keys_def)+
    then have "located (setShard i s' t) y"
      using located_setShard_row [OF _ i' k rid(2), of i' k' r' s'] by (simp add: y' s'_def)
    then show "located (st_table st2) y" using i' by (simp add: st2_def st1(2) located_markDirty)
  qed
  have eq: "applyUpdates touch (map (\<lambda>(i, k, r). (i, k, f r)) (x # rs)) st = applyUpdates touch (map (\<lambda>(i, k, r). (i, k, f r)) rs) st2"
    by (simp add: x Let_def t_def [symmetric] rid(2) addBytes_def adjust_charge st2_def st1_def s'_def pk' shard_upd_swap store_upd_swap)
  have "distinct (loc_keys t rs)" and notin: "?pk \<notin> set (loc_keys t rs)" using Cons.prems(2) by (simp_all add: x t_def)
  moreover have "\<forall>(i, k, r) \<in> set rs. pkOf t (f r) = pkOf t r" using Cons.prems(4) by (simp add: t_def)
  ultimately have IH: "store_inv seed base (applyUpdates touch (map (\<lambda>(i, k, r). (i, k, f r)) rs) st2)"
      "tbl_abs (st_table (applyUpdates touch (map (\<lambda>(i, k, r). (i, k, f r)) rs) st2)) =
        (\<lambda>pk. if pk \<in> set (loc_keys t rs) then map_option f (((tbl_abs t)(?pk \<mapsto> f r)) pk) else ((tbl_abs t)(?pk \<mapsto> f r)) pk)"
      "st_wal (applyUpdates touch (map (\<lambda>(i, k, r). (i, k, f r)) rs) st2) = st_wal st"
    using Cons.IH [OF inv2, unfolded tbl2 abs2] loc2 by blast+
  have "tbl_abs t ?pk = Some r" using loc by (rule located_abs)
  then show ?case unfolding eq using IH notin by (auto simp: x t_def [symmetric] fun_eq_iff)
qed simp

end
