(* ===== verification/StoreRuns.thy ===== *)
theory StoreRuns
  imports StoreSpec
begin

text \<open>
  Whole statements and whole histories on a table: the two-pass predicate updates and deletes are
  all-or-nothing, compaction is invisible, and every sequence of operations on a fresh table is a
  sequence of operations on a map from primary key to row.
\<close>

section \<open>The rows a statement visits\<close>

text \<open>The list visits exactly the rows under the keys in \<open>sel\<close>, each once.\<close>

definition visits :: "table \<Rightarrow> (nat \<times> nat \<times> Row) list \<Rightarrow> UUID set \<Rightarrow> bool" where
  "visits t rs sel \<longleftrightarrow> (\<forall>x \<in> set rs. located t x) \<and> distinct (loc_keys t rs) \<and> set (loc_keys t rs) = sel \<inter> dom (tbl_abs t)"

lemma located_unique: "located t (i, k, r) \<Longrightarrow> located t (i', k', r') \<Longrightarrow> pkOf t r = pkOf t r' \<Longrightarrow> (i, k, r) = (i', k', r')"
  by (auto simp: located_def)

lemma live_at_iff:
  "(i, k, r) \<in> set (live_at t) \<longleftrightarrow> i < length (t_shards t) \<and> k < length (sh_rows (t_shards t ! i)) \<and> sh_rows (t_shards t ! i) ! k = Some r"
  by (force simp: live_at_def split: option.splits)

lemma live_at_located:
  assumes "table_inv seed t"
  shows "(i, k, r) \<in> set (live_at t) \<longleftrightarrow> located t (i, k, r)"
proof
  assume "(i, k, r) \<in> set (live_at t)"
  then have x: "i < length (t_shards t)" "k < length (sh_rows (t_shards t ! i))" "sh_rows (t_shards t ! i) ! k = Some r"
    by (simp_all add: live_at_iff)
  then have si: "shard_inv seed t i (t_shards t ! i)" using assms by (simp add: table_inv_def)
  then have ai: "arena_index (sh_rows (t_shards t ! i)) (pk_abs (sh_pk (t_shards t ! i))) (pkOf t)" by (simp add: shard_inv_def)
  have "Some r \<in> set (sh_rows (t_shards t ! i))" using x(2,3) by (metis nth_mem)
  then have "shardIdxOf t (pkOf t r) = i" using si by (simp add: shard_inv_def)
  with arena_index_entry [OF ai x(2,3)] x(3) show "located t (i, k, r)" by (simp add: located_def)
next
  assume l: "located t (i, k, r)"
  then have i: "i = shardIdxOf t (pkOf t r)" "pk_abs (sh_pk (t_shards t ! i)) (pkOf t r) = Some k"
      "sh_rows (t_shards t ! i) ! k = Some r" unfolding located_def by blast+
  have i': "i < length (t_shards t)" using assms shardIdxOf_less by (simp add: i(1) table_inv_def)
  then have "arena_index (sh_rows (t_shards t ! i)) (pk_abs (sh_pk (t_shards t ! i))) (pkOf t)"
    using assms by (simp add: table_inv_def shard_inv_def)
  then have "k < length (sh_rows (t_shards t ! i))" using i(2) by (rule arena_index_row)
  with i' i(3) show "(i, k, r) \<in> set (live_at t)" by (simp add: live_at_iff)
qed

lemma distinct_live_at: "distinct (live_at t)"
proof -
  have one: "distinct (concat (map (\<lambda>k. map (\<lambda>r. (i, k, r)) (f k)) ks))"
    if "distinct ks" "\<And>k. length (f k) \<le> 1" for i :: nat and f :: "nat \<Rightarrow> Row list" and ks
    using that
  proof (induction ks)
    case (Cons k ks)
    have "distinct (map (\<lambda>r. (i, k, r)) (f k))" using Cons.prems(2) [of k] by (cases "f k") auto
    then show ?case using Cons by auto
  qed simp
  have two: "distinct (concat (map (\<lambda>i. concat (map (\<lambda>k. map (\<lambda>r. (i, k, r)) (f i k)) (ks i))) is))"
    if "distinct is" "\<And>i. distinct (ks i)" "\<And>i k. length (f i k) \<le> 1" for f :: "nat \<Rightarrow> nat \<Rightarrow> Row list" and ks "is"
    using that
  proof (induction "is")
    case (Cons i "is")
    then show ?case using one [of "ks i" "f i" i] by auto
  qed simp
  show ?thesis unfolding live_at_def by (rule two) (simp_all split: option.split)
qed

lemma visits_scan:
  assumes "table_inv seed t"
  shows "visits t (live_at t) UNIV"
proof -
  have loc: "\<forall>x \<in> set (live_at t). located t x" using live_at_located [OF assms] by auto
  have "inj_on (\<lambda>(i, k, r). pkOf t r) (set (live_at t))"
    using loc located_unique by (auto simp: inj_on_def) blast+
  then have "distinct (loc_keys t (live_at t))" by (simp add: loc_keys_def distinct_map distinct_live_at)
  moreover have "pk \<in> set (loc_keys t (live_at t)) \<longleftrightarrow> pk \<in> dom (tbl_abs t)" for pk
  proof
    assume "pk \<in> set (loc_keys t (live_at t))"
    then show "pk \<in> dom (tbl_abs t)" using loc located_abs by (auto simp: loc_keys_def)
  next
    assume "pk \<in> dom (tbl_abs t)"
    then obtain r where "tbl_abs t pk = Some r" by blast
    with assms obtain i k where l: "located t (i, k, r)" "pkOf t r = pk" by (rule located_of_abs)
    then have "(i, k, r) \<in> set (live_at t)" using live_at_located [OF assms] by blast
    with l(2) show "pk \<in> set (loc_keys t (live_at t))" by (force simp: loc_keys_def)
  qed
  ultimately show ?thesis using loc by (auto simp: visits_def)
qed

lemma candidateRows_ok:
  assumes "table_inv seed t" and "distinct pks"
  shows "\<exists>rs. candidateRows seed t pks = Some rs \<and> visits t rs (set pks)"
  using assms(2)
proof (induction pks)
  case (Cons pk pks)
  then obtain rs where rs: "candidateRows seed t pks = Some rs" "visits t rs (set pks)" by auto
  from assms(1) show ?case
  proof (cases rule: rowAt_cases [of seed t pk])
    case absent
    then show ?thesis using rs by (auto simp: visits_def)
  next
    case (present rid r)
    then have "located t (shardIdxOf t pk, rid, r)" by (simp add: located_def)
    then show ?thesis using present rs Cons.prems by (auto simp: visits_def)
  qed
qed (simp add: visits_def)

lemma visits_filter:
  assumes "visits t rs sel"
  shows "visits t (filter (\<lambda>(i, k, r). match r) rs) {pk \<in> sel. \<exists>r. tbl_abs t pk = Some r \<and> match r}"
proof -
  have loc: "\<forall>x \<in> set rs. located t x" and keys: "set (loc_keys t rs) = sel \<inter> dom (tbl_abs t)" and dist: "distinct (loc_keys t rs)"
    using assms by (simp_all add: visits_def)
  have "pk \<in> set (loc_keys t (filter (\<lambda>(i, k, r). match r) rs)) \<longleftrightarrow> pk \<in> sel \<and> (\<exists>r. tbl_abs t pk = Some r \<and> match r)" for pk
  proof
    assume "pk \<in> set (loc_keys t (filter (\<lambda>(i, k, r). match r) rs))"
    then obtain i k r where x: "(i, k, r) \<in> set rs" "match r" "pk = pkOf t r" by (auto simp: loc_keys_def)
    then have "tbl_abs t pk = Some r" using loc located_abs by blast
    moreover have "pk \<in> set (loc_keys t rs)" using x by (force simp: loc_keys_def)
    ultimately show "pk \<in> sel \<and> (\<exists>r. tbl_abs t pk = Some r \<and> match r)" using keys x(2) by auto
  next
    assume "pk \<in> sel \<and> (\<exists>r. tbl_abs t pk = Some r \<and> match r)"
    then obtain r where r: "pk \<in> sel" "tbl_abs t pk = Some r" "match r" by blast
    then have "pk \<in> set (loc_keys t rs)" using keys by auto
    then obtain i k r' where x: "(i, k, r') \<in> set rs" "pk = pkOf t r'" by (auto simp: loc_keys_def)
    then have "tbl_abs t pk = Some r'" using loc located_abs by blast
    with r x show "pk \<in> set (loc_keys t (filter (\<lambda>(i, k, r). match r) rs))" by (force simp: loc_keys_def)
  qed
  moreover have "distinct (loc_keys t (filter P rs))" for P
    using dist by (simp add: loc_keys_def distinct_map_filter)
  ultimately show ?thesis using loc by (auto simp: visits_def)
qed

lemma length_visits: "visits t rs sel \<Longrightarrow> length rs = card (sel \<inter> dom (tbl_abs t))"
  by (metis visits_def loc_keys_def length_map distinct_card)

section \<open>Predicate updates\<close>

text \<open>
  The specification: among the visited keys, the rows that pass the WHERE get their new image, all of
  them or, when a computation or the single log record fails, none.
\<close>

definition hit :: "(UUID \<Rightarrow> Row option) \<Rightarrow> UUID set \<Rightarrow> (Row \<Rightarrow> bool) \<Rightarrow> UUID set" where
  "hit m sel match = {pk \<in> sel. \<exists>r. m pk = Some r \<and> match r}"

lemma updateRows_ok:
  assumes inv: "store_inv seed base st" and t: "t = st_table st" and v: "visits t rs sel"
    and ok: "\<forall>pk r. tbl_abs t pk = Some r \<longrightarrow> match r \<longrightarrow> set_ok t ords compute r"
  defines "rows \<equiv> map (\<lambda>(i, k, r). r) (filter (\<lambda>(i, k, r). match r) rs)"
  shows "\<exists>x st'. updateRows match ords compute encode journalAll rs st = Some (x, st') \<and> store_inv seed base st' \<and>
    (case firstError compute rows of
       Some e \<Rightarrow> x = Inl e \<and> st' = st
     | None \<Rightarrow>
         let bodies = (case encode of None \<Rightarrow> [] | Some enc \<Rightarrow> map (\<lambda>r. enc (newRow ords compute r)) rows);
             (e, w) = journalBodies journalAll bodies (st_wal st)
         in st_wal st' = w \<and>
            (case e of Some e \<Rightarrow> x = Inl e \<and> tbl_abs (st_table st') = tbl_abs t
             | None \<Rightarrow> x = Inr (card (hit (tbl_abs t) sel match)) \<and>
                 tbl_abs (st_table st') = (\<lambda>pk. if pk \<in> hit (tbl_abs t) sel match
                   then map_option (newRow ords compute) (tbl_abs t pk) else tbl_abs t pk)))"
proof -
  have loc: "\<forall>x \<in> set rs. located t x" using v by (simp add: visits_def)
  define ms where "ms = filter (\<lambda>(i, k, r). match r) rs"
  have vm: "visits t ms (hit (tbl_abs t) sel match)" using visits_filter [OF v, of match] by (simp add: ms_def hit_def)
  have okr: "\<forall>(i, k, r) \<in> set rs. match r \<longrightarrow> set_ok t ords compute r"
    using loc located_abs ok by blast
  have rows: "rows = filter match (map (\<lambda>(i, k, r). r) rs)"
    by (simp add: rows_def filter_map comp_def case_prod_beta' cong: filter_cong)
  have collect: "collectUpdates match ords compute rs = Some (case firstError compute rows of
        Some e \<Rightarrow> Inl e | None \<Rightarrow> Inr (map (\<lambda>(i, k, r). (i, k, newRow ords compute r)) ms))"
    unfolding rows ms_def by (rule collectUpdates_ok [OF okr])
  show ?thesis
  proof (cases "firstError compute rows")
    case (Some e)
    then show ?thesis using collect inv by (simp add: updateRows_def)
  next
    case None
    define bodies where "bodies = (case encode of None \<Rightarrow> [] | Some enc \<Rightarrow> map (\<lambda>r. enc (newRow ords compute r)) rows)"
    have bodies: "(case encode of None \<Rightarrow> [] | Some enc \<Rightarrow>
        map (\<lambda>(i, k, nr). enc nr) (map (\<lambda>(i, k, r). (i, k, newRow ords compute r)) ms)) = bodies"
      by (simp add: bodies_def rows_def ms_def comp_def case_prod_beta' split: option.split)
    obtain e w where jw: "journalBodies journalAll bodies (st_wal st) = (e, w)" by fastforce
    show ?thesis
    proof (cases e)
      case (Some er)
      then have "updateRows match ords compute encode journalAll rs st = Some (Inl er, st\<lparr>st_wal := w\<rparr>)"
        using collect None jw by (simp add: updateRows_def bodies)
      then show ?thesis using inv None jw Some by (simp add: bodies_def [symmetric] t)
    next
      case None': None
      let ?touch = "updateTouchesIndex t ords" and ?f = "newRow ords compute"
      let ?st = "applyUpdates ?touch (map (\<lambda>(i, k, r). (i, k, ?f r)) ms) (st\<lparr>st_wal := w\<rparr>)"
      have run: "updateRows match ords compute encode journalAll rs st = Some (Inr (length ms), ?st)"
        using collect None jw None' by (simp add: updateRows_def bodies t)
      have dm: "distinct (loc_keys t ms)" and lm: "\<forall>x \<in> set ms. located t x"
          and km: "set (loc_keys t ms) = hit (tbl_abs t) sel match"
        using vm by (auto simp: visits_def hit_def)
      have pks: "\<forall>(i, k, r) \<in> set ms. pkOf t (?f r) = pkOf t r" using okr newRow_pk by (auto simp: ms_def)
      have inv': "store_inv seed base (st\<lparr>st_wal := w\<rparr>)" using inv by simp
      have tw: "st_table (st\<lparr>st_wal := w\<rparr>) = t" "st_wal (st\<lparr>st_wal := w\<rparr>) = w" by (simp_all add: t)
      note app = applyUpdates_ok [OF inv', unfolded tw, OF dm lm pks, of ?touch, unfolded km]
      have "length ms = card (hit (tbl_abs t) sel match)"
        using dm km by (metis loc_keys_def length_map distinct_card)
      then show ?thesis using run app None jw None' by (simp add: bodies_def [symmetric])
    qed
  qed
qed

section \<open>Predicate deletes\<close>

lemma deleteRow_located:
  assumes inv: "store_inv seed base st" and t: "t = st_table st" and r: "located t (i, k, r)" "pkOf t r = pk"
    and y: "located t (i', k', r')" "pkOf t r' \<noteq> pk" and run: "deleteRow seed i pk (Some k) st = Some (b, st')"
  shows "located (st_table st') (i', k', r')"
proof -
  note d = store_invD [OF inv, folded t]
  have i: "i = shardIdxOf t pk" and k: "sh_rows (t_shards t ! i) ! k = Some r" "pk_abs (sh_pk (t_shards t ! i)) pk = Some k"
    using r unfolding located_def by auto
  have i': "i < length (t_shards t)" using d(4) by (simp add: i)
  have pki: "pk_inv seed (sh_pk (t_shards t ! i))" using d(5) [of pk] by (simp add: shard_inv_def i)
  obtain m where m: "pk_del seed (sh_pk (t_shards t ! i)) pk = Some (pk_abs (sh_pk (t_shards t ! i)) pk, m)"
      "pk_abs m = (pk_abs (sh_pk (t_shards t ! i)))(pk := None)"
    using pkm.del_E [OF pki] by blast
  have k': "i' = i \<Longrightarrow> k' \<noteq> k" using y k r unfolding located_def by auto
  obtain s1 b1 where tomb: "tombstone k (nIdx t) ((t_shards t ! i)\<lparr>sh_pk := m\<rparr>) (st_budget st) = Some (s1, b1)"
      "st_table st' = markDelDirty i pk (setShard i s1 t)"
    using run m(1) k by (auto simp: deleteRow_def Let_def t [symmetric] split: bind_splits)
  then have s1: "sh_pk s1 = m" "sh_rows s1 = (sh_rows (t_shards t ! i))[k := None]"
    by (auto simp: tombstone_def Let_def split: if_splits)
  have "located (setShard i s1 t) (i', k', r')"
    using y k' i' m(2) s1 by (cases "i' = i") (auto simp: located_def)
  then show ?thesis using tomb(2) i' by (simp add: located_markDelDirty)
qed

lemma deleteRow_keeps:
  "deleteRow seed i pk k st = Some (b, st') \<Longrightarrow>
    pkOf (st_table st') = pkOf (st_table st) \<and> shardIdxOf (st_table st') = shardIdxOf (st_table st)"
  by (auto simp: deleteRow_def Let_def split: bind_splits option.splits prod.splits)

lemma applyDeletes_ok:
  assumes "store_inv seed base st" and "distinct (loc_keys (st_table st) rs)" and "\<forall>x \<in> set rs. located (st_table st) x"
  shows "\<exists>st'. applyDeletes seed (map (\<lambda>(i, k, r). (i, k, pkOf (st_table st) r)) rs) st = Some st' \<and>
    store_inv seed base st' \<and> st_wal st' = st_wal st \<and>
    tbl_abs (st_table st') = (\<lambda>pk. if pk \<in> set (loc_keys (st_table st) rs) then None else tbl_abs (st_table st) pk)"
  using assms
proof (induction rs arbitrary: st)
  case (Cons x rs)
  obtain i k r where x: "x = (i, k, r)" by (cases x)
  let ?t = "st_table st"
  let ?pk = "pkOf ?t r"
  have l: "located ?t (i, k, r)" using Cons.prems(3) by (simp add: x)
  then have i: "i = shardIdxOf ?t ?pk" "case Some k of None \<Rightarrow> True | Some k \<Rightarrow> pk_abs (sh_pk (t_shards ?t ! i)) ?pk = Some k"
    unfolding located_def by auto
  obtain b st1 where st1: "deleteRow seed i ?pk (Some k) st = Some (b, st1)" "store_inv seed base st1"
      "tbl_abs (st_table st1) = (tbl_abs ?t)(?pk := None)" "st_wal st1 = st_wal st"
    using deleteRow_ok [OF Cons.prems(1) refl i] by blast
  have keep: "pkOf (st_table st1) = pkOf ?t" "loc_keys (st_table st1) = loc_keys ?t"
    using deleteRow_keeps [OF st1(1)] by (simp_all add: loc_keys_def fun_eq_iff)
  have "\<forall>y \<in> set rs. located (st_table st1) y"
  proof
    fix y assume y: "y \<in> set rs"
    obtain i' k' r' where y': "y = (i', k', r')" by (cases y)
    have "located ?t y" "pkOf ?t r' \<noteq> ?pk" using Cons.prems(2,3) y by (force simp: x y' loc_keys_def)+
    then show "located (st_table st1) y"
      using deleteRow_located [OF Cons.prems(1) refl l refl _ _ st1(1)] by (simp add: y')
  qed
  moreover have "distinct (loc_keys ?t rs)" using Cons.prems(2) by (simp add: x)
  ultimately obtain st' where "applyDeletes seed (map (\<lambda>(i, k, r). (i, k, pkOf ?t r)) rs) st1 = Some st'" "store_inv seed base st'"
      "st_wal st' = st_wal st" "tbl_abs (st_table st') = (\<lambda>pk. if pk \<in> set (loc_keys ?t rs) then None else ((tbl_abs ?t)(?pk := None)) pk)"
    using Cons.IH [OF st1(2), unfolded keep st1(3,4)] by blast
  then show ?case using st1(1) by (auto simp: x fun_eq_iff)
qed simp

lemma deleteRows_ok:
  fixes encode :: "(Value \<Rightarrow> bytes) option"
  assumes inv: "store_inv seed base st" and t: "t = st_table st" and v: "visits t rs sel"
  defines "bodies \<equiv> (case encode of None \<Rightarrow> [] | Some enc \<Rightarrow> map (\<lambda>(i, k, r). enc (r ! pkOrd t)) rs)"
  shows "\<exists>x st'. deleteRows seed encode journalAll rs st = Some (x, st') \<and> store_inv seed base st' \<and>
    (let (e, w) = journalBodies journalAll bodies (st_wal st) in st_wal st' = w \<and>
      (case e of Some e \<Rightarrow> x = Inl e \<and> tbl_abs (st_table st') = tbl_abs t
       | None \<Rightarrow> x = Inr (card (sel \<inter> dom (tbl_abs t))) \<and>
           tbl_abs (st_table st') = (\<lambda>pk. if pk \<in> sel then None else tbl_abs t pk)))"
proof -
  obtain e w where jw: "journalBodies journalAll bodies (st_wal st) = (e, w)" by fastforce
  show ?thesis
  proof (cases e)
    case (Some er)
    then have "deleteRows seed encode journalAll rs st = Some (Inl er, st\<lparr>st_wal := w\<rparr>)"
      using jw by (simp add: deleteRows_def bodies_def t [symmetric])
    then show ?thesis using inv jw Some t by simp
  next
    case None
    have inv': "store_inv seed base (st\<lparr>st_wal := w\<rparr>)" using inv by simp
    have tw: "st_table (st\<lparr>st_wal := w\<rparr>) = t" "st_wal (st\<lparr>st_wal := w\<rparr>) = w" by (simp_all add: t)
    have vs: "distinct (loc_keys t rs)" "\<forall>x \<in> set rs. located t x" "set (loc_keys t rs) = sel \<inter> dom (tbl_abs t)"
      using v by (simp_all add: visits_def)
    obtain st' where st': "applyDeletes seed (map (\<lambda>(i, k, r). (i, k, pkOf t r)) rs) (st\<lparr>st_wal := w\<rparr>) = Some st'"
        "store_inv seed base st'" "st_wal st' = w"
        "tbl_abs (st_table st') = (\<lambda>pk. if pk \<in> set (loc_keys t rs) then None else tbl_abs t pk)"
      using applyDeletes_ok [OF inv', unfolded tw, OF vs(1,2)] by blast
    have abs: "tbl_abs (st_table st') = (\<lambda>pk. if pk \<in> sel then None else tbl_abs t pk)"
      using st'(4) vs(3) by (auto simp: fun_eq_iff)
    have "deleteRows seed encode journalAll rs st = Some (Inr (length rs), st')"
      using jw None st'(1) by (simp add: deleteRows_def bodies_def t [symmetric])
    then show ?thesis using st'(2,3) abs jw None length_visits [OF v] by simp
  qed
qed

section \<open>Compaction\<close>

text \<open>
  The new arena holds the live rows in order and the new primary key map their new numbers.
\<close>

lemma compact_loop_ok:
  assumes "pk_inv seed newPk" and "arena_index newRows (pk_abs newPk) pkof" and "pkof = pkOf t"
    and "distinct (map pkof (live_rows rs))" and "\<forall>r \<in> set (live_rows rs). pk_abs newPk (pkof r) = None"
  shows "\<exists>m. compact_loop seed t rs newRows newPk = Some (newRows @ map Some (live_rows rs), m) \<and> pk_inv seed m \<and>
    arena_index (newRows @ map Some (live_rows rs)) (pk_abs m) pkof"
  using assms
proof (induction seed t rs newRows newPk rule: compact_loop.induct)
  case (3 seed t r rs newRows newPk)
  obtain m where m: "pk_put seed newPk (pkOf t r) (length newRows) = Some m" "pk_inv seed m"
      "pk_abs m = (pk_abs newPk)(pkOf t r \<mapsto> length newRows)"
    using pkm.put_E [OF 3(2)] by blast
  have "arena_index (newRows @ [Some r]) (pk_abs m) pkof"
    using arena_index_append [OF 3(3), of r] 3(4,6) m(3) by simp
  moreover have "\<forall>r' \<in> set (live_rows rs). pk_abs m (pkof r') = None" using 3(4-6) m(3) by (fastforce simp: image_iff)
  ultimately obtain m' where "compact_loop seed t rs (newRows @ [Some r]) m = Some ((newRows @ [Some r]) @ map Some (live_rows rs), m')"
      "pk_inv seed m'" "arena_index ((newRows @ [Some r]) @ map Some (live_rows rs)) (pk_abs m') pkof"
    using 3(1) [OF m(1) m(2)] 3(4,5) by auto
  then show ?case using m(1) by simp
qed auto

lemma live_rows_distinct:
  assumes "arena_index rs m pkof"
  shows "distinct (map pkof (live_rows rs))"
proof -
  have "distinct (map pkof (live_rows xs))" if "\<forall>i j ri rj. i < length xs \<and> j < length xs \<and> xs ! i = Some ri \<and> xs ! j = Some rj \<and> pkof ri = pkof rj \<longrightarrow> i = j" for xs
    using that
  proof (induction xs)
    case (Cons x xs)
    have tl: "distinct (map pkof (live_rows xs))"
    proof (rule Cons.IH, intro allI impI)
      fix i j ri rj assume "i < length xs \<and> j < length xs \<and> xs ! i = Some ri \<and> xs ! j = Some rj \<and> pkof ri = pkof rj"
      then show "i = j" using Cons.prems [rule_format, of "Suc i" "Suc j" ri rj] by simp
    qed
    show ?case
    proof (cases x)
      case (Some r)
      have "pkof r \<noteq> pkof r'" if "r' \<in> set (live_rows xs)" for r'
      proof
        assume eq: "pkof r = pkof r'"
        from that obtain j where "j < length xs" "xs ! j = Some r'" by (auto simp: set_live_rows in_set_conv_nth)
        then show False using Cons.prems [rule_format, of 0 "Suc j" r r'] Some eq by simp
      qed
      with tl Some show ?thesis by auto
    qed (use tl in simp)
  qed simp
  then show ?thesis using arena_index_entry [OF assms] by (metis option.inject)
qed

lemma live_rows_map_Some [simp]: "live_rows (map Some xs) = xs"
  by (induction xs) simp_all

text \<open>What a table stands for depends on its live rows only.\<close>

lemma shard_abs_iff:
  assumes "arena_index (sh_rows s) (pk_abs (sh_pk s)) pkof"
  shows "shard_abs s k = Some r \<longleftrightarrow> r \<in> set (live_rows (sh_rows s)) \<and> pkof r = k"
proof
  assume "shard_abs s k = Some r"
  with assms obtain rid where "rid < length (sh_rows s)" "sh_rows s ! rid = Some r" "pkof r = k" by (rule shard_abs_Some)
  then show "r \<in> set (live_rows (sh_rows s)) \<and> pkof r = k" by (metis (mono_tags) mem_Collect_eq nth_mem set_live_rows)
next
  assume "r \<in> set (live_rows (sh_rows s)) \<and> pkof r = k"
  then obtain rid where "rid < length (sh_rows s)" "sh_rows s ! rid = Some r" "pkof r = k"
    by (auto simp: set_live_rows in_set_conv_nth)
  with arena_index_entry [OF assms, of rid r] show "shard_abs s k = Some r" by (simp add: shard_abs_def)
qed

lemma compactShardLocked_ok:
  assumes inv: "table_inv seed t" and i: "i < length (t_shards t)"
  shows "\<exists>t'. compactShardLocked seed i t = Some t' \<and> table_inv seed t' \<and> tbl_abs t' = tbl_abs t \<and> tbl_bytes t' = tbl_bytes t \<and>
    sh_rows (t_shards t' ! i) = map Some (live_rows (sh_rows (t_shards t ! i)))"
proof -
  let ?s = "t_shards t ! i"
  have si: "shard_inv seed t i ?s" and dir: "t_pkDir t = None" using inv i by (simp_all add: table_inv_def)
  then have ai: "arena_index (sh_rows ?s) (pk_abs (sh_pk ?s)) (pkOf t)" by (simp add: shard_inv_def)
  define new where "new = pk_init (nat (sh_live ?s)) emptyPkMap"
  have new: "pk_inv seed new" "pk_abs new = Map.empty"
    using pk_init_ok [of emptyPkMap seed "nat (sh_live ?s)"] by (simp_all add: new_def emptyPkMap_def)
  have empty: "arena_index [] (pk_abs new) (pkOf t)" by (simp add: arena_index_def new(2))
  obtain m where m: "compact_loop seed t (sh_rows ?s) [] new = Some (map Some (live_rows (sh_rows ?s)), m)" "pk_inv seed m"
      "arena_index (map Some (live_rows (sh_rows ?s))) (pk_abs m) (pkOf t)"
    using compact_loop_ok [OF new(1) empty refl live_rows_distinct [OF ai]] new(2) by auto
  define s' where "s' = ?s\<lparr>sh_rows := map Some (live_rows (sh_rows ?s)), sh_pk := m\<rparr>"
  have run: "compactShardLocked seed i t = Some (setShard i s' t)"
    using m(1) dir by (simp add: compactShardLocked_def Let_def new_def s'_def)
  have si': "shard_inv seed t i s'"
    using si m(2,3) by (auto simp: shard_inv_def s'_def tally_ok_def set_live_rows)
  have ai': "arena_index (sh_rows s') (pk_abs (sh_pk s')) (pkOf t)" using m(3) by (simp add: s'_def)
  have "shard_abs s' k = Some r \<longleftrightarrow> shard_abs ?s k = Some r" for k r
    unfolding shard_abs_iff [OF ai] shard_abs_iff [OF ai'] by (simp add: s'_def)
  then have "shard_abs s' k = shard_abs ?s k" for k by (rule option_eqI)
  then have "tbl_abs (setShard i s' t) = tbl_abs t"
    by (intro ext, unfold tbl_abs_setShard [OF i]) (simp add: tbl_abs_def)
  moreover have "tbl_bytes (setShard i s' t) = tbl_bytes t" by (simp add: tbl_bytes_setShard [OF i] s'_def)
  ultimately show ?thesis using run table_inv_setShard [OF inv si'] i by (simp add: s'_def)
qed

section \<open>Tallies\<close>

text \<open>The scan visits the live rows of the arenas in order.\<close>

lemma live_rows_nth:
  "concat (map (\<lambda>k. case rs ! k of None \<Rightarrow> [] | Some r \<Rightarrow> [r]) [0..<length rs]) = live_rows rs"
proof -
  let ?g = "\<lambda>x :: Row option. case x of None \<Rightarrow> [] | Some r \<Rightarrow> [r]"
  have "map (\<lambda>k. ?g (rs ! k)) [0..<length rs] = map ?g (map (nth rs) [0..<length rs])" by simp
  also have "\<dots> = map ?g rs" by (simp only: map_nth)
  finally have "map (\<lambda>k. ?g (rs ! k)) [0..<length rs] = map ?g rs" .
  moreover have "concat (map ?g rs) = live_rows rs" by (induction rs) (auto split: option.split)
  ultimately show ?thesis by simp
qed

lemma sum_list_concat_map:
  fixes f :: "'a \<Rightarrow> 'b :: comm_monoid_add"
  shows "sum_list (map f (concat xss)) = sum_list (map (\<lambda>xs. sum_list (map f xs)) xss)"
  by (induction xss) simp_all

lemma live_at_rows: "map (\<lambda>(i, k, r). r) (live_at t) = concat (map (\<lambda>s. live_rows (sh_rows s)) (t_shards t))"
proof -
  have "map (\<lambda>(i, k, r). r) (concat (map (\<lambda>k. map (\<lambda>r. (i, k, r)) (f k)) ks)) = concat (map f ks)"
    for i :: nat and f :: "nat \<Rightarrow> Row list" and ks by (induction ks) (simp_all add: comp_def)
  then have "map (\<lambda>(i, k, r). r) (live_at t) = concat (map (\<lambda>i. live_rows (sh_rows (t_shards t ! i))) [0..<length (t_shards t)])"
    by (simp add: live_at_def map_concat comp_def live_rows_nth)
  also have "map (\<lambda>i. live_rows (sh_rows (t_shards t ! i))) [0..<length (t_shards t)] = map (\<lambda>s. live_rows (sh_rows s)) (t_shards t)"
    by (intro nth_equalityI) simp_all
  finally show ?thesis .
qed

lemma int_sum_list: "int (sum_list xs) = sum_list (map int xs)"
  by (induction xs) simp_all

text \<open>The bytes a map of rows costs.\<close>

definition usage :: "nat \<Rightarrow> (UUID \<Rightarrow> Row option) \<Rightarrow> int" where
  "usage n m = (\<Sum>pk \<in> dom m. rowCost (the (m pk)) n)"

lemma tallies_exact:
  assumes inv: "table_inv seed t"
  shows "tbl_bytes t = usage (nIdx t) (tbl_abs t)" and "liveCount t = int (card (dom (tbl_abs t)))"
proof -
  have v: "visits t (live_at t) UNIV" using inv by (rule visits_scan)
  have tally: "\<forall>s \<in> set (t_shards t). tally_ok (nIdx t) s"
    using inv by (auto simp: table_inv_def shard_inv_def in_set_conv_nth)
  have "tbl_bytes t = sum_list (map (\<lambda>s. sum_list (map (\<lambda>r. rowCost r (nIdx t)) (live_rows (sh_rows s)))) (t_shards t))"
    unfolding tbl_bytes_def using tally by (intro arg_cong [where f = sum_list] map_cong) (simp_all add: tally_ok_def)
  also have "\<dots> = sum_list (map (\<lambda>r. rowCost r (nIdx t)) (map (\<lambda>(i, k, r). r) (live_at t)))"
    by (simp add: live_at_rows sum_list_concat_map comp_def)
  also have "\<dots> = sum_list (map (\<lambda>pk. rowCost (the (tbl_abs t pk)) (nIdx t)) (loc_keys t (live_at t)))"
  proof -
    have "tbl_abs t (pkOf t r) = Some r" if "(i, k, r) \<in> set (live_at t)" for i k r
      using v that located_abs [of t i k r] by (auto simp: visits_def)
    then show ?thesis by (auto simp: loc_keys_def intro!: arg_cong [where f = sum_list])
  qed
  also have "\<dots> = usage (nIdx t) (tbl_abs t)"
    using v by (simp add: visits_def usage_def sum_list_distinct_conv_sum_set)
  finally show "tbl_bytes t = usage (nIdx t) (tbl_abs t)" .
  have "liveCount t = sum_list (map (\<lambda>s. int (length (live_rows (sh_rows s)))) (t_shards t))"
    unfolding liveCount_def using tally by (intro arg_cong [where f = sum_list] map_cong) (simp_all add: tally_ok_def)
  also have "\<dots> = int (length (map (\<lambda>(i, k, r). r) (live_at t)))"
    unfolding live_at_rows by (simp add: length_concat comp_def int_sum_list)
  finally show "liveCount t = int (card (dom (tbl_abs t)))" using length_visits [OF v] by simp
qed

section \<open>A fresh table\<close>

lemma bitsLen_bound: "n < 2 ^ b \<Longrightarrow> bitsLen n \<le> b"
proof (induction n arbitrary: b rule: bitsLen.induct)
  case (1 n)
  then show ?case by (cases b) (auto simp: bitsLen.simps)
qed

lemma newTable_ok:
  assumes "\<not> partitioned rt"
  shows "table_inv seed (newTable cpus rt hint) \<and> tbl_abs (newTable cpus rt hint) = Map.empty \<and> tbl_bytes (newTable cpus rt hint) = 0"
proof -
  let ?t = "newTable cpus rt hint"
  obtain k where k: "k \<le> 10" "shardCount cpus = 2 ^ k"
  proof
    show "bitsLen (min 1024 (max 64 (cpus * 4)) - 1) \<le> 10" by (rule bitsLen_bound) simp
    show "shardCount cpus = 2 ^ bitsLen (min 1024 (max 64 (cpus * 4)) - 1)"
      by (simp add: shardCount_def Let_def min_def max_def not_less not_le)
  qed
  obtain per where sh: "t_shards ?t = replicate (2 ^ k) \<lparr>sh_rows = [], sh_pk = pk_init per emptyPkMap,
        sh_tails = Map.empty, sh_tailsDead = Map.empty, sh_live = 0, sh_bytes = 0, sh_dirtyRead = [], sh_dirtyDel = []\<rparr>"
      and mask: "t_mask ?t = word_of_nat (2 ^ k - 1)" and dir: "t_pkDir ?t = None"
    using assms by (auto simp: newTable_def Let_def k(2))
  have init: "pk_inv seed (pk_init per emptyPkMap)" "pk_abs (pk_init per emptyPkMap) = Map.empty"
    using pk_init_ok [of emptyPkMap seed per] by (simp_all add: emptyPkMap_def)
  have "shards_ok ?t" unfolding shards_ok_def using sh mask k(1) by (intro exI [of _ k]) simp
  moreover from this have "shardIdxOf ?t u < 2 ^ k" for u using shardIdxOf_less [of ?t u] sh by simp
  ultimately show ?thesis using sh dir init
    by (auto simp: table_inv_def shard_inv_def arena_index_def tally_ok_def tbl_abs_def shard_abs_def tbl_bytes_def fun_eq_iff
        sum_list_replicate)
qed

section \<open>Histories\<close>

text \<open>
  The operations of a table as one alphabet.  A predicate statement takes its candidates from an
  index (\<open>Some pks\<close>) or scans.
\<close>

datatype 'w storeOp =
    OpGet UUID
  | OpInsert Row "'w mutJournal"
  | OpUpdate UUID "nat list" "Row \<Rightarrow> Value list res" "'w mutJournal"
  | OpDelete UUID "'w mutJournal"
  | OpUpdateWhere "UUID list option" "Row \<Rightarrow> bool" "nat list" "Row \<Rightarrow> Value list res" "(Row \<Rightarrow> bytes) option"
      "(bytes list \<Rightarrow> 'w \<Rightarrow> err option \<times> 'w) option"
  | OpDeleteWhere "UUID list option" "Row \<Rightarrow> bool" "(Value \<Rightarrow> bytes) option" "(bytes list \<Rightarrow> 'w \<Rightarrow> err option \<times> 'w) option"
  | OpCompact nat

datatype storeAns = Got "Row option" | Done | Found bool | Count nat | Failed err

definition ansOf :: "('a \<Rightarrow> storeAns) \<Rightarrow> 'a res \<times> 'w store \<Rightarrow> storeAns \<times> 'w store" where
  "ansOf f = (\<lambda>(x, st). (case x of Inl e \<Rightarrow> Failed e | Inr a \<Rightarrow> f a, st))"

fun store_op :: "uint64 \<Rightarrow> 'w storeOp \<Rightarrow> 'w store \<Rightarrow> (storeAns \<times> 'w store) option" where
  "store_op seed (OpGet pk) st = map_option (\<lambda>r. (Got r, st)) (getByPK seed (st_table st) pk)"
| "store_op seed (OpInsert row j) st =
     map_option (\<lambda>(e, st). (case e of None \<Rightarrow> Done | Some e \<Rightarrow> Failed e, st)) (insertJournaled seed row j st)"
| "store_op seed (OpUpdate pk ords compute j) st = map_option (ansOf Found) (updateByPKJournaled seed pk ords compute j st)"
| "store_op seed (OpDelete pk j) st = map_option (ansOf Found) (deleteByPKJournaled seed pk j st)"
| "store_op seed (OpUpdateWhere None match ords compute encode ja) st =
     map_option (ansOf Count) (updateWhereAll match ords compute encode ja st)"
| "store_op seed (OpUpdateWhere (Some pks) match ords compute encode ja) st =
     map_option (ansOf Count) (updateByCandidates seed pks match ords compute encode ja st)"
| "store_op seed (OpDeleteWhere None match encode ja) st = map_option (ansOf Count) (deleteWhereAll seed match encode ja st)"
| "store_op seed (OpDeleteWhere (Some pks) match encode ja) st =
     map_option (ansOf Count) (deleteByCandidates seed pks match encode ja st)"
| "store_op seed (OpCompact i) st =
     map_option (\<lambda>t. (Done, st\<lparr>st_table := t\<rparr>)) (compactShardIfDense seed i (st_table st) (st_table st))"

fun store_run :: "uint64 \<Rightarrow> 'w storeOp list \<Rightarrow> 'w store \<Rightarrow> (storeAns list \<times> 'w store) option" where
  "store_run seed [] st = Some ([], st)"
| "store_run seed (op # ops) st = do {
     (a, st) \<leftarrow> store_op seed op st;
     (as, st) \<leftarrow> store_run seed ops st;
     Some (a # as, st)
   }"

text \<open>
  The specification of the same alphabet on a map \<open>m\<close> and a log \<open>w\<close>.  The order in which a statement
  meets its rows is left open: it decides which error is reported first and the order of the bodies
  in the log record.
\<close>

record storeSig =
  sg_pkOrd :: nat
  sg_nIdx :: nat
  sg_base :: int
  sg_limit :: int

definition sg_key :: "storeSig \<Rightarrow> Row \<Rightarrow> UUID" where
  "sg_key sg r = Value_UUID (r ! sg_pkOrd sg)"

definition enumerates :: "storeSig \<Rightarrow> (UUID \<Rightarrow> Row option) \<Rightarrow> UUID set \<Rightarrow> Row list \<Rightarrow> bool" where
  "enumerates sg m S rs \<longleftrightarrow> distinct (map (sg_key sg) rs) \<and> set (map (sg_key sg) rs) = S \<and> (\<forall>r \<in> set rs. m (sg_key sg r) = Some r)"

definition chosen :: "UUID list option \<Rightarrow> UUID set" where
  "chosen pks = (case pks of None \<Rightarrow> UNIV | Some cands \<Rightarrow> set cands)"

fun spec_op :: "storeSig \<Rightarrow> 'w storeOp \<Rightarrow> (UUID \<Rightarrow> Row option) \<times> 'w \<Rightarrow> storeAns \<Rightarrow> (UUID \<Rightarrow> Row option) \<times> 'w \<Rightarrow> bool" where
  "spec_op sg (OpGet pk) (m, w) a (m', w') \<longleftrightarrow> a = Got (m pk) \<and> m' = m \<and> w' = w"
| "spec_op sg (OpInsert row j) (m, w) a (m', w') \<longleftrightarrow>
     (if m (sg_key sg row) \<noteq> None then a = Failed ErrDuplicatePK \<and> m' = m \<and> w' = w
      else if sg_limit sg \<noteq> 0 \<and> sg_base sg + usage (sg_nIdx sg) m + rowCost row (sg_nIdx sg) > sg_limit sg
        then a = Failed ErrCapacity \<and> m' = m \<and> w' = w
      else case j_insert j row w of
        (Some e, wl) \<Rightarrow> a = Failed e \<and> m' = m \<and> w' = wl
      | (None, wl) \<Rightarrow> a = Done \<and> m' = m(sg_key sg row \<mapsto> row) \<and> w' = wl)"
| "spec_op sg (OpUpdate pk ords compute j) (m, w) a (m', w') \<longleftrightarrow>
     (case update_spec m pk ords compute j w of (x, m1, wl) \<Rightarrow>
        a = (case x of Inl e \<Rightarrow> Failed e | Inr b \<Rightarrow> Found b) \<and> m' = m1 \<and> w' = wl)"
| "spec_op sg (OpDelete pk j) (m, w) a (m', w') \<longleftrightarrow>
     (case delete_spec m pk (\<lambda>_. True) j w of (x, m1, wl) \<Rightarrow>
        a = (case x of Inl e \<Rightarrow> Failed e | Inr b \<Rightarrow> Found b) \<and> m' = m1 \<and> w' = wl)"
| "spec_op sg (OpUpdateWhere pks match ords compute encode ja) (m, w) a (m', w') \<longleftrightarrow>
     (\<exists>rs. enumerates sg m (hit m (chosen pks) match) rs \<and>
        (case firstError compute rs of
           Some e \<Rightarrow> a = Failed e \<and> m' = m \<and> w' = w
         | None \<Rightarrow>
             (case journalBodies ja (case encode of None \<Rightarrow> [] | Some enc \<Rightarrow> map (\<lambda>r. enc (newRow ords compute r)) rs) w of
                (Some e, wl) \<Rightarrow> a = Failed e \<and> m' = m \<and> w' = wl
              | (None, wl) \<Rightarrow> a = Count (length rs) \<and> w' = wl \<and>
                  m' = (\<lambda>pk. if pk \<in> hit m (chosen pks) match then map_option (newRow ords compute) (m pk) else m pk))))"
| "spec_op sg (OpDeleteWhere pks match encode ja) (m, w) a (m', w') \<longleftrightarrow>
     (\<exists>rs. enumerates sg m (hit m (chosen pks) match) rs \<and>
        (case journalBodies ja (case encode of None \<Rightarrow> [] | Some enc \<Rightarrow> map (\<lambda>r. enc (r ! sg_pkOrd sg)) rs) w of
           (Some e, wl) \<Rightarrow> a = Failed e \<and> m' = m \<and> w' = wl
         | (None, wl) \<Rightarrow> a = Count (length rs) \<and> w' = wl \<and>
             m' = (\<lambda>pk. if pk \<in> hit m (chosen pks) match then None else m pk)))"
| "spec_op sg (OpCompact i) (m, w) a (m', w') \<longleftrightarrow> a = Done \<and> m' = m \<and> w' = w"

fun spec_run :: "storeSig \<Rightarrow> 'w storeOp list \<Rightarrow> (UUID \<Rightarrow> Row option) \<times> 'w \<Rightarrow> storeAns list \<Rightarrow> (UUID \<Rightarrow> Row option) \<times> 'w \<Rightarrow> bool" where
  "spec_run sg [] s as s' \<longleftrightarrow> as = [] \<and> s' = s"
| "spec_run sg (op # ops) s as s' \<longleftrightarrow>
     (\<exists>a rest s1. as = a # rest \<and> spec_op sg op s a s1 \<and> spec_run sg ops s1 rest s')"

text \<open>
  What the layers above the store guarantee of each operation on a table with \<open>n\<close> columns: rows are
  complete and their cells well formed, a SET list names other columns than the primary key, each
  once, and the computation yields as many values; candidates are listed once; a shard number exists.
\<close>

definition row_ok :: "nat \<Rightarrow> Row \<Rightarrow> bool" where
  "row_ok n r \<longleftrightarrow> length r = n \<and> (\<forall>v \<in> set r. wf_Value v)"

definition sets_ok :: "nat \<Rightarrow> nat \<Rightarrow> nat list \<Rightarrow> (Row \<Rightarrow> Value list res) \<Rightarrow> bool" where
  "sets_ok n pkO ords compute \<longleftrightarrow> distinct ords \<and> pkO \<notin> set ords \<and> (\<forall>ord \<in> set ords. ord < n) \<and>
     (\<forall>r vals. row_ok n r \<longrightarrow> compute r = Inr vals \<longrightarrow> length vals = length ords \<and> (\<forall>v \<in> set vals. wf_Value v))"

fun op_ok :: "nat \<Rightarrow> nat \<Rightarrow> nat \<Rightarrow> 'w storeOp \<Rightarrow> bool" where
  "op_ok n pkO shards (OpGet pk) \<longleftrightarrow> True"
| "op_ok n pkO shards (OpInsert row j) \<longleftrightarrow> row_ok n row"
| "op_ok n pkO shards (OpUpdate pk ords compute j) \<longleftrightarrow> sets_ok n pkO ords compute"
| "op_ok n pkO shards (OpDelete pk j) \<longleftrightarrow> True"
| "op_ok n pkO shards (OpUpdateWhere pks match ords compute encode ja) \<longleftrightarrow>
     sets_ok n pkO ords compute \<and> (case pks of None \<Rightarrow> True | Some cands \<Rightarrow> distinct cands)"
| "op_ok n pkO shards (OpDeleteWhere pks match encode ja) \<longleftrightarrow> (case pks of None \<Rightarrow> True | Some cands \<Rightarrow> distinct cands)"
| "op_ok n pkO shards (OpCompact i) \<longleftrightarrow> i < shards"

subsection \<open>What no operation changes\<close>

definition frame :: "'w store \<Rightarrow> 'w store \<Rightarrow> bool" where
  "frame st st' \<longleftrightarrow> t_def (st_table st') = t_def (st_table st) \<and> t_indexes (st_table st') = t_indexes (st_table st) \<and>
     length (t_shards (st_table st')) = length (t_shards (st_table st)) \<and> ceiling (st_budget st') = ceiling (st_budget st)"

lemma frame_refl [simp]: "frame st st"
  by (simp add: frame_def)

lemma frame_trans: "frame a b \<Longrightarrow> frame b c \<Longrightarrow> frame a c"
  by (simp add: frame_def)

lemma ceiling_simps [simp]: "ceiling (release b c) = ceiling b" "ceiling (adjust b c) = ceiling b"
  by (simp_all add: release_charge adjust_charge)

lemma tombstone_ceiling: "tombstone k n s b = Some (s', b') \<Longrightarrow> ceiling b' = ceiling b"
  by (auto simp: tombstone_def Let_def split: if_splits)

lemma insertRow_frame: "insertRow seed mark row j st = Some (e, st') \<Longrightarrow> frame st st'"
  by (auto simp: insertRow_def Let_def frame_def reserve_cases addRow_def split: if_splits bind_splits prod.splits option.splits)

lemma updateCells_frame: "updateCells i k r ords vals j st = Some (e, st') \<Longrightarrow> frame st st'"
  by (auto simp: updateCells_def Let_def frame_def addBytes_def split: if_splits bind_splits prod.splits option.splits)

lemma frame_mark:
  "frame st (st'\<lparr>st_table := markDirty i pk (st_table st')\<rparr>) \<longleftrightarrow> frame st st'"
  "frame st (st'\<lparr>st_table := markDelDirty i pk (st_table st')\<rparr>) \<longleftrightarrow> frame st st'"
  by (simp_all add: frame_def)

lemma frame_wal [simp]: "frame (st\<lparr>st_wal := w\<rparr>) st' \<longleftrightarrow> frame st st'" "frame st (st'\<lparr>st_wal := w\<rparr>) \<longleftrightarrow> frame st st'"
  by (simp_all add: frame_def)

lemma updateByPKJournaled_frame:
  assumes "updateByPKJournaled seed pk ords compute j st = Some (x, st')" and "t_pkDir (st_table st) = None"
  shows "frame st st'"
  using assms
  by (auto simp: updateByPKJournaled_def Let_def frame_mark dest!: updateCells_frame
      split: if_splits bind_splits prod.splits option.splits sum.splits)

lemma removeFound_frame: "removeFound seed pk slot k st = Some st' \<Longrightarrow> frame st st'"
  by (auto simp: removeFound_def Let_def frame_def dest!: tombstone_ceiling split: bind_splits)

lemma deleteByPKJournaled_frame:
  assumes "deleteByPKJournaled seed pk j st = Some (x, st')" and "t_pkDir (st_table st) = None"
  shows "frame st st'"
  using assms
  by (auto simp: deleteByPKJournaled_def Let_def dest!: removeFound_frame split: if_splits bind_splits prod.splits option.splits)

lemma applyUpdates_frame: "frame st (applyUpdates touch ps st)"
proof (induction ps arbitrary: st)
  case (Cons p ps)
  obtain i k nr where p: "p = (i, k, nr)" by (cases p)
  obtain st1 where "applyUpdates touch (p # ps) st = applyUpdates touch ps st1" "frame st st1"
    by (auto simp: p Let_def addBytes_def frame_def)
  then show ?case using Cons.IH [of st1] by (auto intro: frame_trans)
qed simp

lemma updateRows_frame: "updateRows match ords compute encode ja rs st = Some (x, st') \<Longrightarrow> frame st st'"
  using applyUpdates_frame [of "st\<lparr>st_wal := w\<rparr>" for w]
  by (auto simp: updateRows_def Let_def split: bind_splits sum.splits prod.splits option.splits)

lemma deleteRow_frame: "deleteRow seed i pk k st = Some (b, st') \<Longrightarrow> frame st st'"
  by (auto simp: deleteRow_def Let_def frame_def dest!: tombstone_ceiling split: bind_splits option.splits prod.splits)

lemma applyDeletes_frame: "applyDeletes seed ps st = Some st' \<Longrightarrow> frame st st'"
  by (induction seed ps st rule: applyDeletes.induct)
    (auto split: bind_splits prod.splits dest!: deleteRow_frame intro: frame_trans)

lemma deleteRows_frame: "deleteRows seed encode ja rs st = Some (x, st') \<Longrightarrow> frame st st'"
  by (auto simp: deleteRows_def Let_def dest!: applyDeletes_frame split: bind_splits prod.splits option.splits)

lemma compact_frame:
  assumes "compactShardLocked seed i t = Some t'" and "t_pkDir t = None"
  shows "t_def t' = t_def t \<and> t_indexes t' = t_indexes t \<and> length (t_shards t') = length (t_shards t)"
  using assms by (auto simp: compactShardLocked_def Let_def split: bind_splits)

subsection \<open>Every operation follows its specification\<close>

definition sig_of :: "int \<Rightarrow> 'w store \<Rightarrow> storeSig" where
  "sig_of base st = \<lparr>sg_pkOrd = pkOrd (st_table st), sg_nIdx = nIdx (st_table st), sg_base = base, sg_limit = ceiling (st_budget st)\<rparr>"

lemma sg_key_sig [simp]: "sg_key (sig_of base st) = pkOf (st_table st)"
  by (simp add: fun_eq_iff sg_key_def sig_of_def pkOf_def)

lemma sig_of_simps [simp]: "sg_pkOrd (sig_of base st) = pkOrd (st_table st)" "sg_nIdx (sig_of base st) = nIdx (st_table st)"
    "sg_base (sig_of base st) = base" "sg_limit (sig_of base st) = ceiling (st_budget st)"
  by (simp_all add: sig_of_def)

lemma frame_sig: "frame st st' \<Longrightarrow> sig_of base st' = sig_of base st"
  by (simp add: frame_def sig_of_def pkOrd_def nIdx_def)

text \<open>Every stored row is complete.\<close>

definition rows_ok :: "nat \<Rightarrow> (UUID \<Rightarrow> Row option) \<Rightarrow> bool" where
  "rows_ok n m \<longleftrightarrow> (\<forall>pk r. m pk = Some r \<longrightarrow> row_ok n r)"

lemma sets_ok_row: "sets_ok n (pkOrd t) ords compute \<Longrightarrow> row_ok n r \<Longrightarrow> set_ok t ords compute r"
proof -
  assume ok: "sets_ok n (pkOrd t) ords compute" and r: "row_ok n r"
  then have "length vals = length ords" if "compute r = Inr vals" for vals using that unfolding sets_ok_def by blast
  moreover have "distinct ords \<and> pkOrd t \<notin> set ords \<and> (\<forall>ord \<in> set ords. ord < n)" using ok unfolding sets_ok_def by blast
  moreover have "length r = n \<and> (\<forall>v \<in> set r. wf_Value v)" using r by (simp add: row_ok_def)
  ultimately show ?thesis by (auto simp: set_ok_def split: sum.split)
qed

lemma setCells_row_ok:
  "setCells r ords vals = Some r' \<Longrightarrow> row_ok n r \<Longrightarrow> \<forall>v \<in> set vals. wf_Value v \<Longrightarrow> row_ok n r'"
proof (induction r ords vals rule: setCells.induct)
  case (3 r ord ords v vals)
  have "row_ok n (r[ord := v])" using 3(3,4) set_update_subset_insert [of r ord v] by (auto simp: row_ok_def)
  then show ?case using 3 by (simp split: if_splits)
qed auto

lemma newRow_row_ok:
  assumes "sets_ok n pkO ords compute" "row_ok n r"
  shows "row_ok n (newRow ords compute r)"
proof (cases "compute r")
  case (Inr vals)
  have vals: "length vals = length ords \<and> (\<forall>v \<in> set vals. wf_Value v)" using assms Inr unfolding sets_ok_def by blast
  have "\<forall>ord \<in> set ords. ord < length r" using assms unfolding sets_ok_def row_ok_def by blast
  then obtain r' where r': "setCells r ords vals = Some r'" using setCells_defined vals by blast
  then show ?thesis using Inr vals setCells_row_ok [OF r' assms(2)] by (simp add: newRow_def)
qed (use assms in \<open>simp add: newRow_def\<close>)

lemma visits_enumerates:
  assumes "visits (st_table st) rs sel"
  shows "enumerates (sig_of base st) (tbl_abs (st_table st)) (hit (tbl_abs (st_table st)) sel match)
    (map (\<lambda>(i, k, r). r) (filter (\<lambda>(i, k, r). match r) rs))"
proof -
  let ?t = "st_table st" and ?ms = "filter (\<lambda>(i, k, r). match r) rs"
  have v: "visits ?t ?ms (hit (tbl_abs ?t) sel match)" using visits_filter [OF assms, of match] by (simp add: hit_def)
  have keys: "map (pkOf ?t) (map (\<lambda>(i, k, r). r) ?ms) = loc_keys ?t ?ms" by (simp add: loc_keys_def comp_def case_prod_beta')
  have dom: "hit (tbl_abs ?t) sel match \<inter> dom (tbl_abs ?t) = hit (tbl_abs ?t) sel match" by (auto simp: hit_def)
  have "\<forall>r \<in> set (map (\<lambda>(i, k, r). r) ?ms). tbl_abs ?t (pkOf ?t r) = Some r"
    using v located_abs by (fastforce simp: visits_def)
  then show ?thesis using v unfolding enumerates_def sg_key_sig keys by (simp add: visits_def dom)
qed

lemma enumerates_length: "enumerates sg m S rs \<Longrightarrow> length rs = card S"
  by (metis enumerates_def distinct_card length_map)

lemma updateRows_spec:
  assumes inv: "store_inv seed base st" and v: "visits (st_table st) rs (chosen pks)"
    and rows: "rows_ok n (tbl_abs (st_table st))" and ok: "sets_ok n (pkOrd (st_table st)) ords compute"
  shows "\<exists>a st'. map_option (ansOf Count) (updateRows match ords compute encode ja rs st) = Some (a, st') \<and> store_inv seed base st' \<and>
    frame st st' \<and> spec_op (sig_of base st) (OpUpdateWhere pks match ords compute encode ja)
      (tbl_abs (st_table st), st_wal st) a (tbl_abs (st_table st'), st_wal st')"
proof -
  let ?t = "st_table st"
  define rws where "rws = map (\<lambda>(i, k, r). r) (filter (\<lambda>(i, k, r). match r) rs)"
  have ok': "\<forall>pk r. tbl_abs ?t pk = Some r \<longrightarrow> match r \<longrightarrow> set_ok ?t ords compute r"
    using rows ok sets_ok_row by (auto simp: rows_ok_def)
  note u = updateRows_ok [OF inv refl v ok', of encode ja, folded rws_def]
  then obtain x st' where run: "updateRows match ords compute encode ja rs st = Some (x, st')" "store_inv seed base st'" by blast
  note res = u [unfolded run(1) option.inject prod.inject, simplified]
  have en: "enumerates (sig_of base st) (tbl_abs ?t) (hit (tbl_abs ?t) (chosen pks) match) rws"
    unfolding rws_def using v by (rule visits_enumerates)
  have fr: "frame st st'" using run(1) by (rule updateRows_frame)
  have "spec_op (sig_of base st) (OpUpdateWhere pks match ords compute encode ja)
      (tbl_abs ?t, st_wal st) (case x of Inl e \<Rightarrow> Failed e | Inr c \<Rightarrow> Count c) (tbl_abs (st_table st'), st_wal st')"
    unfolding spec_op.simps
    by (rule exI [of _ rws], rule conjI [OF en])
      (use res en in \<open>auto simp: enumerates_length Let_def split: option.splits prod.splits\<close>)
  with run fr show ?thesis by (auto simp: ansOf_def)
qed

lemma deleteRows_spec:
  assumes inv: "store_inv seed base st" and v: "visits (st_table st) rs (chosen pks)"
  shows "\<exists>a st'. map_option (ansOf Count) (deleteRows seed encode ja (filter (\<lambda>(i, k, r). match r) rs) st) = Some (a, st') \<and>
    store_inv seed base st' \<and> frame st st' \<and> spec_op (sig_of base st) (OpDeleteWhere pks match encode ja)
      (tbl_abs (st_table st), st_wal st) a (tbl_abs (st_table st'), st_wal st')"
proof -
  let ?t = "st_table st" and ?ms = "filter (\<lambda>(i, k, r). match r) rs"
  define rws where "rws = map (\<lambda>(i, k, r). r) ?ms"
  have v': "visits ?t ?ms (hit (tbl_abs ?t) (chosen pks) match)" using visits_filter [OF v, of match] by (simp add: hit_def)
  have dom: "hit (tbl_abs ?t) (chosen pks) match \<inter> dom (tbl_abs ?t) = hit (tbl_abs ?t) (chosen pks) match" by (auto simp: hit_def)
  note u = deleteRows_ok [OF inv refl v', of encode ja, unfolded dom]
  then obtain x st' where run: "deleteRows seed encode ja ?ms st = Some (x, st')" "store_inv seed base st'" by blast
  note res = u [unfolded run(1) option.inject prod.inject, simplified]
  have en: "enumerates (sig_of base st) (tbl_abs ?t) (hit (tbl_abs ?t) (chosen pks) match) rws"
    unfolding rws_def using v by (rule visits_enumerates)
  have bodies: "(case encode of None \<Rightarrow> [] | Some enc \<Rightarrow> map (\<lambda>(i, k, r). enc (r ! pkOrd ?t)) ?ms) =
      (case encode of None \<Rightarrow> [] | Some enc \<Rightarrow> map (\<lambda>r. enc (r ! sg_pkOrd (sig_of base st))) rws)"
    by (simp add: rws_def comp_def case_prod_beta' split: option.split)
  have fr: "frame st st'" using run(1) by (rule deleteRows_frame)
  have "spec_op (sig_of base st) (OpDeleteWhere pks match encode ja)
      (tbl_abs ?t, st_wal st) (case x of Inl e \<Rightarrow> Failed e | Inr c \<Rightarrow> Count c) (tbl_abs (st_table st'), st_wal st')"
    unfolding spec_op.simps
    by (rule exI [of _ rws], rule conjI [OF en])
      (use res en in \<open>auto simp: enumerates_length Let_def bodies split: option.splits prod.splits\<close>)
  with run fr show ?thesis by (auto simp: ansOf_def)
qed

lemma insertRow_spec:
  assumes inv: "store_inv seed base st"
  shows "\<exists>a st'. store_op seed (OpInsert row j) st = Some (a, st') \<and> store_inv seed base st' \<and> frame st st' \<and>
    spec_op (sig_of base st) (OpInsert row j) (tbl_abs (st_table st), st_wal st) a (tbl_abs (st_table st'), st_wal st')"
proof -
  let ?t = "st_table st"
  note d = store_invD [OF inv]
  obtain e st' where run: "insertRow seed True row j st = Some (e, st')" "store_inv seed base st'"
      "(e, st_wal st') = insert_spec (tbl_abs ?t) (st_budget st) j (pkOf ?t row) row (rowCost row (nIdx ?t)) (st_wal st)"
      "tbl_abs (st_table st') = (if e = None then (tbl_abs ?t)(pkOf ?t row \<mapsto> row) else tbl_abs ?t)"
    using insertRow_ok [OF inv refl refl refl, of True row j] by blast
  have full: "ceiling (st_budget st) \<noteq> 0 \<Longrightarrow> total (st_budget st) = base + usage (nIdx ?t) (tbl_abs ?t)"
    using d(2) tallies_exact(1) [OF d(1)] by (simp add: budget_ok_def)
  have "store_op seed (OpInsert row j) st = Some (case e of None \<Rightarrow> Done | Some e \<Rightarrow> Failed e, st')"
    using run(1) d(3) by (simp add: insertJournaled_def)
  moreover have "spec_op (sig_of base st) (OpInsert row j) (tbl_abs ?t, st_wal st)
      (case e of None \<Rightarrow> Done | Some e \<Rightarrow> Failed e) (tbl_abs (st_table st'), st_wal st')"
    using run(3,4) full by (auto simp: insert_spec_def split: if_splits prod.splits option.splits)
  ultimately show ?thesis using run(2) insertRow_frame [OF run(1)] by blast
qed

lemma compactShardIfDense_ok:
  assumes inv: "table_inv seed t" and i: "i < length (t_shards t)"
  shows "\<exists>t'. compactShardIfDense seed i t t = Some t' \<and> table_inv seed t' \<and> tbl_abs t' = tbl_abs t \<and> tbl_bytes t' = tbl_bytes t \<and>
    t_def t' = t_def t \<and> t_indexes t' = t_indexes t \<and> length (t_shards t') = length (t_shards t)"
proof -
  obtain t' where "compactShardLocked seed i t = Some t'" "table_inv seed t'" "tbl_abs t' = tbl_abs t" "tbl_bytes t' = tbl_bytes t"
    using compactShardLocked_ok [OF assms] by blast
  then show ?thesis using inv compact_frame [of seed i t t'] by (auto simp: compactShardIfDense_def table_inv_def)
qed

lemma store_op_refines:
  assumes inv: "store_inv seed base st" and rows: "rows_ok n (tbl_abs (st_table st))"
    and ok: "op_ok n (pkOrd (st_table st)) (length (t_shards (st_table st))) op"
  shows "\<exists>a st'. store_op seed op st = Some (a, st') \<and> store_inv seed base st' \<and> frame st st' \<and>
    spec_op (sig_of base st) op (tbl_abs (st_table st), st_wal st) a (tbl_abs (st_table st'), st_wal st')"
proof -
  let ?t = "st_table st"
  note d = store_invD [OF inv]
  show ?thesis
  proof (cases op)
    case (OpGet pk)
    have "map_option Row_Clone (tbl_abs ?t pk) = tbl_abs ?t pk"
      using rows by (cases "tbl_abs ?t pk") (auto simp: rows_ok_def row_ok_def)
    then show ?thesis using inv by (simp add: OpGet getByPK_abs [OF d(1)])
  next
    case (OpInsert row j)
    then show ?thesis using insertRow_spec [OF inv] by simp
  next
    case (OpUpdate pk ords compute j)
    have "\<forall>r. tbl_abs ?t pk = Some r \<longrightarrow> set_ok ?t ords compute r"
      using rows ok sets_ok_row by (auto simp: OpUpdate rows_ok_def)
    from updateByPKJournaled_ok [OF inv refl this, of j] obtain x st' where
      "updateByPKJournaled seed pk ords compute j st = Some (x, st')" "store_inv seed base st'"
      "update_spec (tbl_abs ?t) pk ords compute j (st_wal st) = (x, tbl_abs (st_table st'), st_wal st')" by auto
    then show ?thesis using updateByPKJournaled_frame [of seed pk ords compute j st x st'] d(3) by (simp add: OpUpdate ansOf_def)
  next
    case (OpDelete pk j)
    from deleteByPKJournaled_ok [OF inv refl, of pk j] obtain x st' where
      "deleteByPKJournaled seed pk j st = Some (x, st')" "store_inv seed base st'"
      "delete_spec (tbl_abs ?t) pk (\<lambda>_. True) j (st_wal st) = (x, tbl_abs (st_table st'), st_wal st')" by auto
    then show ?thesis using deleteByPKJournaled_frame [of seed pk j st x st'] d(3) by (simp add: OpDelete ansOf_def)
  next
    case (OpUpdateWhere pks match ords compute encode ja)
    then have so: "sets_ok n (pkOrd ?t) ords compute" using ok by simp
    show ?thesis
    proof (cases pks)
      case None
      have "visits ?t (live_at ?t) (chosen pks)" using visits_scan [OF d(1)] by (simp add: None chosen_def)
      from updateRows_spec [OF inv this rows so] show ?thesis by (simp only: OpUpdateWhere None store_op.simps updateWhereAll_def)
    next
      case (Some cands)
      with ok OpUpdateWhere obtain rs where rs: "candidateRows seed ?t cands = Some rs" "visits ?t rs (chosen pks)"
        using candidateRows_ok [OF d(1), of cands] by (auto simp: chosen_def)
      from updateRows_spec [OF inv rs(2) rows so] show ?thesis
        by (simp only: OpUpdateWhere Some store_op.simps updateByCandidates_def rs(1) Option.bind.bind_lunit)
    qed
  next
    case (OpDeleteWhere pks match encode ja)
    show ?thesis
    proof (cases pks)
      case None
      have "visits ?t (live_at ?t) (chosen pks)" using visits_scan [OF d(1)] by (simp add: None chosen_def)
      from deleteRows_spec [OF inv this] show ?thesis using d(3)
        by (simp only: OpDeleteWhere None store_op.simps deleteWhereAll_def if_False not_True_eq_False simp_thms)
    next
      case (Some cands)
      with ok OpDeleteWhere obtain rs where rs: "candidateRows seed ?t cands = Some rs" "visits ?t rs (chosen pks)"
        using candidateRows_ok [OF d(1), of cands] by (auto simp: chosen_def)
      from deleteRows_spec [OF inv rs(2)] show ?thesis
        by (simp only: OpDeleteWhere Some store_op.simps deleteByCandidates_def rs(1) Option.bind.bind_lunit)
    qed
  next
    case (OpCompact i)
    then have "i < length (t_shards ?t)" using ok by simp
    from compactShardIfDense_ok [OF d(1) this] obtain t' where "compactShardIfDense seed i ?t ?t = Some t'" "table_inv seed t'"
      "tbl_abs t' = tbl_abs ?t" "tbl_bytes t' = tbl_bytes ?t" "t_def t' = t_def ?t" "t_indexes t' = t_indexes ?t"
      "length (t_shards t') = length (t_shards ?t)" by blast
    then show ?thesis using d(2) by (simp add: OpCompact store_inv_def budget_ok_def frame_def)
  qed
qed

lemma rows_okI: "(\<And>pk r. m pk = Some r \<Longrightarrow> row_ok n r) \<Longrightarrow> rows_ok n m"
  by (simp add: rows_ok_def)

lemma rows_ok_upd: "rows_ok n m \<Longrightarrow> row_ok n r \<Longrightarrow> rows_ok n (m(pk \<mapsto> r))" "rows_ok n m \<Longrightarrow> rows_ok n (m(pk := None))"
  by (auto simp: rows_ok_def)

lemma spec_op_rows:
  assumes "spec_op sg op (m, w) a (m', w')" and "op_ok n pkO shards op" and "rows_ok n m"
  shows "rows_ok n m'"
proof (cases op)
  case (OpUpdate pk ords compute j)
  then have so: "sets_ok n pkO ords compute" using assms(2) by simp
  have "row_ok n (newRow ords compute r)" if "m pk = Some r" for r
    using newRow_row_ok [OF so] assms(3) that by (simp add: rows_ok_def)
  then show ?thesis using assms(1,3)
    by (auto simp: OpUpdate update_spec_def newRow_def Let_def intro!: rows_ok_upd(1) split: option.splits sum.splits prod.splits)
next
  case (OpUpdateWhere pks match ords compute encode ja)
  then have so: "sets_ok n pkO ords compute" using assms(2) by simp
  have "rows_ok n (\<lambda>pk. if pk \<in> S then map_option (newRow ords compute) (m pk) else m pk)" for S
    using newRow_row_ok [OF so] assms(3) by (auto simp: rows_ok_def split: if_splits)
  then show ?thesis using assms(1,3) by (auto simp: OpUpdateWhere split: option.splits prod.splits)
next
  case (OpDeleteWhere pks match encode ja)
  let ?m = "\<lambda>pk. if pk \<in> hit m (chosen pks) match then None else m pk"
  let ?bodies = "\<lambda>rs. case encode of None \<Rightarrow> [] | Some enc \<Rightarrow> map (\<lambda>r. enc (r ! sg_pkOrd sg)) rs"
  from assms(1) obtain rs where "case journalBodies ja (?bodies rs) w of
      (Some e, wl) \<Rightarrow> a = Failed e \<and> m' = m \<and> w' = wl | (None, wl) \<Rightarrow> a = Count (length rs) \<and> w' = wl \<and> m' = ?m"
    unfolding OpDeleteWhere spec_op.simps by (elim exE conjE)
  moreover obtain e wl where "journalBodies ja (?bodies rs) w = (e, wl)" by fastforce
  ultimately have "m' = m \<or> m' = ?m" by (cases e) simp_all
  then show ?thesis using assms(3) by (auto simp: rows_ok_def split: if_splits)
qed (use assms in \<open>auto simp: delete_spec_def intro: rows_ok_upd split: if_splits option.splits prod.splits\<close>)

lemma store_run_refines:
  assumes "store_inv seed base st" and "rows_ok n (tbl_abs (st_table st))"
    and "\<forall>op \<in> set ops. op_ok n (pkOrd (st_table st)) (length (t_shards (st_table st))) op"
  shows "\<exists>as st'. store_run seed ops st = Some (as, st') \<and> store_inv seed base st' \<and> frame st st' \<and>
    spec_run (sig_of base st) ops (tbl_abs (st_table st), st_wal st) as (tbl_abs (st_table st'), st_wal st')"
  using assms
proof (induction ops arbitrary: st)
  case (Cons op ops)
  obtain a st1 where st1: "store_op seed op st = Some (a, st1)" "store_inv seed base st1" "frame st st1"
      "spec_op (sig_of base st) op (tbl_abs (st_table st), st_wal st) a (tbl_abs (st_table st1), st_wal st1)"
    using store_op_refines [OF Cons.prems(1,2), of op] Cons.prems(3) by auto
  have "rows_ok n (tbl_abs (st_table st1))"
    using spec_op_rows [OF st1(4)] Cons.prems(2,3) by auto
  moreover have "\<forall>op \<in> set ops. op_ok n (pkOrd (st_table st1)) (length (t_shards (st_table st1))) op"
    using Cons.prems(3) st1(3) by (simp add: frame_def pkOrd_def)
  ultimately obtain as st' where "store_run seed ops st1 = Some (as, st')" "store_inv seed base st'" "frame st1 st'"
      "spec_run (sig_of base st) ops (tbl_abs (st_table st1), st_wal st1) as (tbl_abs (st_table st'), st_wal st')"
    using Cons.IH [OF st1(2)] frame_sig [OF st1(3)] by metis
  then show ?case using st1 frame_trans by fastforce
qed simp

section \<open>The theorems\<close>

text \<open>A store with one fresh table; the other tables of the database hold \<open>base\<close> bytes.\<close>

definition freshStore :: "nat \<Rightarrow> resolvedTable \<Rightarrow> nat \<Rightarrow> int \<Rightarrow> int \<Rightarrow> 'w \<Rightarrow> 'w store" where
  "freshStore cpus rt hint base limit w = \<lparr>st_table = newTable cpus rt hint, st_budget = \<lparr>total = base, ceiling = limit\<rparr>, st_wal = w\<rparr>"

lemma newTable_simps [simp]:
  "t_def (newTable cpus rt hint) = rt" "length (t_shards (newTable cpus rt hint)) = shardCount cpus"
  "length (t_indexes (newTable cpus rt hint)) = length (rt_indexes rt)"
  by (simp_all add: newTable_def Let_def)

lemma freshStore_ok:
  assumes "\<not> partitioned rt"
  shows "store_inv seed base (freshStore cpus rt hint base limit w)"
    "tbl_abs (st_table (freshStore cpus rt hint base limit w)) = Map.empty"
  using newTable_ok [OF assms, of seed cpus hint] by (simp_all add: freshStore_def store_inv_def budget_ok_def)

lemma fresh_run:
  assumes "\<not> partitioned rt" and "\<forall>op \<in> set ops. op_ok n (nat (pkOrdinal rt)) (shardCount cpus) op"
  shows "\<exists>as st'. store_run seed ops (freshStore cpus rt hint base limit w) = Some (as, st') \<and> store_inv seed base st' \<and>
    frame (freshStore cpus rt hint base limit w) st' \<and>
    spec_run \<lparr>sg_pkOrd = nat (pkOrdinal rt), sg_nIdx = length (rt_indexes rt), sg_base = base, sg_limit = limit\<rparr>
      ops (Map.empty, w) as (tbl_abs (st_table st'), st_wal st')"
proof -
  let ?st = "freshStore cpus rt hint base limit w"
  have "sig_of base ?st = \<lparr>sg_pkOrd = nat (pkOrdinal rt), sg_nIdx = length (rt_indexes rt), sg_base = base, sg_limit = limit\<rparr>"
    "st_wal ?st = w" "pkOrd (st_table ?st) = nat (pkOrdinal rt)" "length (t_shards (st_table ?st)) = shardCount cpus"
    by (simp_all add: sig_of_def freshStore_def pkOrd_def nIdx_def)
  then show ?thesis
    using store_run_refines [OF freshStore_ok(1) [OF assms(1)], of n cpus hint base limit w ops seed] assms
    by (simp add: freshStore_ok(2) [OF assms(1)] rows_ok_def)
qed


text \<open>A two-column table: a UUID key and a text column.\<close>

definition sampleTable :: resolvedTable where
  "sampleTable = \<lparr>rt_def = \<lparr>tName = str ''t'', tColumns =
      [\<lparr>cName = str ''id'', cType = TypeUUID, cPK = True, cImmutable = False, cPartitionKey = False, cNullable = False\<rparr>,
       \<lparr>cName = str ''s'', cType = TypeString, cPK = False, cImmutable = False, cPartitionKey = False, cNullable = False\<rparr>],
      tIndexes = []\<rparr>, colByName = [str ''id'' \<mapsto> 0, str ''s'' \<mapsto> 1], pkOrdinal = 0, partitionOrdinal = -1, rt_indexes = []\<rparr>"

definition sampleOps :: "unit storeOp list" where
  "sampleOps = [OpInsert [UUIDVal (replicate 16 1), StrV (str ''x'')] noJournal,
     OpInsert [UUIDVal (replicate 16 1), StrV (str ''y'')] noJournal,
     OpUpdateWhere None (\<lambda>r. True) [1] (\<lambda>r. Inr [StrV (str ''z'')]) None None, OpCompact 3, OpGet (replicate 16 1)]"

lemma sampleOps_ok: "\<forall>op \<in> set sampleOps. op_ok 2 (nat (pkOrdinal sampleTable)) (shardCount 1) op"
  by (simp add: sampleOps_def sampleTable_def row_ok_def sets_ok_def shardCount_def bitsLen.simps str_def)






text \<open>
  C18.  The one-column point update, with its saved cell in a local and no value buffer, is the general
  point update on a one-element SET list, on partitioned and other tables, journaled or not.
\<close>

theorem one_column_update_eq:
  "updateByPKOneJournaled seed pk ord compute j st =
     updateByPKJournaled seed pk [ord] (\<lambda>r. andThen (compute r) (\<lambda>v. Inr [v])) j st"
  by (rule updateByPKOneJournaled_eq)


end
