(* ===== verification/Catalogs.thy ===== *)
theory Catalogs
  imports StoreRuns MutationCodec WalLog
begin

text \<open>
  \<open>catalog.go\<close>: the registry of tables, CREATE and DROP, and the bytes of the two catalog records.

  A \<open>*tableRT\<close> is an address in \<open>db_heap\<close>: catalogs, plans and open transactions share a table
  through its address, and a table that leaves the catalog stays reachable from a plan bound before.
\<close>

section \<open>The database\<close>

record tableRT =
  rt_table :: table
  rt_tableID :: uint16

type_synonym tblRef = nat

record catalog =
  cat_version :: uint64
  cat_byName :: "bytes \<Rightarrow> tblRef option"
  cat_byID :: "tblRef option list"

text \<open>\<open>db_wal\<close> is \<open>None\<close> for a memory-only database; \<open>db_cpus\<close> is \<open>runtime.NumCPU()\<close>.\<close>

record DB =
  db_heap :: "tableRT list"
  db_cat :: catalog
  db_budget :: byteBudget
  db_wal :: "wal option"
  db_sizeHint :: nat
  db_cpus :: nat

definition rt_name :: "tableRT \<Rightarrow> bytes" where
  "rt_name rt = tName (rt_def (t_def (rt_table rt)))"

text \<open>The tables of the bootstrap schema get the addresses and the numbers \<open>0, 1, ...\<close>.\<close>

definition newCatalog :: "nat \<Rightarrow> Schema \<Rightarrow> nat \<Rightarrow> (tableRT list \<times> catalog) res" where
  "newCatalog cpus tables sizeHint =
     (if length tables > 65535 + 1 then Inl ErrTooManyTables
      else andThen (resolveSchema tables) (\<lambda>resolved.
        Inr (map (\<lambda>(i, td). \<lparr>rt_table = newTable cpus (the (resolved (tName td))) sizeHint, rt_tableID = word_of_nat i\<rparr>) (enumerate 0 tables),
             \<lparr>cat_version = 1, cat_byName = map_of (rev (map (\<lambda>(i, td). (tName td, i)) (enumerate 0 tables))),
              cat_byID = map Some [0..<length tables]\<rparr>)))"

definition withTable :: "tblRef \<Rightarrow> tableRT \<Rightarrow> catalog \<Rightarrow> catalog" where
  "withTable r rt c =
     (let ids = cat_byID c @ replicate (Suc (unat (rt_tableID rt)) - length (cat_byID c)) None
      in \<lparr>cat_version = cat_version c + 1, cat_byName = (cat_byName c)(rt_name rt \<mapsto> r),
          cat_byID = ids[unat (rt_tableID rt) := Some r]\<rparr>)"

definition withoutTable :: "tableRT list \<Rightarrow> bytes \<Rightarrow> catalog \<Rightarrow> catalog" where
  "withoutTable heap name c =
     \<lparr>cat_version = cat_version c + 1, cat_byName = (cat_byName c)(name := None),
      cat_byID = (case cat_byName c name of
          None \<Rightarrow> cat_byID c
        | Some old \<Rightarrow>
            if unat (rt_tableID (heap ! old)) < length (cat_byID c)
            then (cat_byID c)[unat (rt_tableID (heap ! old)) := None] else cat_byID c)\<rparr>"

section \<open>Catalog records\<close>

definition checkU16 :: "nat \<Rightarrow> unit res" where
  "checkU16 n = guard_err (\<not> n > 65535) ErrCatalogTooLarge"

definition validateIndexDef :: "IndexDef \<Rightarrow> unit res" where
  "validateIndexDef ix =
     andThen (checkU16 (length (iName ix))) (\<lambda>_.
     andThen (checkU16 (length (iColumns ix))) (\<lambda>_.
       for_each (\<lambda>col _. checkU16 (length col)) (iColumns ix) ()))"

definition validateCatalogWireDef :: "TableDef \<Rightarrow> unit res" where
  "validateCatalogWireDef td =
     andThen (checkU16 (length (tName td))) (\<lambda>_.
     andThen (checkU16 (length (tColumns td))) (\<lambda>_.
     andThen (for_each (\<lambda>c _. checkU16 (length (cName c))) (tColumns td) ()) (\<lambda>_.
     andThen (checkU16 (length (tIndexes td))) (\<lambda>_.
       for_each (\<lambda>ix _. validateIndexDef ix) (tIndexes td) ()))))"

text \<open>\<open>byte(c.Type)\<close> and \<open>ColumnType(b)\<close>.\<close>

fun typeByte :: "ColumnType \<Rightarrow> byte" where
  "typeByte TypeInt = 1" | "typeByte TypeString = 2" | "typeByte TypeBytes = 3"
| "typeByte TypeBool = 4" | "typeByte TypeUUID = 5" | "typeByte (TypeOther b) = b"

definition typeOfByte :: "byte \<Rightarrow> ColumnType" where
  "typeOfByte b = (if b = 1 then TypeInt else if b = 2 then TypeString else if b = 3 then TypeBytes
     else if b = 4 then TypeBool else if b = 5 then TypeUUID else TypeOther b)"

definition appendName :: "bytes \<Rightarrow> bytes \<Rightarrow> bytes" where
  "appendName buf name = appendU16LE buf (word_of_nat (length name)) @ name"

definition encodeColumnDef :: "bytes \<Rightarrow> ColumnDef \<Rightarrow> bytes" where
  "encodeColumnDef buf c =
     appendName buf (cName c) @ [typeByte (cType c),
       (if cPK c then 1 else 0) OR (if cPartitionKey c then 2 else 0) OR (if cImmutable c then 4 else 0) OR (if cNullable c then 8 else 0)]"

definition encodeIndexDef :: "bytes \<Rightarrow> IndexDef \<Rightarrow> bytes" where
  "encodeIndexDef buf ix =
     foldl appendName (appendU16LE (appendName buf (iName ix)) (word_of_nat (length (iColumns ix)))) (iColumns ix)
       @ [if iOrdered ix then 2 else 0]"

definition encodeCreateTable :: "bytes \<Rightarrow> uint16 \<Rightarrow> TableDef \<Rightarrow> bytes" where
  "encodeCreateTable buf tableID td =
     (let buf = appendU16LE buf tableID;
          buf = appendName buf (tName td);
          buf = appendU16LE buf (word_of_nat (length (tColumns td)));
          buf = foldl encodeColumnDef buf (tColumns td);
          buf = appendU16LE buf (word_of_nat (length (tIndexes td)))
      in foldl encodeIndexDef buf (tIndexes td))"

definition getLenStr :: "bytes \<Rightarrow> (bytes \<times> nat) res" where
  "getLenStr b =
     (if length b < 2 then Inl ErrWALCorrupt
      else let n = unat (le_get (take 2 b) :: uint16) in
        if 2 + n > length b then Inl ErrWALCorrupt else Inr (take n (drop 2 b), 2 + n))"

definition decodeColumnDef :: "bytes \<Rightarrow> (ColumnDef \<times> nat) res" where
  "decodeColumnDef b = andThen (getLenStr b) (\<lambda>(cn, n).
     if n + 2 > length b then Inl ErrWALCorrupt
     else let flags = b ! (n + 1) in
       Inr (\<lparr>cName = cn, cType = typeOfByte (b ! n), cPK = flags AND 1 \<noteq> 0, cImmutable = flags AND 4 \<noteq> 0,
             cPartitionKey = flags AND 2 \<noteq> 0, cNullable = flags AND 8 \<noteq> 0\<rparr>, n + 2))"

definition decodeIndexDef :: "bytes \<Rightarrow> (IndexDef \<times> nat) res" where
  "decodeIndexDef b = andThen (getLenStr b) (\<lambda>(name, off).
     if off + 2 > length b then Inl ErrWALCorrupt
     else let ncol = unat (le_get (take 2 (drop off b)) :: uint16) in
       andThen (for_n ncol (\<lambda>(cols, off). andThen (getLenStr (drop off b)) (\<lambda>(col, n). Inr (cols @ [col], off + n))) ([], off + 2))
         (\<lambda>(cols, off). if off \<ge> length b then Inl ErrWALCorrupt
            else Inr (\<lparr>iName = name, iColumns = cols, iOrdered = b ! off AND 2 \<noteq> 0\<rparr>, off + 1)))"

definition decodeCreateTable :: "bytes \<Rightarrow> (uint16 \<times> TableDef) res" where
  "decodeCreateTable b =
     (if length b < 4 then Inl ErrWALCorrupt
      else let tableID = le_get (take 2 b) in
        andThen (getLenStr (drop 2 b)) (\<lambda>(name, n).
          let off = 2 + n in
          if off + 2 > length b then Inl ErrWALCorrupt
          else let ncols = unat (le_get (take 2 (drop off b)) :: uint16) in
            andThen (for_n ncols (\<lambda>(cols, off). andThen (decodeColumnDef (drop off b)) (\<lambda>(c, n). Inr (cols @ [c], off + n))) ([], off + 2))
              (\<lambda>(cols, off).
                if off = length b then Inr (tableID, \<lparr>tName = name, tColumns = cols, tIndexes = []\<rparr>)
                else if off + 2 > length b then Inl ErrWALCorrupt
                else let nidx = unat (le_get (take 2 (drop off b)) :: uint16) in
                  andThen (for_n nidx (\<lambda>(ixs, off). andThen (decodeIndexDef (drop off b)) (\<lambda>(ix, n). Inr (ixs @ [ix], off + n))) ([], off + 2))
                    (\<lambda>(ixs, off). if off \<noteq> length b then Inl ErrWALCorrupt
                       else Inr (tableID, \<lparr>tName = name, tColumns = cols, tIndexes = ixs\<rparr>)))))"

definition encodeDropTable :: "bytes \<Rightarrow> bytes \<Rightarrow> bytes" where
  "encodeDropTable buf name = appendName buf name"

definition decodeDropTable :: "bytes \<Rightarrow> bytes res" where
  "decodeDropTable b = andThen (getLenStr b) (\<lambda>(name, n). if n \<noteq> length b then Inl ErrWALCorrupt else Inr name)"

section \<open>CREATE and DROP\<close>

text \<open>\<open>strings.ToLower\<close> on the ASCII letters, which decides the prefix test: the prefix is ASCII.\<close>

definition lowerByte :: "byte \<Rightarrow> byte" where
  "lowerByte c = (if 65 \<le> c \<and> c \<le> 90 then c + 32 else c)"

definition reservedTablePrefix :: bytes where "reservedTablePrefix = str ''_hz_''"

definition hasReservedPrefix :: "bytes \<Rightarrow> bool" where
  "hasReservedPrefix name \<longleftrightarrow> take (length reservedTablePrefix) (map lowerByte name) = reservedTablePrefix"

text \<open>Appending a record to the log, if there is one.\<close>

definition logRecord :: "byte \<Rightarrow> bytes \<Rightarrow> wal option \<Rightarrow> err option \<times> wal option" where
  "logRecord recType payload w = (case w of
       None \<Rightarrow> (None, None)
     | Some w \<Rightarrow> (case writeRecord recType payload w of (e, w) \<Rightarrow> (e, Some w)))"

definition createTable :: "TableDef \<Rightarrow> DB \<Rightarrow> err option \<times> DB" where
  "createTable td db =
     (let cur = db_cat db in
      if cat_byName cur (tName td) \<noteq> None then (Some ErrTableExists, db)
      else if hasReservedPrefix (tName td) then (Some ErrReservedName, db)
      else if length (cat_byID cur) > 65535 then (Some ErrTooManyTables, db)
      else case validateCatalogWireDef td of
        Inl e \<Rightarrow> (Some e, db)
      | Inr _ \<Rightarrow> (case resolveSchema [td] of
          Inl e \<Rightarrow> (Some e, db)
        | Inr resolved \<Rightarrow>
            let rt = \<lparr>rt_table = newTable (db_cpus db) (the (resolved (tName td))) (db_sizeHint db),
                      rt_tableID = word_of_nat (length (cat_byID cur))\<rparr>;
                (werr, w) = logRecord recCreateTable (encodeCreateTable [] (rt_tableID rt) td) (db_wal db);
                db = db\<lparr>db_wal := w\<rparr>
            in case werr of
                 Some e \<Rightarrow> (Some e, db)
               | None \<Rightarrow> (None, db\<lparr>db_heap := db_heap db @ [rt], db_cat := withTable (length (db_heap db)) rt cur\<rparr>)))"

definition dropTable :: "bytes \<Rightarrow> DB \<Rightarrow> err option \<times> DB" where
  "dropTable name db =
     (let cur = db_cat db in
      if cat_byName cur name = None then (Some ErrUnknownTable, db)
      else case checkU16 (length name) of
        Inl e \<Rightarrow> (Some e, db)
      | Inr _ \<Rightarrow>
          let (werr, w) = logRecord recDropTable (encodeDropTable [] name) (db_wal db); db = db\<lparr>db_wal := w\<rparr>
          in case werr of
               Some e \<Rightarrow> (Some e, db)
             | None \<Rightarrow> (None, db\<lparr>db_cat := withoutTable (db_heap db) name cur\<rparr>))"

section \<open>Round trips\<close>

context codec
begin

lemma for_n_dec_local:
  assumes "for_n n (\<lambda>(acc, off). andThen (dec (drop off b)) (\<lambda>(v, sz). Inr (acc @ [v], off + sz))) (acc, off) = Inr (xs, k)"
    and "off \<le> length b"
  shows "for_n n (\<lambda>(acc, off). andThen (dec (drop off (b @ rest))) (\<lambda>(v, sz). Inr (acc @ [v], off + sz))) (acc, off) = Inr (xs, k) \<and>
    off \<le> k \<and> k \<le> length b \<and> (\<exists>ys. xs = acc @ ys \<and> length ys = n \<and> (\<forall>y \<in> set ys. valid y))"
  using assms
proof (induction n arbitrary: acc off)
  case (Suc n)
  then obtain v sz where d: "dec (drop off b) = Inr (v, sz)"
    and r: "for_n n (\<lambda>(acc, off). andThen (dec (drop off b)) (\<lambda>(v, sz). Inr (acc @ [v], off + sz))) (acc @ [v], off + sz) = Inr (xs, k)"
    by (auto simp: andThen_eq_Inr)
  have sz: "sz \<le> length b - off" "valid v" using dec_bound [OF d] dec_valid [OF d] by auto
  have d': "dec (drop off (b @ rest)) = Inr (v, sz)" using dec_local [OF d] Suc.prems(2) by simp
  have "off + sz \<le> length b" using sz(1) Suc.prems(2) by simp
  from Suc.IH [OF r this] obtain ys where "xs = acc @ v # ys" "length ys = n" "\<forall>y \<in> set ys. valid y" "off + sz \<le> k" "k \<le> length b"
      "for_n n (\<lambda>(acc, off). andThen (dec (drop off (b @ rest))) (\<lambda>(v, sz). Inr (acc @ [v], off + sz))) (acc @ [v], off + sz) = Inr (xs, k)"
    by auto
  then show ?case using d' sz(2) by (intro conjI exI [of _ "v # ys"]) simp_all
qed simp

end

definition name_ok :: "bytes \<Rightarrow> bool" where
  "name_ok s \<longleftrightarrow> length s < 65536"

definition ctype_ok :: "ColumnType \<Rightarrow> bool" where
  "ctype_ok t \<longleftrightarrow> typeOfByte (typeByte t) = t"

definition column_ok :: "ColumnDef \<Rightarrow> bool" where
  "column_ok c \<longleftrightarrow> name_ok (cName c) \<and> ctype_ok (cType c)"

definition index_ok :: "IndexDef \<Rightarrow> bool" where
  "index_ok ix \<longleftrightarrow> name_ok (iName ix) \<and> length (iColumns ix) < 65536 \<and> (\<forall>col \<in> set (iColumns ix). name_ok col)"

definition def_ok :: "TableDef \<Rightarrow> bool" where
  "def_ok td \<longleftrightarrow> name_ok (tName td) \<and> length (tColumns td) < 65536 \<and> (\<forall>c \<in> set (tColumns td). column_ok c) \<and>
     length (tIndexes td) < 65536 \<and> (\<forall>ix \<in> set (tIndexes td). index_ok ix)"

lemma u16_width: "n < 65536 \<Longrightarrow> unat (word_of_nat n :: uint16) = n"
  by (simp add: unat_word_of_nat_small)

lemma u16_bound: "unat (le_get b :: uint16) < 65536"
  using unsigned_less [of "le_get b :: uint16"] by simp

lemma ctype_ok_typeOfByte: "ctype_ok (typeOfByte b)"
  by (simp add: ctype_ok_def typeOfByte_def)

interpretation lenstr: codec appendName getLenStr name_ok
proof
  show "name_ok x" if "getLenStr b = Inr (x, n)" for b x n
    using that u16_bound [of "take 2 b"] by (auto simp: getLenStr_def name_ok_def Let_def split: if_splits)
qed (auto simp: appendName_def getLenStr_def name_ok_def appendU16LE_def u16_width Let_def split: if_splits)

lemma flags_decode:
  fixes a b c d :: bool
  defines "f \<equiv> (if a then 1 else 0) OR (if b then 2 else 0) OR (if c then 4 else 0) OR (if d then 8 else 0 :: byte)"
  shows "f AND 1 \<noteq> 0 \<longleftrightarrow> a" "f AND 2 \<noteq> 0 \<longleftrightarrow> b" "f AND 4 \<noteq> 0 \<longleftrightarrow> c" "f AND 8 \<noteq> 0 \<longleftrightarrow> d"
  by (cases a; cases b; cases c; cases d; simp add: f_def)+

lemma encodeColumnDef_decode:
  assumes "column_ok c"
  shows "decodeColumnDef (encodeColumnDef [] c @ rest) = Inr (c, length (encodeColumnDef [] c))"
proof -
  have "getLenStr (encodeColumnDef [] c @ rest) = Inr (cName c, length (appendName [] (cName c)))"
    using assms lenstr.dec_enc [of "cName c"] by (simp add: column_ok_def encodeColumnDef_def)
  then show ?thesis using assms
    by (simp add: decodeColumnDef_def encodeColumnDef_def Let_def nth_append flags_decode column_ok_def ctype_ok_def)
qed

interpretation column: codec encodeColumnDef decodeColumnDef column_ok
proof
  show "encodeColumnDef buf x = buf @ encodeColumnDef [] x" for buf x
    using lenstr.enc_append [of buf] by (simp add: encodeColumnDef_def)
next
  fix b x n rest assume d: "decodeColumnDef b = Inr (x, n)"
  then obtain cn k where g: "getLenStr b = Inr (cn, k)" and k: "k + 2 \<le> length b" "n = k + 2"
      and x: "cName x = cn" "cType x = typeOfByte (b ! k)"
    by (auto simp: decodeColumnDef_def Let_def andThen_eq_Inr split: if_splits)
  show "0 < n \<and> n \<le> length b" using k by simp
  show "column_ok x" using lenstr.dec_valid [OF g] x by (simp add: column_ok_def ctype_ok_typeOfByte)
  show "decodeColumnDef (b @ rest) = Inr (x, n)"
    using d lenstr.dec_local [OF g, of rest] g k by (simp add: decodeColumnDef_def Let_def nth_append split: if_splits)
qed (rule encodeColumnDef_decode)

lemma encodeIndexDef_eq:
  "encodeIndexDef buf ix = buf @ appendName [] (iName ix) @ le_put 2 (word_of_nat (length (iColumns ix)) :: uint16) @
     concat (map (appendName []) (iColumns ix)) @ [if iOrdered ix then 2 else 0]"
  using lenstr.enc_append [of buf] by (simp add: encodeIndexDef_def lenstr.foldl_enc appendU16LE_def)

lemma encodeIndexDef_decode:
  assumes "index_ok ix"
  shows "decodeIndexDef (encodeIndexDef [] ix @ rest) = Inr (ix, length (encodeIndexDef [] ix))"
proof -
  let ?b = "encodeIndexDef [] ix @ rest" and ?n = "length (appendName [] (iName ix))"
  have ok: "name_ok (iName ix)" "length (iColumns ix) < 65536" "\<forall>col \<in> set (iColumns ix). name_ok col"
    using assms by (simp_all add: index_ok_def)
  have b: "?b = appendName [] (iName ix) @ le_put 2 (word_of_nat (length (iColumns ix)) :: uint16) @
      concat (map (appendName []) (iColumns ix)) @ [if iOrdered ix then 2 else 0] @ rest"
    by (simp add: encodeIndexDef_eq)
  have name: "getLenStr ?b = Inr (iName ix, ?n)" unfolding b using ok(1) by (rule lenstr.dec_enc)
  have count: "unat (le_get (take 2 (drop ?n ?b)) :: uint16) = length (iColumns ix)"
    unfolding b using ok(2) by (simp add: u16_width)
  have "drop (?n + 2) ?b = concat (map (appendName []) (iColumns ix)) @ [if iOrdered ix then 2 else 0] @ rest"
    unfolding b by simp
  from lenstr.for_n_dec [OF ok(3) this, of "[]"]
  show ?thesis using name count
    by (simp add: decodeIndexDef_def Let_def) (simp add: encodeIndexDef_eq nth_append)
qed

interpretation index: codec encodeIndexDef decodeIndexDef index_ok
proof
  show "encodeIndexDef buf x = buf @ encodeIndexDef [] x" for buf x
    by (simp only: encodeIndexDef_eq append_assoc append_Nil)
next
  fix b x n rest assume d: "decodeIndexDef b = Inr (x, n)"
  obtain name off cols k where g: "getLenStr b = Inr (name, off)" and off: "off + 2 \<le> length b"
      and l: "for_n (unat (le_get (take 2 (drop off b)) :: uint16))
        (\<lambda>(cols, off). andThen (getLenStr (drop off b)) (\<lambda>(col, n). Inr (cols @ [col], off + n))) ([], off + 2) = Inr (cols, k)"
      and k: "k < length b" "n = k + 1" and x: "x = \<lparr>iName = name, iColumns = cols, iOrdered = b ! k AND 2 \<noteq> 0\<rparr>"
    using d by (auto simp: decodeIndexDef_def Let_def andThen_eq_Inr split: if_splits)
  note loc = lenstr.for_n_dec_local [OF l off, of rest]
  show "0 < n \<and> n \<le> length b" using k by simp
  show "index_ok x" using lenstr.dec_valid [OF g] loc u16_bound [of "take 2 (drop off b)"] by (auto simp: x index_ok_def)
  show "decodeIndexDef (b @ rest) = Inr (x, n)"
    using lenstr.dec_local [OF g, of rest] off loc k by (simp add: decodeIndexDef_def Let_def x nth_append)
qed (rule encodeIndexDef_decode)

lemma encodeCreateTable_eq:
  "encodeCreateTable buf tableID td = buf @ le_put 2 tableID @ appendName [] (tName td) @
     le_put 2 (word_of_nat (length (tColumns td)) :: uint16) @ concat (map (encodeColumnDef []) (tColumns td)) @
     le_put 2 (word_of_nat (length (tIndexes td)) :: uint16) @ concat (map (encodeIndexDef []) (tIndexes td))"
  using lenstr.enc_append [of "buf @ le_put 2 tableID"]
  by (simp add: encodeCreateTable_def Let_def appendU16LE_def column.foldl_enc index.foldl_enc)

lemma decodeCreateTable_encode:
  assumes "def_ok td"
  shows "decodeCreateTable (encodeCreateTable [] tableID td) = Inr (tableID, td)"
proof -
  let ?b = "encodeCreateTable [] tableID td" and ?cols = "concat (map (encodeColumnDef []) (tColumns td))"
    and ?ixs = "concat (map (encodeIndexDef []) (tIndexes td))" and ?n = "length (appendName [] (tName td))"
  let ?off = "2 + ?n + 2"
  have ok: "name_ok (tName td)" "length (tColumns td) < 65536" "\<forall>c \<in> set (tColumns td). column_ok c"
      "length (tIndexes td) < 65536" "\<forall>ix \<in> set (tIndexes td). index_ok ix"
    using assms by (simp_all add: def_ok_def)
  note b = encodeCreateTable_eq [of "[]" tableID td, simplified]
  have name: "getLenStr (drop 2 ?b) = Inr (tName td, ?n)" unfolding b using lenstr.dec_enc [OF ok(1)] by simp
  have ncols: "unat (le_get (take 2 (drop (2 + ?n) ?b)) :: uint16) = length (tColumns td)"
    unfolding b using ok(2) by (simp add: u16_width)
  have "drop ?off ?b = ?cols @ le_put 2 (word_of_nat (length (tIndexes td)) :: uint16) @ ?ixs" unfolding b by simp
  note cols = column.for_n_dec [OF ok(3) this, of "[]"]
  have nidx: "unat (le_get (take 2 (drop (?off + length ?cols) ?b)) :: uint16) = length (tIndexes td)"
    unfolding b using ok(4) by (simp add: u16_width)
  have "drop (?off + length ?cols + 2) ?b = ?ixs @ []" unfolding b by simp
  note ixs = index.for_n_dec [OF ok(5) this, of "[]"]
  have len: "length ?b = ?off + length ?cols + 2 + length ?ixs" "le_get (take 2 ?b) = tableID" unfolding b by simp_all
  show ?thesis using name ncols cols nidx ixs len by (simp add: decodeCreateTable_def Let_def)
qed

lemma decodeDropTable_encode: "name_ok name \<Longrightarrow> decodeDropTable (encodeDropTable [] name) = Inr name"
  using lenstr.dec_enc [of name "[]"] by (simp add: decodeDropTable_def encodeDropTable_def)

lemma for_each_check_iff:
  "for_each (\<lambda>x _. f x) xs () = Inr () \<longleftrightarrow> (\<forall>x \<in> set xs. f x = Inr ())"
  by (induction xs) (auto simp: andThen_eq_Inr)

lemma validateCatalogWireDef_iff:
  "validateCatalogWireDef td = Inr () \<and> (\<forall>c \<in> set (tColumns td). ctype_ok (cType c)) \<longleftrightarrow> def_ok td"
  by (auto simp: validateCatalogWireDef_def validateIndexDef_def checkU16_def def_ok_def index_ok_def column_ok_def name_ok_def
      andThen_eq_Inr for_each_check_iff guard_err_def not_less less_Suc_eq_le [of _ 65535, simplified])

lemma decodeCreateTable_ok:
  assumes "decodeCreateTable b = Inr (tableID, td)"
  shows "def_ok td"
proof -
  let ?u16 = "\<lambda>off. unat (le_get (take 2 (drop off b)) :: uint16)"
  obtain name n cols off where g: "getLenStr (drop 2 b) = Inr (name, n)" and n: "2 + n + 2 \<le> length b"
      and c: "for_n (?u16 (2 + n)) (\<lambda>(cols, off). andThen (decodeColumnDef (drop off b)) (\<lambda>(c, n). Inr (cols @ [c], off + n)))
        ([], 2 + n + 2) = Inr (cols, off)"
      and td: "td = \<lparr>tName = name, tColumns = cols, tIndexes = []\<rparr> \<or> (\<exists>ixs k. td = \<lparr>tName = name, tColumns = cols, tIndexes = ixs\<rparr> \<and>
        off + 2 \<le> length b \<and> for_n (?u16 off) (\<lambda>(ixs, off). andThen (decodeIndexDef (drop off b)) (\<lambda>(ix, n). Inr (ixs @ [ix], off + n)))
          ([], off + 2) = Inr (ixs, k))"
    using assms by (fastforce simp: decodeCreateTable_def Let_def andThen_eq_Inr split: if_splits)
  have cs: "length cols = ?u16 (2 + n)" "\<forall>c \<in> set cols. column_ok c" using column.for_n_dec_local [OF c n, of "[]"] by auto
  have ixs: "length ixs = ?u16 off \<and> (\<forall>ix \<in> set ixs. index_ok ix)" if "off + 2 \<le> length b"
    "for_n (?u16 off) (\<lambda>(ixs, off). andThen (decodeIndexDef (drop off b)) (\<lambda>(ix, n). Inr (ixs @ [ix], off + n))) ([], off + 2) = Inr (ixs, k)" for ixs k
    using index.for_n_dec_local [OF that(2,1), of "[]"] by auto
  show ?thesis using td
  proof (elim disjE exE conjE)
    show ?thesis if "td = \<lparr>tName = name, tColumns = cols, tIndexes = []\<rparr>"
      using that cs lenstr.dec_valid [OF g] u16_bound [of "take 2 (drop (2 + n) b)"] by (simp add: def_ok_def)
  next
    fix ixs k assume "td = \<lparr>tName = name, tColumns = cols, tIndexes = ixs\<rparr>" and l: "off + 2 \<le> length b"
      "for_n (?u16 off) (\<lambda>(ixs, off). andThen (decodeIndexDef (drop off b)) (\<lambda>(ix, n). Inr (ixs @ [ix], off + n))) ([], off + 2) = Inr (ixs, k)"
    then show ?thesis using cs ixs [OF l] lenstr.dec_valid [OF g] u16_bound [of "take 2 (drop (2 + n) b)"] u16_bound [of "take 2 (drop off b)"]
      by (simp add: def_ok_def)
  qed
qed

text \<open>
  C25.  The guard of CREATE TABLE is exact: the record of a definition reads back as the same
  definition and number if and only if every name and count passes the 16-bit checks.
\<close>

theorem createTable_record_roundtrip:
  assumes "\<forall>c \<in> set (tColumns td). ctype_ok (cType c)"
  shows "decodeCreateTable (encodeCreateTable [] tableID td) = Inr (tableID, td) \<longleftrightarrow> validateCatalogWireDef td = Inr ()"
  using assms decodeCreateTable_encode [of td tableID] decodeCreateTable_ok [of _ tableID td] validateCatalogWireDef_iff [of td] by blast

theorem createTable_record_roundtrip_witness:
  "decodeCreateTable (encodeCreateTable [] 3 (rt_def sampleTable)) = Inr (3, rt_def sampleTable)"
proof -
  have "validateCatalogWireDef (rt_def sampleTable) = Inr ()"
    by (simp add: validateCatalogWireDef_def sampleTable_def checkU16_def str_def)
  moreover have "\<forall>c \<in> set (tColumns (rt_def sampleTable)). ctype_ok (cType c)"
    by (simp add: sampleTable_def ctype_ok_def typeOfByte_def)
  ultimately show ?thesis using createTable_record_roundtrip [of "rt_def sampleTable" 3] by simp
qed

end
