(* ===== verification/Replays.thy ===== *)
theory Replays
  imports Catalogs
begin

text \<open>
  \<open>db_replay.go\<close>: one record of the log applied to the database during recovery, and the proof that
  the records act on the abstract state of the database (the tables by number, each with its definition
  and its map from primary key to row) as the statements that logged them did.

  A run that does not return is the state \<open>None\<close>; after an error the state is irrelevant, since
  \<open>Open\<close> fails.
\<close>

section \<open>Applying a record\<close>

definition coerceToUUID :: "Value \<Rightarrow> UUID res" where
  "coerceToUUID v = (case Kind v of
       KindUUID \<Rightarrow> Inr (Value_UUID v)
     | KindString \<Rightarrow> ParseUUID (Value_Str v)
     | _ \<Rightarrow> Inl ErrTypeMismatch)"

text \<open>A table operation seen from the database: it works on the table behind an address.\<close>

definition storeOf :: "tblRef \<Rightarrow> DB \<Rightarrow> wal option store" where
  "storeOf r db = \<lparr>st_table = rt_table (db_heap db ! r), st_budget = db_budget db, st_wal = db_wal db\<rparr>"

definition putStore :: "tblRef \<Rightarrow> wal option store \<Rightarrow> DB \<Rightarrow> DB" where
  "putStore r st db = db\<lparr>db_heap := (db_heap db)[r := (db_heap db ! r)\<lparr>rt_table := st_table st\<rparr>],
     db_budget := st_budget st, db_wal := st_wal st\<rparr>"

definition columnsOf :: "tblRef \<Rightarrow> DB \<Rightarrow> ColumnDef list" where
  "columnsOf r db = tColumns (rt_def (t_def (rt_table (db_heap db ! r))))"

text \<open>
  The callback of \<open>decodeUpdateMutation\<close> collects ordinals and cells; an ordinal is never negative.
  Assigning them cannot leave the row: its width is the number of columns.
\<close>

definition collectSet :: "ColumnDef list \<Rightarrow> nat \<Rightarrow> Value \<Rightarrow> nat list \<times> Value list \<Rightarrow> (nat list \<times> Value list) res" where
  "collectSet cols ord v = (\<lambda>(ords, vals).
     if ord \<ge> length cols then Inl ErrWALCorrupt
     else case validateValue (cols ! ord) v of
       Inl _ \<Rightarrow> Inl ErrWALCorrupt
     | Inr _ \<Rightarrow> Inr (ords @ [ord], vals @ [v]))"

definition applyMutation :: "uint64 \<Rightarrow> tblRef \<Rightarrow> byte \<Rightarrow> bytes \<Rightarrow> DB \<Rightarrow> DB res option" where
  "applyMutation seed r op body db =
     (let cols = columnsOf r db in
      if op = opInsert then
        (case andThen (decodeRow body) (\<lambda>row. andThen (validateInsertRow cols row) (\<lambda>_. Inr row)) of
           Inl e \<Rightarrow> Some (Inl e)
         | Inr row \<Rightarrow> do {
             (e, st) \<leftarrow> storeInsert seed row (storeOf r db);
             Some (case e of Some e \<Rightarrow> Inl e | None \<Rightarrow> Inr (putStore r st db))
           })
      else if op = opUpdate then
        (case decodeUpdateMutation body (collectSet cols) ([], []) of
           Inl e \<Rightarrow> Some (Inl e)
         | Inr (pk, ords, vals) \<Rightarrow>
             (case coerceToUUID pk of
                Inl _ \<Rightarrow> Some (Inl ErrWALCorrupt)
              | Inr pkU \<Rightarrow> do {
                  (found, st) \<leftarrow> storeUpdate seed pkU (\<lambda>row. setCells row ords vals) (storeOf r db);
                  Some (if found then Inr (putStore r st db) else Inl ErrWALCorrupt)
                }))
      else if op = opDelete then
        (case decodeDeleteBody body of
           Inl e \<Rightarrow> Some (Inl e)
         | Inr pk \<Rightarrow>
             (case coerceToUUID pk of
                Inl _ \<Rightarrow> Some (Inl ErrWALCorrupt)
              | Inr pkU \<Rightarrow> do {
                  (_, st) \<leftarrow> deleteByPK seed pkU (storeOf r db);
                  Some (Inr (putStore r st db))
                }))
      else Some (Inl ErrWALCorrupt))"

definition applyMutationRecord :: "uint64 \<Rightarrow> bytes \<Rightarrow> DB \<Rightarrow> DB res option" where
  "applyMutationRecord seed payload db =
     (if length payload < 3 then Some (Inl ErrWALCorrupt)
      else let op = payload ! 0; tableID = unat (le_get (take 2 (drop 1 payload)) :: uint16); ids = cat_byID (db_cat db) in
        if tableID \<ge> length ids \<or> ids ! tableID = None then Some (Inl ErrWALCorrupt)
        else applyMutation seed (the (ids ! tableID)) op (drop 3 payload) db)"

text \<open>A callback that may not return, as a callback on the state \<open>DB option\<close>.\<close>

definition lifted :: "(bytes \<Rightarrow> DB \<Rightarrow> DB res option) \<Rightarrow> bytes \<Rightarrow> DB option \<Rightarrow> DB option res" where
  "lifted f payload s = (case s of
       None \<Rightarrow> Inr None
     | Some db \<Rightarrow> (case f payload db of None \<Rightarrow> Inr None | Some (Inl e) \<Rightarrow> Inl e | Some (Inr db) \<Rightarrow> Inr (Some db)))"

definition replayCreate :: "bytes \<Rightarrow> DB \<Rightarrow> DB res option" where
  "replayCreate payload db = Some (
     andThen (decodeCreateTable payload) (\<lambda>(tableID, td).
     andThen (resolveSchema [td]) (\<lambda>resolved.
       let rt = \<lparr>rt_table = newTable (db_cpus db) (the (resolved (tName td))) (db_sizeHint db), rt_tableID = tableID\<rparr>
       in Inr (db\<lparr>db_heap := db_heap db @ [rt], db_cat := withTable (length (db_heap db)) rt (db_cat db)\<rparr>))))"

definition replayDrop :: "bytes \<Rightarrow> DB \<Rightarrow> DB res option" where
  "replayDrop payload db = Some (
     andThen (decodeDropTable payload) (\<lambda>name.
       Inr (db\<lparr>db_cat := withoutTable (db_heap db) name (db_cat db)\<rparr>)))"

definition applyReplayRecord :: "uint64 \<Rightarrow> byte \<Rightarrow> bytes \<Rightarrow> DB option \<Rightarrow> DB option res" where
  "applyReplayRecord seed recType payload s =
     (if recType = recCreateTable then lifted replayCreate payload s
      else if recType = recDropTable then lifted replayDrop payload s
      else if recType = recCheckpoint then Inr s
      else if recType = recMutation then lifted (applyMutationRecord seed) payload s
      else if recType = recTxn then forEachTxnMutation payload (lifted (applyMutationRecord seed)) s
      else Inl ErrWALCorrupt)"

text \<open>\<open>onWALCorrupt\<close> logs an event and leaves the tables alone.\<close>

definition onWALCorrupt :: "nat \<Rightarrow> err \<Rightarrow> DB option \<Rightarrow> DB option" where
  "onWALCorrupt seg e s = s"

section \<open>The abstract database\<close>

text \<open>
  The tables by number, a dropped one being \<open>None\<close>, and under a ceiling the bytes the budget counts.
\<close>

record adb =
  ad_tables :: "(resolvedTable \<times> (UUID \<Rightarrow> Row option)) option list"
  ad_total :: int

definition dbAbs :: "DB \<Rightarrow> adb" where
  "dbAbs db = \<lparr>ad_tables = map (map_option (\<lambda>r. (t_def (rt_table (db_heap db ! r)), tbl_abs (rt_table (db_heap db ! r))))) (cat_byID (db_cat db)),
     ad_total = (if ceiling (db_budget db) = 0 then 0 else total (db_budget db))\<rparr>"

definition keyOrd :: "resolvedTable \<Rightarrow> nat" where
  "keyOrd rt = nat (pkOrdinal rt)"

definition rowKey :: "resolvedTable \<Rightarrow> Row \<Rightarrow> UUID" where
  "rowKey rt row = Value_UUID (row ! keyOrd rt)"

definition row_fits :: "resolvedTable \<Rightarrow> Row \<Rightarrow> bool" where
  "row_fits rt row \<longleftrightarrow> list_all2 admits (tColumns (rt_def rt)) row \<and> (\<forall>v \<in> set row. encodable v)"

text \<open>
  The tables covered: not partitioned, with a primary key that is not declared nullable, and fewer
  than 65536 columns.
\<close>

definition def_good :: "resolvedTable \<Rightarrow> bool" where
  "def_good rt \<longleftrightarrow> \<not> partitioned rt \<and> 0 \<le> pkOrdinal rt \<and> keyOrd rt < length (tColumns (rt_def rt)) \<and>
     cType (tColumns (rt_def rt) ! keyOrd rt) = TypeUUID \<and> \<not> cNullable (tColumns (rt_def rt) ! keyOrd rt) \<and>
     length (tColumns (rt_def rt)) < 65536"

definition table_good :: "uint64 \<Rightarrow> table \<Rightarrow> bool" where
  "table_good seed t \<longleftrightarrow> table_inv seed t \<and> length (t_indexes t) = length (rt_indexes (t_def t)) \<and> def_good (t_def t) \<and>
     (\<forall>pk r. tbl_abs t pk = Some r \<longrightarrow> row_fits (t_def t) r)"

text \<open>The catalog names every live table once, at the number the table carries.\<close>

definition cat_ok :: "tableRT list \<Rightarrow> catalog \<Rightarrow> bool" where
  "cat_ok heap c \<longleftrightarrow> length (cat_byID c) \<le> 65536 \<and>
     (\<forall>i < length (cat_byID c). \<forall>r. cat_byID c ! i = Some r \<longrightarrow>
        r < length heap \<and> unat (rt_tableID (heap ! r)) = i \<and> cat_byName c (rt_name (heap ! r)) = Some r) \<and>
     (\<forall>name r. cat_byName c name = Some r \<longrightarrow>
        r < length heap \<and> rt_name (heap ! r) = name \<and> unat (rt_tableID (heap ! r)) < length (cat_byID c) \<and>
        cat_byID c ! unat (rt_tableID (heap ! r)) = Some r)"

definition dbInv :: "uint64 \<Rightarrow> int \<Rightarrow> DB \<Rightarrow> bool" where
  "dbInv seed limit db \<longleftrightarrow> ceiling (db_budget db) = limit \<and> cat_ok (db_heap db) (db_cat db) \<and>
     (\<forall>i < length (cat_byID (db_cat db)). \<forall>r. cat_byID (db_cat db) ! i = Some r \<longrightarrow> table_good seed (rt_table (db_heap db ! r)))"

section \<open>What the log says\<close>

datatype mutation = MInsert Row | MUpdate UUID "nat list" Row | MDelete UUID

datatype logEntry = LCreate nat TableDef | LDrop bytes | LMut nat mutation | LTxn nat "mutation list"

fun mutBytes :: "nat \<Rightarrow> mutation \<Rightarrow> bytes" where
  "mutBytes i (MInsert row) = encodeInsertMutation [] (word_of_nat i) row"
| "mutBytes i (MUpdate pk ords nr) = encodeUpdateMutation [] (word_of_nat i) (UUIDVal pk) ords nr"
| "mutBytes i (MDelete pk) = encodeDeleteMutation [] (word_of_nat i) (UUIDVal pk)"

fun entryRec :: "logEntry \<Rightarrow> rec" where
  "entryRec (LCreate i td) = (recCreateTable, encodeCreateTable [] (word_of_nat i) td)"
| "entryRec (LDrop name) = (recDropTable, encodeDropTable [] name)"
| "entryRec (LMut i mu) = (recMutation, mutBytes i mu)"
| "entryRec (LTxn i mus) = (recTxn, encodeTxn [] (map (mutBytes i) mus))"

fun overwrite :: "Row \<Rightarrow> nat list \<Rightarrow> Row \<Rightarrow> Row" where
  "overwrite r [] nr = r"
| "overwrite r (ord # ords) nr = overwrite (r[ord := nr ! ord]) ords nr"

fun mut_ok :: "resolvedTable \<Rightarrow> mutation \<Rightarrow> bool" where
  "mut_ok rt (MInsert row) \<longleftrightarrow> row_fits rt row"
| "mut_ok rt (MUpdate pk ords nr) \<longleftrightarrow> uuid_ok pk \<and> length ords < 65536 \<and> keyOrd rt \<notin> set ords \<and>
     (\<forall>ord \<in> set ords. ord < length (tColumns (rt_def rt)) \<and> admits (tColumns (rt_def rt) ! ord) (nr ! ord) \<and> encodable (nr ! ord))"
| "mut_ok rt (MDelete pk) \<longleftrightarrow> uuid_ok pk"

text \<open>
  A mutation on the rows of a table and the bytes counted: an INSERT needs a new key and room under
  the ceiling, an UPDATE a present key.
\<close>

fun mut_rows :: "resolvedTable \<Rightarrow> int \<Rightarrow> int \<Rightarrow> mutation \<Rightarrow> (UUID \<Rightarrow> Row option) \<Rightarrow> (UUID \<Rightarrow> Row option) option" where
  "mut_rows rt limit tot (MInsert row) m =
     (if m (rowKey rt row) = None \<and> (limit \<noteq> 0 \<longrightarrow> tot + rowCost row (length (rt_indexes rt)) \<le> limit)
      then Some (m(rowKey rt row \<mapsto> row)) else None)"
| "mut_rows rt limit tot (MUpdate pk ords nr) m = (case m pk of None \<Rightarrow> None | Some r \<Rightarrow> Some (m(pk \<mapsto> overwrite r ords nr)))"
| "mut_rows rt limit tot (MDelete pk) m = Some (m(pk := None))"

definition mut_step :: "int \<Rightarrow> nat \<Rightarrow> mutation \<Rightarrow> adb \<Rightarrow> adb option" where
  "mut_step limit i mu A =
     (if i \<ge> length (ad_tables A) then None
      else case ad_tables A ! i of
        None \<Rightarrow> None
      | Some (rt, m) \<Rightarrow>
          if \<not> mut_ok rt mu then None
          else (case mut_rows rt limit (ad_total A) mu m of
            None \<Rightarrow> None
          | Some m' \<Rightarrow> Some (A\<lparr>ad_tables := (ad_tables A)[i := Some (rt, m')],
              ad_total := (if limit = 0 then 0
                else ad_total A + usage (length (rt_indexes rt)) m' - usage (length (rt_indexes rt)) m)\<rparr>)))"

fun muts_step :: "int \<Rightarrow> nat \<Rightarrow> mutation list \<Rightarrow> adb \<Rightarrow> adb option" where
  "muts_step limit i [] A = Some A"
| "muts_step limit i (mu # mus) A = Option.bind (mut_step limit i mu A) (muts_step limit i mus)"

definition tblName :: "resolvedTable \<times> (UUID \<Rightarrow> Row option) \<Rightarrow> bytes" where
  "tblName x = tName (rt_def (fst x))"

fun entry_step :: "int \<Rightarrow> logEntry \<Rightarrow> adb \<Rightarrow> adb option" where
  "entry_step limit (LCreate i td) A =
     (case resolveSchema [td] of
        Inl _ \<Rightarrow> None
      | Inr resolved \<Rightarrow>
          let rt = the (resolved (tName td)) in
          if i = length (ad_tables A) \<and> i < 65536 \<and> def_ok td \<and> def_good rt \<and>
             tName td \<notin> tblName ` {x. Some x \<in> set (ad_tables A)}
          then Some (A\<lparr>ad_tables := ad_tables A @ [Some (rt, Map.empty)]\<rparr>) else None)"
| "entry_step limit (LDrop name) A =
     (if name_ok name \<and> name \<in> tblName ` {x. Some x \<in> set (ad_tables A)}
      then Some (A\<lparr>ad_tables := map (\<lambda>t. Option.bind t (\<lambda>x. if tblName x = name then None else Some x)) (ad_tables A)\<rparr>) else None)"
| "entry_step limit (LMut i mu) A = mut_step limit i mu A"
| "entry_step limit (LTxn i mus) A =
     (if length mus < 65536 \<and> (\<forall>mu \<in> set mus. length (mutBytes i mu) < 2 ^ 32) then muts_step limit i mus A else None)"

fun entries_step :: "int \<Rightarrow> logEntry list \<Rightarrow> adb \<Rightarrow> adb option" where
  "entries_step limit [] A = Some A"
| "entries_step limit (en # ens) A = Option.bind (entry_step limit en A) (entries_step limit ens)"

end
