(* ===== verification/ReplaySpec.thy ===== *)
theory ReplaySpec
  imports Replays
begin

text \<open>
  Replaying a record has the effect \<open>entry_step\<close> gives it on the abstract database: every mutation, every
  transaction, CREATE and DROP.
\<close>

section \<open>Rows and keys\<close>

lemma pkOf_rowKey: "pkOf t = rowKey (t_def t)"
  by (simp add: fun_eq_iff pkOf_def rowKey_def pkOrd_def keyOrd_def)

lemma tbl_abs_key: "table_inv seed t \<Longrightarrow> tbl_abs t pk = Some r \<Longrightarrow> rowKey (t_def t) r = pk"
  by (erule (1) located_of_abs) (simp add: pkOf_rowKey)

lemma row_fits_length: "row_fits rt row \<Longrightarrow> length row = length (tColumns (rt_def rt))"
  by (auto simp: row_fits_def dest: list_all2_lengthD)

lemma row_fits_nth: "row_fits rt row \<Longrightarrow> ord < length row \<Longrightarrow> admits (tColumns (rt_def rt) ! ord) (row ! ord) \<and> encodable (row ! ord)"
  by (auto simp: row_fits_def list_all2_conv_all_nth)

lemma row_fits_row_ok: "row_fits rt row \<Longrightarrow> row_ok (length (tColumns (rt_def rt))) row"
  using row_fits_length by (auto simp: row_ok_def row_fits_def)

lemma row_fits_key:
  assumes "row_fits rt row" and "def_good rt"
  shows "row ! keyOrd rt = UUIDVal (rowKey rt row)" "uuid_ok (rowKey rt row)"
proof -
  have k: "keyOrd rt < length row" using assms row_fits_length by (simp add: def_good_def)
  note fit = row_fits_nth [OF assms(1) k]
  then have kind: "Kind (row ! keyOrd rt) = KindUUID" using assms(2) by (auto simp: admits_def def_good_def split: if_splits)
  from fit have "wf_Value (row ! keyOrd rt)" by simp
  then show "row ! keyOrd rt = UUIDVal (rowKey rt row)"
    by (cases rule: wf_Value_cases) (use kind in \<open>simp_all add: rowKey_def\<close>)
  show "uuid_ok (rowKey rt row)" by (simp add: rowKey_def)
qed

lemma overwrite_length [simp]: "length (overwrite r ords nr) = length r"
  by (induction r ords nr rule: overwrite.induct) simp_all

lemma overwrite_nth: "ord < length r \<Longrightarrow> overwrite r ords nr ! ord = (if ord \<in> set ords then nr ! ord else r ! ord)"
  by (induction r ords nr rule: overwrite.induct) (auto simp: nth_list_update)

lemma setCells_overwrite: "\<forall>ord \<in> set ords. ord < length r \<Longrightarrow> setCells r ords (map (\<lambda>ord. nr ! ord) ords) = Some (overwrite r ords nr)"
  by (induction r ords nr rule: overwrite.induct) simp_all

lemma row_fits_overwrite:
  assumes "row_fits rt r" and "mut_ok rt (MUpdate pk ords nr)"
  shows "row_fits rt (overwrite r ords nr)" "rowKey rt (overwrite r ords nr) = rowKey rt r"
proof -
  have len: "length r = length (tColumns (rt_def rt))" using assms(1) by (rule row_fits_length)
  show "row_fits rt (overwrite r ords nr)"
    using assms row_fits_nth [OF assms(1)] len
    by (auto simp: row_fits_def list_all2_conv_all_nth overwrite_nth in_set_conv_nth)
  show "rowKey rt (overwrite r ords nr) = rowKey rt r"
  proof (cases "keyOrd rt < length r")
    case True
    then show ?thesis using assms(2) by (simp add: rowKey_def overwrite_nth)
  next
    case False
    have "overwrite r ords nr ! k = r ! k" if "k \<ge> length r" for k
      using that assms(2) len
    proof (induction r ords nr rule: overwrite.induct)
      case (2 r ord ords nr)
      then show ?case by (simp add: nth_list_update)
    qed simp
    then show ?thesis using False by (simp add: rowKey_def)
  qed
qed

section \<open>One table of the database\<close>

text \<open>Between two states of a store with the same bytes of other tables, the budget moves by what the rows cost.\<close>

lemma store_total:
  assumes "store_inv seed base st" and "store_inv seed base st'" and "frame st st'" and "ceiling (st_budget st) \<noteq> 0"
  shows "total (st_budget st') = total (st_budget st) + usage (nIdx (st_table st)) (tbl_abs (st_table st')) - usage (nIdx (st_table st)) (tbl_abs (st_table st))"
  using assms tallies_exact(1) [OF store_invD(1) [OF assms(1)]] tallies_exact(1) [OF store_invD(1) [OF assms(2)]]
  by (simp add: store_inv_def budget_ok_def frame_def nIdx_def)

definition baseOf :: "tblRef \<Rightarrow> DB \<Rightarrow> int" where
  "baseOf r db = total (db_budget db) - tbl_bytes (rt_table (db_heap db ! r))"

lemma storeOf_inv: "table_inv seed (rt_table (db_heap db ! r)) \<Longrightarrow> store_inv seed (baseOf r db) (storeOf r db)"
  by (simp add: store_inv_def budget_ok_def baseOf_def storeOf_def)

lemma dbInvD:
  assumes "dbInv seed limit db" and "i < length (cat_byID (db_cat db))" and "cat_byID (db_cat db) ! i = Some r"
  shows "r < length (db_heap db)" "unat (rt_tableID (db_heap db ! r)) = i" "table_good seed (rt_table (db_heap db ! r))"
    "ceiling (db_budget db) = limit" "store_inv seed (baseOf r db) (storeOf r db)"
  using assms storeOf_inv by (auto simp: dbInv_def cat_ok_def table_good_def)

lemma putStore_ok:
  assumes inv: "dbInv seed limit db" and i: "i < length (cat_byID (db_cat db))" "cat_byID (db_cat db) ! i = Some r"
    and st: "table_good seed (st_table st)" "frame (storeOf r db) st"
  shows "dbInv seed limit (putStore r st db)"
    "dbAbs (putStore r st db) = (dbAbs db)\<lparr>ad_tables := (ad_tables (dbAbs db))[i := Some (t_def (rt_table (db_heap db ! r)), tbl_abs (st_table st))],
       ad_total := (if limit = 0 then 0 else total (st_budget st))\<rparr>"
proof -
  note d = dbInvD [OF inv i]
  let ?h = "db_heap (putStore r st db)"
  have same: "t_def (rt_table (?h ! r')) = t_def (rt_table (db_heap db ! r'))" "rt_tableID (?h ! r') = rt_tableID (db_heap db ! r')" for r'
    using st(2) d(1) by (auto simp: putStore_def frame_def storeOf_def nth_list_update)
  have name: "rt_name (?h ! r') = rt_name (db_heap db ! r')" for r' by (simp add: rt_name_def same)
  have len: "length ?h = length (db_heap db)" and cat: "db_cat (putStore r st db) = db_cat db" and bud: "db_budget (putStore r st db) = st_budget st"
    by (simp_all add: putStore_def)
  have ceil: "ceiling (st_budget st) = limit" using st(2) d(4) by (simp add: frame_def storeOf_def)
  have tab: "rt_table (?h ! r') = (if r' = r then st_table st else rt_table (db_heap db ! r'))" for r'
    using d(1) by (simp add: putStore_def nth_list_update)
  have def: "t_def (st_table st) = t_def (rt_table (db_heap db ! r))" using st(2) by (simp add: frame_def storeOf_def)
  have uniq: "j = i" if "j < length (cat_byID (db_cat db))" "cat_byID (db_cat db) ! j = Some r" for j
    using dbInvD(2) [OF inv that] d(2) by simp
  show "dbInv seed limit (putStore r st db)"
    using inv st(1) unfolding dbInv_def cat_ok_def cat name same len bud tab ceil by simp
  have "map (map_option (\<lambda>r'. (t_def (rt_table (?h ! r')), tbl_abs (rt_table (?h ! r'))))) (cat_byID (db_cat db)) =
      (map (map_option (\<lambda>r. (t_def (rt_table (db_heap db ! r)), tbl_abs (rt_table (db_heap db ! r))))) (cat_byID (db_cat db)))
        [i := Some (t_def (rt_table (db_heap db ! r)), tbl_abs (st_table st))]" (is "?l = ?r")
  proof (rule nth_equalityI)
    fix j assume j: "j < length ?l"
    show "?l ! j = ?r ! j"
      using j uniq [of j] i by (cases "cat_byID (db_cat db) ! j") (auto simp: same tab def nth_list_update)
  qed simp
  then show "dbAbs (putStore r st db) = (dbAbs db)\<lparr>ad_tables := (ad_tables (dbAbs db))[i := Some (t_def (rt_table (db_heap db ! r)), tbl_abs (st_table st))],
       ad_total := (if limit = 0 then 0 else total (st_budget st))\<rparr>"
    by (simp add: dbAbs_def cat bud ceil)
qed

section \<open>Mutations\<close>

lemma storeUpdate_frame: "storeUpdate seed pk f st = Some (b, st') \<Longrightarrow> t_pkDir (st_table st) = None \<Longrightarrow> frame st st'"
  by (auto simp: storeUpdate_def Let_def addBytes_def frame_def split: bind_splits option.splits prod.splits if_splits)

lemma deleteByPK_frame: "deleteByPK seed pk st = Some (b, st') \<Longrightarrow> t_pkDir (st_table st) = None \<Longrightarrow> frame st st'"
  by (auto simp: deleteByPK_def Let_def split: if_splits dest: deleteRow_frame)

lemma replay_insert:
  assumes inv: "store_inv seed base st" and t: "t = st_table st" and new: "tbl_abs t (rowKey (t_def t) row) = None"
    and room: "ceiling (st_budget st) \<noteq> 0 \<longrightarrow> total (st_budget st) + rowCost row (nIdx t) \<le> ceiling (st_budget st)"
  shows "\<exists>st'. storeInsert seed row st = Some (None, st') \<and> store_inv seed base st' \<and> frame st st' \<and> st_wal st' = st_wal st \<and>
    tbl_abs (st_table st') = (tbl_abs t)(rowKey (t_def t) row \<mapsto> row)"
proof -
  obtain e st' where i: "insertRow seed False row noJournal st = Some (e, st')" "store_inv seed base st'"
      "(e, st_wal st') = insert_spec (tbl_abs t) (st_budget st) noJournal (rowKey (t_def t) row) row (rowCost row (nIdx t)) (st_wal st)"
      "tbl_abs (st_table st') = (if e = None then (tbl_abs t)(rowKey (t_def t) row \<mapsto> row) else tbl_abs t)"
    using insertRow_ok [OF inv t refl refl, of False row noJournal] by (auto simp: pkOf_rowKey)
  have "e = None" "st_wal st' = st_wal st" using i(3) new room by (auto simp: insert_spec_def noJournal_def split: if_splits)
  then show ?thesis using i insertRow_frame [OF i(1)] store_invD(3) [OF inv] by (simp add: storeInsert_def)
qed

lemma replay_update:
  assumes inv: "store_inv seed base st" and t: "t = st_table st" and old: "tbl_abs t pk = Some r" and f: "f r = Some nr" "rowKey (t_def t) nr = pk"
  shows "\<exists>st'. storeUpdate seed pk f st = Some (True, st') \<and> store_inv seed base st' \<and> frame st st' \<and> st_wal st' = st_wal st \<and>
    tbl_abs (st_table st') = (tbl_abs t)(pk \<mapsto> nr)"
proof -
  obtain st' where u: "storeUpdate seed pk f st = Some (True, st')" "store_inv seed base st'" "st_wal st' = st_wal st"
      "tbl_abs (st_table st') = (tbl_abs t)(pk \<mapsto> nr)"
    using storeUpdate_ok [OF inv t, of pk f] old f by (auto simp: pkOf_rowKey)
  then show ?thesis using storeUpdate_frame [OF u(1)] store_invD(3) [OF inv] by blast
qed

text \<open>The step on one table lifts to the database.\<close>

lemma table_good_step:
  assumes good: "table_good seed (st_table st)" and inv: "store_inv seed base st'" and fr: "frame st st'"
    and rows: "\<And>pk r. tbl_abs (st_table st') pk = Some r \<Longrightarrow> row_fits (t_def (st_table st)) r"
  shows "table_good seed (st_table st')"
  using assms by (simp add: table_good_def store_inv_def frame_def)

lemma lift_step:
  assumes inv: "dbInv seed limit db" and i: "i < length (cat_byID (db_cat db))" "cat_byID (db_cat db) ! i = Some r"
    and st: "store_inv seed (baseOf r db) st" "frame (storeOf r db) st"
    and rows: "\<And>pk x. tbl_abs (st_table st) pk = Some x \<Longrightarrow> row_fits (t_def (rt_table (db_heap db ! r))) x"
    and tm: "ad_tables (dbAbs db) ! i = Some (rt, m)"
  shows "dbInv seed limit (putStore r st db)"
    "dbAbs (putStore r st db) = (dbAbs db)\<lparr>ad_tables := (ad_tables (dbAbs db))[i := Some (rt, tbl_abs (st_table st))],
       ad_total := (if limit = 0 then 0 else ad_total (dbAbs db) + usage (length (rt_indexes rt)) (tbl_abs (st_table st)) - usage (length (rt_indexes rt)) m)\<rparr>"
proof -
  note d = dbInvD [OF inv i]
  have t: "st_table (storeOf r db) = rt_table (db_heap db ! r)" "ceiling (st_budget (storeOf r db)) = limit"
      "total (st_budget (storeOf r db)) = total (db_budget db)"
    using d(4) by (simp_all add: storeOf_def)
  have rm: "rt = t_def (rt_table (db_heap db ! r))" "m = tbl_abs (rt_table (db_heap db ! r))"
    using tm i by (auto simp: dbAbs_def)
  have good: "table_good seed (st_table st)"
    by (rule table_good_step [of seed "storeOf r db"]) (use d(3) st rows t in auto)
  have n: "nIdx (rt_table (db_heap db ! r)) = length (rt_indexes rt)" using d(3) by (simp add: table_good_def nIdx_def rm)
  have tot: "limit \<noteq> 0 \<Longrightarrow> total (st_budget st) = ad_total (dbAbs db) + usage (length (rt_indexes rt)) (tbl_abs (st_table st)) - usage (length (rt_indexes rt)) m"
    using store_total [OF d(5) st] d(4) by (simp add: t n rm(2) dbAbs_def)
  show "dbInv seed limit (putStore r st db)" using putStore_ok [OF inv i good st(2)] by simp
  show "dbAbs (putStore r st db) = (dbAbs db)\<lparr>ad_tables := (ad_tables (dbAbs db))[i := Some (rt, tbl_abs (st_table st))],
       ad_total := (if limit = 0 then 0 else ad_total (dbAbs db) + usage (length (rt_indexes rt)) (tbl_abs (st_table st)) - usage (length (rt_indexes rt)) m)\<rparr>"
    using putStore_ok(2) [OF inv i good st(2)] tot by (simp add: rm(1))
qed

definition sameEnv :: "DB \<Rightarrow> DB \<Rightarrow> bool" where
  "sameEnv db db' \<longleftrightarrow> db_wal db' = db_wal db \<and> db_cpus db' = db_cpus db \<and> db_sizeHint db' = db_sizeHint db"

lemma sameEnv_put: "st_wal st = db_wal db \<Longrightarrow> sameEnv db (putStore r st db)"
  by (simp add: sameEnv_def putStore_def)

text \<open>The ordinals and cells an UPDATE record carries pass the checks of the callback.\<close>

lemma collectSet_ok:
  assumes "\<forall>ord \<in> set ords. ord < length cols \<and> admits (cols ! ord) (nr ! ord)"
  shows "for_each (\<lambda>(ord, v). collectSet cols ord v) (map (\<lambda>ord. (ord, nr ! ord)) ords) (os, vs) =
    Inr (os @ ords, vs @ map (\<lambda>ord. nr ! ord) ords)"
  using assms
proof (induction ords arbitrary: os vs)
  case (Cons ord ords)
  then have "validateValue (cols ! ord) (nr ! ord) = Inr ()" by (simp add: validateValue_iff)
  then show ?case using Cons by (simp add: collectSet_def)
qed simp

lemma mutBytes_head:
  "length (mutBytes i mu) \<ge> 3" "mutBytes i mu ! 0 = (case mu of MInsert _ \<Rightarrow> opInsert | MUpdate _ _ _ \<Rightarrow> opUpdate | MDelete _ \<Rightarrow> opDelete)"
  "i < 65536 \<Longrightarrow> unat (le_get (take 2 (drop 1 (mutBytes i mu))) :: uint16) = i"
  by (cases mu; simp add: encodeInsertMutation_def encodeUpdate_eq encodeDeleteMutation_def encodeRow_eq appendU16LE_def
      encodeCell_append [of "_ # _"] encodeCell_append [of "_ @ _"] u16_width)+

lemma dbAbs_table:
  assumes "ad_tables (dbAbs db) ! i = Some (rt, m)" and "i < length (ad_tables (dbAbs db))"
  obtains r where "i < length (cat_byID (db_cat db))" "cat_byID (db_cat db) ! i = Some r"
    "rt = t_def (rt_table (db_heap db ! r))" "m = tbl_abs (rt_table (db_heap db ! r))"
  using assms by (auto simp: dbAbs_def)

lemma mut_body:
  "drop 3 (mutBytes i (MInsert row)) = encodeRow [] row"
  "drop 3 (mutBytes i (MDelete pk)) = encodeCell [] (UUIDVal pk)"
  by (simp_all add: encodeInsertMutation_def encodeDeleteMutation_def encodeRow_eq appendU16LE_def encodeCell_append [of "_ # _"])

lemma applyMutation_ok:
  assumes inv: "dbInv seed limit db" and i: "i < length (cat_byID (db_cat db))" "cat_byID (db_cat db) ! i = Some r"
    and rt: "rt = t_def (rt_table (db_heap db ! r))" and m: "m = tbl_abs (rt_table (db_heap db ! r))"
    and ok: "mut_ok rt mu" and rows: "mut_rows rt limit (ad_total (dbAbs db)) mu m = Some m'"
  shows "\<exists>st. applyMutation seed r (mutBytes i mu ! 0) (drop 3 (mutBytes i mu)) db = Some (Inr (putStore r st db)) \<and>
    store_inv seed (baseOf r db) st \<and> frame (storeOf r db) st \<and> st_wal st = db_wal db \<and> tbl_abs (st_table st) = m' \<and>
    (\<forall>pk x. m' pk = Some x \<longrightarrow> row_fits rt x)"
proof -
  note d = dbInvD [OF inv i]
  let ?t = "rt_table (db_heap db ! r)"
  have ti: "table_inv seed ?t" and good: "def_good rt" and fits: "\<And>pk x. m pk = Some x \<Longrightarrow> row_fits rt x" and n: "nIdx ?t = length (rt_indexes rt)"
    using d(3) by (auto simp: table_good_def rt m nIdx_def)
  have st: "st_table (storeOf r db) = ?t" "st_wal (storeOf r db) = db_wal db" "st_budget (storeOf r db) = db_budget db"
    by (simp_all add: storeOf_def)
  have cols: "columnsOf r db = tColumns (rt_def rt)" by (simp add: columnsOf_def rt)
  note ops = opInsert_def opUpdate_def opDelete_def
  show ?thesis
  proof (cases mu)
    case (MInsert row)
    have fit: "row_fits rt row" using ok MInsert by simp
    have room: "m (rowKey rt row) = None" "m' = m(rowKey rt row \<mapsto> row)"
        "limit \<noteq> 0 \<longrightarrow> ad_total (dbAbs db) + rowCost row (length (rt_indexes rt)) \<le> limit"
      using rows MInsert by (auto split: if_splits)
    obtain st' where "storeInsert seed row (storeOf r db) = Some (None, st')" "store_inv seed (baseOf r db) st'" "frame (storeOf r db) st'"
        "st_wal st' = db_wal db" "tbl_abs (st_table st') = m'"
      using replay_insert [OF d(5) st(1) [symmetric], of row] room d(4) by (auto simp: st m n rt dbAbs_def)
    moreover have "decodeRow (encodeRow [] row) = Inr row"
      using fit good row_fits_length [OF fit] by (intro decodeRow_encode) (auto simp: row_fits_def def_good_def)
    moreover have "validateInsertRow (columnsOf r db) row = Inr ()" using fit by (simp add: cols validateInsertRow_eq row_fits_def)
    ultimately show ?thesis using fits fit unfolding MInsert mutBytes_head mut_body applyMutation_def
      by (auto simp: room(2) Let_def)
  next
    case (MUpdate pk ords nr)
    obtain x where x: "m pk = Some x" "m' = m(pk \<mapsto> overwrite x ords nr)" using rows MUpdate by (auto split: option.splits)
    have okm: "mut_ok rt (MUpdate pk ords nr)" using ok MUpdate by simp
    then have sets: "\<forall>ord \<in> set ords. ord < length (columnsOf r db) \<and> admits (columnsOf r db ! ord) (nr ! ord)" "uuid_ok pk"
      and enc: "\<forall>ord \<in> set ords. ord < 2 ^ 16 \<and> encodable (nr ! ord)" "length ords < 2 ^ 16"
      using good by (auto simp: cols def_good_def)
    have fx: "row_fits rt x" using fits x(1) by blast
    note new = row_fits_overwrite [OF fx okm]
    have "\<forall>ord \<in> set ords. ord < length x" using sets(1) row_fits_length [OF fx] by (simp add: cols)
    then have set: "setCells x ords (map (\<lambda>ord. nr ! ord) ords) = Some (overwrite x ords nr)" by (rule setCells_overwrite)
    have "rowKey rt (overwrite x ords nr) = pk" using new(2) tbl_abs_key [OF ti] x(1) by (simp add: m rt)
    with set x obtain st' where "storeUpdate seed pk (\<lambda>row. setCells row ords (map (\<lambda>ord. nr ! ord) ords)) (storeOf r db) = Some (True, st')"
        "store_inv seed (baseOf r db) st'" "frame (storeOf r db) st'" "st_wal st' = db_wal db" "tbl_abs (st_table st') = m'"
      using replay_update [OF d(5) st(1) [symmetric], of pk x "\<lambda>row. setCells row ords (map (\<lambda>ord. nr ! ord) ords)"]
      by (auto simp: st m rt)
    moreover have "decodeUpdateMutation (drop 3 (mutBytes i mu)) (collectSet (columnsOf r db)) ([], []) = Inr (UUIDVal pk, ords, map (\<lambda>ord. nr ! ord) ords)"
      using decodeUpdate_encode [of "UUIDVal pk" ords nr "word_of_nat i" "collectSet (columnsOf r db)" "([], [])"] enc
        collectSet_ok [OF sets(1), of "[]" "[]"] by (simp add: MUpdate)
    moreover have "coerceToUUID (UUIDVal pk) = Inr pk" using sets(2) by (simp add: coerceToUUID_def)
    ultimately show ?thesis using fits new(1) unfolding mutBytes_head applyMutation_def by (auto simp: MUpdate x(2) Let_def ops)
  next
    case (MDelete pk)
    have m': "m' = m(pk := None)" and pk: "uuid_ok pk" using rows ok MDelete by auto
    obtain b st' where del: "deleteByPK seed pk (storeOf r db) = Some (b, st')" "store_inv seed (baseOf r db) st'" "st_wal st' = db_wal db"
        "tbl_abs (st_table st') = m'"
      using deleteByPK_ok [OF d(5) st(1) [symmetric], of pk] by (auto simp: st m m')
    moreover have "frame (storeOf r db) st'" using deleteByPK_frame [OF del(1)] store_invD(3) [OF d(5)] by blast
    moreover have "coerceToUUID (UUIDVal pk) = Inr pk" using pk by (simp add: coerceToUUID_def)
    ultimately show ?thesis using fits unfolding MDelete mutBytes_head mut_body applyMutation_def
      by (auto simp: m' Let_def ops decodeDeleteBody_encode)
  qed
qed

lemma applyMutationRecord_ok:
  assumes inv: "dbInv seed limit db" and step: "mut_step limit i mu (dbAbs db) = Some A"
  shows "\<exists>db'. applyMutationRecord seed (mutBytes i mu) db = Some (Inr db') \<and> dbInv seed limit db' \<and> dbAbs db' = A \<and> sameEnv db db'"
proof -
  from step obtain rt m m' where tm: "ad_tables (dbAbs db) ! i = Some (rt, m)" "i < length (ad_tables (dbAbs db))" and ok: "mut_ok rt mu"
      and rows: "mut_rows rt limit (ad_total (dbAbs db)) mu m = Some m'"
      and A: "A = (dbAbs db)\<lparr>ad_tables := (ad_tables (dbAbs db))[i := Some (rt, m')], ad_total := (if limit = 0 then 0
          else ad_total (dbAbs db) + usage (length (rt_indexes rt)) m' - usage (length (rt_indexes rt)) m)\<rparr>"
    by (auto simp: mut_step_def split: if_splits option.splits)
  from tm obtain r where i: "i < length (cat_byID (db_cat db))" "cat_byID (db_cat db) ! i = Some r"
      and rt: "rt = t_def (rt_table (db_heap db ! r))" and m: "m = tbl_abs (rt_table (db_heap db ! r))" by (rule dbAbs_table)
  obtain st where st: "applyMutation seed r (mutBytes i mu ! 0) (drop 3 (mutBytes i mu)) db = Some (Inr (putStore r st db))"
      "store_inv seed (baseOf r db) st" "frame (storeOf r db) st" "st_wal st = db_wal db" "tbl_abs (st_table st) = m'"
      "\<forall>pk x. m' pk = Some x \<longrightarrow> row_fits rt x"
    using applyMutation_ok [OF inv i rt m ok rows] by blast
  have fits: "row_fits (t_def (rt_table (db_heap db ! r))) x" if "tbl_abs (st_table st) pk = Some x" for pk x
    using st(5,6) that by (simp add: rt)
  note lift = lift_step [OF inv i st(2,3) fits tm(1)]
  have i16: "i < 65536" using i(1) inv by (simp add: dbInv_def cat_ok_def)
  have "applyMutationRecord seed (mutBytes i mu) db = Some (Inr (putStore r st db))"
    using st(1) i mutBytes_head(1) [of i mu] mutBytes_head(3) [OF i16, of mu] by (simp add: applyMutationRecord_def Let_def not_less)
  with lift show ?thesis using sameEnv_put [OF st(4)] by (auto simp: A st(5))
qed

lemma muts_replay:
  assumes "dbInv seed limit db" and "muts_step limit i mus (dbAbs db) = Some A"
  shows "\<exists>db'. for_each (lifted (applyMutationRecord seed)) (map (mutBytes i) mus) (Some db) = Inr (Some db') \<and>
    dbInv seed limit db' \<and> dbAbs db' = A \<and> sameEnv db db'"
  using assms
proof (induction mus arbitrary: db)
  case Nil
  then show ?case by (simp add: sameEnv_def)
next
  case (Cons mu mus)
  then obtain A1 where A1: "mut_step limit i mu (dbAbs db) = Some A1" "muts_step limit i mus A1 = Some A" by (auto split: bind_splits)
  obtain db1 where db1: "applyMutationRecord seed (mutBytes i mu) db = Some (Inr db1)" "dbInv seed limit db1" "dbAbs db1 = A1" "sameEnv db db1"
    using applyMutationRecord_ok [OF Cons.prems(1) A1(1)] by blast
  from Cons.IH [OF db1(2)] A1(2) db1(3) obtain db' where
    "for_each (lifted (applyMutationRecord seed)) (map (mutBytes i) mus) (Some db1) = Inr (Some db')" "dbInv seed limit db'" "dbAbs db' = A" "sameEnv db1 db'"
    by blast
  moreover have "lifted (applyMutationRecord seed) (mutBytes i mu) (Some db) = Inr (Some db1)" by (simp add: lifted_def db1(1))
  ultimately show ?case using db1(4) by (auto simp: sameEnv_def)
qed

section \<open>CREATE and DROP\<close>

lemma dbAbs_names: "tblName ` {x. Some x \<in> set (ad_tables (dbAbs db))} = {rt_name (db_heap db ! r) | r. Some r \<in> set (cat_byID (db_cat db))}"
  (is "?l = ?r")
proof (intro set_eqI iffI)
  fix n assume "n \<in> ?l"
  then obtain x where x: "n = tblName x" "Some x \<in> set (ad_tables (dbAbs db))" by blast
  then have "Some x \<in> map_option (\<lambda>r. (t_def (rt_table (db_heap db ! r)), tbl_abs (rt_table (db_heap db ! r)))) ` set (cat_byID (db_cat db))"
    by (simp add: dbAbs_def)
  then obtain c where c: "c \<in> set (cat_byID (db_cat db))"
      "Some x = map_option (\<lambda>r. (t_def (rt_table (db_heap db ! r)), tbl_abs (rt_table (db_heap db ! r)))) c" by blast
  from c(2) [symmetric] obtain r where "c = Some r" "x = (t_def (rt_table (db_heap db ! r)), tbl_abs (rt_table (db_heap db ! r)))"
    by (auto simp: map_option_eq_Some)
  then have "n = rt_name (db_heap db ! r)" "Some r \<in> set (cat_byID (db_cat db))" using x(1) c(1) by (simp_all add: tblName_def rt_name_def)
  then show "n \<in> ?r" by blast
next
  fix n assume "n \<in> ?r"
  then obtain r where r: "n = rt_name (db_heap db ! r)" "Some r \<in> set (cat_byID (db_cat db))" by blast
  let ?x = "(t_def (rt_table (db_heap db ! r)), tbl_abs (rt_table (db_heap db ! r)))"
  have "Some ?x \<in> set (ad_tables (dbAbs db))" using r(2) by (auto simp: dbAbs_def intro!: image_eqI [of _ _ "Some r"])
  moreover have "n = tblName ?x" by (simp add: r(1) tblName_def rt_name_def)
  ultimately show "n \<in> ?l" by blast
qed

lemma byName_iff:
  assumes "cat_ok (db_heap db) (db_cat db)"
  shows "cat_byName (db_cat db) name = None \<longleftrightarrow> name \<notin> tblName ` {x. Some x \<in> set (ad_tables (dbAbs db))}"
proof
  assume "cat_byName (db_cat db) name = None"
  then show "name \<notin> tblName ` {x. Some x \<in> set (ad_tables (dbAbs db))}"
    using assms unfolding dbAbs_names by (auto simp: cat_ok_def in_set_conv_nth)
next
  assume n: "name \<notin> tblName ` {x. Some x \<in> set (ad_tables (dbAbs db))}"
  show "cat_byName (db_cat db) name = None"
  proof (rule ccontr)
    assume "cat_byName (db_cat db) name \<noteq> None"
    then obtain r where "rt_name (db_heap db ! r) = name" "Some r \<in> set (cat_byID (db_cat db))"
      using assms by (auto simp: cat_ok_def) (metis nth_mem)
    then show False using n by (auto simp: dbAbs_names)
  qed
qed

lemma cat_ok_withTable:
  assumes ok: "cat_ok heap c" and id: "unat (rt_tableID rt) = length (cat_byID c)" and small: "length (cat_byID c) < 65536"
    and new: "cat_byName c (rt_name rt) = None"
  shows "cat_ok (heap @ [rt]) (withTable (length heap) rt c)" "cat_byID (withTable (length heap) rt c) = cat_byID c @ [Some (length heap)]"
proof -
  show ids: "cat_byID (withTable (length heap) rt c) = cat_byID c @ [Some (length heap)]"
    by (simp add: withTable_def id list_update_append)
  have names: "cat_byName (withTable (length heap) rt c) = (cat_byName c)(rt_name rt \<mapsto> length heap)" by (simp add: withTable_def Let_def)
  have old: "r < length heap" "unat (rt_tableID (heap ! r)) = i" "cat_byName c (rt_name (heap ! r)) = Some r"
    if "i < length (cat_byID c)" "cat_byID c ! i = Some r" for i r
    using ok that by (auto simp: cat_ok_def)
  have named: "r < length heap" "rt_name (heap ! r) = name" "unat (rt_tableID (heap ! r)) < length (cat_byID c)"
      "cat_byID c ! unat (rt_tableID (heap ! r)) = Some r" if "cat_byName c name = Some r" for name r
    using ok that by (auto simp: cat_ok_def)
  have A: "r < length (heap @ [rt]) \<and> unat (rt_tableID ((heap @ [rt]) ! r)) = i \<and>
      ((cat_byName c)(rt_name rt \<mapsto> length heap)) (rt_name ((heap @ [rt]) ! r)) = Some r"
    if "i < length (cat_byID c @ [Some (length heap)])" "(cat_byID c @ [Some (length heap)]) ! i = Some r" for i r
  proof (cases "i < length (cat_byID c)")
    case True
    with that have r: "cat_byID c ! i = Some r" by (simp add: nth_append)
    note o = old [OF True r]
    have "rt_name (heap ! r) \<noteq> rt_name rt" using o(3) new by auto
    then show ?thesis using o by (simp add: nth_append)
  next
    case False
    with that have "i = length (cat_byID c)" "r = length heap" by (auto simp: nth_append)
    then show ?thesis by (simp add: id)
  qed
  have B: "r < length (heap @ [rt]) \<and> rt_name ((heap @ [rt]) ! r) = name \<and>
      unat (rt_tableID ((heap @ [rt]) ! r)) < length (cat_byID c @ [Some (length heap)]) \<and>
      (cat_byID c @ [Some (length heap)]) ! unat (rt_tableID ((heap @ [rt]) ! r)) = Some r"
    if "((cat_byName c)(rt_name rt \<mapsto> length heap)) name = Some r" for name r
  proof (cases "name = rt_name rt")
    case True
    with that have "r = length heap" by simp
    then show ?thesis using True by (simp add: id nth_append)
  next
    case False
    with that have "cat_byName c name = Some r" by simp
    from named [OF this] show ?thesis by (simp add: nth_append)
  qed
  show "cat_ok (heap @ [rt]) (withTable (length heap) rt c)"
    unfolding cat_ok_def ids names using A B small by simp
qed

lemma newTable_good:
  assumes "def_good rt"
  shows "table_good seed (newTable cpus rt hint)" "tbl_abs (newTable cpus rt hint) = Map.empty"
  using assms newTable_ok [of rt seed cpus hint] by (auto simp: table_good_def def_good_def)

lemma addTable_ok:
  assumes inv: "dbInv seed limit db" and rt: "rt = \<lparr>rt_table = newTable cpus rs hint, rt_tableID = word_of_nat (length (cat_byID (db_cat db)))\<rparr>"
    and good: "def_good rs" and new: "cat_byName (db_cat db) (tName (rt_def rs)) = None" and small: "length (cat_byID (db_cat db)) < 65536"
  defines "db' \<equiv> db\<lparr>db_heap := db_heap db @ [rt], db_cat := withTable (length (db_heap db)) rt (db_cat db)\<rparr>"
  shows "dbInv seed limit db'" "dbAbs db' = (dbAbs db)\<lparr>ad_tables := ad_tables (dbAbs db) @ [Some (rs, Map.empty)]\<rparr>"
proof -
  have co: "cat_ok (db_heap db) (db_cat db)" using inv by (simp add: dbInv_def)
  have id: "unat (rt_tableID rt) = length (cat_byID (db_cat db))" using small by (simp add: rt u16_width)
  have nm: "cat_byName (db_cat db) (rt_name rt) = None" using new by (simp add: rt rt_name_def)
  note w = cat_ok_withTable [OF co id small nm]
  have old: "r < length (db_heap db)" "table_good seed (rt_table (db_heap db ! r))"
    if "i < length (cat_byID (db_cat db))" "cat_byID (db_cat db) ! i = Some r" for i r
    using dbInvD [OF inv that] by auto
  have tg: "table_good seed (rt_table ((db_heap db @ [rt]) ! r))"
    if "i < length (cat_byID (db_cat db) @ [Some (length (db_heap db))])" "(cat_byID (db_cat db) @ [Some (length (db_heap db))]) ! i = Some r" for i r
  proof (cases "i < length (cat_byID (db_cat db))")
    case True
    with that have "cat_byID (db_cat db) ! i = Some r" by (simp add: nth_append)
    with old [OF True] show ?thesis by (simp add: nth_append)
  next
    case False
    with that have "r = length (db_heap db)" by (auto simp: nth_append)
    then show ?thesis using newTable_good [OF good] by (simp add: rt)
  qed
  show "dbInv seed limit db'"
    using inv w tg by (simp add: dbInv_def db'_def)
  have "r < length (db_heap db)" if "Some r \<in> set (cat_byID (db_cat db))" for r
    using that old(1) by (auto simp: in_set_conv_nth)
  then have same: "map (map_option (\<lambda>r. (t_def (rt_table ((db_heap db @ [rt]) ! r)), tbl_abs (rt_table ((db_heap db @ [rt]) ! r))))) (cat_byID (db_cat db)) =
      ad_tables (dbAbs db)"
    by (auto simp: dbAbs_def nth_append intro!: option.map_cong0)
  have "rt_table rt = newTable cpus rs hint" by (simp add: rt)
  then show "dbAbs db' = (dbAbs db)\<lparr>ad_tables := ad_tables (dbAbs db) @ [Some (rs, Map.empty)]\<rparr>"
    using same newTable_good(2) [OF good, of cpus hint] by (simp add: dbAbs_def db'_def w(2) del: map_map)
qed

lemma dropTable_ok:
  fixes name :: bytes
  assumes inv: "dbInv seed limit db"
  defines "db' \<equiv> db\<lparr>db_cat := withoutTable (db_heap db) name (db_cat db)\<rparr>"
  shows "dbInv seed limit db'"
    "dbAbs db' = (dbAbs db)\<lparr>ad_tables := map (\<lambda>t. Option.bind t (\<lambda>x. if tblName x = name then None else Some x)) (ad_tables (dbAbs db))\<rparr>"
proof -
  let ?c = "db_cat db"
  have co: "cat_ok (db_heap db) ?c" using inv by (simp add: dbInv_def)
  have ids: "cat_byID (withoutTable (db_heap db) name ?c) =
      map (\<lambda>x. Option.bind x (\<lambda>r. if rt_name (db_heap db ! r) = name then None else Some r)) (cat_byID ?c)" (is "?l = ?r")
  proof (rule nth_equalityI)
    show "length ?l = length ?r" by (simp add: withoutTable_def split: option.split)
    fix j assume "j < length ?l"
    then have j: "j < length (cat_byID ?c)" by (simp add: withoutTable_def split: option.splits if_splits)
    show "?l ! j = ?r ! j"
    proof (cases "cat_byName ?c name")
      case None
      have "rt_name (db_heap db ! r) \<noteq> name" if "cat_byID ?c ! j = Some r" for r using co j that None by (auto simp: cat_ok_def)
      then show ?thesis using j None by (cases "cat_byID ?c ! j") (auto simp: withoutTable_def)
    next
      case (Some old)
      then have o: "rt_name (db_heap db ! old) = name" "unat (rt_tableID (db_heap db ! old)) < length (cat_byID ?c)"
          "cat_byID ?c ! unat (rt_tableID (db_heap db ! old)) = Some old" using co by (auto simp: cat_ok_def)
      have "rt_name (db_heap db ! r) = name \<longleftrightarrow> j = unat (rt_tableID (db_heap db ! old))" if "cat_byID ?c ! j = Some r" for r
        using co j that Some o by (auto simp: cat_ok_def)
      then show ?thesis using j Some o by (cases "cat_byID ?c ! j") (auto simp: withoutTable_def nth_list_update)
    qed
  qed
  have names: "cat_byName (withoutTable (db_heap db) name ?c) = (cat_byName ?c)(name := None)" by (simp add: withoutTable_def)
  have "cat_ok (db_heap db) (withoutTable (db_heap db) name ?c)"
    using co unfolding cat_ok_def ids names by (auto split: bind_splits if_splits)
  then show "dbInv seed limit db'" using inv unfolding dbInv_def db'_def
    by (auto simp: ids split: bind_splits if_splits)
  show "dbAbs db' = (dbAbs db)\<lparr>ad_tables := map (\<lambda>t. Option.bind t (\<lambda>x. if tblName x = name then None else Some x)) (ad_tables (dbAbs db))\<rparr>"
    by (auto simp: dbAbs_def db'_def ids tblName_def rt_name_def split: bind_split)
qed

section \<open>Records\<close>

text \<open>What the code's record of a log entry does is what the entry says.\<close>

lemma rec_types: "recMutation \<noteq> recCreateTable" "recMutation \<noteq> recDropTable" "recMutation \<noteq> recCheckpoint" "recTxn \<noteq> recMutation"
    "recTxn \<noteq> recCreateTable" "recTxn \<noteq> recDropTable" "recTxn \<noteq> recCheckpoint" "recDropTable \<noteq> recCreateTable"
  by (simp_all add: recMutation_def recCreateTable_def recDropTable_def recCheckpoint_def recTxn_def)

lemma resolved_def: "resolveSchema [td] = Inr resolved \<Longrightarrow> rt_def (the (resolved (tName td))) = td"
  using resolveSchema_ok [of "[td]" resolved] by auto

lemma entry_replay:
  assumes inv: "dbInv seed limit db" and step: "entry_step limit en (dbAbs db) = Some A"
  shows "\<exists>db'. applyReplayRecord seed (fst (entryRec en)) (snd (entryRec en)) (Some db) = Inr (Some db') \<and>
    dbInv seed limit db' \<and> dbAbs db' = A \<and> sameEnv db db'"
proof (cases en)
  case (LCreate i td)
  from step LCreate obtain resolved where r: "resolveSchema [td] = Inr resolved" and i: "i = length (ad_tables (dbAbs db))" "i < 65536"
      and ok: "def_ok td" and good: "def_good (the (resolved (tName td)))"
      and new: "tName td \<notin> tblName ` {x. Some x \<in> set (ad_tables (dbAbs db))}"
      and A: "A = (dbAbs db)\<lparr>ad_tables := ad_tables (dbAbs db) @ [Some (the (resolved (tName td)), Map.empty)]\<rparr>"
    by (auto simp: Let_def split: sum.splits if_splits)
  have len: "i = length (cat_byID (db_cat db))" using i(1) by (simp add: dbAbs_def)
  define rt where "rt = \<lparr>rt_table = newTable (db_cpus db) (the (resolved (tName td))) (db_sizeHint db), rt_tableID = word_of_nat (length (cat_byID (db_cat db)))\<rparr>"
  have fresh: "cat_byName (db_cat db) (tName (rt_def (the (resolved (tName td))))) = None"
    using new byName_iff [of db "tName td"] inv by (simp add: resolved_def [OF r] dbInv_def)
  have small: "length (cat_byID (db_cat db)) < 65536" using i(2) len by simp
  note add = addTable_ok [OF inv rt_def good fresh small]
  have "replayCreate (snd (entryRec en)) db = Some (Inr (db\<lparr>db_heap := db_heap db @ [rt], db_cat := withTable (length (db_heap db)) rt (db_cat db)\<rparr>))"
    using decodeCreateTable_encode [OF ok] r by (simp add: replayCreate_def LCreate Let_def rt_def len)
  with add show ?thesis by (simp add: applyReplayRecord_def LCreate lifted_def A sameEnv_def)
next
  case (LDrop name)
  then have "name_ok name" and A: "A = (dbAbs db)\<lparr>ad_tables := map (\<lambda>t. Option.bind t (\<lambda>x. if tblName x = name then None else Some x)) (ad_tables (dbAbs db))\<rparr>"
    using step by (auto split: if_splits)
  then have "replayDrop (snd (entryRec en)) db = Some (Inr (db\<lparr>db_cat := withoutTable (db_heap db) name (db_cat db)\<rparr>))"
    by (simp add: replayDrop_def LDrop decodeDropTable_encode)
  with dropTable_ok [OF inv, of name] show ?thesis
    by (simp add: applyReplayRecord_def LDrop lifted_def A sameEnv_def rec_types)
next
  case (LMut i mu)
  then have "mut_step limit i mu (dbAbs db) = Some A" using step by simp
  from applyMutationRecord_ok [OF inv this] obtain db' where
    "applyMutationRecord seed (mutBytes i mu) db = Some (Inr db')" "dbInv seed limit db'" "dbAbs db' = A" "sameEnv db db'" by blast
  then show ?thesis by (simp add: applyReplayRecord_def LMut lifted_def rec_types)
next
  case (LTxn i mus)
  then have len: "length mus < 65536" "\<forall>mu \<in> set mus. length (mutBytes i mu) < 2 ^ 32" and "muts_step limit i mus (dbAbs db) = Some A"
    using step by (auto split: if_splits)
  from muts_replay [OF inv this(3)] obtain db' where
    r: "for_each (lifted (applyMutationRecord seed)) (map (mutBytes i) mus) (Some db) = Inr (Some db')" "dbInv seed limit db'" "dbAbs db' = A" "sameEnv db db'"
    by blast
  have "forEachTxnMutation (encodeTxn [] (map (mutBytes i) mus)) (lifted (applyMutationRecord seed)) (Some db) = Inr (Some db')"
    using len r(1) by (subst forEachTxn_encode) auto
  with r show ?thesis by (simp add: applyReplayRecord_def LTxn rec_types)
qed

lemma entries_replay:
  assumes "dbInv seed limit db" and "entries_step limit ens (dbAbs db) = Some A"
  shows "\<exists>db'. feed (applyReplayRecord seed) (map entryRec ens) (Some db) = (None, Some db') \<and>
    dbInv seed limit db' \<and> dbAbs db' = A \<and> sameEnv db db'"
  using assms
proof (induction ens arbitrary: db)
  case Nil
  then show ?case by (simp add: sameEnv_def)
next
  case (Cons en ens)
  then obtain A1 where A1: "entry_step limit en (dbAbs db) = Some A1" "entries_step limit ens A1 = Some A" by (auto split: bind_splits)
  obtain db1 where db1: "applyReplayRecord seed (fst (entryRec en)) (snd (entryRec en)) (Some db) = Inr (Some db1)" "dbInv seed limit db1"
      "dbAbs db1 = A1" "sameEnv db db1"
    using entry_replay [OF Cons.prems(1) A1(1)] by blast
  from Cons.IH [OF db1(2)] A1(2) db1(3) obtain db' where
    "feed (applyReplayRecord seed) (map entryRec ens) (Some db1) = (None, Some db')" "dbInv seed limit db'" "dbAbs db' = A" "sameEnv db1 db'"
    by blast
  then show ?case using db1(1,4) by (auto simp: sameEnv_def)
qed

end
