(* ===== verification/Txns.thy ===== *)
theory Txns
  imports ReplaySpec
begin

text \<open>
  \<open>txn.go\<close>: the commit of staged mutations.  The statements are walked in order against an overlay on
  the live table, the whole group is journaled as one record, and only then applied.  A staged UPDATE
  carries its SET list as ordinals and the function that computes their values from a row (\<open>computeSets\<close>
  on its plan and arguments).  \<open>None\<close> is a run that does not return.
\<close>

section \<open>Staged mutations and their effects\<close>

datatype stagedMut =
    StInsert UUID Row
  | StUpdate UUID "nat list" "Row \<Rightarrow> Value list res"
  | StDelete UUID

record txAct =
  act_kind :: byte
  act_pk :: UUID
  act_row :: Row
  act_ords :: "nat list"
  act_cost :: int

definition maxTxnMutations :: nat where "maxTxnMutations = 1000"

text \<open>An overlay entry is the row a key has inside the transaction, \<open>None\<close> when it was deleted.\<close>

type_synonym overlay = "UUID \<Rightarrow> Row option option"

definition txGetLocked :: "uint64 \<Rightarrow> table \<Rightarrow> UUID \<Rightarrow> Row option option" where
  "txGetLocked seed t pk = (case t_pkDir t of
       Some dir \<Rightarrow> (case dir pk of
           None \<Rightarrow> Some None
         | Some loc \<Rightarrow>
             if loc_shard loc \<ge> length (t_shards t) then None
             else let s = t_shards t ! loc_shard loc in
               if loc_rowID loc \<ge> length (sh_rows s) then Some None
               else (case sh_rows s ! loc_rowID loc of
                   None \<Rightarrow> Some None
                 | Some r \<Rightarrow> if pkOf t r \<noteq> pk then Some None else Some (Some r)))
     | None \<Rightarrow> do {
         found \<leftarrow> rowAt seed t pk;
         Some (case found of None \<Rightarrow> None | Some (rowID, x) \<Rightarrow> x)
       })"

text \<open>\<open>ov = None\<close> is the nil overlay of \<open>skipDup\<close>.\<close>

definition present :: "uint64 \<Rightarrow> table \<Rightarrow> overlay option \<Rightarrow> UUID \<Rightarrow> Row option option" where
  "present seed t ov pk = (case ov of
       None \<Rightarrow> txGetLocked seed t pk
     | Some m \<Rightarrow> (case m pk of Some x \<Rightarrow> Some x | None \<Rightarrow> txGetLocked seed t pk))"

definition stageAct :: "uint64 \<Rightarrow> table \<Rightarrow> stagedMut \<Rightarrow> overlay option \<times> txAct list \<times> int \<Rightarrow>
    (overlay option \<times> txAct list \<times> int) res option" where
  "stageAct seed t m = (\<lambda>(ov, acts, delta). (case m of
       StInsert pk row \<Rightarrow>
         let cost = rowCost row (nIdx t);
             act = \<lparr>act_kind = opInsert, act_pk = pk, act_row = row, act_ords = [], act_cost = cost\<rparr>
         in (case ov of
           None \<Rightarrow> Some (Inr (None, acts @ [act], delta + cost))
         | Some o' \<Rightarrow> do {
             found \<leftarrow> present seed t ov pk;
             Some (if found \<noteq> None then Inl ErrDuplicatePK
               else Inr (Some (o'(pk \<mapsto> Some row)), acts @ [act], delta + cost))
           })
     | StUpdate pk ords compute \<Rightarrow> do {
         found \<leftarrow> present seed t ov pk;
         (case found of
            None \<Rightarrow> Some (Inr (ov, acts, delta))
          | Some cur \<Rightarrow> (case compute (Row_Clone cur) of
              Inl e \<Rightarrow> Some (Inl e)
            | Inr vals \<Rightarrow> do {
                nr \<leftarrow> setCells (Row_Clone cur) ords vals;
                o' \<leftarrow> ov;
                let cost = rowCost nr (nIdx t) - rowCost cur (nIdx t);
                Some (Inr (Some (o'(pk \<mapsto> Some nr)),
                  acts @ [\<lparr>act_kind = opUpdate, act_pk = pk, act_row = nr, act_ords = ords, act_cost = cost\<rparr>], delta + cost))
              }))
       }
     | StDelete pk \<Rightarrow> do {
         found \<leftarrow> present seed t ov pk;
         (case found of
            None \<Rightarrow> Some (Inr (ov, acts, delta))
          | Some cur \<Rightarrow> do {
              o' \<leftarrow> ov;
              let cost = - rowCost cur (nIdx t);
              Some (Inr (Some (o'(pk \<mapsto> None)),
                acts @ [\<lparr>act_kind = opDelete, act_pk = pk, act_row = [], act_ords = [], act_cost = cost\<rparr>], delta + cost))
            })
       }))"

fun stageActs :: "uint64 \<Rightarrow> table \<Rightarrow> stagedMut list \<Rightarrow> overlay option \<times> txAct list \<times> int \<Rightarrow>
    (overlay option \<times> txAct list \<times> int) res option" where
  "stageActs seed t [] s = Some (Inr s)"
| "stageActs seed t (m # ms) s = do {
     x \<leftarrow> stageAct seed t m s;
     (case x of Inl e \<Rightarrow> Some (Inl e) | Inr s \<Rightarrow> stageActs seed t ms s)
   }"

section \<open>The record\<close>

text \<open>
  The envelope is built in one buffer: a placeholder for the length, the body, then the length
  written over the placeholder.
\<close>

definition encodeAct :: "uint16 \<Rightarrow> nat \<Rightarrow> bytes \<Rightarrow> txAct \<Rightarrow> bytes" where
  "encodeAct tableID pkO buf a =
     (let lenAt = length buf;
          buf = appendU32LE buf 0;
          buf = (if act_kind a = opInsert then encodeInsertMutation buf tableID (act_row a)
            else if act_kind a = opUpdate then encodeUpdateMutation buf tableID (act_row a ! pkO) (act_ords a) (act_row a)
            else if act_kind a = opDelete then encodeDeleteMutation buf tableID (UUIDVal (act_pk a))
            else buf)
      in take lenAt buf @ le_put 4 (word_of_nat (length buf - lenAt - 4) :: uint32) @ drop (lenAt + 4) buf)"

definition encodeActs :: "uint16 \<Rightarrow> nat \<Rightarrow> txAct list \<Rightarrow> bytes" where
  "encodeActs tableID pkO acts = foldl (encodeAct tableID pkO) (appendU16LE [] (word_of_nat (length acts))) acts"

section \<open>Applying\<close>

definition txInsertLocked :: "uint64 \<Rightarrow> Row \<Rightarrow> int \<Rightarrow> table \<Rightarrow> table option" where
  "txInsertLocked seed row cost t = (case t_pkDir t of
       Some dir \<Rightarrow>
         let pk = pkOf t row; part = partOf t row; idx = shardIdxOf t part; s = t_shards t ! idx in
         if idx \<ge> length (t_shards t) then None
         else let (rowID, s) = addRow row cost s;
                  s = s\<lparr>sh_tails := (sh_tails s)(part \<mapsto> (case sh_tails s part of None \<Rightarrow> [] | Some ids \<Rightarrow> ids) @ [rowID])\<rparr>
           in Some ((setShard idx s t)\<lparr>t_pkDir := Some (dir(pk \<mapsto> \<lparr>loc_shard = idx, loc_rowID = rowID\<rparr>))\<rparr>)
     | None \<Rightarrow>
         let pk = pkOf t row; i = shardIdxOf t pk; s = t_shards t ! i in
         if i \<ge> length (t_shards t) then None
         else do {
           let (rowID, s) = addRow row cost s;
           m \<leftarrow> pk_put seed (sh_pk s) pk rowID;
           Some (markDirty i pk (setShard i (s\<lparr>sh_pk := m\<rparr>) t))
         })"

text \<open>The zero location of an absent directory entry is shard 0, row 0.\<close>

definition txReplaceLocked :: "uint64 \<Rightarrow> UUID \<Rightarrow> Row \<Rightarrow> int \<Rightarrow> bool \<Rightarrow> table \<Rightarrow> table option" where
  "txReplaceLocked seed pk nr cost touch t = (case t_pkDir t of
       Some dir \<Rightarrow>
         let loc = (case dir pk of None \<Rightarrow> \<lparr>loc_shard = 0, loc_rowID = 0\<rparr> | Some loc \<Rightarrow> loc); s = t_shards t ! loc_shard loc in
         if loc_shard loc \<ge> length (t_shards t) \<or> loc_rowID loc \<ge> length (sh_rows s) then None
         else Some (setShard (loc_shard loc)
           (s\<lparr>sh_rows := (sh_rows s)[loc_rowID loc := Some nr], sh_bytes := sh_bytes s + cost\<rparr>) t)
     | None \<Rightarrow>
         let i = shardIdxOf t pk; s = t_shards t ! i in
         if i \<ge> length (t_shards t) then None
         else do {
           found \<leftarrow> pk_get seed (sh_pk s) pk;
           let rowID = (case found of None \<Rightarrow> 0 | Some k \<Rightarrow> k);
           if rowID \<ge> length (sh_rows s) then None
           else let t = setShard i (s\<lparr>sh_rows := (sh_rows s)[rowID := Some nr], sh_bytes := sh_bytes s + cost\<rparr>) t
             in Some (if touch then markDirty i pk t else t)
         })"

definition txDeleteLocked :: "uint64 \<Rightarrow> UUID \<Rightarrow> int \<Rightarrow> table \<Rightarrow> table option" where
  "txDeleteLocked seed pk cost t = (case t_pkDir t of
       Some dir \<Rightarrow>
         let loc = (case dir pk of None \<Rightarrow> \<lparr>loc_shard = 0, loc_rowID = 0\<rparr> | Some loc \<Rightarrow> loc); s = t_shards t ! loc_shard loc in
         if loc_shard loc \<ge> length (t_shards t) \<or> loc_rowID loc \<ge> length (sh_rows s) then None
         else (case sh_rows s ! loc_rowID loc of None \<Rightarrow> None | Some r \<Rightarrow>
           let s = tailsTombstone (partOf t r)
                 (s\<lparr>sh_rows := (sh_rows s)[loc_rowID loc := None], sh_live := sh_live s - 1, sh_bytes := sh_bytes s + cost\<rparr>)
           in Some ((setShard (loc_shard loc) s t)\<lparr>t_pkDir := Some (dir(pk := None))\<rparr>))
     | None \<Rightarrow>
         let i = shardIdxOf t pk; s = t_shards t ! i in
         if i \<ge> length (t_shards t) then None
         else do {
           (found, m) \<leftarrow> pk_del seed (sh_pk s) pk;
           let rowID = (case found of None \<Rightarrow> 0 | Some k \<Rightarrow> k);
           if rowID \<ge> length (sh_rows s) then None
           else Some (markDelDirty i pk (setShard i
             (s\<lparr>sh_pk := m, sh_rows := (sh_rows s)[rowID := None], sh_live := sh_live s - 1, sh_bytes := sh_bytes s + cost\<rparr>) t))
         })"

definition applyAct :: "uint64 \<Rightarrow> txAct \<Rightarrow> table \<Rightarrow> table option" where
  "applyAct seed a t =
     (if act_kind a = opInsert then txInsertLocked seed (act_row a) (act_cost a) t
      else if act_kind a = opUpdate then txReplaceLocked seed (act_pk a) (act_row a) (act_cost a) (updateTouchesIndex t (act_ords a)) t
      else if act_kind a = opDelete then txDeleteLocked seed (act_pk a) (act_cost a) t
      else Some t)"

fun applyActs :: "uint64 \<Rightarrow> txAct list \<Rightarrow> table \<Rightarrow> table option" where
  "applyActs seed [] t = Some t"
| "applyActs seed (a # acts) t = Option.bind (applyAct seed a t) (applyActs seed acts)"

section \<open>Commit\<close>

text \<open>What runs under the table's locks.\<close>

definition commitLocked :: "uint64 \<Rightarrow> uint16 \<Rightarrow> bool \<Rightarrow> stagedMut list \<Rightarrow> wal option store \<Rightarrow> (err option \<times> wal option store) option" where
  "commitLocked seed tableID skipDup staged st = do {
     x \<leftarrow> stageActs seed (st_table st) staged (if skipDup then None else Some Map.empty, [], 0);
     (case x of
        Inl e \<Rightarrow> Some (Some e, st)
      | Inr (ov, acts, byteDelta) \<Rightarrow>
          if length acts = 0 then Some (None, st)
          else let (ok, b) = (if byteDelta > 0 then reserve (st_budget st) byteDelta else (True, st_budget st));
                   st = st\<lparr>st_budget := b\<rparr> in
            if \<not> ok then Some (Some ErrCapacity, st)
            else let (werr, w) = logRecord recTxn (encodeActs tableID (pkOrd (st_table st)) acts) (st_wal st);
                     st = st\<lparr>st_wal := w\<rparr> in
              (case werr of
                 Some e \<Rightarrow> Some (Some e, if byteDelta > 0 then st\<lparr>st_budget := release (st_budget st) byteDelta\<rparr> else st)
               | None \<Rightarrow> do {
                   let st = (if byteDelta < 0 then st\<lparr>st_budget := release (st_budget st) (- byteDelta)\<rparr> else st);
                   t \<leftarrow> applyActs seed acts (st_table st);
                   Some (None, st\<lparr>st_table := t\<rparr>)
                 }))
   }"

text \<open>
  \<open>commit\<close>: \<open>r\<close> is the table the transaction bound at its start; it must still be the table at its
  number in the current catalog.  \<open>closed\<close> is the flag of \<open>Close\<close>.
\<close>

definition txCommit :: "uint64 \<Rightarrow> bool \<Rightarrow> tblRef \<Rightarrow> bool \<Rightarrow> stagedMut list \<Rightarrow> DB \<Rightarrow> (err option \<times> DB) option" where
  "txCommit seed closed r skipDup staged db =
     (if length staged = 0 then Some (None, db)
      else if length staged > maxTxnMutations then Some (Some ErrBatchTooLarge, db)
      else if closed then Some (Some ErrClosed, db)
      else let tableID = rt_tableID (db_heap db ! r); ids = cat_byID (db_cat db) in
        if unat tableID \<ge> length ids \<or> ids ! unat tableID \<noteq> Some r then Some (Some ErrTxConflict, db)
        else do {
          (e, st) \<leftarrow> commitLocked seed tableID skipDup staged (storeOf r db);
          Some (e, putStore r st db)
        })"

section \<open>Lock order\<close>

text \<open>
  The shards a commit locks: one for each staged mutation that has a place, each once, sorted
  by insertion.
\<close>

definition stagedShard :: "table \<Rightarrow> stagedMut \<Rightarrow> nat option" where
  "stagedShard t m = (case t_pkDir t of
       None \<Rightarrow> Some (shardIdxOf t (case m of StInsert pk _ \<Rightarrow> pk | StUpdate pk _ _ \<Rightarrow> pk | StDelete pk \<Rightarrow> pk))
     | Some dir \<Rightarrow> (case m of
         StInsert _ row \<Rightarrow> Some (shardIdxOf t (partOf t row))
       | StUpdate pk _ _ \<Rightarrow> map_option loc_shard (dir pk)
       | StDelete pk \<Rightarrow> map_option loc_shard (dir pk)))"

definition addShard :: "nat option \<Rightarrow> nat list \<Rightarrow> nat list" where
  "addShard x out = (case x of None \<Rightarrow> out | Some idx \<Rightarrow> if idx \<in> set out then out else out @ [idx])"

text \<open>Insertion from the right: the larger elements move up by one.\<close>

definition shiftInsert :: "nat \<Rightarrow> nat list \<Rightarrow> nat list" where
  "shiftInsert v out = rev (dropWhile (\<lambda>x. x > v) (rev out)) @ v # rev (takeWhile (\<lambda>x. x > v) (rev out))"

definition collectShards :: "table \<Rightarrow> stagedMut list \<Rightarrow> nat list" where
  "collectShards t staged = foldl (\<lambda>out v. shiftInsert v out) [] (foldl (\<lambda>out m. addShard (stagedShard t m) out) [] staged)"

end
