(* ===== verification/TxnSpec.thy ===== *)
theory TxnSpec
  imports Txns
begin

text \<open>
  What a commit promises: the staged statements take effect in order as one unit, on the rows, in the
  byte accounting and in the log, or nothing does.
\<close>

section \<open>The specification\<close>

text \<open>The statements on a map of rows: the final map and the mutations that had an effect.\<close>

fun spec_stage :: "bool \<Rightarrow> stagedMut list \<Rightarrow> (UUID \<Rightarrow> Row option) \<Rightarrow> ((UUID \<Rightarrow> Row option) \<times> mutation list) res" where
  "spec_stage skipDup [] m = Inr (m, [])"
| "spec_stage skipDup (StInsert pk row # ms) m =
     (if \<not> skipDup \<and> m pk \<noteq> None then Inl ErrDuplicatePK
      else andThen (spec_stage skipDup ms (m(pk \<mapsto> row))) (\<lambda>(m', mus). Inr (m', MInsert row # mus)))"
| "spec_stage skipDup (StUpdate pk ords compute # ms) m =
     (case m pk of
        None \<Rightarrow> spec_stage skipDup ms m
      | Some r \<Rightarrow> andThen (compute r) (\<lambda>vals.
          let nr = the (setCells r ords vals) in
          andThen (spec_stage skipDup ms (m(pk \<mapsto> nr))) (\<lambda>(m', mus). Inr (m', MUpdate pk ords nr # mus))))"
| "spec_stage skipDup (StDelete pk # ms) m =
     (case m pk of
        None \<Rightarrow> spec_stage skipDup ms m
      | Some r \<Rightarrow> andThen (spec_stage skipDup ms (m(pk := None))) (\<lambda>(m', mus). Inr (m', MDelete pk # mus)))"

text \<open>What staging guarantees of its statements, on a table with \<open>n\<close> columns.\<close>

fun staged_ok :: "table \<Rightarrow> nat \<Rightarrow> stagedMut \<Rightarrow> bool" where
  "staged_ok t n (StInsert pk row) \<longleftrightarrow> pk = pkOf t row \<and> row_ok n row"
| "staged_ok t n (StUpdate pk ords compute) \<longleftrightarrow> sets_ok n (pkOrd t) ords compute"
| "staged_ok t n (StDelete pk) \<longleftrightarrow> True"

text \<open>\<open>skipDup\<close> is set only for a batch of inserts whose generated keys are new and differ.\<close>

definition fresh_batch :: "(UUID \<Rightarrow> Row option) \<Rightarrow> stagedMut list \<Rightarrow> bool" where
  "fresh_batch m ms \<longleftrightarrow> (\<exists>rows. ms = map (\<lambda>(pk, row). StInsert pk row) rows \<and> distinct (map fst rows) \<and> (\<forall>pk \<in> set (map fst rows). m pk = None))"

section \<open>Effects on a table\<close>

definition table_frame :: "table \<Rightarrow> table \<Rightarrow> bool" where
  "table_frame t t' \<longleftrightarrow> t_def t' = t_def t \<and> t_indexes t' = t_indexes t \<and> length (t_shards t') = length (t_shards t)"

definition stepped :: "uint64 \<Rightarrow> table \<Rightarrow> table \<Rightarrow> UUID \<Rightarrow> Row option \<Rightarrow> int \<Rightarrow> bool" where
  "stepped seed t t' pk new d \<longleftrightarrow> table_inv seed t' \<and> tbl_abs t' = (tbl_abs t)(pk := new) \<and> tbl_bytes t' = tbl_bytes t + d \<and> table_frame t t'"

lemma table_step:
  assumes inv: "table_inv seed t" and i: "i = shardIdxOf t pk"
    and s': "shard_inv seed t i s'" "shard_abs s' = (shard_abs (t_shards t ! i))(pk := new)"
    and d: "sh_bytes s' = sh_bytes (t_shards t ! i) + d"
  shows "stepped seed t (setShard i s' t) pk new d" "stepped seed t (markDirty i pk (setShard i s' t)) pk new d"
    "stepped seed t (markDelDirty i pk (setShard i s' t)) pk new d"
proof -
  let ?st = "\<lparr>st_table = t, st_budget = \<lparr>total = 0, ceiling = 0\<rparr>, st_wal = ()\<rparr>"
  have st: "store_inv seed 0 ?st" using inv by (simp add: store_inv_def budget_ok_def)
  have len: "i < length (t_shards t)" using store_invD(4) [OF st, of pk] by (simp add: i)
  have "t = st_table ?st" by simp
  note step = store_step [OF st this i s' d]
  have bytes: "tbl_bytes (setShard i s' t) = tbl_bytes t + d" by (simp add: tbl_bytes_setShard [OF len] d)
  have inv': "table_inv seed (setShard i s' t)" using step(1) by (simp add: store_inv_def)
  have len': "i < length (t_shards (setShard i s' t))" using len by simp
  show "stepped seed t (setShard i s' t) pk new d"
    using inv' step(2) bytes by (simp add: stepped_def table_frame_def)
  show "stepped seed t (markDirty i pk (setShard i s' t)) pk new d" "stepped seed t (markDelDirty i pk (setShard i s' t)) pk new d"
    using mark_ok [OF inv' len', of pk] step(2) bytes by (auto simp: stepped_def table_frame_def markDirty_def markDelDirty_def)
qed

lemma table_noDir: "table_inv seed t \<Longrightarrow> t_pkDir t = None"
  by (simp add: table_inv_def)

lemma table_shard:
  assumes "table_inv seed t"
  shows "shardIdxOf t pk < length (t_shards t)"
    "shard_inv seed t (shardIdxOf t pk) (t_shards t ! shardIdxOf t pk)" "pk_inv seed (sh_pk (t_shards t ! shardIdxOf t pk))"
  using assms shardIdxOf_less [of t pk] by (auto simp: table_inv_def shard_inv_def)

lemma shard_of_abs: "shard_abs (t_shards t ! shardIdxOf t pk) pk = tbl_abs t pk"
  by (simp add: tbl_abs_def)

lemma txInsertLocked_ok:
  assumes inv: "table_inv seed t" and new: "tbl_abs t (pkOf t row) = None"
  shows "\<exists>t'. txInsertLocked seed row (rowCost row (nIdx t)) t = Some t' \<and> stepped seed t t' (pkOf t row) (Some row) (rowCost row (nIdx t))"
proof -
  let ?pk = "pkOf t row"
  let ?i = "shardIdxOf t ?pk"
  let ?s = "t_shards t ! ?i"
  note d = table_noDir [OF inv] table_shard [OF inv, of ?pk]
  obtain m where m: "pk_put seed (sh_pk ?s) ?pk (length (sh_rows ?s)) = Some m" "pk_inv seed m"
      "pk_abs m = (pk_abs (sh_pk ?s))(?pk \<mapsto> length (sh_rows ?s))"
    using d(4) by (rule pkm.put_E)
  define s' where "s' = (snd (addRow row (rowCost row (nIdx t)) ?s))\<lparr>sh_pk := m\<rparr>"
  have "shard_abs ?s ?pk = None" using new by (simp add: shard_of_abs)
  note si = shard_insert [OF d(3) this refl m(2,3) s'_def]
  have "sh_pk (snd (addRow row (rowCost row (nIdx t)) ?s)) = sh_pk ?s" "fst (addRow row (rowCost row (nIdx t)) ?s) = length (sh_rows ?s)"
    by (simp_all add: addRow_def)
  then have "txInsertLocked seed row (rowCost row (nIdx t)) t = Some (markDirty ?i ?pk (setShard ?i s' t))"
    using d(1,2) m(1) by (simp add: txInsertLocked_def Let_def s'_def not_le split_beta)
  with table_step(2) [OF inv refl si] show ?thesis by blast
qed

lemma txReplaceLocked_ok:
  assumes inv: "table_inv seed t" and old: "tbl_abs t pk = Some r" and nr: "pkOf t nr = pk"
  shows "\<exists>t'. txReplaceLocked seed pk nr (rowCost nr (nIdx t) - rowCost r (nIdx t)) touch t = Some t' \<and>
    stepped seed t t' pk (Some nr) (rowCost nr (nIdx t) - rowCost r (nIdx t))"
proof -
  let ?i = "shardIdxOf t pk" and ?d = "rowCost nr (nIdx t) - rowCost r (nIdx t)"
  let ?s = "t_shards t ! ?i"
  note d = table_noDir [OF inv] table_shard [OF inv, of pk]
  from inv show ?thesis
  proof (cases rule: rowAt_cases [of seed t pk])
    case (present rid r')
    then have r': "r' = r" using old by simp
    define s' where "s' = ?s\<lparr>sh_rows := (sh_rows ?s)[rid := Some nr], sh_bytes := sh_bytes ?s + ?d\<rparr>"
    note rep = shard_replace [OF d(3) present(3) present(5) [unfolded r'] nr s'_def]
    have "txReplaceLocked seed pk nr ?d touch t = Some (if touch then markDirty ?i pk (setShard ?i s' t) else setShard ?i s' t)"
      using d(1,2) present(3,4) pkm.get_abs [OF d(4), of pk] by (simp add: txReplaceLocked_def Let_def s'_def not_le)
    then show ?thesis using table_step(1,2) [OF inv refl rep] by (cases touch) auto
  qed (use old in simp)
qed

lemma txDeleteLocked_ok:
  assumes inv: "table_inv seed t" and old: "tbl_abs t pk = Some r"
  shows "\<exists>t'. txDeleteLocked seed pk (- rowCost r (nIdx t)) t = Some t' \<and> stepped seed t t' pk None (- rowCost r (nIdx t))"
proof -
  let ?i = "shardIdxOf t pk"
  let ?s = "t_shards t ! ?i"
  note d = table_noDir [OF inv] table_shard [OF inv, of pk]
  from inv show ?thesis
  proof (cases rule: rowAt_cases [of seed t pk])
    case (present rid r')
    then have r': "r' = r" using old by simp
    obtain m where m: "pk_del seed (sh_pk ?s) pk = Some (pk_abs (sh_pk ?s) pk, m)" "pk_inv seed m" "pk_abs m = (pk_abs (sh_pk ?s))(pk := None)"
      using d(4) by (rule pkm.del_E)
    let ?b = "\<lparr>total = 0, ceiling = 0\<rparr> :: byteBudget"
    obtain s1 where s1: "tombstone rid (nIdx t) ?s ?b = Some (s1, charge ?b (- rowCost r (nIdx t)))"
        "shard_inv seed t ?i (s1\<lparr>sh_pk := m\<rparr>)" "shard_abs (s1\<lparr>sh_pk := m\<rparr>) = (shard_abs ?s)(pk := None)"
        "sh_bytes s1 = sh_bytes ?s - rowCost r (nIdx t)"
      using shard_remove [OF d(3) present(3) present(5) [unfolded r'] m(2,3), of ?b] by metis
    have bytes: "sh_bytes (s1\<lparr>sh_pk := m\<rparr>) = sh_bytes ?s + - rowCost r (nIdx t)" using s1(4) by simp
    have "s1\<lparr>sh_pk := m\<rparr> = ?s\<lparr>sh_pk := m, sh_rows := (sh_rows ?s)[rid := None], sh_live := sh_live ?s - 1, sh_bytes := sh_bytes ?s - rowCost r (nIdx t)\<rparr>"
      using s1(1) present(4,5) r' by (auto simp: tombstone_def Let_def)
    then have "txDeleteLocked seed pk (- rowCost r (nIdx t)) t = Some (markDelDirty ?i pk (setShard ?i (s1\<lparr>sh_pk := m\<rparr>) t))"
      using d(1,2) m(1) present(3,4) by (simp add: txDeleteLocked_def Let_def not_le)
    then show ?thesis using table_step(3) [OF inv refl s1(2,3) bytes] by blast
  qed (use old in simp)
qed

section \<open>Applying the effects\<close>

text \<open>The effects of a list of mutations, with their costs, from the map they start on.\<close>

fun actsOf :: "nat \<Rightarrow> (Row \<Rightarrow> UUID) \<Rightarrow> mutation list \<Rightarrow> (UUID \<Rightarrow> Row option) \<Rightarrow> txAct list" where
  "actsOf n key [] m = []"
| "actsOf n key (MInsert row # mus) m =
     \<lparr>act_kind = opInsert, act_pk = key row, act_row = row, act_ords = [], act_cost = rowCost row n\<rparr>
       # actsOf n key mus (m(key row \<mapsto> row))"
| "actsOf n key (MUpdate pk ords nr # mus) m =
     \<lparr>act_kind = opUpdate, act_pk = pk, act_row = nr, act_ords = ords, act_cost = rowCost nr n - rowCost (the (m pk)) n\<rparr>
       # actsOf n key mus (m(pk \<mapsto> nr))"
| "actsOf n key (MDelete pk # mus) m =
     \<lparr>act_kind = opDelete, act_pk = pk, act_row = [], act_ords = [], act_cost = - rowCost (the (m pk)) n\<rparr>
       # actsOf n key mus (m(pk := None))"

text \<open>An insert finds its key absent, an update and a delete find theirs, and an update keeps the key.\<close>

fun run_muts :: "(Row \<Rightarrow> UUID) \<Rightarrow> mutation list \<Rightarrow> (UUID \<Rightarrow> Row option) \<Rightarrow> (UUID \<Rightarrow> Row option) option" where
  "run_muts key [] m = Some m"
| "run_muts key (MInsert row # mus) m = (if m (key row) = None then run_muts key mus (m(key row \<mapsto> row)) else None)"
| "run_muts key (MUpdate pk ords nr # mus) m = (if m pk \<noteq> None \<and> key nr = pk then run_muts key mus (m(pk \<mapsto> nr)) else None)"
| "run_muts key (MDelete pk # mus) m = (if m pk \<noteq> None then run_muts key mus (m(pk := None)) else None)"

definition actCost :: "txAct list \<Rightarrow> int" where
  "actCost acts = sum_list (map act_cost acts)"

lemma actCost_simps [simp]: "actCost [] = 0" "actCost (a # acts) = act_cost a + actCost acts"
  by (simp_all add: actCost_def)

lemma table_frame_simps:
  assumes "table_frame t t'"
  shows "pkOf t' = pkOf t" "nIdx t' = nIdx t" "pkOrd t' = pkOrd t"
  using assms by (simp_all add: table_frame_def fun_eq_iff pkOf_def pkOrd_def nIdx_def)

lemma table_frame_trans: "table_frame a b \<Longrightarrow> table_frame b c \<Longrightarrow> table_frame a c"
  by (simp add: table_frame_def)

lemma applyActs_ok:
  assumes "table_inv seed t" and "run_muts (pkOf t) mus (tbl_abs t) = Some m'"
  shows "\<exists>t'. applyActs seed (actsOf (nIdx t) (pkOf t) mus (tbl_abs t)) t = Some t' \<and> table_inv seed t' \<and> tbl_abs t' = m' \<and>
    tbl_bytes t' = tbl_bytes t + actCost (actsOf (nIdx t) (pkOf t) mus (tbl_abs t)) \<and> table_frame t t'"
  using assms
proof (induction mus arbitrary: t)
  case Nil
  then show ?case by (simp add: table_frame_def)
next
  case (Cons mu mus)
  have ops: "opInsert \<noteq> opUpdate" "opInsert \<noteq> opDelete" "opUpdate \<noteq> opDelete" by (simp_all add: opInsert_def opUpdate_def opDelete_def)
  have go: ?case if step: "stepped seed t t1 pk new (act_cost a)"
    and run: "run_muts (pkOf t) mus ((tbl_abs t)(pk := new)) = Some m'" and app: "applyAct seed a t = Some t1"
    and acts: "actsOf (nIdx t) (pkOf t) (mu # mus) (tbl_abs t) = a # actsOf (nIdx t) (pkOf t) mus ((tbl_abs t)(pk := new))" for t1 pk new a
  proof -
    have t1: "table_inv seed t1" "tbl_abs t1 = (tbl_abs t)(pk := new)" "tbl_bytes t1 = tbl_bytes t + act_cost a" "table_frame t t1"
      using step by (simp_all add: stepped_def)
    note fr = table_frame_simps [OF t1(4)]
    from Cons.IH [OF t1(1)] run t1(2) fr obtain t' where
      "applyActs seed (actsOf (nIdx t) (pkOf t) mus ((tbl_abs t)(pk := new))) t1 = Some t'" "table_inv seed t'" "tbl_abs t' = m'"
      "tbl_bytes t' = tbl_bytes t1 + actCost (actsOf (nIdx t) (pkOf t) mus ((tbl_abs t)(pk := new)))" "table_frame t1 t'" by (auto simp del: fun_upd_apply)
    then show ?case using app acts t1(3) table_frame_trans [OF t1(4)] by (auto simp del: fun_upd_apply)
  qed
  show ?case
  proof (cases mu)
    case (MInsert row)
    with Cons.prems(2) have "tbl_abs t (pkOf t row) = None" by (auto split: if_splits)
    from txInsertLocked_ok [OF Cons.prems(1) this] obtain t1 where
      "txInsertLocked seed row (rowCost row (nIdx t)) t = Some t1" "stepped seed t t1 (pkOf t row) (Some row) (rowCost row (nIdx t))" by blast
    then show ?thesis using Cons.prems(2) MInsert
      by (intro go [of t1 "pkOf t row" "Some row" "\<lparr>act_kind = opInsert, act_pk = pkOf t row, act_row = row, act_ords = [], act_cost = rowCost row (nIdx t)\<rparr>"])
        (auto simp: applyAct_def split: if_splits)
  next
    case (MUpdate pk ords nr)
    with Cons.prems(2) obtain r where r: "tbl_abs t pk = Some r" "pkOf t nr = pk" by (auto split: if_splits)
    from txReplaceLocked_ok [OF Cons.prems(1) this, of "updateTouchesIndex t ords"] obtain t1 where
      "txReplaceLocked seed pk nr (rowCost nr (nIdx t) - rowCost r (nIdx t)) (updateTouchesIndex t ords) t = Some t1"
      "stepped seed t t1 pk (Some nr) (rowCost nr (nIdx t) - rowCost r (nIdx t))" by blast
    then show ?thesis using Cons.prems(2) MUpdate r ops
      by (intro go [of t1 pk "Some nr" "\<lparr>act_kind = opUpdate, act_pk = pk, act_row = nr, act_ords = ords, act_cost = rowCost nr (nIdx t) - rowCost r (nIdx t)\<rparr>"])
        (auto simp: applyAct_def split: if_splits)
  next
    case (MDelete pk)
    with Cons.prems(2) obtain r where r: "tbl_abs t pk = Some r" by (auto split: if_splits)
    from txDeleteLocked_ok [OF Cons.prems(1) this] obtain t1 where
      "txDeleteLocked seed pk (- rowCost r (nIdx t)) t = Some t1" "stepped seed t t1 pk None (- rowCost r (nIdx t))" by blast
    then show ?thesis using Cons.prems(2) MDelete r ops
      by (intro go [of t1 pk None "\<lparr>act_kind = opDelete, act_pk = pk, act_row = [], act_ords = [], act_cost = - rowCost r (nIdx t)\<rparr>"])
        (auto simp: applyAct_def split: if_splits)
  qed
qed

section \<open>The walk\<close>

definition viewOf :: "table \<Rightarrow> overlay \<Rightarrow> UUID \<Rightarrow> Row option" where
  "viewOf t ov pk = (case ov pk of Some x \<Rightarrow> x | None \<Rightarrow> tbl_abs t pk)"

lemma viewOf_simps [simp]:
  "viewOf t Map.empty = tbl_abs t" "viewOf t (ov(pk \<mapsto> x)) = (viewOf t ov)(pk := x)"
  by (auto simp: viewOf_def fun_eq_iff)

lemma txGetLocked_ok:
  assumes "table_inv seed t"
  shows "txGetLocked seed t pk = Some (tbl_abs t pk)"
  using assms by (cases rule: rowAt_cases [of seed t pk]) (simp_all add: txGetLocked_def table_noDir [OF assms])

lemma present_ok: "table_inv seed t \<Longrightarrow> present seed t (Some ov) pk = Some (viewOf t ov pk)"
  by (auto simp: present_def viewOf_def txGetLocked_ok split: option.split)

lemma sets_ok_update:
  assumes "sets_ok n (pkOrd t) ords compute" and "row_ok n r" and "compute r = Inr vals"
  obtains nr where "setCells r ords vals = Some nr" "row_ok n nr" "pkOf t nr = pkOf t r"
proof -
  have d: "length vals = length ords" "\<forall>v \<in> set vals. wf_Value v" "\<forall>ord \<in> set ords. ord < length r" "pkOrd t \<notin> set ords"
    using assms unfolding sets_ok_def row_ok_def by blast+
  then obtain nr where "setCells r ords vals = Some nr" using setCells_defined by blast
  then show thesis using that setCells_row_ok [of r ords vals nr n] assms(2) d pkOf_setCells by blast
qed

lemma stageActs_ok:
  assumes inv: "table_inv seed t" and "rows_ok n (viewOf t ov)" and "\<forall>pk r. viewOf t ov pk = Some r \<longrightarrow> pkOf t r = pk"
    and "\<forall>m \<in> set ms. staged_ok t n m"
  shows "case spec_stage False ms (viewOf t ov) of
      Inl e \<Rightarrow> stageActs seed t ms (Some ov, acts, delta) = Some (Inl e)
    | Inr (m', mus) \<Rightarrow> \<exists>ov'. stageActs seed t ms (Some ov, acts, delta) =
        Some (Inr (Some ov', acts @ actsOf (nIdx t) (pkOf t) mus (viewOf t ov), delta + actCost (actsOf (nIdx t) (pkOf t) mus (viewOf t ov)))) \<and>
        run_muts (pkOf t) mus (viewOf t ov) = Some m'"
  using assms(2-)
proof (induction ms arbitrary: ov acts delta)
  case Nil
  then show ?case by simp
next
  case (Cons m ms)
  let ?v = "viewOf t ov"
  show ?case
  proof (cases m)
    case (StInsert pk row)
    then have pk: "pk = pkOf t row" "row_ok n row" using Cons.prems(3) by auto
    show ?thesis
    proof (cases "?v pk")
      case None
      have ok: "rows_ok n (viewOf t (ov(pk \<mapsto> Some row)))" "\<forall>k r. viewOf t (ov(pk \<mapsto> Some row)) k = Some r \<longrightarrow> pkOf t r = k"
        using Cons.prems(1,2) pk rows_ok_upd(1) by auto
      have ms: "\<forall>m \<in> set ms. staged_ok t n m" using Cons.prems(3) by simp
      show ?thesis
        using Cons.IH [OF ok ms, of "acts @ [\<lparr>act_kind = opInsert, act_pk = pk, act_row = row, act_ords = [], act_cost = rowCost row (nIdx t)\<rparr>]" "delta + rowCost row (nIdx t)"]
          None pk(1) by (cases "spec_stage False ms ((viewOf t ov)(pk \<mapsto> row))") (auto simp: StInsert stageAct_def present_ok [OF inv] Let_def simp del: fun_upd_apply)
    next
      case (Some r)
      then show ?thesis by (simp add: StInsert stageAct_def present_ok [OF inv] Let_def)
    qed
  next
    case (StUpdate pk ords compute)
    have ms: "\<forall>m \<in> set ms. staged_ok t n m" and so: "sets_ok n (pkOrd t) ords compute" using Cons.prems(3) StUpdate by auto
    show ?thesis
    proof (cases "?v pk")
      case None
      then have skip: "stageActs seed t (m # ms) (Some ov, acts, delta) = stageActs seed t ms (Some ov, acts, delta)"
        "spec_stage False (m # ms) ?v = spec_stage False ms ?v"
        by (simp_all add: StUpdate stageAct_def present_ok [OF inv])
      show ?thesis unfolding skip using Cons.IH [OF Cons.prems(1,2) ms] .
    next
      case (Some r)
      then have r: "row_ok n r" "pkOf t r = pk" using Cons.prems(1,2) by (auto simp: rows_ok_def)
      then have clone: "Row_Clone r = r" by (auto simp: row_ok_def intro: Row_Clone_wf)
      show ?thesis
      proof (cases "compute r")
        case (Inl e)
        then show ?thesis using Some clone by (simp add: StUpdate stageAct_def present_ok [OF inv])
      next
        case (Inr vals)
        obtain nr where nr: "setCells r ords vals = Some nr" "row_ok n nr" "pkOf t nr = pkOf t r" using sets_ok_update [OF so r(1) Inr] .
        have ok: "rows_ok n (viewOf t (ov(pk \<mapsto> Some nr)))" "\<forall>k r. viewOf t (ov(pk \<mapsto> Some nr)) k = Some r \<longrightarrow> pkOf t r = k"
          using Cons.prems(1,2) nr r rows_ok_upd(1) by auto
        show ?thesis
          using Cons.IH [OF ok ms, of "acts @ [\<lparr>act_kind = opUpdate, act_pk = pk, act_row = nr, act_ords = ords, act_cost = rowCost nr (nIdx t) - rowCost r (nIdx t)\<rparr>]"
              "delta + (rowCost nr (nIdx t) - rowCost r (nIdx t))"]
            Some Inr clone nr r(2) by (cases "spec_stage False ms ((viewOf t ov)(pk \<mapsto> nr))") (auto simp: StUpdate stageAct_def present_ok [OF inv] Let_def algebra_simps simp del: fun_upd_apply)
      qed
    qed
  next
    case (StDelete pk)
    have ms: "\<forall>m \<in> set ms. staged_ok t n m" using Cons.prems(3) by simp
    show ?thesis
    proof (cases "?v pk")
      case None
      then have skip: "stageActs seed t (m # ms) (Some ov, acts, delta) = stageActs seed t ms (Some ov, acts, delta)"
        "spec_stage False (m # ms) ?v = spec_stage False ms ?v"
        by (simp_all add: StDelete stageAct_def present_ok [OF inv])
      show ?thesis unfolding skip using Cons.IH [OF Cons.prems(1,2) ms] .
    next
      case (Some r)
      have ok: "rows_ok n (viewOf t (ov(pk \<mapsto> None)))" "\<forall>k r. viewOf t (ov(pk \<mapsto> None)) k = Some r \<longrightarrow> pkOf t r = k"
        using Cons.prems(1,2) rows_ok_upd(2) by auto
      show ?thesis
        using Cons.IH [OF ok ms, of "acts @ [\<lparr>act_kind = opDelete, act_pk = pk, act_row = [], act_ords = [], act_cost = - rowCost r (nIdx t)\<rparr>]" "delta + - rowCost r (nIdx t)"]
          Some by (cases "spec_stage False ms ((viewOf t ov)(pk := None))") (auto simp: StDelete stageAct_def present_ok [OF inv] Let_def algebra_simps simp del: fun_upd_apply)
    qed
  qed
qed

text \<open>Without an overlay only inserts of fresh, distinct keys are staged.\<close>

lemma stageActs_fresh:
  assumes "distinct (map fst rows)" and "\<forall>pk \<in> set (map fst rows). m pk = None" and "\<forall>(pk, row) \<in> set rows. pk = pkOf t row"
  shows "\<exists>m'. spec_stage True (map (\<lambda>(pk, row). StInsert pk row) rows) m = Inr (m', map (MInsert \<circ> snd) rows) \<and>
    stageActs seed t (map (\<lambda>(pk, row). StInsert pk row) rows) (None, acts, delta) =
      Some (Inr (None, acts @ actsOf (nIdx t) (pkOf t) (map (MInsert \<circ> snd) rows) m,
        delta + actCost (actsOf (nIdx t) (pkOf t) (map (MInsert \<circ> snd) rows) m))) \<and>
    run_muts (pkOf t) (map (MInsert \<circ> snd) rows) m = Some m'"
  using assms
proof (induction rows arbitrary: m acts delta)
  case Nil
  then show ?case by simp
next
  case (Cons x rows)
  obtain pk row where x: "x = (pk, row)" by (cases x)
  then have pk: "pk = pkOf t row" "m pk = None" using Cons.prems by auto
  have m: "\<forall>k \<in> set (map fst rows). (m(pk \<mapsto> row)) k = None"
  proof
    fix k assume k: "k \<in> set (map fst rows)"
    then have "k \<noteq> pk" using Cons.prems(1) x by auto
    then show "(m(pk \<mapsto> row)) k = None" using Cons.prems(2) k by auto
  qed
  have "distinct (map fst rows)" "\<forall>(pk, row) \<in> set rows. pk = pkOf t row" using Cons.prems by auto
  from Cons.IH [OF this(1) m this(2), of "acts @ [\<lparr>act_kind = opInsert, act_pk = pk, act_row = row, act_ords = [], act_cost = rowCost row (nIdx t)\<rparr>]"
      "delta + rowCost row (nIdx t)"] pk
  show ?case by (auto simp: x stageAct_def Let_def simp del: fun_upd_apply)
qed

lemma walk_ok:
  assumes inv: "table_inv seed t" and rows: "rows_ok n (tbl_abs t)" and ms: "\<forall>m \<in> set ms. staged_ok t n m"
    and fresh: "skipDup \<longrightarrow> fresh_batch (tbl_abs t) ms"
  shows "case spec_stage skipDup ms (tbl_abs t) of
      Inl e \<Rightarrow> stageActs seed t ms (if skipDup then None else Some Map.empty, [], 0) = Some (Inl e)
    | Inr (m', mus) \<Rightarrow> \<exists>ov. stageActs seed t ms (if skipDup then None else Some Map.empty, [], 0) =
        Some (Inr (ov, actsOf (nIdx t) (pkOf t) mus (tbl_abs t), actCost (actsOf (nIdx t) (pkOf t) mus (tbl_abs t)))) \<and>
        run_muts (pkOf t) mus (tbl_abs t) = Some m'"
proof (cases skipDup)
  case True
  with fresh obtain rws where rws: "ms = map (\<lambda>(pk, row). StInsert pk row) rws" "distinct (map fst rws)"
      "\<forall>pk \<in> set (map fst rws). tbl_abs t pk = None" by (auto simp: fresh_batch_def)
  have "\<forall>(pk, row) \<in> set rws. pk = pkOf t row" using ms by (auto simp: rws(1))
  from stageActs_fresh [OF rws(2,3) this, of seed "[]" 0] True show ?thesis by (auto simp: rws(1))
next
  case False
  have "\<forall>pk r. viewOf t Map.empty pk = Some r \<longrightarrow> pkOf t r = pk" using tbl_abs_key [OF inv] by (simp add: pkOf_rowKey)
  from stageActs_ok [OF inv _ this ms, of "[]" 0] rows False show ?thesis
    by (cases "spec_stage False ms (tbl_abs t)") auto
qed

text \<open>What holds of all rows before and of every staged row holds of all rows and mutations after.\<close>

lemma spec_stage_rows:
  assumes "spec_stage skipDup ms m = Inr (m', mus)" and "\<forall>pk r. m pk = Some r \<longrightarrow> P pk r"
    and "\<forall>pk row. StInsert pk row \<in> set ms \<longrightarrow> P pk row"
    and "\<forall>pk ords compute. StUpdate pk ords compute \<in> set ms \<longrightarrow>
      (\<forall>r vals. P pk r \<longrightarrow> compute r = Inr vals \<longrightarrow> P pk (the (setCells r ords vals)) \<and> Q pk ords (the (setCells r ords vals)))"
  shows "(\<forall>pk r. m' pk = Some r \<longrightarrow> P pk r) \<and> (\<forall>mu \<in> set mus. case mu of
      MInsert row \<Rightarrow> \<exists>pk. P pk row | MUpdate pk ords nr \<Rightarrow> P pk nr \<and> Q pk ords nr | MDelete pk \<Rightarrow> \<exists>r. P pk r)"
  using assms
proof (induction skipDup ms m arbitrary: m' mus rule: spec_stage.induct)
  case (1 skipDup m)
  then show ?case by simp
next
  case (2 skipDup pk row ms m)
  then obtain mus1 where s: "spec_stage skipDup ms (m(pk \<mapsto> row)) = Inr (m', mus1)" "mus = MInsert row # mus1" "\<not> (\<not> skipDup \<and> m pk \<noteq> None)"
    by (auto simp: andThen_eq_Inr split: if_splits)
  have "P pk row" using 2(4) by simp
  with 2(3) have P: "\<forall>k r. (m(pk \<mapsto> row)) k = Some r \<longrightarrow> P k r" by auto
  have "\<forall>pk row. StInsert pk row \<in> set ms \<longrightarrow> P pk row" "\<forall>pk ords compute. StUpdate pk ords compute \<in> set ms \<longrightarrow>
      (\<forall>r vals. P pk r \<longrightarrow> compute r = Inr vals \<longrightarrow> P pk (the (setCells r ords vals)) \<and> Q pk ords (the (setCells r ords vals)))"
    using 2(4,5) by auto
  from 2(1) [OF s(3,1) P this] \<open>P pk row\<close> show ?case by (auto simp: s(2))
next
  case (3 skipDup pk ords compute ms m)
  have ms: "\<forall>pk row. StInsert pk row \<in> set ms \<longrightarrow> P pk row" "\<forall>pk ords compute. StUpdate pk ords compute \<in> set ms \<longrightarrow>
      (\<forall>r vals. P pk r \<longrightarrow> compute r = Inr vals \<longrightarrow> P pk (the (setCells r ords vals)) \<and> Q pk ords (the (setCells r ords vals)))"
    using 3(5,6) by auto
  show ?case
  proof (cases "m pk")
    case None
    then show ?thesis using 3(1) [OF None _ 3(4) ms] 3(3) by simp
  next
    case (Some r)
    then obtain vals mus1 where c: "compute r = Inr vals" and s: "spec_stage skipDup ms (m(pk \<mapsto> the (setCells r ords vals))) = Inr (m', mus1)"
        "mus = MUpdate pk ords (the (setCells r ords vals)) # mus1"
      using 3(3) by (auto simp: andThen_eq_Inr Let_def)
    have new: "P pk (the (setCells r ords vals)) \<and> Q pk ords (the (setCells r ords vals))" using 3(4,6) Some c by simp
    then have P: "\<forall>k x. (m(pk \<mapsto> the (setCells r ords vals))) k = Some x \<longrightarrow> P k x" using 3(4) by auto
    from 3(2) [OF Some c refl s(1) P ms] new show ?thesis by (auto simp: s(2))
  qed
next
  case (4 skipDup pk ms m)
  have ms: "\<forall>pk row. StInsert pk row \<in> set ms \<longrightarrow> P pk row" "\<forall>pk ords compute. StUpdate pk ords compute \<in> set ms \<longrightarrow>
      (\<forall>r vals. P pk r \<longrightarrow> compute r = Inr vals \<longrightarrow> P pk (the (setCells r ords vals)) \<and> Q pk ords (the (setCells r ords vals)))"
    using 4(5,6) by auto
  show ?case
  proof (cases "m pk")
    case None
    then show ?thesis using 4(1) [OF None _ 4(4) ms] 4(3) by simp
  next
    case (Some r)
    then obtain mus1 where s: "spec_stage skipDup ms (m(pk := None)) = Inr (m', mus1)" "mus = MDelete pk # mus1"
      using 4(3) by (auto simp: andThen_eq_Inr)
    have P: "\<forall>k x. (m(pk := None)) k = Some x \<longrightarrow> P k x" using 4(4) by auto
    from 4(2) [OF Some s(1) P ms] 4(4) Some show ?thesis by (auto simp: s(2))
  qed
qed

section \<open>The record\<close>

lemma foldl_append: "(\<And>c x. g (buf @ c) x = buf @ g c x) \<Longrightarrow> foldl g (buf @ c) xs = buf @ foldl g c xs"
  by (induction xs arbitrary: c) simp_all

lemma encode_append:
  "encodeInsertMutation buf tableID row = buf @ encodeInsertMutation [] tableID row"
  "encodeDeleteMutation buf tableID pk = buf @ encodeDeleteMutation [] tableID pk"
  "encodeUpdateMutation buf tableID pk ords row = buf @ encodeUpdateMutation [] tableID pk ords row"
proof -
  show "encodeInsertMutation buf tableID row = buf @ encodeInsertMutation [] tableID row"
    by (simp add: encodeInsertMutation_def encodeRow_eq appendU16LE_def)
  show "encodeDeleteMutation buf tableID pk = buf @ encodeDeleteMutation [] tableID pk"
    by (simp add: encodeDeleteMutation_def appendU16LE_def encodeCell_append [of "_ @ _"] encodeCell_append [of "_ # _"])
  have cell: "encodeCell (buf @ c) v = buf @ encodeCell c v" for c v
    using encodeCell_append [of "buf @ c" v] encodeCell_append [of c v] by simp
  let ?g = "\<lambda>buf ord. encodeCell (appendU16LE buf (word_of_nat ord)) (row ! ord)"
    and ?c = "appendU16LE (encodeCell (appendU16LE [opUpdate] tableID) pk) (word_of_nat (length ords))"
  have "encodeUpdateMutation buf tableID pk ords row = foldl ?g (buf @ ?c) ords"
    using cell [of "opUpdate # le_put 2 tableID" pk] by (simp add: encodeUpdateMutation_def Let_def appendU16LE_def)
  also have "\<dots> = buf @ foldl ?g ?c ords"
    by (rule foldl_append) (simp add: appendU16LE_def cell)
  finally show "encodeUpdateMutation buf tableID pk ords row = buf @ encodeUpdateMutation [] tableID pk ords row"
    by (simp add: encodeUpdateMutation_def Let_def)
qed

lemma patch_length:
  assumes "b = (buf @ le_put 4 (0 :: uint32)) @ body"
  shows "take (length buf) b @ le_put 4 (word_of_nat (length b - length buf - 4) :: uint32) @ drop (length buf + 4) b =
    buf @ le_put 4 (word_of_nat (length body) :: uint32) @ body"
  by (simp add: assms)

lemma length_actsOf [simp]: "length (actsOf n key mus m) = length mus"
  by (induction n key mus m rule: actsOf.induct) (simp_all del: fun_upd_apply)

text \<open>The envelope built in place is the one \<open>encodeTxn\<close> builds from the separate bodies.\<close>

lemma encodeActs_eq:
  assumes "\<forall>mu \<in> set mus. case mu of MUpdate pk ords nr \<Rightarrow> nr ! pkO = UUIDVal pk | _ \<Rightarrow> True"
  shows "encodeActs (word_of_nat i) pkO (actsOf n key mus m) = encodeTxn [] (map (mutBytes i) mus)"
proof -
  have ops: "opInsert \<noteq> opUpdate" "opInsert \<noteq> opDelete" "opUpdate \<noteq> opDelete" by (simp_all add: opInsert_def opUpdate_def opDelete_def)
  have act: "encodeAct (word_of_nat i) pkO buf \<lparr>act_kind = k, act_pk = pk, act_row = row, act_ords = ords, act_cost = c\<rparr> =
      buf @ le_put 4 (word_of_nat (length body) :: uint32) @ body"
    if "body = (if k = opInsert then encodeInsertMutation [] (word_of_nat i) row
        else if k = opUpdate then encodeUpdateMutation [] (word_of_nat i) (row ! pkO) ords row
        else encodeDeleteMutation [] (word_of_nat i) (UUIDVal pk))" "k \<in> {opInsert, opUpdate, opDelete}"
    for buf k pk row ords c body
    unfolding encodeAct_def Let_def
    by (rule patch_length) (use that ops in \<open>auto simp: appendU32LE_def encode_append [of "buf @ _"]\<close>)
  have "foldl (encodeAct (word_of_nat i) pkO) buf (actsOf n key mus m) = buf @ txn_items (map (mutBytes i) mus)" for buf
    using assms
  proof (induction n key mus m arbitrary: buf rule: actsOf.induct)
    case (2 n key row mus m)
    then show ?case using act [OF refl, of opInsert] by (simp del: fun_upd_apply)
  next
    case (3 n key pk ords nr mus m)
    then have "nr ! pkO = UUIDVal pk" by simp
    then show ?case using act [OF refl, of opUpdate] 3 ops by (simp del: fun_upd_apply)
  next
    case (4 n key pk mus m)
    then show ?case using act [OF refl, of opDelete] 4 ops by (simp del: fun_upd_apply)
  qed simp
  then show ?thesis by (simp add: encodeActs_def encodeTxn_eq appendU16LE_def)
qed

section \<open>Commit\<close>

definition pk_cell :: "table \<Rightarrow> Row \<Rightarrow> bool" where
  "pk_cell t r \<longleftrightarrow> r ! pkOrd t = UUIDVal (pkOf t r)"

text \<open>
  The bytes a commit needs: what the rows cost after less what they cost before, admitted as a whole.
\<close>

definition over_cap :: "int \<Rightarrow> byteBudget \<Rightarrow> bool" where
  "over_cap d b \<longleftrightarrow> 0 < d \<and> ceiling b \<noteq> 0 \<and> total b + d > ceiling b"

definition commit_spec :: "nat \<Rightarrow> nat \<Rightarrow> (UUID \<Rightarrow> Row option) \<Rightarrow> byteBudget \<Rightarrow> wal option \<Rightarrow> ((UUID \<Rightarrow> Row option) \<times> mutation list) res \<Rightarrow>
    err option \<times> (UUID \<Rightarrow> Row option) \<times> wal option" where
  "commit_spec i n m b w walked = (case walked of
       Inl e \<Rightarrow> (Some e, m, w)
     | Inr (m', mus) \<Rightarrow>
         if mus = [] then (None, m, w)
         else if over_cap (usage n m' - usage n m) b then (Some ErrCapacity, m, w)
         else (case logRecord recTxn (encodeTxn [] (map (mutBytes i) mus)) w of
           (Some e, w') \<Rightarrow> (Some e, m, w')
         | (None, w') \<Rightarrow> (None, m', w')))"

lemma commitLocked_ok:
  assumes inv: "store_inv seed base st" and t: "t = st_table st" and rows: "rows_ok n (tbl_abs t)" "\<forall>pk r. tbl_abs t pk = Some r \<longrightarrow> pk_cell t r"
    and ms: "\<forall>m \<in> set ms. staged_ok t n m" "\<forall>pk row. StInsert pk row \<in> set ms \<longrightarrow> pk_cell t row"
    and fresh: "skipDup \<longrightarrow> fresh_batch (tbl_abs t) ms"
  shows "\<exists>e st'. commitLocked seed (word_of_nat i) skipDup ms st = Some (e, st') \<and> store_inv seed base st' \<and> frame st st' \<and>
    (e, tbl_abs (st_table st'), st_wal st') = commit_spec i (nIdx t) (tbl_abs t) (st_budget st) (st_wal st) (spec_stage skipDup ms (tbl_abs t)) \<and>
    (e \<noteq> None \<longrightarrow> st_table st' = t \<and> st_budget st' = st_budget st)"
proof -
  note walk = walk_ok [OF store_invD(1) [OF inv, folded t] rows(1) ms(1) fresh]
  show ?thesis
  proof (cases "spec_stage skipDup ms (tbl_abs t)")
    case (Inl e)
    then show ?thesis using walk inv by (simp add: commitLocked_def commit_spec_def t)
  next
    case (Inr x)
    obtain m' mus where x: "x = (m', mus)" by (cases x)
    define acts where "acts = actsOf (nIdx t) (pkOf t) mus (tbl_abs t)"
    from walk Inr x obtain ov where st: "stageActs seed t ms (if skipDup then None else Some Map.empty, [], 0) = Some (Inr (ov, acts, actCost acts))"
        and run: "run_muts (pkOf t) mus (tbl_abs t) = Some m'" by (auto simp: acts_def)
    show ?thesis
    proof (cases "mus = []")
      case True
      then have "acts = []" by (simp add: acts_def)
      then show ?thesis using st inv Inr x True by (simp add: commitLocked_def commit_spec_def t)
    next
      case False
      then have ne: "length acts \<noteq> 0" by (simp add: acts_def)
      have ti: "table_inv seed t" using store_invD(1) [OF inv] by (simp add: t)
      obtain t' where app: "applyActs seed acts t = Some t'" and t': "table_inv seed t'" "tbl_abs t' = m'"
          "tbl_bytes t' = tbl_bytes t + actCost acts" "table_frame t t'"
        using applyActs_ok [OF ti run] by (auto simp: acts_def)
      have cost: "usage (nIdx t) m' - usage (nIdx t) (tbl_abs t) = actCost acts"
        using tallies_exact(1) [OF t'(1)] tallies_exact(1) [OF ti] t' table_frame_simps(2) [OF t'(4)] by simp
      have "\<forall>mu \<in> set mus. case mu of MUpdate pk ords nr \<Rightarrow> nr ! pkOrd t = UUIDVal pk | _ \<Rightarrow> True"
      proof -
        have P: "\<forall>pk r. tbl_abs t pk = Some r \<longrightarrow> row_ok n r \<and> pkOf t r = pk \<and> pk_cell t r"
          using rows tbl_abs_key [OF ti] by (auto simp: rows_ok_def pkOf_rowKey)
        have I: "\<forall>pk row. StInsert pk row \<in> set ms \<longrightarrow> row_ok n row \<and> pkOf t row = pk \<and> pk_cell t row" using ms by fastforce
        have U: "\<forall>pk ords compute. StUpdate pk ords compute \<in> set ms \<longrightarrow> (\<forall>r vals. row_ok n r \<and> pkOf t r = pk \<and> pk_cell t r \<longrightarrow> compute r = Inr vals \<longrightarrow>
            (row_ok n (the (setCells r ords vals)) \<and> pkOf t (the (setCells r ords vals)) = pk \<and> pk_cell t (the (setCells r ords vals))) \<and> True)"
        proof (intro allI impI, elim conjE)
          fix pk ords compute r vals
          assume u: "StUpdate pk ords compute \<in> set ms" and r: "row_ok n r" "pkOf t r = pk" "pk_cell t r" and c: "compute r = Inr vals"
          have so: "sets_ok n (pkOrd t) ords compute" using ms(1) u by fastforce
          obtain nr where nr: "setCells r ords vals = Some nr" "row_ok n nr" "pkOf t nr = pkOf t r" using sets_ok_update [OF so r(1) c] .
          have "pkOrd t \<notin> set ords" using so by (simp add: sets_ok_def)
          then have "nr ! pkOrd t = r ! pkOrd t" using setCells_other [OF nr(1)] by simp
          then show "(row_ok n (the (setCells r ords vals)) \<and> pkOf t (the (setCells r ords vals)) = pk \<and> pk_cell t (the (setCells r ords vals))) \<and> True"
            using nr r by (simp add: pk_cell_def)
        qed
        from spec_stage_rows [where P = "\<lambda>pk r. row_ok n r \<and> pkOf t r = pk \<and> pk_cell t r" and Q = "\<lambda>_ _ _. True", OF _ P I U] Inr x
        show ?thesis by (fastforce simp: pk_cell_def split: mutation.splits)
      qed
      then have rec: "encodeActs (word_of_nat i) (pkOrd t) acts = encodeTxn [] (map (mutBytes i) mus)"
        unfolding acts_def by (rule encodeActs_eq)
      obtain werr w where log: "logRecord recTxn (encodeTxn [] (map (mutBytes i) mus)) (st_wal st) = (werr, w)" by fastforce
      let ?b = "st_budget st" and ?d = "actCost acts"
      have spec: "commit_spec i (nIdx t) (tbl_abs t) ?b (st_wal st) (spec_stage skipDup ms (tbl_abs t)) =
          (if over_cap ?d ?b then (Some ErrCapacity, tbl_abs t, st_wal st)
           else (werr, if werr = None then m' else tbl_abs t, w))"
        using False by (cases werr) (simp_all add: commit_spec_def Inr x cost log)
      show ?thesis
      proof (cases "over_cap ?d ?b")
        case True
        then have "commitLocked seed (word_of_nat i) skipDup ms st = Some (Some ErrCapacity, st)"
          using st ne by (auto simp: commitLocked_def t over_cap_def reserve_cases Let_def)
        then show ?thesis using inv spec True by (simp add: t)
      next
        case fits: False
        have run': "commitLocked seed (word_of_nat i) skipDup ms st = Some (case werr of
            Some e \<Rightarrow> (Some e, st\<lparr>st_wal := w\<rparr>)
          | None \<Rightarrow> (None, st\<lparr>st_table := t', st_budget := charge ?b ?d, st_wal := w\<rparr>))"
          using st ne fits rec log app unfolding commitLocked_def
          by (cases werr) (auto simp: t [symmetric] over_cap_def reserve_cases Let_def release_charge charge_def)
        have inv': "store_inv seed base (st\<lparr>st_table := t', st_budget := charge ?b ?d, st_wal := w\<rparr>)"
          using inv t'(1,3) by (auto simp: store_inv_def budget_ok_def charge_def t)
        have fr: "frame st (st\<lparr>st_table := t', st_budget := charge ?b ?d, st_wal := w\<rparr>)"
          using t'(4) by (simp add: frame_def table_frame_def t)
        show ?thesis using run' spec fits inv inv' fr t'(2) by (cases werr) (simp_all add: t)
      qed
    qed
  qed
qed


definition sampleStaged :: "stagedMut list" where
  "sampleStaged = [StInsert (replicate 16 1) [UUIDVal (replicate 16 1), StrV (str ''x'')],
     StUpdate (replicate 16 1) [1] (\<lambda>r. Inr [StrV (str ''y'')]), StDelete (replicate 16 2)]"


end
