(* ===== verification/TxnLocks.thy ===== *)
theory TxnLocks
  imports TxnSpec "HOL-Library.Multiset"
begin

text \<open>
  The locks of \<open>txn.go\<close>: the shards a commit collects, and commits and statements that take shard locks
  in ascending order while others run.
\<close>

section \<open>The collected shards\<close>

lemma mset_shiftInsert: "mset (shiftInsert v out) = add_mset v (mset out)"
proof -
  have "mset (shiftInsert v out) = mset (v # takeWhile (\<lambda>x. x > v) (rev out) @ dropWhile (\<lambda>x. x > v) (rev out))"
    by (simp add: shiftInsert_def del: takeWhile_dropWhile_id)
  then show ?thesis by simp
qed

lemma sorted_shiftInsert:
  assumes "sorted out"
  shows "sorted (shiftInsert v out)"
proof -
  let ?hi = "takeWhile (\<lambda>x. x > v) (rev out)" and ?lo = "dropWhile (\<lambda>x. x > v) (rev out)"
  have split: "out = rev ?lo @ rev ?hi" using takeWhile_dropWhile_id [of "\<lambda>x. x > v" "rev out"] by (metis rev_append rev_rev_ident)
  have s: "sorted (rev ?lo)" "sorted (rev ?hi)" using assms split by (metis sorted_append)+
  have "x \<le> v" if x: "x \<in> set ?lo" for x
  proof (cases ?lo)
    case (Cons y ys)
    then have "\<not> y > v" using dropWhile_eq_Cons_conv [of "\<lambda>x. x > v" "rev out" y ys] by simp
    moreover have "x \<le> y" using s(1) x Cons by (auto simp: sorted_append)
    ultimately show ?thesis by simp
  next
    case Nil
    with x show ?thesis by (simp only: list.set(1) empty_iff)
  qed
  moreover have "v < x" if "x \<in> set ?hi" for x using that by (auto dest: set_takeWhileD)
  ultimately show ?thesis using s by (force simp: shiftInsert_def sorted_append)
qed

lemma foldl_shiftInsert: "sorted out \<Longrightarrow> sorted (foldl (\<lambda>out v. shiftInsert v out) out xs) \<and> mset (foldl (\<lambda>out v. shiftInsert v out) out xs) = mset out + mset xs"
  by (induction xs arbitrary: out) (simp_all add: sorted_shiftInsert mset_shiftInsert)

lemma foldl_addShard:
  "distinct out \<Longrightarrow> distinct (foldl (\<lambda>out m. addShard (stagedShard t m) out) out ms) \<and>
    set (foldl (\<lambda>out m. addShard (stagedShard t m) out) out ms) = set out \<union> {i. \<exists>m \<in> set ms. stagedShard t m = Some i}"
proof (induction ms arbitrary: out)
  case (Cons m ms)
  have "distinct (addShard (stagedShard t m) out)" "set (addShard (stagedShard t m) out) = set out \<union> {i. stagedShard t m = Some i}"
    using Cons.prems by (auto simp: addShard_def split: option.split)
  then show ?case using Cons.IH [of "addShard (stagedShard t m) out"] by auto
qed simp

lemma collectShards_ok:
  "sorted (collectShards t ms)" "distinct (collectShards t ms)" "set (collectShards t ms) = {i. \<exists>m \<in> set ms. stagedShard t m = Some i}"
proof -
  let ?c = "foldl (\<lambda>out m. addShard (stagedShard t m) out) [] ms"
  have d: "distinct ?c" "set ?c = {i. \<exists>m \<in> set ms. stagedShard t m = Some i}" using foldl_addShard [of "[]" t ms] by auto
  have "sorted (collectShards t ms) \<and> mset (collectShards t ms) = mset ?c"
    unfolding collectShards_def using foldl_shiftInsert [of "[]" ?c] by simp
  then show "sorted (collectShards t ms)" "distinct (collectShards t ms)" "set (collectShards t ms) = {i. \<exists>m \<in> set ms. stagedShard t m = Some i}"
    using d by (auto dest: mset_eq_setD mset_eq_imp_distinct_iff)
qed

section \<open>Holding the locks\<close>

text \<open>
  A caller holds the locks it has taken and waits for the next in its list; it lets go of all once it
  has every one.  A lock is taken only while no other caller holds it.
\<close>

record locker =
  lk_held :: "nat list"
  lk_wait :: "nat list"

inductive lockStep :: "locker list \<Rightarrow> locker list \<Rightarrow> bool" where
  acquire: "p < length ls \<Longrightarrow> lk_wait (ls ! p) = x # xs \<Longrightarrow> (\<forall>q < length ls. q \<noteq> p \<longrightarrow> x \<notin> set (lk_held (ls ! q))) \<Longrightarrow>
    lockStep ls (ls[p := \<lparr>lk_held = lk_held (ls ! p) @ [x], lk_wait = xs\<rparr>])"
| releaseAll: "p < length ls \<Longrightarrow> lk_wait (ls ! p) = [] \<Longrightarrow> lk_held (ls ! p) \<noteq> [] \<Longrightarrow>
    lockStep ls (ls[p := \<lparr>lk_held = [], lk_wait = []\<rparr>])"

inductive_cases lockStepE: "lockStep ls ls'"

text \<open>The lists taken: a commit's shards, every shard in order (a scan statement), or one.\<close>

datatype lockUse = CommitLocks "stagedMut list" | AllLocks | OneLock nat

fun locksOf :: "table \<Rightarrow> lockUse \<Rightarrow> nat list" where
  "locksOf t (CommitLocks ms) = collectShards t ms"
| "locksOf t AllLocks = [0..<length (t_shards t)]"
| "locksOf t (OneLock i) = [i]"

definition lockers :: "table \<Rightarrow> lockUse list \<Rightarrow> locker list" where
  "lockers t us = map (\<lambda>u. \<lparr>lk_held = [], lk_wait = locksOf t u\<rparr>) us"

definition idle :: "locker \<Rightarrow> bool" where
  "idle l \<longleftrightarrow> lk_held l = [] \<and> lk_wait l = []"

definition ascending :: "locker \<Rightarrow> bool" where
  "ascending l \<longleftrightarrow> sorted (lk_held l @ lk_wait l) \<and> distinct (lk_held l @ lk_wait l)"

definition lockWork :: "locker \<Rightarrow> nat" where
  "lockWork l = 2 * length (lk_wait l) + (if lk_held l = [] \<and> lk_wait l = [] then 0 else 1)"

lemma lockers_ascending: "\<forall>l \<in> set (lockers t us). ascending l"
proof -
  have "ascending \<lparr>lk_held = [], lk_wait = locksOf t u\<rparr>" for u
    by (cases u) (simp_all add: ascending_def collectShards_ok)
  then show ?thesis by (auto simp: lockers_def)
qed

lemma ascending_upd: "\<forall>l \<in> set ls. ascending l \<Longrightarrow> ascending l' \<Longrightarrow> \<forall>l \<in> set (ls[p := l']). ascending l"
  using set_update_subset_insert [of ls p l'] by blast

lemma lockStep_ascending:
  assumes "lockStep ls ls'" and "\<forall>l \<in> set ls. ascending l"
  shows "\<forall>l \<in> set ls'. ascending l"
  using assms(1)
proof (cases rule: lockStep.cases)
  case (acquire p x xs)
  have "ascending (ls ! p)" using assms(2) acquire(2) by simp
  then show ?thesis unfolding acquire(1) using assms(2) by (intro ascending_upd) (simp_all add: ascending_def acquire(3))
next
  case (releaseAll p)
  show ?thesis unfolding releaseAll(1) using assms(2) by (intro ascending_upd) (simp_all add: ascending_def)
qed

lemma lockStep_work:
  assumes "lockStep ls ls'"
  shows "sum_list (map lockWork ls') < sum_list (map lockWork ls)"
proof -
  have upd: "sum_list (map lockWork (ls[p := l'])) < sum_list (map lockWork ls)" if "p < length ls" "lockWork l' < lockWork (ls ! p)" for p l'
    using that sum_list_update [of p "map lockWork ls" "lockWork l'"] member_le_sum_list [of "lockWork (ls ! p)" "map lockWork ls"]
    by (simp add: map_update)
  from assms show ?thesis
    by (cases rule: lockStep.cases) (auto intro!: upd simp: lockWork_def)
qed

text \<open>The caller that waits for the largest lock can always go on.\<close>

lemma lock_progress:
  assumes asc: "\<forall>l \<in> set ls. ascending l" and busy: "\<exists>l \<in> set ls. \<not> idle l"
  shows "\<exists>ls'. lockStep ls ls'"
proof (cases "\<exists>p < length ls. lk_wait (ls ! p) = [] \<and> lk_held (ls ! p) \<noteq> []")
  case True
  then show ?thesis using lockStep.releaseAll by blast
next
  case False
  define W where "W = {p. p < length ls \<and> lk_wait (ls ! p) \<noteq> []}"
  obtain i where i: "i < length ls" "\<not> idle (ls ! i)" using busy by (auto simp: in_set_conv_nth)
  then have "lk_wait (ls ! i) \<noteq> []" using False unfolding idle_def by blast
  then have "i \<in> W" using i(1) by (simp add: W_def)
  then have "W \<noteq> {}" by blast
  moreover have fin: "finite W" by (simp add: W_def)
  ultimately have "Max ((\<lambda>p. hd (lk_wait (ls ! p))) ` W) \<in> (\<lambda>p. hd (lk_wait (ls ! p))) ` W" by (intro Max_in) simp_all
  then obtain p where p: "p \<in> W" "Max ((\<lambda>p. hd (lk_wait (ls ! p))) ` W) = hd (lk_wait (ls ! p))" by blast
  have top: "hd (lk_wait (ls ! q)) \<le> hd (lk_wait (ls ! p))" if "q \<in> W" for q
    using that fin unfolding p(2) [symmetric] by (intro Max_ge) simp_all
  have "lk_wait (ls ! p) \<noteq> []" using p(1) by (simp add: W_def)
  then obtain x xs where x: "lk_wait (ls ! p) = x # xs" by (meson neq_Nil_conv)
  have "x \<notin> set (lk_held (ls ! q))" if q: "q < length ls" "q \<noteq> p" for q
  proof
    assume held: "x \<in> set (lk_held (ls ! q))"
    then have "lk_held (ls ! q) \<noteq> []" by auto
    then have "lk_wait (ls ! q) \<noteq> []" using False q(1) by blast
    then obtain y ys where y: "lk_wait (ls ! q) = y # ys" by (auto simp: neq_Nil_conv)
    then have "y \<le> x" using top [of q] q(1) x by (simp add: W_def)
    moreover have "ascending (ls ! q)" using asc q(1) by simp
    then have "x < y" using held y by (force simp: ascending_def sorted_append)
    ultimately show False by simp
  qed
  then show ?thesis using lockStep.acquire [of p ls x xs] p(1) x by (auto simp: W_def)
qed



end
