(* ===== verification/Journals.thy ===== *)
theory Journals
  imports TxnSpec
begin

text \<open>
  Statements on a database by table name, with the journal of \<open>exec_write.go\<close> that encodes every
  mutation and appends it to the log before it is applied, and the operations of the log itself.
\<close>

section \<open>The journal\<close>

text \<open>
  \<open>live\<close> says whether the database has a log.  The ordinals and the key column are those of the UPDATE
  lane, the key cell that of the DELETE lane.
\<close>

definition journalFor :: "bool \<Rightarrow> uint16 \<Rightarrow> nat list \<Rightarrow> nat \<Rightarrow> Value \<Rightarrow> wal option mutJournal" where
  "journalFor live tableID ords pkO pkVal =
     (if \<not> live then noJournal
      else \<lparr>j_live = True,
            j_insert = (\<lambda>row. logRecord recMutation (encodeInsertMutation [] tableID row)),
            j_update = (\<lambda>nr. logRecord recMutation (encodeUpdateMutation [] tableID (nr ! pkO) ords nr)),
            j_delete = logRecord recMutation (encodeDeleteMutation [] tableID pkVal)\<rparr>)"

definition journalTxnBodies :: "bytes list \<Rightarrow> wal option \<Rightarrow> err option \<times> wal option" where
  "journalTxnBodies bodies = logRecord recTxn (encodeTxn [] bodies)"

section \<open>Statements\<close>

text \<open>
  A statement on a table after planning and binding: the row of an INSERT, the key or the candidate
  keys, the predicate of the WHERE, the ordinals and the computation of the SET list.
\<close>

datatype tblOp =
    TGet UUID
  | TInsert Row
  | TUpdate UUID "nat list" "Row \<Rightarrow> Value list res"
  | TDelete UUID
  | TUpdateWhere "UUID list option" "Row \<Rightarrow> bool" "nat list" "Row \<Rightarrow> Value list res"
  | TDeleteWhere "UUID list option" "Row \<Rightarrow> bool"
  | TCompact nat

fun journaledOp :: "bool \<Rightarrow> uint16 \<Rightarrow> nat \<Rightarrow> tblOp \<Rightarrow> wal option storeOp" where
  "journaledOp live tableID pkO (TGet pk) = OpGet pk"
| "journaledOp live tableID pkO (TInsert row) = OpInsert row (journalFor live tableID [] 0 NullV)"
| "journaledOp live tableID pkO (TUpdate pk ords compute) = OpUpdate pk ords compute (journalFor live tableID ords pkO NullV)"
| "journaledOp live tableID pkO (TDelete pk) = OpDelete pk (journalFor live tableID [] 0 (UUIDVal pk))"
| "journaledOp live tableID pkO (TUpdateWhere pks match ords compute) =
     OpUpdateWhere pks match ords compute
       (if live then Some (\<lambda>nr. encodeUpdateMutation [] tableID (nr ! pkO) ords nr) else None) (if live then Some journalTxnBodies else None)"
| "journaledOp live tableID pkO (TDeleteWhere pks match) =
     OpDeleteWhere pks match (if live then Some (encodeDeleteMutation [] tableID) else None) (if live then Some journalTxnBodies else None)"
| "journaledOp live tableID pkO (TCompact i) = OpCompact i"

datatype dbOp = CreateOp TableDef | DropOp bytes | TableOp bytes tblOp | CommitOp bytes bool "stagedMut list"

definition doneOr :: "err option \<Rightarrow> storeAns" where
  "doneOr e = (case e of None \<Rightarrow> Done | Some e \<Rightarrow> Failed e)"

text \<open>The table a name stands for is looked up when the statement runs.\<close>

fun dbStep :: "uint64 \<Rightarrow> dbOp \<Rightarrow> DB \<Rightarrow> (storeAns \<times> DB) option" where
  "dbStep seed (CreateOp td) db = (case createTable td db of (e, db) \<Rightarrow> Some (doneOr e, db))"
| "dbStep seed (DropOp name) db = (case dropTable name db of (e, db) \<Rightarrow> Some (doneOr e, db))"
| "dbStep seed (TableOp name op) db = (case cat_byName (db_cat db) name of
       None \<Rightarrow> Some (Failed ErrUnknownTable, db)
     | Some r \<Rightarrow> do {
         (a, st) \<leftarrow> store_op seed (journaledOp (db_wal db \<noteq> None) (rt_tableID (db_heap db ! r)) (pkOrd (rt_table (db_heap db ! r))) op)
           (storeOf r db);
         Some (a, putStore r st db)
       })"
| "dbStep seed (CommitOp name skipDup ms) db = (case cat_byName (db_cat db) name of
       None \<Rightarrow> Some (Failed ErrUnknownTable, db)
     | Some r \<Rightarrow> do {
         (e, db) \<leftarrow> txCommit seed False r skipDup ms db;
         Some (doneOr e, db)
       })"

text \<open>The in-memory side of \<open>Open\<close>: the bootstrap tables, empty, before any log is replayed.\<close>

definition openDB :: "nat \<Rightarrow> Schema \<Rightarrow> nat \<Rightarrow> int \<Rightarrow> wal option \<Rightarrow> DB res" where
  "openDB cpus tables sizeHint limit w =
     andThen (newCatalog cpus tables sizeHint) (\<lambda>(heap, cat).
       Inr \<lparr>db_heap = heap, db_cat = cat, db_budget = \<lparr>total = 0, ceiling = limit\<rparr>, db_wal = w, db_sizeHint = sizeHint, db_cpus = cpus\<rparr>)"

section \<open>What a statement may log\<close>

definition named :: "adb \<Rightarrow> bytes \<Rightarrow> nat \<Rightarrow> resolvedTable \<Rightarrow> (UUID \<Rightarrow> Row option) \<Rightarrow> bool" where
  "named A name i rt m \<longleftrightarrow> i < length (ad_tables A) \<and> ad_tables A ! i = Some (rt, m) \<and> tName (rt_def rt) = name"

definition lists_rows :: "resolvedTable \<Rightarrow> (UUID \<Rightarrow> Row option) \<Rightarrow> UUID set \<Rightarrow> Row list \<Rightarrow> bool" where
  "lists_rows rt m S rs \<longleftrightarrow> distinct (map (rowKey rt) rs) \<and> set (map (rowKey rt) rs) = S \<and> (\<forall>r \<in> set rs. m (rowKey rt r) = Some r)"

inductive opEntry :: "adb \<Rightarrow> dbOp \<Rightarrow> logEntry \<Rightarrow> bool" where
  create: "opEntry A (CreateOp td) (LCreate (length (ad_tables A)) td)"
| drop: "opEntry A (DropOp name) (LDrop name)"
| insert: "named A name i rt m \<Longrightarrow> opEntry A (TableOp name (TInsert row)) (LMut i (MInsert row))"
| update: "named A name i rt m \<Longrightarrow> m pk = Some r \<Longrightarrow> opEntry A (TableOp name (TUpdate pk ords compute)) (LMut i (MUpdate pk ords (newRow ords compute r)))"
| delete: "named A name i rt m \<Longrightarrow> m pk \<noteq> None \<Longrightarrow> opEntry A (TableOp name (TDelete pk)) (LMut i (MDelete pk))"
| updateWhere: "named A name i rt m \<Longrightarrow> lists_rows rt m (hit m (chosen pks) match) rs \<Longrightarrow>
    opEntry A (TableOp name (TUpdateWhere pks match ords compute)) (LTxn i (map (\<lambda>r. MUpdate (rowKey rt r) ords (newRow ords compute r)) rs))"
| deleteWhere: "named A name i rt m \<Longrightarrow> lists_rows rt m (hit m (chosen pks) match) rs \<Longrightarrow>
    opEntry A (TableOp name (TDeleteWhere pks match)) (LTxn i (map (\<lambda>r. MDelete (rowKey rt r)) rs))"
| commit: "named A name i rt m \<Longrightarrow> spec_stage skipDup ms m = Inr (m', mus) \<Longrightarrow> opEntry A (CommitOp name skipDup ms) (LTxn i mus)"

text \<open>
  The bounds of the record formats: a payload below 4 GiB, at most 65535 mutations in a group.
\<close>

definition entry_small :: "logEntry \<Rightarrow> bool" where
  "entry_small en \<longleftrightarrow> rec_ok (entryRec en) \<and>
     (case en of LTxn i mus \<Rightarrow> length mus < 65536 \<and> (\<forall>mu \<in> set mus. length (mutBytes i mu) < 2 ^ 32) | _ \<Rightarrow> True)"

text \<open>
  What binding guarantees of the rows and SET lists of a statement: every cell was validated against
  its column, and strings are below 4 GiB.
\<close>

definition set_fits :: "resolvedTable \<Rightarrow> nat list \<Rightarrow> (Row \<Rightarrow> Value list res) \<Rightarrow> bool" where
  "set_fits rt ords compute \<longleftrightarrow> distinct ords \<and> keyOrd rt \<notin> set ords \<and> (\<forall>ord \<in> set ords. ord < length (tColumns (rt_def rt))) \<and>
     (\<forall>r vals. row_ok (length (tColumns (rt_def rt))) r \<longrightarrow> compute r = Inr vals \<longrightarrow>
        list_all2 (\<lambda>ord v. admits (tColumns (rt_def rt) ! ord) v \<and> encodable v) ords vals)"

fun tblOp_ok :: "resolvedTable \<Rightarrow> nat \<Rightarrow> tblOp \<Rightarrow> bool" where
  "tblOp_ok rt shards (TGet pk) \<longleftrightarrow> True"
| "tblOp_ok rt shards (TInsert row) \<longleftrightarrow> row_fits rt row"
| "tblOp_ok rt shards (TUpdate pk ords compute) \<longleftrightarrow> set_fits rt ords compute"
| "tblOp_ok rt shards (TDelete pk) \<longleftrightarrow> True"
| "tblOp_ok rt shards (TUpdateWhere pks match ords compute) \<longleftrightarrow> set_fits rt ords compute \<and> (case pks of None \<Rightarrow> True | Some cands \<Rightarrow> distinct cands)"
| "tblOp_ok rt shards (TDeleteWhere pks match) \<longleftrightarrow> (case pks of None \<Rightarrow> True | Some cands \<Rightarrow> distinct cands)"
| "tblOp_ok rt shards (TCompact i) \<longleftrightarrow> i < shards"

fun stmtMut_ok :: "resolvedTable \<Rightarrow> stagedMut \<Rightarrow> bool" where
  "stmtMut_ok rt (StInsert pk row) \<longleftrightarrow> row_fits rt row \<and> pk = rowKey rt row"
| "stmtMut_ok rt (StUpdate pk ords compute) \<longleftrightarrow> set_fits rt ords compute"
| "stmtMut_ok rt (StDelete pk) \<longleftrightarrow> True"

text \<open>
  A group fits under the ceiling if it does so without counting what it frees: replay applies its
  mutations one after the other.
\<close>

definition group_fits :: "int \<Rightarrow> int \<Rightarrow> resolvedTable \<Rightarrow> mutation list \<Rightarrow> (UUID \<Rightarrow> Row option) \<Rightarrow> bool" where
  "group_fits limit tot rt mus m \<longleftrightarrow> limit = 0 \<or>
     tot + sum_list (map (\<lambda>a. max 0 (act_cost a)) (actsOf (length (rt_indexes rt)) (rowKey rt) mus m)) \<le> limit"

fun dbop_ok :: "int \<Rightarrow> dbOp \<Rightarrow> DB \<Rightarrow> bool" where
  "dbop_ok limit (CreateOp td) db \<longleftrightarrow> (\<forall>resolved. resolveSchema [td] = Inr resolved \<longrightarrow> def_good (the (resolved (tName td)))) \<and>
     (\<forall>c \<in> set (tColumns td). ctype_ok (cType c))"
| "dbop_ok limit (DropOp name) db \<longleftrightarrow> True"
| "dbop_ok limit (TableOp name op) db \<longleftrightarrow> (\<forall>r. cat_byName (db_cat db) name = Some r \<longrightarrow>
     tblOp_ok (t_def (rt_table (db_heap db ! r))) (length (t_shards (rt_table (db_heap db ! r)))) op)"
| "dbop_ok limit (CommitOp name skipDup ms) db \<longleftrightarrow> (\<forall>i rt m. named (dbAbs db) name i rt m \<longrightarrow>
     (\<forall>x \<in> set ms. stmtMut_ok rt x) \<and> (skipDup \<longrightarrow> fresh_batch m ms) \<and>
     (\<forall>m' mus. spec_stage skipDup ms m = Inr (m', mus) \<longrightarrow> group_fits limit (ad_total (dbAbs db)) rt mus m))"

definition stmt_ok :: "int \<Rightarrow> dbOp \<Rightarrow> DB \<Rightarrow> bool" where
  "stmt_ok limit op db \<longleftrightarrow> dbop_ok limit op db \<and> (\<forall>en. opEntry (dbAbs db) op en \<longrightarrow> entry_small en)"

section \<open>Groups of mutations\<close>

lemma usage_upd:
  assumes "finite (dom m)"
  shows "usage n (m(k := x)) = usage n m - (case m k of None \<Rightarrow> 0 | Some r \<Rightarrow> rowCost r n) + (case x of None \<Rightarrow> 0 | Some r \<Rightarrow> rowCost r n)"
proof -
  let ?c = "\<lambda>m pk. rowCost (the (m pk)) n"
  have rest: "(\<Sum>pk \<in> dom m - {k}. ?c (m(k := x)) pk) = (\<Sum>pk \<in> dom m - {k}. ?c m pk)" by (intro sum.cong) auto
  have old: "usage n m = (\<Sum>pk \<in> dom m - {k}. ?c m pk) + (case m k of None \<Rightarrow> 0 | Some r \<Rightarrow> rowCost r n)"
  proof (cases "m k")
    case None
    then show ?thesis by (auto simp: usage_def dom_def intro!: sum.cong)
  next
    case (Some r)
    then show ?thesis using assms sum.remove [of "dom m" k "?c m"] by (simp add: usage_def domI)
  qed
  have "usage n (m(k := x)) = (\<Sum>pk \<in> dom m - {k}. ?c (m(k := x)) pk) + (case x of None \<Rightarrow> 0 | Some r \<Rightarrow> rowCost r n)"
  proof (cases x)
    case None
    then show ?thesis by (simp add: usage_def)
  next
    case (Some r)
    then have "usage n (m(k := x)) = (\<Sum>pk \<in> insert k (dom m - {k}). ?c (m(k := x)) pk)"
      unfolding usage_def by (intro sum.cong) auto
    also have "\<dots> = ?c (m(k := x)) k + (\<Sum>pk \<in> dom m - {k}. ?c (m(k := x)) pk)" by (rule sum.insert) (use assms in auto)
    finally show ?thesis using Some by simp
  qed
  with rest old show ?thesis by linarith
qed

text \<open>Each mutation of a group meets the table it was made for.\<close>

fun sound_muts :: "resolvedTable \<Rightarrow> mutation list \<Rightarrow> (UUID \<Rightarrow> Row option) \<Rightarrow> (UUID \<Rightarrow> Row option) option" where
  "sound_muts rt [] m = Some m"
| "sound_muts rt (MInsert row # mus) m =
     (if row_fits rt row \<and> m (rowKey rt row) = None then sound_muts rt mus (m(rowKey rt row \<mapsto> row)) else None)"
| "sound_muts rt (MUpdate pk ords nr # mus) m = (case m pk of None \<Rightarrow> None | Some r \<Rightarrow>
     if mut_ok rt (MUpdate pk ords nr) \<and> overwrite r ords nr = nr then sound_muts rt mus (m(pk \<mapsto> nr)) else None)"
| "sound_muts rt (MDelete pk # mus) m = (if m pk \<noteq> None \<and> uuid_ok pk then sound_muts rt mus (m(pk := None)) else None)"

lemma actsOf_cons:
  "actsOf n key (mu # mus) m = hd (actsOf n key [mu] m) # actsOf n key mus (case mu of MInsert row \<Rightarrow> m(key row \<mapsto> row)
     | MUpdate pk ords nr \<Rightarrow> m(pk \<mapsto> nr) | MDelete pk \<Rightarrow> m(pk := None))"
  by (cases mu) simp_all

lemma sound_muts_step:
  assumes "sound_muts rt mus m = Some m'" and "finite (dom m)" and "i < length (ad_tables A)" and "ad_tables A ! i = Some (rt, m)"
    and "(\<exists>row. MInsert row \<in> set mus) \<longrightarrow> group_fits limit (ad_total A) rt mus m"
  shows "muts_step limit i mus A = Some (A\<lparr>ad_tables := (ad_tables A)[i := Some (rt, m')],
    ad_total := (if mus = [] then ad_total A else if limit = 0 then 0
      else ad_total A + usage (length (rt_indexes rt)) m' - usage (length (rt_indexes rt)) m)\<rparr>)"
  using assms
proof (induction mus arbitrary: m A)
  case Nil
  then have "(ad_tables A)[i := Some (rt, m')] = ad_tables A" by (simp add: list_update_same_conv)
  then show ?case by simp
next
  case (Cons mu mus)
  let ?n = "length (rt_indexes rt)"
  have go: ?case if ok: "mut_ok rt mu" and row: "mut_rows rt limit (ad_total A) mu m = Some m1" and m1: "m1 = m(k := x)"
      and rest: "sound_muts rt mus m1 = Some m'" and acts: "actsOf ?n (rowKey rt) (mu # mus) m = a # actsOf ?n (rowKey rt) mus m1"
      and cost: "act_cost a = (case x of None \<Rightarrow> 0 | Some r \<Rightarrow> rowCost r ?n) - (case m k of None \<Rightarrow> 0 | Some r \<Rightarrow> rowCost r ?n)"
    for m1 k x a
  proof -
    let ?A = "A\<lparr>ad_tables := (ad_tables A)[i := Some (rt, m1)], ad_total := (if limit = 0 then 0 else ad_total A + usage ?n m1 - usage ?n m)\<rparr>"
    have fin: "finite (dom m1)" using finite_subset [of "dom m1" "insert k (dom m)"] Cons.prems(2) by (auto simp: m1)
    have diff: "usage ?n m1 = usage ?n m + act_cost a" using usage_upd [OF Cons.prems(2), of ?n k x] by (simp add: m1 cost)
    have step: "mut_step limit i mu A = Some ?A" using Cons.prems(3,4) ok row by (simp add: mut_step_def)
    have "(\<exists>row. MInsert row \<in> set mus) \<longrightarrow> group_fits limit (ad_total ?A) rt mus m1"
      using Cons.prems(5) diff by (auto simp: group_fits_def acts)
    then have "muts_step limit i mus ?A = Some (?A\<lparr>ad_tables := (ad_tables ?A)[i := Some (rt, m')],
        ad_total := (if mus = [] then ad_total ?A else if limit = 0 then 0 else ad_total ?A + usage ?n m' - usage ?n m1)\<rparr>)"
      using fin Cons.prems(3) by (intro Cons.IH [OF rest]) simp_all
    moreover have "m' = m1" if "mus = []" using rest that by simp
    ultimately show ?thesis using step by simp
  qed
  show ?case
  proof (cases mu)
    case (MInsert row)
    have fit: "row_fits rt row" "m (rowKey rt row) = None" "sound_muts rt mus (m(rowKey rt row \<mapsto> row)) = Some m'"
      using Cons.prems(1) MInsert by (auto split: if_splits)
    have grow: "0 \<le> sum_list (map (\<lambda>a. max 0 (act_cost a)) as)" for as by (induction as) simp_all
    have "limit \<noteq> 0 \<longrightarrow> ad_total A + rowCost row ?n \<le> limit"
    proof
      assume "limit \<noteq> 0"
      then have "ad_total A + max 0 (rowCost row ?n) + sum_list (map (\<lambda>a. max 0 (act_cost a)) (actsOf ?n (rowKey rt) mus (m(rowKey rt row \<mapsto> row)))) \<le> limit"
        using Cons.prems(5) MInsert by (auto simp: group_fits_def add.assoc simp del: fun_upd_apply)
      with grow show "ad_total A + rowCost row ?n \<le> limit" by (smt (verit))
    qed
    then show ?thesis using fit MInsert
      by (intro go [of "m(rowKey rt row \<mapsto> row)" "rowKey rt row" "Some row" "hd (actsOf ?n (rowKey rt) [mu] m)"]) (simp_all del: fun_upd_apply)
  next
    case (MUpdate pk ords nr)
    obtain r where r: "m pk = Some r" "mut_ok rt mu" "overwrite r ords nr = nr" "sound_muts rt mus (m(pk \<mapsto> nr)) = Some m'"
      using Cons.prems(1) MUpdate by (auto split: if_splits option.splits)
    then show ?thesis using MUpdate
      by (intro go [of "m(pk \<mapsto> nr)" pk "Some nr" "hd (actsOf ?n (rowKey rt) [mu] m)"]) (simp_all del: fun_upd_apply)
  next
    case (MDelete pk)
    obtain r where r: "m pk = Some r" "uuid_ok pk" "sound_muts rt mus (m(pk := None)) = Some m'"
      using Cons.prems(1) MDelete by (auto split: if_splits)
    then show ?thesis using MDelete
      by (intro go [of "m(pk := None)" pk None "hd (actsOf ?n (rowKey rt) [mu] m)"]) (simp_all del: fun_upd_apply)
  qed
qed

end
