(* ===== verification/Statements.thy ===== *)
theory Statements
  imports Journals
begin

text \<open>
  Every statement on a database (CREATE, DROP, a statement on one table, a transaction) returns, keeps
  the invariant, and either changes nothing or appends one log entry whose replay repeats its effect.
\<close>

section \<open>The mutations of a statement\<close>

lemma setCells_at:
  assumes "setCells r ords vals = Some nr" and "distinct ords" and "j < length ords" and "length vals = length ords"
  shows "nr ! (ords ! j) = vals ! j"
  using assms
proof (induction r ords vals arbitrary: j rule: setCells.induct)
  case (3 r ord ords v vals)
  then have len: "\<not> length r \<le> ord" and rest: "setCells (r[ord := v]) ords vals = Some nr" by (auto split: if_splits)
  show ?case
  proof (cases j)
    case 0
    then show ?thesis using setCells_other [OF rest, of ord] 3(3) len by simp
  next
    case (Suc k)
    then show ?thesis using 3(1) [OF len rest, of k] 3 by simp
  qed
qed auto

lemma bounded_distinct: "distinct xs \<Longrightarrow> \<forall>x \<in> set xs. x < n \<Longrightarrow> length xs \<le> n"
  using card_mono [of "{..<n}" "set xs"] by (auto simp: distinct_card subset_iff)

lemma newRow_fits:
  assumes fit: "row_fits rt r" and good: "def_good rt" and set: "set_fits rt ords compute" and c: "compute r = Inr vals"
  defines "nr \<equiv> newRow ords compute r"
  shows "setCells r ords vals = Some nr" "mut_ok rt (MUpdate (rowKey rt r) ords nr)" "overwrite r ords nr = nr" "row_fits rt nr" "rowKey rt nr = rowKey rt r"
proof -
  have s: "distinct ords" "keyOrd rt \<notin> set ords" "\<forall>ord \<in> set ords. ord < length (tColumns (rt_def rt))"
    and v: "list_all2 (\<lambda>ord v. admits (tColumns (rt_def rt) ! ord) v \<and> encodable v) ords vals"
    using set row_fits_row_ok [OF fit] c by (auto simp: set_fits_def)
  have len: "length vals = length ords" using v by (simp add: list_all2_lengthD)
  obtain nr' where nr': "setCells r ords vals = Some nr'" using setCells_defined [of ords r vals] s(3) row_fits_length [OF fit] len by auto
  then show sc: "setCells r ords vals = Some nr" by (simp add: nr_def newRow_def c)
  have cells: "admits (tColumns (rt_def rt) ! ord) (nr ! ord) \<and> encodable (nr ! ord)" if "ord \<in> set ords" for ord
  proof -
    obtain j where j: "j < length ords" "ord = ords ! j" using \<open>ord \<in> set ords\<close> by (auto simp: in_set_conv_nth)
    then show ?thesis using setCells_at [OF sc s(1) j(1) len] v by (auto simp: list_all2_conv_all_nth)
  qed
  have "length ords < 65536" using bounded_distinct [OF s(1,3)] good by (simp add: def_good_def)
  then show mo: "mut_ok rt (MUpdate (rowKey rt r) ords nr)" using s cells row_fits_key(2) [OF fit good] by simp
  show ow: "overwrite r ords nr = nr"
  proof (rule nth_equalityI)
    show "length (overwrite r ords nr) = length nr" using setCells_length [OF sc] by simp
    fix k
    assume "k < length (overwrite r ords nr)"
    then show "overwrite r ords nr ! k = nr ! k" using setCells_other [OF sc, of k] by (simp add: overwrite_nth)
  qed
  show "row_fits rt nr" "rowKey rt nr = rowKey rt r" using row_fits_overwrite [OF fit mo] by (simp_all add: ow)
qed

lemma set_fits_sets_ok: "set_fits rt ords compute \<Longrightarrow> sets_ok (length (tColumns (rt_def rt))) (keyOrd rt) ords compute"
proof -
  assume s: "set_fits rt ords compute"
  have "length vals = length ords \<and> (\<forall>v \<in> set vals. wf_Value v)" if "row_ok (length (tColumns (rt_def rt))) r" "compute r = Inr vals" for r vals
  proof -
    have "list_all2 (\<lambda>ord v. admits (tColumns (rt_def rt) ! ord) v \<and> encodable v) ords vals" using s that by (auto simp: set_fits_def)
    then show ?thesis by (auto simp: list_all2_conv_all_nth in_set_conv_nth)
  qed
  with s show ?thesis by (auto simp: set_fits_def sets_ok_def)
qed

text \<open>The tables of the database, with what the log entries need to know of their rows.\<close>

definition fits_all :: "resolvedTable \<Rightarrow> (UUID \<Rightarrow> Row option) \<Rightarrow> bool" where
  "fits_all rt m \<longleftrightarrow> (\<forall>pk r. m pk = Some r \<longrightarrow> row_fits rt r \<and> rowKey rt r = pk)"

lemma fits_allD: "fits_all rt m \<Longrightarrow> m pk = Some r \<Longrightarrow> row_fits rt r \<and> rowKey rt r = pk"
  by (simp add: fits_all_def)

lemma later_keys: "distinct (map f (r # rs)) \<Longrightarrow> \<forall>x \<in> set rs. f x \<noteq> f r"
  by (metis distinct.simps(2) image_eqI list.map(2) list.set_map)

lemma sound_updates:
  assumes "def_good rt" and "set_fits rt ords compute" and "distinct (map (rowKey rt) rs)" and "\<forall>r \<in> set rs. m (rowKey rt r) = Some r \<and> row_fits rt r"
    and "firstError compute rs = None"
  shows "sound_muts rt (map (\<lambda>r. MUpdate (rowKey rt r) ords (newRow ords compute r)) rs) m =
    Some (\<lambda>pk. if pk \<in> set (map (rowKey rt) rs) then map_option (newRow ords compute) (m pk) else m pk)"
  using assms(3-5)
proof (induction rs arbitrary: m)
  case (Cons r rs)
  have fit: "row_fits rt r" "m (rowKey rt r) = Some r" using Cons.prems by auto
  obtain vals where c: "compute r = Inr vals" using Cons.prems(3) by (auto split: sum.splits)
  note new = newRow_fits [OF fit(1) assms(1,2) c]
  let ?m = "m(rowKey rt r \<mapsto> newRow ords compute r)"
  have rest: "\<forall>x \<in> set rs. ?m (rowKey rt x) = Some x \<and> row_fits rt x" using later_keys [OF Cons.prems(1)] Cons.prems(2) by simp
  have "sound_muts rt (map (\<lambda>r. MUpdate (rowKey rt r) ords (newRow ords compute r)) rs) ?m =
      Some (\<lambda>pk. if pk \<in> set (map (rowKey rt) rs) then map_option (newRow ords compute) (?m pk) else ?m pk)"
    using Cons.prems(1,3) c by (intro Cons.IH rest) simp_all
  moreover have "(\<lambda>pk. if pk \<in> set (map (rowKey rt) rs) then map_option (newRow ords compute) (?m pk) else ?m pk) =
      (\<lambda>pk. if pk \<in> set (map (rowKey rt) (r # rs)) then map_option (newRow ords compute) (m pk) else m pk)"
    using Cons.prems(1) fit(2) by (auto simp: fun_eq_iff)
  ultimately show ?case using fit(2) new(2,3) by (simp del: fun_upd_apply mut_ok.simps)
qed simp

lemma sound_deletes:
  assumes "def_good rt" and "distinct (map (rowKey rt) rs)" and "\<forall>r \<in> set rs. m (rowKey rt r) = Some r \<and> row_fits rt r"
  shows "sound_muts rt (map (\<lambda>r. MDelete (rowKey rt r)) rs) m = Some (\<lambda>pk. if pk \<in> set (map (rowKey rt) rs) then None else m pk)"
  using assms(2,3)
proof (induction rs arbitrary: m)
  case (Cons r rs)
  have fit: "row_fits rt r" "m (rowKey rt r) = Some r" using Cons.prems by auto
  let ?m = "m(rowKey rt r := None)"
  have rest: "\<forall>x \<in> set rs. ?m (rowKey rt x) = Some x \<and> row_fits rt x" using later_keys [OF Cons.prems(1)] Cons.prems(2) by simp
  have "sound_muts rt (map (\<lambda>r. MDelete (rowKey rt r)) rs) ?m = Some (\<lambda>pk. if pk \<in> set (map (rowKey rt) rs) then None else ?m pk)"
    using Cons.prems(1) by (intro Cons.IH rest) simp
  moreover have "(\<lambda>pk. if pk \<in> set (map (rowKey rt) rs) then None else ?m pk) = (\<lambda>pk. if pk \<in> set (map (rowKey rt) (r # rs)) then None else m pk)"
    by (auto simp: fun_eq_iff)
  ultimately show ?case using fit(2) row_fits_key(2) [OF fit(1) assms(1)] by (simp del: fun_upd_apply)
qed simp

lemma fresh_batch_insert:
  assumes "fresh_batch m (StInsert pk row # ms)"
  shows "m pk = None \<and> fresh_batch (m(pk \<mapsto> row)) ms"
proof -
  obtain rows where r: "StInsert pk row # ms = map (\<lambda>(pk, row). StInsert pk row) rows" "distinct (map fst rows)" "\<forall>k \<in> set (map fst rows). m k = None"
    using assms unfolding fresh_batch_def by (elim exE conjE) (rule that)
  then obtain zs where z: "rows = (pk, row) # zs" "ms = map (\<lambda>(pk, row). StInsert pk row) zs" by (cases rows) auto
  then have "distinct (map fst zs)" "\<forall>k \<in> set (map fst zs). (m(pk \<mapsto> row)) k = None" using r by auto
  then have "fresh_batch (m(pk \<mapsto> row)) ms" unfolding fresh_batch_def using z(2) by (intro exI [of _ zs] conjI)
  then show ?thesis using z r(3) by simp
qed

lemma fresh_batch_only_inserts: "fresh_batch m (x # ms) \<Longrightarrow> \<exists>pk row. x = StInsert pk row"
  by (auto simp: fresh_batch_def Cons_eq_map_conv)

lemma sound_stage:
  assumes "spec_stage skipDup ms m = Inr (m', mus)" and "def_good rt" and "\<forall>x \<in> set ms. stmtMut_ok rt x" and "fits_all rt m"
    and "skipDup \<longrightarrow> fresh_batch m ms"
  shows "sound_muts rt mus m = Some m' \<and> fits_all rt m'"
  using assms
proof (induction skipDup ms m arbitrary: m' mus rule: spec_stage.induct)
  case (1 skipDup m)
  then show ?case by simp
next
  case (2 skipDup pk row ms m)
  have st: "row_fits rt row" "pk = rowKey rt row" using 2(4) by auto
  have new: "m pk = None"
  proof (cases skipDup)
    case True
    then show ?thesis using 2(6) fresh_batch_insert by blast
  qed (use 2(2) in \<open>auto split: if_splits\<close>)
  then have dup: "\<not> (\<not> skipDup \<and> m pk \<noteq> None)" by simp
  obtain mus1 where s: "spec_stage skipDup ms (m(pk \<mapsto> row)) = Inr (m', mus1)" "mus = MInsert row # mus1"
    using 2(2) new by (auto simp: andThen_eq_Inr)
  have fresh: "skipDup \<longrightarrow> fresh_batch (m(pk \<mapsto> row)) ms" using 2(6) fresh_batch_insert by blast
  have fit: "fits_all rt (m(pk \<mapsto> row))" using 2(5) st by (auto simp: fits_all_def)
  have "\<forall>x \<in> set ms. stmtMut_ok rt x" using 2(4) by simp
  from 2(1) [OF dup s(1) 2(3) this fit fresh] show ?case using s(2) st new by (simp del: fun_upd_apply)
next
  case (3 skipDup pk ords compute ms m)
  have fresh: "\<not> skipDup"
  proof
    assume skipDup
    then show False using 3(7) fresh_batch_only_inserts by blast
  qed
  have ms: "\<forall>x \<in> set ms. stmtMut_ok rt x" and set: "set_fits rt ords compute" using 3(5) by auto
  show ?case
  proof (cases "m pk")
    case None
    then show ?thesis using 3(1) [OF None _ 3(4) ms 3(6)] 3(3) fresh by simp
  next
    case (Some r)
    then obtain vals mus1 where c: "compute r = Inr vals" and s: "spec_stage skipDup ms (m(pk \<mapsto> the (setCells r ords vals))) = Inr (m', mus1)"
        "mus = MUpdate pk ords (the (setCells r ords vals)) # mus1"
      using 3(3) by (auto simp: andThen_eq_Inr Let_def)
    have fit: "row_fits rt r" "rowKey rt r = pk" using 3(6) Some by (auto simp: fits_all_def)
    note new = newRow_fits [OF fit(1) 3(4) set c]
    have nr: "the (setCells r ords vals) = newRow ords compute r" using new(1) by simp
    have "fits_all rt (m(pk \<mapsto> the (setCells r ords vals)))" using 3(6) new fit(2) by (auto simp: fits_all_def nr)
    from 3(2) [OF Some c refl s(1) 3(4) ms this] fresh show ?thesis using new fit(2) Some s(2) by (simp add: nr del: fun_upd_apply mut_ok.simps)
  qed
next
  case (4 skipDup pk ms m)
  have fresh: "\<not> skipDup"
  proof
    assume skipDup
    then show False using 4(7) fresh_batch_only_inserts by blast
  qed
  have ms: "\<forall>x \<in> set ms. stmtMut_ok rt x" using 4(5) by auto
  show ?case
  proof (cases "m pk")
    case None
    then show ?thesis using 4(1) [OF None _ 4(4) ms 4(6)] 4(3) fresh by simp
  next
    case (Some r)
    then obtain mus1 where s: "spec_stage skipDup ms (m(pk := None)) = Inr (m', mus1)" "mus = MDelete pk # mus1"
      using 4(3) by (auto simp: andThen_eq_Inr)
    have fit: "row_fits rt r" "rowKey rt r = pk" using 4(6) Some by (auto simp: fits_all_def)
    have "fits_all rt (m(pk := None))" using 4(6) by (auto simp: fits_all_def)
    from 4(2) [OF Some s(1) 4(4) ms this] fresh show ?thesis using row_fits_key(2) [OF fit(1) 4(4)] fit(2) Some s(2) by (simp del: fun_upd_apply)
  qed
qed

section \<open>Statements on a table\<close>

text \<open>
  The effect of a statement on the rows and the log: nothing, or the mutations \<open>mus\<close> under one entry,
  applied exactly when the log took it.
\<close>

definition table_effect :: "resolvedTable \<Rightarrow> nat \<Rightarrow> (UUID \<Rightarrow> Row option) \<Rightarrow> wal option \<Rightarrow> (UUID \<Rightarrow> Row option) \<Rightarrow> wal option \<Rightarrow>
    logEntry \<Rightarrow> mutation list \<Rightarrow> bool" where
  "table_effect rt i m w m' w' en mus \<longleftrightarrow> mus \<noteq> [] \<and> (en = LTxn i mus \<or> (\<exists>mu. mus = [mu] \<and> en = LMut i mu)) \<and>
     (\<exists>e mnew. logRecord (fst (entryRec en)) (snd (entryRec en)) w = (e, w') \<and> sound_muts rt mus m = Some mnew \<and> m' = (if e = None then mnew else m))"

definition sig_for :: "resolvedTable \<Rightarrow> int \<Rightarrow> int \<Rightarrow> storeSig" where
  "sig_for rt base limit = \<lparr>sg_pkOrd = keyOrd rt, sg_nIdx = length (rt_indexes rt), sg_base = base, sg_limit = limit\<rparr>"

lemma sg_key_for [simp]: "sg_key (sig_for rt base limit) = rowKey rt"
  by (simp add: fun_eq_iff sg_key_def rowKey_def sig_for_def)

lemma enumerates_lists: "enumerates (sig_for rt base limit) m S rs \<longleftrightarrow> lists_rows rt m S rs"
  by (simp add: enumerates_def lists_rows_def)

lemma lists_rows_fits: "lists_rows rt m S rs \<Longrightarrow> fits_all rt m \<Longrightarrow> \<forall>r \<in> set rs. m (rowKey rt r) = Some r \<and> row_fits rt r"
  using fits_allD by (auto simp: lists_rows_def)

lemma logRecord_none [simp]: "logRecord t p None = (None, None)"
  by (simp add: logRecord_def)

lemma journalFor_simps:
  "j_insert (journalFor (w \<noteq> None) tid ords pkO k) row w = logRecord recMutation (encodeInsertMutation [] tid row) w"
  "journaled (journalFor (w \<noteq> None) tid ords pkO k) nr w = logRecord recMutation (encodeUpdateMutation [] tid (nr ! pkO) ords nr) w"
  "j_delete (journalFor (w \<noteq> None) tid ords pkO k) w = logRecord recMutation (encodeDeleteMutation [] tid k) w"
  by (cases w; simp add: journalFor_def noJournal_def journaled_def)+

lemma journalBodies_simps:
  "journalBodies (if w \<noteq> None then Some journalTxnBodies else None) (case if w \<noteq> None then Some f else None of None \<Rightarrow> [] | Some enc \<Rightarrow> map (\<lambda>r. enc (g r)) rs) w =
     (if rs = [] then (None, w) else logRecord recTxn (encodeTxn [] (map (\<lambda>r. f (g r)) rs)) w)"
  by (cases w) (auto simp: journalBodies_def journalTxnBodies_def)

text \<open>Every statement has the effect its log entry says, or none.\<close>

lemma spec_op_effect:
  assumes spec: "spec_op (sig_for rt base limit) (journaledOp (w \<noteq> None) (word_of_nat i) (keyOrd rt) op) (m, w) a (m', w')"
    and good: "def_good rt" and ok: "tblOp_ok rt shards op" and fits: "fits_all rt m" and named: "named A name i rt m"
  shows "(m' = m \<and> w' = w) \<or> (\<exists>en mus. opEntry A (TableOp name op) en \<and> table_effect rt i m w m' w' en mus \<and>
    (\<forall>row. MInsert row \<in> set mus \<longrightarrow> mus = [MInsert row] \<and> (limit \<noteq> 0 \<longrightarrow> base + usage (length (rt_indexes rt)) m + rowCost row (length (rt_indexes rt)) \<le> limit)))"
proof (cases op)
  case (TGet pk)
  then show ?thesis using spec by simp
next
  case (TCompact k)
  then show ?thesis using spec by simp
next
  case (TInsert row)
  show ?thesis
  proof (cases "m (rowKey rt row) \<noteq> None \<or> (limit \<noteq> 0 \<and> base + usage (length (rt_indexes rt)) m + rowCost row (length (rt_indexes rt)) > limit)")
    case True
    then show ?thesis using spec TInsert by (auto simp: sig_for_def [symmetric] split: if_splits) (auto simp: sig_for_def)
  next
    case False
    obtain e wl where log: "logRecord recMutation (encodeInsertMutation [] (word_of_nat i) row) w = (e, wl)" by fastforce
    have "w' = wl" "m' = (if e = None then m(rowKey rt row \<mapsto> row) else m)"
      using spec False log unfolding TInsert journaledOp.simps spec_op.simps journalFor_simps sg_key_for
      by (auto simp: sig_for_def split: option.splits)
    then have "table_effect rt i m w m' w' (LMut i (MInsert row)) [MInsert row]"
      using ok False log by (auto simp: table_effect_def TInsert)
    moreover have "opEntry A (TableOp name op) (LMut i (MInsert row))" unfolding TInsert using named by (rule opEntry.insert)
    ultimately show ?thesis using False by force
  qed
next
  case (TUpdate pk ords compute)
  have set: "set_fits rt ords compute" using ok TUpdate by simp
  show ?thesis
  proof (cases "m pk")
    case None
    then show ?thesis using spec TUpdate by (simp add: update_spec_def)
  next
    case (Some r)
    note fit = fits_allD [OF fits Some]
    show ?thesis
    proof (cases "compute r")
      case (Inl e)
      then show ?thesis using spec TUpdate Some by (simp add: update_spec_def)
    next
      case (Inr vals)
      note new = newRow_fits [OF conjunct1 [OF fit] good set Inr]
      let ?nr = "newRow ords compute r"
      have nr: "the (setCells r ords vals) = ?nr" using new(1) by simp
      have pk: "?nr ! keyOrd rt = UUIDVal pk" using row_fits_key(1) [OF new(4) good] new(5) fit by simp
      obtain e wl where log: "logRecord recMutation (encodeUpdateMutation [] (word_of_nat i) (UUIDVal pk) ords ?nr) w = (e, wl)" by fastforce
      have "w' = wl" "m' = (if e = None then m(pk \<mapsto> ?nr) else m)"
        using spec Some Inr log pk unfolding TUpdate journaledOp.simps spec_op.simps update_spec_def
        by (auto simp: nr journalFor_simps Let_def split: option.splits simp del: not_None_eq)
      then have "table_effect rt i m w m' w' (LMut i (MUpdate pk ords ?nr)) [MUpdate pk ords ?nr]"
        using Some new(2,3) fit log by (auto simp: table_effect_def simp del: mut_ok.simps)
      moreover have "opEntry A (TableOp name op) (LMut i (MUpdate pk ords ?nr))" unfolding TUpdate using named Some by (rule opEntry.update)
      ultimately show ?thesis by force
    qed
  qed
next
  case (TDelete pk)
  show ?thesis
  proof (cases "m pk")
    case None
    then show ?thesis using spec TDelete by (simp add: delete_spec_def)
  next
    case (Some r)
    note fit = fits_allD [OF fits Some]
    obtain e wl where log: "logRecord recMutation (encodeDeleteMutation [] (word_of_nat i) (UUIDVal pk)) w = (e, wl)" by fastforce
    have "w' = wl" "m' = (if e = None then m(pk := None) else m)"
      using spec Some log unfolding TDelete journaledOp.simps spec_op.simps delete_spec_def
      by (auto simp: journalFor_simps split: option.splits simp del: not_None_eq)
    then have "table_effect rt i m w m' w' (LMut i (MDelete pk)) [MDelete pk]"
      using Some row_fits_key(2) [OF _ good] fit log by (auto simp: table_effect_def)
    moreover have "opEntry A (TableOp name op) (LMut i (MDelete pk))" unfolding TDelete using named Some by (intro opEntry.delete) auto
    ultimately show ?thesis by force
  qed
next
  case (TUpdateWhere pks match ords compute)
  let ?S = "hit m (chosen pks) match"
  have set: "set_fits rt ords compute" using ok TUpdateWhere by simp
  obtain rs where rs: "lists_rows rt m ?S rs" and out: "case firstError compute rs of
      Some e \<Rightarrow> a = Failed e \<and> m' = m \<and> w' = w
    | None \<Rightarrow> (case if rs = [] then (None, w) else logRecord recTxn
          (encodeTxn [] (map (\<lambda>r. encodeUpdateMutation [] (word_of_nat i) (newRow ords compute r ! keyOrd rt) ords (newRow ords compute r)) rs)) w of
        (Some e, wl) \<Rightarrow> a = Failed e \<and> m' = m \<and> w' = wl
      | (None, wl) \<Rightarrow> a = Count (length rs) \<and> w' = wl \<and> m' = (\<lambda>pk. if pk \<in> ?S then map_option (newRow ords compute) (m pk) else m pk))"
    using spec unfolding TUpdateWhere journaledOp.simps spec_op.simps enumerates_lists journalBodies_simps by (elim exE conjE) (rule that)
  note rf = lists_rows_fits [OF rs fits]
  show ?thesis
  proof (cases "firstError compute rs")
    case (Some e)
    then show ?thesis using out by simp
  next
    case None
    have S: "set (map (rowKey rt) rs) = ?S" and dist: "distinct (map (rowKey rt) rs)" using rs by (simp_all add: lists_rows_def)
    show ?thesis
    proof (cases "rs = []")
      case True
      then have "?S = {}" using S by simp
      then show ?thesis using out None True by simp
    next
      case False
      let ?mus = "map (\<lambda>r. MUpdate (rowKey rt r) ords (newRow ords compute r)) rs"
      have "newRow ords compute r ! keyOrd rt = UUIDVal (rowKey rt r)" if r: "r \<in> set rs" for r
      proof -
        obtain vals where "compute r = Inr vals" using None r by (induction rs) (auto split: sum.splits)
        from newRow_fits [OF _ good set this] rf r show ?thesis using row_fits_key(1) [OF _ good] by metis
      qed
      then have bodies: "map (\<lambda>r. encodeUpdateMutation [] (word_of_nat i) (newRow ords compute r ! keyOrd rt) ords (newRow ords compute r)) rs =
          map (mutBytes i) ?mus" by simp
      obtain e wl where log: "logRecord recTxn (encodeTxn [] (map (mutBytes i) ?mus)) w = (e, wl)" by fastforce
      have "w' = wl" "m' = (if e = None then (\<lambda>pk. if pk \<in> ?S then map_option (newRow ords compute) (m pk) else m pk) else m)"
        using out None False log unfolding bodies by (auto split: option.splits)
      then have "table_effect rt i m w m' w' (LTxn i ?mus) ?mus"
        using sound_updates [OF good set dist rf None, unfolded S] False log by (auto simp: table_effect_def)
      moreover have "opEntry A (TableOp name op) (LTxn i ?mus)" unfolding TUpdateWhere using named rs by (rule opEntry.updateWhere)
      ultimately show ?thesis by force
    qed
  qed
next
  case (TDeleteWhere pks match)
  let ?S = "hit m (chosen pks) match"
  obtain rs where rs: "lists_rows rt m ?S rs" and out: "case if rs = [] then (None, w) else logRecord recTxn
          (encodeTxn [] (map (\<lambda>r. encodeDeleteMutation [] (word_of_nat i) (r ! sg_pkOrd (sig_for rt base limit))) rs)) w of
        (Some e, wl) \<Rightarrow> a = Failed e \<and> m' = m \<and> w' = wl
      | (None, wl) \<Rightarrow> a = Count (length rs) \<and> w' = wl \<and> m' = (\<lambda>pk. if pk \<in> ?S then None else m pk)"
    using spec unfolding TDeleteWhere journaledOp.simps spec_op.simps enumerates_lists journalBodies_simps by (elim exE conjE) (rule that)
  note rf = lists_rows_fits [OF rs fits]
  have S: "set (map (rowKey rt) rs) = ?S" and dist: "distinct (map (rowKey rt) rs)" using rs by (simp_all add: lists_rows_def)
  show ?thesis
  proof (cases "rs = []")
    case True
    then have "?S = {}" using S by simp
    then show ?thesis using out True by simp
  next
    case False
    let ?mus = "map (\<lambda>r. MDelete (rowKey rt r)) rs"
    have bodies: "map (\<lambda>r. encodeDeleteMutation [] (word_of_nat i) (r ! sg_pkOrd (sig_for rt base limit))) rs = map (mutBytes i) ?mus"
      using rf row_fits_key(1) [OF _ good] by (auto simp: sig_for_def)
    obtain e wl where log: "logRecord recTxn (encodeTxn [] (map (mutBytes i) ?mus)) w = (e, wl)" by fastforce
    have "w' = wl" "m' = (if e = None then (\<lambda>pk. if pk \<in> ?S then None else m pk) else m)"
      using out False log unfolding bodies by (auto split: option.splits)
    then have "table_effect rt i m w m' w' (LTxn i ?mus) ?mus"
      using sound_deletes [OF good dist rf, unfolded S] False log by (auto simp: table_effect_def)
    moreover have "opEntry A (TableOp name op) (LTxn i ?mus)" unfolding TDeleteWhere using named rs by (rule opEntry.deleteWhere)
    ultimately show ?thesis by force
  qed
qed

section \<open>Statements on the database\<close>

definition db_effect :: "int \<Rightarrow> dbOp \<Rightarrow> DB \<Rightarrow> DB \<Rightarrow> bool" where
  "db_effect limit op db db' \<longleftrightarrow> (dbAbs db' = dbAbs db \<and> db_wal db' = db_wal db) \<or>
     (\<exists>en A e. opEntry (dbAbs db) op en \<and> entry_step limit en (dbAbs db) = Some A \<and>
        logRecord (fst (entryRec en)) (snd (entryRec en)) (db_wal db) = (e, db_wal db') \<and> dbAbs db' = (if e = None then A else dbAbs db))"

lemma sound_muts_fits: "sound_muts rt mus m = Some m' \<Longrightarrow> fits_all rt m \<Longrightarrow> fits_all rt m'"
proof (induction rt mus m rule: sound_muts.induct)
  case (2 rt row mus m)
  from 2(2) have c: "row_fits rt row \<and> m (rowKey rt row) = None" "sound_muts rt mus (m(rowKey rt row \<mapsto> row)) = Some m'"
    by (simp_all del: fun_upd_apply split: if_splits)
  moreover have "fits_all rt (m(rowKey rt row \<mapsto> row))" using 2(3) c(1) by (auto simp: fits_all_def)
  ultimately show ?case by (rule 2(1))
next
  case (3 rt pk ords nr mus m)
  from 3(2) obtain r where r: "m pk = Some r" "mut_ok rt (MUpdate pk ords nr)" "overwrite r ords nr = nr" "sound_muts rt mus (m(pk \<mapsto> nr)) = Some m'"
    by (auto simp del: fun_upd_apply mut_ok.simps split: if_splits option.splits)
  have "row_fits rt nr" "rowKey rt nr = pk" using row_fits_overwrite [OF _ r(2), of r] fits_allD [OF 3(3) r(1)] by (auto simp: r(3))
  then have "fits_all rt (m(pk \<mapsto> nr))" using 3(3) by (auto simp: fits_all_def)
  with 3(1) [OF r(1) conjI [OF r(2,3)] r(4)] show ?case .
next
  case (4 rt pk mus m)
  from 4(2) have c: "m pk \<noteq> None \<and> uuid_ok pk" "sound_muts rt mus (m(pk := None)) = Some m'"
    by (simp_all del: fun_upd_apply split: if_splits)
  moreover have "fits_all rt (m(pk := None))" using 4(3) by (auto simp: fits_all_def)
  ultimately show ?case by (rule 4(1))
qed simp

lemma sint_nonneg_32:
  assumes "unat (x :: uint64) < 2 ^ 32"
  shows "0 \<le> sint x"
proof -
  have "int (unat x) < int (2 ^ 32)" using assms by (simp only: of_nat_less_iff)
  then have "uint x < 2 ^ 63" by simp
  moreover have "0 \<le> uint x" by simp
  ultimately have "signed_take_bit 63 (uint x) = uint x" by (intro signed_take_bit_int_eq_self) linarith+
  then show ?thesis by (simp add: sint_uint)
qed

lemma rowCost_nonneg:
  assumes "row_fits rt r"
  shows "0 \<le> rowCost r n"
proof -
  have "0 \<le> approxBytes v" if "v \<in> set r" for v
  proof -
    have "encodable v" using assms that by (simp add: row_fits_def)
    then have "(Kind v = KindString \<or> Kind v = KindBytes) \<longrightarrow> 0 \<le> sint (w0 v)" using sint_nonneg_32 by (simp add: encodable_def)
    then show ?thesis by (simp add: approxBytes_def)
  qed
  then have "0 \<le> sum_list (map approxBytes r)" by (intro sum_list_nonneg) auto
  then show ?thesis by (simp add: rowCost_def rowFixedOverhead_def perIndexRowOverhead_def)
qed

lemma finite_rows: "table_inv seed t \<Longrightarrow> finite (dom (tbl_abs t))"
  using visits_scan [of seed t] by (simp add: visits_def) (metis List.finite_set)

text \<open>The table behind a name, as the abstract database has it.\<close>

lemma named_table:
  assumes inv: "dbInv seed limit db" and r: "cat_byName (db_cat db) name = Some r"
  defines "i \<equiv> unat (rt_tableID (db_heap db ! r))" and "t \<equiv> rt_table (db_heap db ! r)"
  shows "i < length (cat_byID (db_cat db))" "cat_byID (db_cat db) ! i = Some r" "rt_tableID (db_heap db ! r) = word_of_nat i"
    "named (dbAbs db) name i (t_def t) (tbl_abs t)" "fits_all (t_def t) (tbl_abs t)" "def_good (t_def t)" "table_inv seed t"
    "nIdx t = length (rt_indexes (t_def t))" "rows_ok (length (tColumns (rt_def (t_def t)))) (tbl_abs t)" "finite (dom (tbl_abs t))"
    "limit \<noteq> 0 \<longrightarrow> ad_total (dbAbs db) = baseOf r db + usage (nIdx t) (tbl_abs t)"
proof -
  have co: "cat_ok (db_heap db) (db_cat db)" using inv by (simp add: dbInv_def)
  then have c: "rt_name (db_heap db ! r) = name" "i < length (cat_byID (db_cat db))" "cat_byID (db_cat db) ! i = Some r"
    using r by (auto simp: cat_ok_def i_def)
  note d = dbInvD [OF inv c(2,3)]
  show i: "i < length (cat_byID (db_cat db))" "cat_byID (db_cat db) ! i = Some r" by (fact c)+
  show "rt_tableID (db_heap db ! r) = word_of_nat i" by (simp add: i_def)
  have good: "table_good seed t" using d(3) by (simp add: t_def)
  show "named (dbAbs db) name i (t_def t) (tbl_abs t)" using c by (simp add: named_def dbAbs_def t_def rt_name_def)
  show fits: "fits_all (t_def t) (tbl_abs t)" using good tbl_abs_key [of seed t] by (auto simp: table_good_def fits_all_def)
  show "def_good (t_def t)" "table_inv seed t" "nIdx t = length (rt_indexes (t_def t))" using good by (simp_all add: table_good_def nIdx_def)
  then show "finite (dom (tbl_abs t))" using finite_rows by simp
  show "rows_ok (length (tColumns (rt_def (t_def t)))) (tbl_abs t)" using fits row_fits_row_ok by (auto simp: fits_all_def intro!: rows_okI)
  show "limit \<noteq> 0 \<longrightarrow> ad_total (dbAbs db) = baseOf r db + usage (nIdx t) (tbl_abs t)"
    using d(4) tallies_exact(1) [of seed t] \<open>table_inv seed t\<close> by (simp add: dbAbs_def baseOf_def t_def)
qed

lemma tblOp_op_ok:
  assumes "tblOp_ok rt shards op" and "def_good rt"
  shows "op_ok (length (tColumns (rt_def rt))) (keyOrd rt) shards (journaledOp live tid pkO op)"
  using assms by (cases op) (auto simp: row_fits_row_ok set_fits_sets_ok split: option.splits)

lemma effect_entry:
  assumes eff: "table_effect rt i m w m' w' en mus" and tm: "i < length (ad_tables A)" "ad_tables A ! i = Some (rt, m)" and fin: "finite (dom m)"
    and small: "entry_small en" and room: "(\<exists>row. MInsert row \<in> set mus) \<longrightarrow> group_fits limit (ad_total A) rt mus m"
  obtains e mnew where "logRecord (fst (entryRec en)) (snd (entryRec en)) w = (e, w')" "sound_muts rt mus m = Some mnew" "m' = (if e = None then mnew else m)"
    "entry_step limit en A = Some (A\<lparr>ad_tables := (ad_tables A)[i := Some (rt, mnew)],
       ad_total := (if limit = 0 then 0 else ad_total A + usage (length (rt_indexes rt)) mnew - usage (length (rt_indexes rt)) m)\<rparr>)"
proof -
  obtain e mnew where e: "logRecord (fst (entryRec en)) (snd (entryRec en)) w = (e, w')" "sound_muts rt mus m = Some mnew" "m' = (if e = None then mnew else m)"
    and ne: "mus \<noteq> []" and en: "en = LTxn i mus \<or> (\<exists>mu. mus = [mu] \<and> en = LMut i mu)" using eff by (auto simp: table_effect_def)
  note step = sound_muts_step [OF e(2) fin tm room]
  have "muts_step limit i [mu] A = mut_step limit i mu A" for mu by (cases "mut_step limit i mu A") simp_all
  then have "entry_step limit en A = muts_step limit i mus A" using en small by (auto simp: entry_small_def)
  with step ne e that show thesis by simp
qed

lemma put_effect:
  assumes inv: "dbInv seed limit db" and r: "cat_byName (db_cat db) name = Some r" and i: "i = unat (rt_tableID (db_heap db ! r))"
    and t: "t = rt_table (db_heap db ! r)" and st: "store_inv seed (baseOf r db) st" "frame (storeOf r db) st"
    and eff: "(tbl_abs (st_table st) = tbl_abs t \<and> st_wal st = db_wal db) \<or>
      (\<exists>en mus. opEntry (dbAbs db) op en \<and> table_effect (t_def t) i (tbl_abs t) (db_wal db) (tbl_abs (st_table st)) (st_wal st) en mus \<and>
        ((\<exists>row. MInsert row \<in> set mus) \<longrightarrow> group_fits limit (ad_total (dbAbs db)) (t_def t) mus (tbl_abs t)))"
    and small: "\<forall>en. opEntry (dbAbs db) op en \<longrightarrow> entry_small en"
  shows "dbInv seed limit (putStore r st db) \<and> db_effect limit op db (putStore r st db)"
proof -
  note nt = named_table [OF inv r, folded i t]
  have tm: "i < length (ad_tables (dbAbs db))" "ad_tables (dbAbs db) ! i = Some (t_def t, tbl_abs t)" using nt(4) by (simp_all add: named_def)
  have fits: "fits_all (t_def t) (tbl_abs (st_table st))" using eff nt(5) sound_muts_fits by (auto simp: table_effect_def)
  then have rows: "row_fits (t_def (rt_table (db_heap db ! r))) x" if "tbl_abs (st_table st) pk = Some x" for pk x
    using that fits_allD t by blast
  have lift: "dbInv seed limit (putStore r st db)"
    "dbAbs (putStore r st db) = (dbAbs db)\<lparr>ad_tables := (ad_tables (dbAbs db))[i := Some (t_def t, tbl_abs (st_table st))],
       ad_total := (if limit = 0 then 0 else ad_total (dbAbs db) + usage (length (rt_indexes (t_def t))) (tbl_abs (st_table st)) -
         usage (length (rt_indexes (t_def t))) (tbl_abs t))\<rparr>"
    by (rule lift_step [OF inv nt(1,2) st _ tm(2)], erule rows)+
  have upd: "(ad_tables (dbAbs db))[i := Some (t_def t, tbl_abs t)] = ad_tables (dbAbs db)" using tm by (simp add: list_update_same_conv)
  have "limit = 0 \<longrightarrow> ad_total (dbAbs db) = 0" using dbInvD(4) [OF inv nt(1,2)] by (simp add: dbAbs_def)
  then have same: "dbAbs (putStore r st db) = dbAbs db" if "tbl_abs (st_table st) = tbl_abs t" using lift(2) that upd by simp
  have wal: "db_wal (putStore r st db) = st_wal st" by (simp add: putStore_def)
  from eff show ?thesis
  proof (elim disjE exE conjE)
    assume "tbl_abs (st_table st) = tbl_abs t" "st_wal st = db_wal db"
    then show ?thesis using lift(1) same wal by (simp add: db_effect_def)
  next
    fix en mus
    assume en: "opEntry (dbAbs db) op en" and te: "table_effect (t_def t) i (tbl_abs t) (db_wal db) (tbl_abs (st_table st)) (st_wal st) en mus"
      and room: "(\<exists>row. MInsert row \<in> set mus) \<longrightarrow> group_fits limit (ad_total (dbAbs db)) (t_def t) mus (tbl_abs t)"
    have "entry_small en" using small en by blast
    from effect_entry [OF te tm nt(10) this room] obtain e mnew where
      e: "logRecord (fst (entryRec en)) (snd (entryRec en)) (db_wal db) = (e, st_wal st)" "tbl_abs (st_table st) = (if e = None then mnew else tbl_abs t)"
        "entry_step limit en (dbAbs db) = Some ((dbAbs db)\<lparr>ad_tables := (ad_tables (dbAbs db))[i := Some (t_def t, mnew)],
           ad_total := (if limit = 0 then 0 else ad_total (dbAbs db) + usage (length (rt_indexes (t_def t))) mnew - usage (length (rt_indexes (t_def t))) (tbl_abs t))\<rparr>)" .
    have "dbAbs (putStore r st db) = dbAbs db" if "e \<noteq> None"
      using same e(2) that by simp
    then have "dbAbs (putStore r st db) = (if e = None then (dbAbs db)\<lparr>ad_tables := (ad_tables (dbAbs db))[i := Some (t_def t, mnew)],
        ad_total := (if limit = 0 then 0 else ad_total (dbAbs db) + usage (length (rt_indexes (t_def t))) mnew -
          usage (length (rt_indexes (t_def t))) (tbl_abs t))\<rparr> else dbAbs db)"
      using lift(2) e(2) by simp
    with en e(1,3) have "db_effect limit op db (putStore r st db)" unfolding db_effect_def wal by blast
    with lift(1) show ?thesis by blast
  qed
qed

lemma tableOp_ok:
  assumes inv: "dbInv seed limit db" and ok: "stmt_ok limit (TableOp name op) db"
  shows "\<exists>a db'. dbStep seed (TableOp name op) db = Some (a, db') \<and> dbInv seed limit db' \<and> db_effect limit (TableOp name op) db db'"
proof (cases "cat_byName (db_cat db) name")
  case None
  then show ?thesis using inv by (simp add: db_effect_def)
next
  case (Some r)
  define i where "i = unat (rt_tableID (db_heap db ! r))"
  define t where "t = rt_table (db_heap db ! r)"
  note nt = named_table [OF inv Some, folded i_def t_def]
  have st: "st_table (storeOf r db) = t" "st_wal (storeOf r db) = db_wal db" "ceiling (st_budget (storeOf r db)) = limit"
    using dbInvD(4) [OF inv nt(1,2)] by (simp_all add: storeOf_def t_def)
  have tok: "tblOp_ok (t_def t) (length (t_shards t)) op" using ok Some by (simp add: stmt_ok_def t_def)
  have pkO: "pkOrd t = keyOrd (t_def t)" by (simp add: pkOrd_def keyOrd_def)
  let ?op = "journaledOp (db_wal db \<noteq> None) (word_of_nat i) (keyOrd (t_def t)) op"
  have sig: "sig_of (baseOf r db) (storeOf r db) = sig_for (t_def t) (baseOf r db) limit"
    by (simp add: sig_of_def sig_for_def st pkO nt(8))
  obtain a st' where run: "store_op seed ?op (storeOf r db) = Some (a, st')" "store_inv seed (baseOf r db) st'" "frame (storeOf r db) st'"
      and spec: "spec_op (sig_for (t_def t) (baseOf r db) limit) ?op (tbl_abs t, db_wal db) a (tbl_abs (st_table st'), st_wal st')"
    using store_op_refines [OF dbInvD(5) [OF inv nt(1,2)], of "length (tColumns (rt_def (t_def t)))" ?op, unfolded st sig pkO, OF nt(9) tblOp_op_ok [OF tok nt(6)]]
    by (elim exE conjE) (rule that)
  from spec_op_effect [OF spec nt(6) tok nt(5,4)]
  have eff: "(tbl_abs (st_table st') = tbl_abs t \<and> st_wal st' = db_wal db) \<or>
      (\<exists>en mus. opEntry (dbAbs db) (TableOp name op) en \<and> table_effect (t_def t) i (tbl_abs t) (db_wal db) (tbl_abs (st_table st')) (st_wal st') en mus \<and>
        ((\<exists>row. MInsert row \<in> set mus) \<longrightarrow> group_fits limit (ad_total (dbAbs db)) (t_def t) mus (tbl_abs t)))"
  proof (elim disjE exE conjE)
    fix en mus
    assume x: "opEntry (dbAbs db) (TableOp name op) en" "table_effect (t_def t) i (tbl_abs t) (db_wal db) (tbl_abs (st_table st')) (st_wal st') en mus"
      and room: "\<forall>row. MInsert row \<in> set mus \<longrightarrow> mus = [MInsert row] \<and> (limit \<noteq> 0 \<longrightarrow>
        baseOf r db + usage (length (rt_indexes (t_def t))) (tbl_abs t) + rowCost row (length (rt_indexes (t_def t))) \<le> limit)"
    have "group_fits limit (ad_total (dbAbs db)) (t_def t) mus (tbl_abs t)" if ins: "MInsert row \<in> set mus" for row
    proof -
      have mus: "mus = [MInsert row]" and cap: "limit \<noteq> 0 \<longrightarrow> ad_total (dbAbs db) + rowCost row (length (rt_indexes (t_def t))) \<le> limit"
        using room ins nt(8,11) by auto
      have "0 \<le> rowCost row (length (rt_indexes (t_def t)))"
        using x(2) mus by (intro rowCost_nonneg [of "t_def t"]) (auto simp: table_effect_def split: if_splits)
      with cap show ?thesis by (auto simp: group_fits_def mus)
    qed
    with x show ?thesis by blast
  qed blast
  have small: "\<forall>en. opEntry (dbAbs db) (TableOp name op) en \<longrightarrow> entry_small en" using ok by (simp add: stmt_ok_def)
  have "dbStep seed (TableOp name op) db = Some (a, putStore r st' db)"
    using run(1) Some nt(3) by (simp add: pkO [unfolded t_def] t_def del: not_None_eq)
  then show ?thesis using put_effect [OF inv Some i_def t_def run(2,3) eff small] by blast
qed

lemma stmtMut_staged:
  assumes "stmtMut_ok (t_def t) x"
  shows "staged_ok t (length (tColumns (rt_def (t_def t)))) x"
  using assms by (cases x) (auto simp: pkOf_rowKey row_fits_row_ok pkOrd_def keyOrd_def [symmetric] set_fits_sets_ok)

lemma row_fits_pk_cell: "row_fits (t_def t) r \<Longrightarrow> def_good (t_def t) \<Longrightarrow> pk_cell t r"
  using row_fits_key(1) [of "t_def t" r] by (simp add: pk_cell_def pkOf_rowKey pkOrd_def keyOrd_def)

lemma commitOp_ok:
  assumes inv: "dbInv seed limit db" and ok: "stmt_ok limit (CommitOp name skipDup ms) db"
  shows "\<exists>a db'. dbStep seed (CommitOp name skipDup ms) db = Some (a, db') \<and> dbInv seed limit db' \<and> db_effect limit (CommitOp name skipDup ms) db db'"
proof (cases "cat_byName (db_cat db) name")
  case None
  then show ?thesis using inv by (simp add: db_effect_def)
next
  case (Some r)
  define i where "i = unat (rt_tableID (db_heap db ! r))"
  define t where "t = rt_table (db_heap db ! r)"
  note nt = named_table [OF inv Some, folded i_def t_def]
  have st: "st_table (storeOf r db) = t" "st_wal (storeOf r db) = db_wal db" by (simp_all add: storeOf_def t_def)
  have i_id: "unat (word_of_nat i :: uint16) = i" by (simp add: i_def)
  have live: "\<not> (i \<ge> length (cat_byID (db_cat db)) \<or> cat_byID (db_cat db) ! i \<noteq> Some r)" using nt(1,2) by simp
  show ?thesis
  proof (cases "length ms = 0 \<or> length ms > maxTxnMutations")
    case True
    then have "\<exists>e. txCommit seed False r skipDup ms db = Some (e, db)" by (auto simp: txCommit_def)
    then show ?thesis using inv Some by (auto simp: db_effect_def)
  next
    case False
    have sm: "\<forall>x \<in> set ms. stmtMut_ok (t_def t) x" "skipDup \<longrightarrow> fresh_batch (tbl_abs t) ms"
      and room: "\<And>m' mus. spec_stage skipDup ms (tbl_abs t) = Inr (m', mus) \<Longrightarrow> group_fits limit (ad_total (dbAbs db)) (t_def t) mus (tbl_abs t)"
      using ok nt(4) by (auto simp: stmt_ok_def)
    have cells: "\<forall>pk r. tbl_abs t pk = Some r \<longrightarrow> pk_cell t r" using fits_allD [OF nt(5)] row_fits_pk_cell nt(6) by blast
    have ins: "\<forall>pk row. StInsert pk row \<in> set ms \<longrightarrow> pk_cell t row" using sm(1) row_fits_pk_cell nt(6) by fastforce
    have staged: "\<forall>x \<in> set ms. staged_ok t (length (tColumns (rt_def (t_def t)))) x" using sm(1) stmtMut_staged by blast
    obtain e st' where run: "commitLocked seed (word_of_nat i) skipDup ms (storeOf r db) = Some (e, st')" "store_inv seed (baseOf r db) st'" "frame (storeOf r db) st'"
        and spec: "(e, tbl_abs (st_table st'), st_wal st') =
          commit_spec i (nIdx t) (tbl_abs t) (st_budget (storeOf r db)) (db_wal db) (spec_stage skipDup ms (tbl_abs t))"
      using commitLocked_ok [OF dbInvD(5) [OF inv nt(1,2)] st(1) [symmetric] nt(9) cells staged ins sm(2), of i] by (auto simp: st)
    have eff: "(tbl_abs (st_table st') = tbl_abs t \<and> st_wal st' = db_wal db) \<or>
        (\<exists>en mus. opEntry (dbAbs db) (CommitOp name skipDup ms) en \<and>
          table_effect (t_def t) i (tbl_abs t) (db_wal db) (tbl_abs (st_table st')) (st_wal st') en mus \<and>
          ((\<exists>row. MInsert row \<in> set mus) \<longrightarrow> group_fits limit (ad_total (dbAbs db)) (t_def t) mus (tbl_abs t)))"
    proof (cases "spec_stage skipDup ms (tbl_abs t)")
      case (Inl x)
      then show ?thesis using spec by (simp add: commit_spec_def)
    next
      case (Inr x)
      then obtain m' mus where x: "spec_stage skipDup ms (tbl_abs t) = Inr (m', mus)" by (cases x) simp
      show ?thesis
      proof (cases "mus = [] \<or> over_cap (usage (nIdx t) m' - usage (nIdx t) (tbl_abs t)) (st_budget (storeOf r db))")
        case True
        then show ?thesis using spec by (auto simp: commit_spec_def x split: if_splits)
      next
        case False
        obtain f wl where log: "logRecord recTxn (encodeTxn [] (map (mutBytes i) mus)) (db_wal db) = (f, wl)" by fastforce
        have "st_wal st' = wl" "tbl_abs (st_table st') = (if f = None then m' else tbl_abs t)"
          using spec False log by (auto simp: commit_spec_def x split: option.splits)
        then have "table_effect (t_def t) i (tbl_abs t) (db_wal db) (tbl_abs (st_table st')) (st_wal st') (LTxn i mus) mus"
          using sound_stage [OF x nt(6) sm(1) nt(5) sm(2)] False log by (auto simp: table_effect_def)
        moreover have "opEntry (dbAbs db) (CommitOp name skipDup ms) (LTxn i mus)" using nt(4) x by (rule opEntry.commit)
        ultimately show ?thesis using room [OF x] by blast
      qed
    qed
    have small: "\<forall>en. opEntry (dbAbs db) (CommitOp name skipDup ms) en \<longrightarrow> entry_small en" using ok by (simp add: stmt_ok_def)
    have "txCommit seed False r skipDup ms db = Some (e, putStore r st' db)"
      using False live run(1) nt(3) unfolding txCommit_def by (simp add: Let_def i_id)
    then have "dbStep seed (CommitOp name skipDup ms) db = Some (doneOr e, putStore r st' db)" using Some by simp
    then show ?thesis using put_effect [OF inv Some i_def t_def run(2,3) eff small] by blast
  qed
qed

lemma db_effectI:
  assumes "opEntry (dbAbs db) op en" and "entry_step limit en (dbAbs db) = Some A"
    and "logRecord (fst (entryRec en)) (snd (entryRec en)) (db_wal db) = (e, db_wal db')" and "dbAbs db' = (if e = None then A else dbAbs db)"
  shows "db_effect limit op db db'"
  using assms unfolding db_effect_def by blast

lemma dbAbs_wal [simp]: "dbAbs (db\<lparr>db_wal := w\<rparr>) = dbAbs db" "dbInv seed limit (db\<lparr>db_wal := w\<rparr>) = dbInv seed limit db"
  by (simp_all add: dbAbs_def dbInv_def)

lemma createOp_ok:
  assumes inv: "dbInv seed limit db" and ok: "stmt_ok limit (CreateOp td) db"
  shows "\<exists>a db'. dbStep seed (CreateOp td) db = Some (a, db') \<and> dbInv seed limit db' \<and> db_effect limit (CreateOp td) db db'"
proof (cases "cat_byName (db_cat db) (tName td) \<noteq> None \<or> hasReservedPrefix (tName td) \<or> length (cat_byID (db_cat db)) > 65535 \<or>
    (\<exists>e. validateCatalogWireDef td = Inl e) \<or> (\<exists>e. resolveSchema [td] = Inl e)")
  case True
  then have "\<exists>e. createTable td db = (e, db)" by (auto simp: createTable_def Let_def split: sum.split)
  then show ?thesis using inv by (auto simp: db_effect_def)
next
  case False
  then obtain u resolved where v: "validateCatalogWireDef td = Inr u" "resolveSchema [td] = Inr resolved"
    by (meson sum.exhaust)
  let ?n = "length (cat_byID (db_cat db))" and ?rs = "the (resolved (tName td))"
  define rt where "rt = \<lparr>rt_table = newTable (db_cpus db) ?rs (db_sizeHint db), rt_tableID = word_of_nat ?n\<rparr>"
  obtain e w where log: "logRecord recCreateTable (encodeCreateTable [] (word_of_nat ?n) td) (db_wal db) = (e, w)" by fastforce
  have run: "createTable td db = (e, if e = None then db\<lparr>db_wal := w, db_heap := db_heap db @ [rt], db_cat := withTable (length (db_heap db)) rt (db_cat db)\<rparr>
      else db\<lparr>db_wal := w\<rparr>)"
    using False v log by (auto simp: createTable_def Let_def rt_def split: option.splits)
  have good: "def_good ?rs" "def_ok td" using ok v validateCatalogWireDef_iff [of td] by (auto simp: stmt_ok_def)
  have rd: "rt_def ?rs = td" using resolved_def [OF v(2)] .
  have co: "cat_ok (db_heap db) (db_cat db)" using inv by (simp add: dbInv_def)
  have new: "cat_byName (db_cat db) (tName (rt_def ?rs)) = None" using False by (simp add: rd)
  have small: "?n < 65536" using False by simp
  let ?db = "db\<lparr>db_wal := w\<rparr>"
  have add: "dbInv seed limit (?db\<lparr>db_heap := db_heap db @ [rt], db_cat := withTable (length (db_heap db)) rt (db_cat db)\<rparr>)"
      "dbAbs (?db\<lparr>db_heap := db_heap db @ [rt], db_cat := withTable (length (db_heap db)) rt (db_cat db)\<rparr>) =
        (dbAbs db)\<lparr>ad_tables := ad_tables (dbAbs db) @ [Some (?rs, Map.empty)]\<rparr>"
    using addTable_ok [of seed limit ?db rt "db_cpus db" ?rs "db_sizeHint db"] inv good(1) new small by (simp_all add: rt_def)
  have len: "length (ad_tables (dbAbs db)) = ?n" by (simp add: dbAbs_def)
  have "tName td \<notin> tblName ` {x. Some x \<in> set (ad_tables (dbAbs db))}" using byName_iff [OF co] False by simp
  then have step: "entry_step limit (LCreate ?n td) (dbAbs db) = Some ((dbAbs db)\<lparr>ad_tables := ad_tables (dbAbs db) @ [Some (?rs, Map.empty)]\<rparr>)"
    using v(2) small good len by (simp add: Let_def)
  have "opEntry (dbAbs db) (CreateOp td) (LCreate ?n td)" using opEntry.create [of "dbAbs db" td] by (simp add: len)
  moreover have "logRecord (fst (entryRec (LCreate ?n td))) (snd (entryRec (LCreate ?n td))) (db_wal db) = (e, db_wal (snd (createTable td db)))"
    using log by (simp add: run)
  ultimately have "db_effect limit (CreateOp td) db (snd (createTable td db))"
    by (rule db_effectI [OF _ step]) (cases e; simp add: run add(2))
  moreover have "dbInv seed limit (snd (createTable td db))" using add(1) inv by (simp add: run)
  ultimately show ?thesis by (simp add: run)
qed

lemma dropOp_ok:
  assumes inv: "dbInv seed limit db"
  shows "\<exists>a db'. dbStep seed (DropOp name) db = Some (a, db') \<and> dbInv seed limit db' \<and> db_effect limit (DropOp name) db db'"
proof (cases "cat_byName (db_cat db) name = None \<or> \<not> name_ok name")
  case True
  then have "\<exists>e. dropTable name db = (e, db)" by (auto simp: dropTable_def Let_def checkU16_def name_ok_def)
  then show ?thesis using inv by (auto simp: db_effect_def)
next
  case False
  obtain e w where log: "logRecord recDropTable (encodeDropTable [] name) (db_wal db) = (e, w)" by fastforce
  have run: "dropTable name db = (e, if e = None then db\<lparr>db_wal := w, db_cat := withoutTable (db_heap db) name (db_cat db)\<rparr> else db\<lparr>db_wal := w\<rparr>)"
    using False log by (auto simp: dropTable_def Let_def checkU16_def name_ok_def split: option.splits)
  let ?A = "(dbAbs db)\<lparr>ad_tables := map (\<lambda>t. Option.bind t (\<lambda>x. if tblName x = name then None else Some x)) (ad_tables (dbAbs db))\<rparr>"
  have co: "cat_ok (db_heap db) (db_cat db)" using inv by (simp add: dbInv_def)
  have step: "entry_step limit (LDrop name) (dbAbs db) = Some ?A" using byName_iff [OF co, of name] False by simp
  have drop: "dbInv seed limit (db\<lparr>db_wal := w, db_cat := withoutTable (db_heap db) name (db_cat db)\<rparr>)"
      "dbAbs (db\<lparr>db_wal := w, db_cat := withoutTable (db_heap db) name (db_cat db)\<rparr>) = ?A"
    using dropTable_ok [of seed limit "db\<lparr>db_wal := w\<rparr>" name] inv by simp_all
  have "logRecord (fst (entryRec (LDrop name))) (snd (entryRec (LDrop name))) (db_wal db) = (e, db_wal (snd (dropTable name db)))"
    using log by (simp add: run)
  then have "db_effect limit (DropOp name) db (snd (dropTable name db))"
    by (rule db_effectI [OF opEntry.drop step]) (cases e; simp add: run drop(2))
  moreover have "dbInv seed limit (snd (dropTable name db))" using drop(1) inv by (simp add: run)
  ultimately show ?thesis by (simp add: run)
qed

lemma dbStep_ok:
  assumes "dbInv seed limit db" and "stmt_ok limit op db"
  shows "\<exists>a db'. dbStep seed op db = Some (a, db') \<and> dbInv seed limit db' \<and> db_effect limit op db db'"
proof (cases op)
  case (CreateOp td)
  show ?thesis unfolding CreateOp by (rule createOp_ok [OF assms [unfolded CreateOp]])
next
  case (DropOp name)
  show ?thesis unfolding DropOp by (rule dropOp_ok [OF assms(1)])
next
  case (TableOp name x)
  show ?thesis unfolding TableOp by (rule tableOp_ok [OF assms [unfolded TableOp]])
next
  case (CommitOp name skipDup ms)
  show ?thesis unfolding CommitOp by (rule commitOp_ok [OF assms [unfolded CommitOp]])
qed

end
