(* ===== verification/Recovery.thy ===== *)
theory Recovery
  imports Statements
begin

text \<open>
  Statements, log operations, crash and recovery: what the log brings back is the state after a prefix
  of the statements that contains every durable one.
\<close>

section \<open>Opening a database\<close>

lemma openDB_ok:
  assumes "openDB cpus tables hint limit w = Inr db" and "resolveSchema tables = Inr resolved"
    and "\<forall>td \<in> set tables. def_good (the (resolved (tName td)))"
  shows "dbInv seed limit db" "dbAbs db = \<lparr>ad_tables = map (\<lambda>td. Some (the (resolved (tName td)), Map.empty)) tables, ad_total = 0\<rparr>" "db_wal db = w"
proof -
  let ?rt = "\<lambda>i. \<lparr>rt_table = newTable cpus (the (resolved (tName (tables ! i)))) hint, rt_tableID = word_of_nat i\<rparr>"
  have small: "length tables \<le> 65536" and heap: "db_heap db = map ?rt [0..<length tables]" and ids: "cat_byID (db_cat db) = map Some [0..<length tables]"
    and names: "cat_byName (db_cat db) = map_of (rev (map (\<lambda>(i, td). (tName td, i)) (enumerate 0 tables)))"
    and budget: "db_budget db = \<lparr>total = 0, ceiling = limit\<rparr>" and wal: "db_wal db = w"
    using assms(1,2) by (auto simp: openDB_def newCatalog_def andThen_eq_Inr enumerate_eq_zip map_zip_map split: if_splits intro!: nth_equalityI)
  show "db_wal db = w" by (fact wal)
  have rs: "distinct (map tName tables)" "\<forall>t \<in> set tables. \<exists>rt. resolved (tName t) = Some rt \<and> rt_def rt = t"
    using resolveSchema_ok [OF assms(2)] by auto
  have at: "db_heap db ! i = ?rt i" "unat (word_of_nat i :: uint16) = i" "rt_name (db_heap db ! i) = tName (tables ! i)" if i: "i < length tables" for i
  proof -
    obtain rt where "resolved (tName (tables ! i)) = Some rt" "rt_def rt = tables ! i"
      using bspec [OF rs(2) nth_mem [OF i]] by (elim exE conjE) (rule that)
    then show "db_heap db ! i = ?rt i" "unat (word_of_nat i :: uint16) = i" "rt_name (db_heap db ! i) = tName (tables ! i)"
      using i small by (simp_all add: heap rt_name_def u16_width)
  qed
  have "map fst (map (\<lambda>(i, td). (tName td, i)) (enumerate 0 tables)) = map tName tables"
    by (rule nth_equalityI) (simp_all add: nth_enumerate_eq)
  then have "distinct (map fst (map (\<lambda>(i, td). (tName td, i)) (enumerate 0 tables)))" using rs(1) by (simp only:)
  then have "cat_byName (db_cat db) nm = Some i \<longleftrightarrow> (nm, i) \<in> set (map (\<lambda>(i, td). (tName td, i)) (enumerate 0 tables))" for nm i
    by (simp only: names map_of_eq_Some_iff rev_map [symmetric] distinct_rev set_rev)
  moreover have "(nm, i) \<in> set (map (\<lambda>(i, td). (tName td, i)) (enumerate 0 tables)) \<longleftrightarrow> i < length tables \<and> tName (tables ! i) = nm" for nm i
  proof
    assume i: "i < length tables \<and> tName (tables ! i) = nm"
    then have m: "(i, tables ! i) \<in> set (enumerate 0 tables)" by (simp add: in_set_enumerate_eq)
    show "(nm, i) \<in> set (map (\<lambda>(i, td). (tName td, i)) (enumerate 0 tables))"
      unfolding set_map by (rule rev_image_eqI [OF m]) (use i in simp)
  qed (auto simp: in_set_enumerate_eq)
  ultimately have name: "cat_byName (db_cat db) nm = Some i \<longleftrightarrow> i < length tables \<and> tName (tables ! i) = nm" for nm i by blast
  have good: "table_good seed (rt_table (db_heap db ! i))" "tbl_abs (rt_table (db_heap db ! i)) = Map.empty"
      "t_def (rt_table (db_heap db ! i)) = the (resolved (tName (tables ! i)))" if "i < length tables" for i
    using newTable_good(1) [of "the (resolved (tName (tables ! i)))" seed cpus hint] newTable_good(2) [of "the (resolved (tName (tables ! i)))" cpus hint]
      assms(3) that by (simp_all add: at(1) [OF that])
  have "cat_ok (db_heap db) (db_cat db)" unfolding cat_ok_def using small at name by (auto simp: ids heap)
  then show "dbInv seed limit db" using good(1) by (simp add: dbInv_def budget ids)
  show "dbAbs db = \<lparr>ad_tables = map (\<lambda>td. Some (the (resolved (tName td)), Map.empty)) tables, ad_total = 0\<rparr>"
    using good(2,3) by (simp add: dbAbs_def budget ids comp_def) (auto intro: nth_equalityI)
qed

section \<open>Histories\<close>

text \<open>
  \<open>ops\<close> are the statements that ran, \<open>hist\<close> the abstract states from the start on, one after each statement;
  every state before position \<open>d\<close> of it was made durable by a flush or a close that succeeded.
\<close>

inductive dbReach :: "uint64 \<Rightarrow> (nat \<Rightarrow> ioResult) \<Rightarrow> int \<Rightarrow> DB \<Rightarrow> DB \<Rightarrow> dbOp list \<Rightarrow> adb list \<Rightarrow> nat \<Rightarrow> bool" for seed io limit db0 where
  start: "db_wal db0 = Some (openWAL [] io) \<Longrightarrow> dbReach seed io limit db0 db0 [] [dbAbs db0] 0"
| stmt: "dbReach seed io limit db0 db ops hist d \<Longrightarrow> stmt_ok limit op db \<Longrightarrow> dbStep seed op db = Some (a, db') \<Longrightarrow>
    dbReach seed io limit db0 db' (ops @ [op]) (hist @ [dbAbs db']) d"
| seal: "dbReach seed io limit db0 db ops hist d \<Longrightarrow> db_wal db = Some w \<Longrightarrow> wal_flush w = (e, w') \<Longrightarrow>
    dbReach seed io limit db0 (db\<lparr>db_wal := Some w'\<rparr>) ops hist (if e = None then length hist - 1 else d)"
| tick: "dbReach seed io limit db0 db ops hist d \<Longrightarrow> db_wal db = Some w \<Longrightarrow>
    dbReach seed io limit db0 (db\<lparr>db_wal := Some (flushTick w)\<rparr>) ops hist d"
| shut: "dbReach seed io limit db0 db ops hist d \<Longrightarrow> db_wal db = Some w \<Longrightarrow> wal_close w = (e, w') \<Longrightarrow> wl_closed w = None \<Longrightarrow>
    dbReach seed io limit db0 (db\<lparr>db_wal := Some w'\<rparr>) ops hist (if e = None then length hist - 1 else d)"

lemma entries_step_append: "entries_step limit (xs @ ys) A = Option.bind (entries_step limit xs A) (entries_step limit ys)"
  by (induction xs arbitrary: A) (auto split: bind_splits)

text \<open>
  The log of a history: \<open>ak\<close> are the entries of the statements that took effect; at most one more entry
  may be on disk, of a statement whose write reported the failure that closed the log.
\<close>

definition pending :: "int \<Rightarrow> DB \<Rightarrow> dbOp list \<Rightarrow> logEntry \<Rightarrow> adb \<Rightarrow> bool" where
  "pending limit db ops en A \<longleftrightarrow> (\<exists>op \<in> set ops. opEntry (dbAbs db) op en) \<and> entry_step limit en (dbAbs db) = Some A"

definition states_from :: "int \<Rightarrow> adb \<Rightarrow> logEntry list \<Rightarrow> nat \<Rightarrow> adb set \<Rightarrow> bool" where
  "states_from limit A0 ak dl S \<longleftrightarrow> (\<forall>k. dl \<le> k \<and> k \<le> length ak \<longrightarrow> (\<exists>A \<in> S. entries_step limit (take k ak) A0 = Some A))"

definition traced :: "(nat \<Rightarrow> ioResult) \<Rightarrow> int \<Rightarrow> DB \<Rightarrow> DB \<Rightarrow> dbOp list \<Rightarrow> adb list \<Rightarrow> nat \<Rightarrow> wal \<Rightarrow> logEntry list \<Rightarrow> logEntry list \<Rightarrow> nat \<Rightarrow> bool" where
  "traced io limit db0 db ops hist d w wr ak dl \<longleftrightarrow> db_wal db = Some w \<and>
     walReach io w (map entryRec wr) (map entryRec ak) (map entryRec (take dl ak)) \<and> dl \<le> length ak \<and>
     entries_step limit ak (dbAbs db0) = Some (dbAbs db) \<and>
     (wr = ak \<or> (wl_err w \<noteq> None \<and> (\<exists>en A. wr = ak @ [en] \<and> pending limit db ops en A))) \<and>
     hist \<noteq> [] \<and> last hist = dbAbs db \<and> d < length hist \<and> states_from limit (dbAbs db0) ak dl (set (drop d hist))"

lemma traced_wal: "traced io limit db0 db ops hist d w wr ak dl \<Longrightarrow> db_wal db = Some w"
  by (simp add: traced_def)

lemma states_from_mono: "states_from limit A0 ak dl S \<Longrightarrow> S \<subseteq> S' \<Longrightarrow> dl \<le> dl' \<Longrightarrow> states_from limit A0 ak dl' S'"
  unfolding states_from_def by (meson order_trans subsetD)

lemma states_from_all: "entries_step limit ak A0 = Some A \<Longrightarrow> states_from limit A0 ak (length ak) {A}"
  by (auto simp: states_from_def)

lemma states_from_add:
  assumes "states_from limit A0 ak dl S" and "entries_step limit (ak @ [en]) A0 = Some A"
  shows "states_from limit A0 (ak @ [en]) dl (insert A S)"
  unfolding states_from_def
proof (intro allI impI)
  fix k
  assume k: "dl \<le> k \<and> k \<le> length (ak @ [en])"
  show "\<exists>B \<in> insert A S. entries_step limit (take k (ak @ [en])) A0 = Some B"
  proof (cases "k \<le> length ak")
    case True
    then show ?thesis using assms(1) k by (auto simp: states_from_def)
  next
    case False
    then have "take k (ak @ [en]) = ak @ [en]" using k by simp
    then show ?thesis using assms(2) by auto
  qed
qed

lemma flushLocked_err: "flushLocked w = (e, w') \<Longrightarrow> wl_err w \<noteq> None \<Longrightarrow> w' = w \<and> e = wl_err w"
  by (auto simp: flushLocked_def)

lemma writeRecord_err:
  assumes "writeRecord t p w = (e, w')"
  shows "e = None \<Longrightarrow> wl_err w = None \<and> \<not> wl_failWrites w" "e \<noteq> None \<Longrightarrow> wl_err w' \<noteq> None" "wl_err w \<noteq> None \<Longrightarrow> w' = w \<and> e = wl_err w"
  using assms by (auto simp: writeRecord_def flushLocked_def Let_def putSegment_def split: option.splits if_splits ioResult.splits)

lemma traced_stmt:
  assumes tr: "traced io limit db0 db ops hist d w wr ak dl" and ok: "stmt_ok limit op db" and eff: "db_effect limit op db db'"
  shows "\<exists>w' wr' ak'. traced io limit db0 db' (ops @ [op]) (hist @ [dbAbs db']) d w' wr' ak' dl"
proof -
  have t: "db_wal db = Some w" "walReach io w (map entryRec wr) (map entryRec ak) (map entryRec (take dl ak))" "dl \<le> length ak"
      "entries_step limit ak (dbAbs db0) = Some (dbAbs db)" "hist \<noteq> []" "last hist = dbAbs db" "d < length hist"
      "states_from limit (dbAbs db0) ak dl (set (drop d hist))"
    and wr: "wr = ak \<or> (wl_err w \<noteq> None \<and> (\<exists>en A. wr = ak @ [en] \<and> pending limit db ops en A))"
    using tr unfolding traced_def by blast+
  have S: "states_from limit (dbAbs db0) ak dl (set (drop d (hist @ [dbAbs db'])))"
    using t(7) by (intro states_from_mono [OF t(8)]) auto
  have keep: "pending limit db' (ops @ [op]) en A" if "pending limit db ops en A" "dbAbs db' = dbAbs db" for en A
    using that by (auto simp: pending_def)
  from eff show ?thesis unfolding db_effect_def
  proof (elim disjE exE conjE)
    assume same: "dbAbs db' = dbAbs db" "db_wal db' = db_wal db"
    have "traced io limit db0 db' (ops @ [op]) (hist @ [dbAbs db']) d w wr ak dl"
      unfolding traced_def using t wr S same keep by auto
    then show ?thesis by blast
  next
    fix en A e
    assume en: "opEntry (dbAbs db) op en" and step: "entry_step limit en (dbAbs db) = Some A"
      and log: "logRecord (fst (entryRec en)) (snd (entryRec en)) (db_wal db) = (e, db_wal db')" and abs: "dbAbs db' = (if e = None then A else dbAbs db)"
    obtain w' where w': "writeRecord (fst (entryRec en)) (snd (entryRec en)) w = (e, w')" "db_wal db' = Some w'"
      using log t(1) by (auto simp: logRecord_def split: prod.splits)
    have small: "rec_ok (fst (entryRec en), snd (entryRec en))" using ok en by (simp add: stmt_ok_def entry_small_def)
    note reach = walReach.writ [OF t(2) small w'(1)]
    note err = writeRecord_err [OF w'(1)]
    show ?thesis
    proof (cases e)
      case None
      then have clean: "wl_err w = None \<and> \<not> wl_failWrites w" using err(1) by simp
      with wr have "wr = ak" by auto
      then have "walReach io w' (map entryRec (ak @ [en])) (map entryRec (ak @ [en])) (map entryRec (take dl (ak @ [en])))"
        using reach None clean t(3) by simp
      moreover have run: "entries_step limit (ak @ [en]) (dbAbs db0) = Some (dbAbs db')" using t(4) step abs None by (simp add: entries_step_append)
      moreover have "states_from limit (dbAbs db0) (ak @ [en]) dl (set (drop d (hist @ [dbAbs db'])))"
        using t(7) by (intro states_from_mono [OF states_from_add [OF t(8) run]]) auto
      ultimately have "traced io limit db0 db' (ops @ [op]) (hist @ [dbAbs db']) d w' (ak @ [en]) (ak @ [en]) dl"
        unfolding traced_def using w'(2) t(3,7) by simp
      then show ?thesis by blast
    next
      case (Some f)
      then have same: "dbAbs db' = dbAbs db" and bad: "wl_err w' \<noteq> None" using abs err(2) by auto
      show ?thesis
      proof (cases "wl_err w = None \<and> \<not> wl_failWrites w")
        case True
        with wr have "wr = ak" by auto
        then have "walReach io w' (map entryRec (ak @ [en])) (map entryRec ak) (map entryRec (take dl ak))" using reach Some True by simp
        moreover have "pending limit db' (ops @ [op]) en A" using en step by (auto simp: pending_def same)
        ultimately have "traced io limit db0 db' (ops @ [op]) (hist @ [dbAbs db']) d w' (ak @ [en]) ak dl"
          unfolding traced_def using w'(2) t S bad by (auto simp: same)
        then show ?thesis by blast
      next
        case False
        then have "walReach io w' (map entryRec wr) (map entryRec ak) (map entryRec (take dl ak))"
          using reach by (auto simp: Some split: if_splits)
        then have "traced io limit db0 db' (ops @ [op]) (hist @ [dbAbs db']) d w' wr ak dl"
          unfolding traced_def using w'(2) t S bad wr keep same by auto
        then show ?thesis by blast
      qed
    qed
  qed
qed

lemma flushTick_err: "wl_err w \<noteq> None \<Longrightarrow> wl_err (flushTick w) \<noteq> None"
  by (auto simp: flushTick_def split: prod.split dest: flushLocked_err)

lemma wal_close_err: "wal_close w = (e, w') \<Longrightarrow> wl_err w \<noteq> None \<Longrightarrow> wl_err w' \<noteq> None"
  by (auto simp: wal_close_def Let_def split: prod.splits option.splits if_splits dest: flushLocked_err)

text \<open>A flush that succeeds makes all of the history durable.\<close>

lemma traced_flush:
  assumes tr: "traced io limit db0 db ops hist d w wr ak dl"
    and reach: "walReach io w' (map entryRec wr) (map entryRec ak) (if e = None then map entryRec ak else map entryRec (take dl ak))"
    and err: "wl_err w \<noteq> None \<longrightarrow> wl_err w' \<noteq> None"
  shows "traced io limit db0 (db\<lparr>db_wal := Some w'\<rparr>) ops hist (if e = None then length hist - 1 else d) w' wr ak (if e = None then length ak else dl)"
proof -
  have t: "dl \<le> length ak" "entries_step limit ak (dbAbs db0) = Some (dbAbs db)" "hist \<noteq> []" "last hist = dbAbs db" "d < length hist"
      "states_from limit (dbAbs db0) ak dl (set (drop d hist))"
    and wr: "wr = ak \<or> (wl_err w \<noteq> None \<and> (\<exists>en A. wr = ak @ [en] \<and> pending limit db ops en A))"
    using tr unfolding traced_def by blast+
  have "drop (length hist - 1) hist = [dbAbs db]" using t(3,4) by (cases hist rule: rev_cases) auto
  then have "states_from limit (dbAbs db0) ak (length ak) (set (drop (length hist - 1) hist))" using states_from_all [OF t(2)] by simp
  moreover have "map entryRec (take (if e = None then length ak else dl) ak) = (if e = None then map entryRec ak else map entryRec (take dl ak))" by simp
  moreover have "pending limit (db\<lparr>db_wal := Some w'\<rparr>) ops = pending limit db ops" by (simp add: pending_def fun_eq_iff)
  ultimately show ?thesis unfolding traced_def using t wr reach err by auto
qed

lemma traced_reach:
  assumes "dbReach seed io limit db0 db ops hist d" and "dbInv seed limit db0"
  shows "dbInv seed limit db \<and> (\<exists>w wr ak dl. traced io limit db0 db ops hist d w wr ak dl)"
  using assms
proof (induction rule: dbReach.induct)
  case start
  have "states_from limit (dbAbs db0) [] 0 {dbAbs db0}" by (simp add: states_from_def)
  then have "traced io limit db0 db0 [] [dbAbs db0] 0 (openWAL [] io) [] [] 0"
    using start walReach.start by (simp add: traced_def)
  with start(2) show ?case by blast
next
  case (stmt db ops hist d op a db')
  then obtain w wr ak dl where tr: "traced io limit db0 db ops hist d w wr ak dl" by blast
  obtain a' db1 where "dbStep seed op db = Some (a', db1)" "dbInv seed limit db1" "db_effect limit op db db1"
    using dbStep_ok [of seed limit db op] stmt by blast
  then have "dbInv seed limit db'" "db_effect limit op db db'" using stmt(3) by simp_all
  with traced_stmt [OF tr stmt(2)] show ?case by blast
next
  case (seal db ops hist d w e w')
  then obtain w1 wr ak dl where tr: "traced io limit db0 db ops hist d w1 wr ak dl" by blast
  then have w: "w1 = w" using seal(2) traced_wal by fastforce
  with tr have reach: "walReach io w (map entryRec wr) (map entryRec ak) (map entryRec (take dl ak))" by (simp add: traced_def)
  have "wl_err w \<noteq> None \<longrightarrow> wl_err w' \<noteq> None" using seal(3) flushLocked_err [of w e w'] by (auto simp: wal_flush_def)
  from traced_flush [OF tr [unfolded w] walReach.seal [OF reach seal(3)] this]
  have "\<exists>w wr ak dl. traced io limit db0 (db\<lparr>db_wal := Some w'\<rparr>) ops hist (if e = None then length hist - 1 else d) w wr ak dl" by blast
  moreover have "dbInv seed limit (db\<lparr>db_wal := Some w'\<rparr>)" using seal by simp
  ultimately show ?case by blast
next
  case (tick db ops hist d w)
  then obtain w1 wr ak dl where tr: "traced io limit db0 db ops hist d w1 wr ak dl" by blast
  then have w: "w1 = w" using tick(2) traced_wal by fastforce
  with tr have reach: "walReach io w (map entryRec wr) (map entryRec ak) (map entryRec (take dl ak))" by (simp add: traced_def)
  have "walReach io (flushTick w) (map entryRec wr) (map entryRec ak) (if Some ErrClosed = None then map entryRec ak else map entryRec (take dl ak))"
    using walReach.tick [OF reach] by simp
  from traced_flush [OF tr [unfolded w] this] flushTick_err [of w]
  have "traced io limit db0 (db\<lparr>db_wal := Some (flushTick w)\<rparr>) ops hist d (flushTick w) wr ak dl" by simp
  moreover have "dbInv seed limit (db\<lparr>db_wal := Some (flushTick w)\<rparr>)" using tick by simp
  ultimately show ?case by blast
next
  case (shut db ops hist d w e w')
  then obtain w1 wr ak dl where tr: "traced io limit db0 db ops hist d w1 wr ak dl" by blast
  then have w: "w1 = w" using shut(2) traced_wal by fastforce
  with tr have reach: "walReach io w (map entryRec wr) (map entryRec ak) (map entryRec (take dl ak))" by (simp add: traced_def)
  have "wl_err w \<noteq> None \<longrightarrow> wl_err w' \<noteq> None" using wal_close_err [OF shut(3)] by blast
  from traced_flush [OF tr [unfolded w] walReach.shut [OF reach shut(3,4)] this]
  have "\<exists>w wr ak dl. traced io limit db0 (db\<lparr>db_wal := Some w'\<rparr>) ops hist (if e = None then length hist - 1 else d) w wr ak dl" by blast
  moreover have "dbInv seed limit (db\<lparr>db_wal := Some w'\<rparr>)" using shut by simp
  ultimately show ?case by blast
qed

section \<open>Replay\<close>

text \<open>A replay whose records are all accepted hands over every sealed record.\<close>

lemma replay_loop_accepted:
  assumes dh: "disk_holds segs disk" and ok: "\<forall>r \<in> set (concat segs). rec_ok r"
  shows "k \<le> length segs \<Longrightarrow> feed app (concat (drop k segs)) st = (None, st') \<Longrightarrow>
    replay_loop disk 0 (Suc k) app onCorrupt [Suc k..<Suc (length segs)] st = (None, st')"
proof (induction "length segs - k" arbitrary: k st)
  case 0
  then show ?case by simp
next
  case (Suc d)
  then have k: "k < length segs" by simp
  have content: "the (map_of disk (Suc k)) = concat (map frame_rec (segs ! k))" using dh k by (simp add: disk_holds_def)
  have okk: "\<forall>r \<in> set (segs ! k). rec_ok r" using ok k by auto
  have cut: "drop k segs = segs ! k # drop (Suc k) segs" using k by (rule Cons_nth_drop_Suc [symmetric])
  then obtain st1 where f: "feed app (segs ! k) st = (None, st1)" "feed app (concat (drop (Suc k) segs)) st1 = (None, st')"
    using Suc.prems(2) by (auto simp: feed_append split: prod.splits option.splits)
  have scan: "scanRecords (the (map_of disk (Suc k))) app st = (None, st1)"
    using scan_records [OF okk, of "[]" app st] f(1) by (simp add: scanRecords_def content)
  have "replay_loop disk 0 (Suc (Suc k)) app onCorrupt [Suc (Suc k)..<Suc (length segs)] st1 = (None, st')"
    using Suc.hyps k f(2) by simp
  moreover have "[Suc k..<Suc (length segs)] = Suc k # [Suc (Suc k)..<Suc (length segs)]" using k by (simp add: upt_rec)
  ultimately show ?case by (simp add: scan del: upt_Suc)
qed

lemma replay_accepted:
  assumes "disk_holds segs disk" and "\<forall>r \<in> set (concat segs). rec_ok r" and "feed app (concat segs) st = (None, st')"
  shows "replayFrom disk 0 app onCorrupt st = (None, st')"
  using replay_loop_accepted [OF assms(1,2), of 0] assms(3) listSegments_holds [OF assms(1)]
  by (simp add: replayFrom_def replaySegments_def del: upt_Suc)

text \<open>The disk holds a prefix of the written records that contains the durable ones.\<close>

lemma disk_prefix:
  assumes "walReach io w written acked durable"
  obtains segs k where "disk_holds segs (wl_disk w)" "\<forall>r \<in> set (concat segs). rec_ok r" "concat segs = take k written"
    "length durable \<le> k" "k \<le> length written"
proof -
  from walReach_inv [OF assms] obtain segs tail where w: "wal_inv segs tail w" "concat segs @ tail = written" "prefix durable (concat segs)"
    by (auto simp: reach_inv_def)
  have ok: "\<forall>r \<in> set (concat segs @ tail). rec_ok r" using w(1) unfolding wal_inv_def by blast
  have len: "length durable \<le> length (concat segs)" using w(3) by (rule prefix_length_le)
  from w(1) consider "disk_holds segs (wl_disk w)" | "disk_holds (segs @ [tail]) (wl_disk w)" unfolding wal_inv_def by blast
  then show thesis
  proof cases
    case 1
    then show thesis using ok len w(2) by (intro that [of segs "length (concat segs)"]) auto
  next
    case 2
    then show thesis using ok len w(2) by (intro that [of "segs @ [tail]" "length written"]) auto
  qed
qed


text \<open>One table created on an empty database and flushed.\<close>

lemma sampleTable_resolved: "resolveSchema [rt_def sampleTable] = Inr [str ''t'' \<mapsto> sampleTable]"
  by (simp add: resolveSchema_def resolveTable_def resolveColumn_def sampleTable_def str_def enumerate_eq_zip partitioned_def)

lemma sampleTable_good: "def_good sampleTable"
  by (simp add: def_good_def sampleTable_def partitioned_def keyOrd_def)


end
