(* ===== verification/Exprs.thy ===== *)
theory Exprs
  imports Schemas "HOL-Library.Monad_Syntax"
begin

text \<open>
  The syntax tree of \<open>ast.go\<close> with the token kinds of \<open>lexer.go\<close>, the interpreter of \<open>eval.go\<close> and the
  compiled row predicates of \<open>filter.go\<close>.

  A run that panics (a row indexed out of range, a nil predicate called) is \<open>None\<close>; a run that
  returns an error is \<open>Some (Inl e)\<close>.  The compiled predicates are proved equal to the interpreter with
  the panics included, so no bound on the row is assumed.
\<close>

section \<open>Tokens and syntax trees\<close>

datatype tokenKind =
    tkEOF | tkIdent | tkInt | tkString | tkParam | tkComma | tkDot | tkLParen | tkRParen | tkSemi
  | tkStar | tkPlus | tkMinus | tkEq | tkNeq | tkLt | tkLte | tkGt | tkGte
  | tkSelect | tkFrom | tkWhere | tkOrder | tkBy | tkAsc | tkDesc | tkLimit | tkOffset
  | tkJoin | tkOn | tkInner | tkLeft | tkRight | tkOuter
  | tkInsert | tkInto | tkValues | tkUpdate | tkSet | tkDelete
  | tkAnd | tkOr | tkNot | tkNull | tkTrue | tkFalse | tkIs | tkCreate | tkTable | tkDrop

text \<open>
  The \<open>expr\<close> interface: \<open>NilExpr\<close> is the nil interface value (an absent \<open>WHERE\<close>).  A column reference
  carries its qualifier, its name and the ordinal bound at plan time (\<open>-1\<close> until then).
\<close>

record colRef =
  cr_qual :: bytes
  cr_name :: bytes
  cr_ord :: int

datatype expr =
    NilExpr
  | ColRef colRef
  | LitValue Value
  | ParamRef int
  | BinOp tokenKind expr expr
  | NotExpr expr
  | IsNullExpr expr bool

record resultCol =
  rc_qual :: bytes
  rc_col :: bytes

record joinClause =
  j_typ :: tokenKind
  j_table :: bytes
  j_alias :: bytes
  j_lref :: colRef
  j_rref :: colRef

record selectStmt =
  s_cols :: "resultCol list"
  s_starAll :: bool
  s_countStar :: bool
  s_table :: bytes
  s_alias :: bytes
  s_joins :: "joinClause list"
  s_where :: expr
  s_orderCol :: bytes
  s_orderQual :: bytes
  s_orderDesc :: bool
  s_limit :: int
  s_offset :: int

record insertStmt =
  i_table :: bytes
  i_cols :: "bytes list"
  i_rows :: "expr list list"

record setAssign =
  set_col :: bytes
  set_val :: expr

record updateStmt =
  u_table :: bytes
  u_sets :: "setAssign list"
  u_where :: expr

record deleteStmt =
  d_table :: bytes
  d_where :: expr

datatype stmt =
    SelectStmt selectStmt
  | InsertStmt insertStmt
  | UpdateStmt updateStmt
  | DeleteStmt deleteStmt
  | CreateStmt TableDef
  | DropStmt bytes

section \<open>The interpreter (eval.go)\<close>

record evalCtx =
  ec_row :: Row
  ec_cols :: "bytes \<Rightarrow> nat option"
  ec_args :: "Value list"

text \<open>\<open>row[i]\<close>: out of range is a panic.\<close>

definition cellAt :: "Row \<Rightarrow> nat \<Rightarrow> Value option" where
  "cellAt row i = (if i < length row then Some (row ! i) else None)"

text \<open>\<open>if err != nil \<open>{\<close> return err \<open>}\<close>\<close>, in a run that may panic.\<close>

definition andThenP :: "'a res option \<Rightarrow> ('a \<Rightarrow> 'b res option) \<Rightarrow> 'b res option" where
  "andThenP m k = (case m of None \<Rightarrow> None | Some (Inl e) \<Rightarrow> Some (Inl e) | Some (Inr x) \<Rightarrow> k x)"

lemma andThenP_simps [simp, res_simps]:
  "andThenP None k = None"
  "andThenP (Some (Inl e)) k = Some (Inl e)"
  "andThenP (Some (Inr x)) k = k x"
  by (simp_all add: andThenP_def)

lemma andThenP_cong [fundef_cong]:
  "m = m' \<Longrightarrow> (\<And>x. m' = Some (Inr x) \<Longrightarrow> k x = k' x) \<Longrightarrow> andThenP m k = andThenP m' k'"
  by (auto simp: andThenP_def split: option.splits sum.splits)

definition truthy :: "Value \<Rightarrow> bool" where
  "truthy v = (if Kind v = KindBool then Value_Int v = 1
               else if Kind v = KindInt then Value_Int v \<noteq> 0 else False)"

definition evalParam :: "Value list \<Rightarrow> int \<Rightarrow> Value res" where
  "evalParam args i = (if i < 0 \<or> i \<ge> int (length args) then Inl ErrParamMismatch else Inr (args ! nat i))"

text \<open>The arithmetic operators: NULL propagates, 64-bit integers wrap.\<close>

definition evalArith :: "tokenKind \<Rightarrow> Value \<Rightarrow> Value \<Rightarrow> Value res" where
  "evalArith op lv rv =
     (if IsNull lv \<or> IsNull rv then Inr NullV
      else andThen (AsInt lv) (\<lambda>a. andThen (AsInt rv) (\<lambda>b.
        case op of tkPlus \<Rightarrow> Inr (IntV (a + b)) | tkMinus \<Rightarrow> Inr (IntV (a - b)) | _ \<Rightarrow> Inr (IntV (a * b)))))"

text \<open>The operators that evaluate both operands; an unknown operator falls out of both switches.\<close>

definition evalBin :: "tokenKind \<Rightarrow> Value \<Rightarrow> Value \<Rightarrow> Value res" where
  "evalBin op lv rv = (case op of
       tkPlus \<Rightarrow> evalArith op lv rv
     | tkMinus \<Rightarrow> evalArith op lv rv
     | tkStar \<Rightarrow> evalArith op lv rv
     | tkEq \<Rightarrow> Inr (BoolV (Value_Equal lv rv))
     | tkNeq \<Rightarrow> Inr (BoolV (\<not> Value_Equal lv rv))
     | _ \<Rightarrow> (let (cmp, ok) = Compare lv rv in
         if \<not> ok then Inr (BoolV False)
         else case op of
            tkLt \<Rightarrow> Inr (BoolV (cmp < 0))
          | tkLte \<Rightarrow> Inr (BoolV (cmp \<le> 0))
          | tkGt \<Rightarrow> Inr (BoolV (cmp > 0))
          | tkGte \<Rightarrow> Inr (BoolV (cmp \<ge> 0))
          | _ \<Rightarrow> Inl (ErrOther ''internal: unknown expr type'')))"

fun evalExpr :: "expr \<Rightarrow> evalCtx \<Rightarrow> Value res option" where
  "evalExpr NilExpr ctx = Some (Inr (BoolV True))"
| "evalExpr (ColRef x) ctx =
     (if cr_ord x \<ge> 0 then map_option Inr (cellAt (ec_row ctx) (nat (cr_ord x)))
      else map_option Inr (cellAt (ec_row ctx) (case ec_cols ctx (cr_name x) of None \<Rightarrow> 0 | Some i \<Rightarrow> i)))"
| "evalExpr (LitValue v) ctx = Some (Inr v)"
| "evalExpr (ParamRef i) ctx = Some (evalParam (ec_args ctx) i)"
| "evalExpr (BinOp op lhs rhs) ctx =
     (if op = tkAnd then
        andThenP (evalExpr lhs ctx) (\<lambda>lv.
          if \<not> truthy lv then Some (Inr (BoolV False))
          else andThenP (evalExpr rhs ctx) (\<lambda>rv. Some (Inr (BoolV (truthy rv)))))
      else if op = tkOr then
        andThenP (evalExpr lhs ctx) (\<lambda>lv.
          if truthy lv then Some (Inr (BoolV True))
          else andThenP (evalExpr rhs ctx) (\<lambda>rv. Some (Inr (BoolV (truthy rv)))))
      else andThenP (evalExpr lhs ctx) (\<lambda>lv. andThenP (evalExpr rhs ctx) (\<lambda>rv. Some (evalBin op lv rv))))"
| "evalExpr (NotExpr e) ctx = andThenP (evalExpr e ctx) (\<lambda>v. Some (Inr (BoolV (\<not> truthy v))))"
| "evalExpr (IsNullExpr e neg) ctx = andThenP (evalExpr e ctx) (\<lambda>v.
     let isn = IsNull v in if neg then Some (Inr (BoolV (\<not> isn))) else Some (Inr (BoolV isn)))"

definition evalLitOrParamValue :: "expr \<Rightarrow> Value list \<Rightarrow> Value res" where
  "evalLitOrParamValue e args = (case e of
       LitValue v \<Rightarrow> Inr v
     | ParamRef i \<Rightarrow> evalParam args i
     | _ \<Rightarrow> Inl (ErrOther ''internal: expected literal or parameter''))"

section \<open>Compiled predicates (filter.go)\<close>

type_synonym rowPred = "Row \<Rightarrow> bool option"

definition resolveOperand :: "expr \<Rightarrow> Value list \<Rightarrow> Value option" where
  "resolveOperand e args = (case e of
       LitValue v \<Rightarrow> Some v
     | ParamRef i \<Rightarrow> if i < 0 \<or> i \<ge> int (length args) then None else Some (args ! nat i)
     | _ \<Rightarrow> None)"

definition compileEq :: "nat \<Rightarrow> Value \<Rightarrow> rowPred" where
  "compileEq ord rhs = (case Kind rhs of
       KindString \<Rightarrow> (let rs = Value_Str rhs in
         (\<lambda>row. do { c \<leftarrow> cellAt row ord; Some (Kind c = KindString \<and> Value_Str c = rs) }))
     | KindInt \<Rightarrow> (let rk = Kind rhs; rw = w0 rhs in
         (\<lambda>row. do { c \<leftarrow> cellAt row ord; Some (Kind c = rk \<and> w0 c = rw) }))
     | KindBool \<Rightarrow> (let rk = Kind rhs; rw = w0 rhs in
         (\<lambda>row. do { c \<leftarrow> cellAt row ord; Some (Kind c = rk \<and> w0 c = rw) }))
     | KindUUID \<Rightarrow> (let a = w0 rhs; b = w1 rhs in
         (\<lambda>row. do { c \<leftarrow> cellAt row ord; Some (Kind c = KindUUID \<and> w0 c = a \<and> w1 c = b) }))
     | _ \<Rightarrow> (\<lambda>row. do { c \<leftarrow> cellAt row ord; Some (Value_Equal c rhs) }))"

text \<open>The test an ordered operator makes of a three-way comparison and of its two operands.\<close>

definition cmpTest :: "tokenKind \<Rightarrow> (int \<Rightarrow> bool) option" where
  "cmpTest op = (case op of
       tkLt \<Rightarrow> Some (\<lambda>c. c < 0) | tkLte \<Rightarrow> Some (\<lambda>c. c \<le> 0)
     | tkGt \<Rightarrow> Some (\<lambda>c. c > 0) | tkGte \<Rightarrow> Some (\<lambda>c. c \<ge> 0) | _ \<Rightarrow> None)"

definition compileOrdGeneric :: "nat \<Rightarrow> tokenKind \<Rightarrow> Value \<Rightarrow> rowPred" where
  "compileOrdGeneric ord op rhs = (case cmpTest op of
       Some test \<Rightarrow> (\<lambda>row. do { cell \<leftarrow> cellAt row ord; let (c, ok) = Compare cell rhs in Some (ok \<and> test c) })
     | None \<Rightarrow> (\<lambda>row. None))"

text \<open>One specialised branch: a cell of the same kind is tested inline, any other one by \<open>Compare\<close>.\<close>

definition ordBranch ::
  "nat \<Rightarrow> ValueKind \<Rightarrow> (Value \<Rightarrow> bool) \<Rightarrow> (int \<Rightarrow> bool) \<Rightarrow> Value \<Rightarrow> rowPred" where
  "ordBranch ord rk inline test rhs = (\<lambda>row. do { c \<leftarrow> cellAt row ord;
     if Kind c = rk then Some (inline c)
     else let (cc, ok) = Compare c rhs in Some (ok \<and> test cc) })"

definition compileOrd :: "nat \<Rightarrow> tokenKind \<Rightarrow> Value \<Rightarrow> rowPred" where
  "compileOrd ord op rhs =
     (if Kind rhs = KindInt \<or> Kind rhs = KindBool then
        (let rk = Kind rhs; rw = sint (Value_Int rhs) in case op of
            tkLt \<Rightarrow> ordBranch ord rk (\<lambda>c. sint (Value_Int c) < rw) (\<lambda>cc. cc < 0) rhs
          | tkLte \<Rightarrow> ordBranch ord rk (\<lambda>c. sint (Value_Int c) \<le> rw) (\<lambda>cc. cc \<le> 0) rhs
          | tkGt \<Rightarrow> ordBranch ord rk (\<lambda>c. sint (Value_Int c) > rw) (\<lambda>cc. cc > 0) rhs
          | tkGte \<Rightarrow> ordBranch ord rk (\<lambda>c. sint (Value_Int c) \<ge> rw) (\<lambda>cc. cc \<ge> 0) rhs
          | _ \<Rightarrow> compileOrdGeneric ord op rhs)
      else if Kind rhs = KindString then
        (let rs = Value_Str rhs in case op of
            tkLt \<Rightarrow> ordBranch ord KindString (\<lambda>c. Value_Str c < rs) (\<lambda>cc. cc < 0) rhs
          | tkLte \<Rightarrow> ordBranch ord KindString (\<lambda>c. Value_Str c \<le> rs) (\<lambda>cc. cc \<le> 0) rhs
          | tkGt \<Rightarrow> ordBranch ord KindString (\<lambda>c. Value_Str c > rs) (\<lambda>cc. cc > 0) rhs
          | tkGte \<Rightarrow> ordBranch ord KindString (\<lambda>c. Value_Str c \<ge> rs) (\<lambda>cc. cc \<ge> 0) rhs
          | _ \<Rightarrow> compileOrdGeneric ord op rhs)
      else compileOrdGeneric ord op rhs)"

definition compileCmp :: "tokenKind \<Rightarrow> expr \<Rightarrow> expr \<Rightarrow> Value list \<Rightarrow> rowPred option" where
  "compileCmp op lhs rhs args = (case lhs of
       ColRef cr \<Rightarrow>
         (if cr_ord cr < 0 then None
          else do { v \<leftarrow> resolveOperand rhs args;
            let o' = nat (cr_ord cr) in case op of
               tkEq \<Rightarrow> Some (compileEq o' v)
             | tkNeq \<Rightarrow> Some (\<lambda>row. map_option Not (compileEq o' v row))
             | tkLt \<Rightarrow> Some (compileOrd o' op v)
             | tkLte \<Rightarrow> Some (compileOrd o' op v)
             | tkGt \<Rightarrow> Some (compileOrd o' op v)
             | tkGte \<Rightarrow> Some (compileOrd o' op v)
             | _ \<Rightarrow> None })
     | _ \<Rightarrow> None)"

fun compileFilter :: "expr \<Rightarrow> Value list \<Rightarrow> rowPred option" where
  "compileFilter (BinOp op lhs rhs) args = (case op of
       tkAnd \<Rightarrow> (case (compileFilter lhs args, compileFilter rhs args) of
           (Some l, Some r) \<Rightarrow> Some (\<lambda>row. do { b \<leftarrow> l row; if b then r row else Some False })
         | _ \<Rightarrow> None)
     | tkOr \<Rightarrow> (case (compileFilter lhs args, compileFilter rhs args) of
           (Some l, Some r) \<Rightarrow> Some (\<lambda>row. do { b \<leftarrow> l row; if b then Some True else r row })
         | _ \<Rightarrow> None)
     | tkEq \<Rightarrow> compileCmp op lhs rhs args
     | tkNeq \<Rightarrow> compileCmp op lhs rhs args
     | tkLt \<Rightarrow> compileCmp op lhs rhs args
     | tkLte \<Rightarrow> compileCmp op lhs rhs args
     | tkGt \<Rightarrow> compileCmp op lhs rhs args
     | tkGte \<Rightarrow> compileCmp op lhs rhs args
     | _ \<Rightarrow> None)"
| "compileFilter (NotExpr e) args = (case compileFilter e args of
       Some inner \<Rightarrow> Some (\<lambda>row. map_option Not (inner row))
     | None \<Rightarrow> None)"
| "compileFilter (IsNullExpr e neg) args = (case e of
       ColRef cr \<Rightarrow> if cr_ord cr \<ge> 0
         then Some (\<lambda>row. do { c \<leftarrow> cellAt row (nat (cr_ord cr)); Some (IsNull c \<noteq> neg) }) else None
     | _ \<Rightarrow> None)"
| "compileFilter _ args = None"

text \<open>\<open>ctx.row = row; v, err := evalExpr(where, ctx); return err == nil && truthy(v)\<close>.\<close>

definition interpMatcher :: "expr \<Rightarrow> evalCtx \<Rightarrow> rowPred" where
  "interpMatcher wher ctx = (\<lambda>row. do { r \<leftarrow> evalExpr wher (ctx\<lparr>ec_row := row\<rparr>);
     case r of Inl e \<Rightarrow> Some False | Inr v \<Rightarrow> Some (truthy v) })"

definition rowMatcher :: "expr \<Rightarrow> evalCtx \<Rightarrow> rowPred" where
  "rowMatcher wher ctx =
     (if wher = NilExpr then (\<lambda>row. Some True)
      else case compileFilter wher (ec_args ctx) of
             Some fast \<Rightarrow> fast
           | None \<Rightarrow> interpMatcher wher ctx)"

fun allMatch :: "rowPred list \<Rightarrow> rowPred" where
  "allMatch [] row = Some True"
| "allMatch (m # ms) row = do { b \<leftarrow> m row; if \<not> b then Some False else allMatch ms row }"

definition conjunctsMatcher :: "expr list \<Rightarrow> evalCtx \<Rightarrow> rowPred" where
  "conjunctsMatcher conjs ctx = (case conjs of
       [] \<Rightarrow> (\<lambda>row. Some True)
     | [c] \<Rightarrow> rowMatcher c ctx
     | _ \<Rightarrow> allMatch (map (\<lambda>c. rowMatcher c ctx) conjs))"

text \<open>\<open>collectConjuncts\<close> (join.go): the conjuncts of an AND-chain, in order, nil nodes dropped.\<close>

fun collectConjuncts :: "expr \<Rightarrow> expr list" where
  "collectConjuncts (BinOp op lhs rhs) =
     (if op = tkAnd then collectConjuncts lhs @ collectConjuncts rhs else [BinOp op lhs rhs])"
| "collectConjuncts NilExpr = []"
| "collectConjuncts e = [e]"

section \<open>The compiled predicate is the interpreter\<close>

lemma truthy_BoolV [simp]: "truthy (BoolV b) = b"
  by (simp add: truthy_def)

lemma evalParam_resolve:
  "resolveOperand e args = Some v \<Longrightarrow> ec_args ctx = args \<Longrightarrow> evalExpr e ctx = Some (Inr v)"
  by (cases e) (auto simp: resolveOperand_def evalParam_def split: if_splits)

lemma compileEq_Equal:
  "compileEq i v row = do { c \<leftarrow> cellAt row i; Some (Value_Equal c v) }"
  by (cases "Kind v"; cases "cellAt row i") (auto simp: compileEq_def Value_Equal_def Let_def)

lemma compileOrdGeneric_Compare:
  "cmpTest op = Some test \<Longrightarrow> compileOrdGeneric i op v row =
     do { c \<leftarrow> cellAt row i; Some (snd (Compare c v) \<and> test (fst (Compare c v))) }"
  by (cases "cellAt row i") (simp_all add: compileOrdGeneric_def case_prod_beta)

lemma ordBranch_Compare:
  assumes "\<And>c. Kind c = rk \<Longrightarrow> snd (Compare c v) \<and> inline c = test (fst (Compare c v))"
  shows "ordBranch i rk inline test v row =
     do { c \<leftarrow> cellAt row i; Some (snd (Compare c v) \<and> test (fst (Compare c v))) }"
  using assms by (cases "cellAt row i") (auto simp: ordBranch_def case_prod_beta)

lemma Compare_int_kind:
  "Kind c = Kind v \<Longrightarrow> Kind v = KindInt \<or> Kind v = KindBool \<Longrightarrow>
     Compare c v = (cmp3 (sint (Value_Int c)) (sint (Value_Int v)), True)"
  by (auto simp: Compare_def)

lemma Compare_str_kind:
  "Kind c = KindString \<Longrightarrow> Kind v = KindString \<Longrightarrow> Compare c v = (cmp3 (Value_Str c) (Value_Str v), True)"
  by (simp add: Compare_def)

lemma compileOrd_Compare:
  assumes "cmpTest op = Some test"
  shows "compileOrd i op v row =
     do { c \<leftarrow> cellAt row i; Some (snd (Compare c v) \<and> test (fst (Compare c v))) }"
proof -
  consider (int) "Kind v = KindInt \<or> Kind v = KindBool" | (st) "Kind v = KindString"
    | (gen) "\<not> (Kind v = KindInt \<or> Kind v = KindBool)" "Kind v \<noteq> KindString" by blast
  then show ?thesis
  proof cases
    case int
    with assms show ?thesis
      by (cases op; simp add: cmpTest_def compileOrd_def Let_def)
         (rule ordBranch_Compare, fastforce simp: Compare_int_kind)+
  next
    case st
    with assms show ?thesis
      by (cases op; simp add: cmpTest_def compileOrd_def Let_def)
         (rule ordBranch_Compare, fastforce simp: Compare_str_kind)+
  next
    case gen
    with assms show ?thesis by (simp add: compileOrd_def compileOrdGeneric_Compare)
  qed
qed

lemma evalBin_ordered:
  "cmpTest op = Some test \<Longrightarrow> evalBin op c v = Inr (BoolV (snd (Compare c v) \<and> test (fst (Compare c v))))"
  by (cases op) (auto simp: cmpTest_def evalBin_def case_prod_beta Let_def)

lemma compileCmp_eval:
  assumes "compileCmp op lhs rhs args = Some f" and "ec_args ctx = args"
  shows "evalExpr (BinOp op lhs rhs) ctx = map_option (\<lambda>b. Inr (BoolV b)) (f (ec_row ctx))"
proof -
  obtain cr where cr: "lhs = ColRef cr" "cr_ord cr \<ge> 0"
    using assms(1) by (cases lhs) (auto simp: compileCmp_def split: if_splits)
  then obtain v where v: "resolveOperand rhs args = Some v"
    using assms(1) by (auto simp: compileCmp_def split: Option.bind_splits)
  note r = evalParam_resolve [OF v assms(2)]
  define i where "i = nat (cr_ord cr)"
  have l: "evalExpr lhs ctx = map_option Inr (cellAt (ec_row ctx) i)" by (simp add: cr i_def)
  consider (eq) "op = tkEq" "f = compileEq i v" | (neq) "op = tkNeq" "f = (\<lambda>row. map_option Not (compileEq i v row))"
    | (cmp) test where "cmpTest op = Some test" "f = compileOrd i op v"
    using assms(1) cr v i_def by (cases op) (auto simp: compileCmp_def cmpTest_def)
  then show ?thesis
  proof cases
    case eq
    then show ?thesis using r l
      by (cases "cellAt (ec_row ctx) i") (simp_all add: compileEq_Equal evalBin_def)
  next
    case neq
    then show ?thesis using r l
      by (cases "cellAt (ec_row ctx) i") (simp_all add: compileEq_Equal evalBin_def)
  next
    case cmp
    then have "op \<noteq> tkAnd" "op \<noteq> tkOr" by (auto simp: cmpTest_def)
    then show ?thesis using r l cmp
      by (cases "cellAt (ec_row ctx) i") (simp_all add: compileOrd_Compare evalBin_ordered)
  qed
qed

lemma compileFilter_BinOp_cases:
  assumes "compileFilter (BinOp op lhs rhs) args = Some f"
  obtains (And) l r where "op = tkAnd" "compileFilter lhs args = Some l" "compileFilter rhs args = Some r"
      "f = (\<lambda>row. do { b \<leftarrow> l row; if b then r row else Some False })"
    | (Or) l r where "op = tkOr" "compileFilter lhs args = Some l" "compileFilter rhs args = Some r"
      "f = (\<lambda>row. do { b \<leftarrow> l row; if b then Some True else r row })"
    | (Cmp) "compileCmp op lhs rhs args = Some f"
  using assms by (cases op) (auto split: option.splits)

lemma compileFilter_eval:
  "compileFilter e args = Some f \<Longrightarrow> ec_args ctx = args \<Longrightarrow>
     evalExpr e ctx = map_option (\<lambda>b. Inr (BoolV b)) (f (ec_row ctx))"
proof (induction e arbitrary: f)
  case (BinOp op lhs rhs)
  from BinOp.prems(1) show ?case
  proof (cases rule: compileFilter_BinOp_cases)
    case (And l r)
    with BinOp.IH(1)[OF And(2) BinOp.prems(2)] BinOp.IH(2)[OF And(3) BinOp.prems(2)] show ?thesis
      by (cases "l (ec_row ctx)"; cases "r (ec_row ctx)") auto
  next
    case (Or l r)
    with BinOp.IH(1)[OF Or(2) BinOp.prems(2)] BinOp.IH(2)[OF Or(3) BinOp.prems(2)] show ?thesis
      by (cases "l (ec_row ctx)"; cases "r (ec_row ctx)") auto
  next
    case Cmp
    then show ?thesis using BinOp.prems(2) by (rule compileCmp_eval)
  qed
next
  case (NotExpr e)
  then obtain g where g: "compileFilter e args = Some g" "f = (\<lambda>row. map_option Not (g row))"
    by (auto split: option.splits)
  with NotExpr.IH[OF g(1)] NotExpr.prems(2) show ?case
    by (cases "g (ec_row ctx)") auto
next
  case (IsNullExpr e neg)
  then obtain cr where "e = ColRef cr" "cr_ord cr \<ge> 0"
      "f = (\<lambda>row. do { c \<leftarrow> cellAt row (nat (cr_ord cr)); Some (IsNull c \<noteq> neg) })"
    by (cases e) (auto split: if_splits)
  then show ?case by (cases "cellAt (ec_row ctx) (nat (cr_ord cr))") (auto simp: Let_def)
qed simp_all

lemma rowMatcher_interp: "rowMatcher e ctx = interpMatcher e ctx"
proof (rule ext)
  fix row
  show "rowMatcher e ctx row = interpMatcher e ctx row"
  proof (cases "compileFilter e (ec_args ctx)")
    case None
    then show ?thesis by (cases "e = NilExpr") (simp_all add: rowMatcher_def interpMatcher_def)
  next
    case (Some f)
    then have "e \<noteq> NilExpr" by auto
    moreover have "evalExpr e (ctx\<lparr>ec_row := row\<rparr>) = map_option (\<lambda>b. Inr (BoolV b)) (f row)"
      using compileFilter_eval [OF Some, of "ctx\<lparr>ec_row := row\<rparr>"] by simp
    ultimately show ?thesis using Some
      by (cases "f row") (simp_all add: rowMatcher_def interpMatcher_def)
  qed
qed

section \<open>Conjuncts\<close>

lemma allMatch_append:
  "allMatch (xs @ ys) row = do { b \<leftarrow> allMatch xs row; if b then allMatch ys row else Some False }"
proof (induction xs)
  case (Cons m ms)
  then show ?case by (cases "m row") auto
qed simp

lemma interp_conjuncts:
  "interpMatcher e ctx row = allMatch (map (\<lambda>c. interpMatcher c ctx) (collectConjuncts e)) row"
proof (induction e rule: collectConjuncts.induct)
  case (1 op lhs rhs)
  show ?case
  proof (cases "op = tkAnd")
    case True
    let ?c = "ctx\<lparr>ec_row := row\<rparr>"
    have "interpMatcher (BinOp op lhs rhs) ctx row =
        do { b \<leftarrow> interpMatcher lhs ctx row; if b then interpMatcher rhs ctx row else Some False }"
      using True
      by (cases "evalExpr lhs ?c"; cases "evalExpr rhs ?c") (auto simp: interpMatcher_def andThenP_def split: sum.splits)
    with True 1 show ?thesis by (auto simp: allMatch_append split: Option.bind_splits)
  next
    case False
    then show ?thesis by (cases "interpMatcher (BinOp op lhs rhs) ctx row") auto
  qed
next
  case 2
  then show ?case by (simp add: interpMatcher_def)
qed (auto split: Option.bind_splits)

lemma conjunctsMatcher_all: "conjunctsMatcher cs ctx row = allMatch (map (\<lambda>c. interpMatcher c ctx) cs) row"
proof (cases cs)
  case (Cons c rest)
  show ?thesis
  proof (cases rest)
    case Nil
    with Cons show ?thesis by (cases "interpMatcher c ctx row") (auto simp: conjunctsMatcher_def rowMatcher_interp)
  next
    case (Cons d ds)
    with \<open>cs = c # rest\<close> show ?thesis by (simp only: conjunctsMatcher_def rowMatcher_interp list.case)
  qed
qed (simp add: conjunctsMatcher_def)

section \<open>Properties\<close>

text \<open>
  C28.  The predicate a scan applies to a row, compiled or not, is the interpreter: it is true when the
  expression evaluates to a true value, false when it evaluates to anything else or to an error, and
  it panics exactly when the interpreter does.  Every operand kind, the comparisons across kinds and
  NULLs included, so a query answers the same whether or not its \<open>WHERE\<close> is of a compiled shape.
\<close>

theorem rowMatcher_is_interpreter:
  "rowMatcher wher ctx row = (case evalExpr wher (ctx\<lparr>ec_row := row\<rparr>) of
       None \<Rightarrow> None
     | Some (Inl e) \<Rightarrow> Some False
     | Some (Inr v) \<Rightarrow> Some (truthy v))"
  by (simp add: rowMatcher_interp interpMatcher_def split: option.splits sum.splits)

text \<open>
  C29.  Testing the conjuncts of a \<open>WHERE\<close> one by one, as the index walks and the join do, is testing
  the whole \<open>WHERE\<close>: same answer for every row, errors and panics included.
\<close>

theorem conjunctsMatcher_is_where:
  "conjunctsMatcher (collectConjuncts wher) ctx row = rowMatcher wher ctx row"
  by (simp add: conjunctsMatcher_all rowMatcher_interp interp_conjuncts [symmetric])

end
