(* ===== verification/TopN.thy ===== *)
theory TopN
  imports Exprs StoreTypes "HOL-Library.Multiset"
begin

text \<open>
  \<open>exec_select.go\<close>: LIMIT and OFFSET, the sort of the result, and the bounded heap \<open>topN\<close> behind
  \<open>ORDER BY ... LIMIT\<close>.

  A kept row lives in a slot that travels with its heap entry and is overwritten only together with the
  entry, so entries carry the row itself.  \<open>None\<close> is a panic.
\<close>

section \<open>LIMIT and OFFSET\<close>

text \<open>Go's \<open>int\<close> has 64 bits: a sum wraps.\<close>

definition wrap64 :: "int \<Rightarrow> int" where
  "wrap64 i = sint (word_of_int i :: uint64)"

definition fetchBound :: "int \<Rightarrow> int \<Rightarrow> int" where
  "fetchBound lim off = (if lim < 0 then -1 else wrap64 (lim + off))"

definition sliceOffsetLimit :: "'r list \<Rightarrow> int \<Rightarrow> int \<Rightarrow> 'r list" where
  "sliceOffsetLimit rows off lim =
     (if off > 0 \<and> off \<ge> int (length rows) then []
      else let rows1 = (if off > 0 then drop (nat off) rows else rows)
           in if lim \<ge> 0 \<and> lim < int (length rows1) then take (nat lim) rows1 else rows1)"

section \<open>Sorting\<close>

text \<open>
  \<open>slices.SortFunc\<close> on at most 12 elements is this insertion sort, each element moving left past the
  ones it compares below; on longer slices the library's order of equal elements is its own.
\<close>

fun sink_left :: "('a \<Rightarrow> 'a \<Rightarrow> int) \<Rightarrow> 'a \<Rightarrow> 'a list \<Rightarrow> 'a list" where
  "sink_left cmp x [] = [x]"
| "sink_left cmp x (y # ys) = (if cmp x y < 0 then y # sink_left cmp x ys else x # y # ys)"

definition slices_SortFunc :: "('a \<Rightarrow> 'a \<Rightarrow> int) \<Rightarrow> 'a list \<Rightarrow> 'a list" where
  "slices_SortFunc cmp xs = rev (fold (sink_left cmp) xs [])"

text \<open>The comparison of the sorts: incomparable cells (a NULL, two kinds) count as equal.\<close>

definition orderCmp :: "bool \<Rightarrow> Value \<Rightarrow> Value \<Rightarrow> int" where
  "orderCmp desc a b = (let (c, ok) = Compare a b in if \<not> ok then 0 else if desc then - c else c)"

definition sortRowsByCol :: "Row list \<Rightarrow> nat \<Rightarrow> bool \<Rightarrow> Row list" where
  "sortRowsByCol rows ord desc = slices_SortFunc (\<lambda>a b. orderCmp desc (a ! ord) (b ! ord)) rows"

definition projectRows :: "Row list \<Rightarrow> bool \<Rightarrow> nat list \<Rightarrow> Row list" where
  "projectRows matched starAll ords =
     (if starAll then matched else map (\<lambda>r. map (\<lambda>ord. r ! ord) ords) matched)"

section \<open>The bounded heap\<close>

type_synonym topEntry = "Value \<times> Row"

text \<open>\<open>tn_proj = None\<close> keeps the whole row.\<close>

record topN =
  tn_ord :: nat
  tn_desc :: bool
  tn_capN :: int
  tn_proj :: "nat list option"
  tn_h :: "topEntry list"

definition projOrNil :: "bool \<Rightarrow> nat list \<Rightarrow> nat list option" where
  "projOrNil starAll ords = (if starAll then None else Some ords)"

definition newTop :: "nat \<Rightarrow> bool \<Rightarrow> int \<Rightarrow> nat list option \<Rightarrow> topN" where
  "newTop ord desc capN proj = \<lparr>tn_ord = ord, tn_desc = desc, tn_capN = capN, tn_proj = proj, tn_h = []\<rparr>"

definition evictable :: "bool \<Rightarrow> Value \<Rightarrow> Value \<Rightarrow> bool" where
  "evictable desc a b = (let (c, ok) = Compare a b in if \<not> ok then False else if desc then c < 0 else c > 0)"

definition take_row :: "nat list option \<Rightarrow> Row \<Rightarrow> Row" where
  "take_row proj r = (case proj of None \<Rightarrow> Row_Clone r | Some ords \<Rightarrow> map (\<lambda>ord. cloneValue (r ! ord)) ords)"

definition swap :: "nat \<Rightarrow> nat \<Rightarrow> 'a list \<Rightarrow> 'a list" where
  "swap i j xs = xs[i := xs ! j, j := xs ! i]"

text \<open>
  The two heap loops over entries, \<open>worse a b\<close> being the test of their keys: an appended entry rises, a
  replaced root sinks.
\<close>

function sift_up :: "('e \<Rightarrow> 'e \<Rightarrow> bool) \<Rightarrow> nat \<Rightarrow> 'e list \<Rightarrow> 'e list" where
  "sift_up worse i h =
     (if i > 0 then
        let p = (i - 1) div 2 in
        if \<not> worse (h ! i) (h ! p) then h else sift_up worse p (swap i p h)
      else h)"
  by pat_completeness auto

termination
  by (relation "measure (\<lambda>(d, i, h). i)") auto

declare sift_up.simps [simp del]

definition worstChild :: "('e \<Rightarrow> 'e \<Rightarrow> bool) \<Rightarrow> nat \<Rightarrow> 'e list \<Rightarrow> nat" where
  "worstChild worse i h =
     (let n = length h; l = 2 * i + 1; rr = 2 * i + 2;
          w = (if l < n \<and> worse (h ! l) (h ! i) then l else i)
      in if rr < n \<and> worse (h ! rr) (h ! w) then rr else w)"

lemma worstChild_cases: "worstChild worse i h = i \<or> (i < worstChild worse i h \<and> worstChild worse i h < length h \<and>
   (worstChild worse i h = 2 * i + 1 \<or> worstChild worse i h = 2 * i + 2))"
  by (auto simp: worstChild_def Let_def)

function sift_down :: "('e \<Rightarrow> 'e \<Rightarrow> bool) \<Rightarrow> nat \<Rightarrow> 'e list \<Rightarrow> 'e list" where
  "sift_down worse i h =
     (let w = worstChild worse i h in if w = i then h else sift_down worse w (swap i w h))"
  by pat_completeness auto

termination
proof (relation "measure (\<lambda>(d, i, h). length h - i)")
  fix worse :: "'e \<Rightarrow> 'e \<Rightarrow> bool" and i h w
  assume "w = worstChild worse i h" "w \<noteq> i"
  then show "((worse, w, swap i w h), worse, i, h) \<in> measure (\<lambda>(d, i, h). length h - i)"
    using worstChild_cases [of worse i h] by (auto simp: swap_def)
qed simp

declare sift_down.simps [simp del]

definition entryWorse :: "bool \<Rightarrow> topEntry \<Rightarrow> topEntry \<Rightarrow> bool" where
  "entryWorse desc a b = evictable desc (fst a) (fst b)"

text \<open>\<open>offer\<close>: below the bound the entry is appended, else it replaces the root if the root is worse.\<close>

definition top_offer :: "Row \<Rightarrow> topN \<Rightarrow> topN option" where
  "top_offer r t = do {
     cell \<leftarrow> cellAt r (tn_ord t);
     let key = cloneValue cell; h = tn_h t in
     if int (length h) < tn_capN t then
       Some (t\<lparr>tn_h := sift_up (entryWorse (tn_desc t)) (length h) (h @ [(key, take_row (tn_proj t) r)])\<rparr>)
     else if h = [] then None
     else if \<not> evictable (tn_desc t) (fst (h ! 0)) key then Some t
     else Some (t\<lparr>tn_h := sift_down (entryWorse (tn_desc t)) 0 (h[0 := (key, take_row (tn_proj t) r)])\<rparr>)
   }"

definition top_collect :: "Row \<Rightarrow> topN \<Rightarrow> topN option" where
  "top_collect r t = do {
     cell \<leftarrow> cellAt r (tn_ord t);
     Some (t\<lparr>tn_h := tn_h t @ [(cloneValue cell, take_row (tn_proj t) r)]\<rparr>)
   }"

definition top_sorted :: "topN \<Rightarrow> Row list" where
  "top_sorted t = map snd (slices_SortFunc (\<lambda>a b. orderCmp (tn_desc t) (fst a) (fst b)) (tn_h t))"


section \<open>Heaps over a weak order\<close>

text \<open>
  What the heap needs of the test \<open>worse\<close> on the entries it holds: it is a strict weak order.
\<close>

locale evict_order =
  fixes S :: "'e set" and worse :: "'e \<Rightarrow> 'e \<Rightarrow> bool"
  assumes asym: "a \<in> S \<Longrightarrow> b \<in> S \<Longrightarrow> worse a b \<Longrightarrow> \<not> worse b a"
    and neg_trans: "a \<in> S \<Longrightarrow> b \<in> S \<Longrightarrow> c \<in> S \<Longrightarrow> worse a c \<Longrightarrow> worse a b \<or> worse b c"
begin

lemma irrefl: "a \<in> S \<Longrightarrow> \<not> worse a a"
  using asym by blast

lemma trans: "a \<in> S \<Longrightarrow> b \<in> S \<Longrightarrow> c \<in> S \<Longrightarrow> worse a b \<Longrightarrow> worse b c \<Longrightarrow> worse a c"
  using asym neg_trans by blast

definition heap :: "'e list \<Rightarrow> bool" where
  "heap h \<longleftrightarrow> (\<forall>j. 0 < j \<and> j < length h \<longrightarrow> \<not> worse (h ! j) (h ! ((j - 1) div 2)))"

text \<open>A heap but for entry \<open>i\<close>, which may be worse than its parent (rising) or better than its children (sinking).\<close>

definition rising :: "nat \<Rightarrow> 'e list \<Rightarrow> bool" where
  "rising i h \<longleftrightarrow> (\<forall>j. 0 < j \<and> j < length h \<and> j \<noteq> i \<longrightarrow> \<not> worse (h ! j) (h ! ((j - 1) div 2))) \<and>
     (\<forall>j. 0 < i \<and> 0 < j \<and> j < length h \<and> (j - 1) div 2 = i \<longrightarrow> \<not> worse (h ! j) (h ! ((i - 1) div 2)))"

definition sinking :: "nat \<Rightarrow> 'e list \<Rightarrow> bool" where
  "sinking i h \<longleftrightarrow> (\<forall>j. 0 < j \<and> j < length h \<and> (j - 1) div 2 \<noteq> i \<longrightarrow> \<not> worse (h ! j) (h ! ((j - 1) div 2))) \<and>
     (\<forall>j. 0 < i \<and> 0 < j \<and> j < length h \<and> (j - 1) div 2 = i \<longrightarrow> \<not> worse (h ! j) (h ! ((i - 1) div 2)))"

lemma swap_nth: "i < length h \<Longrightarrow> p < length h \<Longrightarrow> j < length h \<Longrightarrow> swap i p h ! j = (if j = i then h ! p else if j = p then h ! i else h ! j)"
  by (auto simp: swap_def nth_list_update)

lemma in_S: "set h \<subseteq> S \<Longrightarrow> j < length h \<Longrightarrow> h ! j \<in> S"
  using nth_mem by blast

lemma sift_up_step:
  assumes S: "set h \<subseteq> S" and i: "0 < i" "i < length h" and r: "rising i h" and w: "worse (h ! i) (h ! ((i - 1) div 2))"
  shows "rising ((i - 1) div 2) (swap i ((i - 1) div 2) h)"
proof -
  define p where "p = (i - 1) div 2"
  have p: "p < i" "p < length h" using i by (auto simp: p_def)
  note nth = swap_nth [OF i(2) p(2)]
  have r1: "\<not> worse (h ! j) (h ! ((j - 1) div 2))" if "0 < j" "j < length h" "j \<noteq> i" for j using r that by (simp add: rising_def)
  have r2: "\<not> worse (h ! j) (h ! p)" if "0 < j" "j < length h" "(j - 1) div 2 = i" for j using r that i(1) by (simp add: rising_def p_def)
  have par: "(j - 1) div 2 < length h" if "j < length h" for j using that by linarith
  show ?thesis
    unfolding p_def [symmetric] rising_def
  proof (intro conjI allI impI)
    fix j assume j: "0 < j \<and> j < length (swap i p h) \<and> j \<noteq> p"
    then have jl: "j < length h" by (simp add: swap_def)
    note S' = in_S [OF S jl] in_S [OF S i(2)] in_S [OF S p(2)]
    consider (i) "j = i" | (child) "j \<noteq> i" "(j - 1) div 2 = i" | (sibling) "j \<noteq> i" "(j - 1) div 2 = p" | (other) "j \<noteq> i" "(j - 1) div 2 \<noteq> i" "(j - 1) div 2 \<noteq> p" by blast
    then show "\<not> worse (swap i p h ! j) (swap i p h ! ((j - 1) div 2))"
    proof cases
      case i
      have "(j - 1) div 2 = p" by (simp add: i p_def)
      then show ?thesis using asym [OF S'(2,3)] w [folded p_def] p i assms(3) by (simp add: nth)
    next
      case child
      then show ?thesis using r2 [of j] j jl i p by (simp add: nth)
    next
      case sibling
      then have "\<not> worse (h ! j) (h ! p)" using r1 [of j] j jl by simp
      then have "\<not> worse (h ! j) (h ! i)" using trans [OF S'(1,2,3)] w [folded p_def] by blast
      then show ?thesis using sibling j jl p by (simp add: nth)
    next
      case other
      then show ?thesis using r1 [of j] j jl by (simp add: nth par)
    qed
  next
    fix j assume j: "0 < p \<and> 0 < j \<and> j < length (swap i p h) \<and> (j - 1) div 2 = p"
    then have jl: "j < length h" by (simp add: swap_def)
    let ?g = "(p - 1) div 2"
    have "0 < p" using j by simp
    then have g: "?g < p" by linarith
    then have g': "?g < length h" using p by linarith
    have gp: "\<not> worse (h ! p) (h ! ?g)" using r1 [of p] j p by simp
    note S' = in_S [OF S jl] in_S [OF S p(2)] in_S [OF S g']
    show "\<not> worse (swap i p h ! j) (swap i p h ! ?g)"
    proof (cases "j = i")
      case True
      then show ?thesis using gp g g' p i(2) by (simp add: nth)
    next
      case False
      then have "\<not> worse (h ! j) (h ! p)" using r1 [of j] j jl by simp
      then have "\<not> worse (h ! j) (h ! ?g)" using gp neg_trans [OF S'] by blast
      moreover have "j \<noteq> p" using j p by auto
      ultimately show ?thesis using False g g' p jl by (simp add: nth)
    qed
  qed
qed

lemma sift_up_heap: "set h \<subseteq> S \<Longrightarrow> i < length h \<Longrightarrow> rising i h \<Longrightarrow> heap (sift_up worse i h) \<and> mset (sift_up worse i h) = mset h"
proof (induction i arbitrary: h rule: less_induct)
  case (less i h)
  let ?p = "(i - 1) div 2"
  show ?case
  proof (cases "i > 0 \<and> worse (h ! i) (h ! ?p)")
    case False
    then have "sift_up worse i h = h" by (subst sift_up.simps) (auto simp: Let_def)
    moreover have "heap h" using False less.prems(3) by (auto simp: heap_def rising_def)
    ultimately show ?thesis by simp
  next
    case True
    then have p: "?p < i" "?p < length h" using less.prems(2) by auto
    have e: "sift_up worse i h = sift_up worse ?p (swap i ?p h)" using True by (subst sift_up.simps) (simp add: Let_def)
    have m: "mset (swap i ?p h) = mset h" using p less.prems(2) by (simp add: swap_def mset_swap)
    then have s: "set (swap i ?p h) \<subseteq> S" using less.prems(1) mset_eq_setD by blast
    have "heap (sift_up worse ?p (swap i ?p h)) \<and> mset (sift_up worse ?p (swap i ?p h)) = mset (swap i ?p h)"
      using True p sift_up_step [OF less.prems(1) _ less.prems(2,3)] by (intro less.IH s) (simp_all add: swap_def)
    then show ?thesis unfolding e m .
  qed
qed

lemma worstChild_spec:
  assumes S: "set h \<subseteq> S" and w: "worstChild worse i h = w" and j: "0 < j" "j < length h" "(j - 1) div 2 = i" and i: "i < length h"
  shows "w = i \<Longrightarrow> \<not> worse (h ! j) (h ! i)" and "w \<noteq> i \<Longrightarrow> j \<noteq> w \<Longrightarrow> \<not> worse (h ! j) (h ! w)"
proof -
  have jc: "j = 2 * i + 1 \<or> j = 2 * i + 2" using j by linarith
  show "w = i \<Longrightarrow> \<not> worse (h ! j) (h ! i)" using w jc j(2) by (auto simp: worstChild_def Let_def split: if_splits)
  assume n: "w \<noteq> i" "j \<noteq> w"
  have "\<not> worse (h ! (2 * i + 1)) (h ! (2 * i + 2))" if "2 * i + 2 < length h" "w = 2 * i + 2"
    using that w asym [OF in_S [OF S, of "2 * i + 2"] in_S [OF S, of "2 * i + 1"]]
      trans [OF in_S [OF S, of "2 * i + 1"] in_S [OF S, of "2 * i + 2"] in_S [OF S i]]
    by (auto simp: worstChild_def Let_def split: if_splits)
  moreover have "\<not> worse (h ! (2 * i + 2)) (h ! (2 * i + 1))" if "2 * i + 2 < length h" "w = 2 * i + 1"
    using that w by (auto simp: worstChild_def Let_def split: if_splits)
  ultimately show "\<not> worse (h ! j) (h ! w)" using n jc j(2) worstChild_cases [of worse i h] w by auto
qed

lemma worstChild_worse:
  assumes S: "set h \<subseteq> S" and i: "i < length h" and n: "worstChild worse i h \<noteq> i"
  shows "worse (h ! worstChild worse i h) (h ! i)"
proof -
  have t: "worse (h ! (2 * i + 2)) (h ! i)" if "2 * i + 2 < length h" "worse (h ! (2 * i + 2)) (h ! (2 * i + 1))" "worse (h ! (2 * i + 1)) (h ! i)"
    using that by (intro trans [of "h ! (2 * i + 2)" "h ! (2 * i + 1)" "h ! i"] in_S [OF S] i) simp_all
  show ?thesis using n t by (auto simp: worstChild_def Let_def split: if_splits)
qed

lemma sift_down_step:
  assumes S: "set h \<subseteq> S" and i: "i < length h" and r: "sinking i h" and n: "worstChild worse i h \<noteq> i"
  shows "sinking (worstChild worse i h) (swap i (worstChild worse i h) h)"
proof -
  define w where "w = worstChild worse i h"
  have w: "i < w" "w < length h" "(w - 1) div 2 = i" using worstChild_cases [of worse i h] n by (auto simp: w_def)
  note nth = swap_nth [OF i w(2)]
  have r1: "\<not> worse (h ! j) (h ! ((j - 1) div 2))" if "0 < j" "j < length h" "(j - 1) div 2 \<noteq> i" for j using r that by (simp add: sinking_def)
  have r2: "\<not> worse (h ! j) (h ! ((i - 1) div 2))" if "0 < i" "0 < j" "j < length h" "(j - 1) div 2 = i" for j using r that by (simp add: sinking_def)
  have par: "(j - 1) div 2 < length h" if "j < length h" for j using that by linarith
  show ?thesis
    unfolding w_def [symmetric] sinking_def
  proof (intro conjI allI impI)
    fix j assume j: "0 < j \<and> j < length (swap i w h) \<and> (j - 1) div 2 \<noteq> w"
    then have jl: "j < length h" by (simp add: swap_def)
    consider (w) "j = w" | (sib) "j \<noteq> w" "(j - 1) div 2 = i" | (i) "j = i" | (other) "j \<noteq> w" "j \<noteq> i" "(j - 1) div 2 \<noteq> i" by blast
    then show "\<not> worse (swap i w h ! j) (swap i w h ! ((j - 1) div 2))"
    proof cases
      case w
      have "\<not> worse (h ! i) (h ! w)"
        using asym [OF in_S [OF S \<open>w < length h\<close>] in_S [OF S i]] worstChild_worse [OF S i n] by (simp add: w_def)
      then show ?thesis using w \<open>(w - 1) div 2 = i\<close> \<open>w < length h\<close> \<open>i < w\<close> i by (simp add: nth)
    next
      case sib
      have "\<not> worse (h ! j) (h ! w)" using worstChild_spec(2) [OF S w_def [symmetric] _ jl sib(2) i] j sib(1) w(1) by simp
      moreover have "j \<noteq> i" using sib(2) j by linarith
      ultimately show ?thesis using sib jl i w by (simp add: nth)
    next
      case i': i
      have "(i - 1) div 2 \<noteq> i" "(i - 1) div 2 \<noteq> w" using i' j w(1) by linarith+
      then show ?thesis using r2 [of w] i' j w i par [OF i] by (simp add: nth)
    next
      case other
      then show ?thesis using r1 [of j] j jl par [OF jl] by (simp add: nth)
    qed
  next
    fix j assume j: "0 < w \<and> 0 < j \<and> j < length (swap i w h) \<and> (j - 1) div 2 = w"
    then have jl: "j < length h" by (simp add: swap_def)
    have "j \<noteq> i" "j \<noteq> w" using j w(1) by auto
    then show "\<not> worse (swap i w h ! j) (swap i w h ! ((w - 1) div 2))" using r1 [of j] j jl w i by (simp add: nth)
  qed
qed

lemma sift_down_heap: "set h \<subseteq> S \<Longrightarrow> i < length h \<Longrightarrow> sinking i h \<Longrightarrow> heap (sift_down worse i h) \<and> mset (sift_down worse i h) = mset h"
proof (induction "length h - i" arbitrary: i h rule: less_induct)
  case less
  let ?w = "worstChild worse i h"
  show ?case
  proof (cases "?w = i")
    case True
    then have "sift_down worse i h = h" by (subst sift_down.simps) (simp add: Let_def)
    moreover have "heap h"
      using worstChild_spec(1) [OF less.prems(1) True _ _ _ less.prems(2)] less.prems(3) by (auto simp: heap_def sinking_def)
    ultimately show ?thesis by simp
  next
    case False
    then have w: "i < ?w" "?w < length h" using worstChild_cases [of worse i h] by auto
    have e: "sift_down worse i h = sift_down worse ?w (swap i ?w h)" using False by (subst sift_down.simps) (simp add: Let_def)
    have m: "mset (swap i ?w h) = mset h" using w less.prems(2) by (simp add: swap_def mset_swap)
    then have s: "set (swap i ?w h) \<subseteq> S" using less.prems(1) mset_eq_setD by blast
    have "heap (sift_down worse ?w (swap i ?w h)) \<and> mset (sift_down worse ?w (swap i ?w h)) = mset (swap i ?w h)"
      using w sift_down_step [OF less.prems(1,2,3) False] by (intro less.hyps s) (simp_all add: swap_def)
    then show ?thesis unfolding e m .
  qed
qed

lemma heap_root: "set h \<subseteq> S \<Longrightarrow> heap h \<Longrightarrow> j < length h \<Longrightarrow> \<not> worse (h ! j) (h ! 0)"
proof (induction j rule: less_induct)
  case (less j)
  show ?case
  proof (cases "j = 0")
    case True
    then show ?thesis using irrefl in_S less.prems by blast
  next
    case False
    let ?p = "(j - 1) div 2"
    have p: "?p < j" "?p < length h" using False less.prems(3) by auto
    have "\<not> worse (h ! ?p) (h ! 0)" using less.IH [OF p(1) less.prems(1,2) p(2)] .
    moreover have "\<not> worse (h ! j) (h ! ?p)" using less.prems(2,3) False by (simp add: heap_def)
    moreover have "0 < length h" using p by linarith
    ultimately show ?thesis using neg_trans [OF in_S [OF less.prems(1,3)] in_S [OF less.prems(1) p(2)] in_S [OF less.prems(1)]] by blast
  qed
qed

text \<open>
  The entries a bounded heap keeps of those offered: the best ones, every dropped entry being no better
  than any kept one.
\<close>

definition keeps :: "int \<Rightarrow> 'e list \<Rightarrow> 'e list \<Rightarrow> bool" where
  "keeps cap h xs \<longleftrightarrow> heap h \<and> int (length h) \<le> cap \<and> (\<exists>dropped. mset h + mset dropped = mset xs \<and>
     (\<forall>k \<in> set h. \<forall>d \<in> set dropped. \<not> worse k d) \<and> (dropped \<noteq> [] \<longrightarrow> int (length h) = cap))"

lemma keeps_append:
  assumes k: "keeps cap h xs" and S: "set xs \<subseteq> S" "e \<in> S" and l: "int (length h) < cap"
  shows "keeps cap (sift_up worse (length h) (h @ [e])) (xs @ [e])"
proof -
  obtain dropped where d: "mset h + mset dropped = mset xs" "dropped \<noteq> [] \<longrightarrow> int (length h) = cap" and h: "heap h" using k by (auto simp: keeps_def)
  then have e: "mset h = mset xs" using l by simp
  then have hS: "set h \<subseteq> S" using S mset_eq_setD [OF e] by simp
  have "\<not> worse ((h @ [e]) ! j) ((h @ [e]) ! ((j - 1) div 2))" if "0 < j" "j < length h" for j
  proof -
    have "(j - 1) div 2 < length h" using that by linarith
    then show ?thesis using h that by (simp add: heap_def nth_append)
  qed
  moreover have "(j - 1) div 2 \<noteq> length h" if "0 < j" "j < Suc (length h)" for j using that by linarith
  ultimately have "rising (length h) (h @ [e])" by (auto simp: rising_def less_Suc_eq)
  then have u: "heap (sift_up worse (length h) (h @ [e])) \<and> mset (sift_up worse (length h) (h @ [e])) = mset (h @ [e])"
    using hS S(2) by (intro sift_up_heap) simp_all
  then have "length (sift_up worse (length h) (h @ [e])) = Suc (length h)" using mset_eq_length by fastforce
  then show ?thesis using u e l by (auto simp: keeps_def)
qed

lemma keeps_reject:
  assumes k: "keeps cap h xs" and S: "set xs \<subseteq> S" "e \<in> S" and l: "\<not> int (length h) < cap" and ne: "h \<noteq> []" and w: "\<not> worse (h ! 0) e"
  shows "keeps cap h (xs @ [e])"
proof -
  obtain dropped where d: "mset h + mset dropped = mset xs" "\<forall>k \<in> set h. \<forall>d \<in> set dropped. \<not> worse k d" and h: "heap h" "int (length h) \<le> cap"
    using k by (auto simp: keeps_def)
  have hS: "set h \<subseteq> S" using arg_cong [OF d(1), of set_mset] S(1) by auto
  have "\<not> worse k e" if m: "k \<in> set h" for k
  proof -
    obtain j where "j < length h" "k = h ! j" using m by (auto simp: in_set_conv_nth)
    then have "\<not> worse k (h ! 0)" using heap_root [OF hS h(1)] by simp
    then show ?thesis using w neg_trans [of k "h ! 0" e] m hS S(2) ne by (auto simp: in_S)
  qed
  then show ?thesis using d h l by (auto simp: keeps_def intro!: exI [of _ "e # dropped"])
qed

lemma keeps_replace:
  assumes k: "keeps cap h xs" and S: "set xs \<subseteq> S" "e \<in> S" and l: "\<not> int (length h) < cap" and ne: "h \<noteq> []" and w: "worse (h ! 0) e"
  shows "keeps cap (sift_down worse 0 (h[0 := e])) (xs @ [e])"
proof -
  obtain dropped where d: "mset h + mset dropped = mset xs" "\<forall>k \<in> set h. \<forall>d \<in> set dropped. \<not> worse k d" and h: "heap h" "int (length h) \<le> cap"
    using k by (auto simp: keeps_def)
  have all: "set h \<union> set dropped \<subseteq> S" using arg_cong [OF d(1), of set_mset] S(1) by simp
  then have hS: "set h \<subseteq> S" by simp
  obtain r h' where hh: "h = r # h'" using ne by (cases h) auto
  let ?n = "h[0 := e]"
  have "sinking 0 ?n" using h(1) by (auto simp: sinking_def heap_def nth_list_update)
  then have u: "heap (sift_down worse 0 ?n) \<and> mset (sift_down worse 0 ?n) = mset ?n"
    using hS S(2) ne by (intro sift_down_heap) (auto simp: hh)
  have len: "length (sift_down worse 0 ?n) = length h" using u mset_eq_length by fastforce
  have kept: "set (sift_down worse 0 ?n) = set (e # h')" using u mset_eq_setD [of "sift_down worse 0 ?n" "?n"] by (simp add: hh)
  have "\<not> worse k x" if kr: "k \<in> set (e # h')" "x \<in> set (r # dropped)" for k x
  proof -
    have kx: "k \<in> S" "x \<in> S" "r \<in> S" "e \<in> S" using kr all S(2) by (auto simp: hh)
    have "\<not> worse k r"
    proof (cases "k = e")
      case True
      then show ?thesis using asym [OF kx(3,4)] w by (auto simp: hh)
    next
      case False
      then have "k \<in> set h" using kr(1) by (simp add: hh)
      then obtain j where "j < length h" "k = h ! j" by (auto simp: in_set_conv_nth)
      then show ?thesis using heap_root [OF hS h(1)] by (simp add: hh)
    qed
    moreover have "\<not> worse k x" if "x \<in> set dropped"
    proof (cases "k = e")
      case True
      have "\<not> worse r x" using d(2) that by (simp add: hh)
      then show ?thesis using trans [OF kx(3,4,2)] w True by (auto simp: hh)
    next
      case False
      then show ?thesis using d(2) that \<open>k \<in> set (e # h')\<close> by (auto simp: hh)
    qed
    ultimately show ?thesis using kr(2) by auto
  qed
  moreover have "mset (sift_down worse 0 ?n) + mset (r # dropped) = mset (xs @ [e])" using u d(1) by (simp add: hh)
  ultimately show ?thesis using u h l len unfolding keeps_def by (intro conjI exI [of _ "r # dropped"]) (simp_all add: kept)
qed

end

section \<open>The sort\<close>

lemma sink_left_mset: "mset (sink_left cmp x ys) = add_mset x (mset ys)"
  by (induction ys) auto

lemma sink_left_set: "set (sink_left cmp x ys) = insert x (set ys)"
  by (induction ys) auto

lemma slices_SortFunc_mset: "mset (slices_SortFunc cmp xs) = mset xs"
proof -
  have "mset (fold (sink_left cmp) xs acc) = mset xs + mset acc" for acc
    by (induction xs arbitrary: acc) (auto simp: sink_left_mset)
  then show ?thesis by (simp add: slices_SortFunc_def)
qed

text \<open>A comparison that is a weak order on the elements sorts them.\<close>

lemma sink_left_sorted:
  assumes "\<And>a b c. a \<in> S \<Longrightarrow> b \<in> S \<Longrightarrow> c \<in> S \<Longrightarrow> cmp a b \<le> 0 \<Longrightarrow> cmp b c \<le> 0 \<Longrightarrow> cmp a c \<le> 0"
    and "\<And>a b. a \<in> S \<Longrightarrow> b \<in> S \<Longrightarrow> cmp a b < 0 \<longleftrightarrow> cmp b a > (0 :: int)"
  shows "insert x (set ys) \<subseteq> S \<Longrightarrow> sorted_wrt (\<lambda>a b. cmp b a \<le> 0) ys \<Longrightarrow> sorted_wrt (\<lambda>a b. cmp b a \<le> 0) (sink_left cmp x ys)"
proof (induction ys)
  case (Cons y ys)
  show ?case
  proof (cases "cmp x y < 0")
    case True
    then show ?thesis using Cons by (auto simp: sink_left_set)
  next
    case False
    have yx: "cmp y x \<le> 0" using assms(2) [of x y] False Cons.prems(1) by simp
    have "cmp z x \<le> 0" if "z \<in> set ys" for z
    proof -
      have "cmp z y \<le> 0" using Cons.prems(2) that by simp
      then show ?thesis using assms(1) [of z y x] yx Cons.prems(1) that by auto
    qed
    then show ?thesis using False yx Cons.prems(2) by simp
  qed
qed simp

lemma slices_SortFunc_sorted:
  assumes "\<And>a b c. a \<in> S \<Longrightarrow> b \<in> S \<Longrightarrow> c \<in> S \<Longrightarrow> cmp a b \<le> 0 \<Longrightarrow> cmp b c \<le> 0 \<Longrightarrow> cmp a c \<le> 0"
    and "\<And>a b. a \<in> S \<Longrightarrow> b \<in> S \<Longrightarrow> cmp a b < 0 \<longleftrightarrow> cmp b a > (0 :: int)" and "set xs \<subseteq> S"
  shows "sorted_wrt (\<lambda>a b. cmp a b \<le> 0) (slices_SortFunc cmp xs)"
proof -
  have "sorted_wrt (\<lambda>a b. cmp b a \<le> 0) (fold (sink_left cmp) xs acc) " if "sorted_wrt (\<lambda>a b. cmp b a \<le> 0) acc" "set xs \<union> set acc \<subseteq> S" for acc
    using that
  proof (induction xs arbitrary: acc)
    case (Cons x xs)
    have "sorted_wrt (\<lambda>a b. cmp b a \<le> 0) (sink_left cmp x acc)"
      by (rule sink_left_sorted [OF assms(1,2)]) (use Cons.prems in auto)
    then show ?case using Cons.prems by (simp add: Cons.IH sink_left_set)
  qed simp
  from this [of "[]"] assms(3) show ?thesis by (simp add: slices_SortFunc_def sorted_wrt_rev)
qed


section \<open>The order of the cells\<close>

text \<open>Cells of one kind other than NULL; on them the test of the heap is the strict part of the sort's comparison.\<close>

definition same_kind :: "ValueKind \<Rightarrow> topEntry set" where
  "same_kind K = {e. Kind (fst e) = K \<and> K \<noteq> KindNull}"

lemma orderCmp_weak:
  assumes "K \<noteq> KindNull" and "Kind a = K" "Kind b = K" "Kind c = K"
  shows "orderCmp desc a b \<le> 0 \<Longrightarrow> orderCmp desc b c \<le> 0 \<Longrightarrow> orderCmp desc a c \<le> 0"
    and "orderCmp desc a b < 0 \<longleftrightarrow> orderCmp desc b a > 0"
    and "evictable desc a b \<longleftrightarrow> orderCmp desc a b > 0"
proof -
  have c: "Compare x y = (cmpKey (sortKey x) (sortKey y), True)" if "Kind x = K" "Kind y = K" for x y
    using that assms(1) by (intro Compare_key) simp_all
  note cs = c [OF assms(2,3)] c [OF assms(3,2)] c [OF assms(3,4)] c [OF assms(2,4)]
  show "orderCmp desc a b \<le> 0 \<Longrightarrow> orderCmp desc b c \<le> 0 \<Longrightarrow> orderCmp desc a c \<le> 0"
    using cmpKey_trans [of "sortKey a" "sortKey b" "sortKey c"] cmpKey_trans [of "sortKey c" "sortKey b" "sortKey a"]
      cmpKey_swap [of "sortKey a" "sortKey b"] cmpKey_swap [of "sortKey b" "sortKey c"] cmpKey_swap [of "sortKey a" "sortKey c"]
    by (auto simp: orderCmp_def cs split: if_splits)
  show "orderCmp desc a b < 0 \<longleftrightarrow> orderCmp desc b a > 0"
    using cmpKey_swap [of "sortKey a" "sortKey b"] by (simp add: orderCmp_def cs)
  show "evictable desc a b \<longleftrightarrow> orderCmp desc a b > 0" by (simp add: orderCmp_def evictable_def cs)
qed

lemma entryWorse_cmp:
  assumes "a \<in> same_kind K" and "b \<in> same_kind K"
  shows "entryWorse desc a b \<longleftrightarrow> orderCmp desc (fst a) (fst b) > 0"
  using assms orderCmp_weak(3) [of K "fst a" "fst b" "fst b" desc] by (simp add: entryWorse_def same_kind_def)

lemma entryCmp_weak:
  assumes "a \<in> same_kind K" and "b \<in> same_kind K" and "c \<in> same_kind K"
  shows "orderCmp desc (fst a) (fst b) \<le> 0 \<Longrightarrow> orderCmp desc (fst b) (fst c) \<le> 0 \<Longrightarrow> orderCmp desc (fst a) (fst c) \<le> 0"
    and "orderCmp desc (fst a) (fst b) < 0 \<longleftrightarrow> orderCmp desc (fst b) (fst a) > 0"
  using assms orderCmp_weak(1,2) [of K "fst a" "fst b" "fst c" desc] by (simp_all add: same_kind_def)

interpretation cells: evict_order "same_kind K" "entryWorse desc" for K desc
proof (unfold_locales, goal_cases)
  case (1 a b)
  then show ?case using entryCmp_weak(2) [OF 1(1,2,2), of desc] by (simp add: entryWorse_cmp)
next
  case (2 a b c)
  then show ?case using entryCmp_weak(1) [OF 2(1,2,3), of desc] by (simp add: entryWorse_cmp) (meson not_less)
qed

text \<open>The heap after offering a list of rows whose order cells have kind \<open>K\<close>.\<close>

definition entryOf :: "topN \<Rightarrow> Row \<Rightarrow> topEntry" where
  "entryOf t r = (cloneValue (r ! tn_ord t), take_row (tn_proj t) r)"

definition same_top :: "topN \<Rightarrow> topN \<Rightarrow> bool" where
  "same_top t t' \<longleftrightarrow> tn_ord t' = tn_ord t \<and> tn_desc t' = tn_desc t \<and> tn_capN t' = tn_capN t \<and> tn_proj t' = tn_proj t"

lemma same_top_entryOf: "same_top t t' \<Longrightarrow> entryOf t' = entryOf t"
  by (simp add: same_top_def entryOf_def fun_eq_iff)

definition kept :: "topN \<Rightarrow> topEntry list \<Rightarrow> bool" where
  "kept t xs \<longleftrightarrow> cells.keeps (tn_desc t) (tn_capN t) (tn_h t) xs"

lemma top_offer_keeps:
  assumes k: "kept t xs" and xs: "set xs \<subseteq> same_kind K"
    and r: "tn_ord t < length r" "entryOf t r \<in> same_kind K" and cap: "0 < tn_capN t"
  obtains t' where "top_offer r t = Some t'" "same_top t t'" "kept t' (xs @ [entryOf t r])"
proof -
  let ?w = "entryWorse (tn_desc t)"
  have off: "top_offer r t = (if int (length (tn_h t)) < tn_capN t then
       Some (t\<lparr>tn_h := sift_up ?w (length (tn_h t)) (tn_h t @ [entryOf t r])\<rparr>)
     else if tn_h t = [] then None
     else if \<not> ?w (tn_h t ! 0) (entryOf t r) then Some t
     else Some (t\<lparr>tn_h := sift_down ?w 0 ((tn_h t)[0 := entryOf t r])\<rparr>))"
    using r(1) by (simp add: top_offer_def cellAt_def entryOf_def entryWorse_def Let_def)
  note k' = k [unfolded kept_def]
  consider (app) "int (length (tn_h t)) < tn_capN t" | (rej) "\<not> int (length (tn_h t)) < tn_capN t" "tn_h t \<noteq> []" "\<not> ?w (tn_h t ! 0) (entryOf t r)"
    | (rep) "\<not> int (length (tn_h t)) < tn_capN t" "tn_h t \<noteq> []" "?w (tn_h t ! 0) (entryOf t r)"
    using cap by fastforce
  then show thesis
  proof cases
    case app
    then show thesis using cells.keeps_append [OF k' xs r(2) app]
      by (intro that [of "t\<lparr>tn_h := sift_up ?w (length (tn_h t)) (tn_h t @ [entryOf t r])\<rparr>"]) (simp_all add: off same_top_def kept_def)
  next
    case rej
    then show thesis using cells.keeps_reject [OF k' xs r(2) rej] by (intro that [of t]) (simp_all add: off same_top_def kept_def)
  next
    case rep
    then show thesis using cells.keeps_replace [OF k' xs r(2) rep]
      by (intro that [of "t\<lparr>tn_h := sift_down ?w 0 ((tn_h t)[0 := entryOf t r])\<rparr>"]) (simp_all add: off same_top_def kept_def)
  qed
qed

fun offer_all :: "Row list \<Rightarrow> topN \<Rightarrow> topN option" where
  "offer_all [] t = Some t"
| "offer_all (r # rs) t = do { t1 \<leftarrow> top_offer r t; offer_all rs t1 }"

lemma offer_all_kept:
  assumes "kept t xs" and "set xs \<subseteq> same_kind K" and "\<forall>r \<in> set rs. tn_ord t < length r \<and> entryOf t r \<in> same_kind K" and "0 < tn_capN t"
  obtains t' where "offer_all rs t = Some t'" "same_top t t'" "kept t' (xs @ map (entryOf t) rs)"
  using assms
proof (induction rs arbitrary: t xs thesis)
  case Nil
  then show ?case by (simp add: same_top_def)
next
  case (Cons r rs)
  obtain t1 where t1: "top_offer r t = Some t1" "same_top t t1" "kept t1 (xs @ [entryOf t r])"
    using top_offer_keeps [OF Cons.prems(2,3) _ _ Cons.prems(5)] Cons.prems(4) by auto
  note e = same_top_entryOf [OF t1(2)]
  have s: "set (xs @ [entryOf t r]) \<subseteq> same_kind K" using Cons.prems(3,4) by simp
  have rs: "\<forall>r \<in> set rs. tn_ord t1 < length r \<and> entryOf t1 r \<in> same_kind K" "0 < tn_capN t1"
    using Cons.prems(4,5) t1(2) by (simp_all add: e) (simp_all add: same_top_def)
  obtain t2 where t2: "offer_all rs t1 = Some t2" "same_top t1 t2" "kept t2 ((xs @ [entryOf t r]) @ map (entryOf t1) rs)"
    by (rule Cons.IH [OF _ t1(3) s rs])
  show ?case using t1 t2 by (intro Cons.prems(1) [of t2]) (simp_all add: e same_top_def)
qed

text \<open>What \<open>sorted\<close> returns: the first \<open>capN\<close> of all the offered rows in order.\<close>

lemma kept_sorted:
  assumes k: "kept t xs" and xs: "set xs \<subseteq> same_kind K"
  obtains es where "mset es = mset xs" "sorted_wrt (\<lambda>a b. orderCmp (tn_desc t) (fst a) (fst b) \<le> 0) es"
    "top_sorted t = map snd (take (nat (tn_capN t)) es)"
proof -
  obtain dropped where d: "mset (tn_h t) + mset dropped = mset xs" "\<forall>k \<in> set (tn_h t). \<forall>d \<in> set dropped. \<not> entryWorse (tn_desc t) k d"
      "dropped \<noteq> [] \<longrightarrow> int (length (tn_h t)) = tn_capN t" "int (length (tn_h t)) \<le> tn_capN t"
    using k by (auto simp: kept_def cells.keeps_def)
  have S: "set (tn_h t) \<subseteq> same_kind K" "set dropped \<subseteq> same_kind K" using arg_cong [OF d(1), of set_mset] xs by auto
  let ?cmp = "\<lambda>a b. orderCmp (tn_desc t) (fst a) (fst b)"
  define es where "es = slices_SortFunc ?cmp (tn_h t) @ slices_SortFunc ?cmp dropped"
  have set: "set (slices_SortFunc ?cmp ys) = set ys" for ys using slices_SortFunc_mset [of ?cmp ys] by (rule mset_eq_setD)
  have m: "mset es = mset xs" using d(1) by (simp add: es_def slices_SortFunc_mset)
  have srt: "sorted_wrt (\<lambda>a b. ?cmp a b \<le> 0) (slices_SortFunc ?cmp ys)" if "set ys \<subseteq> same_kind K" for ys
    by (rule slices_SortFunc_sorted [OF entryCmp_weak [of _ K]]) (use that in auto)
  have "?cmp a b \<le> 0" if "a \<in> set (tn_h t)" "b \<in> set dropped" for a b
    using d(2) that S by (auto simp: entryWorse_cmp [of a K] subset_eq not_less)
  then have s: "sorted_wrt (\<lambda>a b. ?cmp a b \<le> 0) es" using srt [OF S(1)] srt [OF S(2)] by (simp add: es_def sorted_wrt_append set)
  have len: "length (slices_SortFunc ?cmp ys) = length ys" for ys using mset_eq_length [OF slices_SortFunc_mset] .
  have "top_sorted t = map snd (take (nat (tn_capN t)) es)"
  proof (cases "dropped = []")
    case True
    then have "es = slices_SortFunc ?cmp (tn_h t)" by (simp add: es_def slices_SortFunc_def)
    moreover have "length (tn_h t) \<le> nat (tn_capN t)" using d(4) by simp
    ultimately show ?thesis using len [of "tn_h t"] by (simp add: top_sorted_def)
  next
    case False
    then have "nat (tn_capN t) = length (slices_SortFunc ?cmp (tn_h t))" using d(3) len by (metis nat_int)
    then show ?thesis by (simp add: top_sorted_def es_def)
  qed
  then show thesis using m s by (intro that)
qed


section \<open>Properties\<close>

lemma cloneValue_Kind [simp]: "Kind (cloneValue v) = Kind v"
  by (simp add: cloneValue_def BytesV_def split: list.split)

lemma kept_new: "0 \<le> cap \<Longrightarrow> kept (newTop ord desc cap proj) []"
  by (simp add: kept_def cells.keeps_def cells.heap_def newTop_def)

text \<open>
  C36.  \<open>ORDER BY ... LIMIT\<close> through the bounded heap is the sort followed by the cut: after offering
  any rows whose order cells are of one kind and not NULL, no offer panics and \<open>sorted\<close> answers the first
  \<open>capN\<close> entries of the offered rows in the requested order, projected.
\<close>

theorem top_n_best:
  assumes "\<forall>r \<in> set rs. ord < length r \<and> Kind (r ! ord) = K" and "K \<noteq> KindNull" and "0 < cap"
  shows "\<exists>tn es. offer_all rs (newTop ord desc cap proj) = Some tn \<and>
    mset es = mset (map (\<lambda>r. (cloneValue (r ! ord), take_row proj r)) rs) \<and>
    sorted_wrt (\<lambda>a b. orderCmp desc (fst a) (fst b) \<le> 0) es \<and> top_sorted tn = map snd (take (nat cap) es)"
proof -
  let ?t = "newTop ord desc cap proj"
  have rs: "\<forall>r \<in> set rs. tn_ord ?t < length r \<and> entryOf ?t r \<in> same_kind K" "0 < tn_capN ?t"
    using assms by (simp_all add: entryOf_def same_kind_def newTop_def)
  obtain tn where tn: "offer_all rs ?t = Some tn" "same_top ?t tn" "kept tn (map (entryOf ?t) rs)"
    using offer_all_kept [OF kept_new [of cap ord desc proj] _ rs] assms(3) by auto
  have "set (map (entryOf ?t) rs) \<subseteq> same_kind K" using rs by auto
  then obtain es where es: "mset es = mset (map (entryOf ?t) rs)" "sorted_wrt (\<lambda>a b. orderCmp (tn_desc tn) (fst a) (fst b) \<le> 0) es"
      "top_sorted tn = map snd (take (nat (tn_capN tn)) es)" by (rule kept_sorted [OF tn(3)])
  have eo: "entryOf ?t = (\<lambda>r. (cloneValue (r ! ord), take_row proj r))" by (simp add: entryOf_def newTop_def fun_eq_iff)
  have "tn_desc tn = desc" "tn_capN tn = cap" using tn(2) by (simp_all add: same_top_def newTop_def)
  with es [unfolded eo] tn(1) show ?thesis by (intro exI [of _ tn] exI [of _ es]) simp
qed

theorem top_n_best_witness:
  "\<exists>tn es. offer_all [[IntV 5], [IntV 2], [IntV 9]] (newTop 0 False 2 None) = Some tn \<and>
    mset es = mset (map (\<lambda>r. (cloneValue (r ! 0), take_row None r)) [[IntV 5], [IntV 2], [IntV 9]]) \<and>
    sorted_wrt (\<lambda>a b. orderCmp False (fst a) (fst b) \<le> 0) es \<and> top_sorted tn = map snd (take (nat 2) es)"
  by (rule top_n_best [of _ _ KindInt]) (auto simp: IntV_def)



end
