(* ===== verification/Plans.thy ===== *)
theory Plans
  imports Exprs Replays
begin

text \<open>
  \<open>plan.go\<close> for the statements on one table: the checks before planning, the numbering of the
  parameters, the binding of column references, the choice of an access path for each statement
  and the coercion of arguments bound to UUID columns.

  The planner works on pointers: a source expression recorded in the plan is the node of the
  statement's tree.  Here it is the node's value.  Parameters are numbered apart, so equality of values
  is identity of nodes for them; the one place that rewrites a node after planning
  (\<open>bindParamUUIDCoercion\<close>) is applied to the tree and to the recorded sources.  A nil expression is
  \<open>NilExpr\<close>.  The pre-escaped JSON keys of the plan belong to the encoder and are left out, and the
  two-table join has its own planner (\<open>planJoin\<close>).
\<close>

section \<open>Before planning\<close>

fun hasLiteral :: "expr \<Rightarrow> bool" where
  "hasLiteral (LitValue v) = True"
| "hasLiteral (BinOp op lhs rhs) = (hasLiteral lhs \<or> hasLiteral rhs)"
| "hasLiteral (NotExpr e) = hasLiteral e"
| "hasLiteral (IsNullExpr e neg) = hasLiteral e"
| "hasLiteral _ = False"

definition rejectValueLiterals :: "stmt \<Rightarrow> unit res" where
  "rejectValueLiterals st =
     (let bad = (case st of
          SelectStmt s \<Rightarrow> hasLiteral (s_where s)
        | InsertStmt s \<Rightarrow> \<exists>tuple \<in> set (i_rows s). \<exists>e \<in> set tuple. hasLiteral e
        | UpdateStmt s \<Rightarrow> (\<exists>a \<in> set (u_sets s). hasLiteral (set_val a)) \<or> hasLiteral (u_where s)
        | DeleteStmt s \<Rightarrow> hasLiteral (d_where s)
        | _ \<Rightarrow> False)
      in if bad then Inl ErrParse else Inr ())"

text \<open>The running count \<open>n\<close> is threaded through the walk.\<close>

fun numberParams :: "expr \<Rightarrow> int \<Rightarrow> expr \<times> int" where
  "numberParams (ParamRef i) n = (ParamRef n, n + 1)"
| "numberParams (BinOp op lhs rhs) n =
     (let (l, n1) = numberParams lhs n; (r, n2) = numberParams rhs n1 in (BinOp op l r, n2))"
| "numberParams (NotExpr e) n = (let (e', n1) = numberParams e n in (NotExpr e', n1))"
| "numberParams (IsNullExpr e neg) n = (let (e', n1) = numberParams e n in (IsNullExpr e' neg, n1))"
| "numberParams e n = (e, n)"

fun numberAll :: "expr list \<Rightarrow> int \<Rightarrow> expr list \<times> int" where
  "numberAll [] n = ([], n)"
| "numberAll (e # es) n = (let (e', n1) = numberParams e n; (es', n2) = numberAll es n1 in (e' # es', n2))"

fun numberTuples :: "expr list list \<Rightarrow> int \<Rightarrow> expr list list \<times> int" where
  "numberTuples [] n = ([], n)"
| "numberTuples (t # ts) n = (let (t', n1) = numberAll t n; (ts', n2) = numberTuples ts n1 in (t' # ts', n2))"

fun numberSets :: "setAssign list \<Rightarrow> int \<Rightarrow> setAssign list \<times> int" where
  "numberSets [] n = ([], n)"
| "numberSets (a # as) n =
     (let (v, n1) = numberParams (set_val a) n; (as', n2) = numberSets as n1 in (a\<lparr>set_val := v\<rparr> # as', n2))"

definition assignParamIndices :: "stmt \<Rightarrow> stmt \<times> int" where
  "assignParamIndices st = (case st of
       SelectStmt s \<Rightarrow> (let (w, n) = numberParams (s_where s) 0 in (SelectStmt (s\<lparr>s_where := w\<rparr>), n))
     | InsertStmt s \<Rightarrow> (let (ts, n) = numberTuples (i_rows s) 0 in (InsertStmt (s\<lparr>i_rows := ts\<rparr>), n))
     | UpdateStmt s \<Rightarrow>
         (let (as, n) = numberSets (u_sets s) 0; (w, n') = numberParams (u_where s) n
          in (UpdateStmt (s\<lparr>u_sets := as, u_where := w\<rparr>), n'))
     | DeleteStmt s \<Rightarrow> (let (w, n) = numberParams (d_where s) 0 in (DeleteStmt (s\<lparr>d_where := w\<rparr>), n))
     | _ \<Rightarrow> (st, 0))"

section \<open>The plan\<close>

record insCell =
  ic_ord :: nat
  ic_arg :: int
  ic_expr :: expr

definition insCellExpr :: int where
  "insCellExpr = -2"

record plan =
  pl_st :: stmt
  pl_table :: resolvedTable
  pl_nparams :: int
  pl_paramWantUUID :: "bool list"
  pl_projOrdinals :: "nat list"
  pl_colNames :: "bytes list"
  pl_orderOrdinal :: int
  pl_insertOrdinals :: "nat list"
  pl_insertTmpl :: "insCell list list"
  pl_updateOrdinals :: "nat list"
  pl_setRowDependent :: bool
  pl_pkLookup :: bool
  pl_pkProbe :: expr
  pl_countStar :: bool
  pl_countIdxBucket :: bool
  pl_pkSource :: expr
  pl_partLookup :: bool
  pl_partSource :: expr
  pl_idxLookup :: bool
  pl_idxCols :: "nat list"
  pl_idxSrcs :: "expr list"
  pl_idxExact :: bool
  pl_orderWalk :: bool
  pl_compLookup :: bool
  pl_compWalk :: bool
  pl_compOrdinals :: "nat list"
  pl_compPrefixSrcs :: "expr list"
  pl_compResidual :: "expr list"

definition newPlan :: "stmt \<Rightarrow> resolvedTable \<Rightarrow> plan" where
  "newPlan st rt = \<lparr>pl_st = st, pl_table = rt, pl_nparams = 0, pl_paramWantUUID = [],
     pl_projOrdinals = [], pl_colNames = [], pl_orderOrdinal = -1, pl_insertOrdinals = [], pl_insertTmpl = [],
     pl_updateOrdinals = [], pl_setRowDependent = False, pl_pkLookup = False, pl_pkProbe = NilExpr,
     pl_countStar = False, pl_countIdxBucket = False, pl_pkSource = NilExpr, pl_partLookup = False,
     pl_partSource = NilExpr, pl_idxLookup = False, pl_idxCols = [], pl_idxSrcs = [], pl_idxExact = False,
     pl_orderWalk = False, pl_compLookup = False, pl_compWalk = False, pl_compOrdinals = [],
     pl_compPrefixSrcs = [], pl_compResidual = []\<rparr>"

section \<open>Expressions over a table\<close>

definition isLitOrParam :: "expr \<Rightarrow> bool" where
  "isLitOrParam e = (case e of LitValue v \<Rightarrow> True | ParamRef i \<Rightarrow> True | _ \<Rightarrow> False)"

fun exprRefsColumn :: "expr \<Rightarrow> bool" where
  "exprRefsColumn (ColRef cr) = True"
| "exprRefsColumn (BinOp op lhs rhs) = (exprRefsColumn lhs \<or> exprRefsColumn rhs)"
| "exprRefsColumn (NotExpr e) = exprRefsColumn e"
| "exprRefsColumn (IsNullExpr e neg) = exprRefsColumn e"
| "exprRefsColumn _ = False"

definition qualifierMatches :: "bytes \<Rightarrow> bytes \<Rightarrow> bytes \<Rightarrow> bool" where
  "qualifierMatches qual tbl alias \<longleftrightarrow> qual = [] \<or> qual = tbl \<or> alias \<noteq> [] \<and> qual = alias"

text \<open>\<open>validateExpr\<close> binds \<open>x.ord\<close> in the tree; the bound tree is its result.\<close>

fun validateExpr :: "expr \<Rightarrow> resolvedTable \<Rightarrow> bytes \<Rightarrow> expr res" where
  "validateExpr (ColRef x) rt alias =
     (if \<not> qualifierMatches (cr_qual x) (tName (rt_def rt)) alias then Inl ErrUnknownColumn
      else case colByName rt (cr_name x) of
             None \<Rightarrow> Inl ErrUnknownColumn
           | Some o' \<Rightarrow> Inr (ColRef (x\<lparr>cr_ord := int o'\<rparr>)))"
| "validateExpr (BinOp op lhs rhs) rt alias =
     andThen (validateExpr lhs rt alias) (\<lambda>l. andThen (validateExpr rhs rt alias) (\<lambda>r. Inr (BinOp op l r)))"
| "validateExpr (NotExpr e) rt alias = andThen (validateExpr e rt alias) (\<lambda>e'. Inr (NotExpr e'))"
| "validateExpr (IsNullExpr e neg) rt alias = andThen (validateExpr e rt alias) (\<lambda>e'. Inr (IsNullExpr e' neg))"
| "validateExpr e rt alias = Inr e"

text \<open>The equalities of an AND-chain by ordinal; a later one on the same column replaces an earlier one.\<close>

fun collectEqConjuncts :: "expr \<Rightarrow> (nat \<rightharpoonup> expr) \<Rightarrow> (nat \<rightharpoonup> expr)" where
  "collectEqConjuncts (BinOp op lhs rhs) out =
     (if op = tkAnd then collectEqConjuncts rhs (collectEqConjuncts lhs out)
      else if op = tkEq then
        (case (lhs, rhs) of
           (ColRef cr, _) \<Rightarrow>
             if cr_ord cr \<ge> 0 \<and> isLitOrParam rhs then out(nat (cr_ord cr) \<mapsto> rhs)
             else (case rhs of
                ColRef cr' \<Rightarrow> if cr_ord cr' \<ge> 0 \<and> isLitOrParam lhs then out(nat (cr_ord cr') \<mapsto> lhs) else out
              | _ \<Rightarrow> out)
         | (_, ColRef cr) \<Rightarrow> if cr_ord cr \<ge> 0 \<and> isLitOrParam lhs then out(nat (cr_ord cr) \<mapsto> lhs) else out
         | _ \<Rightarrow> out)
      else out)"
| "collectEqConjuncts _ out = out"

text \<open>\<open>colAndLit\<close> (join.go): the column and the value side of an equality, in either order.\<close>

definition colAndLit :: "expr \<Rightarrow> expr \<Rightarrow> (colRef \<times> expr) option" where
  "colAndLit lhs rhs = (case (lhs, rhs) of
       (ColRef cr, _) \<Rightarrow> if isLitOrParam rhs then Some (cr, rhs) else None
     | (_, ColRef cr) \<Rightarrow> if isLitOrParam lhs then Some (cr, lhs) else None
     | _ \<Rightarrow> None)"

definition columnAt :: "resolvedTable \<Rightarrow> nat \<Rightarrow> ColumnDef" where
  "columnAt rt o' = tColumns (rt_def rt) ! o'"

definition detectColEq :: "expr \<Rightarrow> resolvedTable \<Rightarrow> int \<Rightarrow> expr option" where
  "detectColEq e rt ordinal = (case e of
       BinOp op lhs rhs \<Rightarrow>
         if op \<noteq> tkEq then None
         else let name = cName (columnAt rt (nat ordinal)) in
           (case lhs of
              ColRef cr \<Rightarrow> if cr_name cr = name \<and> isLitOrParam rhs then Some rhs else None
            | _ \<Rightarrow> (case rhs of
                ColRef cr \<Rightarrow> if cr_name cr = name \<and> isLitOrParam lhs then Some lhs else None
              | _ \<Rightarrow> None))
     | _ \<Rightarrow> None)"

definition detectPKEq :: "expr \<Rightarrow> resolvedTable \<Rightarrow> expr option" where
  "detectPKEq e rt = detectColEq e rt (pkOrdinal rt)"

section \<open>Access paths\<close>

definition anyNullable :: "resolvedTable \<Rightarrow> nat list \<Rightarrow> bool" where
  "anyNullable rt ords \<longleftrightarrow> (\<exists>o' \<in> set ords. cNullable (columnAt rt o'))"

definition orderedIndexOn :: "resolvedTable \<Rightarrow> nat \<Rightarrow> bool" where
  "orderedIndexOn rt o' \<longleftrightarrow> (\<exists>ri \<in> set (rt_indexes rt). singleOn ri o' \<and> ri_ordered ri)"

definition planPKProbe :: "resolvedTable \<Rightarrow> expr \<Rightarrow> plan \<Rightarrow> plan" where
  "planPKProbe rt wher pl =
     (if wher = NilExpr \<or> pl_pkLookup pl \<or> pl_idxLookup pl \<or> pl_partLookup pl \<or> pl_compLookup pl \<or> pl_compWalk pl \<or> pl_orderWalk pl
      then pl
      else if partitioned rt then pl
      else case collectEqConjuncts wher Map.empty (nat (pkOrdinal rt)) of
             Some src \<Rightarrow> pl\<lparr>pl_pkProbe := src\<rparr>
           | None \<Rightarrow> pl)"

text \<open>The loop that collects the single-column indexed equalities, one pair per index.\<close>

fun idxPairs :: "(nat \<rightharpoonup> expr) \<Rightarrow> resolvedIndex list \<Rightarrow> (nat \<times> expr) list" where
  "idxPairs eqs [] = []"
| "idxPairs eqs (ri # ris) =
     (if length (ri_ordinals ri) \<noteq> 1 then idxPairs eqs ris
      else case eqs (ri_ordinals ri ! 0) of
             Some src \<Rightarrow> (ri_ordinals ri ! 0, src) # idxPairs eqs ris
           | None \<Rightarrow> idxPairs eqs ris)"

definition setIdx :: "(nat \<times> expr) list \<Rightarrow> plan \<Rightarrow> plan" where
  "setIdx ps pl = pl\<lparr>pl_idxCols := map fst ps, pl_idxSrcs := map snd ps, pl_idxLookup := ps \<noteq> []\<rparr>"

definition planIndexEq :: "resolvedTable \<Rightarrow> expr \<Rightarrow> plan \<Rightarrow> plan" where
  "planIndexEq rt wher pl =
     (if wher = NilExpr \<or> rt_indexes rt = [] then pl
      else setIdx (idxPairs (collectEqConjuncts wher Map.empty) (rt_indexes rt)) pl)"

fun pinned_run :: "(nat \<rightharpoonup> expr) \<Rightarrow> nat list \<Rightarrow> nat" where
  "pinned_run eqs [] = 0"
| "pinned_run eqs (o' # os) = (case eqs o' of None \<Rightarrow> 0 | Some e \<Rightarrow> Suc (pinned_run eqs os))"

definition compositePrefix :: "resolvedTable \<Rightarrow> resolvedIndex \<Rightarrow> (nat \<rightharpoonup> expr) \<Rightarrow> nat" where
  "compositePrefix rt ri eqs =
     (if length (ri_ordinals ri) < 2 \<or> \<not> ri_ordered ri \<or> anyNullable rt (ri_ordinals ri) then 0
      else pinned_run eqs (ri_ordinals ri))"

definition prefixSrcs :: "resolvedIndex \<Rightarrow> (nat \<rightharpoonup> expr) \<Rightarrow> nat \<Rightarrow> expr list" where
  "prefixSrcs ri eqs k = map (\<lambda>j. case eqs (ri_ordinals ri ! j) of Some e \<Rightarrow> e | None \<Rightarrow> NilExpr) [0..<k]"

text \<open>The conjuncts a pinned prefix does not guarantee: all but the recorded pin equalities.\<close>

definition isPin :: "(nat \<rightharpoonup> expr) \<Rightarrow> nat list \<Rightarrow> expr \<Rightarrow> bool" where
  "isPin eqs pinned c = (case c of
       BinOp op lhs rhs \<Rightarrow> op = tkEq \<and> (case colAndLit lhs rhs of
          Some (cr, val) \<Rightarrow> cr_ord cr \<ge> 0 \<and> nat (cr_ord cr) \<in> set pinned \<and> eqs (nat (cr_ord cr)) = Some val
        | None \<Rightarrow> False)
     | _ \<Rightarrow> False)"

definition walkUsable :: "resolvedTable \<Rightarrow> (nat \<rightharpoonup> expr) \<Rightarrow> int \<Rightarrow> resolvedIndex \<Rightarrow> bool" where
  "walkUsable rt eqs orderOrdinal ri =
     (let k = compositePrefix rt ri eqs in \<not> (k = 0 \<or> k \<ge> length (ri_ordinals ri) \<or> int (ri_ordinals ri ! k) \<noteq> orderOrdinal))"

definition planCompositeWalk :: "resolvedTable \<Rightarrow> expr \<Rightarrow> (nat \<rightharpoonup> expr) \<Rightarrow> int \<Rightarrow> plan \<Rightarrow> plan option" where
  "planCompositeWalk rt wher eqs orderOrdinal pl =
     (if orderOrdinal < 0 then None
      else case List.find (walkUsable rt eqs orderOrdinal) (rt_indexes rt) of
             None \<Rightarrow> None
           | Some ri \<Rightarrow> (let k = compositePrefix rt ri eqs in
               Some (pl\<lparr>pl_compOrdinals := ri_ordinals ri, pl_compPrefixSrcs := prefixSrcs ri eqs k, pl_compWalk := True,
                 pl_compResidual := filter (\<lambda>c. \<not> isPin eqs (take k (ri_ordinals ri)) c) (collectConjuncts wher)\<rparr>)))"

definition planCompositeLookup :: "resolvedTable \<Rightarrow> (nat \<rightharpoonup> expr) \<Rightarrow> plan \<Rightarrow> plan" where
  "planCompositeLookup rt eqs pl =
     (case List.find (\<lambda>ri. compositePrefix rt ri eqs \<noteq> 0) (rt_indexes rt) of
        None \<Rightarrow> pl
      | Some ri \<Rightarrow> pl\<lparr>pl_compOrdinals := ri_ordinals ri, pl_compPrefixSrcs := prefixSrcs ri eqs (compositePrefix rt ri eqs),
          pl_compLookup := True\<rparr>)"

section \<open>Planning a statement\<close>

text \<open>The ordinals of the projection, its names, and the ORDER BY column.\<close>

definition projColumn :: "selectStmt \<Rightarrow> resolvedTable \<Rightarrow> resultCol \<Rightarrow> nat list \<Rightarrow> nat list res" where
  "projColumn s rt c ords =
     (if \<not> qualifierMatches (rc_qual c) (s_table s) (s_alias s) then Inl ErrUnknownColumn
      else case colByName rt (rc_col c) of None \<Rightarrow> Inl ErrUnknownColumn | Some o' \<Rightarrow> Inr (ords @ [o']))"

definition planProjection :: "selectStmt \<Rightarrow> resolvedTable \<Rightarrow> plan \<Rightarrow> plan res" where
  "planProjection s rt pl =
     (if s_countStar s then Inr (pl\<lparr>pl_countStar := True, pl_colNames := [str ''count'']\<rparr>)
      else if s_starAll s then Inr (pl\<lparr>pl_colNames := map cName (tColumns (rt_def rt))\<rparr>)
      else andThen (for_each (projColumn s rt) (s_cols s) [])
        (\<lambda>ords. Inr (pl\<lparr>pl_projOrdinals := ords, pl_colNames := map rc_col (s_cols s)\<rparr>)))"

definition planOrder :: "selectStmt \<Rightarrow> resolvedTable \<Rightarrow> plan \<Rightarrow> plan res" where
  "planOrder s rt pl =
     (if s_orderCol s = [] then Inr pl
      else if \<not> qualifierMatches (s_orderQual s) (s_table s) (s_alias s) then Inl ErrUnknownColumn
      else case colByName rt (s_orderCol s) of
             None \<Rightarrow> Inl ErrUnknownColumn
           | Some o' \<Rightarrow> Inr (pl\<lparr>pl_orderOrdinal := int o'\<rparr>))"

text \<open>The access path of a non-nil WHERE (already bound).\<close>

definition isBareEq :: "expr \<Rightarrow> bool" where
  "isBareEq e = (case e of BinOp op lhs rhs \<Rightarrow> op = tkEq | _ \<Rightarrow> False)"

definition planIndexes :: "resolvedTable \<Rightarrow> expr \<Rightarrow> plan \<Rightarrow> plan" where
  "planIndexes rt wher pl =
     (let eqs = collectEqConjuncts wher Map.empty;
          pl1 = (case planCompositeWalk rt wher eqs (pl_orderOrdinal pl) pl of
              Some pl' \<Rightarrow> pl'
            | None \<Rightarrow>
                (let pl' = setIdx (idxPairs eqs (rt_indexes rt)) pl in
                 if pl_idxLookup pl' then pl'\<lparr>pl_idxExact := length (collectConjuncts wher) = length (pl_idxCols pl')\<rparr>
                 else planCompositeLookup rt eqs pl'))
      in if pl_countStar pl1 \<and> pl_idxLookup pl1 \<and> length (pl_idxCols pl1) = 1 \<and> isBareEq wher
         then pl1\<lparr>pl_countIdxBucket := True\<rparr> else pl1)"

definition planWhere :: "resolvedTable \<Rightarrow> expr \<Rightarrow> plan \<Rightarrow> plan" where
  "planWhere rt wher pl =
     (if wher = NilExpr then pl
      else case detectPKEq wher rt of
             Some src \<Rightarrow> pl\<lparr>pl_pkLookup := True, pl_pkSource := src\<rparr>
           | None \<Rightarrow>
               if partitioned rt then
                 (case detectColEq wher rt (partitionOrdinal rt) of
                    Some src \<Rightarrow> pl\<lparr>pl_partLookup := True, pl_partSource := src\<rparr>
                  | None \<Rightarrow> pl)
               else if rt_indexes rt \<noteq> [] then planIndexes rt wher pl
               else pl)"

definition planOrderWalk :: "selectStmt \<Rightarrow> resolvedTable \<Rightarrow> plan \<Rightarrow> plan" where
  "planOrderWalk s rt pl =
     (if s_orderCol s \<noteq> [] \<and> \<not> pl_idxLookup pl \<and> \<not> pl_compLookup pl \<and> \<not> pl_compWalk pl \<and>
         orderedIndexOn rt (nat (pl_orderOrdinal pl)) \<and> \<not> cNullable (columnAt rt (nat (pl_orderOrdinal pl)))
      then pl\<lparr>pl_orderWalk := True\<rparr> else pl)"

definition planSelect :: "resolvedTable \<Rightarrow> selectStmt \<Rightarrow> plan res" where
  "planSelect rt s =
     andThen (planProjection s rt (newPlan (SelectStmt s) rt)) (\<lambda>pl1.
     andThen (planOrder s rt pl1) (\<lambda>pl2.
     andThen (validateExpr (s_where s) rt (s_alias s)) (\<lambda>wher.
       let s' = s\<lparr>s_where := wher\<rparr> in
       Inr (planPKProbe rt wher (planOrderWalk s' rt (planWhere rt wher (pl2\<lparr>pl_st := SelectStmt s'\<rparr>)))))))"

definition insertColumn :: "resolvedTable \<Rightarrow> bytes \<Rightarrow> nat list \<Rightarrow> nat list res" where
  "insertColumn rt c ords = (case colByName rt c of
       None \<Rightarrow> Inl ErrUnknownColumn
     | Some o' \<Rightarrow> if o' \<in> set ords then Inl ErrParse else Inr (ords @ [o']))"

text \<open>
  One VALUES tuple: \<open>tuple[i]\<close> for every listed column.  The parser makes every tuple as long as the
  column list; a shorter one would panic, here an error of its own.
\<close>

definition insertCell :: "nat \<times> expr \<Rightarrow> insCell list \<Rightarrow> insCell list res" where
  "insertCell oe cells =
     (if exprRefsColumn (snd oe) then Inl ErrParse
      else Inr (cells @ [case snd oe of
          ParamRef i \<Rightarrow> \<lparr>ic_ord = fst oe, ic_arg = i, ic_expr = NilExpr\<rparr>
        | e \<Rightarrow> \<lparr>ic_ord = fst oe, ic_arg = insCellExpr, ic_expr = e\<rparr>]))"

definition insertTuple :: "nat list \<Rightarrow> expr list \<Rightarrow> insCell list list \<Rightarrow> insCell list list res" where
  "insertTuple ords tuple tmpls =
     (if length tuple < length ords then Inl (ErrOther ''index out of range'')
      else andThen (for_each insertCell (zip ords tuple) []) (\<lambda>tmpl. Inr (tmpls @ [tmpl])))"

definition omittedColumn :: "resolvedTable \<Rightarrow> nat list \<Rightarrow> nat \<Rightarrow> unit \<Rightarrow> unit res" where
  "omittedColumn rt ords o' u =
     (if o' \<notin> set ords \<and> int o' \<noteq> pkOrdinal rt \<and> \<not> cNullable (columnAt rt o') then Inl (ErrOther ''column is NOT NULL'')
      else Inr ())"

definition planInsert :: "resolvedTable \<Rightarrow> insertStmt \<Rightarrow> plan res" where
  "planInsert rt s =
     andThen (for_each (insertColumn rt) (i_cols s) []) (\<lambda>ords.
     andThen (for_each (insertTuple ords) (i_rows s) []) (\<lambda>tmpls.
     andThen (for_each (omittedColumn rt ords) [0..<length (tColumns (rt_def rt))] ()) (\<lambda>u.
       Inr ((newPlan (InsertStmt s) rt)\<lparr>pl_insertOrdinals := ords, pl_insertTmpl := tmpls\<rparr>))))"

text \<open>One assignment: its column must be writable, its right-hand side must be well formed.\<close>

definition planSet :: "resolvedTable \<Rightarrow> setAssign \<Rightarrow> setAssign list \<times> nat list \<times> bool \<Rightarrow> (setAssign list \<times> nat list \<times> bool) res" where
  "planSet rt a acc = (case acc of (done', ords, dep) \<Rightarrow>
     (case colByName rt (set_col a) of
        None \<Rightarrow> Inl ErrUnknownColumn
      | Some o' \<Rightarrow>
          if int o' = pkOrdinal rt then Inl ErrPKUpdate
          else if int o' = partitionOrdinal rt then Inl ErrPKUpdate
          else if cImmutable (columnAt rt o') then Inl ErrPKUpdate
          else andThen (validateExpr (set_val a) rt []) (\<lambda>v.
            Inr (done' @ [a\<lparr>set_val := v\<rparr>], ords @ [o'], dep \<or> exprRefsColumn v))))"

definition planWriteWhere :: "resolvedTable \<Rightarrow> expr \<Rightarrow> plan \<Rightarrow> plan" where
  "planWriteWhere rt wher pl =
     (if wher = NilExpr then pl
      else case detectPKEq wher rt of
             Some src \<Rightarrow> pl\<lparr>pl_pkLookup := True, pl_pkSource := src\<rparr>
           | None \<Rightarrow> planPKProbe rt wher (planIndexEq rt wher pl))"

definition planUpdate :: "resolvedTable \<Rightarrow> updateStmt \<Rightarrow> plan res" where
  "planUpdate rt s =
     andThen (for_each (planSet rt) (u_sets s) ([], [], False)) (\<lambda>acc. case acc of (sets, ords, dep) \<Rightarrow>
     andThen (validateExpr (u_where s) rt []) (\<lambda>wher.
       Inr (planWriteWhere rt wher ((newPlan (UpdateStmt (s\<lparr>u_sets := sets, u_where := wher\<rparr>)) rt)
         \<lparr>pl_updateOrdinals := ords, pl_setRowDependent := dep\<rparr>))))"

definition planDelete :: "resolvedTable \<Rightarrow> deleteStmt \<Rightarrow> plan res" where
  "planDelete rt s =
     andThen (validateExpr (d_where s) rt []) (\<lambda>wher.
       Inr (planWriteWhere rt wher (newPlan (DeleteStmt (s\<lparr>d_where := wher\<rparr>)) rt)))"

section \<open>Arguments of UUID columns\<close>

definition isUUIDCol :: "plan \<Rightarrow> colRef \<Rightarrow> bool" where
  "isUUIDCol pl cr =
     (let cols = tColumns (rt_def (pl_table pl)) in
      case (if cr_ord cr < 0 then colByName (pl_table pl) (cr_name cr) else Some (nat (cr_ord cr))) of
        None \<Rightarrow> False
      | Some o' \<Rightarrow> o' < length cols \<and> cType (cols ! o') = TypeUUID)"

text \<open>\<open>markValue\<close>: a parameter is marked, a string literal that is a UUID is rewritten.\<close>

definition markValue :: "expr \<Rightarrow> bool list \<Rightarrow> expr \<times> bool list" where
  "markValue val want = (case val of
       ParamRef i \<Rightarrow> (val, if i \<ge> 0 \<and> i < int (length want) then want[nat i := True] else want)
     | LitValue v \<Rightarrow> ((if Kind v = KindString then
          (case ParseUUID (Value_Str v) of Inr u \<Rightarrow> LitValue (UUIDVal u) | Inl e \<Rightarrow> val) else val), want)
     | _ \<Rightarrow> (val, want))"

definition isCmp :: "tokenKind \<Rightarrow> bool" where
  "isCmp op = (op \<in> {tkEq, tkNeq, tkLt, tkLte, tkGt, tkGte})"

definition isUUIDColExpr :: "plan \<Rightarrow> expr \<Rightarrow> bool" where
  "isUUIDColExpr pl e = (case e of ColRef cr \<Rightarrow> isUUIDCol pl cr | _ \<Rightarrow> False)"

fun walkWhere :: "plan \<Rightarrow> expr \<Rightarrow> bool list \<Rightarrow> expr \<times> bool list" where
  "walkWhere pl (BinOp op lhs rhs) want =
     (if op = tkAnd \<or> op = tkOr then
        (let (l, w1) = walkWhere pl lhs want; (r, w2) = walkWhere pl rhs w1 in (BinOp op l r, w2))
      else if isCmp op then
        (let (r, w1) = (if isUUIDColExpr pl lhs then markValue rhs want else (rhs, want));
             (l, w2) = (if isUUIDColExpr pl r then markValue lhs w1 else (lhs, w1))
         in (BinOp op l r, w2))
      else (BinOp op lhs rhs, want))"
| "walkWhere pl (NotExpr e) want = (let (e', w) = walkWhere pl e want in (NotExpr e', w))"
| "walkWhere pl e want = (e, want)"

fun walkSets :: "plan \<Rightarrow> setAssign list \<Rightarrow> bool list \<Rightarrow> setAssign list \<times> bool list" where
  "walkSets pl [] want = ([], want)"
| "walkSets pl (a # as) want =
     (let cols = tColumns (rt_def (pl_table pl));
          hit = (case colByName (pl_table pl) (set_col a) of None \<Rightarrow> False | Some o' \<Rightarrow> o' < length cols \<and> cType (cols ! o') = TypeUUID);
          (v, w1) = (if hit then markValue (set_val a) want else (set_val a, want));
          (as', w2) = walkSets pl as w1
      in (a\<lparr>set_val := v\<rparr> # as', w2))"

text \<open>The literal a recorded source shares with the tree: rewritten with it when its column is a UUID column.\<close>

definition sharedSrc :: "plan \<Rightarrow> nat \<Rightarrow> expr \<Rightarrow> expr" where
  "sharedSrc pl o' e =
     (let cols = tColumns (rt_def (pl_table pl)) in
      if o' < length cols \<and> cType (cols ! o') = TypeUUID then fst (markValue e []) else e)"

definition shareSources :: "plan \<Rightarrow> plan" where
  "shareSources pl = pl\<lparr>
     pl_pkSource := sharedSrc pl (nat (pkOrdinal (pl_table pl))) (pl_pkSource pl),
     pl_pkProbe := sharedSrc pl (nat (pkOrdinal (pl_table pl))) (pl_pkProbe pl),
     pl_partSource := sharedSrc pl (nat (partitionOrdinal (pl_table pl))) (pl_partSource pl),
     pl_idxSrcs := map2 (sharedSrc pl) (pl_idxCols pl) (pl_idxSrcs pl),
     pl_compPrefixSrcs := map2 (sharedSrc pl) (pl_compOrdinals pl) (pl_compPrefixSrcs pl),
     pl_compResidual := map (\<lambda>c. fst (walkWhere pl c [])) (pl_compResidual pl)\<rparr>"

definition bindParamUUIDCoercion :: "plan \<Rightarrow> plan" where
  "bindParamUUIDCoercion pl =
     (let want0 = (if pl_nparams pl > 0 then replicate (nat (pl_nparams pl)) False else []);
          (st, want) = (case pl_st pl of
              SelectStmt s \<Rightarrow> (let (w, m) = walkWhere pl (s_where s) want0 in (SelectStmt (s\<lparr>s_where := w\<rparr>), m))
            | DeleteStmt s \<Rightarrow> (let (w, m) = walkWhere pl (d_where s) want0 in (DeleteStmt (s\<lparr>d_where := w\<rparr>), m))
            | UpdateStmt s \<Rightarrow>
                (let (w, m) = walkWhere pl (u_where s) want0; (as, m') = walkSets pl (u_sets s) m
                 in (UpdateStmt (s\<lparr>u_where := w, u_sets := as\<rparr>), m'))
            | st' \<Rightarrow> (st', want0));
          allFalse = (True \<notin> set want)
      in (shareSources pl)\<lparr>pl_st := st, pl_paramWantUUID := (if allFalse then [] else want)\<rparr>)"

text \<open>\<open>coerceParams\<close>: the loop over \<open>paramWantUUID\<close> writes into the caller's private copy.\<close>

definition coerceParam :: "nat \<times> bool \<Rightarrow> Value list \<Rightarrow> Value list res" where
  "coerceParam iw args = (case iw of (i, want) \<Rightarrow>
     (if \<not> want \<or> i \<ge> length args \<or> Kind (args ! i) \<noteq> KindString then Inr args
      else case ParseUUID (Value_Str (args ! i)) of
             Inl e \<Rightarrow> Inl ErrTypeMismatch
           | Inr u \<Rightarrow> Inr (args[i := UUIDVal u])))"

definition coerceParams :: "plan \<Rightarrow> Value list \<Rightarrow> Value list res" where
  "coerceParams pl args = for_each coerceParam (enumerate 0 (pl_paramWantUUID pl)) args"

section \<open>Preparing a statement\<close>

text \<open>\<open>db.plan\<close> for a statement without a join, on the table its name resolved to; DDL plans carry nothing.\<close>

definition planStmt :: "resolvedTable \<Rightarrow> stmt \<Rightarrow> plan res" where
  "planStmt rt st = (case st of
       SelectStmt s \<Rightarrow> planSelect rt s
     | InsertStmt s \<Rightarrow> planInsert rt s
     | UpdateStmt s \<Rightarrow> planUpdate rt s
     | DeleteStmt s \<Rightarrow> planDelete rt s
     | _ \<Rightarrow> Inr (newPlan st rt))"

text \<open>A cache miss of \<open>prepare\<close>, after parsing.\<close>

definition prepareStmt :: "resolvedTable \<Rightarrow> stmt \<Rightarrow> plan res" where
  "prepareStmt rt st =
     andThen (rejectValueLiterals st) (\<lambda>u.
       let (st', n) = assignParamIndices st in
       andThen (planStmt rt st') (\<lambda>pl. Inr (bindParamUUIDCoercion (pl\<lparr>pl_nparams := n\<rparr>))))"

end
