(* ===== verification/IndexMerge.thy ===== *)
theory IndexMerge
  imports StoreRuns
begin

text \<open>
  The table-level index maintenance of \<open>secindex.go\<close>: the dirty overlay of the reads, the background
  merge that reconciles the indexes with the live rows, the rebuild after a replay and the size
  trigger.

  The merge takes the shard locks only briefly, so writes run between its steps.  \<open>mergeIndexes\<close> is
  the whole function; \<open>mergeNext\<close> cuts it at the points where the locks are free, and the
  reachable states of the system interleave those steps with arbitrary writes.
\<close>

section \<open>Finding an index\<close>

definition indexFor :: "nat \<Rightarrow> secIndex list \<Rightarrow> secIndex option" where
  "indexFor ord ixs = List.find (\<lambda>si. length (si_ordinals si) = 1 \<and> si_ordinals si ! 0 = ord) ixs"

definition probeIndexFor :: "nat \<Rightarrow> secIndex list \<Rightarrow> secIndex option" where
  "probeIndexFor ord ixs = List.find (\<lambda>si. length (si_ordinals si) \<ge> 1 \<and> si_ordinals si ! 0 = ord) ixs"

definition indexByOrdinals :: "nat list \<Rightarrow> secIndex list \<Rightarrow> secIndex option" where
  "indexByOrdinals ords ixs = List.find (\<lambda>si. length (si_ordinals si) = length ords \<and>
     (\<forall>i \<in> {0..<length ords}. si_ordinals si ! i = ords ! i)) ixs"

section \<open>The dirty overlay\<close>

fun live_dirty :: "uint64 \<Rightarrow> pkMap \<Rightarrow> UUID list \<Rightarrow> UUID list option" where
  "live_dirty seed m [] = Some []"
| "live_dirty seed m (pk # pks) = do {
     r \<leftarrow> pk_get seed m pk;
     rest \<leftarrow> live_dirty seed m pks;
     Some (case r of None \<Rightarrow> rest | Some _ \<Rightarrow> pk # rest)
   }"

fun dirty_shards :: "uint64 \<Rightarrow> bool \<Rightarrow> tableShard list \<Rightarrow> UUID list option" where
  "dirty_shards seed partd [] = Some []"
| "dirty_shards seed partd (s # ss) = do {
     xs \<leftarrow> (if partd then Some (sh_dirtyRead s) else live_dirty seed (sh_pk s) (sh_dirtyRead s));
     rest \<leftarrow> dirty_shards seed partd ss;
     Some (xs @ rest)
   }"

definition dirtyPKs :: "uint64 \<Rightarrow> table \<Rightarrow> UUID list option" where
  "dirtyPKs seed t =
     (if t_readDirtyCount t = 0 then Some []
      else dirty_shards seed (t_pkDir t \<noteq> None) (t_shards t))"

section \<open>The merge\<close>

text \<open>
  One dirty key: the projected row (\<open>None\<close> when the row is gone), with \<open>off\<close> the offset of the next
  index's cells in it, is applied to every index; \<open>ch\<close> are the \<open>changedPerIdx\<close> lists.
\<close>

fun applyAll :: "UUID \<Rightarrow> Value list option \<Rightarrow> nat \<Rightarrow> secIndex list \<Rightarrow> UUID list list \<Rightarrow> secIndex list \<times> UUID list list" where
  "applyAll pk pr off (si # sis) (c # ch) =
     (let n = length (si_ordinals si);
          (key, indexable) = (case pr of None \<Rightarrow> (zeroKey, False)
             | Some cells \<Rightarrow> keyFromCells si (take n (drop off cells)));
          (changed, si') = si_apply pk key indexable si;
          c' = (if changed \<and> si_ordered si then c @ [pk] else c);
          (sis', ch') = applyAll pk pr (off + n) sis ch
      in (si' # sis', c' # ch'))"
| "applyAll pk pr off sis ch = (sis, ch)"

definition mergeOne :: "uint64 \<Rightarrow> UUID \<Rightarrow> table \<times> UUID list list \<Rightarrow> (table \<times> UUID list list) option" where
  "mergeOne seed pk = (\<lambda>(t, ch). do {
     pr \<leftarrow> getByPKProjectInto seed t pk (Some (concat (map si_ordinals (t_indexes t))));
     let (ixs, ch') = applyAll pk pr 0 (t_indexes t) ch;
     Some (t\<lparr>t_indexes := ixs\<rparr>, ch')
   })"

fun mergeBatch :: "uint64 \<Rightarrow> UUID list \<Rightarrow> table \<times> UUID list list \<Rightarrow> (table \<times> UUID list list) option" where
  "mergeBatch seed [] x = Some x"
| "mergeBatch seed (pk # pks) x = do { x \<leftarrow> mergeOne seed pk x; mergeBatch seed pks x }"

text \<open>A pending drop: the shard and the lengths of the prefixes taken of its two dirty lists.\<close>

type_synonym pendingDrop = "nat \<times> nat \<times> nat"

definition snapshotDirty :: "nat \<Rightarrow> table \<Rightarrow> UUID list \<times> pendingDrop" where
  "snapshotDirty i t =
     (let s = t_shards t ! i; nr = length (sh_dirtyRead s); nd = length (sh_dirtyDel s)
      in (take nr (sh_dirtyRead s) @ take nd (sh_dirtyDel s), (i, nr, nd)))"

fun mergeShards :: "uint64 \<Rightarrow> nat list \<Rightarrow> table \<times> UUID list list \<Rightarrow> pendingDrop list \<Rightarrow>
    ((table \<times> UUID list list) \<times> pendingDrop list) option" where
  "mergeShards seed [] x drops = Some (x, drops)"
| "mergeShards seed (i # is) x drops =
     (let (batch, d) = snapshotDirty i (fst x) in
      if batch = [] then mergeShards seed is x drops
      else do { x \<leftarrow> mergeBatch seed batch x; mergeShards seed is x (drops @ [d]) })"

definition foldOne :: "UUID list \<Rightarrow> secIndex \<Rightarrow> secIndex" where
  "foldOne c si = (if si_ordered si \<and> length c > 0 then mergeSorted c si else si)"

definition dropPrefix :: "pendingDrop \<Rightarrow> table \<Rightarrow> table" where
  "dropPrefix = (\<lambda>(i, nr, nd) t.
     (setShard i ((t_shards t ! i)\<lparr>sh_dirtyRead := drop nr (sh_dirtyRead (t_shards t ! i)),
        sh_dirtyDel := drop nd (sh_dirtyDel (t_shards t ! i))\<rparr>) t)
       \<lparr>t_readDirtyCount := t_readDirtyCount t - int nr, t_delDirtyCount := t_delDirtyCount t - int nd\<rparr>)"

definition mergeIndexes :: "uint64 \<Rightarrow> table \<Rightarrow> table option" where
  "mergeIndexes seed t =
     (if length (t_indexes t) = 0 then Some t
      else do {
        ((t, ch), drops) \<leftarrow> mergeShards seed [0..<length (t_shards t)] (t, replicate (length (t_indexes t)) []) [];
        Some (if length drops = 0 then t
              else fold dropPrefix drops (t\<lparr>t_indexes := map2 foldOne ch (t_indexes t)\<rparr>))
      })"

section \<open>The rebuild\<close>

text \<open>The maps of one index, built from the rows of the scan; a row without a key is skipped.\<close>

definition rowKeyOf :: "secIndex \<Rightarrow> Row \<Rightarrow> indexKey \<times> bool" where
  "rowKeyOf si r =
     (if length (si_ordinals si) = 1 then
        (let v = r ! (si_ordinals si ! 0) in if Kind v \<noteq> KindNull then (keyOf v, True) else (zeroKey, False))
      else keyFromCells si (map (nth r) (si_ordinals si)))"

definition rebuildAdd :: "UUID \<Rightarrow> Row \<Rightarrow> secIndex \<Rightarrow> secIndex" where
  "rebuildAdd pk r si =
     (let (key, ok) = rowKeyOf si r in
      if \<not> ok then si
      else let si = si\<lparr>si_rev := AList.update pk key (si_rev si)\<rparr> in
        if \<not> si_ordered si then appendFwd key pk si else si)"

definition rebuildIndexes :: "table \<Rightarrow> table" where
  "rebuildIndexes t =
     (if length (t_indexes t) = 0 then t
      else
        let empties = map (\<lambda>si. si\<lparr>si_rev := [], si_fwd := Map.empty, si_sorted := []\<rparr>) (t_indexes t);
            ixs = scanAll (\<lambda>r ixs. (True, map (rebuildAdd (pkOf t r) r) ixs)) t empties;
            ixs = map (\<lambda>si. if si_ordered si then rebuildSorted si else si) ixs
        in t\<lparr>t_indexes := ixs,
             t_shards := map (\<lambda>s. s\<lparr>sh_dirtyRead := [], sh_dirtyDel := []\<rparr>) (t_shards t),
             t_readDirtyCount := 0, t_delDirtyCount := 0\<rparr>)"

section \<open>The size trigger\<close>

definition totalDirty :: "table option list \<Rightarrow> int" where
  "totalDirty byID = sum_list (map (\<lambda>rt. case rt of None \<Rightarrow> 0
     | Some t \<Rightarrow> t_readDirtyCount t + t_delDirtyCount t) byID)"

text \<open>One table of the adaptive trigger; \<open>thr\<close> is computed with Go's truncating division.\<close>

definition tableFires :: "table \<Rightarrow> bool" where
  "tableFires t =
     (let floor = 256; d = t_readDirtyCount t + t_delDirtyCount t in
      if d < floor then False
      else let thr = liveCount t div 4; thr = (if thr < floor then floor else thr) in d \<ge> thr)"

definition sizeTriggerFired :: "int \<Rightarrow> table option list \<Rightarrow> bool" where
  "sizeTriggerFired fixed byID =
     (if fixed > 0 then totalDirty byID \<ge> fixed
      else \<exists>rt \<in> set byID. case rt of None \<Rightarrow> False | Some t \<Rightarrow> tableFires t)"

text \<open>
  One tick of the merge loop: \<open>ticks\<close> counts the polls since the last merge.  The answer says whether
  the loop merges now.
\<close>

definition mergeTick :: "int \<Rightarrow> nat \<Rightarrow> table option list \<Rightarrow> nat \<Rightarrow> bool \<times> nat" where
  "mergeTick threshold ticksPerInterval byID ticks =
     (let ticks = ticks + 1; sizeActive = (threshold \<ge> 0);
          sizeHit = (sizeActive \<and> sizeTriggerFired threshold byID)
      in if sizeHit \<or> ticks \<ge> ticksPerInterval then (True, 0) else (False, ticks))"

section \<open>The merge step by step\<close>

text \<open>
  The points between two lock acquisitions: before shard \<open>i\<close>; inside the batch of shard \<open>i\<close>, whose
  pending drop is \<open>d\<close>; before folding index \<open>k\<close>; before the next drop.
\<close>

datatype mphase =
    Idle
  | Scan nat "pendingDrop list" "UUID list list"
  | Applying pendingDrop "UUID list" "pendingDrop list" "UUID list list"
  | Folding nat "pendingDrop list" "UUID list list"
  | Dropping "pendingDrop list"

fun mergeNext :: "uint64 \<Rightarrow> mphase \<Rightarrow> table \<Rightarrow> (mphase \<times> table) option" where
  "mergeNext seed Idle t =
     (if length (t_indexes t) = 0 then Some (Idle, t) else Some (Scan 0 [] (replicate (length (t_indexes t)) []), t))"
| "mergeNext seed (Scan i drops ch) t =
     (if i \<ge> length (t_shards t) then
        (if length drops = 0 then Some (Idle, t) else Some (Folding 0 drops ch, t))
      else let (batch, d) = snapshotDirty i t in
        if batch = [] then Some (Scan (i + 1) drops ch, t) else Some (Applying d batch drops ch, t))"
| "mergeNext seed (Applying d [] drops ch) t = Some (Scan (fst d + 1) (drops @ [d]) ch, t)"
| "mergeNext seed (Applying d (pk # pks) drops ch) t = do {
     (t, ch) \<leftarrow> mergeOne seed pk (t, ch);
     Some (Applying d pks drops ch, t)
   }"
| "mergeNext seed (Folding k drops ch) t =
     (if k \<ge> length (t_indexes t) then Some (Dropping drops, t)
      else Some (Folding (k + 1) drops ch, t\<lparr>t_indexes := (t_indexes t)[k := foldOne (ch ! k) (t_indexes t ! k)]\<rparr>))"
| "mergeNext seed (Dropping []) t = Some (Idle, t)"
| "mergeNext seed (Dropping (d # ds)) t = Some (Dropping ds, dropPrefix d t)"

section \<open>Writes\<close>

text \<open>The key a row has in an index, as the merge computes it; \<open>None\<close> for a row the index leaves out.\<close>

definition rowKey :: "secIndex \<Rightarrow> Row \<Rightarrow> indexKey option" where
  "rowKey si r = (let (key, ok) = keyFromCells si (projectClone r (si_ordinals si)) in if ok then Some key else None)"

abbreviation dirtyR :: "table \<Rightarrow> nat \<Rightarrow> UUID list" where
  "dirtyR t i \<equiv> sh_dirtyRead (t_shards t ! i)"

abbreviation dirtyD :: "table \<Rightarrow> nat \<Rightarrow> UUID list" where
  "dirtyD t i \<equiv> sh_dirtyDel (t_shards t ! i)"

definition newR :: "table \<Rightarrow> table \<Rightarrow> nat \<Rightarrow> UUID list" where
  "newR t t' i = drop (length (dirtyR t i)) (dirtyR t' i)"

definition newD :: "table \<Rightarrow> table \<Rightarrow> nat \<Rightarrow> UUID list" where
  "newD t t' i = drop (length (dirtyD t i)) (dirtyD t' i)"

definition keys_of :: "table \<Rightarrow> UUID \<Rightarrow> indexKey option option list" where
  "keys_of t pk = map (\<lambda>si. map_option (rowKey si) (tbl_abs t pk)) (t_indexes t)"

definition same_frame :: "table \<Rightarrow> table \<Rightarrow> bool" where
  "same_frame t t' \<longleftrightarrow> t_def t' = t_def t \<and> t_mask t' = t_mask t \<and> t_pkDir t' = t_pkDir t \<and>
     t_indexes t' = t_indexes t \<and> length (t_shards t') = length (t_shards t)"

text \<open>
  What every write promises the indexes: it only appends to the dirty lists, each key to those of its
  own shard; every row whose keys changed is appended, to the read list when it is live
  afterwards and to the delete list when it is gone.
\<close>

definition marks :: "table \<Rightarrow> table \<Rightarrow> bool" where
  "marks t t' \<longleftrightarrow> same_frame t t' \<and>
     (\<forall>i < length (t_shards t). prefix (dirtyR t i) (dirtyR t' i) \<and> prefix (dirtyD t i) (dirtyD t' i)) \<and>
     t_readDirtyCount t' - t_readDirtyCount t =
       sum_list (map (\<lambda>s. int (length (sh_dirtyRead s))) (t_shards t')) - sum_list (map (\<lambda>s. int (length (sh_dirtyRead s))) (t_shards t)) \<and>
     (\<forall>i < length (t_shards t). \<forall>pk \<in> set (newR t t' i) \<union> set (newD t t' i). shardIdxOf t pk = i) \<and>
     (\<forall>pk. pk \<in> set (newD t t' (shardIdxOf t pk)) \<longrightarrow> tbl_abs t' pk \<noteq> None \<longrightarrow> pk \<in> set (newR t t' (shardIdxOf t pk))) \<and>
     (\<forall>pk. keys_of t pk \<noteq> keys_of t' pk \<longrightarrow>
        pk \<in> set (if tbl_abs t' pk = None then newD t t' (shardIdxOf t pk) else newR t t' (shardIdxOf t pk)))"


section \<open>Keys and indexes\<close>

lemma rowKey_cong: "si_ordinals si = si_ordinals si' \<Longrightarrow> rowKey si r = rowKey si' r"
  by (simp add: rowKey_def keyFromCells_def)

lemma rowKey_Some: "rowKey si r = Some key \<Longrightarrow> keyFromCells si (projectClone r (si_ordinals si)) = (key, True)"
  by (auto simp: rowKey_def split: prod.splits if_splits)

text \<open>
  An index while a merge is under way: its keys are well-formed, and the sorted view of an ordered one
  is the complete view of an earlier state, from which only the keys in \<open>ch\<close> have moved.
\<close>

definition idx_ok :: "ValueKind \<Rightarrow> UUID list \<Rightarrow> secIndex \<Rightarrow> bool" where
  "idx_ok K ch si \<longleftrightarrow> si_inv K si \<and> (si_ordered si \<longrightarrow>
     (\<exists>si0. si_inv K si0 \<and> view_ok si0 \<and> si_ordered si0 \<and> si_sorted si = si_sorted si0 \<and>
        (\<forall>pk. pk \<notin> set ch \<longrightarrow> map_of (si_rev si) pk = map_of (si_rev si0) pk)))"

lemma idx_ok_synced: "idx_ok K [] si \<longleftrightarrow> si_synced K si"
proof
  assume "idx_ok K [] si"
  then show "si_synced K si"
  proof (cases "si_ordered si")
    case True
    with \<open>idx_ok K [] si\<close> obtain si0 where si0: "si_inv K si0" "view_ok si0" "si_sorted si = si_sorted si0"
        "\<And>pk. map_of (si_rev si) pk = map_of (si_rev si0) pk" and inv: "si_inv K si" by (auto simp: idx_ok_def)
    have "set (si_rev si) = set (si_rev si0)"
    proof -
      have "x \<in> set (si_rev sx) \<longleftrightarrow> map_of (si_rev sx) (fst x) = Some (snd x)" if "si_inv K sx" for x sx
        using that by (cases x) (simp add: si_inv_def)
      from this [OF inv] this [OF si0(1)] si0(4) show ?thesis by auto
    qed
    then have "view_ok si" using si0(2,3) by (simp add: view_ok_def)
    with inv show ?thesis by (simp add: si_synced_def)
  qed (simp add: idx_ok_def si_synced_def)
next
  assume "si_synced K si"
  then show "idx_ok K [] si" by (auto simp: idx_ok_def si_synced_def)
qed

lemma idx_ok_apply:
  assumes "idx_ok K ch si" and "ix \<longrightarrow> key_ok K key"
  shows "idx_ok K (if fst (si_apply pk key ix si) \<and> si_ordered si then ch @ [pk] else ch) (snd (si_apply pk key ix si))"
proof (cases "fst (si_apply pk key ix si)")
  case False
  with assms(1) si_apply_unchanged [OF False] show ?thesis by simp
next
  case True
  have "si_inv K (snd (si_apply pk key ix si))" using assms by (intro si_apply_inv) (simp_all add: idx_ok_def)
  with assms(1) True show ?thesis by (auto simp: idx_ok_def si_apply_rev)
qed

lemma idx_ok_fold:
  assumes "idx_ok K ch si"
  shows "idx_ok K [] (foldOne ch si)"
proof (cases "si_ordered si")
  case True
  with assms obtain si0 where si0: "si_inv K si" "si_inv K si0" "view_ok si0" "si_sorted si = si_sorted si0"
      "\<And>pk. pk \<notin> set ch \<Longrightarrow> map_of (si_rev si) pk = map_of (si_rev si0) pk" by (auto simp: idx_ok_def)
  show ?thesis
  proof (cases "ch = []")
    case False
    have m: "mergeSorted ch si = rebuildSorted si" by (rule mergeSorted_eq_rebuild [OF si0(2,3,1,4,5)])
    have "si_inv K (rebuildSorted si)" using si0(1) by (auto simp: si_inv_def rebuildSorted_def buckets_ok_def)
    then have "si_synced K (rebuildSorted si)" using rebuildSorted_view [OF si0(1)] by (simp add: si_synced_def)
    then show ?thesis using True False by (simp add: idx_ok_synced foldOne_def m)
  qed (use assms True in \<open>simp add: foldOne_def\<close>)
qed (use assms in \<open>simp add: foldOne_def idx_ok_def\<close>)

lemma foldOne_fields [simp]:
  "si_rev (foldOne c si) = si_rev si" "si_ordinals (foldOne c si) = si_ordinals si" "si_ordered (foldOne c si) = si_ordered si"
  by (simp_all add: foldOne_def mergeSorted_def Let_def)

text \<open>A lookup finds every key outside \<open>ch\<close>; so does a prefix lookup.\<close>

lemma lookup_sorted_only: "si_ordered si \<Longrightarrow> si_ordered si0 \<Longrightarrow> si_sorted si = si_sorted si0 \<Longrightarrow> si_lookup k si = si_lookup k si0"
  by (simp add: si_lookup_def)

lemma idx_ok_lookup:
  assumes "idx_ok K ch si" and "map_of (si_rev si) pk = Some key" and "pk \<notin> set ch"
  shows "pk \<in> set (si_lookup key si)"
proof (cases "si_ordered si")
  case True
  with assms obtain si0 where si0: "si_inv K si0" "view_ok si0" "si_ordered si0" "si_sorted si = si_sorted si0"
      "map_of (si_rev si0) pk = Some key" by (auto simp: idx_ok_def)
  then have "key_ok K key" by (auto simp: si_inv_def dest!: map_of_SomeD)
  with si0 si_lookup_exact [of K si0 key] show ?thesis
    by (simp add: lookup_sorted_only [OF True si0(3,4)] si_synced_def)
next
  case False
  then have "buckets_ok si" using assms(1) by (simp add: idx_ok_def si_inv_def)
  with assms(2) False show ?thesis by (simp add: buckets_ok_def si_lookup_def)
qed

lemma idx_ok_prefixLookup:
  assumes "idx_ok KindBytes ch si" and "si_ordered si" and "map_of (si_rev si) pk = Some key" and "pk \<notin> set ch"
    and "prefix (ks p) (ks key)"
  shows "pk \<in> set (prefixLookup p si)"
proof -
  from assms obtain si0 where si0: "si_inv KindBytes si0" "view_ok si0" "si_sorted si = si_sorted si0"
      "map_of (si_rev si0) pk = Some key" by (auto simp: idx_ok_def)
  have "pk \<in> set (prefixLookup p si0)"
    unfolding prefixLookup_eq [OF si0(1,2)] view_pks(2) [OF si0(1,2)] using si0(4) assms(5) by simp
  then show ?thesis using si0(3) by (simp add: prefixLookup_def)
qed

section \<open>One merged key\<close>

text \<open>The key and flag applied for a key whose row is \<open>row\<close>.\<close>

definition applied :: "Row option \<Rightarrow> secIndex \<Rightarrow> indexKey \<times> bool" where
  "applied row si = (case row of None \<Rightarrow> (zeroKey, False) | Some r \<Rightarrow> keyFromCells si (projectClone r (si_ordinals si)))"

lemma applied_key: "(if snd (applied row si) then Some (fst (applied row si)) else None) = Option.bind row (rowKey si)"
  by (cases row) (simp_all add: applied_def rowKey_def split: prod.splits)

lemma applyAll_eq:
  assumes "length ch = length sis"
    and "pr = map_option (\<lambda>r. pre r @ projectClone r (concat (map si_ordinals sis))) row" and "\<And>r. length (pre r) = off"
  shows "applyAll pk pr off sis ch =
     (map (\<lambda>si. snd (si_apply pk (fst (applied row si)) (snd (applied row si)) si)) sis,
      map2 (\<lambda>si c. if fst (si_apply pk (fst (applied row si)) (snd (applied row si)) si) \<and> si_ordered si then c @ [pk] else c) sis ch)"
  using assms
proof (induction sis arbitrary: off ch pre)
  case (Cons si sis)
  then obtain c ch' where ch: "ch = c # ch'" "length ch' = length sis" by (cases ch) auto
  let ?n = "length (si_ordinals si)" and ?pre = "\<lambda>r. pre r @ projectClone r (si_ordinals si)"
  have key: "(case pr of None \<Rightarrow> (zeroKey, False) | Some cells \<Rightarrow> keyFromCells si (take ?n (drop off cells))) = applied row si"
    using Cons.prems(2,3) by (cases row) (simp_all add: applied_def projectClone_def)
  have "pr = map_option (\<lambda>r. ?pre r @ projectClone r (concat (map si_ordinals sis))) row"
    using Cons.prems(2) by (cases row) (simp_all add: projectClone_def)
  moreover have "length (?pre r) = off + ?n" for r using Cons.prems(3) by (simp add: projectClone_def)
  ultimately have "applyAll pk pr (off + ?n) sis ch' =
     (map (\<lambda>si. snd (si_apply pk (fst (applied row si)) (snd (applied row si)) si)) sis,
      map2 (\<lambda>si c. if fst (si_apply pk (fst (applied row si)) (snd (applied row si)) si) \<and> si_ordered si then c @ [pk] else c) sis ch')"
    using ch(2) by (intro Cons.IH [of _ ?pre]) simp_all
  then show ?case by (simp add: Let_def key ch(1) case_prod_beta)
qed simp

lemma mergeOne_eq:
  assumes "table_inv seed t" and "length ch = length (t_indexes t)"
  shows "mergeOne seed pk (t, ch) = Some
     (t\<lparr>t_indexes := map (\<lambda>si. snd (si_apply pk (fst (applied (tbl_abs t pk) si)) (snd (applied (tbl_abs t pk) si)) si)) (t_indexes t)\<rparr>,
      map2 (\<lambda>si c. if fst (si_apply pk (fst (applied (tbl_abs t pk) si)) (snd (applied (tbl_abs t pk) si)) si) \<and> si_ordered si
                   then c @ [pk] else c) (t_indexes t) ch)"
  using applyAll_eq [OF assms(2), of _ "\<lambda>_. []" "tbl_abs t pk" 0 pk]
  by (simp add: mergeOne_def getByPKProjectInto_abs [OF assms(1)])


section \<open>The invariant of the interleaving\<close>

fun pends :: "mphase \<Rightarrow> pendingDrop list" where
  "pends Idle = []"
| "pends (Scan i drops ch) = drops"
| "pends (Applying d pks drops ch) = d # drops"
| "pends (Folding k drops ch) = drops"
| "pends (Dropping drops) = drops"

text \<open>The keys of the running batch that are still to be applied.\<close>

fun todo :: "mphase \<Rightarrow> UUID list" where
  "todo (Applying d pks drops ch) = pks"
| "todo _ = []"

text \<open>The keys of index \<open>k\<close> that moved in this merge and are not yet in its sorted view.\<close>

fun moved :: "mphase \<Rightarrow> nat \<Rightarrow> UUID list" where
  "moved (Scan i drops ch) k = ch ! k"
| "moved (Applying d pks drops ch) k = ch ! k"
| "moved (Folding k0 drops ch) k = (if k < k0 then [] else ch ! k)"
| "moved _ k = []"

definition tailR :: "mphase \<Rightarrow> table \<Rightarrow> nat \<Rightarrow> UUID list" where
  "tailR ph t i = drop (case map_of (pends ph) i of None \<Rightarrow> 0 | Some (nr, nd) \<Rightarrow> nr) (dirtyR t i)"

definition tailD :: "mphase \<Rightarrow> table \<Rightarrow> nat \<Rightarrow> UUID list" where
  "tailD ph t i = drop (case map_of (pends ph) i of None \<Rightarrow> 0 | Some (nr, nd) \<Rightarrow> nd) (dirtyD t i)"

definition pends_ok :: "mphase \<Rightarrow> table \<Rightarrow> bool" where
  "pends_ok ph t \<longleftrightarrow> distinct (map fst (pends ph)) \<and>
     (\<forall>(i, nr, nd) \<in> set (pends ph). i < length (t_shards t) \<and> nr \<le> length (dirtyR t i) \<and> nd \<le> length (dirtyD t i))"

definition phase_ok :: "mphase \<Rightarrow> table \<Rightarrow> bool" where
  "phase_ok ph t \<longleftrightarrow> (case ph of
       Scan i drops ch \<Rightarrow> length ch = nIdx t \<and> (\<forall>d \<in> set drops. fst d < i) \<and>
         (drops = [] \<longrightarrow> ch = replicate (nIdx t) [])
     | Applying d pks drops ch \<Rightarrow> length ch = nIdx t \<and> (\<forall>x \<in> set drops. fst x < fst d) \<and>
         set pks \<subseteq> set (take (fst (snd d)) (dirtyR t (fst d))) \<union> set (take (snd (snd d)) (dirtyD t (fst d)))
     | Folding k drops ch \<Rightarrow> length ch = nIdx t
     | _ \<Rightarrow> True)"

text \<open>Every dirty key is in the lists of its own shard.\<close>

definition at_home :: "table \<Rightarrow> bool" where
  "at_home t \<longleftrightarrow> (\<forall>i < length (t_shards t). \<forall>pk \<in> set (dirtyR t i) \<union> set (dirtyD t i). shardIdxOf t pk = i)"

text \<open>A live row whose key is in a delete list was inserted again after that, and so is in the read list.\<close>

definition reinserted :: "mphase \<Rightarrow> table \<Rightarrow> bool" where
  "reinserted ph t \<longleftrightarrow> (\<forall>pk. tbl_abs t pk \<noteq> None \<longrightarrow>
     (pk \<in> set (dirtyD t (shardIdxOf t pk)) \<longrightarrow> pk \<in> set (dirtyR t (shardIdxOf t pk))) \<and>
     (pk \<in> set (tailD ph t (shardIdxOf t pk)) \<longrightarrow> pk \<in> set (tailR ph t (shardIdxOf t pk))))"

definition fresh :: "table \<Rightarrow> UUID \<Rightarrow> bool" where
  "fresh t pk \<longleftrightarrow> (\<forall>si \<in> set (t_indexes t). map_of (si_rev si) pk = Option.bind (tbl_abs t pk) (rowKey si))"

definition tail_dirty :: "mphase \<Rightarrow> table \<Rightarrow> UUID \<Rightarrow> bool" where
  "tail_dirty ph t pk \<longleftrightarrow> pk \<in> set (tailR ph t (shardIdxOf t pk)) \<or>
     (tbl_abs t pk = None \<and> pk \<in> set (tailD ph t (shardIdxOf t pk)))"

definition covered :: "mphase \<Rightarrow> table \<Rightarrow> bool" where
  "covered ph t \<longleftrightarrow> (\<forall>pk. pk \<in> set (todo ph) \<or> tail_dirty ph t pk \<or> fresh t pk)"

definition moved_seen :: "mphase \<Rightarrow> table \<Rightarrow> bool" where
  "moved_seen ph t \<longleftrightarrow> (\<forall>k < nIdx t. \<forall>pk \<in> set (moved ph k). tbl_abs t pk \<noteq> None \<longrightarrow> pk \<in> set (dirtyR t (shardIdxOf t pk)))"

definition idxs_ok :: "ValueKind list \<Rightarrow> mphase \<Rightarrow> table \<Rightarrow> bool" where
  "idxs_ok Ks ph t \<longleftrightarrow> length Ks = nIdx t \<and> (\<forall>k < nIdx t. idx_ok (Ks ! k) (moved ph k) (t_indexes t ! k))"

text \<open>The rows have cells of the declared kinds in the indexed columns.\<close>

definition typed :: "ValueKind list \<Rightarrow> table \<Rightarrow> bool" where
  "typed Ks t \<longleftrightarrow> (\<forall>pk r k. tbl_abs t pk = Some r \<longrightarrow> k < nIdx t \<longrightarrow>
     (case rowKey (t_indexes t ! k) r of None \<Rightarrow> True | Some key \<Rightarrow> key_ok (Ks ! k) key))"

definition counted :: "table \<Rightarrow> bool" where
  "counted t \<longleftrightarrow> t_readDirtyCount t = sum_list (map (\<lambda>s. int (length (sh_dirtyRead s))) (t_shards t))"

definition merge_inv :: "uint64 \<Rightarrow> ValueKind list \<Rightarrow> mphase \<Rightarrow> table \<Rightarrow> bool" where
  "merge_inv seed Ks ph t \<longleftrightarrow> table_inv seed t \<and> pends_ok ph t \<and> phase_ok ph t \<and> at_home t \<and> reinserted ph t \<and>
     covered ph t \<and> moved_seen ph t \<and> idxs_ok Ks ph t \<and> typed Ks t \<and> counted t"

lemmas merge_inv_parts = pends_ok_def phase_ok_def at_home_def reinserted_def covered_def moved_seen_def idxs_ok_def
  typed_def counted_def

section \<open>Writes keep the invariant\<close>

lemma marksD:
  assumes "marks t t'" and "table_inv seed t"
  shows "t_indexes t' = t_indexes t" "length (t_shards t') = length (t_shards t)" "shardIdxOf t' = shardIdxOf t" "nIdx t' = nIdx t"
    "\<And>i. i < length (t_shards t) \<Longrightarrow> dirtyR t' i = dirtyR t i @ newR t t' i"
    "\<And>i. i < length (t_shards t) \<Longrightarrow> dirtyD t' i = dirtyD t i @ newD t t' i"
    "\<And>pk. shardIdxOf t pk < length (t_shards t)"
  using assms shardIdxOf_less
  by (auto simp: marks_def same_frame_def shardIdxOf_def fun_eq_iff nIdx_def newR_def newD_def table_inv_def prefix_def)

lemma marks_keys:
  assumes "marks t t'" and "keys_of t pk \<noteq> keys_of t' pk"
  shows "pk \<in> set (if tbl_abs t' pk = None then newD t t' (shardIdxOf t pk) else newR t t' (shardIdxOf t pk))"
  using assms unfolding marks_def by blast

lemma keys_same_live:
  assumes "keys_of t pk = keys_of t' pk" and "t_indexes t' = t_indexes t" and "t_indexes t \<noteq> []"
  shows "tbl_abs t' pk = None \<longleftrightarrow> tbl_abs t pk = None"
  using assms by (cases "t_indexes t") (auto simp: keys_of_def)

lemma keys_same_fresh:
  assumes "keys_of t pk = keys_of t' pk" and "t_indexes t' = t_indexes t" and "fresh t pk"
  shows "fresh t' pk"
proof -
  have "map_option (rowKey si) (tbl_abs t pk) = map_option (rowKey si) (tbl_abs t' pk)" if "si \<in> set (t_indexes t)" for si
    using assms(1,2) that by (simp add: keys_of_def)
  then have "Option.bind (tbl_abs t pk) (rowKey si) = Option.bind (tbl_abs t' pk) (rowKey si)" if "si \<in> set (t_indexes t)" for si
    using that by (cases "tbl_abs t pk"; cases "tbl_abs t' pk") force+
  then show ?thesis using assms(2,3) by (auto simp: fresh_def)
qed

lemma tails_write:
  assumes "marks t t'" "table_inv seed t" "pends_ok ph t" "i < length (t_shards t)"
  shows "tailR ph t' i = tailR ph t i @ newR t t' i" "tailD ph t' i = tailD ph t i @ newD t t' i"
proof -
  note m = marksD [OF assms(1,2)]
  have "case map_of (pends ph) i of None \<Rightarrow> True | Some (nr, nd) \<Rightarrow> nr \<le> length (dirtyR t i) \<and> nd \<le> length (dirtyD t i)"
    using assms(3) by (auto simp: pends_ok_def split: option.split dest!: map_of_SomeD)
  then show "tailR ph t' i = tailR ph t i @ newR t t' i" "tailD ph t' i = tailD ph t i @ newD t t' i"
    using m(5,6) [OF assms(4)] by (auto simp: tailR_def tailD_def split: option.splits)
qed

lemma write_inv:
  assumes inv: "merge_inv seed Ks ph t" and ne: "t_indexes t \<noteq> []" and m: "marks t t'" and ti: "table_inv seed t'" and ty: "typed Ks t'"
  shows "merge_inv seed Ks ph t'"
proof -
  note i = inv [unfolded merge_inv_def]
  have tt: "table_inv seed t" using i by blast
  note d = marksD [OF m tt]
  note tl = tails_write [OF m tt conjunct1 [OF conjunct2 [OF i]]]
  have "pends_ok ph t'" using i d by (fastforce simp: pends_ok_def)
  moreover have "phase_ok ph t'"
  proof (cases ph)
    case (Applying dd pks drops ch)
    then have b: "fst dd < length (t_shards t)" "fst (snd dd) \<le> length (dirtyR t (fst dd))" "snd (snd dd) \<le> length (dirtyD t (fst dd))"
      using i by (auto simp: pends_ok_def)
    then show ?thesis using i Applying d(4-6) by (simp add: phase_ok_def)
  qed (use i d in \<open>simp_all add: phase_ok_def\<close>)
  moreover have "at_home t'"
  proof -
    have "\<forall>i < length (t_shards t). \<forall>pk \<in> set (newR t t' i) \<union> set (newD t t' i). shardIdxOf t pk = i"
      using m by (simp add: marks_def)
    then show ?thesis using i d by (auto simp: at_home_def)
  qed
  moreover have "reinserted ph t'"
    unfolding reinserted_def
  proof (intro allI impI)
    fix pk assume live: "tbl_abs t' pk \<noteq> None"
    let ?i = "shardIdxOf t pk"
    have new: "pk \<in> set (newD t t' ?i) \<Longrightarrow> pk \<in> set (newR t t' ?i)" using m live unfolding marks_def by blast
    have old: "pk \<in> set (newR t t' ?i) \<or> tbl_abs t pk \<noteq> None"
      using marks_keys [OF m, of pk] keys_same_live [of t pk t'] live ne d(1) by (metis (mono_tags))
    from old new i show "(pk \<in> set (dirtyD t' (shardIdxOf t' pk)) \<longrightarrow> pk \<in> set (dirtyR t' (shardIdxOf t' pk))) \<and>
        (pk \<in> set (tailD ph t' (shardIdxOf t' pk)) \<longrightarrow> pk \<in> set (tailR ph t' (shardIdxOf t' pk)))"
      unfolding d(3) d(5,6) [OF d(7)] tl [OF d(7)] by (auto simp: reinserted_def)
  qed
  moreover have "covered ph t'"
    unfolding covered_def
  proof
    fix pk
    let ?i = "shardIdxOf t pk"
    show "pk \<in> set (todo ph) \<or> tail_dirty ph t' pk \<or> fresh t' pk"
    proof (cases "keys_of t pk = keys_of t' pk")
      case True
      then have l: "tbl_abs t' pk = None \<longleftrightarrow> tbl_abs t pk = None" using keys_same_live ne d(1) by blast
      have "pk \<in> set (todo ph) \<or> tail_dirty ph t pk \<or> fresh t pk" using i by (simp add: covered_def)
      then show ?thesis
        using keys_same_fresh [OF True d(1)] l unfolding tail_dirty_def d(3) tl [OF d(7)] by auto
    next
      case False
      from marks_keys [OF m this] have "tail_dirty ph t' pk"
        unfolding tail_dirty_def d(3) tl [OF d(7)] by (auto split: if_splits)
      then show ?thesis by blast
    qed
  qed
  moreover have "moved_seen ph t'"
    unfolding moved_seen_def
  proof (intro allI impI ballI)
    fix k pk assume a: "k < nIdx t'" "pk \<in> set (moved ph k)" "tbl_abs t' pk \<noteq> None"
    have "pk \<in> set (newR t t' (shardIdxOf t pk)) \<or> tbl_abs t pk \<noteq> None"
      using marks_keys [OF m, of pk] keys_same_live [of t pk t'] a(3) ne d(1) by (metis (mono_tags))
    then show "pk \<in> set (dirtyR t' (shardIdxOf t' pk))"
      using i a(1,2) unfolding d(3,4) d(5) [OF d(7)] by (auto simp: moved_seen_def)
  qed
  moreover have "idxs_ok Ks ph t'" using i d by (simp add: idxs_ok_def)
  moreover have "counted t'" using i m by (simp add: counted_def marks_def)
  ultimately show ?thesis using ti ty by (simp add: merge_inv_def)
qed


section \<open>Merge steps keep the invariant\<close>

lemma table_of_indexes [simp]:
  "tbl_abs (t\<lparr>t_indexes := ixs\<rparr>) = tbl_abs t"
  by (simp add: tbl_abs_def fun_eq_iff)

lemma table_inv_indexes: "length ixs = nIdx t \<Longrightarrow> table_inv seed (t\<lparr>t_indexes := ixs\<rparr>) = table_inv seed t"
  by (simp add: table_inv_def shards_ok_def shard_inv_def nIdx_def)

text \<open>
  A step that changes only the indexes: what is left to show is about coverage, the keys under way and
  the indexes themselves.
\<close>

lemma index_step_inv:
  assumes inv: "merge_inv seed Ks ph t" and t': "t' = t\<lparr>t_indexes := ixs\<rparr>"
    and ords: "map si_ordinals ixs = map si_ordinals (t_indexes t)"
    and pends: "pends ph' = pends ph" and po: "phase_ok ph' t'"
    and cov: "covered ph' t'" and seen: "moved_seen ph' t'" and ix: "idxs_ok Ks ph' t'"
  shows "merge_inv seed Ks ph' t'"
proof -
  note i = inv [unfolded merge_inv_def]
  have len: "length ixs = nIdx t" using arg_cong [OF ords, of length] by (simp add: nIdx_def)
  have "table_inv seed t'" using i len by (simp add: t' table_inv_indexes)
  moreover have "pends_ok ph' t'" using i by (simp add: pends_ok_def pends t')
  moreover have "at_home t'" using i by (simp add: at_home_def t')
  moreover have "reinserted ph' t'" using i by (simp add: reinserted_def tailR_def tailD_def pends t')
  moreover have "typed Ks t'"
  proof -
    have "rowKey (ixs ! k) r = rowKey (t_indexes t ! k) r" if "k < nIdx t" for k r
      using arg_cong [OF ords, of "\<lambda>xs. xs ! k"] len that by (intro rowKey_cong) (simp add: nIdx_def)
    then show ?thesis using i len by (simp add: typed_def t' nIdx_def)
  qed
  moreover have "counted t'" using i by (simp add: counted_def t')
  ultimately show ?thesis using po cov seen ix by (simp add: merge_inv_def)
qed

text \<open>A step that changes no table at all.\<close>

lemma phase_step_inv:
  assumes inv: "merge_inv seed Ks ph t"
    and p: "map_of (pends ph') = map_of (pends ph)" "pends_ok ph' t" "phase_ok ph' t" "set (todo ph') = set (todo ph)"
    and m: "\<And>k. k < nIdx t \<Longrightarrow> moved ph' k = moved ph k"
  shows "merge_inv seed Ks ph' t"
proof -
  have tails: "tailR ph' = tailR ph" "tailD ph' = tailD ph" by (simp_all add: tailR_def tailD_def fun_eq_iff p(1))
  show ?thesis using inv p(2-4) m
    by (simp add: merge_inv_def reinserted_def covered_def tail_dirty_def tails moved_seen_def idxs_ok_def)
qed

lemma snapshot_inv:
  assumes inv: "merge_inv seed Ks (Scan i drops ch) t" and i: "i < length (t_shards t)"
  shows "merge_inv seed Ks (Applying (i, length (dirtyR t i), length (dirtyD t i)) (dirtyR t i @ dirtyD t i) drops ch) t"
proof -
  let ?ph = "Scan i drops ch" and ?ph' = "Applying (i, length (dirtyR t i), length (dirtyD t i)) (dirtyR t i @ dirtyD t i) drops ch"
  note v = inv [unfolded merge_inv_def]
  have lt: "\<forall>d \<in> set drops. fst d < i" using v by (simp add: phase_ok_def)
  then have new: "map_of drops i = None" by (auto simp: map_of_eq_None_iff)
  have tl: "tailR ?ph' t j = (if j = i then [] else tailR ?ph t j)" "tailD ?ph' t j = (if j = i then [] else tailD ?ph t j)" for j
    by (simp_all add: tailR_def tailD_def)
  have tl0: "tailR ?ph t i = dirtyR t i" "tailD ?ph t i = dirtyD t i" by (simp_all add: tailR_def tailD_def new)
  have "pends_ok ?ph' t" using v i lt by (auto simp: pends_ok_def)
  moreover have "phase_ok ?ph' t" using v lt by (simp add: phase_ok_def)
  moreover have "reinserted ?ph' t" using v by (simp add: reinserted_def tl)
  moreover have "covered ?ph' t"
    unfolding covered_def
  proof
    fix pk
    have "tail_dirty ?ph t pk \<or> fresh t pk" using v by (simp add: covered_def)
    then show "pk \<in> set (todo ?ph') \<or> tail_dirty ?ph' t pk \<or> fresh t pk"
      using tl0 by (cases "shardIdxOf t pk = i") (auto simp: tail_dirty_def tl)
  qed
  ultimately show ?thesis using v by (simp add: merge_inv_def moved_seen_def idxs_ok_def)
qed

lemma apply_inv:
  assumes inv: "merge_inv seed Ks (Applying d (pk # pks) drops ch) t" and step: "mergeOne seed pk (t, ch) = Some (t', ch')"
  shows "merge_inv seed Ks (Applying d pks drops ch') t'"
proof -
  let ?ph = "Applying d (pk # pks) drops ch" and ?ph' = "Applying d pks drops ch'"
  note v = inv [unfolded merge_inv_def]
  have tt: "table_inv seed t" and len: "length ch = length (t_indexes t)" using v by (simp_all add: phase_ok_def nIdx_def)
  define f where "f si = (applied (tbl_abs t pk) si)" for si
  define ap where "ap si = si_apply pk (fst (f si)) (snd (f si)) si" for si
  have e: "t' = t\<lparr>t_indexes := map (snd \<circ> ap) (t_indexes t)\<rparr>"
    "ch' = map2 (\<lambda>si c. if fst (ap si) \<and> si_ordered si then c @ [pk] else c) (t_indexes t) ch"
    using step mergeOne_eq [OF tt len, of pk] by (simp_all add: f_def ap_def comp_def)
  have ch'_nth: "ch' ! k = (if fst (ap (t_indexes t ! k)) \<and> si_ordered (t_indexes t ! k) then ch ! k @ [pk] else ch ! k)"
    if "k < nIdx t" for k using that len by (simp add: e(2) nIdx_def)
  have rev': "map_of (si_rev (snd (ap si))) = (map_of (si_rev si))(pk := Option.bind (tbl_abs t pk) (rowKey si))" for si
    using applied_key [of "tbl_abs t pk" si] by (simp add: ap_def si_apply_rev f_def)
  have batch: "pk \<in> set (dirtyR t (fst d)) \<union> set (dirtyD t (fst d))" "fst d < length (t_shards t)"
    using v by (auto simp: phase_ok_def pends_ok_def dest: in_set_takeD)
  then have home: "shardIdxOf t pk = fst d" using v by (auto simp: at_home_def)
  show ?thesis
  proof (rule index_step_inv [OF inv e(1)])
    show "map si_ordinals (map (snd \<circ> ap) (t_indexes t)) = map si_ordinals (t_indexes t)" by (simp add: ap_def)
    show "pends ?ph' = pends ?ph" by simp
    show "phase_ok ?ph' t'" using v len by (auto simp: phase_ok_def e nIdx_def)
    show "covered ?ph' t'"
      unfolding covered_def
    proof
      fix p
      have rk: "rowKey (snd (ap si)) = rowKey si" for si by (rule ext, rule rowKey_cong) (simp add: ap_def)
      have fr: "fresh t' p" if "p = pk \<or> fresh t p"
        unfolding fresh_def
      proof
        fix si' assume "si' \<in> set (t_indexes t')"
        then obtain si where si: "si \<in> set (t_indexes t)" "si' = snd (ap si)" by (auto simp: e)
        then show "map_of (si_rev si') p = Option.bind (tbl_abs t' p) (rowKey si')"
          using that by (auto simp: rev' rk e(1) fresh_def)
      qed
      have "p \<in> set (todo ?ph) \<or> tail_dirty ?ph t p \<or> fresh t p" using v by (simp add: covered_def)
      moreover have "tail_dirty ?ph' t' p = tail_dirty ?ph t p" by (simp add: tail_dirty_def tailR_def tailD_def e(1))
      ultimately show "p \<in> set (todo ?ph') \<or> tail_dirty ?ph' t' p \<or> fresh t' p" using fr by auto
    qed
    show "moved_seen ?ph' t'"
      unfolding moved_seen_def
    proof (intro allI impI ballI)
      fix k p assume a: "k < nIdx t'" "p \<in> set (moved ?ph' k)" "tbl_abs t' p \<noteq> None"
      then have k: "k < nIdx t" and live: "tbl_abs t p \<noteq> None" by (simp_all add: e(1) nIdx_def)
      from a(2) have "p = pk \<or> p \<in> set (moved ?ph k)" by (auto simp: ch'_nth [OF k] split: if_splits)
      then have "p \<in> set (dirtyR t (shardIdxOf t p))"
      proof
        assume "p = pk"
        then show ?thesis using v live batch home by (auto simp: reinserted_def)
      next
        assume "p \<in> set (moved ?ph k)"
        then show ?thesis using v k live by (auto simp: moved_seen_def)
      qed
      then show "p \<in> set (dirtyR t' (shardIdxOf t' p))" by (simp add: e(1))
    qed
    show "idxs_ok Ks ?ph' t'"
      unfolding idxs_ok_def
    proof (intro conjI allI impI)
      show "length Ks = nIdx t'" using v by (simp add: idxs_ok_def e(1) nIdx_def)
      fix k assume "k < nIdx t'"
      then have k: "k < nIdx t" by (simp add: e(1) nIdx_def)
      let ?si = "t_indexes t ! k"
      have io: "idx_ok (Ks ! k) (ch ! k) ?si" using v k by (simp add: idxs_ok_def)
      have "snd (f ?si) \<longrightarrow> key_ok (Ks ! k) (fst (f ?si))"
      proof
        assume a: "snd (f ?si)"
        then have b: "Option.bind (tbl_abs t pk) (rowKey ?si) = Some (fst (f ?si))"
          using applied_key [of "tbl_abs t pk" ?si] by (simp add: f_def)
        then obtain r where r: "tbl_abs t pk = Some r" "rowKey ?si r = Some (fst (f ?si))"
          by (cases "tbl_abs t pk") auto
        have "case rowKey ?si r of None \<Rightarrow> True | Some key \<Rightarrow> key_ok (Ks ! k) key"
          using v k r(1) unfolding merge_inv_parts by blast
        with r(2) show "key_ok (Ks ! k) (fst (f ?si))" by simp
      qed
      from idx_ok_apply [OF io this] show "idx_ok (Ks ! k) (moved ?ph' k) (t_indexes t' ! k)"
        using k by (simp add: ch'_nth [OF k] e(1) ap_def nIdx_def)
    qed
  qed
qed


lemma fold_inv:
  assumes inv: "merge_inv seed Ks (Folding k drops ch) t" and k: "k < length (t_indexes t)"
  shows "merge_inv seed Ks (Folding (k + 1) drops ch) (t\<lparr>t_indexes := (t_indexes t)[k := foldOne (ch ! k) (t_indexes t ! k)]\<rparr>)"
proof -
  let ?ph = "Folding k drops ch" and ?ph' = "Folding (k + 1) drops ch"
  let ?ixs = "(t_indexes t)[k := foldOne (ch ! k) (t_indexes t ! k)]" let ?t = "t\<lparr>t_indexes := ?ixs\<rparr>"
  note v = inv [unfolded merge_inv_def]
  have same: "si_rev (?ixs ! j) = si_rev (t_indexes t ! j)" "si_ordinals (?ixs ! j) = si_ordinals (t_indexes t ! j)"
    if "j < nIdx t" for j using that k by (cases "j = k"; simp)+
  show ?thesis
  proof (rule index_step_inv [OF inv refl])
    show "map si_ordinals ?ixs = map si_ordinals (t_indexes t)" using k by (simp add: map_update list_update_same_conv)
    show "pends ?ph' = pends ?ph" by simp
    show "phase_ok ?ph' ?t" using v by (simp add: phase_ok_def nIdx_def)
    show "covered ?ph' ?t"
      unfolding covered_def
    proof
      fix p
      have fr: "fresh ?t p" if "fresh t p"
        unfolding fresh_def
      proof
        fix si' assume "si' \<in> set (t_indexes ?t)"
        then obtain j where j: "j < nIdx t" "si' = ?ixs ! j" by (auto simp: in_set_conv_nth nIdx_def)
        have "map_of (si_rev (t_indexes t ! j)) p = Option.bind (tbl_abs t p) (rowKey (t_indexes t ! j))"
          using that j(1) by (simp add: fresh_def nIdx_def)
        moreover have "rowKey si' = rowKey (t_indexes t ! j)" using same(2) [OF j(1)] j(2) by (intro ext rowKey_cong) simp
        ultimately show "map_of (si_rev si') p = Option.bind (tbl_abs ?t p) (rowKey si')" using same(1) [OF j(1)] j(2) by simp
      qed
      have "p \<in> set (todo ?ph) \<or> tail_dirty ?ph t p \<or> fresh t p" using v by (simp add: covered_def)
      moreover have "tail_dirty ?ph' ?t p = tail_dirty ?ph t p" by (simp add: tail_dirty_def tailR_def tailD_def)
      ultimately show "p \<in> set (todo ?ph') \<or> tail_dirty ?ph' ?t p \<or> fresh ?t p" using fr by auto
    qed
    show "moved_seen ?ph' ?t" using v by (auto simp: moved_seen_def nIdx_def)
    show "idxs_ok Ks ?ph' ?t"
      unfolding idxs_ok_def
    proof (intro conjI allI impI)
      show "length Ks = nIdx ?t" using v by (simp add: idxs_ok_def nIdx_def)
      fix j assume "j < nIdx ?t"
      then have j: "j < nIdx t" by (simp add: nIdx_def)
      then have io: "idx_ok (Ks ! j) (moved ?ph j) (t_indexes t ! j)" using v by (simp add: idxs_ok_def)
      show "idx_ok (Ks ! j) (moved ?ph' j) (t_indexes ?t ! j)"
      proof (cases "j = k")
        case True
        with io idx_ok_fold [of "Ks ! k" "ch ! k" "t_indexes t ! k"] k show ?thesis by simp
      next
        case False
        then have "moved ?ph' j = moved ?ph j" by auto
        with io False show ?thesis by simp
      qed
    qed
  qed
qed

lemma dropPrefix_fields [simp]:
  "t_indexes (dropPrefix d t) = t_indexes t" "t_def (dropPrefix d t) = t_def t" "t_mask (dropPrefix d t) = t_mask t"
  "t_pkDir (dropPrefix d t) = t_pkDir t" "length (t_shards (dropPrefix d t)) = length (t_shards t)"
  "shardIdxOf (dropPrefix d t) = shardIdxOf t" "nIdx (dropPrefix d t) = nIdx t"
  by (simp_all add: dropPrefix_def case_prod_beta)

lemma dropPrefix_table:
  assumes "table_inv seed t" and "fst d < length (t_shards t)"
  shows "table_inv seed (dropPrefix d t)" "tbl_abs (dropPrefix d t) = tbl_abs t"
    "\<And>j. j < length (t_shards t) \<Longrightarrow> dirtyR (dropPrefix d t) j = (if j = fst d then drop (fst (snd d)) (dirtyR t j) else dirtyR t j)"
    "\<And>j. j < length (t_shards t) \<Longrightarrow> dirtyD (dropPrefix d t) j = (if j = fst d then drop (snd (snd d)) (dirtyD t j) else dirtyD t j)"
proof -
  obtain i nr nd where d: "d = (i, nr, nd)" by (cases d) auto
  let ?s = "(t_shards t ! i)\<lparr>sh_dirtyRead := drop nr (dirtyR t i), sh_dirtyDel := drop nd (dirtyD t i)\<rparr>"
  have i: "i < length (t_shards t)" using assms(2) by (simp add: d)
  have "shard_inv seed t i ?s" using assms(1) i by (simp add: table_inv_def)
  then have ti: "table_inv seed (setShard i ?s t)" using assms(1) by (intro table_inv_setShard)
  have e: "dropPrefix d t = (setShard i ?s t)\<lparr>t_readDirtyCount := t_readDirtyCount t - int nr, t_delDirtyCount := t_delDirtyCount t - int nd\<rparr>"
    by (simp add: dropPrefix_def d)
  show "table_inv seed (dropPrefix d t)" unfolding e using ti by (simp add: table_inv_def shards_ok_def)
  have "tbl_abs (setShard i ?s t) = tbl_abs t" by (rule ext, unfold tbl_abs_setShard [OF i]) (simp add: tbl_abs_def)
  then show "tbl_abs (dropPrefix d t) = tbl_abs t" unfolding e by (simp add: tbl_abs_def fun_eq_iff)
  fix j assume "j < length (t_shards t)"
  then show "dirtyR (dropPrefix d t) j = (if j = fst d then drop (fst (snd d)) (dirtyR t j) else dirtyR t j)"
    "dirtyD (dropPrefix d t) j = (if j = fst d then drop (snd (snd d)) (dirtyD t j) else dirtyD t j)"
    unfolding e by (simp_all add: d)
qed

lemma drop_inv:
  assumes inv: "merge_inv seed Ks (Dropping (d # ds)) t"
  shows "merge_inv seed Ks (Dropping ds) (dropPrefix d t)"
proof -
  obtain i nr nd where d: "d = (i, nr, nd)" by (cases d) auto
  let ?ph = "Dropping (d # ds)" and ?ph' = "Dropping ds" and ?t = "dropPrefix d t"
  note v = inv [unfolded merge_inv_def]
  have tt: "table_inv seed t" and i: "fst d < length (t_shards t)" "nr \<le> length (dirtyR t i)" "nd \<le> length (dirtyD t i)"
    and dist: "distinct (map fst (d # ds))"
    using v by (auto simp: pends_ok_def d)
  have si: "shardIdxOf t pk < length (t_shards t)" for pk using tt shardIdxOf_less by (simp add: table_inv_def)
  note p = dropPrefix_table [OF tt i(1)]
  have none: "map_of ds i = None" using dist by (auto simp: d map_of_eq_None_iff)
  have tl: "tailR ?ph' ?t j = tailR ?ph t j" "tailD ?ph' ?t j = tailD ?ph t j" if "j < length (t_shards t)" for j
    using p(3,4) [OF that] none by (auto simp: tailR_def tailD_def d)
  have sub: "set (tailR ?ph t j) \<subseteq> set (dirtyR t j)" for j by (auto simp: tailR_def dest: in_set_dropD)
  have rd: "dirtyR ?t j = (if j = i then tailR ?ph t i else dirtyR t j)"
    "dirtyD ?t j = (if j = i then tailD ?ph t i else dirtyD t j)" if "j < length (t_shards t)" for j
    using p(3,4) [OF that] by (simp_all add: tailR_def tailD_def d)
  have "pends_ok ?ph' ?t"
    unfolding pends_ok_def
  proof (intro conjI ballI)
    show "distinct (map fst (pends ?ph'))" using dist by simp
    fix x assume x: "x \<in> set (pends ?ph')"
    obtain j mr md where xx: "x = (j, mr, md)" by (cases x) auto
    have "j \<noteq> i" using dist x by (force simp: d xx)
    moreover have "j < length (t_shards t)" "mr \<le> length (dirtyR t j)" "md \<le> length (dirtyD t j)"
      using v x by (auto simp: pends_ok_def xx)
    ultimately show "case x of (i, nr, nd) \<Rightarrow> i < length (t_shards ?t) \<and> nr \<le> length (dirtyR ?t i) \<and> nd \<le> length (dirtyD ?t i)"
      by (simp add: xx rd)
  qed
  moreover have "at_home ?t"
  proof -
    have "set (dirtyR ?t j) \<subseteq> set (dirtyR t j)" "set (dirtyD ?t j) \<subseteq> set (dirtyD t j)" if "j < length (t_shards t)" for j
      using p(3,4) [OF that] by (auto dest: in_set_dropD)
    then show ?thesis using v by (fastforce simp: at_home_def)
  qed
  moreover have "reinserted ?ph' ?t" using v by (auto simp: reinserted_def p(2) tl [OF si] rd [OF si])
  moreover have "covered ?ph' ?t"
    using v by (simp add: covered_def tail_dirty_def p(2) tl [OF si] fresh_def)
  moreover have "idxs_ok Ks ?ph' ?t" using v by (simp add: idxs_ok_def)
  moreover have "typed Ks ?t" using v by (simp add: typed_def p(2))
  moreover have "counted ?t"
  proof -
    let ?l = "\<lambda>s. int (length (sh_dirtyRead s))"
    have "map ?l (t_shards ?t) = (map ?l (t_shards t))[i := int (length (dirtyR t i)) - int nr]"
      using i by (simp add: dropPrefix_def d map_update of_nat_diff)
    moreover have "t_readDirtyCount ?t = t_readDirtyCount t - int nr" by (simp add: dropPrefix_def d)
    ultimately show ?thesis using v i(1) by (simp add: counted_def sum_list_upd d)
  qed
  ultimately show ?thesis using p(1) by (simp add: merge_inv_def phase_ok_def moved_seen_def)
qed

lemma map_of_snoc: "fst d \<notin> fst ` set xs \<Longrightarrow> map_of (xs @ [d]) = map_of (d # xs)"
  by (induction xs) (auto simp: fun_eq_iff)

lemma mergeNext_inv:
  assumes inv: "merge_inv seed Ks ph t" and step: "mergeNext seed ph t = Some (ph', t')"
  shows "merge_inv seed Ks ph' t'"
proof (cases ph)
  case Idle
  then have "t' = t" "ph' = Idle \<or> ph' = Scan 0 [] (replicate (nIdx t) [])" using step by (auto simp: nIdx_def split: if_splits)
  then show ?thesis
    by (auto intro!: phase_step_inv [OF inv] simp: Idle pends_ok_def phase_ok_def)
next
  case (Scan i drops ch)
  note v = inv [unfolded merge_inv_def]
  consider (quit) "i \<ge> length (t_shards t)" "drops = []" | (fold) "i \<ge> length (t_shards t)" "drops \<noteq> []"
    | (skip) "i < length (t_shards t)" "dirtyR t i @ dirtyD t i = []" | (take) "i < length (t_shards t)" "dirtyR t i @ dirtyD t i \<noteq> []"
    by fastforce
  then show ?thesis
  proof cases
    case quit
    then have "ph' = Idle" "t' = t" "ch = replicate (nIdx t) []" using step v Scan by (simp_all add: phase_ok_def)
    then show ?thesis using quit by (auto intro!: phase_step_inv [OF inv] simp: Scan pends_ok_def phase_ok_def)
  next
    case fold
    then have "ph' = Folding 0 drops ch" "t' = t" using step Scan by simp_all
    then show ?thesis using v by (auto intro!: phase_step_inv [OF inv] simp: Scan pends_ok_def phase_ok_def)
  next
    case skip
    then have "ph' = Scan (i + 1) drops ch" "t' = t" using step Scan by (simp_all add: snapshotDirty_def Let_def)
    then show ?thesis using v by (auto intro!: phase_step_inv [OF inv] simp: Scan pends_ok_def phase_ok_def less_Suc_eq)
  next
    case take
    then have "ph' = Applying (i, length (dirtyR t i), length (dirtyD t i)) (dirtyR t i @ dirtyD t i) drops ch" "t' = t"
      using step Scan by (auto simp: snapshotDirty_def Let_def)
    then show ?thesis using snapshot_inv inv take(1) by (simp add: Scan)
  qed
next
  case (Applying d pks drops ch)
  note v = inv [unfolded merge_inv_def]
  show ?thesis
  proof (cases pks)
    case Nil
    then have e: "ph' = Scan (fst d + 1) (drops @ [d]) ch" "t' = t" using step Applying by simp_all
    have dd: "distinct (map fst (d # drops))" using v by (simp add: pends_ok_def Applying)
    have "map_of (drops @ [d]) = map_of (d # drops)" using dd by (intro map_of_snoc) simp
    then show ?thesis unfolding e using v dd
      by (auto intro!: phase_step_inv [OF inv] simp: Applying Nil pends_ok_def phase_ok_def less_Suc_eq)
  next
    case (Cons pk pks')
    then obtain ch' where "mergeOne seed pk (t, ch) = Some (t', ch')" "ph' = Applying d pks' drops ch'"
      using step Applying by (auto split: Option.bind_splits)
    with apply_inv inv show ?thesis by (simp add: Applying Cons)
  qed
next
  case (Folding k drops ch)
  show ?thesis
  proof (cases "k \<ge> length (t_indexes t)")
    case True
    then have "ph' = Dropping drops" "t' = t" using step Folding by simp_all
    moreover have "pends_ok ph t" using inv by (simp add: merge_inv_def)
    ultimately show ?thesis using True
      by (auto intro!: phase_step_inv [OF inv] simp: Folding pends_ok_def phase_ok_def nIdx_def)
  next
    case False
    then have "ph' = Folding (k + 1) drops ch" "t' = t\<lparr>t_indexes := (t_indexes t)[k := foldOne (ch ! k) (t_indexes t ! k)]\<rparr>"
      using step Folding by simp_all
    then show ?thesis using fold_inv inv False by (simp add: Folding)
  qed
next
  case (Dropping drops)
  show ?thesis
  proof (cases drops)
    case Nil
    then have "ph' = Idle" "t' = t" using step Dropping by simp_all
    then show ?thesis by (auto intro!: phase_step_inv [OF inv] simp: Dropping Nil pends_ok_def phase_ok_def)
  next
    case (Cons d ds)
    then have "ph' = Dropping ds" "t' = dropPrefix d t" using step Dropping by simp_all
    then show ?thesis using drop_inv inv by (simp add: Dropping Cons)
  qed
qed

lemma mergeNext_returns:
  assumes "merge_inv seed Ks ph t"
  shows "mergeNext seed ph t \<noteq> None"
proof (cases ph)
  case (Applying d pks drops ch)
  have v: "table_inv seed t" "length ch = length (t_indexes t)"
    using assms by (simp_all add: merge_inv_def phase_ok_def Applying nIdx_def)
  show ?thesis
  proof (cases pks)
    case (Cons pk pks')
    then show ?thesis by (simp add: Applying mergeOne_eq [OF v])
  qed (simp add: Applying)
next
  case (Dropping drops)
  then show ?thesis by (cases drops) simp_all
qed (auto simp: Let_def split: prod.splits)

end
