(* ===== verification/Selects.thy ===== *)
theory Selects
  imports TopN Plans IndexMerge PartitionStore
begin

text \<open>
  \<open>exec_select.go\<close>: the execution of a SELECT on one table, one function per access path.

  A run reads the table at one instant; the functions that read an index and the overlay at two
  instants take the two states as two arguments where a theorem needs them apart.  \<open>None\<close> is a panic,
  \<open>Some (Inl e)\<close> an error.  The column names a query returns are always \<open>pl_colNames\<close> and are left out.
  A result row is a window of one shared buffer that is only ever appended to, so a row is its cells.
\<close>

section \<open>Point reads\<close>

definition selOf :: "plan \<Rightarrow> selectStmt" where
  "selOf pl = (case pl_st pl of SelectStmt s \<Rightarrow> s)"

definition ctxOf :: "plan \<Rightarrow> Value list \<Rightarrow> evalCtx" where
  "ctxOf pl args = \<lparr>ec_row = [], ec_cols = colByName (pl_table pl), ec_args = args\<rparr>"

definition execSelectPKResolved :: "uint64 \<Rightarrow> table \<Rightarrow> plan \<Rightarrow> UUID \<Rightarrow> Row list res option" where
  "execSelectPKResolved seed t pl pk =
     (if s_limit (selOf pl) = 0 \<or> s_offset (selOf pl) > 0 then Some (Inr [])
      else if s_starAll (selOf pl) then do {
        r \<leftarrow> getByPK seed t pk;
        Some (Inr (case r of None \<Rightarrow> [] | Some r \<Rightarrow> [r]))
      } else do {
        r \<leftarrow> getByPKProject seed t pk (pl_projOrdinals pl);
        Some (Inr (case r of None \<Rightarrow> [] | Some r \<Rightarrow> [r]))
      })"

definition execSelectPK :: "uint64 \<Rightarrow> table \<Rightarrow> plan \<Rightarrow> Value \<Rightarrow> Row list res option" where
  "execSelectPK seed t pl keyVal =
     (if IsNull keyVal then Some (Inr [])
      else case coerceToUUID keyVal of
             Inl e \<Rightarrow> Some (Inl e)
           | Inr pk \<Rightarrow> execSelectPKResolved seed t pl pk)"

text \<open>The one-row forms: a nil row is \<open>None\<close>.\<close>

definition execSelectPKOneResolved :: "uint64 \<Rightarrow> table \<Rightarrow> plan \<Rightarrow> UUID \<Rightarrow> Row option res option" where
  "execSelectPKOneResolved seed t pl pk =
     (if s_limit (selOf pl) = 0 \<or> s_offset (selOf pl) > 0 then Some (Inr None)
      else if s_starAll (selOf pl) then map_option Inr (getByPK seed t pk)
      else map_option Inr (getByPKProject seed t pk (pl_projOrdinals pl)))"

definition execSelectPKOne :: "uint64 \<Rightarrow> table \<Rightarrow> plan \<Rightarrow> Value \<Rightarrow> Row option res option" where
  "execSelectPKOne seed t pl keyVal =
     (if IsNull keyVal then Some (Inr None)
      else case coerceToUUID keyVal of
             Inl e \<Rightarrow> Some (Inl e)
           | Inr pk \<Rightarrow> execSelectPKOneResolved seed t pl pk)"

definition projOf :: "plan \<Rightarrow> Row \<Rightarrow> Row" where
  "projOf pl r = (if s_starAll (selOf pl) then r else map (\<lambda>ord. r ! ord) (pl_projOrdinals pl))"

definition execSelectPKResidual :: "uint64 \<Rightarrow> table \<Rightarrow> plan \<Rightarrow> Value \<Rightarrow> Value list \<Rightarrow> Row list res option" where
  "execSelectPKResidual seed t pl keyVal args =
     (if s_limit (selOf pl) = 0 \<or> s_offset (selOf pl) > 0 then Some (Inr [])
      else if IsNull keyVal then Some (Inr [])
      else case coerceToUUID keyVal of
        Inl e \<Rightarrow> Some (Inl e)
      | Inr pk \<Rightarrow> do {
          r \<leftarrow> getByPK seed t pk;
          (case r of
             None \<Rightarrow> Some (Inr [])
           | Some r \<Rightarrow> do {
               ok \<leftarrow> rowMatcher (s_where (selOf pl)) (ctxOf pl args) r;
               Some (Inr (if ok then [projOf pl r] else []))
             })
        })"

section \<open>One candidate under its shard lock\<close>

text \<open>
  The live row of a key if it passes: shared by the readers below.  \<open>pred = None\<close> is a nil predicate,
  the caller guarantees the match.
\<close>

definition passingRow :: "uint64 \<Rightarrow> table \<Rightarrow> UUID \<Rightarrow> rowPred option \<Rightarrow> Row option option" where
  "passingRow seed t pk pred = do {
     found \<leftarrow> rowAt seed t pk;
     (case found of
        Some (_, Some r) \<Rightarrow> do {
          ok \<leftarrow> (case pred of None \<Rightarrow> Some True | Some p \<Rightarrow> p r);
          Some (if ok then Some r else None)
        }
      | _ \<Rightarrow> Some None)
   }"

definition offerLiveRow :: "uint64 \<Rightarrow> table \<Rightarrow> UUID \<Rightarrow> rowPred \<Rightarrow> topN \<Rightarrow> topN option" where
  "offerLiveRow seed t pk pred tn = do {
     r \<leftarrow> passingRow seed t pk (Some pred);
     (case r of None \<Rightarrow> Some tn | Some r \<Rightarrow> top_offer r tn)
   }"

definition collectLiveRow :: "uint64 \<Rightarrow> table \<Rightarrow> UUID \<Rightarrow> rowPred \<Rightarrow> topN \<Rightarrow> topN option" where
  "collectLiveRow seed t pk pred tn = do {
     r \<leftarrow> passingRow seed t pk (Some pred);
     (case r of None \<Rightarrow> Some tn | Some r \<Rightarrow> top_collect r tn)
   }"

definition getMatchProject :: "uint64 \<Rightarrow> table \<Rightarrow> UUID \<Rightarrow> rowPred \<Rightarrow> nat list \<Rightarrow> bool \<Rightarrow> Row option option" where
  "getMatchProject seed t pk pred ords starAll = do {
     r \<leftarrow> passingRow seed t pk (Some pred);
     Some (map_option (\<lambda>r. if starAll then Row_Clone r else projectClone r ords) r)
   }"

definition appendMatchProject :: "uint64 \<Rightarrow> table \<Rightarrow> UUID \<Rightarrow> rowPred option \<Rightarrow> nat list \<Rightarrow> bool \<Rightarrow> Value list \<Rightarrow> (Value list \<times> bool) option" where
  "appendMatchProject seed t pk pred ords starAll dst = do {
     r \<leftarrow> passingRow seed t pk pred;
     Some (case r of None \<Rightarrow> (dst, False)
       | Some r \<Rightarrow> (if starAll then appendRowClone dst r else appendProjectClone dst r ords, True))
   }"

definition getMatchProjectInto :: "uint64 \<Rightarrow> table \<Rightarrow> UUID \<Rightarrow> rowPred \<Rightarrow> nat list \<Rightarrow> bool \<Rightarrow> (Value list \<times> bool) option" where
  "getMatchProjectInto seed t pk pred ords starAll = appendMatchProject seed t pk (Some pred) ords starAll []"

section \<open>Candidate sets\<close>

record idxCandidateSet =
  ic_pks :: "UUID list"
  ic_dirty :: "UUID list"

definition capHint :: "idxCandidateSet \<Rightarrow> int \<Rightarrow> int" where
  "capHint c lim =
     (let n = int (length (ic_pks c) + length (ic_dirty c));
          n = (if lim \<ge> 0 \<and> lim < n then lim else n)
      in if n > 1024 then 1024 else n)"

text \<open>A loop over keys whose visitor may stop it (\<open>True\<close>) or panic.\<close>

fun visit_all :: "(UUID \<Rightarrow> 's \<Rightarrow> (bool \<times> 's) option) \<Rightarrow> UUID list \<Rightarrow> 's \<Rightarrow> (bool \<times> 's) option" where
  "visit_all fn [] s = Some (False, s)"
| "visit_all fn (pk # pks) s = do {
     (stop, s) \<leftarrow> fn pk s;
     if stop then Some (True, s) else visit_all fn pks s
   }"

definition visit_new :: "(UUID \<Rightarrow> 's \<Rightarrow> (bool \<times> 's) option) \<Rightarrow> UUID \<Rightarrow> UUID set \<times> 's \<Rightarrow> (bool \<times> UUID set \<times> 's) option" where
  "visit_new fn pk st = (case st of (seen, s) \<Rightarrow>
     if pk \<in> seen then Some (False, seen, s)
     else map_option (\<lambda>(stop, s). (stop, insert pk seen, s)) (fn pk s))"

definition emit :: "(UUID \<Rightarrow> 's \<Rightarrow> (bool \<times> 's) option) \<Rightarrow> idxCandidateSet \<Rightarrow> 's \<Rightarrow> 's option" where
  "emit fn c s =
     (if ic_dirty c = [] then map_option snd (visit_all fn (ic_pks c) s)
      else do {
        (stop, st) \<leftarrow> visit_all (visit_new fn) (ic_pks c) ({}, s);
        if stop then Some (snd st)
        else map_option (\<lambda>(stop, st). snd st) (visit_all (visit_new fn) (ic_dirty c) st)
      })"

text \<open>
  The index side: one bucket per pinned column, intersected; \<open>first\<close> is the \<open>i == 0\<close> iteration.  The
  result \<open>Inr None\<close> is the early return of an empty answer.
\<close>

fun idx_buckets :: "table \<Rightarrow> evalCtx \<Rightarrow> bool \<Rightarrow> UUID list \<Rightarrow> nat list \<Rightarrow> expr list \<Rightarrow> UUID list option res option" where
  "idx_buckets t ctx first pks (ord # ords) (src # srcs) =
     andThenP (evalExpr src ctx) (\<lambda>keyVal.
       if IsNull keyVal then Some (Inr None)
       else case indexFor ord (t_indexes t) of
              None \<Rightarrow> Some (Inr None)
            | Some si \<Rightarrow>
                let bucket = si_lookup (keyOf keyVal) si; pks' = (if first then bucket else intersectPKs pks bucket)
                in if pks' = [] then Some (Inr (Some [])) else idx_buckets t ctx False pks' ords srcs)"
| "idx_buckets t ctx first pks (ord # ords) [] = None"
| "idx_buckets t ctx first pks [] srcs = Some (Inr (Some pks))"

text \<open>The index is read in state \<open>t\<close>, the overlay afterwards, in state \<open>t'\<close>.\<close>

definition idxCandidates :: "uint64 \<Rightarrow> table \<Rightarrow> table \<Rightarrow> plan \<Rightarrow> evalCtx \<Rightarrow> idxCandidateSet option res option" where
  "idxCandidates seed t t' pl ctx =
     andThenP (idx_buckets t ctx True [] (pl_idxCols pl) (pl_idxSrcs pl)) (\<lambda>hits. case hits of
         None \<Rightarrow> Some (Inr None)
       | Some pks \<Rightarrow> do {
           dirty \<leftarrow> dirtyPKs seed t';
           Some (Inr (if pks = [] \<and> dirty = [] then None else Some \<lparr>ic_pks = pks, ic_dirty = dirty\<rparr>))
         })"

text \<open>The values of the pinned prefix; \<open>Inr None\<close> for a NULL among them.\<close>

fun prefix_values :: "evalCtx \<Rightarrow> expr list \<Rightarrow> Value list option res option" where
  "prefix_values ctx [] = Some (Inr (Some []))"
| "prefix_values ctx (src # srcs) =
     andThenP (evalExpr src ctx) (\<lambda>v.
       if IsNull v then Some (Inr None)
       else andThenP (prefix_values ctx srcs) (\<lambda>vs. Some (Inr (map_option ((#) v) vs))))"

definition compositeCandidates :: "uint64 \<Rightarrow> table \<Rightarrow> table \<Rightarrow> plan \<Rightarrow> evalCtx \<Rightarrow> idxCandidateSet option res option" where
  "compositeCandidates seed t t' pl ctx =
     (case indexByOrdinals (pl_compOrdinals pl) (t_indexes t) of
        None \<Rightarrow> Some (Inr None)
      | Some si \<Rightarrow> andThenP (prefix_values ctx (pl_compPrefixSrcs pl)) (\<lambda>vs. case vs of
            None \<Rightarrow> Some (Inr None)
          | Some vs \<Rightarrow> (let pks = prefixLookup (encodeCompositeKey vs) si in do {
              dirty \<leftarrow> dirtyPKs seed t';
              Some (Inr (if pks = [] \<and> dirty = [] then None else Some \<lparr>ic_pks = pks, ic_dirty = dirty\<rparr>))
            })))"

section \<open>Materialising candidates\<close>

text \<open>One candidate of the unordered path: append its cells, cut the row out of the buffer, test the bound.\<close>

definition packCandidate :: "uint64 \<Rightarrow> table \<Rightarrow> plan \<Rightarrow> rowPred option \<Rightarrow> int \<Rightarrow> UUID \<Rightarrow> Row list \<times> Value list \<Rightarrow>
    (bool \<times> Row list \<times> Value list) option" where
  "packCandidate seed t pl pred eff pk st = (case st of (out, packed) \<Rightarrow> do {
     (packed', ok) \<leftarrow> appendMatchProject seed t pk pred (pl_projOrdinals pl) (s_starAll (selOf pl)) packed;
     if \<not> ok then Some (False, out, packed')
     else let out' = out @ [drop (length packed) packed'] in
       Some (eff \<ge> 0 \<and> int (length out') \<ge> eff, out', packed')
   })"

definition execCandidates :: "uint64 \<Rightarrow> table \<Rightarrow> plan \<Rightarrow> evalCtx \<Rightarrow> idxCandidateSet \<Rightarrow> Row list res option" where
  "execCandidates seed t pl ctx cand =
     (let st = selOf pl; off = s_offset st; lim = s_limit st in
      if pl_orderOrdinal pl \<ge> 0 then
        (let pred = rowMatcher (s_where st) ctx; proj = projOrNil (s_starAll st) (pl_projOrdinals pl); ord = nat (pl_orderOrdinal pl) in
         if lim \<ge> 0 then do {
           tn \<leftarrow> emit (\<lambda>pk tn. map_option (Pair False) (offerLiveRow seed t pk pred tn)) cand
             (newTop ord (s_orderDesc st) (fetchBound lim off) proj);
           Some (Inr (sliceOffsetLimit (top_sorted tn) off lim))
         } else do {
           tn \<leftarrow> emit (\<lambda>pk tn. map_option (Pair False) (collectLiveRow seed t pk pred tn)) cand
             (newTop ord (s_orderDesc st) 0 proj);
           Some (Inr (sliceOffsetLimit (top_sorted tn) off lim))
         })
      else
        (let eff = fetchBound lim off;
             pred = (if pl_idxExact pl \<and> ic_dirty cand = [] then None else Some (rowMatcher (s_where st) ctx))
         in do {
           (out, packed) \<leftarrow> emit (packCandidate seed t pl pred eff) cand ([], []);
           Some (Inr (sliceOffsetLimit out off lim))
         }))"

section \<open>Index lookups\<close>

definition execGeneralIdx :: "uint64 \<Rightarrow> table \<Rightarrow> plan \<Rightarrow> Value list \<Rightarrow> Row list res option" where
  "execGeneralIdx seed t pl args =
     (let ctx = ctxOf pl args in andThenP (idxCandidates seed t t pl ctx) (\<lambda>cand. case cand of
         None \<Rightarrow> Some (Inr [])
       | Some cand \<Rightarrow> execCandidates seed t pl ctx cand))"

definition execSelectIdx :: "uint64 \<Rightarrow> table \<Rightarrow> plan \<Rightarrow> Value list \<Rightarrow> Row list res option" where
  "execSelectIdx seed t pl args =
     (let st = selOf pl in
      if s_limit st = 0 then Some (Inr [])
      else if pl_idxExact pl \<and> pl_orderOrdinal pl < 0 \<and> length (pl_idxCols pl) = 1 \<and> t_readDirtyCount t = 0 then
        (case evalLitOrParamValue (pl_idxSrcs pl ! 0) args of
           Inl e \<Rightarrow> Some (Inl e)
         | Inr keyVal \<Rightarrow>
             if IsNull keyVal then Some (Inr [])
             else (case indexFor (pl_idxCols pl ! 0) (t_indexes t) of
               Some si \<Rightarrow>
                 (let (pk, found, one) = lookupOne (keyOf keyVal) si in
                  if \<not> found then Some (Inr [])
                  else if one then
                    (if s_offset st > 0 then Some (Inr [])
                     else do {
                       r \<leftarrow> (if s_starAll st then getByPK seed t pk else getByPKProject seed t pk (pl_projOrdinals pl));
                       Some (Inr (case r of None \<Rightarrow> [] | Some r \<Rightarrow> [r]))
                     })
                  else execGeneralIdx seed t pl args)
             | None \<Rightarrow> execGeneralIdx seed t pl args))
      else execGeneralIdx seed t pl args)"

text \<open>The one-row form: the first candidate that passes.\<close>

fun first_match :: "uint64 \<Rightarrow> table \<Rightarrow> plan \<Rightarrow> rowPred \<Rightarrow> UUID list \<Rightarrow> Row option option" where
  "first_match seed t pl pred [] = Some None"
| "first_match seed t pl pred (pk # pks) = do {
     r \<leftarrow> getMatchProject seed t pk pred (pl_projOrdinals pl) (s_starAll (selOf pl));
     (case r of Some r \<Rightarrow> Some (Some r) | None \<Rightarrow> first_match seed t pl pred pks)
   }"

definition firstOfBuckets :: "uint64 \<Rightarrow> table \<Rightarrow> table \<Rightarrow> plan \<Rightarrow> Value list \<Rightarrow> Row option res option" where
  "firstOfBuckets seed t t' pl args =
     (let ctx = ctxOf pl args in andThenP (idx_buckets t ctx True [] (pl_idxCols pl) (pl_idxSrcs pl)) (\<lambda>hits. case hits of
         None \<Rightarrow> Some (Inr None)
       | Some pks \<Rightarrow>
           (let pred = rowMatcher (s_where (selOf pl)) ctx in do {
             r \<leftarrow> first_match seed t pl pred pks;
             (case r of
                Some r \<Rightarrow> Some (Inr (Some r))
              | None \<Rightarrow> do {
                  dirty \<leftarrow> dirtyPKs seed t';
                  r \<leftarrow> first_match seed t' pl pred dirty;
                  Some (Inr r)
                })
           })))"

definition execSelectIdxOne :: "uint64 \<Rightarrow> table \<Rightarrow> table \<Rightarrow> plan \<Rightarrow> Value list \<Rightarrow> Row option res option" where
  "execSelectIdxOne seed t t' pl args =
     (let st = selOf pl in
      if s_limit st = 0 then Some (Inr None)
      else if pl_idxExact pl \<and> length (pl_idxCols pl) = 1 \<and> t_readDirtyCount t = 0 then
        (case evalLitOrParamValue (pl_idxSrcs pl ! 0) args of
           Inl e \<Rightarrow> Some (Inl e)
         | Inr keyVal \<Rightarrow>
             if IsNull keyVal then Some (Inr None)
             else (case indexFor (pl_idxCols pl ! 0) (t_indexes t) of
               Some si \<Rightarrow>
                 (let (pk, found, one) = lookupOne (keyOf keyVal) si in
                  if \<not> found then Some (Inr None)
                  else if one then
                    map_option Inr (if s_starAll st then getByPK seed t pk else getByPKProject seed t pk (pl_projOrdinals pl))
                  else firstOfBuckets seed t t' pl args)
             | None \<Rightarrow> firstOfBuckets seed t t' pl args))
      else firstOfBuckets seed t t' pl args)"

definition execSelectCompositeLookup :: "uint64 \<Rightarrow> table \<Rightarrow> plan \<Rightarrow> evalCtx \<Rightarrow> Row list res option" where
  "execSelectCompositeLookup seed t pl ctx =
     (if s_limit (selOf pl) = 0 then Some (Inr [])
      else andThenP (compositeCandidates seed t t pl ctx) (\<lambda>cand. case cand of
         None \<Rightarrow> Some (Inr [])
       | Some cand \<Rightarrow> execCandidates seed t pl ctx cand))"

end
