(* ===== verification/Walks.thy ===== *)
theory Walks
  imports Selects
begin

text \<open>
  \<open>exec_select.go\<close>: the ordered walks over a sorted index merged with the dirty overlay, and the
  dispatch of a SELECT to its access path.
\<close>

section \<open>The dirty candidates\<close>

type_synonym dcand = "indexKey \<times> Row"

text \<open>The loop over the overlay; \<open>seen\<close> is the set \<open>dirtySet\<close> built so far.\<close>

fun dirty_loop :: "uint64 \<Rightarrow> table \<Rightarrow> rowPred \<Rightarrow> (Row \<Rightarrow> indexKey) \<Rightarrow> UUID list \<Rightarrow> UUID set \<Rightarrow> dcand list \<Rightarrow> (dcand list \<times> UUID set) option" where
  "dirty_loop seed t match keyFn [] seen dc = Some (dc, seen)"
| "dirty_loop seed t match keyFn (pk # pks) seen dc =
     (if pk \<in> seen then dirty_loop seed t match keyFn pks seen dc
      else do {
        r \<leftarrow> getByPK seed t pk;
        (case r of
           None \<Rightarrow> dirty_loop seed t match keyFn pks (insert pk seen) dc
         | Some r \<Rightarrow> do {
             ok \<leftarrow> match r;
             dirty_loop seed t match keyFn pks (insert pk seen) (if ok then dc @ [(keyFn r, r)] else dc)
           })
      })"

definition dcandCmp :: "dcand \<Rightarrow> dcand \<Rightarrow> int" where
  "dcandCmp a b = (if key_less (fst a) (fst b) then -1 else if key_less (fst b) (fst a) then 1 else 0)"

definition buildDirtyCands :: "uint64 \<Rightarrow> table \<Rightarrow> rowPred \<Rightarrow> (Row \<Rightarrow> indexKey) \<Rightarrow> (dcand list \<times> UUID set) option" where
  "buildDirtyCands seed t match keyFn = do {
     dirty \<leftarrow> dirtyPKs seed t;
     if dirty = [] then Some ([], {})
     else do {
       (dc, dirtySet) \<leftarrow> dirty_loop seed t match keyFn dirty {} [];
       Some (slices_SortFunc dcandCmp dc, dirtySet)
     }
   }"

section \<open>Merging the two streams\<close>

text \<open>
  The two cursors as the rest of each stream in the requested order: a descending walk moves from the
  back, so its streams are reversed.
\<close>

definition keyBefore :: "bool \<Rightarrow> indexKey \<Rightarrow> indexKey \<Rightarrow> bool" where
  "keyBefore desc a b = (if desc then key_less b a else key_less a b)"

lemma dropWhile_length: "x # xs' = dropWhile P xs \<Longrightarrow> Suc (length xs') \<le> length xs"
  by (metis length_Cons length_dropWhile_le)

function merge_streams :: "bool \<Rightarrow> UUID set \<Rightarrow> ('s \<Rightarrow> bool) \<Rightarrow> (UUID \<Rightarrow> 's \<Rightarrow> 's option) \<Rightarrow> (Row \<Rightarrow> 's \<Rightarrow> 's option) \<Rightarrow>
    ordEntry list \<Rightarrow> dcand list \<Rightarrow> 's \<Rightarrow> 's option" where
  "merge_streams desc shadow done' emitIdx emitDirty xs ys s =
     (if done' s then Some s
      else (case (dropWhile (\<lambda>e. oe_pk e \<in> shadow) xs, ys) of
         (x # xs', y # ys') \<Rightarrow>
           if keyBefore desc (fst y) (oe_key x)
           then Option.bind (emitDirty (snd y) s) (merge_streams desc shadow done' emitIdx emitDirty (x # xs') ys')
           else Option.bind (emitIdx (oe_pk x) s) (merge_streams desc shadow done' emitIdx emitDirty xs' (y # ys'))
       | ([], y # ys') \<Rightarrow> Option.bind (emitDirty (snd y) s) (merge_streams desc shadow done' emitIdx emitDirty [] ys')
       | (x # xs', []) \<Rightarrow> Option.bind (emitIdx (oe_pk x) s) (merge_streams desc shadow done' emitIdx emitDirty xs' [])
       | ([], []) \<Rightarrow> Some s))"
  by pat_completeness auto

termination
proof (relation "measure (\<lambda>(desc, shadow, d, ei, ed, xs, ys, s). length xs + length ys)", goal_cases)
  case 1
  show ?case by simp
qed (auto dest: dropWhile_length simp: le_imp_less_Suc length_dropWhile_le)

declare merge_streams.simps [simp del]

definition mergeOrderedStreams :: "ordEntry list \<Rightarrow> dcand list \<Rightarrow> UUID set \<Rightarrow> bool \<Rightarrow> ('s \<Rightarrow> bool) \<Rightarrow> (UUID \<Rightarrow> 's \<Rightarrow> 's option) \<Rightarrow>
    (Row \<Rightarrow> 's \<Rightarrow> 's option) \<Rightarrow> 's \<Rightarrow> 's option" where
  "mergeOrderedStreams snap dc dirtySet desc done' emitIdx emitDirty s =
     merge_streams desc dirtySet done' emitIdx emitDirty (if desc then rev snap else snap) (if desc then rev dc else dc) s"

section \<open>Range bounds on the ORDER BY column\<close>

definition flipRangeOp :: "tokenKind \<Rightarrow> tokenKind" where
  "flipRangeOp op = (case op of tkLt \<Rightarrow> tkGt | tkLte \<Rightarrow> tkGte | tkGt \<Rightarrow> tkLt | tkGte \<Rightarrow> tkLte | _ \<Rightarrow> op)"

text \<open>An absent bound is \<open>None\<close>.\<close>

type_synonym rangeBound = "(Value \<times> tokenKind) option"

definition isCol :: "nat \<Rightarrow> expr \<Rightarrow> bool" where
  "isCol ord e = (case e of ColRef cr \<Rightarrow> cr_ord cr = int ord | _ \<Rightarrow> False)"

text \<open>The operator and the value of a conjunct that compares the column with a literal or parameter.\<close>

definition rangeOf :: "nat \<Rightarrow> expr \<Rightarrow> (tokenKind \<times> expr) option" where
  "rangeOf ord c = (case c of
       BinOp op lhs rhs \<Rightarrow>
         if isCol ord lhs \<and> isLitOrParam rhs then Some (op, rhs)
         else if isCol ord rhs \<and> isLitOrParam lhs then Some (flipRangeOp op, lhs) else None
     | _ \<Rightarrow> None)"

fun orderColumnRange :: "expr list \<Rightarrow> nat \<Rightarrow> Value list \<Rightarrow> rangeBound \<times> rangeBound \<Rightarrow> rangeBound \<times> rangeBound" where
  "orderColumnRange [] ord args b = b"
| "orderColumnRange (c # cs) ord args (lo, hi) = orderColumnRange cs ord args
     (case rangeOf ord c of
        None \<Rightarrow> (lo, hi)
      | Some (op, e) \<Rightarrow> (case evalLitOrParamValue e args of
            Inl _ \<Rightarrow> (lo, hi)
          | Inr v \<Rightarrow>
              if op = tkGt \<or> op = tkGte then (if lo = None then (Some (v, op), hi) else (lo, hi))
              else if op = tkLt \<or> op = tkLte then (if hi = None then (lo, Some (v, op)) else (lo, hi))
              else (lo, hi)))"

definition seekLow :: "rangeBound \<Rightarrow> ordEntry list \<Rightarrow> nat" where
  "seekLow lo snap = (case lo of
       None \<Rightarrow> 0
     | Some (v, op) \<Rightarrow>
         if IsNull v \<or> kkind (keyOf v) \<noteq> kkind (oe_key (snap ! 0)) then 0
         else if op = tkGt then sort_Search (length snap) (\<lambda>i. key_less (keyOf v) (oe_key (snap ! i)))
         else sort_Search (length snap) (\<lambda>i. \<not> key_less (oe_key (snap ! i)) (keyOf v)))"

definition seekHigh :: "rangeBound \<Rightarrow> ordEntry list \<Rightarrow> nat" where
  "seekHigh hi snap = (case hi of
       None \<Rightarrow> length snap
     | Some (v, op) \<Rightarrow>
         if IsNull v \<or> kkind (keyOf v) \<noteq> kkind (oe_key (snap ! 0)) then length snap
         else if op = tkLt then sort_Search (length snap) (\<lambda>i. \<not> key_less (oe_key (snap ! i)) (keyOf v))
         else sort_Search (length snap) (\<lambda>i. key_less (keyOf v) (oe_key (snap ! i))))"

definition seekOrderedSnap :: "ordEntry list \<Rightarrow> expr list \<Rightarrow> nat \<Rightarrow> Value list \<Rightarrow> ordEntry list" where
  "seekOrderedSnap snap conjs ord args =
     (if snap = [] then snap
      else let (lo, hi) = orderColumnRange conjs ord args (None, None);
               start = seekLow lo snap; end' = seekHigh hi snap
           in if start \<ge> end' then [] else drop start (take end' snap))"

section \<open>The walks\<close>

text \<open>What a walk needs: the index slice, the key of a dirty row, the residual conjuncts.\<close>

type_synonym walkArgs = "ordEntry list \<times> (Row \<Rightarrow> indexKey) \<times> expr list"

definition orderedWalkArgs :: "table \<Rightarrow> plan \<Rightarrow> Value list \<Rightarrow> walkArgs option" where
  "orderedWalkArgs t pl args =
     (let ord = nat (pl_orderOrdinal pl) in
      case indexFor ord (t_indexes t) of
        None \<Rightarrow> None
      | Some si \<Rightarrow>
          (let residual = collectConjuncts (s_where (selOf pl))
           in Some (seekOrderedSnap (si_sorted si) residual ord args, \<lambda>r. keyOf (r ! ord), residual)))"

definition compositeWalkArgs :: "table \<Rightarrow> plan \<Rightarrow> Value list \<Rightarrow> walkArgs option res option" where
  "compositeWalkArgs t pl args =
     (case indexByOrdinals (pl_compOrdinals pl) (t_indexes t) of
        None \<Rightarrow> Some (Inr None)
      | Some si \<Rightarrow> andThenP (prefix_values (ctxOf pl args) (pl_compPrefixSrcs pl)) (\<lambda>vs. case vs of
            None \<Rightarrow> Some (Inr None)
          | Some vs \<Rightarrow> Some (Inr (Some (snapshotPrefix (encodeCompositeKey vs) si,
              \<lambda>r. encodeCompositeKey (map (\<lambda>o'. r ! o') (si_ordinals si)), pl_compResidual pl)))))"

text \<open>
  \<open>make([]Value, 0, n)\<close> panics when \<open>n\<close> is negative or \<open>n\<close> times the 32 bytes of a \<open>Value\<close> is over the
  address space the runtime manages (48 bits).
\<close>

definition makeValues :: "int \<Rightarrow> unit option" where
  "makeValues n = (if n < 0 \<or> n * 32 > 2 ^ 48 then None else Some ())"

definition cloneProj :: "plan \<Rightarrow> Row \<Rightarrow> Row" where
  "cloneProj pl r = (if s_starAll (selOf pl) then appendRowClone [] r else appendProjectClone [] r (pl_projOrdinals pl))"

definition emitIndexRow :: "uint64 \<Rightarrow> table \<Rightarrow> plan \<Rightarrow> rowPred option \<Rightarrow> UUID \<Rightarrow> Row list \<Rightarrow> Row list option" where
  "emitIndexRow seed t pl pred pk out = do {
     (cells, ok) \<leftarrow> appendMatchProject seed t pk pred (pl_projOrdinals pl) (s_starAll (selOf pl)) [];
     Some (if ok then out @ [cells] else out)
   }"

definition orderedWalk :: "uint64 \<Rightarrow> table \<Rightarrow> plan \<Rightarrow> Value list \<Rightarrow> walkArgs \<Rightarrow> Row list res option" where
  "orderedWalk seed t pl args w = (case w of (snap, dirtyKey, residual) \<Rightarrow>
     (let st = selOf pl in
      if s_limit st = 0 then Some (Inr [])
      else let ctx = ctxOf pl args; matches = rowMatcher (s_where st) ctx; passResidual = conjunctsMatcher residual ctx in do {
        (dc, dirtySet) \<leftarrow> buildDirtyCands seed t matches dirtyKey;
        let eff = fetchBound (s_limit st) (s_offset st);
            width = int (if s_starAll st then length (tColumns (rt_def (pl_table pl))) else length (pl_projOrdinals pl)) in do {
        _ \<leftarrow> (if eff \<ge> 0 then makeValues (wrap64 (eff * width)) else Some ());
        out \<leftarrow> mergeOrderedStreams snap dc dirtySet (s_orderDesc st) (\<lambda>out. eff \<ge> 0 \<and> int (length out) \<ge> eff)
          (emitIndexRow seed t pl (if residual = [] then None else Some passResidual))
          (\<lambda>row out. Some (out @ [cloneProj pl row])) [];
        Some (Inr (sliceOffsetLimit out (s_offset st) (s_limit st)))
      }}))"

definition execSelectOrderedWalk :: "uint64 \<Rightarrow> table \<Rightarrow> plan \<Rightarrow> Value list \<Rightarrow> Row list res option" where
  "execSelectOrderedWalk seed t pl args =
     (case orderedWalkArgs t pl args of None \<Rightarrow> Some (Inr []) | Some w \<Rightarrow> orderedWalk seed t pl args w)"

definition execSelectCompositeWalk :: "uint64 \<Rightarrow> table \<Rightarrow> plan \<Rightarrow> Value list \<Rightarrow> Row list res option" where
  "execSelectCompositeWalk seed t pl args =
     andThenP (compositeWalkArgs t pl args) (\<lambda>w. case w of
        None \<Rightarrow> Some (Inr [])
      | Some w \<Rightarrow> orderedWalk seed t pl args w)"

section \<open>The streaming walk\<close>

text \<open>\<open>visit\<close> consumes a row and answers whether to go on; \<open>deliver\<close> applies OFFSET and LIMIT on the way.\<close>

record 's visitState =
  vs_skipped :: int
  vs_n :: int
  vs_stop :: bool
  vs_acc :: 's

definition deliver :: "plan \<Rightarrow> (Row \<Rightarrow> 's \<Rightarrow> bool \<times> 's) \<Rightarrow> Row \<Rightarrow> 's visitState \<Rightarrow> 's visitState" where
  "deliver pl visit r v =
     (let st = selOf pl in
      if vs_skipped v < s_offset st then v\<lparr>vs_skipped := vs_skipped v + 1\<rparr>
      else let (go, acc) = visit (projOf pl r) (vs_acc v) in
        if \<not> go then v\<lparr>vs_acc := acc, vs_stop := True\<rparr>
        else let n = vs_n v + 1 in
          v\<lparr>vs_acc := acc, vs_n := n, vs_stop := (vs_stop v \<or> (s_limit st \<ge> 0 \<and> n \<ge> s_limit st))\<rparr>)"

definition orderedWalkEach :: "uint64 \<Rightarrow> table \<Rightarrow> plan \<Rightarrow> Value list \<Rightarrow> walkArgs \<Rightarrow> (Row \<Rightarrow> 's \<Rightarrow> bool \<times> 's) \<Rightarrow> 's \<Rightarrow> 's option" where
  "orderedWalkEach seed t pl args w visit acc = (case w of (snap, dirtyKey, residual) \<Rightarrow>
     (let st = selOf pl in
      if s_limit st = 0 then Some acc
      else let ctx = ctxOf pl args; matches = rowMatcher (s_where st) ctx; passResidual = conjunctsMatcher residual ctx in do {
        (dc, dirtySet) \<leftarrow> buildDirtyCands seed t matches dirtyKey;
        v \<leftarrow> mergeOrderedStreams snap dc dirtySet (s_orderDesc st) vs_stop
          (\<lambda>pk v. do {
             r \<leftarrow> passingRow seed t pk (if residual = [] then None else Some passResidual);
             Some (case r of None \<Rightarrow> v | Some r \<Rightarrow> deliver pl visit r v)
           })
          (\<lambda>row v. Some (deliver pl visit row v)) \<lparr>vs_skipped = 0, vs_n = 0, vs_stop = False, vs_acc = acc\<rparr>;
        Some (vs_acc v)
      }))"

section \<open>The dispatch\<close>

text \<open>One scanned row: test it, project it, and stop at the bound; a panic ends the scan.\<close>

definition scanRow :: "plan \<Rightarrow> rowPred option \<Rightarrow> int \<Rightarrow> Row \<Rightarrow> Row list option \<Rightarrow> bool \<times> Row list option" where
  "scanRow pl match eff r acc = (case acc of
       None \<Rightarrow> (False, None)
     | Some out \<Rightarrow> (case (case match of None \<Rightarrow> Some True | Some p \<Rightarrow> p r) of
          None \<Rightarrow> (False, None)
        | Some False \<Rightarrow> (True, Some out)
        | Some True \<Rightarrow>
            (let out' = out @ [cloneProj pl r]
             in (\<not> (eff \<ge> 0 \<and> int (length out') \<ge> eff), Some out'))))"

definition scanTop :: "(Row \<Rightarrow> topN \<Rightarrow> topN option) \<Rightarrow> rowPred option \<Rightarrow> Row \<Rightarrow> topN option \<Rightarrow> bool \<times> topN option" where
  "scanTop add match r acc = (case acc of
       None \<Rightarrow> (False, None)
     | Some tn \<Rightarrow> (case (case match of None \<Rightarrow> Some True | Some p \<Rightarrow> p r) of
          None \<Rightarrow> (False, None)
        | Some False \<Rightarrow> (True, Some tn)
        | Some True \<Rightarrow> (case add r tn of None \<Rightarrow> (False, None) | Some tn' \<Rightarrow> (True, Some tn'))))"

text \<open>A scan of the table, of one partition, or of one partition from its end.\<close>

datatype scanKind = ScanTable | ScanPartition UUID | ScanPartitionRev UUID

definition runScan :: "scanKind \<Rightarrow> (Row \<Rightarrow> 's \<Rightarrow> bool \<times> 's) \<Rightarrow> table \<Rightarrow> 's \<Rightarrow> 's" where
  "runScan k fn t acc = (case k of
       ScanTable \<Rightarrow> scanAll fn t acc
     | ScanPartition part \<Rightarrow> scanPartition part fn t acc
     | ScanPartitionRev part \<Rightarrow> scanPartitionRev part fn t acc)"

definition scanSelect :: "table \<Rightarrow> plan \<Rightarrow> rowPred option \<Rightarrow> UUID option \<Rightarrow> Row list res option" where
  "scanSelect t pl match part =
     (let st = selOf pl; off = s_offset st; lim = s_limit st; proj = projOrNil (s_starAll st) (pl_projOrdinals pl) in
      if pl_orderOrdinal pl < 0 then
        (if lim = 0 then Some (Inr [])
         else do {
           out \<leftarrow> runScan (case part of None \<Rightarrow> ScanTable | Some p \<Rightarrow> ScanPartition p) (scanRow pl match (fetchBound lim off)) t (Some []);
           Some (Inr (sliceOffsetLimit out off lim))
         })
      else
        (let kind = (case part of None \<Rightarrow> ScanTable | Some p \<Rightarrow> if s_orderDesc st then ScanPartitionRev p else ScanPartition p);
             ord = nat (pl_orderOrdinal pl) in
         if lim = 0 then Some (Inr [])
         else if lim > 0 then do {
           tn \<leftarrow> runScan kind (scanTop top_offer match) t (Some (newTop ord (s_orderDesc st) (fetchBound lim off) proj));
           Some (Inr (sliceOffsetLimit (top_sorted tn) off lim))
         } else do {
           tn \<leftarrow> runScan kind (scanTop top_collect match) t (Some (newTop ord (s_orderDesc st) 0 proj));
           Some (Inr (sliceOffsetLimit (top_sorted tn) off lim))
         }))"

definition execSelect :: "uint64 \<Rightarrow> table \<Rightarrow> plan \<Rightarrow> Value list \<Rightarrow> Row list res option" where
  "execSelect seed t pl args =
     (let st = selOf pl; ctx = ctxOf pl args in
      if pl_pkLookup pl then andThenP (evalExpr (pl_pkSource pl) ctx) (execSelectPK seed t pl)
      else if pl_idxLookup pl then execSelectIdx seed t pl args
      else if pl_compWalk pl then execSelectCompositeWalk seed t pl args
      else if pl_compLookup pl then execSelectCompositeLookup seed t pl ctx
      else if pl_orderWalk pl then execSelectOrderedWalk seed t pl args
      else if pl_pkProbe pl \<noteq> NilExpr then
        andThenP (evalExpr (pl_pkProbe pl) ctx) (\<lambda>keyVal. execSelectPKResidual seed t pl keyVal args)
      else if pl_partLookup pl then
        andThenP (evalExpr (pl_partSource pl) ctx) (\<lambda>pv.
          if IsNull pv then Some (Inr [])
          else case coerceToUUID pv of
                 Inl e \<Rightarrow> Some (Inl e)
               | Inr part \<Rightarrow> scanSelect t pl None (Some part))
      else scanSelect t pl (Some (rowMatcher (s_where st) ctx)) None)"

text \<open>\<open>queryPlanV\<close> (db_query.go) for a SELECT that does not count, with the arguments already typed.\<close>

definition checkArgs :: "plan \<Rightarrow> int \<Rightarrow> unit res" where
  "checkArgs pl n = (if n \<noteq> pl_nparams pl then Inl ErrParamMismatch else Inr ())"

definition queryPlanV :: "uint64 \<Rightarrow> table \<Rightarrow> plan \<Rightarrow> Value list \<Rightarrow> Row list res option" where
  "queryPlanV seed t pl vargs =
     (case checkArgs pl (int (length vargs)) of
        Inl e \<Rightarrow> Some (Inl e)
      | Inr u \<Rightarrow> (case coerceParams pl vargs of
          Inl e \<Rightarrow> Some (Inl e)
        | Inr args \<Rightarrow>
            if pl_pkLookup pl then
              (case evalLitOrParamValue (pl_pkSource pl) args of
                 Inl e \<Rightarrow> Some (Inl e)
               | Inr keyVal \<Rightarrow> execSelectPK seed t pl keyVal)
            else if pl_idxLookup pl then execSelectIdx seed t pl args
            else execSelect seed t pl args))"

end
