(* ===== verification/PlanPaths.thy ===== *)
theory PlanPaths
  imports Plans
begin

text \<open>
  What the access path of a plan says about the rows the statement's WHERE accepts: every recorded
  pin is implied by the WHERE, and the paths that skip the row check are exact.
\<close>

section \<open>Bound expressions\<close>

fun bound :: "resolvedTable \<Rightarrow> expr \<Rightarrow> bool" where
  "bound rt (ColRef cr) = (\<exists>o'. colByName rt (cr_name cr) = Some o' \<and> cr_ord cr = int o')"
| "bound rt (BinOp op lhs rhs) = (bound rt lhs \<and> bound rt rhs)"
| "bound rt (NotExpr e) = bound rt e"
| "bound rt (IsNullExpr e neg) = bound rt e"
| "bound rt e = True"

lemma validateExpr_bound: "validateExpr e rt alias = Inr e' \<Longrightarrow> bound rt e'"
  by (induction e arbitrary: e') (auto simp: andThen_eq_Inr split: if_splits option.splits)

lemma validateExpr_Nil [simp]: "validateExpr e rt alias = Inr NilExpr \<longleftrightarrow> e = NilExpr"
  by (cases e) (auto simp: andThen_eq_Inr split: if_splits option.splits)

lemma find_SomeD: "List.find P xs = Some x \<Longrightarrow> x \<in> set xs \<and> P x"
  by (induction xs) (auto split: if_splits)

section \<open>Rows a WHERE accepts\<close>

lemma Value_Equal_sym: "Value_Equal a b = Value_Equal b a"
  by (auto simp: Value_Equal_def split: ValueKind.splits)

definition passes :: "expr \<Rightarrow> evalCtx \<Rightarrow> Row \<Rightarrow> bool" where
  "passes e ctx row \<longleftrightarrow> rowMatcher e ctx row = Some True"

definition pin_holds :: "Value list \<Rightarrow> Row \<Rightarrow> nat \<times> expr \<Rightarrow> bool" where
  "pin_holds args row p \<longleftrightarrow>
     (\<exists>v. evalLitOrParamValue (snd p) args = Inr v \<and> fst p < length row \<and> Value_Equal (row ! fst p) v)"

lemma allMatch_True: "allMatch ms row = Some True \<longleftrightarrow> (\<forall>m \<in> set ms. m row = Some True)"
  by (induction ms) (auto split: Option.bind_splits if_splits)

lemma passes_conjuncts: "passes e ctx row \<longleftrightarrow> (\<forall>c \<in> set (collectConjuncts e). passes c ctx row)"
  by (simp add: passes_def rowMatcher_interp interp_conjuncts [of e] allMatch_True)

lemma passes_residual: "conjunctsMatcher cs ctx row = Some True \<longleftrightarrow> (\<forall>c \<in> set cs. passes c ctx row)"
  by (simp add: passes_def conjunctsMatcher_all allMatch_True rowMatcher_interp)

text \<open>\<open>is_pin c o' src\<close>: the conjunct \<open>c\<close> is the equality of column \<open>o'\<close> with \<open>src\<close>, in either order.\<close>

definition is_pin :: "expr \<Rightarrow> nat \<Rightarrow> expr \<Rightarrow> bool" where
  "is_pin c o' src \<longleftrightarrow> (\<exists>lhs rhs cr. c = BinOp tkEq lhs rhs \<and> colAndLit lhs rhs = Some (cr, src) \<and> cr_ord cr = int o')"

lemma colAndLit_cases:
  assumes "colAndLit lhs rhs = Some (cr, v)"
  shows "isLitOrParam v" and "(lhs = ColRef cr \<and> rhs = v) \<or> (rhs = ColRef cr \<and> lhs = v)"
  using assms by (cases lhs; cases rhs; auto simp: colAndLit_def isLitOrParam_def)+

lemma is_pin_unique: "is_pin c o1 s1 \<Longrightarrow> is_pin c o2 s2 \<Longrightarrow> o1 = o2 \<and> s1 = s2"
  by (auto simp: is_pin_def)

lemma eval_src: "isLitOrParam e \<Longrightarrow> evalExpr e ctx = Some (evalLitOrParamValue e (ec_args ctx))"
  by (cases e) (auto simp: isLitOrParam_def evalLitOrParamValue_def)

lemma passes_pin:
  assumes "is_pin c o' src"
  shows "passes c ctx row \<longleftrightarrow> pin_holds (ec_args ctx) row (o', src)"
proof -
  obtain lhs rhs cr where c: "c = BinOp tkEq lhs rhs" "colAndLit lhs rhs = Some (cr, src)" "cr_ord cr = int o'"
    using assms by (auto simp: is_pin_def)
  let ?c = "ctx\<lparr>ec_row := row\<rparr>"
  have src: "evalExpr src ?c = Some (evalLitOrParamValue src (ec_args ctx))" using eval_src [OF colAndLit_cases(1) [OF c(2)], of ?c] by simp
  have col: "evalExpr (ColRef cr) ?c = (if o' < length row then Some (Inr (row ! o')) else None)"
    using c(3) by (simp add: cellAt_def)
  from colAndLit_cases(2) [OF c(2)] show ?thesis
    using src col
    by (cases "evalLitOrParamValue src (ec_args ctx)"; cases "o' < length row")
      (auto simp: c(1) passes_def rowMatcher_interp interpMatcher_def pin_holds_def evalBin_def Value_Equal_sym simp del: evalExpr.simps(2))
qed

section \<open>The equalities the planner collects\<close>

lemma collectEq_eq:
  "collectEqConjuncts (BinOp tkEq lhs rhs) out =
     (case colAndLit lhs rhs of Some (cr, v) \<Rightarrow> if cr_ord cr \<ge> 0 then out(nat (cr_ord cr) \<mapsto> v) else out | None \<Rightarrow> out)"
  by (cases lhs; cases rhs) (auto simp: colAndLit_def isLitOrParam_def)

lemma collectEq_pin:
  "collectEqConjuncts e out o' = Some src \<Longrightarrow> out o' = Some src \<or> (\<exists>c \<in> set (collectConjuncts e). is_pin c o' src)"
proof (induction e out arbitrary: src rule: collectEqConjuncts.induct)
  case (1 op lhs rhs out)
  consider "op = tkAnd" | "op = tkEq" | "op \<noteq> tkAnd" "op \<noteq> tkEq" by blast
  then show ?case
  proof cases
    case 1
    with "1.IH" "1.prems" show ?thesis by fastforce
  next
    case 2
    with "1.prems" show ?thesis
      by (auto simp: collectEq_eq is_pin_def simp del: collectEqConjuncts.simps split: option.splits if_splits prod.splits)
  qed (use "1.prems" in simp)
qed auto

lemma eqs_pin: "collectEqConjuncts e Map.empty o' = Some src \<Longrightarrow> \<exists>c \<in> set (collectConjuncts e). is_pin c o' src"
  using collectEq_pin [of e Map.empty] by simp

lemma eqs_implied:
  "collectEqConjuncts e Map.empty o' = Some src \<Longrightarrow> passes e ctx row \<Longrightarrow> pin_holds (ec_args ctx) row (o', src)"
  using eqs_pin [of e o' src] passes_pin passes_conjuncts by blast

lemma isPin_is_pin:
  "isPin eqs os c \<longleftrightarrow> (\<exists>o' src. o' \<in> set os \<and> eqs o' = Some src \<and> is_pin c o' src)"
  by (cases c) (auto simp: isPin_def is_pin_def split: option.splits)


section \<open>Bare equalities\<close>

lemma detectColEq_pin:
  assumes d: "detectColEq e rt ordinal = Some src" and b: "bound rt e" and wf: "wf_table rt"
    and r: "0 \<le> ordinal" "ordinal < int (length (tColumns (rt_def rt)))"
  shows "is_pin e (nat ordinal) src" and "collectConjuncts e = [e]"
proof -
  let ?name = "cName (tColumns (rt_def rt) ! nat ordinal)"
  have nm: "colByName rt ?name = Some (nat ordinal)" using wf r by (simp add: wf_table_def Let_def)
  obtain lhs rhs where e: "e = BinOp tkEq lhs rhs" using d by (cases e) (auto simp: detectColEq_def split: if_splits)
  obtain cr where cr: "colAndLit lhs rhs = Some (cr, src)" "cr_name cr = ?name" "lhs = ColRef cr \<or> rhs = ColRef cr"
    using d by (cases lhs; cases rhs)
      (auto simp: e detectColEq_def columnAt_def colAndLit_def isLitOrParam_def Let_def split: if_splits)
  then have "cr_ord cr = int (nat ordinal)" using b nm by (auto simp: e)
  then show "is_pin e (nat ordinal) src" using cr by (auto simp: is_pin_def e)
  show "collectConjuncts e = [e]" by (simp add: e)
qed

lemma pk_in_range: "wf_table rt \<Longrightarrow> 0 \<le> pkOrdinal rt \<and> pkOrdinal rt < int (length (tColumns (rt_def rt)))"
  by (simp add: wf_table_def Let_def)

lemma part_in_range: "wf_table rt \<Longrightarrow> partitioned rt \<Longrightarrow> 0 \<le> partitionOrdinal rt \<and> partitionOrdinal rt < int (length (tColumns (rt_def rt)))"
  by (simp add: wf_table_def partitioned_def Let_def)

section \<open>Index pins\<close>

lemma idxPairs_set:
  "set (idxPairs eqs ris) = {(o', src). eqs o' = Some src \<and> (\<exists>ri \<in> set ris. ri_ordinals ri = [o'])}"
proof (induction ris)
  case (Cons ri ris)
  show ?case
  proof (cases "length (ri_ordinals ri) = 1")
    case True
    then obtain o' where "ri_ordinals ri = [o']" by (auto simp: length_Suc_conv)
    then show ?thesis using Cons by (auto split: option.splits)
  qed (use Cons in auto)
qed simp

lemma idxPairs_distinct: "distinct (map ri_ordinals ris) \<Longrightarrow> distinct (map fst (idxPairs eqs ris))"
proof (induction ris)
  case (Cons ri ris)
  show ?case
  proof (cases "length (ri_ordinals ri) = 1")
    case True
    then obtain o' where o': "ri_ordinals ri = [o']" by (auto simp: length_Suc_conv)
    moreover have "o' \<notin> fst ` set (idxPairs eqs ris)" using Cons.prems o' by (force simp: idxPairs_set)
    ultimately show ?thesis using Cons by (auto split: option.splits)
  qed (use Cons in auto)
qed simp

lemma idxPairs_implied:
  assumes "passes wher ctx row" and "p \<in> set (idxPairs (collectEqConjuncts wher Map.empty) ris)"
  shows "pin_holds (ec_args ctx) row p"
  using assms eqs_implied by (auto simp: idxPairs_set)

text \<open>As many conjuncts as pins, on different columns: then the conjuncts are the pins.\<close>

lemma idxPairs_exact:
  assumes d: "distinct (map ri_ordinals ris)" and len: "length (collectConjuncts wher) = length (idxPairs (collectEqConjuncts wher Map.empty) ris)"
  shows "passes wher ctx row \<longleftrightarrow> (\<forall>p \<in> set (idxPairs (collectEqConjuncts wher Map.empty) ris). pin_holds (ec_args ctx) row p)"
proof
  let ?ps = "idxPairs (collectEqConjuncts wher Map.empty) ris" and ?cs = "collectConjuncts wher"
  assume all: "\<forall>p \<in> set ?ps. pin_holds (ec_args ctx) row p"
  have ex: "\<exists>c \<in> set ?cs. is_pin c (fst p) (snd p)" if "p \<in> set ?ps" for p
    using that eqs_pin by (auto simp: idxPairs_set)
  define f where "f p = (SOME c. c \<in> set ?cs \<and> is_pin c (fst p) (snd p))" for p
  have f: "f p \<in> set ?cs \<and> is_pin (f p) (fst p) (snd p)" if "p \<in> set ?ps" for p
    using someI_ex [of "\<lambda>c. c \<in> set ?cs \<and> is_pin c (fst p) (snd p)"] ex [OF that] unfolding f_def by blast
  have inj: "inj_on f (set ?ps)"
  proof (rule inj_onI)
    fix p q assume "p \<in> set ?ps" "q \<in> set ?ps" "f p = f q"
    then have "is_pin (f p) (fst p) (snd p)" "is_pin (f p) (fst q) (snd q)" using f [of p] f [of q] by simp_all
    from is_pin_unique [OF this] show "p = q" by (simp add: prod_eq_iff)
  qed
  have "distinct ?ps" using idxPairs_distinct [OF d] by (simp add: distinct_map)
  then have "card (f ` set ?ps) = length ?cs" using inj len by (simp add: card_image distinct_card)
  moreover have sub: "f ` set ?ps \<subseteq> set ?cs" using f by blast
  ultimately have img: "f ` set ?ps = set ?cs" using card_length [of ?cs] by (intro card_seteq) simp_all
  have "passes (f p) ctx row" if "p \<in> set ?ps" for p
    using f [OF that] all that passes_pin [of "f p" "fst p" "snd p" ctx row] by simp
  then have "\<forall>c \<in> f ` set ?ps. passes c ctx row" by simp
  then have "\<forall>c \<in> set ?cs. passes c ctx row" by (simp only: img)
  then show "passes wher ctx row" by (simp add: passes_conjuncts [of wher])
qed (use idxPairs_implied in blast)

section \<open>Composite prefixes\<close>

lemma pinned_run_pins: "j < pinned_run eqs os \<Longrightarrow> j < length os \<and> (\<exists>src. eqs (os ! j) = Some src)"
proof (induction os arbitrary: j)
  case (Cons o' os)
  then show ?case by (cases j) (auto split: option.splits)
qed simp

lemma pinned_run_le: "pinned_run eqs os \<le> length os"
  by (induction os) (auto split: option.splits)

lemma compositePrefix_pins:
  assumes "j < compositePrefix rt ri eqs"
  shows "j < length (ri_ordinals ri)" "\<exists>src. eqs (ri_ordinals ri ! j) = Some src"
    "ri_ordered ri" "\<not> anyNullable rt (ri_ordinals ri)" "length (ri_ordinals ri) \<ge> 2"
  using assms pinned_run_pins [of j eqs "ri_ordinals ri"] by (auto simp: compositePrefix_def split: if_splits)

lemma compositePrefix_le: "compositePrefix rt ri eqs \<le> length (ri_ordinals ri)"
  by (simp add: compositePrefix_def pinned_run_le)

lemma prefixSrcs_pairs:
  assumes "k \<le> compositePrefix rt ri eqs"
  shows "set (zip (ri_ordinals ri) (prefixSrcs ri eqs k)) = {(o', src). o' \<in> set (take k (ri_ordinals ri)) \<and> eqs o' = Some src}"
    "length (prefixSrcs ri eqs k) = k"
proof -
  have le: "k \<le> length (ri_ordinals ri)" using assms compositePrefix_le le_trans by blast
  have pin: "\<exists>src. eqs (ri_ordinals ri ! j) = Some src" if "j < k" for j
    using that assms by (intro compositePrefix_pins(2) [of j rt]) simp
  show len: "length (prefixSrcs ri eqs k) = k" by (simp add: prefixSrcs_def)
  have nth: "zip (ri_ordinals ri) (prefixSrcs ri eqs k) ! j = (ri_ordinals ri ! j, the (eqs (ri_ordinals ri ! j)))" if "j < k" for j
    using that le pin [OF that] by (auto simp: prefixSrcs_def)
  show "set (zip (ri_ordinals ri) (prefixSrcs ri eqs k)) = {(o', src). o' \<in> set (take k (ri_ordinals ri)) \<and> eqs o' = Some src}"
    (is "?l = ?r")
  proof
    show "?l \<subseteq> ?r"
    proof
      fix p assume "p \<in> ?l"
      then obtain j where j: "j < k" "p = zip (ri_ordinals ri) (prefixSrcs ri eqs k) ! j" using le len by (auto simp: in_set_conv_nth)
      then show "p \<in> ?r" using nth [OF j(1)] pin [OF j(1)] le by (auto simp: in_set_conv_nth intro!: exI [of _ j])
    qed
    show "?r \<subseteq> ?l"
    proof
      fix p assume "p \<in> ?r"
      then obtain j where j: "j < k" "fst p = ri_ordinals ri ! j" "eqs (fst p) = Some (snd p)" using le by (auto simp: in_set_conv_nth)
      then have "p = zip (ri_ordinals ri) (prefixSrcs ri eqs k) ! j" using nth [OF j(1)] by (simp add: prod_eq_iff)
      then show "p \<in> ?l" using j(1) le len by (auto simp: in_set_zip)
    qed
  qed
qed

lemma prefix_implied:
  assumes "passes wher ctx row" and "p \<in> set (zip (ri_ordinals ri) (prefixSrcs ri (collectEqConjuncts wher Map.empty) k))"
    and "k \<le> compositePrefix rt ri (collectEqConjuncts wher Map.empty)"
  shows "pin_holds (ec_args ctx) row p"
  using assms eqs_implied by (auto simp: prefixSrcs_pairs(1) [OF assms(3)])

lemma residual_exact:
  fixes wher defines "eqs \<equiv> collectEqConjuncts wher Map.empty"
  assumes k: "k \<le> compositePrefix rt ri eqs"
  shows "passes wher ctx row \<longleftrightarrow> (\<forall>p \<in> set (zip (ri_ordinals ri) (prefixSrcs ri eqs k)). pin_holds (ec_args ctx) row p) \<and>
    (\<forall>c \<in> set (filter (\<lambda>c. \<not> isPin eqs (take k (ri_ordinals ri)) c) (collectConjuncts wher)). passes c ctx row)"
    (is "_ \<longleftrightarrow> ?pins \<and> ?rest")
proof
  assume "passes wher ctx row"
  then show "?pins \<and> ?rest" using prefix_implied [of wher ctx row _ ri k rt] k passes_conjuncts [of wher] unfolding eqs_def by auto
next
  assume a: "?pins \<and> ?rest"
  have "passes c ctx row" if c: "c \<in> set (collectConjuncts wher)" for c
  proof (cases "isPin eqs (take k (ri_ordinals ri)) c")
    case True
    then obtain o' src where p: "o' \<in> set (take k (ri_ordinals ri))" "eqs o' = Some src" "is_pin c o' src"
      by (auto simp: isPin_is_pin)
    then have "(o', src) \<in> set (zip (ri_ordinals ri) (prefixSrcs ri eqs k))" by (simp add: prefixSrcs_pairs(1) [OF k])
    then show ?thesis using a p(3) passes_pin by blast
  qed (use a c in auto)
  then show "passes wher ctx row" by (simp add: passes_conjuncts [of wher])
qed


section \<open>The plan of a statement\<close>

text \<open>What the recorded sources of a plan mean for its WHERE.\<close>

definition paths_sound :: "plan \<Rightarrow> expr \<Rightarrow> bool" where
  "paths_sound pl wher \<longleftrightarrow> (\<forall>ctx row. let holds = pin_holds (ec_args ctx) row; ok = passes wher ctx row; t = pl_table pl in
     (pl_pkLookup pl \<longrightarrow> (ok \<longleftrightarrow> holds (nat (pkOrdinal t), pl_pkSource pl))) \<and>
     (pl_partLookup pl \<longrightarrow> (ok \<longleftrightarrow> holds (nat (partitionOrdinal t), pl_partSource pl))) \<and>
     (pl_pkProbe pl \<noteq> NilExpr \<and> ok \<longrightarrow> holds (nat (pkOrdinal t), pl_pkProbe pl)) \<and>
     (pl_idxLookup pl \<and> ok \<longrightarrow> (\<forall>p \<in> set (zip (pl_idxCols pl) (pl_idxSrcs pl)). holds p)) \<and>
     (pl_idxLookup pl \<and> pl_idxExact pl \<longrightarrow> (ok \<longleftrightarrow> (\<forall>p \<in> set (zip (pl_idxCols pl) (pl_idxSrcs pl)). holds p))) \<and>
     (pl_compLookup pl \<and> ok \<longrightarrow> (\<forall>p \<in> set (zip (pl_compOrdinals pl) (pl_compPrefixSrcs pl)). holds p)) \<and>
     (pl_compWalk pl \<longrightarrow> (ok \<longleftrightarrow> (\<forall>p \<in> set (zip (pl_compOrdinals pl) (pl_compPrefixSrcs pl)). holds p) \<and>
        (\<forall>c \<in> set (pl_compResidual pl). passes c ctx row)) \<and>
        set (pl_compResidual pl) \<subseteq> set (collectConjuncts wher)))"

text \<open>Which fields are set together.\<close>

definition composite_shape :: "plan \<Rightarrow> bool" where
  "composite_shape pl \<longleftrightarrow> (\<exists>ri \<in> set (rt_indexes (pl_table pl)). ri_ordinals ri = pl_compOrdinals pl \<and> ri_ordered ri \<and>
     \<not> anyNullable (pl_table pl) (pl_compOrdinals pl) \<and> length (pl_compOrdinals pl) \<ge> 2 \<and>
     pl_compPrefixSrcs pl \<noteq> [] \<and> length (pl_compPrefixSrcs pl) \<le> length (pl_compOrdinals pl) \<and>
     (\<forall>e \<in> set (pl_compPrefixSrcs pl). isLitOrParam e))"

definition paths_shaped :: "plan \<Rightarrow> bool" where
  "paths_shaped pl \<longleftrightarrow>
     (pl_pkLookup pl \<longrightarrow> isLitOrParam (pl_pkSource pl)) \<and>
     (pl_partLookup pl \<longrightarrow> partitioned (pl_table pl) \<and> isLitOrParam (pl_partSource pl)) \<and>
     (pl_pkProbe pl \<noteq> NilExpr \<longrightarrow> \<not> partitioned (pl_table pl) \<and> isLitOrParam (pl_pkProbe pl)) \<and>
     (pl_idxLookup pl \<longrightarrow> pl_idxCols pl \<noteq> [] \<and> length (pl_idxSrcs pl) = length (pl_idxCols pl) \<and> (\<forall>e \<in> set (pl_idxSrcs pl). isLitOrParam e) \<and>
        (\<forall>o' \<in> set (pl_idxCols pl). \<exists>ri \<in> set (rt_indexes (pl_table pl)). ri_ordinals ri = [o'])) \<and>
     (pl_compLookup pl \<or> pl_compWalk pl \<longrightarrow> composite_shape pl) \<and>
     (pl_compWalk pl \<longrightarrow> length (pl_compPrefixSrcs pl) < length (pl_compOrdinals pl) \<and>
        pl_orderOrdinal pl = int (pl_compOrdinals pl ! length (pl_compPrefixSrcs pl))) \<and>
     (pl_orderWalk pl \<longrightarrow> pl_orderOrdinal pl \<ge> 0 \<and> orderedIndexOn (pl_table pl) (nat (pl_orderOrdinal pl)) \<and>
        \<not> cNullable (columnAt (pl_table pl) (nat (pl_orderOrdinal pl)))) \<and>
     (pl_idxExact pl \<longrightarrow> pl_idxLookup pl)"

text \<open>No access path chosen yet.\<close>

definition no_path :: "plan \<Rightarrow> bool" where
  "no_path pl \<longleftrightarrow> \<not> pl_pkLookup pl \<and> \<not> pl_partLookup pl \<and> pl_pkProbe pl = NilExpr \<and> \<not> pl_idxLookup pl \<and>
     \<not> pl_compLookup pl \<and> \<not> pl_compWalk pl \<and> \<not> pl_orderWalk pl \<and> \<not> pl_idxExact pl"

lemmas path_defs = paths_sound_def paths_shaped_def no_path_def Let_def

lemma no_path_ok: "no_path pl \<Longrightarrow> paths_sound pl wher \<and> paths_shaped pl"
  by (simp add: path_defs)

lemma eqs_lit: "collectEqConjuncts e Map.empty o' = Some src \<Longrightarrow> isLitOrParam src"
  using eqs_pin [of e o' src] colAndLit_cases(1) by (auto simp: is_pin_def)

lemma bare_ok:
  assumes "is_pin wher o' src" and "collectConjuncts wher = [wher]"
  shows "passes wher ctx row \<longleftrightarrow> pin_holds (ec_args ctx) row (o', src)" "isLitOrParam src"
  using passes_pin [OF assms(1)] assms(1) colAndLit_cases(1) by (auto simp: is_pin_def)

lemma zip_setIdx: "zip (map fst ps) (map snd ps) = ps"
  by (induction ps) auto

lemma setIdx_ok:
  fixes wher defines "eqs \<equiv> collectEqConjuncts wher Map.empty"
  assumes np: "no_path pl" and d: "distinct (map ri_ordinals (rt_indexes (pl_table pl)))"
    and ex: "pl_idxExact pl' \<longrightarrow> idxPairs eqs (rt_indexes (pl_table pl)) \<noteq> [] \<and>
      length (collectConjuncts wher) = length (idxPairs eqs (rt_indexes (pl_table pl)))"
    and pl': "pl' = (setIdx (idxPairs eqs (rt_indexes (pl_table pl))) pl)\<lparr>pl_idxExact := x\<rparr>"
  shows "paths_sound pl' wher \<and> paths_shaped pl'"
proof -
  let ?ps = "idxPairs eqs (rt_indexes (pl_table pl))"
  have "\<forall>e \<in> snd ` set ?ps. isLitOrParam e" unfolding eqs_def by (auto simp: idxPairs_set eqs_lit)
  moreover have "\<forall>o' \<in> fst ` set ?ps. \<exists>ri \<in> set (rt_indexes (pl_table pl)). ri_ordinals ri = [o']" by (auto simp: idxPairs_set)
  ultimately have "paths_shaped pl'" using np ex by (simp add: path_defs pl' setIdx_def)
  moreover have "paths_sound pl' wher"
    using np ex idxPairs_implied [of wher _ _ _ "rt_indexes (pl_table pl)"] idxPairs_exact [OF d, of wher]
    unfolding path_defs pl' setIdx_def eqs_def by (simp add: zip_setIdx)
  ultimately show ?thesis by blast
qed

lemma composite_ok:
  fixes wher defines "eqs \<equiv> collectEqConjuncts wher Map.empty"
  assumes ri: "ri \<in> set (rt_indexes rt)" and k: "compositePrefix rt ri eqs = k" "k \<noteq> 0" and rt: "pl_table pl = rt"
    and c: "pl_compOrdinals pl = ri_ordinals ri" "pl_compPrefixSrcs pl = prefixSrcs ri eqs k"
  shows "composite_shape pl"
    "passes wher ctx row \<Longrightarrow> \<forall>p \<in> set (zip (pl_compOrdinals pl) (pl_compPrefixSrcs pl)). pin_holds (ec_args ctx) row p"
proof -
  have k0: "0 < compositePrefix rt ri eqs" using k by simp
  note s = compositePrefix_pins [OF k0] prefixSrcs_pairs [of k rt ri eqs]
  have len: "length (prefixSrcs ri eqs k) = k" using k by (intro prefixSrcs_pairs(2) [of k rt]) simp
  have le: "k \<le> length (ri_ordinals ri)" using compositePrefix_le [of rt ri eqs] k by simp
  have "\<exists>src. eqs (ri_ordinals ri ! j) = Some src" if "j < k" for j using compositePrefix_pins(2) [of j rt ri eqs] that k by simp
  then have "\<forall>e \<in> set (prefixSrcs ri eqs k). isLitOrParam e"
    using eqs_lit unfolding prefixSrcs_def eqs_def by (fastforce simp: image_iff)
  then show "composite_shape pl" using s(3-5) ri k(2) len le by (auto simp: composite_shape_def rt c intro!: bexI [of _ ri])
  show "passes wher ctx row \<Longrightarrow> \<forall>p \<in> set (zip (pl_compOrdinals pl) (pl_compPrefixSrcs pl)). pin_holds (ec_args ctx) row p"
    using prefix_implied [of wher ctx row _ ri k rt] k unfolding c eqs_def by auto
qed

lemma planCompositeWalk_Some:
  assumes "planCompositeWalk rt wher eqs orderOrdinal pl = Some q"
  obtains ri where "ri \<in> set (rt_indexes rt)" "walkUsable rt eqs orderOrdinal ri"
    "q = pl\<lparr>pl_compOrdinals := ri_ordinals ri, pl_compPrefixSrcs := prefixSrcs ri eqs (compositePrefix rt ri eqs), pl_compWalk := True,
      pl_compResidual := filter (\<lambda>c. \<not> isPin eqs (take (compositePrefix rt ri eqs) (ri_ordinals ri)) c) (collectConjuncts wher)\<rparr>"
  using assms by (auto simp: planCompositeWalk_def Let_def split: if_splits option.splits dest!: find_SomeD)

lemma planIndexes_ok:
  assumes np: "no_path pl" and d: "distinct (map ri_ordinals (rt_indexes rt))" and rt: "pl_table pl = rt"
  shows "paths_sound (planIndexes rt wher pl) wher \<and> paths_shaped (planIndexes rt wher pl) \<and> \<not> pl_pkLookup (planIndexes rt wher pl) \<and>
    pl_table (planIndexes rt wher pl) = rt \<and> pl_orderOrdinal (planIndexes rt wher pl) = pl_orderOrdinal pl"
proof -
  let ?eqs = "collectEqConjuncts wher Map.empty"
  have count: "paths_sound (q\<lparr>pl_countIdxBucket := b\<rparr>) wher = paths_sound q wher" "paths_shaped (q\<lparr>pl_countIdxBucket := b\<rparr>) = paths_shaped q" for q b
    by (simp_all add: path_defs composite_shape_def)
  show ?thesis
  proof (cases "planCompositeWalk rt wher ?eqs (pl_orderOrdinal pl) pl")
    case (Some q)
    then obtain ri where ri: "ri \<in> set (rt_indexes rt)" "walkUsable rt ?eqs (pl_orderOrdinal pl) ri"
      and q: "q = pl\<lparr>pl_compOrdinals := ri_ordinals ri, pl_compPrefixSrcs := prefixSrcs ri ?eqs (compositePrefix rt ri ?eqs), pl_compWalk := True,
        pl_compResidual := filter (\<lambda>c. \<not> isPin ?eqs (take (compositePrefix rt ri ?eqs) (ri_ordinals ri)) c) (collectConjuncts wher)\<rparr>"
      by (rule planCompositeWalk_Some)
    let ?k = "compositePrefix rt ri ?eqs"
    have k: "?k \<noteq> 0" "?k < length (ri_ordinals ri)" "int (ri_ordinals ri ! ?k) = pl_orderOrdinal pl"
      using ri(2) by (simp_all add: walkUsable_def Let_def)
    have t: "pl_table q = rt" "pl_compOrdinals q = ri_ordinals ri" "pl_compPrefixSrcs q = prefixSrcs ri ?eqs ?k" by (simp_all add: q rt)
    have shape: "composite_shape q" by (rule composite_ok(1) [OF ri(1) refl k(1) t])
    have len: "length (prefixSrcs ri ?eqs ?k) = ?k" by (rule prefixSrcs_pairs(2) [of _ rt]) simp
    have "paths_sound q wher" using np residual_exact [of ?k rt ri wher] by (simp add: path_defs q)
    moreover have "paths_shaped q" using np shape k len by (simp add: path_defs q composite_shape_def)
    moreover have "planIndexes rt wher pl = q" using Some np by (simp add: planIndexes_def path_defs q)
    moreover have "\<not> pl_pkLookup q" using np by (simp add: q no_path_def)
    ultimately show ?thesis using t(1) by (simp add: q)
  next
    case None
    let ?ps = "idxPairs ?eqs (rt_indexes rt)"
    let ?n = "pl_countStar pl \<and> length ?ps = 1 \<and> isBareEq wher"
    show ?thesis
    proof (cases "?ps = []")
      case False
      define q where "q = (setIdx ?ps pl)\<lparr>pl_idxExact := length (collectConjuncts wher) = length ?ps\<rparr>"
      have p: "planIndexes rt wher pl = (if ?n then q\<lparr>pl_countIdxBucket := True\<rparr> else q)"
        using None False by (simp add: planIndexes_def Let_def q_def setIdx_def)
      have "paths_sound q wher \<and> paths_shaped q"
        by (rule setIdx_ok [OF np]) (use d False in \<open>simp_all add: rt q_def setIdx_def\<close>)
      then show ?thesis using np by (simp add: p count) (simp add: q_def setIdx_def rt no_path_def)
    next
      case True
      define q where "q = planCompositeLookup rt ?eqs (setIdx [] pl)"
      have nop: "no_path (setIdx [] pl)" using np by (simp add: no_path_def setIdx_def)
      have "pl_idxLookup q = False" by (simp add: q_def planCompositeLookup_def setIdx_def split: option.split)
      then have p: "planIndexes rt wher pl = q" using None True by (simp add: planIndexes_def Let_def q_def setIdx_def)
      have "paths_sound q wher \<and> paths_shaped q \<and> \<not> pl_pkLookup q \<and> pl_table q = rt \<and> pl_orderOrdinal q = pl_orderOrdinal pl"
      proof (cases "List.find (\<lambda>ri. compositePrefix rt ri ?eqs \<noteq> 0) (rt_indexes rt)")
        case None
        then have "q = setIdx [] pl" by (simp add: q_def planCompositeLookup_def)
        then show ?thesis using no_path_ok [OF nop] nop by (simp add: no_path_def) (simp add: setIdx_def rt)
      next
        case (Some ri)
        then have ri: "ri \<in> set (rt_indexes rt)" "compositePrefix rt ri ?eqs \<noteq> 0" by (auto dest: find_SomeD)
        have q: "q = (setIdx [] pl)\<lparr>pl_compOrdinals := ri_ordinals ri, pl_compPrefixSrcs := prefixSrcs ri ?eqs (compositePrefix rt ri ?eqs), pl_compLookup := True\<rparr>"
          using Some by (simp add: q_def planCompositeLookup_def)
        have t: "pl_table q = rt" "pl_compOrdinals q = ri_ordinals ri" "pl_compPrefixSrcs q = prefixSrcs ri ?eqs (compositePrefix rt ri ?eqs)"
          by (simp_all add: q setIdx_def rt)
        note c = composite_ok [OF ri(1) refl ri(2) t]
        have "paths_sound q wher" using nop c(2) by (simp add: path_defs q)
        moreover have "paths_shaped q" using nop c(1) by (simp add: path_defs q composite_shape_def)
        ultimately show ?thesis using nop t(1) by (simp add: q no_path_def) (simp add: setIdx_def)
      qed
      then show ?thesis by (simp add: p)
    qed
  qed
qed


lemma paths_probe:
  assumes "paths_sound pl wher" and "paths_shaped pl" and "\<not> partitioned (pl_table pl)" and "isLitOrParam e"
    and "\<And>ctx row. passes wher ctx row \<Longrightarrow> pin_holds (ec_args ctx) row (nat (pkOrdinal (pl_table pl)), e)"
  shows "paths_sound (pl\<lparr>pl_pkProbe := e\<rparr>) wher" "paths_shaped (pl\<lparr>pl_pkProbe := e\<rparr>)"
proof -
  let ?q = "pl\<lparr>pl_pkProbe := e\<rparr>"
  have q: "pl_pkLookup ?q = pl_pkLookup pl" "pl_pkSource ?q = pl_pkSource pl" "pl_partLookup ?q = pl_partLookup pl" "pl_partSource ?q = pl_partSource pl"
    "pl_pkProbe ?q = e" "pl_idxLookup ?q = pl_idxLookup pl" "pl_idxCols ?q = pl_idxCols pl" "pl_idxSrcs ?q = pl_idxSrcs pl" "pl_idxExact ?q = pl_idxExact pl"
    "pl_compLookup ?q = pl_compLookup pl" "pl_compWalk ?q = pl_compWalk pl" "pl_compOrdinals ?q = pl_compOrdinals pl"
    "pl_compPrefixSrcs ?q = pl_compPrefixSrcs pl" "pl_compResidual ?q = pl_compResidual pl" "pl_table ?q = pl_table pl" by simp_all
  show "paths_sound ?q wher"
    using assms(1,5) unfolding paths_sound_def Let_def q by (intro allI conjI) blast+
  show "paths_shaped (pl\<lparr>pl_pkProbe := e\<rparr>)"
    using assms(2-4) by (simp add: paths_shaped_def composite_shape_def)
qed

lemma planPKProbe_ok:
  assumes "paths_sound pl wher" and "paths_shaped pl" and rt: "pl_table pl = rt"
  shows "paths_sound (planPKProbe rt wher pl) wher \<and> paths_shaped (planPKProbe rt wher pl)"
proof -
  have "planPKProbe rt wher pl = pl \<or> (\<exists>src. \<not> partitioned rt \<and>
      collectEqConjuncts wher Map.empty (nat (pkOrdinal rt)) = Some src \<and> planPKProbe rt wher pl = pl\<lparr>pl_pkProbe := src\<rparr>)"
    by (simp add: planPKProbe_def split: option.split)
  then consider "planPKProbe rt wher pl = pl"
    | src where "\<not> partitioned rt" "collectEqConjuncts wher Map.empty (nat (pkOrdinal rt)) = Some src" "planPKProbe rt wher pl = pl\<lparr>pl_pkProbe := src\<rparr>"
    by blast
  then show ?thesis
  proof cases
    case (2 src)
    then show ?thesis using paths_probe [OF assms(1,2), of src] eqs_implied [OF 2(2)] eqs_lit [OF 2(2)] by (simp add: rt)
  qed (use assms in simp)
qed

lemma planWhere_cases:
  "planWhere rt wher pl = pl \<or>
   (\<exists>src. detectPKEq wher rt = Some src \<and> planWhere rt wher pl = pl\<lparr>pl_pkLookup := True, pl_pkSource := src\<rparr>) \<or>
   (\<exists>src. partitioned rt \<and> detectColEq wher rt (partitionOrdinal rt) = Some src \<and>
      planWhere rt wher pl = pl\<lparr>pl_partLookup := True, pl_partSource := src\<rparr>) \<or>
   planWhere rt wher pl = planIndexes rt wher pl"
  by (simp add: planWhere_def split: option.split)

lemma planWriteWhere_cases:
  "planWriteWhere rt wher pl = pl \<or>
   (\<exists>src. detectPKEq wher rt = Some src \<and> planWriteWhere rt wher pl = pl\<lparr>pl_pkLookup := True, pl_pkSource := src\<rparr>) \<or>
   planWriteWhere rt wher pl = planPKProbe rt wher (planIndexEq rt wher pl)"
  by (simp add: planWriteWhere_def split: option.split)

lemma planWhere_ok:
  assumes np: "no_path pl" and wf: "wf_table rt" and b: "bound rt wher" and rt: "pl_table pl = rt"
  shows "paths_sound (planWhere rt wher pl) wher \<and> paths_shaped (planWhere rt wher pl) \<and> pl_pkProbe (planWhere rt wher pl) = NilExpr \<and>
    pl_table (planWhere rt wher pl) = rt \<and> pl_orderOrdinal (planWhere rt wher pl) = pl_orderOrdinal pl \<and> \<not> pl_orderWalk (planWhere rt wher pl)"
proof -
  have d: "distinct (map ri_ordinals (rt_indexes rt))" using wf by (simp add: wf_table_def Let_def)
  consider (none) "planWhere rt wher pl = pl"
    | (pk) src where "detectPKEq wher rt = Some src" "planWhere rt wher pl = pl\<lparr>pl_pkLookup := True, pl_pkSource := src\<rparr>"
    | (part) src where "partitioned rt" "detectColEq wher rt (partitionOrdinal rt) = Some src"
        "planWhere rt wher pl = pl\<lparr>pl_partLookup := True, pl_partSource := src\<rparr>"
    | (idx) "planWhere rt wher pl = planIndexes rt wher pl"
    using planWhere_cases [of rt wher pl] by blast
  then show ?thesis
  proof cases
    case none
    then show ?thesis using no_path_ok [OF np] np rt by (simp add: no_path_def)
  next
    case (pk src)
    from detectColEq_pin [OF pk(1) [unfolded detectPKEq_def] b wf] pk_in_range [OF wf]
    have "is_pin wher (nat (pkOrdinal rt)) src" "collectConjuncts wher = [wher]" by simp_all
    note e = bare_ok [OF this]
    show ?thesis unfolding pk(2) using np rt e by (simp add: path_defs)
  next
    case (part src)
    from detectColEq_pin [OF part(2) b wf] part_in_range [OF wf part(1)]
    have "is_pin wher (nat (partitionOrdinal rt)) src" "collectConjuncts wher = [wher]" by simp_all
    note e = bare_ok [OF this]
    show ?thesis unfolding part(3) using np rt e part(1) by (simp add: path_defs)
  next
    case idx
    have "pl_pkProbe (planIndexes rt wher pl) = NilExpr \<and> \<not> pl_orderWalk (planIndexes rt wher pl)"
      using np by (auto simp: planIndexes_def planCompositeWalk_def planCompositeLookup_def setIdx_def no_path_def Let_def split: option.splits)
    then show ?thesis using planIndexes_ok [OF np d rt] by (simp add: idx)
  qed
qed

lemma paths_order:
  "paths_sound (pl\<lparr>pl_orderWalk := b\<rparr>) wher = paths_sound pl wher"
  "paths_shaped pl \<Longrightarrow> pl_orderOrdinal pl \<ge> 0 \<Longrightarrow> orderedIndexOn (pl_table pl) (nat (pl_orderOrdinal pl)) \<Longrightarrow>
     \<not> cNullable (columnAt (pl_table pl) (nat (pl_orderOrdinal pl))) \<Longrightarrow> paths_shaped (pl\<lparr>pl_orderWalk := True\<rparr>)"
  by (simp_all add: path_defs composite_shape_def)

lemma planOrderWalk_ok:
  assumes "paths_sound pl wher" and "paths_shaped pl" and "s_orderCol s \<noteq> [] \<longrightarrow> pl_orderOrdinal pl \<ge> 0" and "pl_table pl = rt"
  shows "paths_sound (planOrderWalk s rt pl) wher \<and> paths_shaped (planOrderWalk s rt pl)"
  using assms paths_order(2) [of pl] by (simp add: planOrderWalk_def paths_order(1))

lemma planPKProbe_fields [simp]:
  "pl_st (planPKProbe rt w pl) = pl_st pl" "pl_table (planPKProbe rt w pl) = pl_table pl"
  "pl_projOrdinals (planPKProbe rt w pl) = pl_projOrdinals pl" "pl_orderOrdinal (planPKProbe rt w pl) = pl_orderOrdinal pl"
  by (simp_all add: planPKProbe_def split: option.split)

lemma planOrderWalk_fields [simp]:
  "pl_st (planOrderWalk s rt pl) = pl_st pl" "pl_table (planOrderWalk s rt pl) = pl_table pl"
  "pl_projOrdinals (planOrderWalk s rt pl) = pl_projOrdinals pl" "pl_orderOrdinal (planOrderWalk s rt pl) = pl_orderOrdinal pl"
  "pl_pkProbe (planOrderWalk s rt pl) = pl_pkProbe pl"
  by (simp_all add: planOrderWalk_def)

lemma planWhere_fields [simp]:
  "pl_st (planWhere rt w pl) = pl_st pl" "pl_table (planWhere rt w pl) = pl_table pl"
  "pl_projOrdinals (planWhere rt w pl) = pl_projOrdinals pl" "pl_orderOrdinal (planWhere rt w pl) = pl_orderOrdinal pl"
  by (simp_all add: planWhere_def planIndexes_def planCompositeWalk_def planCompositeLookup_def setIdx_def Let_def split: option.split)

lemma planProjection_fields:
  assumes "planProjection s rt (newPlan st rt) = Inr pl"
  shows "no_path pl" "pl_table pl = rt" "pl_orderOrdinal pl = -1" "pl_st pl = st"
  using assms by (auto simp: planProjection_def newPlan_def no_path_def andThen_eq_Inr split: if_splits)

lemma planOrder_fields:
  assumes "planOrder s rt pl = Inr pl'" and "no_path pl"
  shows "no_path pl'" "pl_table pl' = pl_table pl" "s_orderCol s \<noteq> [] \<longrightarrow> pl_orderOrdinal pl' \<ge> 0" "pl_projOrdinals pl' = pl_projOrdinals pl"
  using assms by (auto simp: planOrder_def no_path_def split: if_splits option.splits)

lemma planSelect_ok:
  assumes "planSelect rt s = Inr pl" and wf: "wf_table rt"
  obtains wher where "validateExpr (s_where s) rt (s_alias s) = Inr wher" "pl_st pl = SelectStmt (s\<lparr>s_where := wher\<rparr>)" "pl_table pl = rt"
    "paths_sound pl wher" "paths_shaped pl"
proof -
  obtain pl1 pl2 wher where p: "planProjection s rt (newPlan (SelectStmt s) rt) = Inr pl1" "planOrder s rt pl1 = Inr pl2"
      "validateExpr (s_where s) rt (s_alias s) = Inr wher"
      "pl = planPKProbe rt wher (planOrderWalk (s\<lparr>s_where := wher\<rparr>) rt (planWhere rt wher (pl2\<lparr>pl_st := SelectStmt (s\<lparr>s_where := wher\<rparr>)\<rparr>)))"
    using assms(1) by (auto simp: planSelect_def andThen_eq_Inr Let_def)
  note f1 = planProjection_fields [OF p(1)] and f2 = planOrder_fields [OF p(2) planProjection_fields(1) [OF p(1)]]
  let ?q = "pl2\<lparr>pl_st := SelectStmt (s\<lparr>s_where := wher\<rparr>)\<rparr>"
  let ?w = "planOrderWalk (s\<lparr>s_where := wher\<rparr>) rt (planWhere rt wher ?q)"
  have np: "no_path ?q" "pl_table ?q = rt" using f2(1,2) f1(2) by (simp_all add: no_path_def)
  note w = planWhere_ok [OF np(1) wf validateExpr_bound [OF p(3)] np(2)]
  have ow: "paths_sound ?w wher \<and> paths_shaped ?w" using w f2(3) by (intro planOrderWalk_ok) simp_all
  have pr: "paths_sound pl wher \<and> paths_shaped pl" unfolding p(4) using ow w np(2) by (intro planPKProbe_ok) simp_all
  have "pl_st pl = SelectStmt (s\<lparr>s_where := wher\<rparr>)" "pl_table pl = rt" using np(2) by (simp_all add: p(4))
  with p(3) pr show thesis using that by blast
qed

lemma planWriteWhere_ok:
  assumes np: "no_path pl" and wf: "wf_table rt" and b: "bound rt wher" and rt: "pl_table pl = rt"
  shows "paths_sound (planWriteWhere rt wher pl) wher \<and> paths_shaped (planWriteWhere rt wher pl)"
proof -
  have d: "distinct (map ri_ordinals (rt_indexes rt))" using wf by (simp add: wf_table_def Let_def)
  consider (none) "planWriteWhere rt wher pl = pl"
    | (pk) src where "detectPKEq wher rt = Some src" "planWriteWhere rt wher pl = pl\<lparr>pl_pkLookup := True, pl_pkSource := src\<rparr>"
    | (probe) "planWriteWhere rt wher pl = planPKProbe rt wher (planIndexEq rt wher pl)"
    using planWriteWhere_cases [of rt wher pl] by blast
  then show ?thesis
  proof cases
    case none
    then show ?thesis using no_path_ok [OF np] by simp
  next
    case (pk src)
    from detectColEq_pin [OF pk(1) [unfolded detectPKEq_def] b wf] pk_in_range [OF wf]
    have "is_pin wher (nat (pkOrdinal rt)) src" "collectConjuncts wher = [wher]" by simp_all
    note e = bare_ok [OF this]
    show ?thesis unfolding pk(2) using np rt e by (simp add: path_defs)
  next
    case probe
    let ?q = "planIndexEq rt wher pl"
    have q: "?q = pl \<or> ?q = (setIdx (idxPairs (collectEqConjuncts wher Map.empty) (rt_indexes (pl_table pl))) pl)\<lparr>pl_idxExact := False\<rparr>"
      using np by (auto simp: planIndexEq_def rt setIdx_def no_path_def)
    have "paths_sound ?q wher \<and> paths_shaped ?q"
      using q no_path_ok [OF np] setIdx_ok [OF np, of ?q wher False] d rt by (auto simp: setIdx_def)
    moreover have "pl_table ?q = rt" using q rt by (auto simp: setIdx_def)
    ultimately show ?thesis unfolding probe by (intro planPKProbe_ok) simp_all
  qed
qed


section \<open>Statements without literals\<close>

text \<open>
  A statement that passed \<open>rejectValueLiterals\<close> holds parameters only: the recorded sources are
  parameters, and the coercion pass changes nothing but the marks.
\<close>

lemma numberParams_literal: "hasLiteral (fst (numberParams e n)) = hasLiteral e"
  by (induction e arbitrary: n) (auto simp: case_prod_beta Let_def)

lemma numberSets_literal: "(\<exists>a \<in> set (fst (numberSets as n)). hasLiteral (set_val a)) = (\<exists>a \<in> set as. hasLiteral (set_val a))"
  by (induction as arbitrary: n) (auto simp: case_prod_beta Let_def numberParams_literal)

lemma validateExpr_literal: "validateExpr e rt alias = Inr e' \<Longrightarrow> hasLiteral e' = hasLiteral e"
  by (induction e arbitrary: e') (auto simp: andThen_eq_Inr split: if_splits option.splits)

lemma conjuncts_literal: "\<not> hasLiteral e \<Longrightarrow> c \<in> set (collectConjuncts e) \<Longrightarrow> \<not> hasLiteral c"
  by (induction e rule: collectConjuncts.induct) (auto split: if_splits)

definition is_param :: "expr \<Rightarrow> bool" where
  "is_param e \<longleftrightarrow> (\<exists>i. e = ParamRef i)"

lemma lit_or_param: "isLitOrParam e \<Longrightarrow> \<not> hasLiteral e \<Longrightarrow> is_param e"
  by (cases e) (auto simp: isLitOrParam_def is_param_def)

lemma pin_param: "is_pin c o' src \<Longrightarrow> \<not> hasLiteral c \<Longrightarrow> is_param src"
  using colAndLit_cases by (fastforce simp: is_pin_def intro: lit_or_param)

lemma eqs_param: "collectEqConjuncts e Map.empty o' = Some src \<Longrightarrow> \<not> hasLiteral e \<Longrightarrow> is_param src"
  using eqs_pin conjuncts_literal pin_param by blast

lemma detect_param: "detectColEq e rt o' = Some src \<Longrightarrow> \<not> hasLiteral e \<Longrightarrow> is_param src"
  by (cases e; auto simp: detectColEq_def Let_def split: if_splits expr.splits intro: lit_or_param)

text \<open>Every source of the plan is a parameter or absent, the residual has no literal.\<close>

definition params_only :: "plan \<Rightarrow> bool" where
  "params_only pl \<longleftrightarrow> (\<forall>e \<in> {pl_pkSource pl, pl_pkProbe pl, pl_partSource pl} \<union> set (pl_idxSrcs pl) \<union> set (pl_compPrefixSrcs pl).
     is_param e \<or> e = NilExpr) \<and> (\<forall>c \<in> set (pl_compResidual pl). \<not> hasLiteral c)"

lemma sharedSrc_param: "is_param e \<or> e = NilExpr \<Longrightarrow> sharedSrc pl o' e = e"
  by (auto simp: sharedSrc_def markValue_def is_param_def Let_def)

lemma map2_id: "length ys \<le> length xs \<Longrightarrow> (\<And>x y. y \<in> set ys \<Longrightarrow> f x y = y) \<Longrightarrow> map2 f xs ys = ys"
proof (induction ys arbitrary: xs)
  case (Cons y ys)
  then show ?case by (cases xs) auto
qed simp

lemma markValue_fst: "\<not> hasLiteral e \<Longrightarrow> fst (markValue e want) = e"
  by (cases e) (auto simp: markValue_def)

lemma walkWhere_fst: "\<not> hasLiteral e \<Longrightarrow> fst (walkWhere pl e want) = e"
  by (induction e arbitrary: want) (auto simp: case_prod_beta Let_def markValue_fst)

lemma walkSets_fst: "\<forall>a \<in> set as. \<not> hasLiteral (set_val a) \<Longrightarrow> fst (walkSets pl as want) = as"
  by (induction as arbitrary: want) (auto simp: case_prod_beta Let_def markValue_fst)

lemma shareSources_id:
  assumes "params_only pl" and "length (pl_idxSrcs pl) \<le> length (pl_idxCols pl)" and "length (pl_compPrefixSrcs pl) \<le> length (pl_compOrdinals pl)"
  shows "shareSources pl = pl"
proof -
  have "map2 (sharedSrc pl) (pl_idxCols pl) (pl_idxSrcs pl) = pl_idxSrcs pl"
    "map2 (sharedSrc pl) (pl_compOrdinals pl) (pl_compPrefixSrcs pl) = pl_compPrefixSrcs pl"
    using assms by (intro map2_id sharedSrc_param; auto simp: params_only_def)+
  moreover have "map (\<lambda>c. fst (walkWhere pl c [])) (pl_compResidual pl) = pl_compResidual pl"
    using assms(1) by (intro map_idI) (simp add: params_only_def walkWhere_fst)
  ultimately show ?thesis using assms(1) by (simp add: shareSources_def sharedSrc_param params_only_def)
qed

text \<open>The WHERE of a statement, and the values of an UPDATE.\<close>

definition whereOf :: "stmt \<Rightarrow> expr" where
  "whereOf st = (case st of SelectStmt s \<Rightarrow> s_where s | UpdateStmt s \<Rightarrow> u_where s | DeleteStmt s \<Rightarrow> d_where s | _ \<Rightarrow> NilExpr)"

definition literal_free :: "stmt \<Rightarrow> bool" where
  "literal_free st \<longleftrightarrow> \<not> hasLiteral (whereOf st) \<and> (\<forall>s. st = UpdateStmt s \<longrightarrow> (\<forall>a \<in> set (u_sets s). \<not> hasLiteral (set_val a)))"

definition params_ok :: "plan \<Rightarrow> bool" where
  "params_ok pl \<longleftrightarrow> params_only pl \<and> length (pl_idxSrcs pl) \<le> length (pl_idxCols pl) \<and>
     length (pl_compPrefixSrcs pl) \<le> length (pl_compOrdinals pl)"

lemmas params_defs = params_ok_def params_only_def

lemma newPlan_params: "params_ok (newPlan st rt)"
  by (simp add: params_defs newPlan_def)

lemma params_frame:
  "params_ok (pl\<lparr>pl_st := st\<rparr>) = params_ok pl" "params_ok (pl\<lparr>pl_nparams := n\<rparr>) = params_ok pl"
  "params_ok (pl\<lparr>pl_updateOrdinals := os, pl_setRowDependent := b\<rparr>) = params_ok pl"
  "params_ok (pl\<lparr>pl_idxExact := b\<rparr>) = params_ok pl" "params_ok (pl\<lparr>pl_countIdxBucket := b\<rparr>) = params_ok pl"
  "params_ok (pl\<lparr>pl_orderWalk := b\<rparr>) = params_ok pl" "params_ok (pl\<lparr>pl_orderOrdinal := i\<rparr>) = params_ok pl"
  by (simp_all add: params_defs)

lemma planProjection_params: "planProjection s rt pl = Inr pl' \<Longrightarrow> params_ok pl \<Longrightarrow> params_ok pl'"
  by (auto simp: planProjection_def params_defs andThen_eq_Inr split: if_splits)

lemma planOrder_params: "planOrder s rt pl = Inr pl' \<Longrightarrow> params_ok pl \<Longrightarrow> params_ok pl'"
  by (auto simp: planOrder_def params_frame split: if_splits option.splits)

lemma setIdx_params:
  assumes "params_ok pl" and "\<not> hasLiteral wher"
  shows "params_ok (setIdx (idxPairs (collectEqConjuncts wher Map.empty) ris) pl)"
proof -
  have "\<forall>e \<in> snd ` set (idxPairs (collectEqConjuncts wher Map.empty) ris). is_param e"
    using eqs_param [OF _ assms(2)] by (auto simp: idxPairs_set)
  then show ?thesis using assms(1) by (simp add: params_defs setIdx_def ball_Un)
qed

lemma prefixSrcs_params: "\<not> hasLiteral wher \<Longrightarrow> e \<in> set (prefixSrcs ri (collectEqConjuncts wher Map.empty) k) \<Longrightarrow> is_param e \<or> e = NilExpr"
  using eqs_param by (auto simp: prefixSrcs_def split: option.splits)

lemma planIndexes_params:
  assumes p: "params_ok pl" and l: "\<not> hasLiteral wher"
  shows "params_ok (planIndexes rt wher pl)"
proof -
  let ?eqs = "collectEqConjuncts wher Map.empty"
  note s = setIdx_params [OF p l, of "rt_indexes rt"]
  have comp: "params_ok (q\<lparr>pl_compOrdinals := ri_ordinals ri, pl_compPrefixSrcs := prefixSrcs ri ?eqs (compositePrefix rt ri ?eqs)\<rparr>)" if "params_ok q" for q ri
    using that prefixSrcs_params [OF l, of _ ri] compositePrefix_le [of rt ri ?eqs]
    by (auto simp: params_defs prefixSrcs_pairs(2) [of _ rt])
  have walk: "params_ok q" if w: "planCompositeWalk rt wher ?eqs (pl_orderOrdinal pl) pl = Some q" for q
  proof -
    obtain ri where q: "q = pl\<lparr>pl_compOrdinals := ri_ordinals ri, pl_compPrefixSrcs := prefixSrcs ri ?eqs (compositePrefix rt ri ?eqs), pl_compWalk := True,
        pl_compResidual := filter (\<lambda>c. \<not> isPin ?eqs (take (compositePrefix rt ri ?eqs) (ri_ordinals ri)) c) (collectConjuncts wher)\<rparr>"
      using planCompositeWalk_Some [OF w] .
    show ?thesis using comp [OF p, of ri] conjuncts_literal [OF l] by (simp add: q params_defs)
  qed
  have look: "params_ok (planCompositeLookup rt ?eqs q)" if "params_ok q" for q
    using comp [OF that] that by (auto simp: planCompositeLookup_def params_defs split: option.split)
  show ?thesis
    using s walk look by (auto simp: planIndexes_def Let_def params_frame split: option.split)
qed

lemma planWhere_params:
  assumes p: "params_ok pl" and l: "\<not> hasLiteral wher"
  shows "params_ok (planWhere rt wher pl)"
  using planWhere_cases [of rt wher pl]
proof (elim disjE exE conjE)
  fix src assume "detectPKEq wher rt = Some src" and e: "planWhere rt wher pl = pl\<lparr>pl_pkLookup := True, pl_pkSource := src\<rparr>"
  then have "is_param src" using detect_param l by (auto simp: detectPKEq_def)
  then show ?thesis unfolding e using p by (simp add: params_defs)
next
  fix src assume "detectColEq wher rt (partitionOrdinal rt) = Some src" and e: "planWhere rt wher pl = pl\<lparr>pl_partLookup := True, pl_partSource := src\<rparr>"
  then have "is_param src" using detect_param l by auto
  then show ?thesis unfolding e using p by (simp add: params_defs)
qed (use p planIndexes_params [OF p l] in simp_all)

lemma planPKProbe_params: "params_ok pl \<Longrightarrow> \<not> hasLiteral wher \<Longrightarrow> params_ok (planPKProbe rt wher pl)"
  using eqs_param by (auto simp: planPKProbe_def params_defs split: option.split)

lemma planWriteWhere_params:
  assumes p: "params_ok pl" and l: "\<not> hasLiteral wher"
  shows "params_ok (planWriteWhere rt wher pl)"
  using planWriteWhere_cases [of rt wher pl]
proof (elim disjE exE conjE)
  fix src assume "detectPKEq wher rt = Some src" and e: "planWriteWhere rt wher pl = pl\<lparr>pl_pkLookup := True, pl_pkSource := src\<rparr>"
  then have "is_param src" using detect_param l by (auto simp: detectPKEq_def)
  then show ?thesis unfolding e using p by (simp add: params_defs)
next
  assume e: "planWriteWhere rt wher pl = planPKProbe rt wher (planIndexEq rt wher pl)"
  have "params_ok (planIndexEq rt wher pl)" using p setIdx_params [OF p l] by (simp add: planIndexEq_def)
  then show ?thesis unfolding e using planPKProbe_params l by blast
qed (use p in simp)

lemma planSelect_params:
  assumes "planSelect rt s = Inr pl" and "\<not> hasLiteral (s_where s)"
  shows "params_ok pl"
proof -
  obtain pl1 pl2 wher where p: "planProjection s rt (newPlan (SelectStmt s) rt) = Inr pl1" "planOrder s rt pl1 = Inr pl2"
      "validateExpr (s_where s) rt (s_alias s) = Inr wher"
      "pl = planPKProbe rt wher (planOrderWalk (s\<lparr>s_where := wher\<rparr>) rt (planWhere rt wher (pl2\<lparr>pl_st := SelectStmt (s\<lparr>s_where := wher\<rparr>)\<rparr>)))"
    using assms(1) by (auto simp: planSelect_def andThen_eq_Inr Let_def)
  have l: "\<not> hasLiteral wher" using validateExpr_literal [OF p(3)] assms(2) by simp
  have "params_ok pl2" using planOrder_params [OF p(2) planProjection_params [OF p(1) newPlan_params]] .
  then have "params_ok (planWhere rt wher (pl2\<lparr>pl_st := SelectStmt (s\<lparr>s_where := wher\<rparr>)\<rparr>))"
    by (intro planWhere_params l) (simp add: params_frame)
  then show ?thesis unfolding p(4) by (intro planPKProbe_params l) (simp add: planOrderWalk_def params_frame)
qed

lemma bind_literal_free:
  assumes "literal_free (pl_st pl)" and "params_ok pl"
  shows "\<exists>want. bindParamUUIDCoercion pl = pl\<lparr>pl_paramWantUUID := want\<rparr>"
proof -
  have sh: "shareSources pl = pl" using assms(2) by (intro shareSources_id) (simp_all add: params_ok_def)
  have st: "pl\<lparr>pl_st := x, pl_paramWantUUID := y\<rparr> = pl\<lparr>pl_paramWantUUID := y\<rparr>" if "x = pl_st pl" for x y using that by simp
  show ?thesis
  proof (cases "pl_st pl")
    case (SelectStmt s)
    then show ?thesis using assms(1)
      by (auto simp: bindParamUUIDCoercion_def sh literal_free_def whereOf_def walkWhere_fst case_prod_beta Let_def st)
  next
    case (UpdateStmt s)
    then show ?thesis using assms(1)
      by (auto simp: bindParamUUIDCoercion_def sh literal_free_def whereOf_def walkWhere_fst walkSets_fst case_prod_beta Let_def st)
  next
    case (DeleteStmt s)
    then show ?thesis using assms(1)
      by (auto simp: bindParamUUIDCoercion_def sh literal_free_def whereOf_def walkWhere_fst case_prod_beta Let_def st)
  qed (auto simp: bindParamUUIDCoercion_def sh Let_def st)
qed


section \<open>Properties\<close>

lemma numberSets_literal_free:
  "\<forall>a \<in> set as. \<not> hasLiteral (set_val a) \<Longrightarrow> a \<in> set (fst (numberSets as n)) \<Longrightarrow> \<not> hasLiteral (set_val a)"
  using numberSets_literal [of as n] by blast

lemma numbered_literal:
  assumes "rejectValueLiterals st = Inr ()" and "assignParamIndices st = (st', n)"
  shows "literal_free st'"
  using assms
  by (cases st) (auto simp: rejectValueLiterals_def assignParamIndices_def literal_free_def whereOf_def Let_def case_prod_beta
      numberParams_literal dest: numberSets_literal_free split: if_splits)

lemma newPlan_no_path:
  "no_path (newPlan st rt)" "pl_table (newPlan st rt) = rt" "pl_st (newPlan st rt) = st"
  by (simp_all add: newPlan_def no_path_def)

lemma paths_frame:
  "paths_sound (pl\<lparr>pl_nparams := n, pl_paramWantUUID := want\<rparr>) wher = paths_sound pl wher"
  "paths_shaped (pl\<lparr>pl_nparams := n, pl_paramWantUUID := want\<rparr>) = paths_shaped pl"
  by (simp_all add: paths_sound_def paths_shaped_def composite_shape_def)

lemma planSets_literal:
  assumes "for_each (planSet rt) as ([], [], False) = Inr (as', ords, dep)" and "\<forall>a \<in> set as. \<not> hasLiteral (set_val a)"
  shows "\<forall>a \<in> set as'. \<not> hasLiteral (set_val a)"
proof -
  have "\<forall>a \<in> set (fst (as', ords, dep)). \<not> hasLiteral (set_val a)"
    by (rule for_each_invariant [OF assms(1)])
      (use assms(2) validateExpr_literal in \<open>auto simp: planSet_def andThen_eq_Inr split: if_splits option.splits\<close>)
  then show ?thesis by simp
qed

lemma planWriteWhere_st [simp]: "pl_st (planWriteWhere rt wher pl) = pl_st pl"
  by (simp add: planWriteWhere_def planIndexEq_def setIdx_def split: option.split)

lemma planUpdate_ok:
  assumes p: "planUpdate rt s = Inr pl" and wf: "wf_table rt" and l: "literal_free (UpdateStmt s)"
  shows "paths_sound pl (whereOf (pl_st pl)) \<and> paths_shaped pl \<and> params_ok pl \<and> literal_free (pl_st pl)"
proof -
  obtain as ords dep wher where a: "for_each (planSet rt) (u_sets s) ([], [], False) = Inr (as, ords, dep)"
      "validateExpr (u_where s) rt [] = Inr wher"
      "pl = planWriteWhere rt wher ((newPlan (UpdateStmt (s\<lparr>u_sets := as, u_where := wher\<rparr>)) rt)\<lparr>pl_updateOrdinals := ords, pl_setRowDependent := dep\<rparr>)"
    using p by (auto simp: planUpdate_def andThen_eq_Inr)
  let ?q = "(newPlan (UpdateStmt (s\<lparr>u_sets := as, u_where := wher\<rparr>)) rt)\<lparr>pl_updateOrdinals := ords, pl_setRowDependent := dep\<rparr>"
  have q: "no_path ?q" "pl_table ?q = rt" "params_ok ?q" using newPlan_params by (simp_all add: newPlan_no_path params_frame) (simp add: newPlan_def no_path_def)
  have lit: "\<not> hasLiteral wher" "\<forall>a \<in> set as. \<not> hasLiteral (set_val a)"
    using validateExpr_literal [OF a(2)] planSets_literal [OF a(1)] l by (simp_all add: literal_free_def whereOf_def)
  have "pl_st pl = UpdateStmt (s\<lparr>u_sets := as, u_where := wher\<rparr>)" by (simp add: a(3) newPlan_no_path)
  moreover have "paths_sound pl wher \<and> paths_shaped pl"
    unfolding a(3) by (rule planWriteWhere_ok [OF q(1) wf validateExpr_bound [OF a(2)] q(2)])
  moreover have "params_ok pl" unfolding a(3) by (rule planWriteWhere_params [OF q(3) lit(1)])
  ultimately show ?thesis using lit by (simp add: whereOf_def literal_free_def)
qed

lemma planDelete_ok:
  assumes p: "planDelete rt s = Inr pl" and wf: "wf_table rt" and l: "literal_free (DeleteStmt s)"
  shows "paths_sound pl (whereOf (pl_st pl)) \<and> paths_shaped pl \<and> params_ok pl \<and> literal_free (pl_st pl)"
proof -
  obtain wher where a: "validateExpr (d_where s) rt [] = Inr wher" "pl = planWriteWhere rt wher (newPlan (DeleteStmt (s\<lparr>d_where := wher\<rparr>)) rt)"
    using p by (auto simp: planDelete_def andThen_eq_Inr)
  have lit: "\<not> hasLiteral wher" using validateExpr_literal [OF a(1)] l by (simp add: literal_free_def whereOf_def)
  have "pl_st pl = DeleteStmt (s\<lparr>d_where := wher\<rparr>)" by (simp add: a(2) newPlan_no_path)
  moreover have "paths_sound pl wher \<and> paths_shaped pl"
    unfolding a(2) by (rule planWriteWhere_ok [OF newPlan_no_path(1) wf validateExpr_bound [OF a(1)] newPlan_no_path(2)])
  moreover have "params_ok pl" unfolding a(2) by (rule planWriteWhere_params [OF newPlan_params lit])
  ultimately show ?thesis using lit by (simp add: whereOf_def literal_free_def)
qed

lemma planStmt_ok:
  assumes "planStmt rt st = Inr pl" and wf: "wf_table rt" and l: "literal_free st"
  shows "paths_sound pl (whereOf (pl_st pl)) \<and> paths_shaped pl \<and> params_ok pl \<and> literal_free (pl_st pl)"
proof (cases st)
  case (SelectStmt s)
  then have p: "planSelect rt s = Inr pl" using assms(1) by (simp add: planStmt_def)
  have "\<not> hasLiteral (s_where s)" using l by (simp add: SelectStmt literal_free_def whereOf_def)
  with planSelect_params [OF p] show ?thesis
    using validateExpr_literal by (auto intro: planSelect_ok [OF p wf] simp: whereOf_def literal_free_def)
next
  case (InsertStmt s)
  then obtain ords tmpls where pl: "pl = (newPlan (InsertStmt s) rt)\<lparr>pl_insertOrdinals := ords, pl_insertTmpl := tmpls\<rparr>"
    using assms(1) by (auto simp: planStmt_def planInsert_def andThen_eq_Inr)
  have "no_path pl" "params_ok pl" by (simp_all add: pl newPlan_def no_path_def params_defs)
  then show ?thesis using no_path_ok by (simp add: pl newPlan_no_path literal_free_def whereOf_def)
next
  case (UpdateStmt s)
  then show ?thesis using assms planUpdate_ok by (simp add: planStmt_def)
next
  case (DeleteStmt s)
  then show ?thesis using assms planDelete_ok by (simp add: planStmt_def)
qed (use assms in \<open>auto simp: planStmt_def newPlan_no_path no_path_ok newPlan_params\<close>)

text \<open>What preparing adds to the plan of the numbered statement.\<close>

lemma prepared_plan:
  assumes "prepareStmt rt st = Inr pl" and "wf_table rt"
  obtains st' n q want where "assignParamIndices st = (st', n)" "planStmt rt st' = Inr q" "pl = q\<lparr>pl_nparams := n, pl_paramWantUUID := want\<rparr>"
    "paths_sound pl (whereOf (pl_st pl))" "paths_shaped pl"
proof -
  obtain st' n q where s: "rejectValueLiterals st = Inr ()" "assignParamIndices st = (st', n)" "planStmt rt st' = Inr q"
      "pl = bindParamUUIDCoercion (q\<lparr>pl_nparams := n\<rparr>)"
    using assms(1) by (auto simp: prepareStmt_def andThen_eq_Inr Let_def case_prod_beta prod_eq_iff)
  note ok = planStmt_ok [OF s(3) assms(2) numbered_literal [OF s(1,2)]]
  obtain want where b: "pl = q\<lparr>pl_nparams := n, pl_paramWantUUID := want\<rparr>"
    using bind_literal_free [of "q\<lparr>pl_nparams := n\<rparr>"] ok by (auto simp: s(4) params_frame)
  show thesis by (rule that [OF s(2,3) b]) (use ok in \<open>simp_all add: b paths_frame\<close>)
qed

text \<open>
  C35.  The access path of a prepared statement agrees with its WHERE, on every row and for every
  arguments.  Where the executor re-checks the WHERE (an index lookup, a composite lookup, a primary
  key inside an AND-chain) each recorded pin is implied by it; where it does not (a bare primary or
  partition key, an exact index lookup, a composite walk with its residual) the pins and the residual
  are equivalent to it.  An index path names an index of the table, a composite one an ordered
  index without nullable columns whose leading columns it pins.
\<close>

theorem prepared_paths_sound:
  assumes "prepareStmt rt st = Inr pl" and "wf_table rt"
  shows "paths_sound pl (whereOf (pl_st pl)) \<and> paths_shaped pl"
  by (rule prepared_plan [OF assms]) blast

text \<open>A table with a hash index on a text column, and \<open>SELECT * FROM t WHERE s = ? AND id = ?\<close> on it.\<close>

definition noteTable :: resolvedTable where
  "noteTable = \<lparr>rt_def = \<lparr>tName = str ''t'', tColumns = [
       \<lparr>cName = str ''id'', cType = TypeUUID, cPK = True, cImmutable = False, cPartitionKey = False, cNullable = False\<rparr>,
       \<lparr>cName = str ''s'', cType = TypeString, cPK = False, cImmutable = False, cPartitionKey = False, cNullable = True\<rparr>], tIndexes = []\<rparr>,
     colByName = [str ''id'' \<mapsto> 0, str ''s'' \<mapsto> 1], pkOrdinal = 0, partitionOrdinal = -1,
     rt_indexes = [\<lparr>ri_name = str ''idx_s'', ri_ordinals = [1], ri_ordered = False\<rparr>]\<rparr>"

definition noteQuery :: stmt where
  "noteQuery = SelectStmt \<lparr>s_cols = [], s_starAll = True, s_countStar = False, s_table = str ''t'', s_alias = [], s_joins = [],
     s_where = BinOp tkAnd (BinOp tkEq (ColRef \<lparr>cr_qual = [], cr_name = str ''s'', cr_ord = -1\<rparr>) (ParamRef (-1)))
        (BinOp tkEq (ColRef \<lparr>cr_qual = [], cr_name = str ''id'', cr_ord = -1\<rparr>) (ParamRef (-1))),
     s_orderCol = [], s_orderQual = [], s_orderDesc = False, s_limit = -1, s_offset = 0\<rparr>"

theorem prepared_paths_sound_witness:
  "\<exists>pl. prepareStmt noteTable noteQuery = Inr pl \<and> pl_idxLookup pl \<and> pl_idxCols pl = [1] \<and> pl_paramWantUUID pl = [False, True] \<and>
     paths_sound pl (whereOf (pl_st pl))"
proof -
  have wf: "wf_table noteTable"
    by (simp add: wf_table_def noteTable_def str_def wf_index_def partitioned_def less_Suc_eq Let_def split: if_splits)
  have "case prepareStmt noteTable noteQuery of Inr pl \<Rightarrow> pl_idxLookup pl \<and> pl_idxCols pl = [1] \<and> pl_paramWantUUID pl = [False, True] | Inl e \<Rightarrow> False"
    by code_simp
  then obtain pl where pl: "prepareStmt noteTable noteQuery = Inr pl" and f: "pl_idxLookup pl" "pl_idxCols pl = [1]" "pl_paramWantUUID pl = [False, True]"
    by (auto split: sum.splits)
  from prepared_paths_sound [OF pl wf] pl f show ?thesis by blast
qed

end
