(* ===== verification/IndexMarks.thy ===== *)
theory IndexMarks
  imports IndexMerge
begin

text \<open>
  Every write of \<open>store_write.go\<close> marks what it changes: the dirty lists grow by exactly the keys of
  the rows that were inserted, deleted or whose indexed columns were set, each in the lists of its
  own shard, and compaction leaves them alone.
\<close>

section \<open>How the dirty lists grow\<close>

text \<open>\<open>R\<close> and \<open>D\<close> are the keys appended to the read and the delete lists, in order.\<close>

definition evolves :: "table \<Rightarrow> table \<Rightarrow> UUID list \<Rightarrow> UUID list \<Rightarrow> bool" where
  "evolves t t' R D \<longleftrightarrow> same_frame t t' \<and>
     (\<forall>i < length (t_shards t).
        dirtyR t' i = dirtyR t i @ filter (\<lambda>pk. shardIdxOf t pk = i) R \<and>
        dirtyD t' i = dirtyD t i @ filter (\<lambda>pk. shardIdxOf t pk = i) D) \<and>
     t_readDirtyCount t' = t_readDirtyCount t + int (length R)"

lemma same_frame_route: "same_frame t t' \<Longrightarrow> shardIdxOf t' = shardIdxOf t \<and> nIdx t' = nIdx t \<and> pkOf t' = pkOf t \<and> pkOrd t' = pkOrd t"
  by (simp add: same_frame_def shardIdxOf_def nIdx_def pkOf_def pkOrd_def fun_eq_iff)

lemma evolves_refl [simp]: "evolves t t [] []"
  by (simp add: evolves_def same_frame_def)

lemma evolves_trans:
  assumes "evolves t t1 R D" and "evolves t1 t2 R' D'"
  shows "evolves t t2 (R @ R') (D @ D')"
proof -
  have "shardIdxOf t1 = shardIdxOf t" using assms(1) same_frame_route by (simp add: evolves_def)
  then show ?thesis using assms by (auto simp: evolves_def same_frame_def)
qed

lemma evolves_shard:
  assumes "i < length (t_shards t)" "sh_dirtyRead s' = dirtyR t i" "sh_dirtyDel s' = dirtyD t i"
  shows "evolves t (setShard i s' t) [] []"
  using assms by (auto simp: evolves_def same_frame_def nth_list_update)

lemma evolves_mark:
  assumes "i < length (t_shards t)" "shardIdxOf t pk = i" "t_indexes t \<noteq> []"
  shows "evolves t (markDirty i pk t) [pk] []" "evolves t (markDelDirty i pk t) [] [pk]"
  using assms by (auto simp: evolves_def same_frame_def markDirty_def markDelDirty_def nIdx_def nth_list_update)

lemma sum_routed:
  fixes f :: "'a \<Rightarrow> nat"
  assumes "\<forall>pk \<in> set R. f pk < n"
  shows "(\<Sum>i<n. length (filter (\<lambda>pk. f pk = i) R)) = length R"
  using assms
proof (induction R)
  case (Cons pk R)
  have "(\<Sum>i<n. length (filter (\<lambda>p. f p = i) (pk # R))) = (\<Sum>i<n. (if i = f pk then 1 else 0) + length (filter (\<lambda>p. f p = i) R))"
    by (intro sum.cong) auto
  also have "\<dots> = (\<Sum>i<n. if i = f pk then 1 else 0) + length R" using Cons by (simp add: sum.distrib)
  also have "(\<Sum>i<n. if i = f pk then 1 else 0) = (1 :: nat)" using Cons.prems by (subst sum.delta) simp_all
  finally show ?case by simp
qed simp

lemma evolves_marks:
  assumes ev: "evolves t t' R D" and tt: "table_inv seed t"
    and ch: "\<And>pk. keys_of t pk \<noteq> keys_of t' pk \<Longrightarrow> pk \<in> set (if tbl_abs t' pk = None then D else R)"
    and gone: "\<And>pk. pk \<in> set D \<Longrightarrow> tbl_abs t' pk \<noteq> None \<Longrightarrow> pk \<in> set R"
  shows "marks t t'"
proof -
  have si: "shardIdxOf t pk < length (t_shards t)" for pk using tt shardIdxOf_less by (simp add: table_inv_def)
  have new: "newR t t' i = filter (\<lambda>pk. shardIdxOf t pk = i) R" "newD t t' i = filter (\<lambda>pk. shardIdxOf t pk = i) D"
    if "i < length (t_shards t)" for i using ev that by (simp_all add: evolves_def newR_def newD_def)
  have len: "length (t_shards t') = length (t_shards t)" using ev by (simp add: evolves_def same_frame_def)
  have sum: "sum_list (map (\<lambda>s. int (length (sh_dirtyRead s))) (t_shards x)) = (\<Sum>i<length (t_shards x). int (length (dirtyR x i)))" for x
    by (simp add: sum_list_sum_nth atLeast0LessThan)
  have "int (length (dirtyR t' i)) = int (length (dirtyR t i)) + int (length (filter (\<lambda>pk. shardIdxOf t pk = i) R))"
    if "i < length (t_shards t)" for i using ev that by (simp add: evolves_def)
  then have "(\<Sum>i<length (t_shards t). int (length (dirtyR t' i))) =
      (\<Sum>i<length (t_shards t). int (length (dirtyR t i))) + (\<Sum>i<length (t_shards t). int (length (filter (\<lambda>pk. shardIdxOf t pk = i) R)))"
    by (simp add: sum.distrib)
  also have "(\<Sum>i<length (t_shards t). int (length (filter (\<lambda>pk. shardIdxOf t pk = i) R))) = int (length R)"
    using sum_routed [of R "shardIdxOf t" "length (t_shards t)"] si by (simp flip: of_nat_sum)
  finally have "t_readDirtyCount t' - t_readDirtyCount t =
       sum_list (map (\<lambda>s. int (length (sh_dirtyRead s))) (t_shards t')) - sum_list (map (\<lambda>s. int (length (sh_dirtyRead s))) (t_shards t))"
    using ev by (simp add: sum len evolves_def)
  moreover have "\<forall>i < length (t_shards t). prefix (dirtyR t i) (dirtyR t' i) \<and> prefix (dirtyD t i) (dirtyD t' i)"
    using ev by (simp add: evolves_def)
  moreover have "\<forall>pk. keys_of t pk \<noteq> keys_of t' pk \<longrightarrow>
      pk \<in> set (if tbl_abs t' pk = None then newD t t' (shardIdxOf t pk) else newR t t' (shardIdxOf t pk))"
  proof (intro allI impI)
    fix pk assume "keys_of t pk \<noteq> keys_of t' pk"
    from ch [OF this] show "pk \<in> set (if tbl_abs t' pk = None then newD t t' (shardIdxOf t pk) else newR t t' (shardIdxOf t pk))"
      by (cases "tbl_abs t' pk") (simp_all add: new [OF si])
  qed
  moreover have "\<forall>pk. pk \<in> set (newD t t' (shardIdxOf t pk)) \<longrightarrow> tbl_abs t' pk \<noteq> None \<longrightarrow> pk \<in> set (newR t t' (shardIdxOf t pk))"
    using gone by (auto simp: new [OF si])
  moreover have "\<forall>i < length (t_shards t). \<forall>pk \<in> set (newR t t' i) \<union> set (newD t t' i). shardIdxOf t pk = i"
    by (auto simp: new)
  ultimately show ?thesis using ev by (simp add: marks_def evolves_def)
qed

section \<open>The operations\<close>

lemma setShard_dirty [simp]: "t_indexes (setShard i s t) = t_indexes t"
  by simp

lemma insertRow_evolves:
  assumes "insertRow seed True row j st = Some (e, st')" and "t_indexes (st_table st) \<noteq> []"
  shows "evolves (st_table st) (st_table st') (if e = None then [pkOf (st_table st) row] else []) []"
proof -
  let ?t = "st_table st" and ?i = "shardIdxOf (st_table st) (pkOf (st_table st) row)"
  have i: "?i < length (t_shards ?t)" using assms(1) by (auto simp: insertRow_def Let_def split: if_splits)
  have two: "evolves ?t (setShard ?i s ?t) [] []"
    if "sh_dirtyRead s = dirtyR ?t ?i" "sh_dirtyDel s = dirtyD ?t ?i" for s using evolves_shard [OF i that] .
  have mark: "evolves ?t (markDirty ?i (pkOf ?t row) (setShard ?i s ?t)) [pkOf ?t row] []"
    if "sh_dirtyRead s = dirtyR ?t ?i" "sh_dirtyDel s = dirtyD ?t ?i" for s
    using evolves_trans [OF two [OF that] evolves_mark(1) [of ?i "setShard ?i s ?t" "pkOf ?t row"]] i assms(2) by simp
  show ?thesis
    using assms(1) by (auto simp: insertRow_def Let_def addRow_def intro!: two mark
        split: if_splits bind_splits prod.splits option.splits)
qed

lemma updateCells_evolves:
  assumes "updateCells i k r ords vals j st = Some (e, st')" and "i < length (t_shards (st_table st))"
  shows "evolves (st_table st) (st_table st') [] []"
  using assms by (auto simp: updateCells_def Let_def addBytes_def intro!: evolves_shard
      split: if_splits bind_splits prod.splits option.splits)

lemma updateByPKJournaled_evolves:
  assumes "updateByPKJournaled seed pk ords compute j st = Some (x, st')" and "t_pkDir (st_table st) = None"
    and "t_indexes (st_table st) \<noteq> []" and i: "shardIdxOf (st_table st) pk < length (t_shards (st_table st))"
  shows "evolves (st_table st) (st_table st') (if x = Inr True \<and> updateTouchesIndex (st_table st) ords then [pk] else []) []"
proof -
  let ?i = "shardIdxOf (st_table st) pk"
  have mark: "evolves (st_table st) (markDirty ?i pk (st_table st1)) [pk] []"
    if ev: "evolves (st_table st) (st_table st1) [] []" for st1
  proof -
    have f: "same_frame (st_table st) (st_table st1)" using ev by (simp add: evolves_def)
    then have "evolves (st_table st1) (markDirty ?i pk (st_table st1)) [pk] []"
      using i assms(3) same_frame_route [OF f] by (intro evolves_mark) (simp_all add: same_frame_def)
    with ev show ?thesis using evolves_trans by fastforce
  qed
  show ?thesis
    using assms(1,2) by (auto simp: updateByPKJournaled_def Let_def dest!: updateCells_evolves [OF _ i] intro!: mark
        split: if_splits bind_splits prod.splits option.splits sum.splits)
qed

lemma removeFound_evolves:
  assumes "removeFound seed pk slot k st = Some st'" and ne: "t_indexes (st_table st) \<noteq> []"
    and i: "shardIdxOf (st_table st) pk < length (t_shards (st_table st))"
  shows "evolves (st_table st) (st_table st') [] [pk]"
proof -
  let ?t = "st_table st" and ?i = "shardIdxOf (st_table st) pk"
  have mark: "evolves ?t (markDelDirty ?i pk (setShard ?i s ?t)) [] [pk]"
    if "sh_dirtyRead s = dirtyR ?t ?i" "sh_dirtyDel s = dirtyD ?t ?i" for s
    using evolves_trans [OF evolves_shard [OF i that] evolves_mark(2) [of ?i "setShard ?i s ?t" pk]] i ne by simp
  show ?thesis
    using assms(1) by (auto simp: removeFound_def Let_def tombstone_def intro!: mark split: if_splits bind_splits)
qed

lemma deleteByPKJournaled_evolves:
  assumes "deleteByPKJournaled seed pk j st = Some (x, st')" and "t_pkDir (st_table st) = None" and "t_indexes (st_table st) \<noteq> []"
  shows "evolves (st_table st) (st_table st') [] (if x = Inr True then [pk] else [])"
proof -
  have i: "shardIdxOf (st_table st) pk < length (t_shards (st_table st))"
    using assms(1,2) by (auto simp: deleteByPKJournaled_def Let_def split: if_splits)
  have rem: "evolves (st_table st) (st_table st'') [] [pk]" if "removeFound seed pk slot k (st\<lparr>st_wal := w\<rparr>) = Some st''" for slot k w st''
    using removeFound_evolves [OF that] i assms(3) by simp
  show ?thesis
    using assms(1,2) rem by (auto simp: deleteByPKJournaled_def Let_def split: if_splits bind_splits prod.splits option.splits)
qed

lemma applyUpdates_evolves:
  assumes "\<forall>(i, k, nr) \<in> set ps. i = shardIdxOf (st_table st) (pkOf (st_table st) nr) \<and> i < length (t_shards (st_table st))"
    and "t_indexes (st_table st) \<noteq> []"
  shows "evolves (st_table st) (st_table (applyUpdates touch ps st)) (if touch then loc_keys (st_table st) ps else []) []"
  using assms
proof (induction ps arbitrary: st)
  case (Cons p ps)
  obtain i k nr where p: "p = (i, k, nr)" by (cases p)
  let ?t = "st_table st"
  have i: "i = shardIdxOf ?t (pkOf ?t nr)" "i < length (t_shards ?t)" using Cons.prems(1) by (simp_all add: p)
  obtain st1 where st1: "applyUpdates touch (p # ps) st = applyUpdates touch ps st1"
      "evolves ?t (st_table st1) (if touch then [pkOf ?t nr] else []) []"
  proof -
    let ?s = "t_shards ?t ! i" and ?old = "case sh_rows (t_shards ?t ! i) ! k of None \<Rightarrow> [] | Some r \<Rightarrow> r"
    let ?b = "addBytes (rowCost nr (nIdx ?t) - rowCost ?old (nIdx ?t)) ?s (st_budget st)"
    let ?s' = "(fst ?b)\<lparr>sh_rows := (sh_rows (fst ?b))[k := Some nr]\<rparr>" let ?t' = "setShard i ?s' ?t"
    let ?t'' = "if touch then markDirty i (pkOf ?t nr) ?t' else ?t'"
    have e: "evolves ?t ?t' [] []" by (rule evolves_shard [OF i(2)]) (simp_all add: addBytes_def)
    have "evolves ?t' (markDirty i (pkOf ?t nr) ?t') [pkOf ?t nr] []" using i Cons.prems(2) by (intro evolves_mark) simp_all
    with e have "evolves ?t ?t'' (if touch then [pkOf ?t nr] else []) []" using evolves_trans by fastforce
    then show thesis by (intro that [of "st\<lparr>st_table := ?t'', st_budget := snd ?b\<rparr>"]) (simp_all add: p Let_def case_prod_beta)
  qed
  have f: "same_frame ?t (st_table st1)" using st1(2) by (simp add: evolves_def)
  note r = same_frame_route [OF f]
  have "evolves (st_table st1) (st_table (applyUpdates touch ps st1)) (if touch then loc_keys (st_table st1) ps else []) []"
    using Cons.prems f r by (intro Cons.IH) (auto simp: same_frame_def)
  moreover have "loc_keys (st_table st1) ps = loc_keys ?t ps" using r by (simp add: loc_keys_def)
  ultimately show ?case using evolves_trans [OF st1(2)] st1(1) by (fastforce simp: p)
qed simp

lemma deleteRow_evolves:
  assumes "deleteRow seed i pk k st = Some (b, st')" and i: "i < length (t_shards (st_table st))" "shardIdxOf (st_table st) pk = i"
    and ne: "t_indexes (st_table st) \<noteq> []"
  shows "evolves (st_table st) (st_table st') [] (if b then [pk] else [])"
proof -
  let ?t = "st_table st"
  have one: "evolves ?t (setShard i s ?t) [] []"
    if "sh_dirtyRead s = dirtyR ?t i" "sh_dirtyDel s = dirtyD ?t i" for s using evolves_shard [OF i(1) that] .
  have mark: "evolves ?t (markDelDirty i pk (setShard i s ?t)) [] [pk]"
    if "sh_dirtyRead s = dirtyR ?t i" "sh_dirtyDel s = dirtyD ?t i" for s
    using evolves_trans [OF one [OF that] evolves_mark(2) [of i "setShard i s ?t" pk]] i ne by simp
  show ?thesis
    using assms(1) by (auto simp: deleteRow_def Let_def tombstone_def intro!: one mark split: if_splits bind_splits option.splits)
qed

lemma applyDeletes_evolves:
  assumes "applyDeletes seed ps st = Some st'"
    and "\<forall>(i, k, pk) \<in> set ps. i = shardIdxOf (st_table st) pk \<and> i < length (t_shards (st_table st))"
    and "t_indexes (st_table st) \<noteq> []"
  shows "evolves (st_table st) (st_table st') [] (map (\<lambda>(i, k, pk). pk) ps)"
  using assms
proof (induction ps arbitrary: st)
  case (Cons p ps)
  obtain i k pk where p: "p = (i, k, pk)" by (cases p)
  obtain b st1 where st1: "deleteRow seed i pk (Some k) st = Some (b, st1)" "applyDeletes seed ps st1 = Some st'"
    using Cons.prems(1) by (auto simp: p split: bind_splits)
  then have b by (simp add: deleteRow_def Let_def split: bind_splits prod.splits)
  moreover have i: "i = shardIdxOf (st_table st) pk" "i < length (t_shards (st_table st))" using Cons.prems(2) by (simp_all add: p)
  ultimately have e: "evolves (st_table st) (st_table st1) [] [pk]"
    using deleteRow_evolves [OF st1(1) i(2) i(1) [symmetric] Cons.prems(3)] by simp
  then have f: "same_frame (st_table st) (st_table st1)" by (simp add: evolves_def)
  have "evolves (st_table st1) (st_table st') [] (map (\<lambda>(i, k, pk). pk) ps)"
  proof (rule Cons.IH [OF st1(2)])
    show "\<forall>(i, k, pk) \<in> set ps. i = shardIdxOf (st_table st1) pk \<and> i < length (t_shards (st_table st1))"
    proof -
      have same: "shardIdxOf (st_table st1) = shardIdxOf (st_table st)" "length (t_shards (st_table st1)) = length (t_shards (st_table st))"
        using f same_frame_route [OF f] by (simp_all add: same_frame_def)
      show ?thesis unfolding same using Cons.prems(2) by (meson list.set_intros(2))
    qed
    show "t_indexes (st_table st1) \<noteq> []" using Cons.prems(3) f by (simp add: same_frame_def)
  qed
  from evolves_trans [OF e this] show ?case by (simp add: p)
qed simp


section \<open>Every operation of the table\<close>

lemma rowKey_setCells:
  assumes "setCells r ords vals = Some r'" and "\<not> updateTouchesIndex t ords" and "si \<in> set (t_indexes t)"
  shows "rowKey si r' = rowKey si r"
proof -
  have "r' ! o' = r ! o'" if "o' \<in> set (si_ordinals si)" for o'
    using assms that by (intro setCells_other [OF assms(1)]) (auto simp: updateTouchesIndex_def ordIsIndexed_def)
  then have "projectClone r' (si_ordinals si) = projectClone r (si_ordinals si)" by (simp add: projectClone_def)
  then show ?thesis by (simp add: rowKey_def)
qed

lemma newRow_keys:
  assumes "set_ok t ords compute r" and "\<not> updateTouchesIndex t ords" and "si \<in> set (t_indexes t)" and "compute r = Inr vals"
  shows "rowKey si (newRow ords compute r) = rowKey si r"
proof -
  from assms(1,4) obtain r' where r': "setCells r ords vals = Some r'" by (rule set_okD)
  moreover have "newRow ords compute r = r'" using r' assms(4) by (simp add: newRow_def)
  ultimately show ?thesis using rowKey_setCells [OF _ assms(2,3)] by simp
qed


lemma updateRows_evolves:
  assumes inv: "store_inv seed base st" and t: "t = st_table st" and v: "visits t rs sel" and ne: "t_indexes t \<noteq> []"
    and ok: "\<forall>pk r. tbl_abs t pk = Some r \<longrightarrow> match r \<longrightarrow> set_ok t ords compute r"
    and run: "updateRows match ords compute encode ja rs st = Some (x, st')"
  shows "evolves t (st_table st') (if (\<exists>c. x = Inr c) \<and> updateTouchesIndex t ords
      then loc_keys t (filter (\<lambda>(i, k, r). match r) rs) else []) []"
proof -
  note d = store_invD [OF inv, folded t]
  have loc: "\<forall>x \<in> set rs. located t x" using v by (simp add: visits_def)
  define ms where "ms = filter (\<lambda>(i, k, r). match r) rs"
  have okr: "\<forall>(i, k, r) \<in> set rs. match r \<longrightarrow> set_ok t ords compute r" using loc located_abs ok by blast
  note collect = collectUpdates_ok [OF okr, folded ms_def]
  define ps where "ps = map (\<lambda>(i, k, r). (i, k, newRow ords compute r)) ms"
  have keys: "loc_keys t ps = loc_keys t ms"
    using okr newRow_pk [of t ords compute] by (auto simp: ps_def loc_keys_def ms_def)
  have routed: "\<forall>(i, k, nr) \<in> set ps. i = shardIdxOf t (pkOf t nr) \<and> i < length (t_shards t)"
  proof -
    have "i = shardIdxOf t (pkOf t (newRow ords compute r)) \<and> i < length (t_shards t)" if "(i, k, r) \<in> set ms" for i k r
    proof -
      have "located t (i, k, r)" "set_ok t ords compute r" using that loc okr by (auto simp: ms_def)
      then show ?thesis using newRow_pk [of t ords compute r] d(4) by (auto simp: located_def)
    qed
    then show ?thesis by (auto simp: ps_def)
  qed
  show ?thesis
  proof (cases "firstError compute (filter match (map (\<lambda>(i, k, r). r) rs))")
    case (Some e)
    then have "x = Inl e" "st' = st" using run collect by (auto simp: updateRows_def t)
    then show ?thesis by (simp add: t)
  next
    case None
    define bodies where "bodies = (case encode of None \<Rightarrow> [] | Some enc \<Rightarrow> map (\<lambda>(i, k, nr). enc nr) ps)"
    obtain e w where jw: "journalBodies ja bodies (st_wal st) = (e, w)" by fastforce
    have run': "(case e of Some e \<Rightarrow> Some (Inl e, st\<lparr>st_wal := w\<rparr>)
        | None \<Rightarrow> Some (Inr (length ps), applyUpdates (updateTouchesIndex t ords) ps (st\<lparr>st_wal := w\<rparr>))) = Some (x, st')"
      using run collect None jw by (simp add: updateRows_def ps_def [symmetric] bodies_def [symmetric] t split: option.splits)
    have tw: "st_table (st\<lparr>st_wal := w\<rparr>) = t" by (simp add: t)
    show ?thesis
    proof (cases e)
      case None
      then have "x = Inr (length ps)" "st' = applyUpdates (updateTouchesIndex t ords) ps (st\<lparr>st_wal := w\<rparr>)" using run' by simp_all
      then show ?thesis
        using applyUpdates_evolves [of ps "st\<lparr>st_wal := w\<rparr>", unfolded tw, OF routed ne, of "updateTouchesIndex t ords"]
        by (cases "updateTouchesIndex t ords") (simp_all add: keys ms_def [symmetric])
    qed (use run' in \<open>auto simp: t\<close>)
  qed
qed

lemma deleteRows_evolves:
  assumes inv: "store_inv seed base st" and t: "t = st_table st" and v: "visits t rs sel" and ne: "t_indexes t \<noteq> []"
    and run: "deleteRows seed encode ja rs st = Some (x, st')"
  shows "evolves t (st_table st') [] (if \<exists>c. x = Inr c then loc_keys t rs else [])"
proof -
  note d = store_invD [OF inv, folded t]
  define ps where "ps = map (\<lambda>(i, k, r). (i, k, pkOf t r)) rs"
  have loc: "\<forall>x \<in> set rs. located t x" using v by (simp add: visits_def)
  then have routed: "\<forall>(i, k, pk) \<in> set ps. i = shardIdxOf t pk \<and> i < length (t_shards t)"
    using d(4) by (auto simp: ps_def located_def)
  have keys: "map (\<lambda>(i, k, pk). pk) ps = loc_keys t rs" by (simp add: ps_def loc_keys_def comp_def case_prod_beta)
  define bodies where "bodies = (case encode of None \<Rightarrow> [] | Some enc \<Rightarrow> map (\<lambda>(i, k, r). enc (r ! pkOrd t)) rs)"
  obtain e w where jw: "journalBodies ja bodies (st_wal st) = (e, w)" by fastforce
  have tw: "st_table (st\<lparr>st_wal := w\<rparr>) = t" by (simp add: t)
  show ?thesis
  proof (cases e)
    case None
    then have "applyDeletes seed ps (st\<lparr>st_wal := w\<rparr>) = Some st'" "\<exists>c. x = Inr c"
      using run jw by (auto simp: deleteRows_def bodies_def [symmetric] ps_def t [symmetric] split: bind_splits)
    then show ?thesis
      using applyDeletes_evolves [of seed ps "st\<lparr>st_wal := w\<rparr>" st', unfolded tw, OF _ routed ne] by (simp add: keys)
  next
    case (Some er)
    then have "x = Inl er" "st' = st\<lparr>st_wal := w\<rparr>"
      using run jw by (simp_all add: deleteRows_def bodies_def [symmetric] t [symmetric])
    then show ?thesis by (simp add: t)
  qed
qed

text \<open>A key whose row did not change has not changed its keys.\<close>

lemma keys_change: "t_indexes t' = t_indexes t \<Longrightarrow> keys_of t pk \<noteq> keys_of t' pk \<Longrightarrow> tbl_abs t' pk \<noteq> tbl_abs t pk"
  by (auto simp: keys_of_def)

lemma keys_same_rows:
  assumes "t_indexes t' = t_indexes t" and "tbl_abs t pk = Some r" and "tbl_abs t' pk = Some r'"
    and "\<And>si. si \<in> set (t_indexes t) \<Longrightarrow> rowKey si r' = rowKey si r"
  shows "keys_of t pk = keys_of t' pk"
  using assms by (simp add: keys_of_def)

lemma insert_marks:
  assumes inv: "store_inv seed base st" and rows: "rows_ok n (tbl_abs (st_table st))" and ne: "t_indexes (st_table st) \<noteq> []"
    and ok: "row_ok n row" and run: "insertJournaled seed row j st = Some (e, st')"
  shows "marks (st_table st) (st_table st')"
proof -
  let ?t = "st_table st"
  note d = store_invD [OF inv]
  have ev: "evolves ?t (st_table st') (if e = None then [pkOf ?t row] else []) []"
    using run d(3) by (intro insertRow_evolves [OF _ ne, of seed row j]) (simp add: insertJournaled_def)
  have f: "t_indexes (st_table st') = t_indexes ?t" using ev by (simp add: evolves_def same_frame_def)
  obtain a st1 where so: "store_op seed (OpInsert row j) st = Some (a, st1)"
    "spec_op (sig_of base st) (OpInsert row j) (tbl_abs ?t, st_wal st) a (tbl_abs (st_table st1), st_wal st1)"
    using store_op_refines [OF inv rows, of "OpInsert row j"] ok by (auto simp del: store_op.simps spec_op.simps)
  have "a = (case e of None \<Rightarrow> Done | Some e \<Rightarrow> Failed e)" "st1 = st'" using so(1) run by auto
  with so(2) have spec: "spec_op (sig_of base st) (OpInsert row j) (tbl_abs ?t, st_wal st)
      (case e of None \<Rightarrow> Done | Some e \<Rightarrow> Failed e) (tbl_abs (st_table st'), st_wal st')"
    by (simp only:)
  then have m: "tbl_abs (st_table st') = (if e = None then (tbl_abs ?t)(pkOf ?t row \<mapsto> row) else tbl_abs ?t)"
    by (auto split: if_splits option.splits prod.splits)
  show ?thesis
  proof (rule evolves_marks [OF ev d(1)])
    fix pk assume "keys_of ?t pk \<noteq> keys_of (st_table st') pk"
    from keys_change [OF f this] have "e = None" "pk = pkOf ?t row" unfolding m by (auto split: if_splits)
    then show "pk \<in> set (if tbl_abs (st_table st') pk = None then [] else if e = None then [pkOf ?t row] else [])" by (simp add: m)
  qed simp
qed

lemma update_marks:
  assumes inv: "store_inv seed base st" and rows: "rows_ok n (tbl_abs (st_table st))" and ne: "t_indexes (st_table st) \<noteq> []"
    and ok: "sets_ok n (pkOrd (st_table st)) ords compute" and run: "updateByPKJournaled seed pk ords compute j st = Some (x, st')"
  shows "marks (st_table st) (st_table st')"
proof -
  let ?t = "st_table st"
  note d = store_invD [OF inv]
  have so: "\<forall>r. tbl_abs ?t pk = Some r \<longrightarrow> set_ok ?t ords compute r" using rows ok sets_ok_row by (auto simp: rows_ok_def)
  let ?R = "if x = Inr True \<and> updateTouchesIndex ?t ords then [pk] else []"
  have ev: "evolves ?t (st_table st') ?R []" using updateByPKJournaled_evolves [OF run d(3) ne d(4)] .
  have f: "t_indexes (st_table st') = t_indexes ?t" using ev by (simp add: evolves_def same_frame_def)
  have spec: "(x, tbl_abs (st_table st'), st_wal st') = update_spec (tbl_abs ?t) pk ords compute j (st_wal st)"
    using updateByPKJournaled_ok [OF inv refl so, of j] run by auto
  show ?thesis
  proof (rule evolves_marks [OF ev d(1)])
    fix q assume ch: "keys_of ?t q \<noteq> keys_of (st_table st') q"
    from keys_change [OF f ch] obtain r vals where r: "tbl_abs ?t pk = Some r" "compute r = Inr vals" "x = Inr True" "q = pk"
        "tbl_abs (st_table st') = (tbl_abs ?t)(pk \<mapsto> the (setCells r ords vals))"
      using spec by (auto simp: update_spec_def Let_def split: option.splits sum.splits prod.splits if_splits)
    have nr: "newRow ords compute r = the (setCells r ords vals)" using r(2) by (simp add: newRow_def)
    have "updateTouchesIndex ?t ords"
    proof (rule ccontr)
      assume nt: "\<not> updateTouchesIndex ?t ords"
      have "keys_of ?t q = keys_of (st_table st') q"
      proof (rule keys_same_rows [OF f, of q r "newRow ords compute r"])
        fix si assume "si \<in> set (t_indexes ?t)"
        moreover have "set_ok ?t ords compute r" using so r(1) by blast
        ultimately show "rowKey si (newRow ords compute r) = rowKey si r" using nt r(2) by (intro newRow_keys)
      qed (use r nr in simp_all)
      with ch show False by contradiction
    qed
    then show "q \<in> set (if tbl_abs (st_table st') q = None then [] else ?R)" using r(3-5) by simp
  qed simp
qed

lemma delete_marks:
  assumes inv: "store_inv seed base st" and ne: "t_indexes (st_table st) \<noteq> []" and run: "deleteByPKJournaled seed pk j st = Some (x, st')"
  shows "marks (st_table st) (st_table st')"
proof -
  let ?t = "st_table st"
  note d = store_invD [OF inv]
  let ?D = "if x = Inr True then [pk] else []"
  have ev: "evolves ?t (st_table st') [] ?D" using deleteByPKJournaled_evolves [OF run d(3) ne] .
  have f: "t_indexes (st_table st') = t_indexes ?t" using ev by (simp add: evolves_def same_frame_def)
  have spec: "(x, tbl_abs (st_table st'), st_wal st') = delete_spec (tbl_abs ?t) pk (\<lambda>_. True) j (st_wal st)"
    using deleteByPKJournaled_ok [OF inv refl, of pk j] run by auto
  show ?thesis
  proof (rule evolves_marks [OF ev d(1)])
    fix q assume ch: "keys_of ?t q \<noteq> keys_of (st_table st') q"
    from keys_change [OF f ch] show "q \<in> set (if tbl_abs (st_table st') q = None then ?D else [])"
      using spec by (auto simp: delete_spec_def split: option.splits prod.splits if_splits)
  next
    fix q assume "q \<in> set ?D" "tbl_abs (st_table st') q \<noteq> None"
    then show "q \<in> set []" using spec by (auto simp: delete_spec_def split: option.splits prod.splits if_splits)
  qed
qed


lemma updateRows_marks:
  assumes inv: "store_inv seed base st" and v: "visits (st_table st) rs sel" and ne: "t_indexes (st_table st) \<noteq> []"
    and rows: "rows_ok n (tbl_abs (st_table st))" and ok: "sets_ok n (pkOrd (st_table st)) ords compute"
    and run: "updateRows match ords compute encode ja rs st = Some (x, st')"
  shows "marks (st_table st) (st_table st')"
proof -
  let ?t = "st_table st"
  note d = store_invD [OF inv]
  have so: "\<forall>pk r. tbl_abs ?t pk = Some r \<longrightarrow> match r \<longrightarrow> set_ok ?t ords compute r"
    using rows ok sets_ok_row by (auto simp: rows_ok_def)
  let ?ms = "filter (\<lambda>(i, k, r). match r) rs"
  let ?R = "if (\<exists>c. x = Inr c) \<and> updateTouchesIndex ?t ords then loc_keys ?t ?ms else []"
  have ev: "evolves ?t (st_table st') ?R []" using updateRows_evolves [OF inv refl v ne so run] .
  have f: "t_indexes (st_table st') = t_indexes ?t" using ev by (simp add: evolves_def same_frame_def)
  have hits: "hit (tbl_abs ?t) sel match \<subseteq> set (loc_keys ?t ?ms)"
    using visits_filter [OF v, of match] by (auto simp: visits_def hit_def)
  have "tbl_abs (st_table st') = tbl_abs ?t \<or> (\<exists>c. x = Inr c) \<and>
      firstError compute (map (\<lambda>(i, k, r). r) ?ms) = None \<and>
      tbl_abs (st_table st') = (\<lambda>pk. if pk \<in> hit (tbl_abs ?t) sel match then map_option (newRow ords compute) (tbl_abs ?t pk) else tbl_abs ?t pk)"
    using updateRows_ok [OF inv refl v so, of encode ja] run
    by (auto simp: Let_def split: option.splits prod.splits)
  then show ?thesis
  proof (elim disjE conjE exE)
    assume same: "tbl_abs (st_table st') = tbl_abs ?t"
    show ?thesis
    proof (rule evolves_marks [OF ev d(1)])
      fix q assume "keys_of ?t q \<noteq> keys_of (st_table st') q"
      from keys_change [OF f this] show "q \<in> set (if tbl_abs (st_table st') q = None then [] else ?R)" by (simp add: same)
    qed simp
  next
    fix c assume x: "x = Inr c" and fe: "firstError compute (map (\<lambda>(i, k, r). r) ?ms) = None"
      and m: "tbl_abs (st_table st') = (\<lambda>pk. if pk \<in> hit (tbl_abs ?t) sel match then map_option (newRow ords compute) (tbl_abs ?t pk) else tbl_abs ?t pk)"
    show ?thesis
    proof (rule evolves_marks [OF ev d(1)])
      fix q assume ch: "keys_of ?t q \<noteq> keys_of (st_table st') q"
      from keys_change [OF f ch] have q: "q \<in> hit (tbl_abs ?t) sel match" by (auto simp: m split: if_splits)
      then obtain r where r: "tbl_abs ?t q = Some r" "match r" "tbl_abs (st_table st') q = Some (newRow ords compute r)"
        by (auto simp: hit_def m)
      have "updateTouchesIndex ?t ords"
      proof (rule ccontr)
        assume nt: "\<not> updateTouchesIndex ?t ords"
        have "keys_of ?t q = keys_of (st_table st') q"
        proof (rule keys_same_rows [OF f r(1,3)])
          fix si assume si: "si \<in> set (t_indexes ?t)"
          have sk: "set_ok ?t ords compute r" using so r(1,2) by blast
          show "rowKey si (newRow ords compute r) = rowKey si r"
            using newRow_keys [OF sk nt si] by (cases "compute r") (simp_all add: newRow_def)
        qed
        with ch show False by contradiction
      qed
      then show "q \<in> set (if tbl_abs (st_table st') q = None then [] else ?R)" using q hits r(3) x by auto
    qed simp
  qed
qed

lemma deleteRows_marks:
  assumes inv: "store_inv seed base st" and v: "visits (st_table st) rs sel" and ne: "t_indexes (st_table st) \<noteq> []"
    and run: "deleteRows seed encode ja rs st = Some (x, st')"
  shows "marks (st_table st) (st_table st')"
proof -
  let ?t = "st_table st"
  note d = store_invD [OF inv]
  let ?D = "if \<exists>c. x = Inr c then loc_keys ?t rs else []"
  have ev: "evolves ?t (st_table st') [] ?D" using deleteRows_evolves [OF inv refl v ne run] .
  have f: "t_indexes (st_table st') = t_indexes ?t" using ev by (simp add: evolves_def same_frame_def)
  have keys: "set (loc_keys ?t rs) = sel \<inter> dom (tbl_abs ?t)" using v by (simp add: visits_def)
  have "(\<exists>e. x = Inl e) \<and> tbl_abs (st_table st') = tbl_abs ?t \<or>
      (\<exists>c. x = Inr c) \<and> tbl_abs (st_table st') = (\<lambda>pk. if pk \<in> sel then None else tbl_abs ?t pk)"
    using deleteRows_ok [OF inv refl v, where encode = encode and journalAll = ja] run
    by (auto simp: Let_def split: option.splits prod.splits)
  then consider (failed) e where "x = Inl e" "tbl_abs (st_table st') = tbl_abs ?t"
    | (deleted) c where "x = Inr c" "tbl_abs (st_table st') = (\<lambda>pk. if pk \<in> sel then None else tbl_abs ?t pk)" by blast
  then show ?thesis
  proof cases
    case failed
    show ?thesis
    proof (rule evolves_marks [OF ev d(1)])
      fix q assume "keys_of ?t q \<noteq> keys_of (st_table st') q"
      from keys_change [OF f this] show "q \<in> set (if tbl_abs (st_table st') q = None then ?D else [])" by (simp add: failed)
    qed (use failed in simp)
  next
    case deleted
    show ?thesis
    proof (rule evolves_marks [OF ev d(1)])
      fix q assume "keys_of ?t q \<noteq> keys_of (st_table st') q"
      from keys_change [OF f this] have "q \<in> sel \<and> tbl_abs ?t q \<noteq> None" by (cases "q \<in> sel"; cases "tbl_abs ?t q") (simp_all add: deleted)
      then show "q \<in> set (if tbl_abs (st_table st') q = None then ?D else [])" by (auto simp: deleted keys)
    next
      fix q assume "q \<in> set ?D" "tbl_abs (st_table st') q \<noteq> None"
      then show "q \<in> set []" by (auto simp: deleted keys split: if_splits)
    qed
  qed
qed

lemma compact_marks:
  assumes inv: "store_inv seed base st" and i: "i < length (t_shards (st_table st))"
    and run: "compactShardIfDense seed i (st_table st) (st_table st) = Some t'"
  shows "marks (st_table st) t'"
proof -
  let ?t = "st_table st"
  note d = store_invD [OF inv]
  have "tbl_abs t' = tbl_abs ?t" "t_indexes t' = t_indexes ?t" using compactShardIfDense_ok [OF d(1) i] run by auto
  moreover have ev: "evolves ?t t' [] []"
    using run d(3) i by (auto simp: compactShardIfDense_def compactShardLocked_def Let_def intro!: evolves_shard split: if_splits bind_splits)
  ultimately show ?thesis by (intro evolves_marks [OF ev d(1)]) (simp_all add: keys_of_def)
qed

text \<open>Every operation of the table's alphabet keeps its promise to the indexes.\<close>

lemma store_op_marks:
  assumes inv: "store_inv seed base st" and rows: "rows_ok n (tbl_abs (st_table st))" and ne: "t_indexes (st_table st) \<noteq> []"
    and ok: "op_ok n (pkOrd (st_table st)) (length (t_shards (st_table st))) op"
    and run: "store_op seed op st = Some (a, st')"
  shows "marks (st_table st) (st_table st')"
proof -
  let ?t = "st_table st"
  note d = store_invD [OF inv]
  show ?thesis
  proof (cases op)
    case (OpGet pk)
    then have "st' = st" using run by auto
    then show ?thesis by (auto intro!: evolves_marks [OF evolves_refl d(1)])
  next
    case (OpInsert row j)
    then show ?thesis using run ok insert_marks [OF inv rows ne, of row j] by auto
  next
    case (OpUpdate pk ords compute j)
    then show ?thesis using run ok update_marks [OF inv rows ne, of ords compute pk j] by (auto simp: ansOf_def)
  next
    case (OpDelete pk j)
    then show ?thesis using run delete_marks [OF inv ne, of pk j] by (auto simp: ansOf_def)
  next
    case (OpUpdateWhere pks match ords compute encode ja)
    then have so: "sets_ok n (pkOrd ?t) ords compute" using ok by simp
    show ?thesis
    proof (cases pks)
      case None
      then obtain x where "updateRows match ords compute encode ja (live_at ?t) st = Some (x, st')"
        using run by (auto simp: OpUpdateWhere updateWhereAll_def ansOf_def)
      then show ?thesis using updateRows_marks [OF inv visits_scan [OF d(1)] ne rows so] by blast
    next
      case (Some cands)
      with ok OpUpdateWhere obtain rs where rs: "candidateRows seed ?t cands = Some rs" "visits ?t rs (set cands)"
        using candidateRows_ok [OF d(1), of cands] by auto
      then obtain x where "updateRows match ords compute encode ja rs st = Some (x, st')"
        using run Some by (auto simp: OpUpdateWhere updateByCandidates_def ansOf_def)
      then show ?thesis using updateRows_marks [OF inv rs(2) ne rows so] by blast
    qed
  next
    case (OpDeleteWhere pks match encode ja)
    show ?thesis
    proof (cases pks)
      case None
      then obtain x where "deleteRows seed encode ja (filter (\<lambda>(i, k, r). match r) (live_at ?t)) st = Some (x, st')"
        using run d(3) by (auto simp: OpDeleteWhere deleteWhereAll_def ansOf_def)
      then show ?thesis using deleteRows_marks [OF inv visits_filter [OF visits_scan [OF d(1)]] ne] by blast
    next
      case (Some cands)
      with ok OpDeleteWhere obtain rs where rs: "candidateRows seed ?t cands = Some rs" "visits ?t rs (set cands)"
        using candidateRows_ok [OF d(1), of cands] by auto
      then obtain x where "deleteRows seed encode ja (filter (\<lambda>(i, k, r). match r) rs) st = Some (x, st')"
        using run Some by (auto simp: OpDeleteWhere deleteByCandidates_def ansOf_def)
      then show ?thesis using deleteRows_marks [OF inv visits_filter [OF rs(2)] ne] by blast
    qed
  next
    case (OpCompact i)
    then show ?thesis using run ok compact_marks [OF inv, of i] by auto
  qed
qed

end
