(* ===== verification/IndexReads.thy ===== *)
theory IndexReads
  imports IndexMarks
begin

text \<open>
  What index reads can rely on: in every state that writes and merge steps reach, a live row is found
  through the index or is in the dirty overlay, and a merge that runs to its end without a write in
  between leaves the indexes exact and the overlay empty.
\<close>

section \<open>The dirty overlay lists the dirty live rows\<close>

lemma live_dirty_set:
  assumes "pk_inv seed m"
  shows "live_dirty seed m pks = Some (filter (\<lambda>pk. pk_abs m pk \<noteq> None) pks)"
  by (induction pks) (auto simp: pkm.get_abs [OF assms] split: option.split)

lemma dirty_shards_eq:
  assumes "\<forall>s \<in> set ss. pk_inv seed (sh_pk s)"
  shows "dirty_shards seed False ss = Some (concat (map (\<lambda>s. filter (\<lambda>pk. pk_abs (sh_pk s) pk \<noteq> None) (sh_dirtyRead s)) ss))"
  using assms by (induction ss) (simp_all add: live_dirty_set)

lemma dirtyPKs_set:
  assumes inv: "table_inv seed t" and home: "at_home t" and cnt: "counted t"
  obtains ds where "dirtyPKs seed t = Some ds" "set ds = {pk. tbl_abs t pk \<noteq> None \<and> pk \<in> set (dirtyR t (shardIdxOf t pk))}"
proof -
  have pki: "\<forall>s \<in> set (t_shards t). pk_inv seed (sh_pk s)"
    using inv by (auto simp: table_inv_def shard_inv_def in_set_conv_nth)
  have si: "shardIdxOf t pk < length (t_shards t)" for pk using inv shardIdxOf_less by (simp add: table_inv_def)
  have live: "pk_abs (sh_pk (t_shards t ! shardIdxOf t pk)) pk \<noteq> None \<longleftrightarrow> tbl_abs t pk \<noteq> None" for pk
    using inv si [of pk] shard_abs_None [of "t_shards t ! shardIdxOf t pk" "pkOf t" pk]
    by (simp add: table_inv_def shard_inv_def tbl_abs_def)
  define ds where "ds = concat (map (\<lambda>s. filter (\<lambda>pk. pk_abs (sh_pk s) pk \<noteq> None) (sh_dirtyRead s)) (t_shards t))"
  have all: "set ds = {pk. tbl_abs t pk \<noteq> None \<and> pk \<in> set (dirtyR t (shardIdxOf t pk))}"
  proof (intro equalityI subsetI)
    fix pk assume "pk \<in> set ds"
    then obtain s where s: "s \<in> set (t_shards t)" "pk \<in> set (sh_dirtyRead s)" "pk_abs (sh_pk s) pk \<noteq> None" by (auto simp: ds_def)
    then obtain i where i: "i < length (t_shards t)" "s = t_shards t ! i" by (auto simp: in_set_conv_nth)
    then have "shardIdxOf t pk = i" using home s(2) by (auto simp: at_home_def)
    then show "pk \<in> {pk. tbl_abs t pk \<noteq> None \<and> pk \<in> set (dirtyR t (shardIdxOf t pk))}" using s i live [of pk] by auto
  next
    fix pk assume "pk \<in> {pk. tbl_abs t pk \<noteq> None \<and> pk \<in> set (dirtyR t (shardIdxOf t pk))}"
    then show "pk \<in> set ds" using si [of pk] live [of pk] by (auto simp: ds_def intro!: bexI [of _ "t_shards t ! shardIdxOf t pk"])
  qed
  show thesis
  proof (cases "t_readDirtyCount t = 0")
    case True
    have "sum_list (map f xs) = 0 \<Longrightarrow> x \<in> set xs \<Longrightarrow> f x = 0" if "\<And>x. 0 \<le> f x" for f :: "tableShard \<Rightarrow> int" and xs x
      using that sum_list_nonneg_eq_0_iff [of "map f xs"] by auto
    from this [of "\<lambda>s. int (length (sh_dirtyRead s))" "t_shards t"] True cnt
    have "\<forall>s \<in> set (t_shards t). sh_dirtyRead s = []" by (simp add: counted_def)
    then have "ds = []" by (auto simp: ds_def)
    then show thesis using that [of "[]"] True all by (simp add: dirtyPKs_def)
  next
    case False
    have "t_pkDir t = None" using inv by (simp add: table_inv_def)
    then show thesis using that [of ds] False all dirty_shards_eq [OF pki] by (simp add: dirtyPKs_def ds_def)
  qed
qed

section \<open>The reachable states\<close>

text \<open>
  The merge runs between the operations of the table.  The condition on the rows is what the
  validation of the statements establishes: the indexed cells have the kinds of their columns.
\<close>

inductive merging :: "uint64 \<Rightarrow> ValueKind list \<Rightarrow> nat \<Rightarrow> 'w store \<Rightarrow> mphase \<Rightarrow> 'w store \<Rightarrow> bool"
  for seed Ks n st0 where
  start: "merging seed Ks n st0 Idle st0"
| merge: "merging seed Ks n st0 ph st \<Longrightarrow> mergeNext seed ph (st_table st) = Some (ph', t') \<Longrightarrow>
    merging seed Ks n st0 ph' (st\<lparr>st_table := t'\<rparr>)"
| operation: "merging seed Ks n st0 ph st \<Longrightarrow>
    op_ok n (pkOrd (st_table st)) (length (t_shards (st_table st))) op \<Longrightarrow>
    store_op seed op st = Some (a, st') \<Longrightarrow> typed Ks (st_table st') \<Longrightarrow> merging seed Ks n st0 ph st'"

inductive_cases mergingE: "merging seed Ks n st0 ph st"

lemma mergeNext_frame:
  assumes inv: "merge_inv seed Ks ph t" and step: "mergeNext seed ph t = Some (ph', t')"
  shows "tbl_abs t' = tbl_abs t" "tbl_bytes t' = tbl_bytes t" "t_def t' = t_def t" "length (t_shards t') = length (t_shards t)"
    "map si_ordinals (t_indexes t') = map si_ordinals (t_indexes t)"
proof -
  note v = inv [unfolded merge_inv_def]
  have "tbl_abs t' = tbl_abs t \<and> tbl_bytes t' = tbl_bytes t \<and> t_def t' = t_def t \<and> length (t_shards t') = length (t_shards t) \<and>
      map si_ordinals (t_indexes t') = map si_ordinals (t_indexes t)"
  proof (cases ph)
    case (Applying d pks drops ch)
    then have len: "length ch = length (t_indexes t)" using v by (simp add: phase_ok_def nIdx_def)
    show ?thesis using step v Applying
      by (cases pks) (auto simp: mergeOne_eq [OF _ len] tbl_bytes_def comp_def)
  next
    case (Folding k drops ch)
    then show ?thesis using step by (auto simp: tbl_bytes_def map_update list_update_same_conv split: if_splits)
  next
    case (Dropping drops)
    show ?thesis
    proof (cases drops)
      case (Cons d ds)
      then have "fst d < length (t_shards t)" using v Dropping by (auto simp: pends_ok_def)
      then have "tbl_bytes (dropPrefix d t) = tbl_bytes t"
        by (simp add: dropPrefix_def case_prod_beta tbl_bytes_def map_update sum_list_upd)
      then show ?thesis using step Dropping Cons dropPrefix_table(2) [OF conjunct1 [OF v] \<open>fst d < _\<close>] by auto
    qed (use step Dropping in simp)
  qed (use step in \<open>auto simp: Let_def split: if_splits prod.splits\<close>)
  then show "tbl_abs t' = tbl_abs t" "tbl_bytes t' = tbl_bytes t" "t_def t' = t_def t" "length (t_shards t') = length (t_shards t)"
    "map si_ordinals (t_indexes t') = map si_ordinals (t_indexes t)" by blast+
qed

lemma merging_inv:
  assumes "merging seed Ks n st0 ph st"
    and "store_inv seed base st0" and "rows_ok n (tbl_abs (st_table st0))" and "merge_inv seed Ks Idle (st_table st0)"
    and "t_indexes (st_table st0) \<noteq> []"
  shows "store_inv seed base st \<and> rows_ok n (tbl_abs (st_table st)) \<and> merge_inv seed Ks ph (st_table st) \<and>
    map si_ordinals (t_indexes (st_table st)) = map si_ordinals (t_indexes (st_table st0)) \<and>
    length (t_shards (st_table st)) = length (t_shards (st_table st0)) \<and> t_def (st_table st) = t_def (st_table st0)"
  using assms
proof (induction rule: merging.induct)
  case (merge ph st ph' t')
  then have ih: "store_inv seed base st" "rows_ok n (tbl_abs (st_table st))" "merge_inv seed Ks ph (st_table st)" by simp_all
  note f = mergeNext_frame [OF ih(3) merge.hyps(2)]
  have mi: "merge_inv seed Ks ph' t'" using mergeNext_inv [OF ih(3) merge.hyps(2)] .
  then have "table_inv seed t'" by (simp add: merge_inv_def)
  then have "store_inv seed base (st\<lparr>st_table := t'\<rparr>)" using ih(1) f(2) by (simp add: store_inv_def budget_ok_def)
  then show ?case using ih mi f merge by simp
next
  case (operation ph st op a st')
  then have ih: "store_inv seed base st" "rows_ok n (tbl_abs (st_table st))" "merge_inv seed Ks ph (st_table st)"
      "map si_ordinals (t_indexes (st_table st)) = map si_ordinals (t_indexes (st_table st0))" by simp_all
  have ne: "t_indexes (st_table st) \<noteq> []" using ih(4) operation.prems(4) by auto
  from store_op_refines [OF ih(1,2) operation.hyps(2)] operation.hyps(3)
  have s: "store_inv seed base st'" "frame st st'"
    "spec_op (sig_of base st) op (tbl_abs (st_table st), st_wal st) a (tbl_abs (st_table st'), st_wal st')" by auto
  have "rows_ok n (tbl_abs (st_table st'))" using spec_op_rows [OF s(3) operation.hyps(2) ih(2)] .
  moreover have "marks (st_table st) (st_table st')" using store_op_marks [OF ih(1,2) ne operation.hyps(2,3)] .
  then have "merge_inv seed Ks ph (st_table st')"
    using write_inv [OF ih(3) ne] s(1) operation.hyps(4) by (simp add: store_inv_def)
  ultimately show ?case using s operation by (simp add: frame_def)
qed simp

text \<open>A new table starts in the invariant.\<close>

lemma fresh_merge_inv:
  assumes "\<not> partitioned rt" and "length Ks = length (rt_indexes rt)"
  shows "merge_inv seed Ks Idle (newTable cpus rt hint)"
proof -
  let ?t = "newTable cpus rt hint"
  have ti: "table_inv seed ?t" and abs: "tbl_abs ?t = Map.empty" using newTable_ok [OF assms(1), of seed cpus hint] by simp_all
  have sh: "\<forall>i < length (t_shards ?t). dirtyR ?t i = [] \<and> dirtyD ?t i = []" by (simp add: newTable_def Let_def)
  have ix: "t_indexes ?t = map newSecIndex (rt_indexes rt)" by (simp add: newTable_def Let_def)
  have "idx_ok K [] (newSecIndex ri)" for K ri using si_synced_new by (simp add: idx_ok_synced)
  moreover have "counted ?t" by (simp add: counted_def newTable_def Let_def sum_list_replicate)
  ultimately show ?thesis using ti abs sh assms(2)
    by (auto simp: merge_inv_def pends_ok_def phase_ok_def at_home_def reinserted_def covered_def fresh_def moved_seen_def
        idxs_ok_def typed_def ix nIdx_def newSecIndex_def)
qed

lemma fresh_reach:
  assumes "merging seed Ks n (freshStore cpus rt hint base limit w) ph st"
    and "\<not> partitioned rt" and "rt_indexes rt \<noteq> []" and "length Ks = length (rt_indexes rt)"
  shows "store_inv seed base st \<and> rows_ok n (tbl_abs (st_table st)) \<and> merge_inv seed Ks ph (st_table st) \<and>
    map si_ordinals (t_indexes (st_table st)) = map ri_ordinals (rt_indexes rt) \<and> t_indexes (st_table st) \<noteq> []"
proof -
  let ?s0 = "freshStore cpus rt hint base limit w"
  have t: "st_table ?s0 = newTable cpus rt hint" by (simp add: freshStore_def)
  have ix: "map si_ordinals (t_indexes (newTable cpus rt hint)) = map ri_ordinals (rt_indexes rt)"
    by (simp add: newTable_def Let_def newSecIndex_def)
  then have ne: "t_indexes (st_table ?s0) \<noteq> []" using assms(3) by (auto simp: t)
  have rows: "rows_ok n (tbl_abs (st_table ?s0))" by (simp add: rows_ok_def freshStore_ok(2) [OF assms(2)])
  have mi: "merge_inv seed Ks Idle (st_table ?s0)" using fresh_merge_inv [OF assms(2,4)] by (simp add: t)
  note m = merging_inv [OF assms(1) freshStore_ok(1) [OF assms(2)] rows mi ne]
  then have ords: "map si_ordinals (t_indexes (st_table st)) = map ri_ordinals (rt_indexes rt)" by (simp add: t ix)
  then have "t_indexes (st_table st) \<noteq> []" using assms(3) by auto
  with m ords show ?thesis by blast
qed

section \<open>No gap\<close>

abbreviation clean :: "table \<Rightarrow> UUID \<Rightarrow> bool" where
  "clean t pk \<equiv> pk \<notin> set (dirtyR t (shardIdxOf t pk))"

text \<open>A live key outside the overlay is up to date in every index.\<close>

lemma clean_fresh:
  assumes inv: "merge_inv seed Ks ph t" and r: "tbl_abs t pk = Some r" and nd: "clean t pk" and k: "k < nIdx t"
  shows "map_of (si_rev (t_indexes t ! k)) pk = rowKey (t_indexes t ! k) r" "pk \<notin> set (moved ph k)"
proof -
  note v = inv [unfolded merge_inv_def]
  show "pk \<notin> set (moved ph k)" using v r k nd by (auto simp: moved_seen_def)
  have "pk \<notin> set (todo ph)"
  proof
    assume a: "pk \<in> set (todo ph)"
    then obtain d pks drops ch where ph: "ph = Applying d pks drops ch" by (cases ph) auto
    then have b: "pk \<in> set (dirtyR t (fst d)) \<union> set (dirtyD t (fst d))" "fst d < length (t_shards t)"
      using v a by (auto simp: phase_ok_def pends_ok_def dest: in_set_takeD)
    then have "shardIdxOf t pk = fst d" using v by (auto simp: at_home_def)
    then show False using b(1) v r nd by (auto simp: reinserted_def)
  qed
  moreover have "\<not> tail_dirty ph t pk" using nd r by (auto simp: tail_dirty_def tailR_def dest: in_set_dropD)
  ultimately have "fresh t pk" using v by (auto simp: covered_def)
  then show "map_of (si_rev (t_indexes t ! k)) pk = rowKey (t_indexes t ! k) r" using k r by (simp add: fresh_def nIdx_def)
qed

text \<open>
  A live row with a key in an index is in the index's bucket for that key or in the overlay, whatever
  the merge is doing.
\<close>

lemma found_or_dirty:
  assumes inv: "merge_inv seed Ks ph t" and r: "tbl_abs t pk = Some r" and k: "k < nIdx t"
    and key: "rowKey (t_indexes t ! k) r = Some key" and nd: "clean t pk"
  shows "map_of (si_rev (t_indexes t ! k)) pk = Some key \<and> pk \<notin> set (moved ph k)"
  using clean_fresh [OF inv r nd k] key by simp

lemma index_no_gap:
  assumes inv: "merge_inv seed Ks ph t" and r: "tbl_abs t pk = Some r" and k: "k < nIdx t"
    and key: "rowKey (t_indexes t ! k) r = Some key"
  obtains ds where "dirtyPKs seed t = Some ds" "pk \<in> set (si_lookup key (t_indexes t ! k)) \<or> pk \<in> set ds"
    "\<And>p. Ks ! k = KindBytes \<Longrightarrow> si_ordered (t_indexes t ! k) \<Longrightarrow> prefix (ks p) (ks key) \<Longrightarrow>
      pk \<in> set (prefixLookup p (t_indexes t ! k)) \<or> pk \<in> set ds"
proof -
  note v = inv [unfolded merge_inv_def]
  obtain ds where ds: "dirtyPKs seed t = Some ds" "set ds = {pk. tbl_abs t pk \<noteq> None \<and> pk \<in> set (dirtyR t (shardIdxOf t pk))}"
    using dirtyPKs_set [of seed t] v by blast
  have io: "idx_ok (Ks ! k) (moved ph k) (t_indexes t ! k)" using v k by (simp add: idxs_ok_def)
  show thesis
  proof (cases "pk \<in> set (dirtyR t (shardIdxOf t pk))")
    case True
    then show thesis using ds r by (intro that [of ds]) auto
  next
    case False
    note f = found_or_dirty [OF inv r k key False]
    show thesis
      using ds f idx_ok_lookup [OF io] idx_ok_prefixLookup [of "moved ph k" "t_indexes t ! k" pk key] io
      by (intro that [of ds]) auto
  qed
qed


section \<open>A merge that is not interrupted\<close>

definition next_step :: "uint64 \<Rightarrow> mphase \<times> table \<Rightarrow> mphase \<times> table \<Rightarrow> bool" where
  "next_step seed x y \<longleftrightarrow> mergeNext seed (fst x) (snd x) = Some y"

abbreviation next_steps :: "uint64 \<Rightarrow> mphase \<times> table \<Rightarrow> mphase \<times> table \<Rightarrow> bool" where
  "next_steps seed \<equiv> (next_step seed)\<^sup>*\<^sup>*"

lemma next_steps_inv:
  assumes "next_steps seed x y" and "merge_inv seed Ks (fst x) (snd x)"
  shows "merge_inv seed Ks (fst y) (snd y) \<and> tbl_abs (snd y) = tbl_abs (snd x) \<and> nIdx (snd y) = nIdx (snd x) \<and>
    length (t_shards (snd y)) = length (t_shards (snd x)) \<and> map si_ordinals (t_indexes (snd y)) = map si_ordinals (t_indexes (snd x))"
  using assms
proof (induction rule: rtranclp_induct)
  case (step y z)
  then have ih: "merge_inv seed Ks (fst y) (snd y)" by blast
  have s: "mergeNext seed (fst y) (snd y) = Some (fst z, snd z)" using step.hyps(2) by (simp add: next_step_def)
  have "nIdx (snd z) = nIdx (snd y)" using arg_cong [OF mergeNext_frame(5) [OF ih s], of length] by (simp add: nIdx_def)
  then show ?case using mergeNext_inv [OF ih s] mergeNext_frame [OF ih s] step by simp
qed simp

lemma step_then: "mergeNext seed ph t = Some (ph', t') \<Longrightarrow> next_steps seed (ph', t') z \<Longrightarrow> next_steps seed (ph, t) z"
  by (rule converse_rtranclp_into_rtranclp) (simp add: next_step_def)

lemma mergeBatch_steps:
  assumes "merge_inv seed Ks (Applying d pks drops ch) t"
  shows "\<exists>t' ch'. mergeBatch seed pks (t, ch) = Some (t', ch') \<and> t_shards t' = t_shards t \<and>
    next_steps seed (Applying d pks drops ch, t) (Applying d [] drops ch', t')"
  using assms
proof (induction pks arbitrary: t ch)
  case (Cons pk pks)
  have v: "table_inv seed t" "length ch = length (t_indexes t)"
    using Cons.prems by (simp_all add: merge_inv_def phase_ok_def nIdx_def)
  obtain t1 ch1 where one: "mergeOne seed pk (t, ch) = Some (t1, ch1)" "t_shards t1 = t_shards t" by (simp add: mergeOne_eq [OF v])
  have "merge_inv seed Ks (Applying d pks drops ch1) t1" using apply_inv [OF Cons.prems one(1)] .
  from Cons.IH [OF this] obtain t' ch' where "mergeBatch seed pks (t1, ch1) = Some (t', ch')" "t_shards t' = t_shards t1"
    "next_steps seed (Applying d pks drops ch1, t1) (Applying d [] drops ch', t')" by blast
  moreover have "mergeNext seed (Applying d (pk # pks) drops ch) t = Some (Applying d pks drops ch1, t1)" using one(1) by simp
  ultimately show ?case using one step_then by (intro exI [of _ t'] exI [of _ ch']) auto
qed auto

definition pendOf :: "table \<Rightarrow> nat \<Rightarrow> pendingDrop" where
  "pendOf t i = (i, length (dirtyR t i), length (dirtyD t i))"

lemma mergeShards_steps:
  assumes "merge_inv seed Ks (Scan i drops ch) t" and "i \<le> length (t_shards t)"
  shows "\<exists>t' ch'. mergeShards seed [i..<length (t_shards t)] (t, ch) drops =
      Some ((t', ch'), drops @ map (pendOf t) (filter (\<lambda>i. dirtyR t i @ dirtyD t i \<noteq> []) [i..<length (t_shards t)])) \<and> t_shards t' = t_shards t \<and>
    next_steps seed (Scan i drops ch, t)
      (Scan (length (t_shards t)) (drops @ map (pendOf t) (filter (\<lambda>i. dirtyR t i @ dirtyD t i \<noteq> []) [i..<length (t_shards t)])) ch', t')"
  using assms
proof (induction "length (t_shards t) - i" arbitrary: i drops ch t)
  case 0
  then show ?case by auto
next
  case (Suc m)
  let ?n = "length (t_shards t)"
  have i: "i < ?n" and up: "[i..<?n] = i # [i + 1..<?n]" using Suc.hyps(2) by (auto simp: upt_conv_Cons)
  have snap: "snapshotDirty i t = (dirtyR t i @ dirtyD t i, pendOf t i)" by (simp add: snapshotDirty_def pendOf_def Let_def)
  show ?case
  proof (cases "dirtyR t i @ dirtyD t i = []")
    case True
    then have s: "mergeNext seed (Scan i drops ch) t = Some (Scan (i + 1) drops ch, t)" using i snap by simp
    have "\<exists>t' ch'. mergeShards seed [i + 1..<?n] (t, ch) drops =
      Some ((t', ch'), drops @ map (pendOf t) (filter (\<lambda>i. dirtyR t i @ dirtyD t i \<noteq> []) [i + 1..<?n])) \<and> t_shards t' = t_shards t \<and>
      next_steps seed (Scan (i + 1) drops ch, t)
        (Scan ?n (drops @ map (pendOf t) (filter (\<lambda>i. dirtyR t i @ dirtyD t i \<noteq> []) [i + 1..<?n])) ch', t')"
      using Suc.hyps(2) i mergeNext_inv [OF Suc.prems(1) s] by (intro Suc.hyps(1)) simp_all
    then show ?thesis using True snap step_then [OF s] unfolding up by auto
  next
    case False
    let ?A = "Applying (pendOf t i) (dirtyR t i @ dirtyD t i) drops ch"
    have s: "mergeNext seed (Scan i drops ch) t = Some (?A, t)" using i snap False by auto
    note a = mergeNext_inv [OF Suc.prems(1) s]
    from mergeBatch_steps [OF a] obtain t1 ch1 where b: "mergeBatch seed (dirtyR t i @ dirtyD t i) (t, ch) = Some (t1, ch1)"
      "t_shards t1 = t_shards t" "next_steps seed (?A, t) (Applying (pendOf t i) [] drops ch1, t1)" by blast
    have s2: "mergeNext seed (Applying (pendOf t i) [] drops ch1) t1 = Some (Scan (i + 1) (drops @ [pendOf t i]) ch1, t1)"
      by (simp add: pendOf_def)
    have a1: "merge_inv seed Ks (Applying (pendOf t i) [] drops ch1) t1" using next_steps_inv [OF b(3)] a by simp
    have p: "pendOf t1 = pendOf t" by (simp add: pendOf_def b(2) fun_eq_iff)
    have "\<exists>t' ch'. mergeShards seed [i + 1..<length (t_shards t1)] (t1, ch1) (drops @ [pendOf t i]) =
      Some ((t', ch'), (drops @ [pendOf t i]) @ map (pendOf t1) (filter (\<lambda>i. dirtyR t1 i @ dirtyD t1 i \<noteq> []) [i + 1..<length (t_shards t1)])) \<and>
      t_shards t' = t_shards t1 \<and>
      next_steps seed (Scan (i + 1) (drops @ [pendOf t i]) ch1, t1)
        (Scan (length (t_shards t1)) ((drops @ [pendOf t i]) @ map (pendOf t1) (filter (\<lambda>i. dirtyR t1 i @ dirtyD t1 i \<noteq> []) [i + 1..<length (t_shards t1)])) ch', t')"
      using Suc.hyps(2) i b(2) mergeNext_inv [OF a1 s2] by (intro Suc.hyps(1)) simp_all
    then obtain t' ch' where r: "mergeShards seed [i + 1..<?n] (t1, ch1) (drops @ [pendOf t i]) =
      Some ((t', ch'), drops @ map (pendOf t) (filter (\<lambda>i. dirtyR t i @ dirtyD t i \<noteq> []) [i..<?n]))" "t_shards t' = t_shards t"
      "next_steps seed (Scan (i + 1) (drops @ [pendOf t i]) ch1, t1)
        (Scan ?n (drops @ map (pendOf t) (filter (\<lambda>i. dirtyR t i @ dirtyD t i \<noteq> []) [i..<?n])) ch', t')"
      using False unfolding up by (auto simp: b(2) p)
    have "next_steps seed (Scan i drops ch, t)
        (Scan ?n (drops @ map (pendOf t) (filter (\<lambda>i. dirtyR t i @ dirtyD t i \<noteq> []) [i..<?n])) ch', t')"
      by (rule step_then [OF s], rule rtranclp_trans [OF b(3)], rule step_then [OF s2 r(3)])
    moreover have "mergeShards seed [i..<?n] (t, ch) drops =
      Some ((t', ch'), drops @ map (pendOf t) (filter (\<lambda>i. dirtyR t i @ dirtyD t i \<noteq> []) [i..<?n]))"
      unfolding up using r(1) b(1) snap False by (auto simp: up)
    ultimately show ?thesis using r(2) by blast
  qed
qed

lemma folding_steps:
  assumes "length ch = length (t_indexes t)" and "k \<le> length (t_indexes t)"
  shows "next_steps seed (Folding k drops ch, t) (Dropping drops, t\<lparr>t_indexes := take k (t_indexes t) @ drop k (map2 foldOne ch (t_indexes t))\<rparr>)"
  using assms
proof (induction "length (t_indexes t) - k" arbitrary: k t)
  case 0
  then have "next_step seed (Folding k drops ch, t) (Dropping drops, t)" by (simp add: next_step_def)
  then show ?case using 0 by auto
next
  case (Suc m)
  let ?ixs = "(t_indexes t)[k := foldOne (ch ! k) (t_indexes t ! k)]"
  have k: "k < length (t_indexes t)" using Suc.hyps(2) by simp
  then have s: "mergeNext seed (Folding k drops ch) t = Some (Folding (k + 1) drops ch, t\<lparr>t_indexes := ?ixs\<rparr>)" by simp
  have "take (k + 1) ?ixs @ drop (k + 1) (map2 foldOne ch ?ixs) = take k (t_indexes t) @ drop k (map2 foldOne ch (t_indexes t))"
  proof (rule nth_equalityI)
    show len: "length (take (k + 1) ?ixs @ drop (k + 1) (map2 foldOne ch ?ixs)) =
        length (take k (t_indexes t) @ drop k (map2 foldOne ch (t_indexes t)))"
      using k Suc.prems(1) by simp
    fix i assume "i < length (take (k + 1) ?ixs @ drop (k + 1) (map2 foldOne ch ?ixs))"
    then have "i < length (t_indexes t)" using k Suc.prems(1) by simp
    then show "(take (k + 1) ?ixs @ drop (k + 1) (map2 foldOne ch ?ixs)) ! i =
        (take k (t_indexes t) @ drop k (map2 foldOne ch (t_indexes t))) ! i"
      using k Suc.prems(1) by (cases i k rule: linorder_cases) (simp_all add: nth_append)
  qed
  then show ?case
    using Suc.hyps(1) [of "t\<lparr>t_indexes := ?ixs\<rparr>" "k + 1"] Suc.hyps(2) Suc.prems k step_then [OF s] by simp
qed

lemma dropping_steps: "next_steps seed (Dropping ds, t) (Idle, fold dropPrefix ds t)"
proof (induction ds arbitrary: t)
  case Nil
  have "next_step seed (Dropping [], t) (Idle, t)" by (simp add: next_step_def)
  then show ?case by auto
next
  case (Cons d ds)
  have "mergeNext seed (Dropping (d # ds)) t = Some (Dropping ds, dropPrefix d t)" by simp
  from step_then [OF this] Cons show ?case by simp
qed

lemma fold_drop_dirty:
  assumes "table_inv seed t" and "distinct (map fst ds)" and "\<forall>d \<in> set ds. fst d < length (t_shards t)" and "j < length (t_shards t)"
  shows "dirtyR (fold dropPrefix ds t) j = (case map_of ds j of None \<Rightarrow> dirtyR t j | Some x \<Rightarrow> drop (fst x) (dirtyR t j)) \<and>
    dirtyD (fold dropPrefix ds t) j = (case map_of ds j of None \<Rightarrow> dirtyD t j | Some x \<Rightarrow> drop (snd x) (dirtyD t j))"
  using assms
proof (induction ds arbitrary: t)
  case (Cons d ds)
  have d: "fst d < length (t_shards t)" using Cons.prems(3) by simp
  note p = dropPrefix_table [OF Cons.prems(1) d]
  have none: "map_of ds (fst d) = None" using Cons.prems(2) by (simp add: map_of_eq_None_iff)
  show ?case using Cons.IH [OF p(1)] p(3,4) [OF Cons.prems(4)] Cons.prems none by (cases "j = fst d") (auto split: option.split)
qed simp

lemma mergeIndexes_run:
  assumes inv: "merge_inv seed Ks Idle t" and ne: "t_indexes t \<noteq> []"
  obtains t' where "mergeIndexes seed t = Some t'" "next_steps seed (Idle, t) (Idle, t')"
    "\<forall>j < length (t_shards t). dirtyR t' j = [] \<and> dirtyD t' j = []"
proof -
  let ?n = "length (t_shards t)" and ?ch = "replicate (length (t_indexes t)) []"
  have s0: "mergeNext seed Idle t = Some (Scan 0 [] ?ch, t)" using ne by simp
  have i0: "merge_inv seed Ks (Scan 0 [] ?ch) t" using mergeNext_inv [OF inv s0] .
  define ds where "ds = map (pendOf t) (filter (\<lambda>i. dirtyR t i @ dirtyD t i \<noteq> []) [0..<?n])"
  obtain t1 ch1 where m: "mergeShards seed [0..<?n] (t, ?ch) [] = Some ((t1, ch1), ds)" "t_shards t1 = t_shards t"
      "next_steps seed (Scan 0 [] ?ch, t) (Scan ?n ds ch1, t1)"
    using mergeShards_steps [OF i0] by (auto simp: ds_def)
  have run1: "next_steps seed (Idle, t) (Scan ?n ds ch1, t1)" using step_then [OF s0 m(3)] .
  have i1: "merge_inv seed Ks (Scan ?n ds ch1) t1" using next_steps_inv [OF run1] inv by simp
  then have len: "length ch1 = length (t_indexes t1)" by (simp add: merge_inv_def phase_ok_def nIdx_def)
  have mo: "map_of ds j = (if j < ?n \<and> dirtyR t j @ dirtyD t j \<noteq> [] then Some (length (dirtyR t j), length (dirtyD t j)) else None)" for j
  proof -
    have "map_of (map (pendOf t) is) j = (if j \<in> set is then Some (length (dirtyR t j), length (dirtyD t j)) else None)" for "is"
      by (induction "is") (auto simp: pendOf_def)
    then show ?thesis by (auto simp: ds_def)
  qed
  show thesis
  proof (cases "ds = []")
    case True
    then have s1: "mergeNext seed (Scan ?n ds ch1) t1 = Some (Idle, t1)" using m(2) by simp
    have "next_steps seed (Idle, t) (Idle, t1)" by (rule rtranclp_trans [OF run1 step_then [OF s1 rtranclp.rtrancl_refl]])
    moreover have "mergeIndexes seed t = Some t1" using ne m(1) True by (simp add: mergeIndexes_def)
    moreover have "dirtyR t j = [] \<and> dirtyD t j = []" if "j < ?n" for j using mo [of j] that True by (auto split: if_splits)
    ultimately show thesis using m(2) by (intro that [of t1]) simp_all
  next
    case False
    let ?t2 = "t1\<lparr>t_indexes := map2 foldOne ch1 (t_indexes t1)\<rparr>"
    have s1: "mergeNext seed (Scan ?n ds ch1) t1 = Some (Folding 0 ds ch1, t1)" using m(2) False by simp
    have f: "next_steps seed (Folding 0 ds ch1, t1) (Dropping ds, ?t2)" using folding_steps [OF len, of 0 seed ds] by simp
    have run2: "next_steps seed (Idle, t) (Dropping ds, ?t2)" by (rule rtranclp_trans [OF run1 step_then [OF s1 f]])
    have run3: "next_steps seed (Idle, t) (Idle, fold dropPrefix ds ?t2)" by (rule rtranclp_trans [OF run2 dropping_steps])
    have i2: "merge_inv seed Ks (Dropping ds) ?t2" using next_steps_inv [OF run2] inv by simp
    then have ti: "table_inv seed ?t2" and po: "distinct (map fst ds)" "\<forall>d \<in> set ds. fst d < length (t_shards ?t2)"
      by (auto simp: merge_inv_def pends_ok_def)
    have "mergeIndexes seed t = Some (fold dropPrefix ds ?t2)" using ne m(1) False by (simp add: mergeIndexes_def)
    moreover have "dirtyR (fold dropPrefix ds ?t2) j = [] \<and> dirtyD (fold dropPrefix ds ?t2) j = []" if "j < ?n" for j
      using fold_drop_dirty [OF ti po, of j] mo [of j] that m(2) by (auto split: if_splits)
    ultimately show thesis using run3 by (intro that [of "fold dropPrefix ds ?t2"]) simp_all
  qed
qed

lemma quiet_exact:
  assumes inv: "merge_inv seed Ks Idle t" and quiet: "\<forall>j < length (t_shards t). dirtyR t j = [] \<and> dirtyD t j = []"
  shows "dirtyPKs seed t = Some []"
    and "k < nIdx t \<Longrightarrow> key_ok (Ks ! k) key \<Longrightarrow> distinct (si_lookup key (t_indexes t ! k)) \<and>
      set (si_lookup key (t_indexes t ! k)) = {pk. \<exists>r. tbl_abs t pk = Some r \<and> rowKey (t_indexes t ! k) r = Some key}"
    and "k < nIdx t \<Longrightarrow> Ks ! k = KindBytes \<Longrightarrow> si_ordered (t_indexes t ! k) \<Longrightarrow>
      set (prefixLookup p (t_indexes t ! k)) =
        {pk. \<exists>r x. tbl_abs t pk = Some r \<and> rowKey (t_indexes t ! k) r = Some x \<and> prefix (ks p) (ks x)}"
proof -
  note v = inv [unfolded merge_inv_def]
  have si: "shardIdxOf t pk < length (t_shards t)" for pk using v shardIdxOf_less by (simp add: table_inv_def)
  obtain ds where "dirtyPKs seed t = Some ds" "set ds = {pk. tbl_abs t pk \<noteq> None \<and> pk \<in> set (dirtyR t (shardIdxOf t pk))}"
    using dirtyPKs_set [of seed t] v by blast
  then show "dirtyPKs seed t = Some []" using quiet si by simp
  have fr: "fresh t pk" for pk
  proof -
    have "dirtyR t (shardIdxOf t pk) = []" "dirtyD t (shardIdxOf t pk) = []" using quiet si by blast+
    moreover have "pk \<in> set (todo Idle) \<or> tail_dirty Idle t pk \<or> fresh t pk" using v by (simp add: covered_def)
    ultimately show ?thesis by (simp add: tail_dirty_def tailR_def tailD_def)
  qed
  show "distinct (si_lookup key (t_indexes t ! k)) \<and>
      set (si_lookup key (t_indexes t ! k)) = {pk. \<exists>r. tbl_abs t pk = Some r \<and> rowKey (t_indexes t ! k) r = Some key}"
    if k: "k < nIdx t" and key: "key_ok (Ks ! k) key"
  proof -
    have "si_synced (Ks ! k) (t_indexes t ! k)" using v k by (simp add: idxs_ok_def flip: idx_ok_synced)
    from si_lookup_exact [OF this key] show ?thesis using fr k by (auto simp: fresh_def nIdx_def bind_eq_Some_conv)
  qed
  show "set (prefixLookup p (t_indexes t ! k)) =
        {pk. \<exists>r x. tbl_abs t pk = Some r \<and> rowKey (t_indexes t ! k) r = Some x \<and> prefix (ks p) (ks x)}"
    if k: "k < nIdx t" and K: "Ks ! k = KindBytes" and o: "si_ordered (t_indexes t ! k)"
  proof -
    have "si_synced (Ks ! k) (t_indexes t ! k)" using v k by (simp add: idxs_ok_def flip: idx_ok_synced)
    then have "si_synced KindBytes (t_indexes t ! k)" by (simp only: K)
    then have s: "si_inv KindBytes (t_indexes t ! k)" "view_ok (t_indexes t ! k)" using o by (simp_all add: si_synced_def)
    show ?thesis unfolding prefixLookup_eq [OF s] view_pks(2) [OF s] using fr k by (auto simp: fresh_def nIdx_def bind_eq_Some_conv)
  qed
qed


section \<open>The rebuild\<close>

text \<open>The rows of a recovered table: complete, well formed, and wide enough for every index.\<close>

definition covers :: "nat \<Rightarrow> table \<Rightarrow> bool" where
  "covers n t \<longleftrightarrow> rows_ok n (tbl_abs t) \<and> (\<forall>si \<in> set (t_indexes t). \<forall>o' \<in> set (si_ordinals si). o' < n)"

lemma rowKeyOf_rowKey:
  assumes "row_ok n r" and "\<forall>o' \<in> set (si_ordinals si). o' < n"
  shows "(if snd (rowKeyOf si r) then Some (fst (rowKeyOf si r)) else None) = rowKey si r"
proof -
  have c: "projectClone r (si_ordinals si) = map (nth r) (si_ordinals si)"
    using assms by (auto simp: projectClone_def row_ok_def)
  show ?thesis
  proof (cases "length (si_ordinals si) = 1")
    case True
    then obtain o' where one: "si_ordinals si = [o']" by (cases "si_ordinals si") auto
    then have "projectClone r [o'] = [r ! o']" using c by simp
    then show ?thesis using one by (simp add: rowKeyOf_def rowKey_def keyFromCells_def Let_def)
  next
    case False
    then show ?thesis by (simp add: rowKeyOf_def rowKey_def c split: prod.splits)
  qed
qed

text \<open>On a key that is not in the index yet, adding a row is applying its key.\<close>

lemma rebuildAdd_apply:
  assumes "map_of (si_rev si) pk = None"
  shows "rebuildAdd pk r si = (if snd (rowKeyOf si r) then snd (si_apply pk (fst (rowKeyOf si r)) True si) else si)"
  using assms by (auto simp: rebuildAdd_def si_apply_def Let_def appendFwd_def split: prod.splits)

lemma rebuildAdd_fields [simp]:
  "si_ordinals (rebuildAdd pk r si) = si_ordinals si" "si_ordered (rebuildAdd pk r si) = si_ordered si"
  by (simp_all add: rebuildAdd_def Let_def split: prod.split)

lemma fold_rebuildAdd:
  assumes "si_inv K si" and "distinct (map f rows)" and "\<forall>r \<in> set rows. map_of (si_rev si) (f r) = None"
    and "\<forall>r \<in> set rows. row_ok n r \<and> (case rowKey si r of None \<Rightarrow> True | Some key \<Rightarrow> key_ok K key)"
    and "\<forall>o' \<in> set (si_ordinals si). o' < n"
  shows "si_inv K (fold (\<lambda>r. rebuildAdd (f r) r) rows si) \<and>
    si_ordinals (fold (\<lambda>r. rebuildAdd (f r) r) rows si) = si_ordinals si \<and> si_ordered (fold (\<lambda>r. rebuildAdd (f r) r) rows si) = si_ordered si \<and>
    (\<forall>r \<in> set rows. map_of (si_rev (fold (\<lambda>r. rebuildAdd (f r) r) rows si)) (f r) = rowKey si r) \<and>
    (\<forall>pk. pk \<notin> f ` set rows \<longrightarrow> map_of (si_rev (fold (\<lambda>r. rebuildAdd (f r) r) rows si)) pk = map_of (si_rev si) pk)"
  using assms
proof (induction rows arbitrary: si)
  case (Cons r rows)
  let ?si = "rebuildAdd (f r) r si" and ?F = "\<lambda>si. fold (\<lambda>r. rebuildAdd (f r) r) rows si"
  have key: "(if snd (rowKeyOf si r) then Some (fst (rowKeyOf si r)) else None) = rowKey si r"
    using Cons.prems(4,5) by (intro rowKeyOf_rowKey) auto
  have none: "map_of (si_rev si) (f r) = None" using Cons.prems(3) by simp
  have rev: "map_of (si_rev ?si) = (map_of (si_rev si))(f r := rowKey si r)"
    using none by (simp add: rebuildAdd_apply [OF none] si_apply_rev key [symmetric] fun_upd_idem)
  have inv: "si_inv K ?si"
  proof (cases "snd (rowKeyOf si r)")
    case True
    have "rowKey si r = Some (fst (rowKeyOf si r))" using key True by simp
    then have "key_ok K (fst (rowKeyOf si r))" using Cons.prems(4) by simp
    then show ?thesis using True Cons.prems(1) by (simp add: rebuildAdd_apply [OF none] si_apply_inv)
  qed (use Cons.prems(1) in \<open>simp add: rebuildAdd_apply [OF none]\<close>)
  have rk: "rowKey ?si = rowKey si" by (rule ext, rule rowKey_cong) simp
  have other: "\<forall>r' \<in> set rows. f r \<noteq> f r' \<and> f r' \<noteq> f r" using Cons.prems(2) by (auto simp: image_iff)
  have "si_inv K (?F ?si) \<and> si_ordinals (?F ?si) = si_ordinals ?si \<and> si_ordered (?F ?si) = si_ordered ?si \<and>
    (\<forall>r \<in> set rows. map_of (si_rev (?F ?si)) (f r) = rowKey ?si r) \<and>
    (\<forall>pk. pk \<notin> f ` set rows \<longrightarrow> map_of (si_rev (?F ?si)) pk = map_of (si_rev ?si) pk)"
    using Cons.prems other by (intro Cons.IH inv) (simp_all add: rev rk)
  moreover have "f r \<notin> f ` set rows" using Cons.prems(2) by simp
  ultimately show ?case by (simp add: rev rk)
qed simp

lemma scan_rows_all: "scan_rows (\<lambda>r acc. (True, g r acc)) rs acc = (False, fold g (live_rows rs) acc)"
proof (induction rs arbitrary: acc)
  case (Cons x rs)
  then show ?case by (cases x) simp_all
qed simp

lemma scan_shards_all: "scan_shards (\<lambda>r acc. (True, g r acc)) ss acc = fold g (concat (map (\<lambda>s. live_rows (sh_rows s)) ss)) acc"
  by (induction ss arbitrary: acc) (simp_all add: scan_rows_all)

lemma fold_map_each: "fold (\<lambda>r. map (h r)) rows ixs = map (fold h rows) ixs"
  by (induction rows arbitrary: ixs) simp_all

lemma rebuild_inv:
  assumes inv: "table_inv seed t" and cov: "covers n t" and ty: "typed Ks t" and Ks: "length Ks = nIdx t" and ne: "t_indexes t \<noteq> []"
  shows "merge_inv seed Ks Idle (rebuildIndexes t)" "tbl_abs (rebuildIndexes t) = tbl_abs t"
    "\<forall>j < length (t_shards (rebuildIndexes t)). dirtyR (rebuildIndexes t) j = [] \<and> dirtyD (rebuildIndexes t) j = []"
    "map si_ordinals (t_indexes (rebuildIndexes t)) = map si_ordinals (t_indexes t)"
proof -
  let ?t = "rebuildIndexes t"
  define rows where "rows = map (\<lambda>(i, k, r). r) (live_at t)"
  define emp where "emp si = si\<lparr>si_rev := [], si_fwd := Map.empty, si_sorted := []\<rparr>" for si :: secIndex
  define F where "F si = fold (\<lambda>r. rebuildAdd (pkOf t r) r) rows (emp si)" for si
  define G where "G si = (if si_ordered (F si) then rebuildSorted (F si) else F si)" for si
  have ix: "t_indexes ?t = map G (t_indexes t)"
    using ne by (simp add: rebuildIndexes_def scanAll_def scan_shards_all fold_map_each G_def F_def emp_def rows_def live_at_rows comp_def Let_def)
  have sh: "t_shards ?t = map (\<lambda>s. s\<lparr>sh_dirtyRead := [], sh_dirtyDel := []\<rparr>) (t_shards t)" and rest: "t_def ?t = t_def t" "t_mask ?t = t_mask t"
      "t_pkDir ?t = t_pkDir t" "t_readDirtyCount ?t = 0"
    using ne by (simp_all add: rebuildIndexes_def Let_def)
  have route: "shardIdxOf ?t = shardIdxOf t" "pkOf ?t = pkOf t" "nIdx ?t = nIdx t"
    by (simp_all add: shardIdxOf_def pkOf_def pkOrd_def nIdx_def ix rest fun_eq_iff)
  have si: "shardIdxOf t pk < length (t_shards t)" for pk using inv shardIdxOf_less by (simp add: table_inv_def)
  show abs: "tbl_abs ?t = tbl_abs t"
    by (rule ext) (simp add: tbl_abs_def shard_abs_def route sh si cong: option.case_cong)
  have ti: "table_inv seed ?t"
    using inv by (simp add: table_inv_def shards_ok_def shard_inv_def rest sh route tally_ok_def)
  have quiet: "\<forall>j < length (t_shards ?t). dirtyR ?t j = [] \<and> dirtyD ?t j = []" by (simp add: sh)
  then show "\<forall>j < length (t_shards ?t). dirtyR ?t j = [] \<and> dirtyD ?t j = []" .
  have vis: "visits t (live_at t) UNIV" using visits_scan [OF inv] .
  have keys: "map (pkOf t) rows = loc_keys t (live_at t)"
    by (simp add: rows_def loc_keys_def comp_def case_prod_beta)
  have dist: "distinct (map (pkOf t) rows)" and all: "pkOf t ` set rows = dom (tbl_abs t)"
    using vis unfolding set_map [symmetric] keys visits_def by simp_all
  have row: "tbl_abs t (pkOf t r) = Some r" if "r \<in> set rows" for r
    using that vis located_abs by (auto simp: rows_def visits_def)
  have each: "si_synced (Ks ! k) (G (t_indexes t ! k)) \<and> si_ordinals (G (t_indexes t ! k)) = si_ordinals (t_indexes t ! k) \<and>
      (\<forall>pk. map_of (si_rev (G (t_indexes t ! k))) pk = Option.bind (tbl_abs t pk) (rowKey (t_indexes t ! k)))" if k: "k < nIdx t" for k
  proof -
    let ?si = "t_indexes t ! k"
    have mem: "?si \<in> set (t_indexes t)" using k by (simp add: nIdx_def)
    have rk: "rowKey (emp ?si) = rowKey ?si" by (rule ext, rule rowKey_cong) (simp add: emp_def)
    have e: "si_inv (Ks ! k) (emp ?si)" by (simp add: emp_def si_inv_def buckets_ok_def)
    have "\<forall>r \<in> set rows. row_ok n r \<and> (case rowKey (emp ?si) r of None \<Rightarrow> True | Some key \<Rightarrow> key_ok (Ks ! k) key)"
    proof
      fix r assume "r \<in> set rows"
      then have "tbl_abs t (pkOf t r) = Some r" by (rule row)
      then show "row_ok n r \<and> (case rowKey (emp ?si) r of None \<Rightarrow> True | Some key \<Rightarrow> key_ok (Ks ! k) key)"
        using cov ty k unfolding covers_def rows_ok_def typed_def rk by blast
    qed
    moreover have "\<forall>r \<in> set rows. map_of (si_rev (emp ?si)) (pkOf t r) = None" by (simp add: emp_def)
    moreover have "\<forall>o' \<in> set (si_ordinals (emp ?si)). o' < n" using cov mem by (simp add: covers_def emp_def)
    ultimately have f: "si_inv (Ks ! k) (F ?si)" "si_ordinals (F ?si) = si_ordinals ?si" "si_ordered (F ?si) = si_ordered ?si"
        "\<forall>r \<in> set rows. map_of (si_rev (F ?si)) (pkOf t r) = rowKey ?si r"
        "\<forall>pk. pk \<notin> pkOf t ` set rows \<longrightarrow> map_of (si_rev (F ?si)) pk = None"
      using fold_rebuildAdd [OF e dist, of n] unfolding F_def rk by (simp_all add: emp_def)
    have g: "si_rev (G ?si) = si_rev (F ?si)" "si_ordinals (G ?si) = si_ordinals (F ?si)" by (simp_all add: G_def rebuildSorted_def)
    have "si_synced (Ks ! k) (G ?si)"
    proof (cases "si_ordered (F ?si)")
      case True
      have "si_inv (Ks ! k) (rebuildSorted (F ?si))" using f(1) by (auto simp: si_inv_def rebuildSorted_def buckets_ok_def)
      then show ?thesis using True rebuildSorted_view [OF f(1)] by (simp add: G_def si_synced_def)
    qed (use f(1) in \<open>simp add: G_def si_synced_def\<close>)
    moreover have "map_of (si_rev (F ?si)) pk = Option.bind (tbl_abs t pk) (rowKey ?si)" for pk
    proof (cases "tbl_abs t pk")
      case None
      then have "pk \<notin> pkOf t ` set rows" unfolding all by auto
      with f(5) None show ?thesis by simp
    next
      case (Some r)
      then have "pk \<in> pkOf t ` set rows" unfolding all by auto
      then obtain r' where "r' \<in> set rows" "pk = pkOf t r'" by blast
      with row [of r'] f(4) Some show ?thesis by simp
    qed
    ultimately show ?thesis using f(2) g by simp
  qed
  have rkG: "rowKey (G (t_indexes t ! k)) = rowKey (t_indexes t ! k)" if "k < nIdx t" for k
    using each [OF that] by (intro ext rowKey_cong) simp
  show "map si_ordinals (t_indexes ?t) = map si_ordinals (t_indexes t)"
    using each by (auto simp: ix nIdx_def in_set_conv_nth)
  have fr: "fresh ?t pk" for pk
    unfolding fresh_def ix
  proof
    fix si assume "si \<in> set (map G (t_indexes t))"
    then obtain k where k: "k < nIdx t" "si = G (t_indexes t ! k)" by (auto simp: in_set_conv_nth nIdx_def)
    show "map_of (si_rev si) pk = Option.bind (tbl_abs ?t pk) (rowKey si)" using each [OF k(1)] by (simp add: k(2) rkG [OF k(1)] abs)
  qed
  have "typed Ks ?t" using ty by (auto simp: typed_def abs route ix nIdx_def rkG [unfolded nIdx_def])
  moreover have "idxs_ok Ks Idle ?t" using each Ks by (simp add: idxs_ok_def route ix idx_ok_synced nIdx_def)
  moreover have "counted ?t" by (simp add: counted_def rest sh comp_def)
  moreover have "at_home ?t" using quiet by (simp add: at_home_def)
  moreover have "reinserted Idle ?t" using quiet si by (simp add: reinserted_def tailR_def tailD_def route sh)
  ultimately show "merge_inv seed Ks Idle ?t" using ti fr
    by (simp add: merge_inv_def pends_ok_def phase_ok_def covered_def moved_seen_def)
qed

section \<open>Properties\<close>

text \<open>
  C30.  No gap: start from a fresh indexed table, run any inserts, updates, deletes, predicate
  statements and compactions, and stop the background merge at any point between its lock
  acquisitions.  A live row whose key in an index is \<open>key\<close> is then in the bucket a lookup of \<open>key\<close> answers
  or in the dirty overlay, and for a composite ordered index in the answer of every prefix of its key
  or in the overlay; so the union of one index read and one overlay read taken in the same state misses no
  committed row.
\<close>

theorem index_reads_no_gap:
  assumes "merging seed Ks n (freshStore cpus rt hint base limit w) ph st"
    and "\<not> partitioned rt" and "rt_indexes rt \<noteq> []" and "length Ks = length (rt_indexes rt)"
    and "tbl_abs (st_table st) pk = Some r" and "k < length Ks"
    and "rowKey (t_indexes (st_table st) ! k) r = Some key"
  shows "\<exists>ds. dirtyPKs seed (st_table st) = Some ds \<and>
    pk \<in> set (si_lookup key (t_indexes (st_table st) ! k)) \<union> set ds \<and>
    (Ks ! k = KindBytes \<longrightarrow> si_ordered (t_indexes (st_table st) ! k) \<longrightarrow>
      (\<forall>p. prefix (ks p) (ks key) \<longrightarrow> pk \<in> set (prefixLookup p (t_indexes (st_table st) ! k)) \<union> set ds))"
proof -
  have "merge_inv seed Ks ph (st_table st)" using fresh_reach [OF assms(1-4)] by blast
  moreover from this have "k < nIdx (st_table st)" using assms(6) by (simp add: merge_inv_def idxs_ok_def)
  ultimately obtain ds where "dirtyPKs seed (st_table st) = Some ds" "pk \<in> set (si_lookup key (t_indexes (st_table st) ! k)) \<or> pk \<in> set ds"
      "\<And>p. Ks ! k = KindBytes \<Longrightarrow> si_ordered (t_indexes (st_table st) ! k) \<Longrightarrow> prefix (ks p) (ks key) \<Longrightarrow>
        pk \<in> set (prefixLookup p (t_indexes (st_table st) ! k)) \<or> pk \<in> set ds"
    using index_no_gap [OF _ assms(5) _ assms(7)] by blast
  then show ?thesis by (intro exI [of _ ds]) auto
qed

text \<open>A table with a text column indexed by hash, and one row inserted into it.\<close>

definition indexedTable :: resolvedTable where
  "indexedTable = sampleTable\<lparr>rt_indexes := [\<lparr>ri_name = str ''idx_s'', ri_ordinals = [1], ri_ordered = False\<rparr>]\<rparr>"

definition sampleRow :: Row where
  "sampleRow = [UUIDVal (replicate 16 1), StrV (str ''x'')]"

lemma sampleRow_facts: "row_ok 2 sampleRow" "sg_pkOrd sg = 0 \<Longrightarrow> sg_key sg sampleRow = replicate 16 1"
  by (simp_all add: sampleRow_def row_ok_def sg_key_def str_def uuid_ok_def)

lemma sampleRow_key: "si_ordinals si = [1] \<Longrightarrow> rowKey si sampleRow = Some (keyOf (StrV (str ''x'')))"
  by (simp add: rowKey_def keyFromCells_def projectClone_def sampleRow_def str_def del: One_nat_def)

lemma indexedTable_facts: "\<not> partitioned indexedTable" "rt_indexes indexedTable \<noteq> []" "length [KindString] = length (rt_indexes indexedTable)"
  by (simp_all add: indexedTable_def sampleTable_def partitioned_def)

text \<open>A fresh table with one index after one insert, the merge still waiting.\<close>

lemma one_inserted:
  assumes np: "\<not> partitioned rt" and n: "length (rt_indexes rt) = 1" and pk: "pkOrdinal rt = 0" and row: "row_ok n row"
    and key: "\<And>key. rowKey (newSecIndex (rt_indexes rt ! 0)) row = Some key \<Longrightarrow> key_ok K key"
  obtains st where "merging 7 [K] n (freshStore 2 rt 0 0 0 ()) Idle st" "tbl_abs (st_table st) = [Value_UUID (row ! 0) \<mapsto> row]"
    "t_indexes (st_table st) = map newSecIndex (rt_indexes rt)"
proof -
  let ?s0 = "freshStore 2 rt 0 0 0 ()" and ?op = "OpInsert row noJournal :: unit storeOp"
  have ok: "op_ok n (pkOrd (st_table ?s0)) (length (t_shards (st_table ?s0))) ?op" using row by simp
  have sig: "sig_of 0 ?s0 = \<lparr>sg_pkOrd = 0, sg_nIdx = 1, sg_base = 0, sg_limit = 0\<rparr>"
    using n pk by (simp add: sig_of_def freshStore_def pkOrd_def nIdx_def)
  have e: "tbl_abs (st_table ?s0) = Map.empty" by (rule freshStore_ok(2) [OF np])
  have rows: "rows_ok n (tbl_abs (st_table ?s0))" by (simp add: e rows_ok_def)
  obtain a st where st: "store_op 7 ?op ?s0 = Some (a, st)" "store_inv 7 0 st" "frame ?s0 st"
      "spec_op (sig_of 0 ?s0) ?op (tbl_abs (st_table ?s0), st_wal ?s0) a (tbl_abs (st_table st), st_wal st)"
    using store_op_refines [OF freshStore_ok(1) [OF np] rows ok] by blast
  have m: "tbl_abs (st_table st) = [Value_UUID (row ! 0) \<mapsto> row]"
    using st(4) by (simp add: sig e noJournal_def sg_key_def)
  have ix: "t_indexes (st_table st) = map newSecIndex (rt_indexes rt)"
    using st(3) by (simp add: frame_def freshStore_def newTable_def Let_def)
  have "typed [K] (st_table st)"
    using key n by (auto simp: typed_def m ix nIdx_def split: if_splits option.splits)
  from merging.operation [OF merging.start ok st(1) this] show thesis using m ix by (rule that)
qed

lemma sample_inserted:
  obtains st where "merging 7 [KindString] 2 (freshStore 2 indexedTable 0 0 0 ()) Idle st" "tbl_abs (st_table st) = [replicate 16 1 \<mapsto> sampleRow]"
    "t_indexes (st_table st) = map newSecIndex (rt_indexes indexedTable)"
proof -
  have "length (rt_indexes indexedTable) = 1" "pkOrdinal indexedTable = 0" by (simp_all add: indexedTable_def sampleTable_def)
  moreover have "key_ok KindString key" if "rowKey (newSecIndex (rt_indexes indexedTable ! 0)) sampleRow = Some key" for key
    using that sampleRow_key [of "newSecIndex (rt_indexes indexedTable ! 0)"] key_ok_keyOf [of "StrV (str ''x'')"]
    by (simp add: indexedTable_def newSecIndex_def)
  moreover have "Value_UUID (sampleRow ! 0) = replicate 16 1" by (simp add: sampleRow_def uuid_ok_def)
  ultimately show thesis using one_inserted [OF indexedTable_facts(1) _ _ sampleRow_facts(1), of KindString] that by auto
qed

theorem index_reads_no_gap_witness:
  "\<exists>st ds. merging 7 [KindString] 2 (freshStore 2 indexedTable 0 0 0 ()) Idle st \<and> dirtyPKs 7 (st_table st) = Some ds \<and>
    replicate 16 1 \<in> set (si_lookup (keyOf (StrV (str ''x''))) (t_indexes (st_table st) ! 0)) \<union> set ds"
proof -
  obtain st where st: "merging 7 [KindString] 2 (freshStore 2 indexedTable 0 0 0 ()) Idle st"
    "tbl_abs (st_table st) = [replicate 16 1 \<mapsto> sampleRow]" "t_indexes (st_table st) = map newSecIndex (rt_indexes indexedTable)"
    by (rule sample_inserted)
  have r: "tbl_abs (st_table st) (replicate 16 1) = Some sampleRow" by (simp add: st(2))
  have k: "rowKey (t_indexes (st_table st) ! 0) sampleRow = Some (keyOf (StrV (str ''x'')))"
    by (intro sampleRow_key) (simp add: st(3) indexedTable_def newSecIndex_def)
  from index_reads_no_gap [OF st(1) indexedTable_facts r _ k] st(1) show ?thesis by auto
qed

text \<open>
  C31.  A merge that no write interrupts is complete: from every reachable state between two merges
  \<open>mergeIndexes\<close> returns, leaves the rows alone, empties the overlay, and makes every index exact: a
  lookup answers each live row with that key once and nothing else, and a prefix lookup of a
  composite index exactly the live rows whose key has the prefix.
\<close>

theorem mergeIndexes_exact:
  assumes "merging seed Ks n (freshStore cpus rt hint base limit w) Idle st"
    and "\<not> partitioned rt" and "rt_indexes rt \<noteq> []" and "length Ks = length (rt_indexes rt)"
  shows "\<exists>t. mergeIndexes seed (st_table st) = Some t \<and> tbl_abs t = tbl_abs (st_table st) \<and> dirtyPKs seed t = Some [] \<and>
    (\<forall>k < length Ks. \<forall>key. key_ok (Ks ! k) key \<longrightarrow> distinct (si_lookup key (t_indexes t ! k)) \<and>
      set (si_lookup key (t_indexes t ! k)) = {pk. \<exists>r. tbl_abs t pk = Some r \<and> rowKey (t_indexes t ! k) r = Some key}) \<and>
    (\<forall>k < length Ks. \<forall>p. Ks ! k = KindBytes \<longrightarrow> si_ordered (t_indexes t ! k) \<longrightarrow> set (prefixLookup p (t_indexes t ! k)) =
      {pk. \<exists>r x. tbl_abs t pk = Some r \<and> rowKey (t_indexes t ! k) r = Some x \<and> prefix (ks p) (ks x)})"
proof -
  note f = fresh_reach [OF assms]
  then have inv: "merge_inv seed Ks Idle (st_table st)" and ne: "t_indexes (st_table st) \<noteq> []" by blast+
  obtain t where t: "mergeIndexes seed (st_table st) = Some t" "next_steps seed (Idle, st_table st) (Idle, t)"
    "\<forall>j < length (t_shards (st_table st)). dirtyR t j = [] \<and> dirtyD t j = []" using mergeIndexes_run [OF inv ne] .
  have ti: "merge_inv seed Ks Idle t" "tbl_abs t = tbl_abs (st_table st)" and len: "length (t_shards t) = length (t_shards (st_table st))"
    using next_steps_inv [OF t(2)] inv by simp_all
  have "\<forall>j < length (t_shards t). dirtyR t j = [] \<and> dirtyD t j = []" using t(3) len by simp
  note q = quiet_exact [OF ti(1) this]
  have "length Ks = nIdx t" using ti(1) by (simp add: merge_inv_def idxs_ok_def)
  then show ?thesis using t(1) ti(2) q by (intro exI [of _ t]) simp
qed

theorem mergeIndexes_exact_witness:
  "\<exists>st t. merging 7 [KindString] 2 (freshStore 2 indexedTable 0 0 0 ()) Idle st \<and> mergeIndexes 7 (st_table st) = Some t \<and>
    set (si_lookup (keyOf (StrV (str ''x''))) (t_indexes t ! 0)) =
      {pk. \<exists>r. tbl_abs t pk = Some r \<and> rowKey (t_indexes t ! 0) r = Some (keyOf (StrV (str ''x'')))}"
proof -
  obtain st where st: "merging 7 [KindString] 2 (freshStore 2 indexedTable 0 0 0 ()) Idle st" by (rule sample_inserted)
  have "key_ok ([KindString] ! 0) (keyOf (StrV (str ''x'')))" using key_ok_keyOf [of "StrV (str ''x'')"] by simp
  with mergeIndexes_exact [OF st indexedTable_facts] st show ?thesis by fastforce
qed



text \<open>
  C33.  The rebuild after a recovery makes every index exact and empties the overlay: whatever the
  indexes and the dirty lists held, on a table whose rows are complete and of the declared kinds a lookup
  then answers each live row with that key once and nothing else, and the table is in the state the
  background merge starts from.
\<close>

theorem rebuildIndexes_exact:
  assumes "table_inv seed t" and "covers n t" and "typed Ks t" and "length Ks = nIdx t" and "t_indexes t \<noteq> []"
    and "k < nIdx t" and "key_ok (Ks ! k) key"
  shows "tbl_abs (rebuildIndexes t) = tbl_abs t \<and> dirtyPKs seed (rebuildIndexes t) = Some [] \<and>
    merge_inv seed Ks Idle (rebuildIndexes t) \<and> distinct (si_lookup key (t_indexes (rebuildIndexes t) ! k)) \<and>
    set (si_lookup key (t_indexes (rebuildIndexes t) ! k)) = {pk. \<exists>r. tbl_abs t pk = Some r \<and> rowKey (t_indexes t ! k) r = Some key}"
proof -
  note r = rebuild_inv [OF assms(1-5)]
  note q = quiet_exact [OF r(1,3)]
  have len: "nIdx (rebuildIndexes t) = nIdx t" using arg_cong [OF r(4), of length] by (simp add: nIdx_def)
  have "si_ordinals (t_indexes (rebuildIndexes t) ! k) = si_ordinals (t_indexes t ! k)"
    using arg_cong [OF r(4), of "\<lambda>xs. xs ! k"] assms(6) len by (simp add: nIdx_def)
  then have "rowKey (t_indexes (rebuildIndexes t) ! k) = rowKey (t_indexes t ! k)" by (intro ext rowKey_cong)
  then show ?thesis using r(1,2) q(1) q(2) [of k key] assms(6,7) by (simp add: len)
qed

theorem rebuildIndexes_exact_witness:
  "\<exists>st. tbl_abs (st_table st) = [replicate 16 1 \<mapsto> sampleRow] \<and>
    set (si_lookup (keyOf (StrV (str ''x''))) (t_indexes (rebuildIndexes (st_table (st :: unit store))) ! 0)) = {replicate 16 1}"
proof -
  obtain st where st: "merging 7 [KindString] 2 (freshStore 2 indexedTable 0 0 0 ()) Idle st"
    "tbl_abs (st_table st) = [replicate 16 1 \<mapsto> sampleRow]" "t_indexes (st_table st) = map newSecIndex (rt_indexes indexedTable)"
    by (rule sample_inserted)
  from fresh_reach [OF st(1) indexedTable_facts] have inv: "merge_inv 7 [KindString] Idle (st_table st)"
    and rows: "rows_ok 2 (tbl_abs (st_table st))" by blast+
  have o1: "si_ordinals (t_indexes (st_table st) ! 0) = [1]" by (simp add: st(3) indexedTable_def newSecIndex_def)
  have "covers 2 (st_table st)" using rows by (simp add: covers_def st(3) indexedTable_def newSecIndex_def)
  moreover have "table_inv 7 (st_table st)" "typed [KindString] (st_table st)" "length [KindString] = nIdx (st_table st)"
    using inv by (simp_all add: merge_inv_def idxs_ok_def)
  moreover have "t_indexes (st_table st) \<noteq> []" "0 < nIdx (st_table st)" by (simp_all add: st(3) indexedTable_def nIdx_def)
  moreover have "key_ok ([KindString] ! 0) (keyOf (StrV (str ''x'')))" using key_ok_keyOf [of "StrV (str ''x'')"] by simp
  ultimately have "set (si_lookup (keyOf (StrV (str ''x''))) (t_indexes (rebuildIndexes (st_table st)) ! 0)) =
      {pk. \<exists>r. tbl_abs (st_table st) pk = Some r \<and> rowKey (t_indexes (st_table st) ! 0) r = Some (keyOf (StrV (str ''x'')))}"
    using rebuildIndexes_exact by blast
  also have "\<dots> = {replicate 16 1}" using sampleRow_key [OF o1] by (auto simp: st(2))
  finally show ?thesis using st(2) by blast
qed

end
