(* ===== verification/SelectSpec.thy ===== *)
theory SelectSpec
  imports Walks PlanPaths IndexReads
begin

text \<open>
  What a SELECT on one table answers: the rows that pass its WHERE, each once, in the requested order,
  projected and cut, whatever access path the plan takes.
\<close>

section \<open>Matching rows\<close>

text \<open>Every column of a bound expression is in range, so no row of the table makes it panic.\<close>

lemma bound_total:
  assumes "bound rt e" and "wf_table rt" and "length (ec_row ctx) = length (tColumns (rt_def rt))"
  shows "evalExpr e ctx \<noteq> None"
  using assms(1)
proof (induction e)
  case (ColRef cr)
  then obtain o' where "colByName rt (cr_name cr) = Some o'" "cr_ord cr = int o'" by auto
  with assms(2,3) show ?case by (auto simp: wf_table_def Let_def cellAt_def)
qed (auto simp: andThenP_def Let_def split: option.splits sum.splits)

lemma matcher_total:
  assumes "bound rt e" and "wf_table rt" and "row_ok (length (tColumns (rt_def rt))) row"
  shows "rowMatcher e ctx row = Some (passes e ctx row)"
proof -
  have "evalExpr e (ctx\<lparr>ec_row := row\<rparr>) \<noteq> None" using bound_total [OF assms(1,2)] assms(3) by (simp add: row_ok_def)
  then show ?thesis by (auto simp: passes_def rowMatcher_interp interpMatcher_def split: sum.splits)
qed

text \<open>The row of a key if it passes.\<close>

definition hit :: "table \<Rightarrow> (Row \<Rightarrow> bool) \<Rightarrow> UUID \<Rightarrow> Row option" where
  "hit t P pk = (case tbl_abs t pk of None \<Rightarrow> None | Some r \<Rightarrow> if P r then Some r else None)"

definition hits :: "table \<Rightarrow> (Row \<Rightarrow> bool) \<Rightarrow> UUID list \<Rightarrow> Row list" where
  "hits t P pks = List.map_filter (hit t P) pks"

lemma hits_simps [simp]:
  "hits t P [] = []"
  "hits t P (pk # pks) = (case hit t P pk of None \<Rightarrow> hits t P pks | Some r \<Rightarrow> r # hits t P pks)"
  "hits t P (xs @ ys) = hits t P xs @ hits t P ys"
  by (simp_all add: hits_def List.map_filter_def split: option.split)

lemma hit_Some: "hit t P pk = Some r \<longleftrightarrow> tbl_abs t pk = Some r \<and> P r"
  by (auto simp: hit_def split: option.split)

lemma set_hits: "set (hits t P pks) = {r. \<exists>pk \<in> set pks. tbl_abs t pk = Some r \<and> P r}"
  by (induction pks) (auto simp: hit_def split: option.split)

lemma hits_cong: "(\<And>pk r. pk \<in> set pks \<Longrightarrow> tbl_abs t pk = Some r \<Longrightarrow> P r = Q r) \<Longrightarrow> hits t P pks = hits t Q pks"
  by (induction pks) (auto simp: hit_def split: option.split)

lemma abs_pkOf: "table_inv seed t \<Longrightarrow> tbl_abs t pk = Some r \<Longrightarrow> pkOf t r = pk"
  by (cases rule: rowAt_cases [of seed t pk]) auto

lemma hits_distinct: "table_inv seed t \<Longrightarrow> distinct pks \<Longrightarrow> distinct (hits t P pks)"
proof (induction pks)
  case (Cons pk pks)
  then show ?case using abs_pkOf [OF Cons.prems(1)]
    by (auto simp: set_hits hit_Some split: option.split)
qed simp

definition testOf :: "rowPred option \<Rightarrow> rowPred" where
  "testOf pred r = (case pred of None \<Rightarrow> Some True | Some p \<Rightarrow> p r)"

lemma passingRow_hit:
  assumes "table_inv seed t" and "\<And>r. tbl_abs t pk = Some r \<Longrightarrow> testOf pred r = Some (P r)"
  shows "passingRow seed t pk pred = Some (hit t P pk)"
  using assms(1)
  by (cases rule: rowAt_cases [of seed t pk])
    (use assms(2) in \<open>auto simp: passingRow_def hit_def testOf_def\<close>)

text \<open>Rows are well formed, so copying their cells is the identity.\<close>

lemma clone_row: "row_ok n r \<Longrightarrow> Row_Clone r = r"
  by (auto simp: Row_Clone_def row_ok_def intro: map_idI)

lemma clone_cell: "row_ok n r \<Longrightarrow> i < n \<Longrightarrow> cloneValue (r ! i) = r ! i"
  by (auto simp: row_ok_def)

lemma clone_proj:
  assumes "row_ok n r" and "\<forall>i \<in> set (pl_projOrdinals pl). i < n"
  shows "cloneProj pl r = projOf pl r"
  using assms clone_row [OF assms(1)]
  by (auto simp: cloneProj_def projOf_def appendRowClone_def appendProjectClone_def Row_Clone_def clone_cell)

section \<open>The loops over candidates\<close>

text \<open>The first \<open>eff\<close> elements; a negative bound is none.\<close>

definition cut :: "int \<Rightarrow> 'a list \<Rightarrow> 'a list" where
  "cut eff xs = (if eff < 0 then xs else take (nat eff) xs)"

definition limit_fits :: "selectStmt \<Rightarrow> bool" where
  "limit_fits s \<longleftrightarrow> 0 \<le> s_offset s \<and> (s_limit s \<ge> 0 \<longrightarrow> s_limit s + s_offset s < 2 ^ 63)"

lemma wrap64_id: "- (2 ^ 63) \<le> i \<Longrightarrow> i < 2 ^ 63 \<Longrightarrow> wrap64 i = i"
  by (simp add: wrap64_def sint_sbintrunc' signed_take_bit_int_eq_self)

lemma fetchBound_fits: "limit_fits s \<Longrightarrow> fetchBound (s_limit s) (s_offset s) = (if s_limit s < 0 then - 1 else s_limit s + s_offset s)"
  by (simp add: fetchBound_def limit_fits_def wrap64_id)

lemma slice_cut:
  assumes "limit_fits s"
  shows "sliceOffsetLimit (cut (fetchBound (s_limit s) (s_offset s)) xs) (s_offset s) (s_limit s) = sliceOffsetLimit xs (s_offset s) (s_limit s)"
proof -
  have "0 \<le> s_offset s" using assms by (simp add: limit_fits_def)
  then show ?thesis
    unfolding fetchBound_fits [OF assms] cut_def sliceOffsetLimit_def Let_def
    by (auto simp: drop_take nat_add_distrib min_def take_all_iff split: if_splits)
qed

text \<open>The keys a loop with a \<open>seen\<close> set visits.\<close>

fun unseen :: "UUID set \<Rightarrow> UUID list \<Rightarrow> UUID list" where
  "unseen seen [] = []"
| "unseen seen (pk # pks) = (if pk \<in> seen then unseen seen pks else pk # unseen (insert pk seen) pks)"

lemma unseen_set: "set (unseen seen pks) = set pks - seen"
  by (induction seen pks rule: unseen.induct) auto

lemma unseen_distinct: "distinct (unseen seen pks)"
  by (induction seen pks rule: unseen.induct) (auto simp: unseen_set)

lemma unseen_append: "unseen seen (xs @ ys) = unseen seen xs @ unseen (seen \<union> set xs) ys"
  by (induction seen xs rule: unseen.induct) (auto simp: insert_absorb)

lemma visit_append:
  "visit_all fn (xs @ ys) s = Option.bind (visit_all fn xs s) (\<lambda>(stop, s). if stop then Some (True, s) else visit_all fn ys s)"
  by (induction xs arbitrary: s) (auto split: Option.bind_splits)

lemma visit_unseen:
  "(\<exists>seen'. visit_all (visit_new fn) pks (seen, s) = map_option (\<lambda>(stop, s'). (stop, if stop then seen' else seen \<union> set pks, s'))
     (visit_all fn (unseen seen pks) s))"
proof (induction pks arbitrary: seen s)
  case (Cons pk pks)
  show ?case
  proof (cases "pk \<in> seen")
    case True
    then have "visit_all (visit_new fn) (pk # pks) (seen, s) = visit_all (visit_new fn) pks (seen, s)"
      and "seen \<union> set (pk # pks) = seen \<union> set pks" "unseen seen (pk # pks) = unseen seen pks" by (auto simp: visit_new_def)
    then show ?thesis using Cons [of seen s] by (simp only:)
  next
    case False
    show ?thesis
    proof (cases "fn pk s")
      case None
      then show ?thesis using False by (simp add: visit_new_def)
    next
      case (Some p)
      have ins: "seen \<union> set (pk # pks) = insert pk seen \<union> set pks" by simp
      show ?thesis
      proof (cases "fst p")
        case True
        then show ?thesis using False Some by (cases p) (auto simp: visit_new_def)
      next
        case go: False
        then have "visit_all (visit_new fn) (pk # pks) (seen, s) = visit_all (visit_new fn) pks (insert pk seen, snd p)"
          "visit_all fn (unseen seen (pk # pks)) s = visit_all fn (unseen (insert pk seen) pks) (snd p)"
          using False Some by (cases p; simp add: visit_new_def)+
        then show ?thesis using Cons [of "insert pk seen" "snd p"] by (simp only: ins)
      qed
    qed
  qed
qed simp

text \<open>The order in which \<open>emit\<close> visits its candidates.\<close>

definition visited :: "idxCandidateSet \<Rightarrow> UUID list" where
  "visited c = (if ic_dirty c = [] then ic_pks c else unseen {} (ic_pks c @ ic_dirty c))"

lemma emit_visits: "emit fn c s = map_option snd (visit_all fn (visited c) s)"
proof (cases "ic_dirty c = []")
  case False
  obtain sn where sn: "visit_all (visit_new fn) (ic_pks c) ({}, s) =
      map_option (\<lambda>(stop, s'). (stop, if stop then sn else {} \<union> set (ic_pks c), s')) (visit_all fn (unseen {} (ic_pks c)) s)"
    using visit_unseen [of fn "ic_pks c" "{}" s] by (elim exE)
  show ?thesis
  proof (cases "visit_all fn (unseen {} (ic_pks c)) s")
    case None
    then show ?thesis using False sn by (simp add: emit_def visited_def unseen_append visit_append)
  next
    case (Some p)
    obtain stop s' where p: "p = (stop, s')" by (cases p)
    obtain sn' where "visit_all (visit_new fn) (ic_dirty c) (set (ic_pks c), s') =
        map_option (\<lambda>(stop, s''). (stop, if stop then sn' else set (ic_pks c) \<union> set (ic_dirty c), s''))
          (visit_all fn (unseen (set (ic_pks c)) (ic_dirty c)) s')" using visit_unseen [of fn "ic_dirty c" "set (ic_pks c)" s'] by (elim exE)
    then show ?thesis using False sn Some p
      by (cases "visit_all fn (unseen (set (ic_pks c)) (ic_dirty c)) s'")
        (auto simp: emit_def visited_def unseen_append visit_append)
  qed
qed (simp add: emit_def visited_def)

lemma visited_set: "set (visited c) = set (ic_pks c) \<union> set (ic_dirty c)"
  by (auto simp: visited_def unseen_set)

lemma visited_distinct: "distinct (ic_pks c) \<Longrightarrow> distinct (visited c)"
  by (simp add: visited_def unseen_distinct)


section \<open>The unordered answer\<close>

text \<open>The candidates of a list of keys, collected up to the bound.\<close>

lemma append_hit:
  assumes "table_inv seed t" and "rows_ok n (tbl_abs t)" and "\<forall>i \<in> set (pl_projOrdinals pl). i < n"
    and "\<And>r. tbl_abs t pk = Some r \<Longrightarrow> testOf pred r = Some (P r)"
  shows "appendMatchProject seed t pk pred (pl_projOrdinals pl) (s_starAll (selOf pl)) dst =
    Some (case hit t P pk of None \<Rightarrow> (dst, False) | Some r \<Rightarrow> (dst @ projOf pl r, True))"
proof -
  have "(if s_starAll (selOf pl) then appendRowClone dst r else appendProjectClone dst r (pl_projOrdinals pl)) = dst @ projOf pl r"
    if "hit t P pk = Some r" for r
  proof -
    have "row_ok n r" using that assms(2) by (auto simp: hit_Some rows_ok_def)
    from clone_proj [OF this assms(3)] show ?thesis
      by (simp add: cloneProj_def appendRowClone_def appendProjectClone_def split: if_splits)
  qed
  then show ?thesis using passingRow_hit [OF assms(1,4)]
    by (auto simp: appendMatchProject_def split: option.split)
qed

lemma cut_stop: "0 \<le> eff \<Longrightarrow> int (length xs) = eff \<Longrightarrow> cut eff (xs @ ys) = xs"
  by (auto simp: cut_def)

lemma visit_pack:
  assumes inv: "table_inv seed t" "rows_ok n (tbl_abs t)" "\<forall>i \<in> set (pl_projOrdinals pl). i < n"
    and test: "\<And>pk r. pk \<in> set pks \<Longrightarrow> tbl_abs t pk = Some r \<Longrightarrow> testOf pred r = Some (P r)"
    and eff: "eff < 0 \<or> int (length out) < eff"
  shows "\<exists>stop packed'. visit_all (packCandidate seed t pl pred eff) pks (out, packed) =
    Some (stop, cut eff (out @ map (projOf pl) (hits t P pks)), packed')"
  using test eff
proof (induction pks arbitrary: out packed)
  case Nil
  then show ?case by (auto simp: cut_def)
next
  case (Cons pk pks)
  have pc: "packCandidate seed t pl pred eff pk (out, packed) = Some (case hit t P pk of None \<Rightarrow> (False, out, packed)
      | Some r \<Rightarrow> (eff \<ge> 0 \<and> int (length (out @ [projOf pl r])) \<ge> eff, out @ [projOf pl r], packed @ projOf pl r))"
  proof -
    have "appendMatchProject seed t pk pred (pl_projOrdinals pl) (s_starAll (selOf pl)) packed =
      Some (case hit t P pk of None \<Rightarrow> (packed, False) | Some r \<Rightarrow> (packed @ projOf pl r, True))" for packed
      by (rule append_hit [OF inv], rule Cons.prems(1)) simp_all
    then show ?thesis by (simp add: packCandidate_def Let_def split: option.split)
  qed
  have ih: "eff < 0 \<or> int (length out) < eff \<Longrightarrow> \<exists>stop packed'. visit_all (packCandidate seed t pl pred eff) pks (out, packed) =
    Some (stop, cut eff (out @ map (projOf pl) (hits t P pks)), packed')" for out packed
    by (rule Cons.IH) (use Cons.prems(1) in auto)
  show ?case
  proof (cases "hit t P pk")
    case None
    then show ?thesis using ih [OF Cons.prems(2)] by (simp add: pc)
  next
    case (Some r)
    show ?thesis
    proof (cases "eff \<ge> 0 \<and> int (length (out @ [projOf pl r])) \<ge> eff")
      case True
      then have "cut eff ((out @ [projOf pl r]) @ map (projOf pl) (hits t P pks)) = out @ [projOf pl r]"
        using Cons.prems(2) by (intro cut_stop) auto
      then show ?thesis using True Some by (auto simp: pc)
    next
      case False
      then have "eff < 0 \<or> int (length (out @ [projOf pl r])) < eff" by linarith
      then show ?thesis using ih [of "out @ [projOf pl r]" "packed @ projOf pl r"] False Some by (auto simp: pc)
    qed
  qed
qed

lemma exec_unordered:
  assumes inv: "table_inv seed t" "rows_ok n (tbl_abs t)" "\<forall>i \<in> set (pl_projOrdinals pl). i < n"
    and lim: "limit_fits (selOf pl)" "s_limit (selOf pl) \<noteq> 0" and ord: "pl_orderOrdinal pl < 0"
    and test: "\<And>pk r. tbl_abs t pk = Some r \<Longrightarrow> rowMatcher (s_where (selOf pl)) ctx r = Some (P r)"
    and exact: "\<And>pk r. pl_idxExact pl \<Longrightarrow> ic_dirty cand = [] \<Longrightarrow> pk \<in> set (ic_pks cand) \<Longrightarrow> tbl_abs t pk = Some r \<Longrightarrow> P r"
  shows "execCandidates seed t pl ctx cand =
    Some (Inr (sliceOffsetLimit (map (projOf pl) (hits t P (visited cand))) (s_offset (selOf pl)) (s_limit (selOf pl))))"
proof -
  let ?pred = "if pl_idxExact pl \<and> ic_dirty cand = [] then None else Some (rowMatcher (s_where (selOf pl)) ctx)"
  let ?eff = "fetchBound (s_limit (selOf pl)) (s_offset (selOf pl))"
  have "\<And>pk r. pk \<in> set (visited cand) \<Longrightarrow> tbl_abs t pk = Some r \<Longrightarrow> testOf ?pred r = Some (P r)"
    using test exact by (auto simp: testOf_def visited_def)
  moreover have "?eff < 0 \<or> int (length ([] :: Row list)) < ?eff"
    using lim fetchBound_fits [OF lim(1)] by (auto simp: limit_fits_def)
  ultimately obtain stop packed' where "visit_all (packCandidate seed t pl ?pred ?eff) (visited cand) ([], []) =
      Some (stop, cut ?eff ([] @ map (projOf pl) (hits t P (visited cand))), packed')"
    using visit_pack [OF inv] by blast
  then show ?thesis using ord slice_cut [OF lim(1)]
    by (simp add: execCandidates_def emit_visits Let_def split del: if_split)
qed

section \<open>The ordered answer\<close>

definition in_order :: "plan \<Rightarrow> Row list \<Rightarrow> bool" where
  "in_order pl rs \<longleftrightarrow> (0 \<le> pl_orderOrdinal pl \<longrightarrow> sorted_wrt (\<lambda>a b.
     orderCmp (s_orderDesc (selOf pl)) (a ! nat (pl_orderOrdinal pl)) (b ! nat (pl_orderOrdinal pl)) \<le> 0) rs)"

lemma map_perm:
  "mset es = mset (map f rs) \<Longrightarrow> \<exists>rs'. mset rs' = mset rs \<and> es = map f rs'"
proof (induction es arbitrary: rs)
  case (Cons e es)
  then have "e \<in> set (map f rs)" by (metis list.set_intros(1) mset_eq_setD)
  then obtain u x v where rs: "rs = u @ x # v" "e = f x" by (auto simp: in_set_conv_decomp)
  then have "mset es = mset (map f (u @ v))" using Cons.prems by simp
  from Cons.IH [OF this] obtain rs' where "mset rs' = mset (u @ v)" "es = map f rs'" by blast
  then show ?case using rs by (intro exI [of _ "x # rs'"]) simp
qed simp

text \<open>The top rows, through the bounded heap or through the plain collection and sort.\<close>

definition top_of :: "plan \<Rightarrow> int \<Rightarrow> topN" where
  "top_of pl cap = newTop (nat (pl_orderOrdinal pl)) (s_orderDesc (selOf pl)) cap (projOrNil (s_starAll (selOf pl)) (pl_projOrdinals pl))"

definition collect_all :: "Row list \<Rightarrow> topN \<Rightarrow> topN option" where
  "collect_all rs t = (if \<forall>r \<in> set rs. tn_ord t < length r then Some (t\<lparr>tn_h := tn_h t @ map (entryOf t) rs\<rparr>) else None)"

lemma take_row_proj:
  "row_ok n r \<Longrightarrow> \<forall>i \<in> set (pl_projOrdinals pl). i < n \<Longrightarrow> take_row (projOrNil (s_starAll (selOf pl)) (pl_projOrdinals pl)) r = projOf pl r"
  using clone_proj [of n r pl] clone_row [of n r] by (auto simp: take_row_def projOrNil_def cloneProj_def projOf_def appendProjectClone_def)

lemma entries_of:
  assumes "\<forall>r \<in> set rs. row_ok n r" and "\<forall>i \<in> set (pl_projOrdinals pl). i < n" and "nat (pl_orderOrdinal pl) < n"
    and es: "mset es = mset (map (entryOf (top_of pl cap)) rs)" "sorted_wrt (\<lambda>a b. orderCmp (s_orderDesc (selOf pl)) (fst a) (fst b) \<le> 0) es"
  obtains rs' where "mset rs' = mset rs" "in_order pl rs'" "map snd es = map (projOf pl) rs'"
proof -
  obtain rs' where rs': "mset rs' = mset rs" "es = map (entryOf (top_of pl cap)) rs'" using map_perm [OF es(1)] by blast
  have set: "set rs' = set rs" using rs'(1) by (rule mset_eq_setD)
  have e: "entryOf (top_of pl cap) r = (r ! nat (pl_orderOrdinal pl), projOf pl r)" if "r \<in> set rs'" for r
    using that assms(1-3) take_row_proj [of n r pl] clone_cell [of n r]
    by (simp add: entryOf_def top_of_def newTop_def set)
  then have "map (entryOf (top_of pl cap)) rs' = map (\<lambda>r. (r ! nat (pl_orderOrdinal pl), projOf pl r)) rs'" by simp
  with es(2) rs' show thesis by (intro that [of rs']) (simp_all add: in_order_def sorted_wrt_map comp_def)
qed

lemma offered_best:
  assumes rows: "\<forall>r \<in> set rs. row_ok n r \<and> Kind (r ! nat (pl_orderOrdinal pl)) = K" "K \<noteq> KindNull"
    and n: "\<forall>i \<in> set (pl_projOrdinals pl). i < n" "nat (pl_orderOrdinal pl) < n" and cap: "0 < cap"
  obtains tn rs' where "offer_all rs (top_of pl cap) = Some tn" "mset rs' = mset rs" "in_order pl rs'"
    "top_sorted tn = map (projOf pl) (cut cap rs')"
proof -
  let ?t = "top_of pl cap"
  have k: "kept ?t []" using kept_new cap by (simp add: top_of_def)
  have rs: "\<forall>r \<in> set rs. tn_ord ?t < length r \<and> entryOf ?t r \<in> same_kind K" "0 < tn_capN ?t"
    using rows n(2) cap by (auto simp: entryOf_def same_kind_def newTop_def top_of_def row_ok_def)
  obtain tn where tn: "offer_all rs ?t = Some tn" "same_top ?t tn" "kept tn (map (entryOf ?t) rs)"
    using offer_all_kept [OF k _ rs] by auto
  have "set (map (entryOf ?t) rs) \<subseteq> same_kind K" using rs by auto
  then obtain es where es: "mset es = mset (map (entryOf ?t) rs)" "sorted_wrt (\<lambda>a b. orderCmp (tn_desc tn) (fst a) (fst b) \<le> 0) es"
      "top_sorted tn = map snd (take (nat (tn_capN tn)) es)" by (rule kept_sorted [OF tn(3)])
  have f: "tn_desc tn = s_orderDesc (selOf pl)" "tn_capN tn = cap" using tn(2) by (simp_all add: same_top_def newTop_def top_of_def)
  obtain rs' where rs': "mset rs' = mset rs" "in_order pl rs'" "map snd es = map (projOf pl) rs'"
    using entries_of [OF _ n es(1) es(2) [unfolded f(1)]] rows(1) by auto
  show thesis using tn(1) rs' es(3) cap by (intro that [of tn rs']) (simp_all add: f(2) cut_def take_map [symmetric])
qed

lemma collected_sorted:
  assumes rows: "\<forall>r \<in> set rs. row_ok n r \<and> Kind (r ! nat (pl_orderOrdinal pl)) = K" "K \<noteq> KindNull"
    and n: "\<forall>i \<in> set (pl_projOrdinals pl). i < n" "nat (pl_orderOrdinal pl) < n"
  obtains tn rs' where "collect_all rs (top_of pl cap) = Some tn" "mset rs' = mset rs" "in_order pl rs'"
    "top_sorted tn = map (projOf pl) rs'"
proof -
  let ?t = "top_of pl cap" and ?cmp = "\<lambda>a b. orderCmp (s_orderDesc (selOf pl)) (fst a) (fst b)"
  have rs: "\<forall>r \<in> set rs. tn_ord ?t < length r \<and> entryOf ?t r \<in> same_kind K"
    using rows n(2) by (auto simp: entryOf_def same_kind_def newTop_def top_of_def row_ok_def)
  define es where "es = slices_SortFunc ?cmp (map (entryOf ?t) rs)"
  have m: "mset es = mset (map (entryOf ?t) rs)" by (simp only: es_def slices_SortFunc_mset)
  have s: "sorted_wrt (\<lambda>a b. ?cmp a b \<le> 0) es" unfolding es_def
    by (rule slices_SortFunc_sorted [OF entryCmp_weak [of _ K]]) (use rs in auto)
  obtain rs' where rs': "mset rs' = mset rs" "in_order pl rs'" "map snd es = map (projOf pl) rs'"
    using entries_of [OF _ n m s] rows(1) by auto
  have "collect_all rs ?t = Some (?t\<lparr>tn_h := map (entryOf ?t) rs\<rparr>)"
    using rs by (simp add: collect_all_def) (simp add: top_of_def newTop_def)
  moreover have "top_sorted (?t\<lparr>tn_h := map (entryOf ?t) rs\<rparr>) = map snd es"
    by (simp add: top_sorted_def es_def top_of_def newTop_def)
  ultimately show thesis using rs' that by simp
qed


section \<open>The scan\<close>

text \<open>The rows in scan order.\<close>

definition table_rows :: "table \<Rightarrow> Row list" where
  "table_rows t = concat (map (\<lambda>s. live_rows (sh_rows s)) (t_shards t))"

lemma table_rows_set: "table_inv seed t \<Longrightarrow> set (table_rows t) = {r. \<exists>pk. tbl_abs t pk = Some r}"
proof (intro equalityI subsetI)
  fix r assume inv: "table_inv seed t" and "r \<in> set (table_rows t)"
  then obtain s where s: "s \<in> set (t_shards t)" "r \<in> set (live_rows (sh_rows s))" by (auto simp: table_rows_def)
  then obtain i where i: "i < length (t_shards t)" "r \<in> set (live_rows (sh_rows (t_shards t ! i)))" by (metis in_set_conv_nth)
  then have si: "shard_inv seed t i (t_shards t ! i)" using inv by (simp add: table_inv_def)
  then have "shardIdxOf t (pkOf t r) = i" using i(2) by (auto simp: shard_inv_def set_live_rows)
  moreover have "shard_abs (t_shards t ! i) (pkOf t r) = Some r"
    using si i(2) shard_abs_iff [of "t_shards t ! i" "pkOf t"] by (simp add: shard_inv_def)
  ultimately show "r \<in> {r. \<exists>pk. tbl_abs t pk = Some r}" by (auto simp: tbl_abs_def)
next
  fix r assume inv: "table_inv seed t" and "r \<in> {r. \<exists>pk. tbl_abs t pk = Some r}"
  then obtain pk where pk: "tbl_abs t pk = Some r" by blast
  let ?i = "shardIdxOf t pk"
  have i: "?i < length (t_shards t)" using inv shardIdxOf_less by (simp add: table_inv_def)
  then have "shard_inv seed t ?i (t_shards t ! ?i)" using inv by (simp add: table_inv_def)
  then have "r \<in> set (live_rows (sh_rows (t_shards t ! ?i)))"
    using pk shard_abs_iff [of "t_shards t ! ?i" "pkOf t"] by (simp add: shard_inv_def tbl_abs_def)
  then show "r \<in> set (table_rows t)" using i by (auto simp: table_rows_def intro!: bexI [of _ "t_shards t ! ?i"])
qed

lemma table_rows_distinct:
  assumes inv: "table_inv seed t"
  shows "distinct (table_rows t)"
proof -
  have sh: "arena_index (sh_rows (t_shards t ! i)) (pk_abs (sh_pk (t_shards t ! i))) (pkOf t)"
    "\<forall>r \<in> set (live_rows (sh_rows (t_shards t ! i))). shardIdxOf t (pkOf t r) = i" if "i < length (t_shards t)" for i
    using inv that by (auto simp: table_inv_def shard_inv_def set_live_rows)
  have "distinct (concat (map (\<lambda>s. live_rows (sh_rows s)) (take k (t_shards t)))) \<and>
      (\<forall>r \<in> set (concat (map (\<lambda>s. live_rows (sh_rows s)) (take k (t_shards t)))). shardIdxOf t (pkOf t r) < k)" if "k \<le> length (t_shards t)" for k
    using that
  proof (induction k)
    case (Suc k)
    then have k: "k < length (t_shards t)" by simp
    have d: "distinct (live_rows (sh_rows (t_shards t ! k)))"
      using live_rows_distinct [OF sh(1) [OF k]] by (simp add: distinct_map)
    have "set (live_rows (sh_rows (t_shards t ! k))) \<inter> set (concat (map (\<lambda>s. live_rows (sh_rows s)) (take k (t_shards t)))) = {}"
      using Suc.IH k sh(2) [OF k] by fastforce
    with Suc.IH k d sh(2) [OF k] show ?case by (auto simp: take_Suc_conv_app_nth less_Suc_eq)
  qed simp
  from this [of "length (t_shards t)"] show ?thesis by (simp add: table_rows_def)
qed

lemma scan_rows_cut:
  assumes test: "\<And>r. r \<in> set (live_rows rs) \<Longrightarrow> testOf match r = Some (P r) \<and> cloneProj pl r = projOf pl r"
    and eff: "eff < 0 \<or> int (length out) < eff"
  shows "scan_rows (scanRow pl match eff) rs (Some out) =
    (let out' = out @ map (projOf pl) (filter P (live_rows rs)) in (eff \<ge> 0 \<and> int (length out') \<ge> eff, Some (cut eff out')))"
  using assms
proof (induction rs arbitrary: out)
  case Nil
  then show ?case by (auto simp: cut_def)
next
  case (Cons x rs)
  show ?case
  proof (cases x)
    case None
    then show ?thesis using Cons by simp
  next
    case (Some r)
    have r: "testOf match r = Some (P r)" "cloneProj pl r = projOf pl r" using Cons.prems(1) Some by auto
    have row: "scanRow pl match eff r (Some out) = (if P r then (\<not> (eff \<ge> 0 \<and> int (length (out @ [projOf pl r])) \<ge> eff), Some (out @ [projOf pl r])) else (True, Some out))"
      using r by (simp add: scanRow_def testOf_def Let_def)
    have ih: "eff < 0 \<or> int (length out) < eff \<Longrightarrow> scan_rows (scanRow pl match eff) rs (Some out) =
      (let out' = out @ map (projOf pl) (filter P (live_rows rs)) in (eff \<ge> 0 \<and> int (length out') \<ge> eff, Some (cut eff out')))" for out
      by (rule Cons.IH) (use Cons.prems(1) Some in auto)
    show ?thesis
    proof (cases "P r")
      case False
      then show ?thesis using ih [OF Cons.prems(2)] Some by (simp add: row)
    next
      case P: True
      show ?thesis
      proof (cases "eff \<ge> 0 \<and> int (length (out @ [projOf pl r])) \<ge> eff")
        case True
        then have "cut eff ((out @ [projOf pl r]) @ map (projOf pl) (filter P (live_rows rs))) = out @ [projOf pl r]"
          using Cons.prems(2) by (intro cut_stop) auto
        then show ?thesis using True P Some by (simp add: row Let_def)
      next
        case False
        then have "eff < 0 \<or> int (length (out @ [projOf pl r])) < eff" by linarith
        then show ?thesis using ih [of "out @ [projOf pl r]"] False P Some by (simp add: row Let_def)
      qed
    qed
  qed
qed

lemma scan_shards_cut:
  assumes test: "\<And>r. r \<in> set (concat (map (\<lambda>s. live_rows (sh_rows s)) ss)) \<Longrightarrow> testOf match r = Some (P r) \<and> cloneProj pl r = projOf pl r"
    and eff: "eff < 0 \<or> int (length out) < eff"
  shows "scan_shards (scanRow pl match eff) ss (Some out) =
    Some (cut eff (out @ map (projOf pl) (filter P (concat (map (\<lambda>s. live_rows (sh_rows s)) ss)))))"
  using assms
proof (induction ss arbitrary: out)
  case Nil
  then show ?case by (auto simp: cut_def)
next
  case (Cons s ss)
  let ?out = "out @ map (projOf pl) (filter P (live_rows (sh_rows s)))"
  have s: "scan_rows (scanRow pl match eff) (sh_rows s) (Some out) = (eff \<ge> 0 \<and> int (length ?out) \<ge> eff, Some (cut eff ?out))"
    using scan_rows_cut [of "sh_rows s" match P pl eff out] Cons.prems by (simp add: Let_def)
  show ?case
  proof (cases "eff \<ge> 0 \<and> int (length ?out) \<ge> eff")
    case True
    then have "nat eff \<le> length ?out" by linarith
    then have "cut eff (?out @ ys) = cut eff ?out" for ys using True by (simp add: cut_def del: append_assoc)
    then show ?thesis using True s by (simp add: Let_def)
  next
    case False
    then have c: "cut eff ?out = ?out" "eff < 0 \<or> int (length ?out) < eff" by (auto simp: cut_def)
    have "scan_shards (scanRow pl match eff) ss (Some ?out) =
        Some (cut eff (?out @ map (projOf pl) (filter P (concat (map (\<lambda>s. live_rows (sh_rows s)) ss)))))"
      by (rule Cons.IH [OF _ c(2)]) (use Cons.prems(1) in auto)
    moreover have "scan_shards (scanRow pl match eff) (s # ss) (Some out) = scan_shards (scanRow pl match eff) ss (Some ?out)"
      unfolding scan_shards.simps s Let_def prod.case if_not_P [OF False] c(1) ..
    ultimately show ?thesis by simp
  qed
qed

text \<open>The scan that feeds a heap offers the passing rows one after the other.\<close>

lemma scan_rows_top:
  assumes "\<And>r. r \<in> set (live_rows rs) \<Longrightarrow> testOf match r = Some (P r)"
  shows "\<exists>stop. scan_rows (scanTop add match) rs (Some tn) =
    (stop, fold (\<lambda>r acc. Option.bind acc (add r)) (filter P (live_rows rs)) (Some tn)) \<and>
    (stop \<longrightarrow> fold (\<lambda>r acc. Option.bind acc (add r)) (filter P (live_rows rs)) (Some tn) = None)"
  using assms
proof (induction rs arbitrary: tn)
  case (Cons x rs)
  have none: "fold (\<lambda>r acc. Option.bind acc (add r)) xs None = None" for xs by (induction xs) simp_all
  show ?case
  proof (cases x)
    case None
    then show ?thesis using Cons by simp
  next
    case (Some r)
    have r: "testOf match r = Some (P r)" using Cons.prems Some by simp
    have row: "scanTop add match r (Some tn) = (if P r then (case add r tn of None \<Rightarrow> (False, None) | Some tn' \<Rightarrow> (True, Some tn')) else (True, Some tn))"
      using r by (simp add: scanTop_def testOf_def)
    have ih: "\<exists>stop. scan_rows (scanTop add match) rs (Some tn) =
        (stop, fold (\<lambda>r acc. Option.bind acc (add r)) (filter P (live_rows rs)) (Some tn)) \<and>
        (stop \<longrightarrow> fold (\<lambda>r acc. Option.bind acc (add r)) (filter P (live_rows rs)) (Some tn) = None)" for tn
      by (rule Cons.IH) (use Cons.prems Some in simp)
    show ?thesis
    proof (cases "P r")
      case False
      then show ?thesis using ih [of tn] Some by (simp add: row)
    next
      case True
      show ?thesis
      proof (cases "add r tn")
        case None
        then show ?thesis using True \<open>x = Some r\<close> by (auto simp: row none)
      next
        case (Some tn')
        then show ?thesis using True \<open>x = Some r\<close> ih [of tn'] by (simp add: row)
      qed
    qed
  qed
qed (auto intro: exI [of _ False])

lemma scan_shards_top:
  assumes "\<And>r. r \<in> set (concat (map (\<lambda>s. live_rows (sh_rows s)) ss)) \<Longrightarrow> testOf match r = Some (P r)"
  shows "scan_shards (scanTop add match) ss (Some tn) =
    fold (\<lambda>r acc. Option.bind acc (add r)) (filter P (concat (map (\<lambda>s. live_rows (sh_rows s)) ss))) (Some tn)"
  using assms
proof (induction ss arbitrary: tn)
  case (Cons s ss)
  have none: "fold (\<lambda>r acc. Option.bind acc (add r)) xs None = None" for xs by (induction xs) simp_all
  let ?f = "fold (\<lambda>r acc. Option.bind acc (add r)) (filter P (live_rows (sh_rows s))) (Some tn)"
  obtain stop where s: "scan_rows (scanTop add match) (sh_rows s) (Some tn) = (stop, ?f)" "stop \<longrightarrow> ?f = None"
    using scan_rows_top [of "sh_rows s" match P add tn] Cons.prems by auto
  show ?case
  proof (cases ?f)
    case None
    have "snd (scan_rows (scanTop add match) rs None) = None" for rs
    proof (induction rs)
      case (Cons x rs)
      then show ?case by (cases x) (simp_all add: scanTop_def)
    qed simp
    then have step: "scan_rows (scanTop add match) rs None = (fst (scan_rows (scanTop add match) rs None), None)" for rs
      by (metis prod.collapse)
    have "scan_shards (scanTop add match) ss None = None"
    proof (induction ss)
      case (Cons s ss)
      then show ?case using step [of "sh_rows s"] by (cases "fst (scan_rows (scanTop add match) (sh_rows s) None)") simp_all
    qed simp
    then show ?thesis using s None by (simp add: none)
  next
    case (Some tn')
    have "scan_shards (scanTop add match) ss (Some tn') =
        fold (\<lambda>r acc. Option.bind acc (add r)) (filter P (concat (map (\<lambda>s. live_rows (sh_rows s)) ss))) (Some tn')"
      by (rule Cons.IH) (use Cons.prems in simp)
    then show ?thesis using s Some by simp
  qed
qed simp

end
