(* ===== verification/SelectLanes.thy ===== *)
theory SelectLanes
  imports SelectSpec
begin

text \<open>
  The access paths of a SELECT without an ordered walk: each one answers the rows that pass the WHERE.
\<close>

section \<open>The answer of a query\<close>

definition matchSet :: "table \<Rightarrow> plan \<Rightarrow> Value list \<Rightarrow> Row set" where
  "matchSet t pl args = {r. (\<exists>pk. tbl_abs t pk = Some r) \<and> passes (s_where (selOf pl)) (ctxOf pl args) r}"

text \<open>The matching rows, each once, in the order asked for, projected and cut.\<close>

definition selected :: "table \<Rightarrow> plan \<Rightarrow> Value list \<Rightarrow> Row list \<Rightarrow> bool" where
  "selected t pl args out \<longleftrightarrow> (\<exists>rs. distinct rs \<and> set rs = matchSet t pl args \<and> in_order pl rs \<and>
     out = sliceOffsetLimit (map (projOf pl) rs) (s_offset (selOf pl)) (s_limit (selOf pl)))"

lemma selectedI:
  "distinct rs \<Longrightarrow> set rs = matchSet t pl args \<Longrightarrow> in_order pl rs \<Longrightarrow>
     out = sliceOffsetLimit (map (projOf pl) rs) (s_offset (selOf pl)) (s_limit (selOf pl)) \<Longrightarrow> selected t pl args out"
  by (auto simp: selected_def)

text \<open>
  The kind of the cells of a column (a type byte of no declared type counts as BYTES), and the rows a
  table may hold: each cell is a NULL where the column allows it, or of the column's kind.
\<close>

fun kindOf :: "ColumnType \<Rightarrow> ValueKind" where
  "kindOf TypeInt = KindInt" | "kindOf TypeString = KindString" | "kindOf TypeBytes = KindBytes"
| "kindOf TypeUUID = KindUUID" | "kindOf TypeBool = KindBool" | "kindOf (TypeOther b) = KindBytes"

definition colKind :: "resolvedTable \<Rightarrow> nat \<Rightarrow> ValueKind" where
  "colKind rt i = kindOf (cType (columnAt rt i))"

definition valid_row :: "resolvedTable \<Rightarrow> Row \<Rightarrow> bool" where
  "valid_row rt r \<longleftrightarrow> row_ok (length (tColumns (rt_def rt))) r \<and>
     (\<forall>i < length (tColumns (rt_def rt)). if IsNull (r ! i) then cNullable (columnAt rt i) else Kind (r ! i) = colKind rt i)"

definition valid_rows :: "resolvedTable \<Rightarrow> table \<Rightarrow> bool" where
  "valid_rows rt t \<longleftrightarrow> (\<forall>pk r. tbl_abs t pk = Some r \<longrightarrow> valid_row rt r)"

lemma kindOf_nonnull [simp]: "kindOf ty \<noteq> KindNull"
  by (cases ty) simp_all

lemma colKind_nonnull [simp]: "colKind rt i \<noteq> KindNull"
  by (simp add: colKind_def)

lemma wf_length: "length p < 2 ^ 63 \<Longrightarrow> unat (word_of_nat (length p) :: uint64) = length p"
  by (simp add: unsigned_of_nat take_bit_nat_eq_self_iff)

lemma wf_equal:
  assumes "wf_Value a" and "wf_Value b"
  shows "Value_Equal a b \<longleftrightarrow> a = b"
proof
  assume e: "Value_Equal a b"
  show "a = b"
  proof (cases "Kind a")
    case KindString
    then show ?thesis using e assms
      by (cases a; cases b) (auto simp: Value_Equal_def wf_Value_def Value_Str_def wf_length split: option.splits)
  next
    case KindBytes
    then show ?thesis using e assms
      by (cases a; cases b) (auto simp: Value_Equal_def wf_Value_def Value_Bytes_def wf_length split: option.splits)
  qed (use e assms in \<open>cases a; cases b; auto simp: Value_Equal_def wf_Value_def\<close>)+
qed (simp add: Value_Equal_def split: ValueKind.split)

lemma wf_keyOf:
  assumes "wf_Value a" and "wf_Value b"
  shows "keyOf a = keyOf b \<longleftrightarrow> a = b"
proof
  assume e: "keyOf a = keyOf b"
  have k: "Kind v = kkind (keyOf v)" for v by (cases "Kind v") (auto simp: keyOf_def uuidWords_def)
  have "Kind a = Kind b" using e k [of a] k [of b] by simp
  moreover from this have "Value_Equal a b"
    using e assms by (cases "Kind a") (auto simp: keyOf_def Value_Equal_def uuidWords_def wf_Value_def Value_Bool_def Value_Int_def)
  ultimately show "a = b" using wf_equal [OF assms] by simp
qed simp

section \<open>Fixed inputs\<close>

text \<open>
  The values a plan pins columns to: for each pinned column, its source evaluates to a well-formed
  value of the column's kind.
\<close>

definition pinned :: "resolvedTable \<Rightarrow> Value list \<Rightarrow> nat \<times> expr \<Rightarrow> bool" where
  "pinned rt args p \<longleftrightarrow> fst p < length (tColumns (rt_def rt)) \<and>
     (\<exists>v. evalLitOrParamValue (snd p) args = Inr v \<and> wf_Value v \<and> Kind v = colKind rt (fst p))"

lemma pin_cell:
  assumes "pinned rt args p" and "valid_row rt r"
  shows "pin_holds args r p \<longleftrightarrow> evalLitOrParamValue (snd p) args = Inr (r ! fst p)"
proof -
  obtain v where v: "evalLitOrParamValue (snd p) args = Inr v" "wf_Value v" "fst p < length r"
    using assms by (auto simp: pinned_def valid_row_def row_ok_def)
  moreover have "wf_Value (r ! fst p)" using assms(2) v(3) by (simp add: valid_row_def row_ok_def)
  ultimately show ?thesis using wf_equal [of "r ! fst p" v] by (auto simp: pin_holds_def)
qed

text \<open>The kinds of the keys of the indexes of a table.\<close>

definition idxKinds :: "resolvedTable \<Rightarrow> ValueKind list" where
  "idxKinds rt = map (\<lambda>ri. case ri_ordinals ri of [o'] \<Rightarrow> colKind rt o' | _ \<Rightarrow> KindBytes) (rt_indexes rt)"

lemma row_key_single:
  assumes "si_ordinals si = [o']" and "valid_row rt r" and "o' < length (tColumns (rt_def rt))"
  shows "rowKey si r = (if IsNull (r ! o') then None else Some (keyOf (r ! o')))"
proof -
  have "cloneValue (r ! o') = r ! o'" using assms(2,3) by (simp add: valid_row_def row_ok_def)
  then show ?thesis by (simp add: rowKey_def keyFromCells_def projectClone_def assms(1) IsNull_def)
qed

lemma row_key_composite:
  assumes "length (si_ordinals si) \<noteq> 1" and "valid_row rt r" and "\<forall>o' \<in> set (si_ordinals si). o' < length (tColumns (rt_def rt))"
    and "\<not> anyNullable rt (si_ordinals si)"
  shows "rowKey si r = Some (encodeCompositeKey (map (\<lambda>o'. r ! o') (si_ordinals si)))"
proof -
  have "projectClone r (si_ordinals si) = map (\<lambda>o'. r ! o') (si_ordinals si)"
    using assms(2,3) by (simp add: projectClone_def valid_row_def row_ok_def)
  moreover have "\<forall>c \<in> set (map (\<lambda>o'. r ! o') (si_ordinals si)). Kind c \<noteq> KindNull"
    using assms(2-4) by (auto simp: valid_row_def anyNullable_def IsNull_def split: if_splits)
  ultimately show ?thesis using assms(1) by (simp add: rowKey_def keyFromCells_def encodeCompositeKey_def)
qed

section \<open>Ordered results\<close>

definition run_top :: "(Row \<Rightarrow> topN \<Rightarrow> topN option) \<Rightarrow> Row list \<Rightarrow> topN option \<Rightarrow> topN option" where
  "run_top add rs acc = fold (\<lambda>r acc. Option.bind acc (add r)) rs acc"

lemma run_top_None [simp]: "run_top add rs None = None"
  by (induction rs) (simp_all add: run_top_def)

lemma run_top_Cons [simp]: "run_top add (r # rs) (Some tn) = run_top add rs (add r tn)" "run_top add [] acc = acc"
  by (simp_all add: run_top_def)

lemma run_offer: "run_top top_offer rs (Some tn) = offer_all rs tn"
proof (induction rs arbitrary: tn)
  case (Cons r rs)
  then show ?case by (cases "top_offer r tn") simp_all
qed simp

lemma run_collect: "run_top top_collect rs (Some tn) = collect_all rs tn"
proof (induction rs arbitrary: tn)
  case (Cons r rs)
  show ?case
  proof (cases "tn_ord tn < length r")
    case True
    then have "top_collect r tn = Some (tn\<lparr>tn_h := tn_h tn @ [entryOf tn r]\<rparr>)"
      by (simp add: top_collect_def cellAt_def entryOf_def)
    then show ?thesis using Cons True by (simp add: collect_all_def entryOf_def)
  qed (simp add: top_collect_def cellAt_def collect_all_def)
qed (simp add: collect_all_def)

lemma visit_top:
  assumes inv: "table_inv seed t" and test: "\<And>pk r. pk \<in> set pks \<Longrightarrow> tbl_abs t pk = Some r \<Longrightarrow> p r = Some (P r)"
  shows "visit_all (\<lambda>pk tn. map_option (Pair False)
      (Option.bind (passingRow seed t pk (Some p)) (\<lambda>r. case r of None \<Rightarrow> Some tn | Some r \<Rightarrow> add r tn))) pks tn =
    map_option (Pair False) (run_top add (hits t P pks) (Some tn))"
  using test
proof (induction pks arbitrary: tn)
  case (Cons pk pks)
  have "passingRow seed t pk (Some p) = Some (hit t P pk)"
    by (rule passingRow_hit [OF inv], unfold testOf_def option.case, rule Cons.prems) simp_all
  moreover have "visit_all (\<lambda>pk tn. map_option (Pair False)
      (Option.bind (passingRow seed t pk (Some p)) (\<lambda>r. case r of None \<Rightarrow> Some tn | Some r \<Rightarrow> add r tn))) pks tn =
    map_option (Pair False) (run_top add (hits t P pks) (Some tn))" for tn
    by (rule Cons.IH) (use Cons.prems in auto)
  ultimately show ?case
    by (cases "hit t P pk"; cases "case hit t P pk of None \<Rightarrow> Some tn | Some r \<Rightarrow> add r tn") simp_all
qed simp

text \<open>The top rows of a result, cut: \<open>rs'\<close> are the offered rows \<open>rs\<close> in order.\<close>

definition topped :: "plan \<Rightarrow> (Row \<Rightarrow> topN \<Rightarrow> topN option) \<Rightarrow> int \<Rightarrow> Row list \<Rightarrow> Row list \<Rightarrow> bool" where
  "topped pl add cap rs rs' \<longleftrightarrow> (\<exists>tn. run_top add rs (Some (top_of pl cap)) = Some tn \<and>
     sliceOffsetLimit (top_sorted tn) (s_offset (selOf pl)) (s_limit (selOf pl)) =
       sliceOffsetLimit (map (projOf pl) rs') (s_offset (selOf pl)) (s_limit (selOf pl)))"

definition top_result :: "plan \<Rightarrow> Row list \<Rightarrow> Row list \<Rightarrow> bool" where
  "top_result pl rs rs' \<longleftrightarrow> mset rs' = mset rs \<and> in_order pl rs' \<and>
     (0 < s_limit (selOf pl) \<longrightarrow> topped pl top_offer (fetchBound (s_limit (selOf pl)) (s_offset (selOf pl))) rs rs') \<and>
     (s_limit (selOf pl) < 0 \<longrightarrow> topped pl top_collect 0 rs rs')"

lemma ordered_result:
  assumes rows: "\<forall>r \<in> set rs. row_ok n r \<and> Kind (r ! nat (pl_orderOrdinal pl)) = K" "K \<noteq> KindNull"
    and n: "\<forall>i \<in> set (pl_projOrdinals pl). i < n" "nat (pl_orderOrdinal pl) < n"
    and lim: "limit_fits (selOf pl)"
  shows "\<exists>rs'. top_result pl rs rs'"
proof (cases "s_limit (selOf pl) > 0")
  case True
  let ?cap = "fetchBound (s_limit (selOf pl)) (s_offset (selOf pl))"
  have cap: "0 < ?cap" using True fetchBound_fits [OF lim] lim by (simp add: limit_fits_def)
  obtain tn rs' where r: "offer_all rs (top_of pl ?cap) = Some tn" "mset rs' = mset rs" "in_order pl rs'"
      "top_sorted tn = map (projOf pl) (cut ?cap rs')" by (rule offered_best [OF rows n cap])
  have "map (projOf pl) (cut ?cap rs') = cut ?cap (map (projOf pl) rs')" by (simp add: cut_def take_map)
  then have "topped pl top_offer ?cap rs rs'" using r(1,4) slice_cut [OF lim] by (simp add: topped_def run_offer)
  then show ?thesis using True r(2,3) by (auto simp: top_result_def)
next
  case False
  obtain tn rs' where r: "collect_all rs (top_of pl 0) = Some tn" "mset rs' = mset rs" "in_order pl rs'"
    "top_sorted tn = map (projOf pl) rs'" by (rule collected_sorted [OF rows n])
  then have "topped pl top_collect 0 rs rs'" by (simp add: topped_def run_collect)
  then show ?thesis using False r(2,3) by (auto simp: top_result_def)
qed

section \<open>The scan\<close>

lemma same_rows:
  assumes "mset rs' = mset rs" and "distinct rs"
  shows "distinct rs'" and "set rs' = set rs"
  using assms mset_eq_setD mset_eq_imp_distinct_iff by blast+

lemma slice_none: "sliceOffsetLimit xs off 0 = []"
  by (simp add: sliceOffsetLimit_def Let_def)

text \<open>What the plan and the table agree on: the rows, the WHERE, the cut and the ORDER BY column.\<close>

definition ready :: "uint64 \<Rightarrow> table \<Rightarrow> plan \<Rightarrow> bool" where
  "ready seed t pl \<longleftrightarrow> table_inv seed t \<and> t_def t = pl_table pl \<and> wf_table (pl_table pl) \<and> valid_rows (pl_table pl) t \<and>
     bound (pl_table pl) (s_where (selOf pl)) \<and> limit_fits (selOf pl) \<and>
     \<not> cNullable (columnAt (pl_table pl) (nat (pkOrdinal (pl_table pl)))) \<and>
     (\<forall>i \<in> set (pl_projOrdinals pl). i < length (tColumns (rt_def (pl_table pl)))) \<and>
     (0 \<le> pl_orderOrdinal pl \<longrightarrow> nat (pl_orderOrdinal pl) < length (tColumns (rt_def (pl_table pl))) \<and>
        \<not> cNullable (columnAt (pl_table pl) (nat (pl_orderOrdinal pl))))"

lemma ready_row:
  assumes "ready seed t pl" and "tbl_abs t pk = Some r"
  shows "row_ok (length (tColumns (rt_def (pl_table pl)))) r" "valid_row (pl_table pl) r"
    "rowMatcher (s_where (selOf pl)) ctx r = Some (passes (s_where (selOf pl)) ctx r)"
    "cloneProj pl r = projOf pl r"
    "0 \<le> pl_orderOrdinal pl \<Longrightarrow> Kind (r ! nat (pl_orderOrdinal pl)) = colKind (pl_table pl) (nat (pl_orderOrdinal pl))"
proof -
  note d = assms(1) [unfolded ready_def]
  show v: "valid_row (pl_table pl) r" using d assms(2) by (simp add: valid_rows_def)
  then show r: "row_ok (length (tColumns (rt_def (pl_table pl)))) r" by (simp add: valid_row_def)
  show "rowMatcher (s_where (selOf pl)) ctx r = Some (passes (s_where (selOf pl)) ctx r)"
    by (rule matcher_total [OF _ _ r]) (use d in simp_all)
  show "cloneProj pl r = projOf pl r" by (rule clone_proj [OF r]) (use d in simp)
  show "Kind (r ! nat (pl_orderOrdinal pl)) = colKind (pl_table pl) (nat (pl_orderOrdinal pl))" if "0 \<le> pl_orderOrdinal pl"
    using v d that by (auto simp: valid_row_def split: if_splits)
qed

lemma ready_ordered:
  assumes "ready seed t pl" and rs: "\<forall>r \<in> set rs. \<exists>pk. tbl_abs t pk = Some r" and "0 \<le> pl_orderOrdinal pl"
  shows "\<exists>rs'. top_result pl rs rs'"
proof (rule ordered_result)
  show "\<forall>r \<in> set rs. row_ok (length (tColumns (rt_def (pl_table pl)))) r \<and> Kind (r ! nat (pl_orderOrdinal pl)) = colKind (pl_table pl) (nat (pl_orderOrdinal pl))"
    using rs ready_row [OF assms(1)] assms(3) by blast
qed (use assms(1,3) in \<open>simp_all add: ready_def\<close>)

lemma scan_selected:
  assumes ready: "ready seed t pl"
  shows "\<exists>out. scanSelect t pl (Some (rowMatcher (s_where (selOf pl)) (ctxOf pl args))) None = Some (Inr out) \<and> selected t pl args out"
proof -
  let ?P = "passes (s_where (selOf pl)) (ctxOf pl args)" and ?m = "Some (rowMatcher (s_where (selOf pl)) (ctxOf pl args))"
  let ?rs = "filter ?P (table_rows t)"
  note d = ready [unfolded ready_def]
  have rows: "\<exists>pk. tbl_abs t pk = Some r" if "r \<in> set (table_rows t)" for r using that d table_rows_set [of seed t] by auto
  have set: "set ?rs = matchSet t pl args" using d table_rows_set [of seed t] by (auto simp: matchSet_def)
  have dist: "distinct ?rs" using d table_rows_distinct [of seed t] by simp
  have test: "testOf ?m r = Some (?P r)" "cloneProj pl r = projOf pl r" if "r \<in> set (table_rows t)" for r
    using rows [OF that] ready_row(3,4) [OF ready] by (auto simp: testOf_def)
  show ?thesis
  proof (cases "s_limit (selOf pl) = 0")
    case True
    have "\<exists>rs'. mset rs' = mset ?rs \<and> in_order pl rs'"
    proof (cases "0 \<le> pl_orderOrdinal pl")
      case ord: True
      have "\<forall>r \<in> set ?rs. \<exists>pk. tbl_abs t pk = Some r" using rows by simp
      from ready_ordered [OF ready this ord] show ?thesis by (auto simp: top_result_def)
    qed (intro exI [of _ ?rs], simp add: in_order_def)
    then obtain rs' where rs': "mset rs' = mset ?rs" "in_order pl rs'" by blast
    have "selected t pl args []"
      by (rule selectedI [of rs']) (use rs' same_rows [OF rs'(1) dist] set True in \<open>simp_all add: slice_none\<close>)
    then show ?thesis using True by (simp add: scanSelect_def Let_def)
  next
    case lim: False
    show ?thesis
    proof (cases "pl_orderOrdinal pl < 0")
      case True
      have "fetchBound (s_limit (selOf pl)) (s_offset (selOf pl)) < 0 \<or> int (length ([] :: Row list)) < fetchBound (s_limit (selOf pl)) (s_offset (selOf pl))"
        using d lim fetchBound_fits [of "selOf pl"] by (auto simp: limit_fits_def)
      from scan_shards_cut [OF _ this, of "t_shards t" ?m ?P pl] test
      have "runScan ScanTable (scanRow pl ?m (fetchBound (s_limit (selOf pl)) (s_offset (selOf pl)))) t (Some []) =
          Some (cut (fetchBound (s_limit (selOf pl)) (s_offset (selOf pl))) (map (projOf pl) ?rs))"
        by (simp add: runScan_def scanAll_def table_rows_def)
      then have "scanSelect t pl ?m None = Some (Inr (sliceOffsetLimit (map (projOf pl) ?rs) (s_offset (selOf pl)) (s_limit (selOf pl))))"
        using True lim slice_cut [of "selOf pl"] d by (simp add: scanSelect_def Let_def)
      then show ?thesis using True set dist by (auto simp: in_order_def intro!: selectedI)
    next
      case False
      then have ord: "0 \<le> pl_orderOrdinal pl" by simp
      have scan: "runScan ScanTable (scanTop add ?m) t (Some tn) = run_top add ?rs (Some tn)" for add tn
        using scan_shards_top [of "t_shards t" ?m ?P add tn] test by (simp add: runScan_def scanAll_def table_rows_def run_top_def)
      have "\<forall>r \<in> set ?rs. \<exists>pk. tbl_abs t pk = Some r" using rows by simp
      then obtain rs' where r: "top_result pl ?rs rs'" using ready_ordered [OF ready _ ord] by blast
      note tr = r [unfolded top_result_def topped_def]
      have "scanSelect t pl ?m None = Some (Inr (sliceOffsetLimit (map (projOf pl) rs') (s_offset (selOf pl)) (s_limit (selOf pl))))"
      proof (cases "s_limit (selOf pl) > 0")
        case True
        then show ?thesis using ord tr scan by (auto simp: scanSelect_def Let_def top_of_def)
      next
        case False
        then show ?thesis using ord lim tr scan by (auto simp: scanSelect_def Let_def top_of_def)
      qed
      moreover have "selected t pl args (sliceOffsetLimit (map (projOf pl) rs') (s_offset (selOf pl)) (s_limit (selOf pl)))"
      by (rule selectedI [of rs']) (use tr same_rows [of rs' ?rs] dist set in simp_all)
    ultimately show ?thesis by blast
    qed
  qed
qed

section \<open>Candidates\<close>

text \<open>
  Candidates that contain every matching row answer the query; without an overlay and with an exact
  plan they must contain nothing else.
\<close>

definition complete_cand :: "table \<Rightarrow> plan \<Rightarrow> Value list \<Rightarrow> idxCandidateSet \<Rightarrow> bool" where
  "complete_cand t pl args cand \<longleftrightarrow> distinct (ic_pks cand) \<and>
     (\<forall>pk r. tbl_abs t pk = Some r \<longrightarrow> passes (s_where (selOf pl)) (ctxOf pl args) r \<longrightarrow> pk \<in> set (ic_pks cand) \<union> set (ic_dirty cand)) \<and>
     (pl_idxExact pl \<longrightarrow> ic_dirty cand = [] \<longrightarrow>
       (\<forall>pk \<in> set (ic_pks cand). \<forall>r. tbl_abs t pk = Some r \<longrightarrow> passes (s_where (selOf pl)) (ctxOf pl args) r))"

lemma candidates_selected:
  assumes ready: "ready seed t pl" and cand: "complete_cand t pl args cand" and lim: "s_limit (selOf pl) \<noteq> 0"
  shows "\<exists>out. execCandidates seed t pl (ctxOf pl args) cand = Some (Inr out) \<and> selected t pl args out"
proof -
  let ?P = "passes (s_where (selOf pl)) (ctxOf pl args)"
  let ?rs = "hits t ?P (visited cand)"
  note d = ready [unfolded ready_def] and c = cand [unfolded complete_cand_def]
  have inv: "table_inv seed t" "rows_ok (length (tColumns (rt_def (pl_table pl)))) (tbl_abs t)"
      "\<forall>i \<in> set (pl_projOrdinals pl). i < length (tColumns (rt_def (pl_table pl)))"
    using d by (auto simp: rows_ok_def valid_rows_def valid_row_def)
  have dist: "distinct ?rs" by (rule hits_distinct [OF inv(1) visited_distinct]) (use c in simp)
  have set: "set ?rs = matchSet t pl args" using c by (auto simp: set_hits matchSet_def visited_set)
  have test: "rowMatcher (s_where (selOf pl)) (ctxOf pl args) r = Some (?P r)" if "tbl_abs t pk = Some r" for pk r
    using ready_row(3) [OF ready that] .
  show ?thesis
  proof (cases "pl_orderOrdinal pl < 0")
    case True
    have "execCandidates seed t pl (ctxOf pl args) cand =
        Some (Inr (sliceOffsetLimit (map (projOf pl) ?rs) (s_offset (selOf pl)) (s_limit (selOf pl))))"
      by (rule exec_unordered [OF inv _ lim True test]) (use d c in auto)
    then show ?thesis using True set dist by (auto simp: in_order_def intro!: selectedI)
  next
    case False
    then have ord: "0 \<le> pl_orderOrdinal pl" by simp
    have visit: "emit (\<lambda>pk tn. map_option (Pair False) (Option.bind (passingRow seed t pk (Some (rowMatcher (s_where (selOf pl)) (ctxOf pl args))))
        (\<lambda>r. case r of None \<Rightarrow> Some tn | Some r \<Rightarrow> add r tn))) cand tn = run_top add ?rs (Some tn)" for add tn
      unfolding emit_visits by (subst visit_top [OF inv(1) test]) (simp_all add: option.map_comp comp_def option.map_ident)
    have "\<forall>r \<in> set ?rs. \<exists>pk. tbl_abs t pk = Some r" by (auto simp: set_hits)
    then obtain rs' where r: "top_result pl ?rs rs'" using ready_ordered [OF ready _ ord] by blast
    note tr = r [unfolded top_result_def topped_def]
    have "execCandidates seed t pl (ctxOf pl args) cand =
        Some (Inr (sliceOffsetLimit (map (projOf pl) rs') (s_offset (selOf pl)) (s_limit (selOf pl))))"
    proof (cases "s_limit (selOf pl) > 0")
      case True
      then show ?thesis using ord tr visit by (auto simp: execCandidates_def Let_def top_of_def offerLiveRow_def)
    next
      case False
      then show ?thesis using ord lim tr visit by (auto simp: execCandidates_def Let_def top_of_def collectLiveRow_def)
    qed
    moreover have "selected t pl args (sliceOffsetLimit (map (projOf pl) rs') (s_offset (selOf pl)) (s_limit (selOf pl)))"
      by (rule selectedI [of rs']) (use tr same_rows [of rs' ?rs] dist set in simp_all)
    ultimately show ?thesis by blast
  qed
qed

end
