(* ===== verification/SelectPaths.thy ===== *)
theory SelectPaths
  imports SelectLanes
begin

text \<open>
  The index and primary key paths of a SELECT: in every state the merge and the writes reach, they
  produce complete candidates.
\<close>

section \<open>Index reads of clean keys\<close>

text \<open>An index read answers a synced index that agrees with this one on the clean live keys.\<close>

lemma synced_index:
  assumes inv: "merge_inv seed Ks ph t" and k: "k < nIdx t"
  obtains si0 where "si_synced (Ks ! k) si0" "si_ordered si0 = si_ordered (t_indexes t ! k)"
    "\<And>key. si_lookup key (t_indexes t ! k) = si_lookup key si0"
    "si_ordered si0 \<Longrightarrow> si_sorted (t_indexes t ! k) = si_sorted si0"
    "\<And>pk r. tbl_abs t pk = Some r \<Longrightarrow> clean t pk \<Longrightarrow> map_of (si_rev si0) pk = rowKey (t_indexes t ! k) r"
proof -
  let ?si = "t_indexes t ! k"
  have io: "idx_ok (Ks ! k) (moved ph k) ?si" using inv k by (simp add: merge_inv_def idxs_ok_def)
  show thesis
  proof (cases "si_ordered ?si")
    case True
    with io obtain si0 where si0: "si_inv (Ks ! k) si0" "view_ok si0" "si_ordered si0" "si_sorted ?si = si_sorted si0"
        "\<And>pk. pk \<notin> set (moved ph k) \<Longrightarrow> map_of (si_rev ?si) pk = map_of (si_rev si0) pk" by (auto simp: idx_ok_def)
    show thesis
    proof (rule that [of si0])
      show "si_lookup key ?si = si_lookup key si0" for key by (rule lookup_sorted_only [OF True si0(3,4)])
      show "map_of (si_rev si0) pk = rowKey ?si r" if "tbl_abs t pk = Some r" "clean t pk" for pk r
        using clean_fresh [OF inv that k] si0(5) [of pk] by simp
    qed (use si0 True in \<open>simp_all add: si_synced_def\<close>)
  next
    case False
    have f: "map_of (si_rev ?si) pk = rowKey ?si r" if "tbl_abs t pk = Some r" "clean t pk" for pk r
      using clean_fresh(1) [OF inv that k] .
    show thesis by (rule that [of ?si]) (use io False f in \<open>simp_all add: si_synced_def idx_ok_def\<close>)
  qed
qed

lemma bucket_exact:
  assumes inv: "merge_inv seed Ks ph t" and k: "k < nIdx t" and key: "key_ok (Ks ! k) key"
  shows "distinct (si_lookup key (t_indexes t ! k))"
    and "tbl_abs t pk = Some r \<Longrightarrow> clean t pk \<Longrightarrow>
      pk \<in> set (si_lookup key (t_indexes t ! k)) \<longleftrightarrow> rowKey (t_indexes t ! k) r = Some key"
proof -
  obtain si0 where si0: "si_synced (Ks ! k) si0" "\<And>key. si_lookup key (t_indexes t ! k) = si_lookup key si0"
    "\<And>pk r. tbl_abs t pk = Some r \<Longrightarrow> clean t pk \<Longrightarrow> map_of (si_rev si0) pk = rowKey (t_indexes t ! k) r"
    by (rule synced_index [OF inv k]) blast
  show "distinct (si_lookup key (t_indexes t ! k))" using si_lookup_exact [OF si0(1) key] by (simp add: si0(2))
  show "pk \<in> set (si_lookup key (t_indexes t ! k)) \<longleftrightarrow> rowKey (t_indexes t ! k) r = Some key" if "tbl_abs t pk = Some r" "clean t pk"
    using si_lookup_exact [OF si0(1) key] si0(3) [OF that] by (simp add: si0(2))
qed

lemma prefix_exact:
  assumes inv: "merge_inv seed Ks ph t" and k: "k < nIdx t" and K: "Ks ! k = KindBytes" and o: "si_ordered (t_indexes t ! k)"
  shows "distinct (prefixLookup p (t_indexes t ! k))"
    and "tbl_abs t pk = Some r \<Longrightarrow> clean t pk \<Longrightarrow>
      pk \<in> set (prefixLookup p (t_indexes t ! k)) \<longleftrightarrow> (\<exists>key. rowKey (t_indexes t ! k) r = Some key \<and> prefix (ks p) (ks key))"
proof -
  obtain si0 where si0: "si_synced (Ks ! k) si0" "si_ordered si0 = si_ordered (t_indexes t ! k)"
    "si_ordered si0 \<Longrightarrow> si_sorted (t_indexes t ! k) = si_sorted si0"
    "\<And>pk r. tbl_abs t pk = Some r \<Longrightarrow> clean t pk \<Longrightarrow> map_of (si_rev si0) pk = rowKey (t_indexes t ! k) r"
    by (rule synced_index [OF inv k]) blast
  have s: "si_inv KindBytes si0" "view_ok si0" using si0(1,2) K o by (simp_all add: si_synced_def)
  have "prefixLookup p (t_indexes t ! k) = prefixLookup p si0" using si0(2,3) o by (simp add: prefixLookup_def)
  then have e: "prefixLookup p (t_indexes t ! k) = map oe_pk (filter (\<lambda>e. prefix (ks p) (ks (oe_key e))) (si_sorted si0))"
    by (simp add: prefixLookup_eq [OF s])
  show "distinct (prefixLookup p (t_indexes t ! k))" unfolding e by (rule view_pks(1) [OF s])
  show "pk \<in> set (prefixLookup p (t_indexes t ! k)) \<longleftrightarrow> (\<exists>key. rowKey (t_indexes t ! k) r = Some key \<and> prefix (ks p) (ks key))"
    if "tbl_abs t pk = Some r" "clean t pk"
    unfolding e view_pks(2) [OF s] using si0(4) [OF that] by simp
qed

section \<open>Equality candidates\<close>

text \<open>The table, its indexes and the merge as the plan sees them.\<close>

definition indexed :: "uint64 \<Rightarrow> mphase \<Rightarrow> table \<Rightarrow> plan \<Rightarrow> bool" where
  "indexed seed ph t pl \<longleftrightarrow> merge_inv seed (idxKinds (pl_table pl)) ph t \<and>
     map si_ordinals (t_indexes t) = map ri_ordinals (rt_indexes (pl_table pl)) \<and>
     map si_ordered (t_indexes t) = map ri_ordered (rt_indexes (pl_table pl))"

lemma indexed_nth:
  assumes "indexed seed ph t pl" and "k < nIdx t"
  shows "si_ordinals (t_indexes t ! k) = ri_ordinals (rt_indexes (pl_table pl) ! k)" "si_ordered (t_indexes t ! k) = ri_ordered (rt_indexes (pl_table pl) ! k)"
    "k < length (rt_indexes (pl_table pl))"
    "idxKinds (pl_table pl) ! k = (case si_ordinals (t_indexes t ! k) of [o'] \<Rightarrow> colKind (pl_table pl) o' | _ \<Rightarrow> KindBytes)"
proof -
  have m: "map si_ordinals (t_indexes t) = map ri_ordinals (rt_indexes (pl_table pl))" "map si_ordered (t_indexes t) = map ri_ordered (rt_indexes (pl_table pl))"
    using assms(1) by (simp_all add: indexed_def)
  show k: "k < length (rt_indexes (pl_table pl))" using assms(2) arg_cong [OF m(1), of length] by (simp add: nIdx_def)
  show o: "si_ordinals (t_indexes t ! k) = ri_ordinals (rt_indexes (pl_table pl) ! k)"
    using arg_cong [OF m(1), of "\<lambda>xs. xs ! k"] assms(2) k by (simp add: nIdx_def)
  show "si_ordered (t_indexes t ! k) = ri_ordered (rt_indexes (pl_table pl) ! k)"
    using arg_cong [OF m(2), of "\<lambda>xs. xs ! k"] assms(2) k by (simp add: nIdx_def)
  show "idxKinds (pl_table pl) ! k = (case si_ordinals (t_indexes t ! k) of [o'] \<Rightarrow> colKind (pl_table pl) o' | _ \<Rightarrow> KindBytes)"
    using k by (simp add: idxKinds_def o)
qed

lemma indexFor_found:
  assumes "indexed seed ph t pl" and "\<exists>ri \<in> set (rt_indexes (pl_table pl)). ri_ordinals ri = [o']"
  obtains k where "k < nIdx t" "indexFor o' (t_indexes t) = Some (t_indexes t ! k)" "si_ordinals (t_indexes t ! k) = [o']"
proof -
  have "[o'] \<in> set (map si_ordinals (t_indexes t))" using assms by (force simp: indexed_def)
  then obtain s where s: "s \<in> set (t_indexes t)" "si_ordinals s = [o']" by auto
  then have "indexFor o' (t_indexes t) \<noteq> None" by (auto simp: indexFor_def find_None_iff intro!: exI [of _ s])
  then obtain si where f: "indexFor o' (t_indexes t) = Some si" by blast
  then have "si \<in> set (t_indexes t)" "length (si_ordinals si) = 1 \<and> si_ordinals si ! 0 = o'"
    by (auto simp: indexFor_def dest: find_SomeD)
  moreover from this(2) have "si_ordinals si = [o']" by (cases "si_ordinals si") auto
  ultimately show thesis using f that by (metis in_set_conv_nth nIdx_def)
qed

text \<open>One pinned column: its bucket holds the clean live keys whose cell is the pinned value.\<close>

lemma pin_bucket:
  assumes ix: "indexed seed ph t pl" and rows: "valid_rows (pl_table pl) t" and p: "pinned (pl_table pl) args (o', src)"
    and k: "k < nIdx t" "si_ordinals (t_indexes t ! k) = [o']"
  obtains v where "evalLitOrParamValue src args = Inr v" "\<not> IsNull v" "distinct (si_lookup (keyOf v) (t_indexes t ! k))"
    "key_ok (idxKinds (pl_table pl) ! k) (keyOf v)"
    "\<And>pk r. tbl_abs t pk = Some r \<Longrightarrow> clean t pk \<Longrightarrow>
       pk \<in> set (si_lookup (keyOf v) (t_indexes t ! k)) \<longleftrightarrow> pin_holds args r (o', src)"
proof -
  obtain v where v: "evalLitOrParamValue src args = Inr v" "wf_Value v" "Kind v = colKind (pl_table pl) o'" "o' < length (tColumns (rt_def (pl_table pl)))"
    using p by (auto simp: pinned_def)
  have inv: "merge_inv seed (idxKinds (pl_table pl)) ph t" using ix by (simp add: indexed_def)
  have nn: "\<not> IsNull v" using v(3) by (simp add: IsNull_def)
  have key: "key_ok (idxKinds (pl_table pl) ! k) (keyOf v)"
    using key_ok_keyOf [of v] v(3) indexed_nth(4) [OF ix k(1)] k(2) by simp
  note b = bucket_exact [OF inv k(1) key]
  show thesis
  proof (rule that [OF v(1) nn b(1) key])
    fix pk r assume r: "tbl_abs t pk = Some r" "clean t pk"
    have vr: "valid_row (pl_table pl) r" using rows r(1) by (simp add: valid_rows_def)
    then have w: "wf_Value (r ! o')" using v(4) by (simp add: valid_row_def row_ok_def)
    have "rowKey (t_indexes t ! k) r = (if IsNull (r ! o') then None else Some (keyOf (r ! o')))"
      by (rule row_key_single [OF k(2) vr v(4)])
    then show "pk \<in> set (si_lookup (keyOf v) (t_indexes t ! k)) \<longleftrightarrow> pin_holds args r (o', src)"
      using b(2) [OF r] pin_cell [OF p vr] wf_keyOf [OF w v(2)] v(1) nn by auto
  qed
qed

lemma intersectPKs_distinct: "distinct a \<Longrightarrow> distinct b \<Longrightarrow> distinct (intersectPKs a b)"
  by (simp add: intersectPKs_def Let_def)

lemma idx_buckets_exact:
  assumes ix: "indexed seed ph t pl" and rows: "valid_rows (pl_table pl) t" and args: "ec_args ctx = args"
    and "length srcs = length ords" and "\<forall>p \<in> set (zip ords srcs). pinned (pl_table pl) args p \<and> isLitOrParam (snd p)"
    and "\<forall>o' \<in> set ords. \<exists>ri \<in> set (rt_indexes (pl_table pl)). ri_ordinals ri = [o']"
    and "distinct pks" and "first \<longrightarrow> ords \<noteq> []"
  shows "\<exists>out. idx_buckets t ctx first pks ords srcs = Some (Inr (Some out)) \<and> distinct out \<and>
    (\<forall>pk r. tbl_abs t pk = Some r \<longrightarrow> clean t pk \<longrightarrow>
      (pk \<in> set out \<longleftrightarrow> (first \<or> pk \<in> set pks) \<and> (\<forall>p \<in> set (zip ords srcs). pin_holds args r p)))"
  using assms(4-)
proof (induction ords arbitrary: srcs pks first)
  case (Cons o' ords)
  then obtain src srcs' where srcs: "srcs = src # srcs'" by (cases srcs) auto
  have p: "pinned (pl_table pl) args (o', src)" "isLitOrParam src" using Cons.prems(2) by (simp_all add: srcs)
  obtain k where k: "k < nIdx t" "indexFor o' (t_indexes t) = Some (t_indexes t ! k)" "si_ordinals (t_indexes t ! k) = [o']"
    using indexFor_found [OF ix] Cons.prems(3) by (metis list.set_intros(1))
  obtain v where v: "evalLitOrParamValue src args = Inr v" "\<not> IsNull v" "distinct (si_lookup (keyOf v) (t_indexes t ! k))"
    "\<And>pk r. tbl_abs t pk = Some r \<Longrightarrow> clean t pk \<Longrightarrow>
       pk \<in> set (si_lookup (keyOf v) (t_indexes t ! k)) \<longleftrightarrow> pin_holds args r (o', src)"
    by (rule pin_bucket [OF ix rows p(1) k(1,3)]) blast
  define b where "b = (if first then si_lookup (keyOf v) (t_indexes t ! k) else intersectPKs pks (si_lookup (keyOf v) (t_indexes t ! k)))"
  have db: "distinct b" using v(3) Cons.prems(4) by (simp add: b_def intersectPKs_distinct)
  have mb: "pk \<in> set b \<longleftrightarrow> (first \<or> pk \<in> set pks) \<and> pin_holds args r (o', src)" if "tbl_abs t pk = Some r" "clean t pk" for pk r
    using v(4) [OF that] by (auto simp: b_def intersectPKs_set)
  have run: "idx_buckets t ctx first pks (o' # ords) srcs = (if b = [] then Some (Inr (Some [])) else idx_buckets t ctx False b ords srcs')"
    using v(1,2) k(2) eval_src [OF p(2), of ctx] args by (simp add: srcs b_def Let_def)
  show ?case
  proof (cases "b = []")
    case True
    show ?thesis unfolding run if_P [OF True] by (intro exI [of _ "[]"]) (use mb True in \<open>auto simp: srcs\<close>)
  next
    case False
    have "\<exists>out. idx_buckets t ctx False b ords srcs' = Some (Inr (Some out)) \<and> distinct out \<and>
      (\<forall>pk r. tbl_abs t pk = Some r \<longrightarrow> clean t pk \<longrightarrow>
        (pk \<in> set out \<longleftrightarrow> (False \<or> pk \<in> set b) \<and> (\<forall>p \<in> set (zip ords srcs'). pin_holds args r p)))"
      by (rule Cons.IH) (use Cons.prems db in \<open>simp_all add: srcs\<close>)
    then show ?thesis unfolding run if_not_P [OF False] by (elim ex_forward) (use mb in \<open>auto simp: srcs\<close>)
  qed
qed auto


text \<open>What the plan says of its index paths, over the rows of the table.\<close>

definition pinsOf :: "plan \<Rightarrow> (nat \<times> expr) list" where
  "pinsOf pl =
     (if pl_pkLookup pl then [(nat (pkOrdinal (pl_table pl)), pl_pkSource pl)] else []) @
     (if pl_pkProbe pl \<noteq> NilExpr then [(nat (pkOrdinal (pl_table pl)), pl_pkProbe pl)] else []) @
     (if pl_idxLookup pl then zip (pl_idxCols pl) (pl_idxSrcs pl) else []) @
     (if pl_compLookup pl \<or> pl_compWalk pl then zip (pl_compOrdinals pl) (pl_compPrefixSrcs pl) else [])"

definition args_pinned :: "plan \<Rightarrow> Value list \<Rightarrow> bool" where
  "args_pinned pl args \<longleftrightarrow> (\<forall>p \<in> set (pinsOf pl). pinned (pl_table pl) args p)"

definition planned :: "plan \<Rightarrow> bool" where
  "planned pl \<longleftrightarrow> paths_sound pl (s_where (selOf pl)) \<and> paths_shaped pl"

lemma overlay:
  assumes "indexed seed ph t pl"
  obtains ds where "dirtyPKs seed t = Some ds" "\<And>pk r. tbl_abs t pk = Some r \<Longrightarrow> pk \<in> set ds \<longleftrightarrow> \<not> clean t pk"
proof -
  have "merge_inv seed (idxKinds (pl_table pl)) ph t" using assms by (simp add: indexed_def)
  then obtain ds where "dirtyPKs seed t = Some ds" "set ds = {pk. tbl_abs t pk \<noteq> None \<and> pk \<in> set (dirtyR t (shardIdxOf t pk))}"
    using dirtyPKs_set [of seed t] by (auto simp: merge_inv_def)
  then show thesis by (intro that) auto
qed

lemma idx_pins:
  assumes "planned pl" and "args_pinned pl args" and "pl_idxLookup pl"
  shows "length (pl_idxSrcs pl) = length (pl_idxCols pl)" "pl_idxCols pl \<noteq> []"
    "\<forall>p \<in> set (zip (pl_idxCols pl) (pl_idxSrcs pl)). pinned (pl_table pl) args p \<and> isLitOrParam (snd p)"
    "\<forall>o' \<in> set (pl_idxCols pl). \<exists>ri \<in> set (rt_indexes (pl_table pl)). ri_ordinals ri = [o']"
    "passes (s_where (selOf pl)) (ctxOf pl args) r \<Longrightarrow> \<forall>p \<in> set (zip (pl_idxCols pl) (pl_idxSrcs pl)). pin_holds args r p"
    "pl_idxExact pl \<Longrightarrow> \<forall>p \<in> set (zip (pl_idxCols pl) (pl_idxSrcs pl)). pin_holds args r p \<Longrightarrow> passes (s_where (selOf pl)) (ctxOf pl args) r"
proof -
  note sh = assms(1) [unfolded planned_def paths_shaped_def]
  have snd: "paths_sound pl (s_where (selOf pl))" using assms(1) by (simp add: planned_def)
  have a: "ec_args (ctxOf pl args) = args" by (simp add: ctxOf_def)
  show "length (pl_idxSrcs pl) = length (pl_idxCols pl)" "pl_idxCols pl \<noteq> []"
    "\<forall>o' \<in> set (pl_idxCols pl). \<exists>ri \<in> set (rt_indexes (pl_table pl)). ri_ordinals ri = [o']" using sh assms(3) by blast+
  have "\<forall>e \<in> set (pl_idxSrcs pl). isLitOrParam e" using sh assms(3) by blast
  then show "\<forall>p \<in> set (zip (pl_idxCols pl) (pl_idxSrcs pl)). pinned (pl_table pl) args p \<and> isLitOrParam (snd p)"
    using assms(2,3) by (auto simp: args_pinned_def pinsOf_def dest: set_zip_rightD)
  show "\<forall>p \<in> set (zip (pl_idxCols pl) (pl_idxSrcs pl)). pin_holds args r p" if "passes (s_where (selOf pl)) (ctxOf pl args) r"
    using snd [unfolded paths_sound_def Let_def, rule_format, of "ctxOf pl args" r] assms(3) that unfolding a by blast
  show "passes (s_where (selOf pl)) (ctxOf pl args) r" if "pl_idxExact pl" "\<forall>p \<in> set (zip (pl_idxCols pl) (pl_idxSrcs pl)). pin_holds args r p"
    using snd [unfolded paths_sound_def Let_def, rule_format, of "ctxOf pl args" r] assms(3) that unfolding a by blast
qed

text \<open>The result of the candidate search: complete candidates, or no row at all.\<close>

definition candidate_answer :: "table \<Rightarrow> plan \<Rightarrow> Value list \<Rightarrow> idxCandidateSet option res option \<Rightarrow> bool" where
  "candidate_answer t pl args res \<longleftrightarrow>
     (\<exists>cand. res = Some (Inr (Some cand)) \<and> complete_cand t pl args cand) \<or> (res = Some (Inr None) \<and> matchSet t pl args = {})"

lemma idxCandidates_complete:
  assumes ready: "ready seed t pl" and ix: "indexed seed ph t pl" and pl: "planned pl" "args_pinned pl args" "pl_idxLookup pl"
  shows "candidate_answer t pl args (idxCandidates seed t t pl (ctxOf pl args))"
proof -
  have rows: "valid_rows (pl_table pl) t" using ready by (simp add: ready_def)
  have a: "ec_args (ctxOf pl args) = args" by (simp add: ctxOf_def)
  note ip = idx_pins [OF pl]
  obtain out where out: "idx_buckets t (ctxOf pl args) True [] (pl_idxCols pl) (pl_idxSrcs pl) = Some (Inr (Some out))" "distinct out"
    "\<And>pk r. tbl_abs t pk = Some r \<Longrightarrow> clean t pk \<Longrightarrow>
      pk \<in> set out \<longleftrightarrow> (\<forall>p \<in> set (zip (pl_idxCols pl) (pl_idxSrcs pl)). pin_holds args r p)"
    using idx_buckets_exact [OF ix rows a ip(1,3,4), of "[]" True] ip(2) by auto
  obtain ds where ds: "dirtyPKs seed t = Some ds" "\<And>pk r. tbl_abs t pk = Some r \<Longrightarrow> pk \<in> set ds \<longleftrightarrow> \<not> clean t pk"
    by (rule overlay [OF ix]) blast
  have cov: "pk \<in> set out \<union> set ds" if "tbl_abs t pk = Some r" "passes (s_where (selOf pl)) (ctxOf pl args) r" for pk r
    using out(3) [OF that(1)] ds(2) [OF that(1)] ip(5) [OF that(2)] by auto
  have ex: "passes (s_where (selOf pl)) (ctxOf pl args) r"
    if "pl_idxExact pl" "ds = []" "pk \<in> set out" "tbl_abs t pk = Some r" for pk r
    using ip(6) [OF that(1)] out(3) [OF that(4)] ds(2) [OF that(4)] that(2,3) by auto
  show ?thesis
  proof (cases "out = [] \<and> ds = []")
    case True
    then have "matchSet t pl args = {}" using cov by (auto simp: matchSet_def)
    then show ?thesis using True by (simp add: candidate_answer_def idxCandidates_def out(1) ds(1))
  next
    case False
    then have "idxCandidates seed t t pl (ctxOf pl args) = Some (Inr (Some \<lparr>ic_pks = out, ic_dirty = ds\<rparr>))"
      by (auto simp: idxCandidates_def out(1) ds(1))
    moreover have "complete_cand t pl args \<lparr>ic_pks = out, ic_dirty = ds\<rparr>"
      using cov ex out(2) by (auto simp: complete_cand_def)
    ultimately show ?thesis by (simp add: candidate_answer_def)
  qed
qed

lemma selected_empty: "matchSet t pl args = {} \<Longrightarrow> selected t pl args []"
  by (intro selectedI [of "[]"]) (simp_all add: in_order_def sliceOffsetLimit_def)

lemma candidates_answered:
  assumes ready: "ready seed t pl" and c: "candidate_answer t pl args res" and lim: "s_limit (selOf pl) \<noteq> 0"
  shows "\<exists>out. andThenP res (\<lambda>cand. case cand of None \<Rightarrow> Some (Inr []) | Some cand \<Rightarrow> execCandidates seed t pl (ctxOf pl args) cand) =
    Some (Inr out) \<and> selected t pl args out"
  using c candidates_selected [OF ready _ lim] selected_empty by (auto simp: candidate_answer_def)

text \<open>\<open>LIMIT 0\<close> on any path.\<close>

lemma match_rows:
  assumes "table_inv seed t"
  obtains rs where "distinct rs" "set rs = matchSet t pl args"
proof (rule that [of "filter (passes (s_where (selOf pl)) (ctxOf pl args)) (table_rows t)"])
  show "distinct (filter (passes (s_where (selOf pl)) (ctxOf pl args)) (table_rows t))" using table_rows_distinct [OF assms] by simp
  show "set (filter (passes (s_where (selOf pl)) (ctxOf pl args)) (table_rows t)) = matchSet t pl args"
    using table_rows_set [OF assms] by (auto simp: matchSet_def)
qed

lemma limit_zero:
  assumes ready: "ready seed t pl" and "s_limit (selOf pl) = 0"
  shows "selected t pl args []"
proof -
  obtain out where "scanSelect t pl (Some (rowMatcher (s_where (selOf pl)) (ctxOf pl args))) None = Some (Inr out)" "selected t pl args out"
    using scan_selected [OF ready] by blast
  moreover have "scanSelect t pl (Some (rowMatcher (s_where (selOf pl)) (ctxOf pl args))) None = Some (Inr [])"
    using assms(2) by (simp add: scanSelect_def Let_def)
  ultimately show ?thesis by simp
qed

text \<open>The answer of at most one row, addressed by its key.\<close>

lemma one_selected:
  assumes iff: "\<And>q r. tbl_abs t q = Some r \<Longrightarrow> passes (s_where (selOf pl)) (ctxOf pl args) r \<longleftrightarrow> q = pk"
    and "s_limit (selOf pl) \<noteq> 0" and "0 \<le> s_offset (selOf pl)"
  shows "selected t pl args (if 0 < s_offset (selOf pl) then [] else case tbl_abs t pk of None \<Rightarrow> [] | Some r \<Rightarrow> [projOf pl r])"
proof (cases "tbl_abs t pk")
  case None
  then have "matchSet t pl args = {}" using iff by (force simp: matchSet_def)
  then show ?thesis using None selected_empty by simp
next
  case (Some r)
  have "matchSet t pl args = {r}"
  proof (intro equalityI subsetI)
    fix x assume "x \<in> matchSet t pl args"
    then obtain q where q: "tbl_abs t q = Some x" "passes (s_where (selOf pl)) (ctxOf pl args) x" by (auto simp: matchSet_def)
    then have "q = pk" using iff by blast
    then show "x \<in> {r}" using q Some by simp
  next
    fix x assume "x \<in> {r}"
    then show "x \<in> matchSet t pl args" using Some iff [OF Some] by (auto simp: matchSet_def)
  qed
  then show ?thesis using Some assms(2,3) by (intro selectedI [of "[r]"]) (auto simp: in_order_def sliceOffsetLimit_def Let_def)
qed

lemma get_projected:
  assumes ready: "ready seed t pl"
  shows "(if s_starAll (selOf pl) then getByPK seed t pk else getByPKProject seed t pk (pl_projOrdinals pl)) = Some (map_option (projOf pl) (tbl_abs t pk))"
proof -
  note d = ready [unfolded ready_def]
  have inv: "table_inv seed t" and np: "t_pkDir t = None" using d by (simp_all add: table_inv_def)
  have c: "cloneProj pl r = projOf pl r" if "tbl_abs t pk = Some r" for r using ready_row(4) [OF ready that] .
  have p: "getByPKProject seed t pk ords = Some (map_option (\<lambda>r. projectClone r ords) (tbl_abs t pk))" for ords
    using inv by (cases rule: rowAt_cases [of seed t pk]) (simp_all add: getByPKProject_def np)
  show ?thesis using c by (cases "tbl_abs t pk")
    (auto simp: getByPK_abs [OF inv] p cloneProj_def appendRowClone_def appendProjectClone_def Row_Clone_def projectClone_def)
qed

lemma idx_selected:
  assumes ready: "ready seed t pl" and ix: "indexed seed ph t pl" and pl: "planned pl" "args_pinned pl args" "pl_idxLookup pl"
  shows "\<exists>out. execSelectIdx seed t pl args = Some (Inr out) \<and> selected t pl args out"
proof (cases "s_limit (selOf pl) = 0")
  case True
  then show ?thesis using limit_zero [OF ready] by (simp add: execSelectIdx_def)
next
  case lim: False
  have gen: "\<exists>out. execGeneralIdx seed t pl args = Some (Inr out) \<and> selected t pl args out"
    using candidates_answered [OF ready idxCandidates_complete [OF ready ix pl] lim] by (simp add: execGeneralIdx_def Let_def)
  note ip = idx_pins [OF pl]
  show ?thesis
  proof (cases "pl_idxExact pl \<and> pl_orderOrdinal pl < 0 \<and> length (pl_idxCols pl) = 1 \<and> t_readDirtyCount t = 0")
    case True
    obtain o' src where os: "pl_idxCols pl = [o']" "pl_idxSrcs pl = [src]"
      using True ip(1) by (metis One_nat_def length_0_conv length_Suc_conv)
    have p: "pinned (pl_table pl) args (o', src)" using ip(3) by (simp add: os)
    obtain k where k: "k < nIdx t" "indexFor o' (t_indexes t) = Some (t_indexes t ! k)" "si_ordinals (t_indexes t ! k) = [o']"
      using indexFor_found [OF ix] ip(4) by (auto simp: os)
    have rows: "valid_rows (pl_table pl) t" using ready by (simp add: ready_def)
    obtain v where v: "evalLitOrParamValue src args = Inr v" "\<not> IsNull v" "distinct (si_lookup (keyOf v) (t_indexes t ! k))"
      "\<And>pk r. tbl_abs t pk = Some r \<Longrightarrow> clean t pk \<Longrightarrow>
         pk \<in> set (si_lookup (keyOf v) (t_indexes t ! k)) \<longleftrightarrow> pin_holds args r (o', src)"
      by (rule pin_bucket [OF ix rows p k(1,3)]) blast
    let ?b = "si_lookup (keyOf v) (t_indexes t ! k)"
    obtain ds where ds: "dirtyPKs seed t = Some ds" "\<And>pk r. tbl_abs t pk = Some r \<Longrightarrow> pk \<in> set ds \<longleftrightarrow> \<not> clean t pk"
      by (rule overlay [OF ix]) blast
    have "ds = []" using True ds(1) by (simp add: dirtyPKs_def)
    then have cl: "clean t pk" if "tbl_abs t pk = Some r" for pk r using ds(2) [OF that] by simp
    have b: "pk \<in> set ?b \<longleftrightarrow> passes (s_where (selOf pl)) (ctxOf pl args) r" if "tbl_abs t pk = Some r" for pk r
    proof -
      have "passes (s_where (selOf pl)) (ctxOf pl args) r \<longleftrightarrow> (\<forall>p \<in> set (zip (pl_idxCols pl) (pl_idxSrcs pl)). pin_holds args r p)"
        using ip(5) [of r] ip(6) [of r] True by blast
      also have "\<dots> \<longleftrightarrow> pin_holds args r (o', src)" by (simp add: os)
      finally show ?thesis using v(4) [OF that cl [OF that]] by blast
    qed
    have run: "execSelectIdx seed t pl args = (let (pk, found, one) = lookupOne (keyOf v) (t_indexes t ! k) in
        if \<not> found then Some (Inr [])
        else if one then
          (if s_offset (selOf pl) > 0 then Some (Inr [])
           else Some (Inr (case tbl_abs t pk of None \<Rightarrow> [] | Some r \<Rightarrow> [projOf pl r])))
        else execGeneralIdx seed t pl args)"
      using lim True v(1,2) k(2) get_projected [OF ready]
      by (auto simp: execSelectIdx_def os Let_def split: prod.split option.split if_splits)
    show ?thesis
    proof (cases ?b)
      case Nil
      then have "matchSet t pl args = {}" using b by (auto simp: matchSet_def)
      then show ?thesis using Nil selected_empty by (simp add: run lookupOne_eq)
    next
      case (Cons pk pks)
      show ?thesis
      proof (cases pks)
        case Nil
        have off: "0 \<le> s_offset (selOf pl)" using ready by (simp add: ready_def limit_fits_def)
        have one: "lookupOne (keyOf v) (t_indexes t ! k) = (pk, True, True)" using Cons Nil by (simp add: lookupOne_eq)
        have "passes (s_where (selOf pl)) (ctxOf pl args) r \<longleftrightarrow> q = pk" if "tbl_abs t q = Some r" for q r
          using b [OF that] Cons Nil by simp
        from one_selected [OF this lim off] show ?thesis by (auto simp: run one)
      qed (use Cons gen in \<open>simp add: run lookupOne_eq\<close>)
    qed
  next
    case False
    then show ?thesis using gen lim by (auto simp: execSelectIdx_def Let_def)
  qed
qed


section \<open>Composite candidates\<close>

lemma indexByOrdinals_found:
  assumes "indexed seed ph t pl" and "ri \<in> set (rt_indexes (pl_table pl))" and "wf_table (pl_table pl)"
  obtains k where "k < nIdx t" "indexByOrdinals (ri_ordinals ri) (t_indexes t) = Some (t_indexes t ! k)"
    "si_ordinals (t_indexes t ! k) = ri_ordinals ri" "si_ordered (t_indexes t ! k) = ri_ordered ri"
proof -
  have eq: "length (si_ordinals si) = length os \<and> (\<forall>i \<in> {0..<length os}. si_ordinals si ! i = os ! i) \<longleftrightarrow> si_ordinals si = os" for si os
    by (metis atLeast0LessThan lessThan_iff nth_equalityI)
  have "ri_ordinals ri \<in> set (map si_ordinals (t_indexes t))" using assms(1,2) by (simp add: indexed_def)
  then obtain s where s: "s \<in> set (t_indexes t)" "si_ordinals s = ri_ordinals ri" by auto
  then have "indexByOrdinals (ri_ordinals ri) (t_indexes t) \<noteq> None"
    unfolding indexByOrdinals_def eq find_None_iff by blast
  then obtain si where f: "indexByOrdinals (ri_ordinals ri) (t_indexes t) = Some si" by blast
  then have si: "si \<in> set (t_indexes t)" "si_ordinals si = ri_ordinals ri"
    unfolding indexByOrdinals_def eq using find_SomeD by fastforce+
  then obtain k where k: "k < nIdx t" "si = t_indexes t ! k" by (metis in_set_conv_nth nIdx_def)
  note n = indexed_nth [OF assms(1) k(1)]
  have "distinct (map ri_ordinals (rt_indexes (pl_table pl)))" using assms(3) by (simp add: wf_table_def Let_def)
  moreover have "rt_indexes (pl_table pl) ! k \<in> set (rt_indexes (pl_table pl))" using n(3) by simp
  ultimately have "rt_indexes (pl_table pl) ! k = ri" using n(1) si(2) k(2) assms(2) by (metis distinct_map inj_onD)
  then show thesis using that [OF k(1)] f si(2) n(2) k(2) by simp
qed

lemma prefix_values_pinned:
  assumes "\<forall>e \<in> set srcs. isLitOrParam e" and "\<forall>p \<in> set (zip os srcs). pinned rt args p" and "length srcs \<le> length os" and "ec_args ctx = args"
  obtains vs where "prefix_values ctx srcs = Some (Inr (Some vs))" "length vs = length srcs"
    "\<And>i. i < length srcs \<Longrightarrow> evalLitOrParamValue (srcs ! i) args = Inr (vs ! i) \<and> wf_Value (vs ! i) \<and> Kind (vs ! i) = colKind rt (os ! i)"
  using assms(1-3)
proof (induction srcs arbitrary: os thesis)
  case (Cons src srcs)
  have "os \<noteq> []" using Cons.prems(4) by auto
  then obtain o' os' where os: "os = o' # os'" by (cases os) simp_all
  obtain v where v: "evalLitOrParamValue src args = Inr v" "wf_Value v" "Kind v = colKind rt o'"
    using Cons.prems(3) by (auto simp: os pinned_def)
  obtain vs where vs: "prefix_values ctx srcs = Some (Inr (Some vs))" "length vs = length srcs"
    "\<And>i. i < length srcs \<Longrightarrow> evalLitOrParamValue (srcs ! i) args = Inr (vs ! i) \<and> wf_Value (vs ! i) \<and> Kind (vs ! i) = colKind rt (os' ! i)"
    by (rule Cons.IH [of os']) (use Cons.prems in \<open>simp_all add: os\<close>)
  have "\<not> IsNull v" using v(3) by (simp add: IsNull_def)
  moreover have "isLitOrParam src" using Cons.prems(2) by simp
  ultimately have "prefix_values ctx (src # srcs) = Some (Inr (Some (v # vs)))"
    using v(1) vs(1) eval_src [of src ctx] assms(4) by simp
  then show ?case
    by (rule Cons.prems(1)) (use v vs in \<open>auto simp: os nth_Cons split: nat.split\<close>)
qed simp

text \<open>The rows whose composite key starts with the encoded values are those whose cells are the values.\<close>

lemma prefix_cells:
  assumes r: "valid_row rt r" and n: "\<forall>o' \<in> set os. o' < length (tColumns (rt_def rt))" and nn: "\<not> anyNullable rt os"
    and le: "length vs \<le> length os" and srcs: "length srcs = length vs"
    and vs: "\<And>i. i < length vs \<Longrightarrow> evalLitOrParamValue (srcs ! i) args = Inr (vs ! i) \<and> wf_Value (vs ! i) \<and> Kind (vs ! i) = colKind rt (os ! i)"
    and pins: "\<forall>p \<in> set (zip os srcs). pinned rt args p"
  shows "prefix (ks (encodeCompositeKey vs)) (ks (encodeCompositeKey (map (\<lambda>o'. r ! o') os))) \<longleftrightarrow> (\<forall>p \<in> set (zip os srcs). pin_holds args r p)"
proof -
  let ?ws = "map (\<lambda>o'. r ! o') os"
  have cell: "wf_Value (r ! (os ! i))" "Kind (r ! (os ! i)) = colKind rt (os ! i)" if "i < length os" for i
  proof -
    have o': "os ! i \<in> set os" using that by simp
    then have "os ! i < length (tColumns (rt_def rt))" "\<not> cNullable (columnAt rt (os ! i))" using n nn by (auto simp: anyNullable_def)
    then show "wf_Value (r ! (os ! i))" "Kind (r ! (os ! i)) = colKind rt (os ! i)" using r by (auto simp: valid_row_def row_ok_def split: if_splits)
  qed
  have kinds: "map Kind vs = map Kind (take (length vs) ?ws)" using le vs cell by (auto simp: list_eq_iff_nth_eq)
  have nnv: "no_nulls vs"
    by (auto simp: no_nulls_def in_set_conv_nth) (metis colKind_nonnull vs)
  have "prefix (ks (encodeCompositeKey vs)) (ks (encodeCompositeKey ?ws)) \<longleftrightarrow> map keyOf vs = map keyOf (take (length vs) ?ws)"
    unfolding encodeCompositeKey_s by (rule encode_prefix_aux [OF kinds nnv]) (use le in simp)
  also have "\<dots> \<longleftrightarrow> (\<forall>i < length vs. vs ! i = r ! (os ! i))"
    using le vs cell wf_keyOf by (auto simp: list_eq_iff_nth_eq)
  also have "\<dots> \<longleftrightarrow> (\<forall>i < length vs. pin_holds args r (os ! i, srcs ! i))"
  proof -
    have "pin_holds args r (os ! i, srcs ! i) \<longleftrightarrow> vs ! i = r ! (os ! i)" if "i < length vs" for i
    proof -
      have "(os ! i, srcs ! i) \<in> set (zip os srcs)" using that le srcs by (auto simp: set_zip)
      then have "pinned rt args (os ! i, srcs ! i)" using pins by blast
      from pin_cell [OF this r] show ?thesis using vs [OF that] by simp
    qed
    then show ?thesis by blast
  qed
  also have "\<dots> \<longleftrightarrow> (\<forall>p \<in> set (zip os srcs). pin_holds args r p)" using le srcs by (auto simp: set_zip)
  finally show ?thesis .
qed

text \<open>The index and the prefix of a composite path.\<close>

lemma composite_path:
  assumes ready: "ready seed t pl" and ix: "indexed seed ph t pl" and pl: "planned pl" "args_pinned pl args" "pl_compLookup pl \<or> pl_compWalk pl"
  obtains k vs where "k < nIdx t" "indexByOrdinals (pl_compOrdinals pl) (t_indexes t) = Some (t_indexes t ! k)"
    "si_ordinals (t_indexes t ! k) = pl_compOrdinals pl" "si_ordered (t_indexes t ! k)" "idxKinds (pl_table pl) ! k = KindBytes"
    "prefix_values (ctxOf pl args) (pl_compPrefixSrcs pl) = Some (Inr (Some vs))"
    "\<And>pk r. tbl_abs t pk = Some r \<Longrightarrow> rowKey (t_indexes t ! k) r = Some (encodeCompositeKey (map (\<lambda>o'. r ! o') (pl_compOrdinals pl))) \<and>
       (prefix (ks (encodeCompositeKey vs)) (ks (encodeCompositeKey (map (\<lambda>o'. r ! o') (pl_compOrdinals pl)))) \<longleftrightarrow>
         (\<forall>p \<in> set (zip (pl_compOrdinals pl) (pl_compPrefixSrcs pl)). pin_holds args r p))"
proof -
  have "composite_shape pl" using pl(1,3) unfolding planned_def paths_shaped_def by blast
  then obtain ri where ri: "ri \<in> set (rt_indexes (pl_table pl))" "ri_ordinals ri = pl_compOrdinals pl" "ri_ordered ri"
    "\<not> anyNullable (pl_table pl) (pl_compOrdinals pl)" "length (pl_compOrdinals pl) \<ge> 2"
    "length (pl_compPrefixSrcs pl) \<le> length (pl_compOrdinals pl)" "\<forall>e \<in> set (pl_compPrefixSrcs pl). isLitOrParam e"
    unfolding composite_shape_def by blast
  have wf: "wf_table (pl_table pl)" and rows: "valid_rows (pl_table pl) t" using ready by (simp_all add: ready_def)
  obtain k where k: "k < nIdx t" "indexByOrdinals (pl_compOrdinals pl) (t_indexes t) = Some (t_indexes t ! k)"
    "si_ordinals (t_indexes t ! k) = pl_compOrdinals pl" "si_ordered (t_indexes t ! k)"
    using indexByOrdinals_found [OF ix ri(1) wf] ri(2,3) by metis
  have pins: "\<forall>p \<in> set (zip (pl_compOrdinals pl) (pl_compPrefixSrcs pl)). pinned (pl_table pl) args p"
    using pl(2,3) by (auto simp: args_pinned_def pinsOf_def)
  have a: "ec_args (ctxOf pl args) = args" by (simp add: ctxOf_def)
  obtain vs where vs: "prefix_values (ctxOf pl args) (pl_compPrefixSrcs pl) = Some (Inr (Some vs))" "length vs = length (pl_compPrefixSrcs pl)"
    "\<And>i. i < length (pl_compPrefixSrcs pl) \<Longrightarrow> evalLitOrParamValue (pl_compPrefixSrcs pl ! i) args = Inr (vs ! i) \<and> wf_Value (vs ! i) \<and>
       Kind (vs ! i) = colKind (pl_table pl) (pl_compOrdinals pl ! i)"
    by (rule prefix_values_pinned [OF ri(7) pins ri(6) a]) blast
  have n: "\<forall>o' \<in> set (pl_compOrdinals pl). o' < length (tColumns (rt_def (pl_table pl)))"
    using wf ri(1,2) by (auto simp: wf_table_def Let_def wf_index_def)
  have K: "idxKinds (pl_table pl) ! k = KindBytes"
    using indexed_nth(4) [OF ix k(1)] ri(5) by (auto simp: k(3) split: list.split)
  show thesis
  proof (rule that [OF k K vs(1)])
    fix pk r assume "tbl_abs t pk = Some r"
    then have vr: "valid_row (pl_table pl) r" using rows by (simp add: valid_rows_def)
    have "rowKey (t_indexes t ! k) r = Some (encodeCompositeKey (map (\<lambda>o'. r ! o') (pl_compOrdinals pl)))"
      using row_key_composite [OF _ vr, of "t_indexes t ! k"] n ri(4,5) by (simp add: k(3))
    moreover have "prefix (ks (encodeCompositeKey vs)) (ks (encodeCompositeKey (map (\<lambda>o'. r ! o') (pl_compOrdinals pl)))) \<longleftrightarrow>
        (\<forall>p \<in> set (zip (pl_compOrdinals pl) (pl_compPrefixSrcs pl)). pin_holds args r p)"
      by (rule prefix_cells [OF vr n ri(4) _ _ _ pins]) (use vs ri(6) in simp_all)
    ultimately show "rowKey (t_indexes t ! k) r = Some (encodeCompositeKey (map (\<lambda>o'. r ! o') (pl_compOrdinals pl))) \<and>
       (prefix (ks (encodeCompositeKey vs)) (ks (encodeCompositeKey (map (\<lambda>o'. r ! o') (pl_compOrdinals pl)))) \<longleftrightarrow>
         (\<forall>p \<in> set (zip (pl_compOrdinals pl) (pl_compPrefixSrcs pl)). pin_holds args r p))" by blast
  qed
qed

lemma compositeCandidates_complete:
  assumes ready: "ready seed t pl" and ix: "indexed seed ph t pl" and pl: "planned pl" "args_pinned pl args" "pl_compLookup pl" "\<not> pl_idxLookup pl"
  shows "candidate_answer t pl args (compositeCandidates seed t t pl (ctxOf pl args))"
proof -
  obtain k vs where c: "k < nIdx t" "indexByOrdinals (pl_compOrdinals pl) (t_indexes t) = Some (t_indexes t ! k)"
    "si_ordinals (t_indexes t ! k) = pl_compOrdinals pl" "si_ordered (t_indexes t ! k)" "idxKinds (pl_table pl) ! k = KindBytes"
    "prefix_values (ctxOf pl args) (pl_compPrefixSrcs pl) = Some (Inr (Some vs))"
    "\<And>pk r. tbl_abs t pk = Some r \<Longrightarrow> rowKey (t_indexes t ! k) r = Some (encodeCompositeKey (map (\<lambda>o'. r ! o') (pl_compOrdinals pl))) \<and>
       (prefix (ks (encodeCompositeKey vs)) (ks (encodeCompositeKey (map (\<lambda>o'. r ! o') (pl_compOrdinals pl)))) \<longleftrightarrow>
         (\<forall>p \<in> set (zip (pl_compOrdinals pl) (pl_compPrefixSrcs pl)). pin_holds args r p))"
    by (rule composite_path [OF ready ix pl(1,2) disjI1 [OF pl(3)]]) blast
  let ?pks = "prefixLookup (encodeCompositeKey vs) (t_indexes t ! k)"
  have inv: "merge_inv seed (idxKinds (pl_table pl)) ph t" using ix by (simp add: indexed_def)
  note pe = prefix_exact [OF inv c(1,5,4)]
  obtain ds where ds: "dirtyPKs seed t = Some ds" "\<And>pk r. tbl_abs t pk = Some r \<Longrightarrow> pk \<in> set ds \<longleftrightarrow> \<not> clean t pk"
    by (rule overlay [OF ix]) blast
  have snd: "paths_sound pl (s_where (selOf pl))" using pl(1) by (simp add: planned_def)
  have cov: "pk \<in> set ?pks \<union> set ds" if r: "tbl_abs t pk = Some r" and p: "passes (s_where (selOf pl)) (ctxOf pl args) r" for pk r
  proof (cases "clean t pk")
    case True
    have "\<forall>p \<in> set (zip (pl_compOrdinals pl) (pl_compPrefixSrcs pl)). pin_holds args r p"
      using snd [unfolded paths_sound_def Let_def, rule_format, of "ctxOf pl args" r] pl(3) p by (simp add: ctxOf_def)
    then show ?thesis using pe(2) [OF r True] c(7) [OF r] by simp
  qed (use ds(2) [OF r] in simp)
  have exact: "\<not> pl_idxExact pl" using pl(1,4) by (auto simp: planned_def paths_shaped_def)
  show ?thesis
  proof (cases "?pks = [] \<and> ds = []")
    case True
    then have "matchSet t pl args = {}" using cov by (auto simp: matchSet_def)
    then show ?thesis using True by (simp add: candidate_answer_def compositeCandidates_def c(2,6) ds(1) Let_def)
  next
    case False
    then have "compositeCandidates seed t t pl (ctxOf pl args) = Some (Inr (Some \<lparr>ic_pks = ?pks, ic_dirty = ds\<rparr>))"
      by (auto simp: compositeCandidates_def c(2,6) ds(1) Let_def)
    moreover have "complete_cand t pl args \<lparr>ic_pks = ?pks, ic_dirty = ds\<rparr>"
      using cov pe(1) exact by (auto simp: complete_cand_def)
    ultimately show ?thesis by (simp add: candidate_answer_def)
  qed
qed

lemma composite_selected:
  assumes ready: "ready seed t pl" and ix: "indexed seed ph t pl" and pl: "planned pl" "args_pinned pl args" "pl_compLookup pl" "\<not> pl_idxLookup pl"
  shows "\<exists>out. execSelectCompositeLookup seed t pl (ctxOf pl args) = Some (Inr out) \<and> selected t pl args out"
proof (cases "s_limit (selOf pl) = 0")
  case True
  then show ?thesis using limit_zero [OF ready] by (simp add: execSelectCompositeLookup_def)
next
  case False
  then show ?thesis
    using candidates_answered [OF ready compositeCandidates_complete [OF ready ix pl] False] by (simp add: execSelectCompositeLookup_def)
qed

section \<open>Primary key paths\<close>

lemma pk_value:
  assumes ready: "ready seed t pl" and p: "pinned (pl_table pl) args (nat (pkOrdinal (pl_table pl)), src)"
  obtains v where "evalLitOrParamValue src args = Inr v" "\<not> IsNull v" "coerceToUUID v = Inr (Value_UUID v)"
    "\<And>q r. tbl_abs t q = Some r \<Longrightarrow> pin_holds args r (nat (pkOrdinal (pl_table pl)), src) \<longleftrightarrow> q = Value_UUID v"
proof -
  let ?o = "nat (pkOrdinal (pl_table pl))"
  note d = ready [unfolded ready_def]
  have wf: "wf_table (pl_table pl)" using d by blast
  have ty: "colKind (pl_table pl) ?o = KindUUID" using wf by (simp add: wf_table_def Let_def colKind_def columnAt_def)
  obtain v where v: "evalLitOrParamValue src args = Inr v" "wf_Value v" "Kind v = KindUUID" "?o < length (tColumns (rt_def (pl_table pl)))"
    using p ty by (auto simp: pinned_def)
  show thesis
  proof (rule that [OF v(1)])
    fix q r assume r: "tbl_abs t q = Some r"
    have vr: "valid_row (pl_table pl) r" using ready_row(2) [OF ready r] .
    have q: "q = Value_UUID (r ! ?o)" using abs_pkOf [OF conjunct1 [OF d] r] d by (simp add: pkOf_def pkOrd_def)
    have w: "wf_Value (r ! ?o)" using vr v(4) by (simp add: valid_row_def row_ok_def)
    have "Kind (r ! ?o) = KindUUID" using vr v(4) ty d by (auto simp: valid_row_def split: if_splits)
    then have "Value_UUID (r ! ?o) = Value_UUID v \<longleftrightarrow> r ! ?o = v"
      using w v(2,3) by (cases v; cases "r ! ?o") (auto simp: Value_UUID_eq wf_Value_def)
    then show "pin_holds args r (?o, src) \<longleftrightarrow> q = Value_UUID v" using pin_cell [OF p vr] v(1) q by auto
  qed (use v(3) in \<open>simp_all add: IsNull_def coerceToUUID_def\<close>)
qed

end
