(* ===== verification/WalkSpec.thy ===== *)
theory WalkSpec
  imports SelectPaths
begin

text \<open>
  The ordered walks: merging the index stream with the dirty rows visits every matching row once, in
  the order of the index key, and that is the order of the query.
\<close>

section \<open>The merge of the two streams\<close>

text \<open>The pure merge of the unshadowed index entries with the dirty rows.\<close>

fun merged :: "bool \<Rightarrow> ordEntry list \<Rightarrow> dcand list \<Rightarrow> (ordEntry + dcand) list" where
  "merged desc (x # xs) (y # ys) =
     (if keyBefore desc (fst y) (oe_key x) then Inr y # merged desc (x # xs) ys else Inl x # merged desc xs (y # ys))"
| "merged desc [] ys = map Inr ys"
| "merged desc xs [] = map Inl xs"

text \<open>The loop over it: \<open>done\<close> is tested before each element.\<close>

fun walk :: "('s \<Rightarrow> bool) \<Rightarrow> (UUID \<Rightarrow> 's \<Rightarrow> 's option) \<Rightarrow> (Row \<Rightarrow> 's \<Rightarrow> 's option) \<Rightarrow> (ordEntry + dcand) list \<Rightarrow> 's \<Rightarrow> 's option" where
  "walk done' ei ed [] s = Some s"
| "walk done' ei ed (Inl x # es) s = (if done' s then Some s else Option.bind (ei (oe_pk x) s) (walk done' ei ed es))"
| "walk done' ei ed (Inr y # es) s = (if done' s then Some s else Option.bind (ed (snd y) s) (walk done' ei ed es))"

lemma filter_dropWhile: "filter (\<lambda>x. \<not> P x) xs = (case dropWhile P xs of [] \<Rightarrow> [] | x # xs' \<Rightarrow> x # filter (\<lambda>x. \<not> P x) xs')"
  by (induction xs) auto

lemma merged_right: "merged desc [] ys = map Inr ys" "merged desc xs [] = map Inl xs"
  by (cases xs, simp_all)+

lemma walk_done: "done' s \<Longrightarrow> walk done' ei ed es s = Some s"
  by (cases es rule: list.exhaust, simp) (metis sum.exhaust walk.simps(2,3))

lemma merge_streams_walk:
  "merge_streams desc shadow done' ei ed xs ys s = walk done' ei ed (merged desc (filter (\<lambda>e. oe_pk e \<notin> shadow) xs) ys) s"
proof (induction "length xs + length ys" arbitrary: xs ys s rule: less_induct)
  case less
  let ?f = "filter (\<lambda>e. oe_pk e \<notin> shadow)"
  note ms = merge_streams.simps [of desc shadow done' ei ed xs ys]
  have f: "?f xs = (case dropWhile (\<lambda>e. oe_pk e \<in> shadow) xs of [] \<Rightarrow> [] | x # xs' \<Rightarrow> x # ?f xs')"
    using filter_dropWhile [of "\<lambda>e. oe_pk e \<in> shadow" xs] .
  have ih: "merge_streams desc shadow done' ei ed xs' ys' = walk done' ei ed (merged desc (?f xs') ys')"
    if "length xs' + length ys' < length xs + length ys" for xs' ys' using less that by blast
  show ?case
  proof (cases "done' s")
    case True
    then show ?thesis by (simp add: ms walk_done)
  next
    case False
    show ?thesis
    proof (cases "dropWhile (\<lambda>e. oe_pk e \<in> shadow) xs")
      case Nil
      have f0: "?f xs = []" unfolding f Nil by simp
      show ?thesis
      proof (cases ys)
        case ys: Nil
        show ?thesis unfolding ms unfolding Nil ys f0 using False by simp
      next
        case (Cons y ys')
        have "merge_streams desc shadow done' ei ed xs ys s = Option.bind (ed (snd y) s) (merge_streams desc shadow done' ei ed [] ys')"
          unfolding ms unfolding Nil Cons using False by simp
        then show ?thesis using False ih [of "[]" ys'] unfolding f0 by (simp add: Cons merged_right)
      qed
    next
      case x: (Cons x xs')
      have nx: "oe_pk x \<notin> shadow" using x by (metis hd_dropWhile list.discI list.sel(1))
      have len: "length xs' < length xs" using dropWhile_length [OF x [symmetric]] by simp
      have f0: "?f xs = x # ?f xs'" unfolding f x by simp
      show ?thesis
      proof (cases ys)
        case Nil
        have "merge_streams desc shadow done' ei ed xs ys s = Option.bind (ei (oe_pk x) s) (merge_streams desc shadow done' ei ed xs' [])"
          unfolding ms unfolding x Nil using False by simp
        then show ?thesis using False len ih [of xs' "[]"] unfolding f0 by (simp add: Nil merged_right)
      next
        case (Cons y ys')
        have "merge_streams desc shadow done' ei ed xs ys s =
            (if keyBefore desc (fst y) (oe_key x)
             then Option.bind (ed (snd y) s) (merge_streams desc shadow done' ei ed (x # xs') ys')
             else Option.bind (ei (oe_pk x) s) (merge_streams desc shadow done' ei ed xs' (y # ys')))"
          unfolding ms unfolding x Cons using False by simp
        then show ?thesis using False nx len ih [of "x # xs'" ys'] ih [of xs' "y # ys'"] unfolding f0 by (simp add: Cons)
      qed
    qed
  qed
qed

lemma merged_mset: "mset (merged desc xs ys) = image_mset Inl (mset xs) + image_mset Inr (mset ys)"
  by (induction desc xs ys rule: merged.induct) auto

lemma merged_set: "set (merged desc xs ys) = Inl ` set xs \<union> Inr ` set ys"
  by (induction desc xs ys rule: merged.induct) auto

text \<open>Both streams in order of their keys: so is the merge.\<close>

definition item_key :: "ordEntry + dcand \<Rightarrow> indexKey" where
  "item_key e = (case e of Inl x \<Rightarrow> oe_key x | Inr y \<Rightarrow> fst y)"

lemma item_key_simps [simp]: "item_key (Inl x) = oe_key x" "item_key (Inr y) = fst y"
  by (simp_all add: item_key_def)

definition keys_sorted :: "bool \<Rightarrow> indexKey list \<Rightarrow> bool" where
  "keys_sorted desc = sorted_wrt (\<lambda>a b. \<not> keyBefore desc b a)"

lemma keyBefore_weak:
  assumes "key_ok K a" and "key_ok K b" and "key_ok K c"
  shows "\<not> keyBefore desc b a \<Longrightarrow> \<not> keyBefore desc c b \<Longrightarrow> \<not> keyBefore desc c a"
    and "keyBefore desc a b \<Longrightarrow> \<not> keyBefore desc b a"
  using assms by (auto simp: keyBefore_def key_less_rank [where K = K] split: if_splits)

lemma merged_sorted:
  assumes "keys_sorted desc (map oe_key xs)" and "keys_sorted desc (map fst ys)"
    and "\<forall>k \<in> set (map oe_key xs) \<union> set (map fst ys). key_ok K k"
  shows "keys_sorted desc (map item_key (merged desc xs ys))"
  using assms
proof (induction desc xs ys rule: merged.induct)
  case (1 desc x xs y ys)
  have k: "key_ok K (oe_key x)" "key_ok K (fst y)" "\<forall>k \<in> set (map oe_key xs) \<union> set (map fst ys). key_ok K k" using "1.prems"(3) by auto
  show ?case
  proof (cases "keyBefore desc (fst y) (oe_key x)")
    case True
    have ih: "keys_sorted desc (map item_key (merged desc (x # xs) ys))" using 1 True by (simp add: keys_sorted_def)
    have yx: "\<not> keyBefore desc (oe_key x) (fst y)" using keyBefore_weak(2) [OF k(2,1) k(1)] True by blast
    have "\<not> keyBefore desc k (fst y)" if "k \<in> item_key ` set (merged desc (x # xs) ys)" for k
    proof -
      from that consider "k = oe_key x" | "k \<in> set (map oe_key xs)" | "k \<in> set (map fst ys)"
        unfolding merged_set by force
      then show ?thesis
      proof cases
        case 2
        then have "\<not> keyBefore desc k (oe_key x)" using "1.prems"(1) by (auto simp: keys_sorted_def)
        then show ?thesis using keyBefore_weak(1) [OF k(2,1), of k] yx k(3) 2 by blast
      qed (use "1.prems"(2) yx in \<open>auto simp: keys_sorted_def\<close>)
    qed
    then show ?thesis using True ih by (simp add: keys_sorted_def)
  next
    case False
    have ih: "keys_sorted desc (map item_key (merged desc xs (y # ys)))" using 1 False by (simp add: keys_sorted_def)
    have "\<not> keyBefore desc k (oe_key x)" if "k \<in> item_key ` set (merged desc xs (y # ys))" for k
    proof -
      from that consider "k = fst y" | "k \<in> set (map oe_key xs)" | "k \<in> set (map fst ys)"
        unfolding merged_set by force
      then show ?thesis
      proof cases
        case 3
        then have "\<not> keyBefore desc k (fst y)" using "1.prems"(2) by (auto simp: keys_sorted_def)
        then show ?thesis using keyBefore_weak(1) [OF k(1,2), of k] False k(3) 3 by blast
      qed (use "1.prems"(1) False in \<open>auto simp: keys_sorted_def\<close>)
    qed
    then show ?thesis using False ih by (simp add: keys_sorted_def)
  qed
qed (simp_all add: keys_sorted_def comp_def)


section \<open>The dirty rows\<close>

lemma dirty_loop_eq:
  assumes inv: "table_inv seed t" and rows: "\<And>pk r. tbl_abs t pk = Some r \<Longrightarrow> match r = Some (P r) \<and> Row_Clone r = r"
  shows "dirty_loop seed t match keyFn pks seen dc = Some (dc @ map (\<lambda>r. (keyFn r, r)) (hits t P (unseen seen pks)), seen \<union> set pks)"
proof (induction seen pks arbitrary: dc rule: unseen.induct)
  case (2 seen pk pks)
  show ?case
  proof (cases "pk \<in> seen")
    case True
    then show ?thesis using 2 by (simp add: insert_absorb)
  next
    case False
    have g: "getByPK seed t pk = Some (map_option (\<lambda>r. r) (tbl_abs t pk))"
      using rows by (cases "tbl_abs t pk") (simp_all add: getByPK_abs [OF inv])
    show ?thesis
    proof (cases "tbl_abs t pk")
      case None
      then show ?thesis using False 2(2) [OF False] by (simp add: g hit_def)
    next
      case (Some r)
      then show ?thesis using False 2(2) [OF False] rows [OF Some] by (simp add: g hit_def)
    qed
  qed
qed simp

lemma build_dirty:
  assumes inv: "table_inv seed t" and rows: "\<And>pk r. tbl_abs t pk = Some r \<Longrightarrow> match r = Some (P r) \<and> Row_Clone r = r"
    and ds: "dirtyPKs seed t = Some ds"
  shows "buildDirtyCands seed t match keyFn =
    Some (slices_SortFunc dcandCmp (map (\<lambda>r. (keyFn r, r)) (hits t P (unseen {} ds))), set ds)"
  using dirty_loop_eq [OF inv rows, where keyFn = keyFn and pks = ds and seen = "{}" and dc = "[]"] ds
  by (auto simp: buildDirtyCands_def slices_SortFunc_def)

lemma dcandCmp_le: "key_ok K (fst a) \<Longrightarrow> key_ok K (fst b) \<Longrightarrow> dcandCmp a b \<le> 0 \<longleftrightarrow> \<not> key_less (fst b) (fst a)"
  by (auto simp: dcandCmp_def key_less_rank [where K = K])

lemma dirty_sorted:
  assumes "\<forall>y \<in> set ys. key_ok K (fst y)"
  shows "keys_sorted False (map fst (slices_SortFunc dcandCmp ys))"
proof -
  let ?S = "{y. key_ok K (fst y)}"
  have "sorted_wrt (\<lambda>a b. dcandCmp a b \<le> 0) (slices_SortFunc dcandCmp ys)"
  proof (rule slices_SortFunc_sorted [of ?S])
    show "dcandCmp a c \<le> 0" if "a \<in> ?S" "b \<in> ?S" "c \<in> ?S" "dcandCmp a b \<le> 0" "dcandCmp b c \<le> 0" for a b c
      using that dcandCmp_le [of K a b] dcandCmp_le [of K b c] dcandCmp_le [of K a c] by (simp add: key_less_rank [where K = K])
    show "dcandCmp a b < 0 \<longleftrightarrow> dcandCmp b a > 0" if "a \<in> ?S" "b \<in> ?S" for a b
      using that by (auto simp: dcandCmp_def key_less_rank [where K = K])
  qed (use assms in auto)
  moreover have "set (slices_SortFunc dcandCmp ys) = set ys" by (rule mset_eq_setD [OF slices_SortFunc_mset])
  ultimately show ?thesis unfolding keys_sorted_def sorted_wrt_map
    by (elim sorted_wrt_mono_rel [rotated]) (use assms in \<open>simp add: keyBefore_def dcandCmp_le [where K = K]\<close>)
qed

lemma keys_sorted_dir: "keys_sorted False ks' \<Longrightarrow> keys_sorted desc (if desc then rev ks' else ks')"
  by (simp add: keys_sorted_def keyBefore_def sorted_wrt_rev)

section \<open>The rows of a walk\<close>

definition item_rows :: "table \<Rightarrow> (Row \<Rightarrow> bool) \<Rightarrow> ordEntry + dcand \<Rightarrow> Row list" where
  "item_rows t P e = (case e of Inl x \<Rightarrow> hits t P [oe_pk x] | Inr y \<Rightarrow> [snd y])"

lemma item_rows_simps [simp]: "item_rows t P (Inl x) = hits t P [oe_pk x]" "item_rows t P (Inr y) = [snd y]"
  by (simp_all add: item_rows_def)

lemma walk_rows:
  assumes inv: "table_inv seed t" "rows_ok n (tbl_abs t)" "\<forall>i \<in> set (pl_projOrdinals pl). i < n"
    and idx: "\<And>x r. Inl x \<in> set es \<Longrightarrow> tbl_abs t (oe_pk x) = Some r \<Longrightarrow> testOf pred r = Some (P r)"
    and dirty: "\<And>y. Inr y \<in> set es \<Longrightarrow> cloneProj pl (snd y) = projOf pl (snd y)"
    and eff: "eff < 0 \<or> int (length out) \<le> eff"
  shows "walk (\<lambda>out. eff \<ge> 0 \<and> int (length out) \<ge> eff) (emitIndexRow seed t pl pred) (\<lambda>row out. Some (out @ [cloneProj pl row])) es out =
    Some (cut eff (out @ map (projOf pl) (concat (map (item_rows t P) es))))"
  using idx dirty eff
proof (induction es arbitrary: out)
  case Nil
  then show ?case by (auto simp: cut_def)
next
  case (Cons e es)
  let ?walk = "walk (\<lambda>out. eff \<ge> 0 \<and> int (length out) \<ge> eff) (emitIndexRow seed t pl pred) (\<lambda>row out. Some (out @ [cloneProj pl row]))"
  have ih: "?walk es out = Some (cut eff (out @ map (projOf pl) (concat (map (item_rows t P) es))))" if "eff < 0 \<or> int (length out) \<le> eff" for out
    by (rule Cons.IH [OF _ _ that]) (use Cons.prems(1,2) in auto)
  show ?case
  proof (cases "eff \<ge> 0 \<and> int (length out) \<ge> eff")
    case True
    then have "int (length out) = eff" using Cons.prems(3) by auto
    then have "cut eff (out @ ys) = out" for ys using cut_stop [of eff out] True by simp
    moreover have "?walk (e # es) out = Some out" by (rule walk_done) (use True in simp)
    ultimately show ?thesis by simp
  next
    case False
    then have lt: "eff < 0 \<or> int (length out) < eff" by auto
    show ?thesis
    proof (cases e)
      case (Inl x)
      have "appendMatchProject seed t (oe_pk x) pred (pl_projOrdinals pl) (s_starAll (selOf pl)) [] =
          Some (case hit t P (oe_pk x) of None \<Rightarrow> ([], False) | Some r \<Rightarrow> ([] @ projOf pl r, True))"
        by (rule append_hit [OF inv], rule Cons.prems(1)) (simp_all add: Inl)
      then have "emitIndexRow seed t pl pred (oe_pk x) out = Some (out @ map (projOf pl) (hits t P [oe_pk x]))"
        by (auto simp: emitIndexRow_def split: option.split)
      moreover have "length (hits t P [oe_pk x]) \<le> 1" by (simp split: option.split)
      then have "eff < 0 \<or> int (length (out @ map (projOf pl) (hits t P [oe_pk x]))) \<le> eff" using lt by auto
      ultimately show ?thesis using False ih [of "out @ map (projOf pl) (hits t P [oe_pk x])"] by (auto simp: Inl simp del: hits_simps)
    next
      case (Inr y)
      have "eff < 0 \<or> int (length (out @ [projOf pl (snd y)])) \<le> eff" using lt by auto
      moreover have "cloneProj pl (snd y) = projOf pl (snd y)" using Cons.prems(2) by (simp add: Inr)
      ultimately show ?thesis using False ih [of "out @ [projOf pl (snd y)]"] by (auto simp: Inr)
    qed
  qed
qed

text \<open>What a walk needs of the index slice, of the key of a row and of the residual.\<close>

definition walkable :: "ValueKind \<Rightarrow> table \<Rightarrow> plan \<Rightarrow> Value list \<Rightarrow> walkArgs \<Rightarrow> bool" where
  "walkable K t pl args w \<longleftrightarrow> (case w of (snap, dirtyKey, residual) \<Rightarrow>
     keys_sorted False (map oe_key snap) \<and> distinct (map oe_pk snap) \<and> (\<forall>e \<in> set snap. key_ok K (oe_key e)) \<and>
     (\<forall>pk r. tbl_abs t pk = Some r \<longrightarrow> key_ok K (dirtyKey r)) \<and>
     (\<forall>e \<in> set snap. \<forall>r. tbl_abs t (oe_pk e) = Some r \<longrightarrow> clean t (oe_pk e) \<longrightarrow> oe_key e = dirtyKey r \<and>
        testOf (if residual = [] then None else Some (conjunctsMatcher residual (ctxOf pl args))) r = Some (passes (s_where (selOf pl)) (ctxOf pl args) r)) \<and>
     (\<forall>pk r. tbl_abs t pk = Some r \<longrightarrow> clean t pk \<longrightarrow> passes (s_where (selOf pl)) (ctxOf pl args) r \<longrightarrow> pk \<in> oe_pk ` set snap) \<and>
     (\<forall>pk r pk' r'. tbl_abs t pk = Some r \<longrightarrow> tbl_abs t pk' = Some r' \<longrightarrow>
        passes (s_where (selOf pl)) (ctxOf pl args) r \<longrightarrow> passes (s_where (selOf pl)) (ctxOf pl args) r' \<longrightarrow>
        \<not> key_less (dirtyKey r') (dirtyKey r) \<longrightarrow>
        orderCmp False (r ! nat (pl_orderOrdinal pl)) (r' ! nat (pl_orderOrdinal pl)) \<le> 0))"

text \<open>The result buffer that \<open>make\<close> allocates up front for \<open>LIMIT + OFFSET\<close> rows.\<close>

definition buffer_fits :: "plan \<Rightarrow> bool" where
  "buffer_fits pl \<longleftrightarrow> (0 \<le> s_limit (selOf pl) \<longrightarrow>
     (s_limit (selOf pl) + s_offset (selOf pl)) *
       int (if s_starAll (selOf pl) then length (tColumns (rt_def (pl_table pl))) else length (pl_projOrdinals pl)) * 32 \<le> 2 ^ 48)"

lemma orderCmp_flip:
  assumes "Kind a = Kind b" and "Kind a \<noteq> KindNull" and "orderCmp False b a \<le> 0"
  shows "orderCmp True a b \<le> 0"
  using assms cmpKey_swap [of "sortKey a" "sortKey b"]
  by (simp add: orderCmp_def Compare_key)


text \<open>Rows that carry their item's key come out in the order of the keys.\<close>

lemma items_sorted:
  assumes "sorted_wrt (\<lambda>a b. Q (f a) (f b)) es" and "\<And>e. e \<in> set es \<Longrightarrow> length (g e) \<le> 1"
    and "\<And>e r. e \<in> set es \<Longrightarrow> r \<in> set (g e) \<Longrightarrow> f e = h r"
  shows "sorted_wrt (\<lambda>a b. Q (h a) (h b)) (concat (map g es))"
  using assms
proof (induction es)
  case (Cons e es)
  have ih: "sorted_wrt (\<lambda>a b. Q (h a) (h b)) (concat (map g es))" by (rule Cons.IH) (use Cons.prems in auto)
  have one: "sorted_wrt (\<lambda>a b. Q (h a) (h b)) (g e)" using Cons.prems(2) [of e] by (cases "g e") auto
  have "Q (h a) (h b)" if a: "a \<in> set (g e)" and b: "b \<in> set (concat (map g es))" for a b
  proof -
    obtain e' where e': "e' \<in> set es" "b \<in> set (g e')" using b by auto
    have "Q (f e) (f e')" using Cons.prems(1) e'(1) by simp
    then show ?thesis using Cons.prems(3) [of e a] Cons.prems(3) [of e' b] a e' by simp
  qed
  then show ?case using ih one by (simp add: sorted_wrt_append)
qed simp

lemma concat_items:
  "mset (concat (map (item_rows t P) (merged desc xs ys))) = mset (hits t P (map oe_pk xs)) + mset (map snd ys)"
proof (induction desc xs ys rule: merged.induct)
  case (2 desc ys)
  then show ?case by (induction ys) simp_all
next
  case (3 desc x xs)
  have "concat (map (item_rows t P) (map Inl zs)) = hits t P (map oe_pk zs)" for zs :: "ordEntry list"
    by (induction zs) (auto split: option.split)
  from this [of "x # xs"] show ?case by simp
qed (auto split: option.split)

lemma ordered_walk:
  assumes ready: "ready seed t pl" and ix: "indexed seed ph t pl" and w: "walkable K t pl args (snap, dirtyKey, residual)"
    and ord: "0 \<le> pl_orderOrdinal pl" and buf: "buffer_fits pl"
  shows "\<exists>out. orderedWalk seed t pl args (snap, dirtyKey, residual) = Some (Inr out) \<and> selected t pl args out"
proof (cases "s_limit (selOf pl) = 0")
  case True
  then show ?thesis using limit_zero [OF ready] by (simp add: orderedWalk_def Let_def)
next
  case lim: False
  let ?P = "passes (s_where (selOf pl)) (ctxOf pl args)" and ?desc = "s_orderDesc (selOf pl)" and ?o = "nat (pl_orderOrdinal pl)"
  let ?pred = "if residual = [] then None else Some (conjunctsMatcher residual (ctxOf pl args))"
  let ?eff = "fetchBound (s_limit (selOf pl)) (s_offset (selOf pl))"
  note d = ready [unfolded ready_def] and wk = w [unfolded walkable_def, simplified]
  have inv: "table_inv seed t" "rows_ok (length (tColumns (rt_def (pl_table pl)))) (tbl_abs t)"
      "\<forall>i \<in> set (pl_projOrdinals pl). i < length (tColumns (rt_def (pl_table pl)))"
    using d by (auto simp: rows_ok_def valid_rows_def valid_row_def)
  obtain ds where ds: "dirtyPKs seed t = Some ds" "\<And>pk r. tbl_abs t pk = Some r \<Longrightarrow> pk \<in> set ds \<longleftrightarrow> \<not> clean t pk"
    by (rule overlay [OF ix]) blast
  have m: "rowMatcher (s_where (selOf pl)) (ctxOf pl args) r = Some (?P r) \<and> Row_Clone r = r" if "tbl_abs t pk = Some r" for pk r
    using ready_row(3) [OF ready that] clone_row [OF ready_row(1) [OF ready that]] by blast
  define ys where "ys = slices_SortFunc dcandCmp (map (\<lambda>r. (dirtyKey r, r)) (hits t ?P (unseen {} ds)))"
  define xs where "xs = filter (\<lambda>e. oe_pk e \<notin> set ds) (if ?desc then rev snap else snap)"
  define es where "es = merged ?desc xs (if ?desc then rev ys else ys)"
  define R where "R = concat (map (item_rows t ?P) es)"
  have ysm: "mset ys = mset (map (\<lambda>r. (dirtyKey r, r)) (hits t ?P (unseen {} ds)))" by (simp only: ys_def slices_SortFunc_mset)
  have yss: "set ys = (\<lambda>r. (dirtyKey r, r)) ` set (hits t ?P (unseen {} ds))" using mset_eq_setD [OF ysm] by simp
  have live: "\<exists>pk. tbl_abs t pk = Some (snd y)" "fst y = dirtyKey (snd y)" "?P (snd y)" if "y \<in> set ys" for y
    using that by (auto simp: yss set_hits)
  have bd: "buildDirtyCands seed t (rowMatcher (s_where (selOf pl)) (ctxOf pl args)) dirtyKey = Some (ys, set ds)"
    unfolding ys_def by (rule build_dirty [OF inv(1) m ds(1)])
  have xset: "set xs = {e \<in> set snap. oe_pk e \<notin> set ds}" by (auto simp: xs_def)
  have xclean: "clean t (oe_pk e)" if "e \<in> set xs" "tbl_abs t (oe_pk e) = Some r" for e r using that ds(2) xset by blast
  have eff: "?eff < 0 \<or> int (length ([] :: Row list)) \<le> ?eff" using d fetchBound_fits [of "selOf pl"] by (auto simp: limit_fits_def)
  have walk: "walk (\<lambda>out. ?eff \<ge> 0 \<and> int (length out) \<ge> ?eff) (emitIndexRow seed t pl ?pred) (\<lambda>row out. Some (out @ [cloneProj pl row])) es [] =
      Some (cut ?eff ([] @ map (projOf pl) (concat (map (item_rows t ?P) es))))"
  proof (rule walk_rows [OF inv _ _ eff])
    show "testOf ?pred r = Some (?P r)" if "Inl x \<in> set es" "tbl_abs t (oe_pk x) = Some r" for x r
    proof -
      have x: "x \<in> set xs" using that(1) by (auto simp: es_def merged_set)
      then show ?thesis using wk xset xclean [OF x that(2)] that(2) by blast
    qed
    show "cloneProj pl (snd y) = projOf pl (snd y)" if "Inr y \<in> set es" for y
    proof -
      have "y \<in> set ys" using that by (auto simp: es_def merged_set split: if_splits)
      then show ?thesis using live(1) ready_row(4) [OF ready] by blast
    qed
  qed
  have Rm: "mset R = mset (hits t ?P (map oe_pk xs @ unseen {} ds))"
    unfolding R_def es_def concat_items using ysm by (simp add: mset_map [symmetric] comp_def del: mset_map) (simp add: image_mset.compositionality comp_def)
  have "distinct (map oe_pk xs @ unseen {} ds)"
    using wk unseen_distinct [of "{}" ds] xset unseen_set [of "{}" ds]
    by (auto simp: xs_def distinct_map_filter rev_map [symmetric])
  from hits_distinct [OF inv(1) this, of ?P] have dist: "distinct R" using mset_eq_imp_distinct_iff [OF Rm] by blast
  have set: "set R = matchSet t pl args"
  proof -
    have "set R = set (hits t ?P (map oe_pk xs @ unseen {} ds))" by (rule mset_eq_setD [OF Rm])
    also have "\<dots> = matchSet t pl args"
    proof -
      have "pk \<in> oe_pk ` set xs \<union> set ds" if "tbl_abs t pk = Some r" "?P r" for pk r
      proof (cases "clean t pk")
        case True
        then have "pk \<in> oe_pk ` set snap" using wk that by blast
        then obtain e where "e \<in> set snap" "oe_pk e = pk" by auto
        then have "e \<in> set xs" using True ds(2) [OF that(1)] by (simp add: xset)
        then show ?thesis using \<open>oe_pk e = pk\<close> by auto
      qed (use ds(2) [OF that(1)] in simp)
      then show ?thesis by (fastforce simp: set_hits matchSet_def unseen_set)
    qed
    finally show ?thesis .
  qed
  have ks: "keys_sorted ?desc (map oe_key xs)"
    using keys_sorted_dir [of "map oe_key snap" ?desc] wk
    by (auto simp: xs_def keys_sorted_def sorted_wrt_map rev_map intro: sorted_wrt_filter split: if_splits)
  have ky: "\<forall>y \<in> set ys. key_ok K (fst y)" using live wk by metis
  have "keys_sorted False (map fst ys)" unfolding ys_def by (rule dirty_sorted) (use wk in \<open>auto simp: set_hits\<close>)
  then have ks': "keys_sorted ?desc (map fst (if ?desc then rev ys else ys))"
    using keys_sorted_dir [of "map fst ys" ?desc] by (simp add: rev_map split: if_splits)
  have "keys_sorted ?desc (map item_key es)" unfolding es_def
    by (rule merged_sorted [OF ks ks', of K]) (use wk ky xset in auto)
  then have "sorted_wrt (\<lambda>a b. \<not> keyBefore ?desc (item_key b) (item_key a)) es" by (simp add: keys_sorted_def sorted_wrt_map)
  then have srt: "sorted_wrt (\<lambda>a b. \<not> keyBefore ?desc (dirtyKey b) (dirtyKey a)) R"
    unfolding R_def
  proof (rule items_sorted [where Q = "\<lambda>a b. \<not> keyBefore ?desc b a"])
    fix e assume e: "e \<in> set es"
    show "length (item_rows t ?P e) \<le> 1" by (cases e) (simp_all split: option.split)
    show "item_key e = dirtyKey r" if "r \<in> set (item_rows t ?P e)" for r
    proof (cases e)
      case (Inl x)
      then have x: "x \<in> set xs" using e by (auto simp: es_def merged_set)
      have "tbl_abs t (oe_pk x) = Some r" using that Inl by (auto simp: set_hits simp del: hits_simps)
      then show ?thesis using wk xset x xclean [OF x] Inl by auto
    next
      case (Inr y)
      then have "y \<in> set ys" using e by (auto simp: es_def merged_set split: if_splits)
      then show ?thesis using live(2) that Inr by simp
    qed
  qed
  have "in_order pl R"
  proof -
    have "orderCmp ?desc (a ! ?o) (b ! ?o) \<le> 0" if a: "a \<in> set R" and b: "b \<in> set R" and k: "\<not> keyBefore ?desc (dirtyKey b) (dirtyKey a)" for a b
    proof -
      obtain pk pk' where p: "tbl_abs t pk = Some a" "?P a" "tbl_abs t pk' = Some b" "?P b" using a b by (auto simp: set matchSet_def)
      show ?thesis
      proof (cases ?desc)
        case True
        then have "orderCmp False (b ! ?o) (a ! ?o) \<le> 0" using k p wk by (simp add: keyBefore_def)
        then show ?thesis using orderCmp_flip [of "a ! ?o" "b ! ?o"] True ready_row(5) [OF ready p(1) ord] ready_row(5) [OF ready p(3) ord] by simp
      next
        case False
        then show ?thesis using k p wk by (simp add: keyBefore_def)
      qed
    qed
    then show ?thesis using sorted_wrt_mono_rel [OF _ srt] by (simp add: in_order_def)
  qed
  moreover have "orderedWalk seed t pl args (snap, dirtyKey, residual) =
      Some (Inr (sliceOffsetLimit (map (projOf pl) R) (s_offset (selOf pl)) (s_limit (selOf pl))))"
  proof -
    have mk: "(if ?eff \<ge> 0 then makeValues (wrap64 (?eff * int (if s_starAll (selOf pl) then length (tColumns (rt_def (pl_table pl))) else length (pl_projOrdinals pl)))) else Some ()) = Some ()"
    proof (cases "0 \<le> s_limit (selOf pl)")
      case True
      let ?w = "int (if s_starAll (selOf pl) then length (tColumns (rt_def (pl_table pl))) else length (pl_projOrdinals pl))"
      have e: "?eff = s_limit (selOf pl) + s_offset (selOf pl)" "0 \<le> s_offset (selOf pl)" using True d fetchBound_fits [of "selOf pl"] by (simp_all add: limit_fits_def)
      define x where "x = ?eff * ?w"
      have x: "x * 32 \<le> 2 ^ 48" "0 \<le> x" using buf True e by (simp_all add: x_def buffer_fits_def)
      then have "wrap64 x = x" by (intro wrap64_id) simp_all
      then have "makeValues (wrap64 x) = Some ()" using x by (simp add: makeValues_def)
      then show ?thesis unfolding x_def by simp
    qed (use d fetchBound_fits [of "selOf pl"] in simp)
    have "mergeOrderedStreams snap ys (set ds) ?desc (\<lambda>out. ?eff \<ge> 0 \<and> int (length out) \<ge> ?eff) (emitIndexRow seed t pl ?pred)
        (\<lambda>row out. Some (out @ [cloneProj pl row])) [] = Some (cut ?eff (map (projOf pl) R))"
      using walk by (simp add: mergeOrderedStreams_def merge_streams_walk R_def es_def xs_def)
    then show ?thesis using lim mk bd slice_cut [of "selOf pl"] d
      by (simp add: orderedWalk_def Let_def)
  qed
  ultimately show ?thesis using set dist by (auto intro!: selectedI)
qed

end
