(* ===== verification/WalkPaths.thy ===== *)
theory WalkPaths
  imports WalkSpec
begin

text \<open>
  The ordered walks of a plan: the slice of the index that each one merges holds every clean matching row
  in the order of the query.
\<close>

section \<open>Keys and cells\<close>

lemma key_less_Compare:
  assumes "wf_Value a" and "wf_Value b" and "Kind a = Kind b" and "Kind a \<noteq> KindNull"
  shows "key_less (keyOf a) (keyOf b) \<longleftrightarrow> fst (Compare a b) < 0"
proof -
  have c: "Compare a b = (cmpKey (sortKey a) (sortKey b), True)" using assms(3,4) by (rule Compare_key)
  show ?thesis
  proof (cases "Kind a")
    case KindBool
    then show ?thesis using assms unfolding c
      by (auto simp: key_less_def keyOf_def cmpKey_def sortKey_def cmp3_def wf_Value_def Value_Bool_def)
  next
    case KindUUID
    then show ?thesis using assms unfolding c
      by (auto simp: key_less_def keyOf_def uuidWords_def cmpKey_def sortKey_def cmp3_def Value_UUID_less Value_UUID_eq)
  qed (use assms in \<open>auto simp: c key_less_def keyOf_def cmpKey_def sortKey_def cmp3_def Value_Int_def\<close>)
qed

lemma not_key_less_order:
  assumes "wf_Value a" and "wf_Value b" and "Kind a = Kind b" and "Kind a \<noteq> KindNull" and "\<not> key_less (keyOf b) (keyOf a)"
  shows "orderCmp False a b \<le> 0"
  using assms key_less_Compare [of b a] cmpKey_swap [of "sortKey a" "sortKey b"]
  by (simp add: orderCmp_def Compare_key)

lemma tuple_less_nth:
  "\<forall>i < m. vs ! i = ws ! i \<Longrightarrow> m < length vs \<Longrightarrow> m < length ws \<Longrightarrow> key_less (keyOf (vs ! m)) (keyOf (ws ! m)) \<Longrightarrow> tuple_less vs ws"
proof (induction m arbitrary: vs ws)
  case 0
  then show ?case by (cases vs; cases ws) simp_all
next
  case (Suc m)
  then obtain v vs' w ws' where vw: "vs = v # vs'" "ws = w # ws'" by (cases vs; cases ws) auto
  have "tuple_less vs' ws'"
  proof (rule Suc.IH)
    show "\<forall>i < m. vs' ! i = ws' ! i" using Suc.prems(1) by (auto simp: vw dest: spec [of _ "Suc _"])
  qed (use Suc.prems in \<open>simp_all add: vw\<close>)
  moreover have "v = w" using Suc.prems(1) by (auto simp: vw dest: spec [of _ 0])
  ultimately show ?case by (simp add: vw)
qed

section \<open>The sorted view of an index\<close>

lemma sorted_view:
  assumes inv: "merge_inv seed Ks ph t" and k: "k < nIdx t" and o: "si_ordered (t_indexes t ! k)"
  shows "keys_sorted False (map oe_key (si_sorted (t_indexes t ! k)))" "distinct (map oe_pk (si_sorted (t_indexes t ! k)))"
    "entries_ok (Ks ! k) (si_sorted (t_indexes t ! k))"
    "tbl_abs t pk = Some r \<Longrightarrow> clean t pk \<Longrightarrow> e \<in> set (si_sorted (t_indexes t ! k)) \<Longrightarrow> oe_pk e = pk \<Longrightarrow>
       rowKey (t_indexes t ! k) r = Some (oe_key e)"
    "tbl_abs t pk = Some r \<Longrightarrow> clean t pk \<Longrightarrow> rowKey (t_indexes t ! k) r = Some key \<Longrightarrow>
       \<exists>e \<in> set (si_sorted (t_indexes t ! k)). oe_pk e = pk \<and> oe_key e = key"
    "Ks ! k = KindBytes \<Longrightarrow> snapshotPrefix p (t_indexes t ! k) = filter (\<lambda>e. prefix (ks p) (ks (oe_key e))) (si_sorted (t_indexes t ! k))"
proof -
  obtain si0 where si0: "si_synced (Ks ! k) si0" "si_ordered si0 = si_ordered (t_indexes t ! k)"
    "si_ordered si0 \<Longrightarrow> si_sorted (t_indexes t ! k) = si_sorted si0"
    "\<And>pk r. tbl_abs t pk = Some r \<Longrightarrow> clean t pk \<Longrightarrow> map_of (si_rev si0) pk = rowKey (t_indexes t ! k) r"
    by (rule synced_index [OF inv k]) blast
  have s: "si_inv (Ks ! k) si0" "view_ok si0" and es: "si_sorted (t_indexes t ! k) = si_sorted si0"
    using si0(1-3) o by (simp_all add: si_synced_def)
  note v = sorted_view_keys [OF s]
  show "entries_ok (Ks ! k) (si_sorted (t_indexes t ! k))" using v(1) by (simp add: es)
  show "keys_sorted False (map oe_key (si_sorted (t_indexes t ! k)))"
    unfolding es keys_sorted_def sorted_wrt_map
    by (rule sorted_wrt_mono_rel [OF _ v(2)]) (use v(1) in \<open>auto simp: keyBefore_def key_less_rank [where K = "Ks ! k"]\<close>)
  show "distinct (map oe_pk (si_sorted (t_indexes t ! k)))" using view_pks(1) [OF s, of "\<lambda>_. True"] by (simp add: es)
  have d: "distinct (map fst (si_rev si0))" and st: "set (si_sorted si0) = entry ` set (si_rev si0)"
    using s by (simp_all add: si_inv_def view_ok_def)
  show "rowKey (t_indexes t ! k) r = Some (oe_key e)"
    if a: "tbl_abs t pk = Some r" "clean t pk" "e \<in> set (si_sorted (t_indexes t ! k))" "oe_pk e = pk"
  proof -
    obtain x where x: "x \<in> set (si_rev si0)" "e = entry x" using a(3) by (auto simp: es st)
    then have "map_of (si_rev si0) (fst x) = Some (snd x)" by (intro map_of_is_SomeI [OF d]) simp
    then show ?thesis using si0(4) [OF a(1,2)] a(4) x(2) by (cases x) (simp add: entry_def)
  qed
  show "\<exists>e \<in> set (si_sorted (t_indexes t ! k)). oe_pk e = pk \<and> oe_key e = key"
    if "tbl_abs t pk = Some r" "clean t pk" "rowKey (t_indexes t ! k) r = Some key"
  proof -
    have "(pk, key) \<in> set (si_rev si0)" using si0(4) [OF that(1,2)] that(3) by (simp add: map_of_SomeD)
    then show ?thesis unfolding es st by (intro bexI [of _ "entry (pk, key)"]) (auto simp: entry_def)
  qed
  show "snapshotPrefix p (t_indexes t ! k) = filter (\<lambda>e. prefix (ks p) (ks (oe_key e))) (si_sorted (t_indexes t ! k))" if K: "Ks ! k = KindBytes"
  proof -
    have "si_inv KindBytes si0" using s(1) K by simp
    from snapshotPrefix_eq [OF this s(2)] show ?thesis by (simp add: es snapshotPrefix_def)
  qed
qed

section \<open>The range bounds\<close>

text \<open>A bound that a conjunct gives.\<close>

definition range_of :: "nat \<Rightarrow> Value list \<Rightarrow> expr \<Rightarrow> tokenKind \<times> Value \<Rightarrow> bool" where
  "range_of ord args c b \<longleftrightarrow> (\<exists>e. rangeOf ord c = Some (fst b, e) \<and> evalLitOrParamValue e args = Inr (snd b))"

lemma orderColumnRange_from:
  assumes "orderColumnRange cs ord args (lo, hi) = (lo', hi')"
  shows "lo' = lo \<or> (\<exists>c \<in> set cs. \<exists>v op. lo' = Some (v, op) \<and> range_of ord args c (op, v) \<and> (op = tkGt \<or> op = tkGte))"
    and "hi' = hi \<or> (\<exists>c \<in> set cs. \<exists>v op. hi' = Some (v, op) \<and> range_of ord args c (op, v) \<and> (op = tkLt \<or> op = tkLte))"
proof -
  have "(lo' = lo \<or> (\<exists>c \<in> set cs. \<exists>v op. lo' = Some (v, op) \<and> range_of ord args c (op, v) \<and> (op = tkGt \<or> op = tkGte))) \<and>
      (hi' = hi \<or> (\<exists>c \<in> set cs. \<exists>v op. hi' = Some (v, op) \<and> range_of ord args c (op, v) \<and> (op = tkLt \<or> op = tkLte)))"
    using assms
  proof (induction cs arbitrary: lo hi)
    case (Cons c cs)
    obtain lo1 hi1 where b: "(case rangeOf ord c of None \<Rightarrow> (lo, hi)
      | Some (op, e) \<Rightarrow> (case evalLitOrParamValue e args of Inl _ \<Rightarrow> (lo, hi)
          | Inr v \<Rightarrow> if op = tkGt \<or> op = tkGte then (if lo = None then (Some (v, op), hi) else (lo, hi))
              else if op = tkLt \<or> op = tkLte then (if hi = None then (lo, Some (v, op)) else (lo, hi)) else (lo, hi))) = (lo1, hi1)"
      by (rule prod.exhaust)
    have "orderColumnRange cs ord args (lo1, hi1) = (lo', hi')" using Cons.prems b by simp
    note ih = Cons.IH [OF this]
    have "lo1 = lo \<or> (\<exists>v op. lo1 = Some (v, op) \<and> range_of ord args c (op, v) \<and> (op = tkGt \<or> op = tkGte))"
      "hi1 = hi \<or> (\<exists>v op. hi1 = Some (v, op) \<and> range_of ord args c (op, v) \<and> (op = tkLt \<or> op = tkLte))"
      using b by (auto simp: range_of_def split: option.splits prod.splits sum.splits if_splits)
    then show ?case using ih by (auto simp del: split_paired_Ex split_paired_All)
  qed simp
  then show "lo' = lo \<or> (\<exists>c \<in> set cs. \<exists>v op. lo' = Some (v, op) \<and> range_of ord args c (op, v) \<and> (op = tkGt \<or> op = tkGte))"
    and "hi' = hi \<or> (\<exists>c \<in> set cs. \<exists>v op. hi' = Some (v, op) \<and> range_of ord args c (op, v) \<and> (op = tkLt \<or> op = tkLte))"
    by blast+
qed

text \<open>What a passing row says about a bound: its cell is on the right side of the value.\<close>

definition in_bound :: "tokenKind \<Rightarrow> indexKey \<Rightarrow> indexKey \<Rightarrow> bool" where
  "in_bound op key v = (case op of tkGt \<Rightarrow> key_less v key | tkGte \<Rightarrow> \<not> key_less key v
     | tkLt \<Rightarrow> key_less key v | tkLte \<Rightarrow> \<not> key_less v key | _ \<Rightarrow> True)"

lemma passes_range:
  assumes p: "passes c (ctxOf pl args) r" and b: "range_of ord args c (op, v)" and op: "op \<in> {tkGt, tkGte, tkLt, tkLte}"
    and r: "ord < length r" "wf_Value (r ! ord)" and v: "wf_Value v" "Kind v = Kind (r ! ord)" "Kind v \<noteq> KindNull"
  shows "in_bound op (keyOf (r ! ord)) (keyOf v)"
proof -
  let ?a = "r ! ord" and ?ctx = "(ctxOf pl args)\<lparr>ec_row := r\<rparr>"
  have k: "key_less (keyOf ?a) (keyOf v) \<longleftrightarrow> fst (Compare ?a v) < 0" "key_less (keyOf v) (keyOf ?a) \<longleftrightarrow> fst (Compare v ?a) < 0"
    using key_less_Compare [OF r(2) v(1)] key_less_Compare [OF v(1) r(2)] v(2,3) by simp_all
  have c: "Compare ?a v = (cmpKey (sortKey ?a) (sortKey v), True)" "Compare v ?a = (- cmpKey (sortKey ?a) (sortKey v), True)"
    using v(2,3) cmpKey_swap [of "sortKey v" "sortKey ?a"] by (simp_all add: Compare_key)
  obtain op' lhs rhs e where cd: "c = BinOp op' lhs rhs" "evalLitOrParamValue e args = Inr v" "isLitOrParam e"
    "isCol ord lhs \<and> e = rhs \<and> op = op' \<or> isCol ord rhs \<and> e = lhs \<and> op = flipRangeOp op'"
    using b by (auto simp: range_of_def rangeOf_def split: expr.splits if_splits)
  have op': "op' \<in> {tkGt, tkGte, tkLt, tkLte}" using cd(4) op by (cases op') (auto simp: flipRangeOp_def)
  have col: "evalExpr x ?ctx = Some (Inr ?a)" if "isCol ord x" for x
    using that r(1) by (auto simp: isCol_def cellAt_def split: expr.splits)
  have lit: "evalExpr e ?ctx = Some (Inr v)" using eval_src [OF cd(3), of ?ctx] cd(2) by (simp add: ctxOf_def)
  have "interpMatcher c (ctxOf pl args) r = Some True" using p by (simp add: passes_def rowMatcher_interp)
  then obtain x where x: "evalExpr c ?ctx = Some (Inr x)" "truthy x"
    by (auto simp: interpMatcher_def split: Option.bind_splits sum.splits)
  from cd(4) show ?thesis
  proof (elim disjE conjE)
    assume "isCol ord lhs" "e = rhs" "op = op'"
    then have "Some (evalBin op ?a v) = Some (Inr x)" using x(1) op' col [of lhs] lit by (auto simp: cd(1))
    then show ?thesis using x(2) op' \<open>op = op'\<close> k c by (auto simp: evalBin_def in_bound_def)
  next
    assume "isCol ord rhs" "e = lhs" "op = flipRangeOp op'"
    then have "Some (evalBin op' v ?a) = Some (Inr x)" using x(1) op' col [of rhs] lit by (auto simp: cd(1))
    then show ?thesis using x(2) op' \<open>op = flipRangeOp op'\<close> k c by (auto simp: evalBin_def in_bound_def flipRangeOp_def)
  qed
qed

text \<open>The seek keeps every entry whose key is within the bounds of its conjuncts.\<close>

lemma cut_position:
  assumes m: "sorted_wrt (\<lambda>a b. P a \<longrightarrow> P b) es" and i: "i < length es"
  shows "P (es ! i) \<Longrightarrow> sort_Search (length es) (\<lambda>i. P (es ! i)) \<le> i"
    and "\<not> P (es ! i) \<Longrightarrow> i < sort_Search (length es) (\<lambda>i. P (es ! i))"
proof -
  let ?n = "length (takeWhile (\<lambda>e. \<not> P e) es)"
  note cut = sort_Search_cut(3) [OF m]
  show "sort_Search (length es) (\<lambda>i. P (es ! i)) \<le> i" if "P (es ! i)"
  proof (rule ccontr)
    assume "\<not> ?thesis"
    then have "i < ?n" by (simp add: cut)
    from nth_mem [OF this] takeWhile_nth [OF this]
    have "es ! i \<in> set (takeWhile (\<lambda>e. \<not> P e) es)" by simp
    then show False using that by (auto dest: set_takeWhileD)
  qed
  show "i < sort_Search (length es) (\<lambda>i. P (es ! i))" if np: "\<not> P (es ! i)"
  proof (rule ccontr)
    assume "\<not> ?thesis"
    then have n: "?n \<le> i" by (simp add: cut)
    then have "P (es ! ?n)" using nth_length_takeWhile [of "\<lambda>e. \<not> P e" es] i by simp
    then have "P (es ! i)" using m n i by (metis le_neq_implies_less sorted_wrt_nth_less)
    then show False using np by simp
  qed
qed

lemma seek_keeps:
  assumes srt: "keys_sorted False (map oe_key snap)" and ok: "entries_ok K snap" and e: "e \<in> set snap"
    and bd: "\<And>c op v. c \<in> set conjs \<Longrightarrow> range_of ord args c (op, v) \<Longrightarrow> op \<in> {tkGt, tkGte, tkLt, tkLte} \<Longrightarrow>
      Kind v = K \<Longrightarrow> Kind v \<noteq> KindNull \<Longrightarrow> in_bound op (oe_key e) (keyOf v)"
  shows "e \<in> set (seekOrderedSnap snap conjs ord args)"
proof -
  obtain lo hi where b: "orderColumnRange conjs ord args (None, None) = (lo, hi)" by (rule prod.exhaust)
  obtain i where i: "i < length snap" "snap ! i = e" using e by (auto simp: in_set_conv_nth)
  then have ne: "snap \<noteq> []" by auto
  then have first: "kkind (oe_key (snap ! 0)) = K" using ok by (simp add: key_ok_def)
  have kk: "kkind (keyOf v) = Kind v" for v by (cases "Kind v") (auto simp: keyOf_def uuidWords_def)
  have mono: "sorted_wrt (\<lambda>a b. Q a \<longrightarrow> Q b) snap"
    if "\<And>a b. a \<in> set snap \<Longrightarrow> b \<in> set snap \<Longrightarrow> \<not> key_less (oe_key b) (oe_key a) \<Longrightarrow> Q a \<Longrightarrow> Q b" for Q
    using srt unfolding keys_sorted_def sorted_wrt_map keyBefore_def
    by (rule sorted_wrt_mono_rel [rotated]) (use that in auto)
  have up: "sorted_wrt (\<lambda>a b. key_less (keyOf v) (oe_key a) \<longrightarrow> key_less (keyOf v) (oe_key b)) snap"
    "sorted_wrt (\<lambda>a b. \<not> key_less (oe_key a) (keyOf v) \<longrightarrow> \<not> key_less (oe_key b) (keyOf v)) snap"
    if "Kind v = K" "Kind v \<noteq> KindNull" for v
  proof -
    have "key_ok K (keyOf v)" using that key_ok_keyOf by blast
    then show "sorted_wrt (\<lambda>a b. key_less (keyOf v) (oe_key a) \<longrightarrow> key_less (keyOf v) (oe_key b)) snap"
      "sorted_wrt (\<lambda>a b. \<not> key_less (oe_key a) (keyOf v) \<longrightarrow> \<not> key_less (oe_key b) (keyOf v)) snap"
      using ok by (auto intro!: mono simp: key_less_rank [where K = K])
  qed
  have low: "seekLow lo snap \<le> i"
  proof (cases lo)
    case (Some p)
    obtain v op where p: "p = (v, op)" by (cases p)
    obtain c where c: "c \<in> set conjs" "range_of ord args c (op, v)" "op = tkGt \<or> op = tkGte"
      using orderColumnRange_from(1) [OF b] Some p by auto
    show ?thesis
    proof (cases "IsNull v \<or> kkind (keyOf v) \<noteq> kkind (oe_key (snap ! 0))")
      case False
      then have v: "Kind v = K" "Kind v \<noteq> KindNull" by (auto simp: first kk IsNull_def)
      have ib: "in_bound op (oe_key (snap ! i)) (keyOf v)" unfolding i(2) by (rule bd [OF c(1,2) _ v]) (use c(3) in auto)
      show ?thesis using False c(3) ib cut_position(1) [OF up(1) [OF v] i(1)] cut_position(1) [OF up(2) [OF v] i(1)]
        by (auto simp: seekLow_def Some p in_bound_def)
    qed (simp add: seekLow_def Some p)
  qed (simp add: seekLow_def)
  have high: "i < seekHigh hi snap"
  proof (cases hi)
    case (Some p)
    obtain v op where p: "p = (v, op)" by (cases p)
    obtain c where c: "c \<in> set conjs" "range_of ord args c (op, v)" "op = tkLt \<or> op = tkLte"
      using orderColumnRange_from(2) [OF b] Some p by auto
    show ?thesis
    proof (cases "IsNull v \<or> kkind (keyOf v) \<noteq> kkind (oe_key (snap ! 0))")
      case False
      then have v: "Kind v = K" "Kind v \<noteq> KindNull" by (auto simp: first kk IsNull_def)
      have ib: "in_bound op (oe_key (snap ! i)) (keyOf v)" unfolding i(2) by (rule bd [OF c(1,2) _ v]) (use c(3) in auto)
      show ?thesis using False c(3) ib cut_position(2) [OF up(1) [OF v] i(1)] cut_position(2) [OF up(2) [OF v] i(1)]
        by (auto simp: seekHigh_def Some p in_bound_def)
    qed (use i(1) in \<open>simp add: seekHigh_def Some p\<close>)
  qed (use i(1) in \<open>simp add: seekHigh_def\<close>)
  have "seekOrderedSnap snap conjs ord args = drop (seekLow lo snap) (take (seekHigh hi snap) snap)"
    using ne low high by (simp add: seekOrderedSnap_def b Let_def)
  moreover have "drop (seekLow lo snap) (take (seekHigh hi snap) snap) ! (i - seekLow lo snap) = e"
    "i - seekLow lo snap < length (drop (seekLow lo snap) (take (seekHigh hi snap) snap))"
    using low high i by auto
  ultimately show ?thesis by (metis nth_mem)
qed

lemma seek_slice: "\<exists>a b. seekOrderedSnap snap conjs ord args = drop a (take b snap)"
proof -
  have "\<exists>a b. [] = drop a (take b snap)" by (intro exI [of _ 0]) simp
  then show ?thesis by (auto simp: seekOrderedSnap_def Let_def split: prod.split)
qed

section \<open>The walk over the ORDER BY index\<close>

definition wf_args :: "Value list \<Rightarrow> bool" where
  "wf_args args \<longleftrightarrow> (\<forall>v \<in> set args. wf_Value v)"

lemma range_wf:
  assumes "range_of ord args c (op, v)" and "\<not> hasLiteral c" and "wf_args args"
  shows "wf_Value v"
proof -
  obtain e where e: "rangeOf ord c = Some (op, e)" "evalLitOrParamValue e args = Inr v" using assms(1) by (auto simp: range_of_def)
  then obtain op' lhs rhs where "c = BinOp op' lhs rhs" "isLitOrParam e" "e = lhs \<or> e = rhs"
    by (auto simp: rangeOf_def split: expr.splits if_splits)
  then have "is_param e" using assms(2) lit_or_param by auto
  then obtain i where "e = ParamRef i" by (cases e) (auto simp: is_param_def)
  then have "v \<in> set args" using e(2) by (auto simp: evalLitOrParamValue_def evalParam_def split: if_splits)
  then show ?thesis using assms(3) by (simp add: wf_args_def)
qed

lemma conjuncts_test:
  assumes ready: "ready seed t pl" and r: "tbl_abs t pk = Some r"
  shows "testOf (if collectConjuncts (s_where (selOf pl)) = [] then None else Some (conjunctsMatcher (collectConjuncts (s_where (selOf pl))) ctx)) r =
    Some (passes (s_where (selOf pl)) ctx r)"
proof (cases "collectConjuncts (s_where (selOf pl)) = []")
  case True
  then show ?thesis by (simp add: testOf_def passes_conjuncts [of "s_where (selOf pl)"])
next
  case False
  have "conjunctsMatcher (collectConjuncts (s_where (selOf pl))) ctx r = rowMatcher (s_where (selOf pl)) ctx r"
    by (simp add: conjunctsMatcher_all rowMatcher_interp interp_conjuncts [symmetric])
  then show ?thesis using False ready_row(3) [OF ready r] by (simp add: testOf_def)
qed

lemma order_index:
  assumes ix: "indexed seed ph t pl" and wf: "wf_table (pl_table pl)" and o: "orderedIndexOn (pl_table pl) o'"
  obtains k where "k < nIdx t" "indexFor o' (t_indexes t) = Some (t_indexes t ! k)" "si_ordinals (t_indexes t ! k) = [o']" "si_ordered (t_indexes t ! k)"
proof -
  obtain ri where ri: "ri \<in> set (rt_indexes (pl_table pl))" "ri_ordinals ri = [o']" "ri_ordered ri"
    using o unfolding orderedIndexOn_def singleOn_def by (metis One_nat_def length_0_conv length_Suc_conv nth_Cons_0)
  obtain k where k: "k < nIdx t" "indexFor o' (t_indexes t) = Some (t_indexes t ! k)" "si_ordinals (t_indexes t ! k) = [o']"
    using indexFor_found [OF ix] ri by blast
  note n = indexed_nth [OF ix k(1)]
  have "distinct (map ri_ordinals (rt_indexes (pl_table pl)))" using wf by (simp add: wf_table_def Let_def)
  moreover have "rt_indexes (pl_table pl) ! k \<in> set (rt_indexes (pl_table pl))" using n(3) by simp
  ultimately have "rt_indexes (pl_table pl) ! k = ri" using n(1) k(3) ri(1,2) by (metis distinct_map inj_onD)
  then show thesis using that [OF k] n(2) ri(3) by simp
qed

lemma order_walkable:
  assumes ready: "ready seed t pl" and ix: "indexed seed ph t pl" and pl: "planned pl" "pl_orderWalk pl"
    and lit: "\<not> hasLiteral (s_where (selOf pl))" and wfa: "wf_args args"
  shows "0 \<le> pl_orderOrdinal pl \<and> (\<exists>K w. orderedWalkArgs t pl args = Some w \<and> walkable K t pl args w)"
proof -
  let ?o = "nat (pl_orderOrdinal pl)" and ?W = "s_where (selOf pl)" and ?ctx = "ctxOf pl args"
  have sh: "0 \<le> pl_orderOrdinal pl" "orderedIndexOn (pl_table pl) ?o" using pl unfolding planned_def paths_shaped_def by blast+
  note d = ready [unfolded ready_def]
  have inv: "merge_inv seed (idxKinds (pl_table pl)) ph t" using ix by (simp add: indexed_def)
  obtain k where k: "k < nIdx t" "indexFor ?o (t_indexes t) = Some (t_indexes t ! k)" "si_ordinals (t_indexes t ! k) = [?o]" "si_ordered (t_indexes t ! k)"
    by (rule order_index [OF ix _ sh(2)]) (use d in auto)
  let ?K = "colKind (pl_table pl) ?o" and ?es = "si_sorted (t_indexes t ! k)"
  have K: "idxKinds (pl_table pl) ! k = ?K" using indexed_nth(4) [OF ix k(1)] by (simp add: k(3))
  note v = sorted_view [OF inv k(1,4), unfolded K]
  define snap where "snap = seekOrderedSnap ?es (collectConjuncts ?W) ?o args"
  obtain a b where ab: "snap = drop a (take b ?es)" using seek_slice unfolding snap_def by blast
  then have sub: "set snap \<subseteq> set ?es" by (meson set_drop_subset set_take_subset subset_trans)
  have n: "?o < length (tColumns (rt_def (pl_table pl)))" using d sh(1) by simp
  have cell: "wf_Value (r ! ?o)" "Kind (r ! ?o) = ?K" "?o < length r" "rowKey (t_indexes t ! k) r = Some (keyOf (r ! ?o))" if "tbl_abs t pk = Some r" for pk r
  proof -
    note rr = ready_row [OF ready that]
    show "wf_Value (r ! ?o)" "?o < length r" using rr(1) n by (auto simp: row_ok_def)
    show K': "Kind (r ! ?o) = ?K" using rr(5) [OF sh(1)] .
    have "\<not> IsNull (r ! ?o)" using K' by (simp add: IsNull_def)
    then show "rowKey (t_indexes t ! k) r = Some (keyOf (r ! ?o))" using row_key_single [OF k(3) rr(2) n] by simp
  qed
  have "walkable ?K t pl args (snap, \<lambda>r. keyOf (r ! ?o), collectConjuncts ?W)"
    unfolding walkable_def prod.case
  proof (intro conjI allI impI ballI)
    show "keys_sorted False (map oe_key snap)" using v(1) unfolding ab
      by (simp add: keys_sorted_def drop_map [symmetric] take_map [symmetric] sorted_wrt_drop sorted_wrt_take)
    show "distinct (map oe_pk snap)" using v(2) unfolding ab by (simp add: drop_map [symmetric] take_map [symmetric])
    show "key_ok ?K (oe_key e)" if "e \<in> set snap" for e using v(3) sub that by blast
    show "key_ok ?K (keyOf (r ! ?o))" if "tbl_abs t pk = Some r" for pk r using key_ok_keyOf [of "r ! ?o"] cell(2) [OF that] by simp
    show "oe_key e = keyOf (r ! ?o)" if "e \<in> set snap" "tbl_abs t (oe_pk e) = Some r" "clean t (oe_pk e)" for e r
      using v(4) [OF that(2,3) _ refl] cell(4) [OF that(2)] that(1) sub by auto
    show "testOf (if collectConjuncts ?W = [] then None else Some (conjunctsMatcher (collectConjuncts ?W) ?ctx)) r = Some (passes ?W ?ctx r)"
      if "e \<in> set snap" "tbl_abs t (oe_pk e) = Some r" "clean t (oe_pk e)" for e r by (rule conjuncts_test [OF ready that(2)])
    show "pk \<in> oe_pk ` set snap" if r: "tbl_abs t pk = Some r" "clean t pk" "passes ?W ?ctx r" for pk r
    proof -
      obtain e where e: "e \<in> set ?es" "oe_pk e = pk" "oe_key e = keyOf (r ! ?o)" using v(5) [OF r(1,2) cell(4) [OF r(1)]] by blast
      have "e \<in> set snap" unfolding snap_def
      proof (rule seek_keeps [OF v(1,3) e(1)])
        fix c op w assume c: "c \<in> set (collectConjuncts ?W)" "range_of ?o args c (op, w)" "op \<in> {tkGt, tkGte, tkLt, tkLte}" "Kind w = ?K" "Kind w \<noteq> KindNull"
        have "passes c ?ctx r" using r(3) c(1) passes_conjuncts [of ?W] by blast
        moreover have "wf_Value w" using range_wf [OF c(2) _ wfa] conjuncts_literal [OF lit c(1)] by simp
        ultimately show "in_bound op (oe_key e) (keyOf w)" unfolding e(3)
          by (rule passes_range [OF _ c(2,3) cell(3) [OF r(1)] cell(1) [OF r(1)]]) (use c(4,5) cell(2) [OF r(1)] in simp_all)
      qed
      then show ?thesis using e(2) by auto
    qed
    show "orderCmp False (r ! ?o) (r' ! ?o) \<le> 0" if "tbl_abs t pk = Some r" "tbl_abs t pk' = Some r'" "\<not> key_less (keyOf (r' ! ?o)) (keyOf (r ! ?o))" for pk r pk' r'
      using not_key_less_order [OF cell(1) [OF that(1)] cell(1) [OF that(2)] _ _ that(3)] cell(2) [OF that(1)] cell(2) [OF that(2)] by simp
  qed
  then show ?thesis using sh(1) k(2) by (auto simp: orderedWalkArgs_def Let_def snap_def)
qed


section \<open>The walk over a composite index\<close>

lemma conjuncts_bound: "bound rt e \<Longrightarrow> c \<in> set (collectConjuncts e) \<Longrightarrow> bound rt c"
  by (induction e rule: collectConjuncts.induct) (auto split: if_splits)

lemma allMatch_total: "(\<And>c. c \<in> set cs \<Longrightarrow> m c r = Some (p c)) \<Longrightarrow> allMatch (map m cs) r = Some (\<forall>c \<in> set cs. p c)"
  by (induction cs) auto

lemma composite_walkable:
  assumes ready: "ready seed t pl" and ix: "indexed seed ph t pl" and pl: "planned pl" "args_pinned pl args" "pl_compWalk pl"
  shows "0 \<le> pl_orderOrdinal pl \<and> (\<exists>w. compositeWalkArgs t pl args = Some (Inr (Some w)) \<and> walkable KindBytes t pl args w)"
proof -
  let ?W = "s_where (selOf pl)" and ?ctx = "ctxOf pl args" and ?os = "pl_compOrdinals pl" and ?o = "nat (pl_orderOrdinal pl)"
  let ?m = "length (pl_compPrefixSrcs pl)" and ?pins = "zip ?os (pl_compPrefixSrcs pl)"
  have sh: "?m < length ?os" "pl_orderOrdinal pl = int (?os ! ?m)" using pl(1,3) unfolding planned_def paths_shaped_def by blast+
  have snd: "paths_sound pl ?W" using pl(1) by (simp add: planned_def)
  have a: "ec_args ?ctx = args" by (simp add: ctxOf_def)
  have iff: "passes ?W ?ctx r \<longleftrightarrow> (\<forall>p \<in> set ?pins. pin_holds args r p) \<and> (\<forall>c \<in> set (pl_compResidual pl). passes c ?ctx r)"
    and sub: "set (pl_compResidual pl) \<subseteq> set (collectConjuncts ?W)" for r
    using snd [unfolded paths_sound_def Let_def, rule_format, of ?ctx r] pl(3) unfolding a by blast+
  note d = ready [unfolded ready_def]
  have inv: "merge_inv seed (idxKinds (pl_table pl)) ph t" using ix by (simp add: indexed_def)
  obtain k vs where c: "k < nIdx t" "indexByOrdinals ?os (t_indexes t) = Some (t_indexes t ! k)"
    "si_ordinals (t_indexes t ! k) = ?os" "si_ordered (t_indexes t ! k)" "idxKinds (pl_table pl) ! k = KindBytes"
    "prefix_values ?ctx (pl_compPrefixSrcs pl) = Some (Inr (Some vs))"
    "\<And>pk r. tbl_abs t pk = Some r \<Longrightarrow> rowKey (t_indexes t ! k) r = Some (encodeCompositeKey (map (\<lambda>o'. r ! o') ?os)) \<and>
       (prefix (ks (encodeCompositeKey vs)) (ks (encodeCompositeKey (map (\<lambda>o'. r ! o') ?os))) \<longleftrightarrow> (\<forall>p \<in> set ?pins. pin_holds args r p))"
    by (rule composite_path [OF ready ix pl(1,2) disjI2 [OF pl(3)]]) blast
  let ?es = "si_sorted (t_indexes t ! k)" and ?key = "\<lambda>r. encodeCompositeKey (map (\<lambda>o'. r ! o') ?os)"
  note v = sorted_view [OF inv c(1,4), unfolded c(5)]
  define snap where "snap = snapshotPrefix (encodeCompositeKey vs) (t_indexes t ! k)"
  have sn: "snap = filter (\<lambda>e. prefix (ks (encodeCompositeKey vs)) (ks (oe_key e))) ?es" unfolding snap_def by (rule v(6)) simp
  have "composite_shape pl" using pl(1,3) unfolding planned_def paths_shaped_def by blast
  then obtain ri where ri: "ri \<in> set (rt_indexes (pl_table pl))" "ri_ordinals ri = ?os" "\<not> anyNullable (pl_table pl) ?os"
    unfolding composite_shape_def by blast
  have n: "\<forall>o' \<in> set ?os. o' < length (tColumns (rt_def (pl_table pl)))"
    using d ri(1,2) by (auto simp: wf_table_def Let_def wf_index_def)
  have cell: "wf_Value (r ! o')" "Kind (r ! o') = colKind (pl_table pl) o'" if "tbl_abs t pk = Some r" "o' \<in> set ?os" for pk r o'
  proof -
    have "valid_row (pl_table pl) r" by (rule ready_row(2) [OF ready that(1)])
    moreover have "\<not> cNullable (columnAt (pl_table pl) o')" using ri(3) that(2) by (auto simp: anyNullable_def)
    ultimately show "wf_Value (r ! o')" "Kind (r ! o') = colKind (pl_table pl) o'"
      using n that(2) by (auto simp: valid_row_def row_ok_def split: if_splits)
  qed
  have res: "testOf (if pl_compResidual pl = [] then None else Some (conjunctsMatcher (pl_compResidual pl) ?ctx)) r =
      Some (\<forall>c \<in> set (pl_compResidual pl). passes c ?ctx r)" if "tbl_abs t pk = Some r" for pk r
  proof -
    have "interpMatcher c ?ctx r = Some (passes c ?ctx r)" if "c \<in> set (pl_compResidual pl)" for c
    proof -
      have "bound (pl_table pl) c" using conjuncts_bound [of _ ?W] d sub that by blast
      from matcher_total [OF this _ ready_row(1) [OF ready \<open>tbl_abs t pk = Some r\<close>], of ?ctx] show ?thesis using d by (simp add: rowMatcher_interp)
    qed
    then show ?thesis by (auto simp: testOf_def conjunctsMatcher_all allMatch_total [where p = "\<lambda>c. passes c ?ctx r"])
  qed
  have "walkable KindBytes t pl args (snap, ?key, pl_compResidual pl)"
    unfolding walkable_def prod.case
  proof (intro conjI allI impI ballI)
    show "keys_sorted False (map oe_key snap)" using v(1) unfolding sn keys_sorted_def sorted_wrt_map by (rule sorted_wrt_filter)
    show "distinct (map oe_pk snap)" using v(2) unfolding sn by (rule distinct_map_filter)
    show "key_ok KindBytes (oe_key e)" if "e \<in> set snap" for e using v(3) that by (auto simp: sn)
    show "key_ok KindBytes (?key r)" for r by (rule key_ok_composite)
    have same: "oe_key e = ?key r" if "e \<in> set snap" "tbl_abs t (oe_pk e) = Some r" "clean t (oe_pk e)" for e r
      using v(4) [OF that(2,3) _ refl] c(7) [OF that(2)] that(1) by (auto simp: sn)
    show "oe_key e = ?key r" if "e \<in> set snap" "tbl_abs t (oe_pk e) = Some r" "clean t (oe_pk e)" for e r
      by (rule same [OF that])
    show "testOf (if pl_compResidual pl = [] then None else Some (conjunctsMatcher (pl_compResidual pl) ?ctx)) r = Some (passes ?W ?ctx r)"
      if e: "e \<in> set snap" "tbl_abs t (oe_pk e) = Some r" "clean t (oe_pk e)" for e r
    proof -
      have "prefix (ks (encodeCompositeKey vs)) (ks (?key r))" using e(1) same [OF e] by (auto simp: sn)
      then have "\<forall>p \<in> set ?pins. pin_holds args r p" using c(7) [OF e(2)] by blast
      then show ?thesis using res [OF e(2)] iff by simp
    qed
    show "pk \<in> oe_pk ` set snap" if r: "tbl_abs t pk = Some r" "clean t pk" "passes ?W ?ctx r" for pk r
    proof -
      obtain e where e: "e \<in> set ?es" "oe_pk e = pk" "oe_key e = ?key r" using v(5) [OF r(1,2)] c(7) [OF r(1)] by blast
      have "prefix (ks (encodeCompositeKey vs)) (ks (?key r))" using c(7) [OF r(1)] iff r(3) by blast
      then have "e \<in> set snap" using e by (simp add: sn)
      then show ?thesis using e(2) by auto
    qed
    show "orderCmp False (r ! ?o) (r' ! ?o) \<le> 0"
      if r: "tbl_abs t pk = Some r" "tbl_abs t pk' = Some r'" "passes ?W ?ctx r" "passes ?W ?ctx r'" "\<not> key_less (?key r') (?key r)" for pk r pk' r'
    proof -
      have om: "?os ! ?m \<in> set ?os" "?o = ?os ! ?m" using sh by simp_all
      have eq: "r ! (?os ! i) = r' ! (?os ! i)" if "i < ?m" for i
      proof -
        let ?p = "(?os ! i, pl_compPrefixSrcs pl ! i)"
        have p: "?p \<in> set ?pins" using that sh(1) by (auto simp: set_zip)
        then have "pinned (pl_table pl) args ?p" using pl(2,3) by (auto simp: args_pinned_def pinsOf_def)
        note pc = pin_cell [OF this ready_row(2) [OF ready r(1)]] pin_cell [OF this ready_row(2) [OF ready r(2)]]
        show ?thesis using pc iff r(3,4) p by fastforce
      qed
      have "\<not> key_less (keyOf (r' ! ?o)) (keyOf (r ! ?o))"
      proof
        assume less: "key_less (keyOf (r' ! ?o)) (keyOf (r ! ?o))"
        have "tuple_less (map (\<lambda>o'. r' ! o') ?os) (map (\<lambda>o'. r ! o') ?os)"
          by (rule tuple_less_nth [of ?m]) (use eq sh(1) less om(2) in auto)
        moreover have "map Kind (map (\<lambda>o'. r' ! o') ?os) = map Kind (map (\<lambda>o'. r ! o') ?os)" "no_nulls (map (\<lambda>o'. r' ! o') ?os)"
          using cell(2) [OF r(1)] cell(2) [OF r(2)] by (auto simp: no_nulls_def)
        ultimately have "concat (map col (map (\<lambda>o'. r' ! o') ?os)) < concat (map col (map (\<lambda>o'. r ! o') ?os))"
          using encode_order_aux by blast
        moreover have "kkind (?key r') = KindBytes" by (simp add: encodeCompositeKey_def encodeCompositeKeyInto_def Let_def)
        ultimately have "key_less (?key r') (?key r)" by (simp add: key_less_def encodeCompositeKey_s)
        then show False using r(5) by simp
      qed
      then show ?thesis
        by (rule not_key_less_order [rotated 4]) (use cell [OF r(1) om(1)] cell [OF r(2) om(1)] om(2) in simp_all)
    qed
  qed
  then show ?thesis using sh(2) by (auto simp: compositeWalkArgs_def c(2,3,6) snap_def)
qed

end
