(* ===== verification/SelectAnswers.thy ===== *)
theory SelectAnswers
  imports WalkPaths
begin

text \<open>
  Every access path answers the query: the dispatch of a prepared SELECT, with the arguments typed, in every
  state that the writes and the index merge reach.
\<close>

section \<open>Primary key lookups\<close>

lemma pk_selected:
  assumes ready: "ready seed t pl" and pl: "planned pl" "args_pinned pl args" "pl_pkLookup pl"
  obtains v out where "evalLitOrParamValue (pl_pkSource pl) args = Inr v" "execSelectPK seed t pl v = Some (Inr out)" "selected t pl args out"
proof -
  let ?src = "pl_pkSource pl" and ?o = "nat (pkOrdinal (pl_table pl))"
  have p: "pinned (pl_table pl) args (?o, ?src)" using pl(2,3) by (simp add: args_pinned_def pinsOf_def)
  obtain v where v: "evalLitOrParamValue ?src args = Inr v" "\<not> IsNull v" "coerceToUUID v = Inr (Value_UUID v)"
    "\<And>q r. tbl_abs t q = Some r \<Longrightarrow> pin_holds args r (?o, ?src) \<longleftrightarrow> q = Value_UUID v" by (rule pk_value [OF ready p]) blast
  have snd: "paths_sound pl (s_where (selOf pl))" using pl(1) by (simp add: planned_def)
  have a: "ec_args (ctxOf pl args) = args" by (simp add: ctxOf_def)
  have "passes (s_where (selOf pl)) (ctxOf pl args) r \<longleftrightarrow> pin_holds args r (?o, ?src)" for r
    using snd [unfolded paths_sound_def Let_def, rule_format, of "ctxOf pl args" r] pl(3) unfolding a by blast
  then have iff: "passes (s_where (selOf pl)) (ctxOf pl args) r \<longleftrightarrow> q = Value_UUID v" if "tbl_abs t q = Some r" for q r
    using v(4) [OF that] by simp
  have off: "0 \<le> s_offset (selOf pl)" using ready by (simp add: ready_def limit_fits_def)
  show thesis
  proof (cases "s_limit (selOf pl) = 0")
    case True
    then show thesis using that [OF v(1), of "[]"] v(2,3) limit_zero [OF ready True]
      by (simp add: execSelectPK_def execSelectPKResolved_def)
  next
    case False
    have g: "(if s_starAll (selOf pl) then getByPK seed t (Value_UUID v) else getByPKProject seed t (Value_UUID v) (pl_projOrdinals pl)) =
        Some (map_option (projOf pl) (tbl_abs t (Value_UUID v)))" by (rule get_projected [OF ready])
    have "execSelectPK seed t pl v = Some (Inr (if 0 < s_offset (selOf pl) then []
        else case tbl_abs t (Value_UUID v) of None \<Rightarrow> [] | Some r \<Rightarrow> [projOf pl r]))"
      using v(2,3) False g by (cases "tbl_abs t (Value_UUID v)") (auto simp: execSelectPK_def execSelectPKResolved_def split: if_splits)
    then show thesis using that [OF v(1)] one_selected [OF iff False off] by blast
  qed
qed

lemma probe_selected:
  assumes ready: "ready seed t pl" and pl: "planned pl" "args_pinned pl args" "pl_pkProbe pl \<noteq> NilExpr"
  obtains v out where "evalLitOrParamValue (pl_pkProbe pl) args = Inr v" "execSelectPKResidual seed t pl v args = Some (Inr out)" "selected t pl args out"
proof -
  let ?src = "pl_pkProbe pl" and ?o = "nat (pkOrdinal (pl_table pl))" and ?P = "passes (s_where (selOf pl)) (ctxOf pl args)"
  have p: "pinned (pl_table pl) args (?o, ?src)" using pl(2,3) by (simp add: args_pinned_def pinsOf_def)
  obtain v where v: "evalLitOrParamValue ?src args = Inr v" "\<not> IsNull v" "coerceToUUID v = Inr (Value_UUID v)"
    "\<And>q r. tbl_abs t q = Some r \<Longrightarrow> pin_holds args r (?o, ?src) \<longleftrightarrow> q = Value_UUID v" by (rule pk_value [OF ready p]) blast
  let ?pk = "Value_UUID v"
  have snd: "paths_sound pl (s_where (selOf pl))" using pl(1) by (simp add: planned_def)
  have a: "ec_args (ctxOf pl args) = args" by (simp add: ctxOf_def)
  have "?P r \<Longrightarrow> pin_holds args r (?o, ?src)" for r
    using snd [unfolded paths_sound_def Let_def, rule_format, of "ctxOf pl args" r] pl(3) unfolding a by blast
  then have imp: "q = ?pk" if "tbl_abs t q = Some r" "?P r" for q r using v(4) [OF that(1)] that(2) by simp
  have off: "0 \<le> s_offset (selOf pl)" using ready by (simp add: ready_def limit_fits_def)
  have inv: "table_inv seed t" using ready by (simp add: ready_def)
  show thesis
  proof (cases "s_limit (selOf pl) = 0")
    case True
    then show thesis using that [OF v(1), of "[]"] limit_zero [OF ready True] by (simp add: execSelectPKResidual_def)
  next
    case lim: False
    show thesis
    proof (cases "\<exists>r. tbl_abs t ?pk = Some r \<and> ?P r")
      case True
      then obtain r where r: "tbl_abs t ?pk = Some r" "?P r" by blast
      have iff: "?P r' \<longleftrightarrow> q = ?pk" if "tbl_abs t q = Some r'" for q r'
        using imp [OF that] r that by auto
      have "Row_Clone r = r" by (rule clone_row [OF ready_row(1) [OF ready r(1)]])
      then have "execSelectPKResidual seed t pl v args = Some (Inr (if 0 < s_offset (selOf pl) then []
          else case tbl_abs t ?pk of None \<Rightarrow> [] | Some r \<Rightarrow> [projOf pl r]))"
        using v(2,3) lim r ready_row(3) [OF ready r(1)] by (simp add: execSelectPKResidual_def getByPK_abs [OF inv])
      then show thesis using that [OF v(1)] one_selected [OF iff lim off] by blast
    next
      case False
      then have "matchSet t pl args = {}" using imp by (force simp: matchSet_def)
      moreover have "execSelectPKResidual seed t pl v args = Some (Inr [])"
      proof (cases "tbl_abs t ?pk")
        case (Some r)
        then show ?thesis using False v(2,3) ready_row(3) [OF ready Some] clone_row [OF ready_row(1) [OF ready Some]]
          by (simp add: execSelectPKResidual_def getByPK_abs [OF inv])
      qed (use v(2,3) in \<open>simp add: execSelectPKResidual_def getByPK_abs [OF inv]\<close>)
      ultimately show thesis using that [OF v(1)] selected_empty by blast
    qed
  qed
qed

section \<open>The dispatch\<close>

lemma execSelect_selected:
  assumes ready: "ready seed t pl" and ix: "indexed seed ph t pl" and np: "\<not> partitioned (pl_table pl)"
    and pl: "planned pl" "args_pinned pl args" and lit: "\<not> hasLiteral (s_where (selOf pl))" and wfa: "wf_args args"
    and buf: "pl_compWalk pl \<or> pl_orderWalk pl \<Longrightarrow> buffer_fits pl"
  shows "\<exists>out. execSelect seed t pl args = Some (Inr out) \<and> selected t pl args out"
proof -
  note sh = pl(1) [unfolded planned_def paths_shaped_def]
  have ev: "evalExpr e (ctxOf pl args) = Some (evalLitOrParamValue e args)" if "isLitOrParam e" for e
    using eval_src [OF that, of "ctxOf pl args"] by (simp add: ctxOf_def)
  consider (pk) "pl_pkLookup pl" | (idx) "\<not> pl_pkLookup pl" "pl_idxLookup pl" | (cwalk) "\<not> pl_pkLookup pl" "\<not> pl_idxLookup pl" "pl_compWalk pl"
    | (comp) "\<not> pl_pkLookup pl" "\<not> pl_idxLookup pl" "\<not> pl_compWalk pl" "pl_compLookup pl"
    | (owalk) "\<not> pl_pkLookup pl" "\<not> pl_idxLookup pl" "\<not> pl_compWalk pl" "\<not> pl_compLookup pl" "pl_orderWalk pl"
    | (probe) "\<not> pl_pkLookup pl" "\<not> pl_idxLookup pl" "\<not> pl_compWalk pl" "\<not> pl_compLookup pl" "\<not> pl_orderWalk pl" "pl_pkProbe pl \<noteq> NilExpr"
    | (scan) "\<not> pl_pkLookup pl" "\<not> pl_idxLookup pl" "\<not> pl_compWalk pl" "\<not> pl_compLookup pl" "\<not> pl_orderWalk pl" "pl_pkProbe pl = NilExpr"
    by blast
  then show ?thesis
  proof cases
    case pk
    obtain v out where v: "evalLitOrParamValue (pl_pkSource pl) args = Inr v" "execSelectPK seed t pl v = Some (Inr out)" "selected t pl args out"
      by (rule pk_selected [OF ready pl pk])
    have "isLitOrParam (pl_pkSource pl)" using sh pk by blast
    then show ?thesis using pk v ev by (simp add: execSelect_def Let_def)
  next
    case idx
    then show ?thesis using idx_selected [OF ready ix pl] by (simp add: execSelect_def Let_def)
  next
    case cwalk
    obtain w where w: "0 \<le> pl_orderOrdinal pl" "compositeWalkArgs t pl args = Some (Inr (Some w))" "walkable KindBytes t pl args w"
      using composite_walkable [OF ready ix pl cwalk(3)] by blast
    obtain snap dk res where s: "w = (snap, dk, res)" by (cases w) auto
    from ordered_walk [OF ready ix w(3) [unfolded s] w(1)] buf cwalk(3)
    show ?thesis using cwalk w(2) s by (simp add: execSelect_def execSelectCompositeWalk_def Let_def)
  next
    case comp
    then show ?thesis using composite_selected [OF ready ix pl comp(4,2)] by (simp add: execSelect_def Let_def)
  next
    case owalk
    obtain K w where w: "0 \<le> pl_orderOrdinal pl" "orderedWalkArgs t pl args = Some w" "walkable K t pl args w"
      using order_walkable [OF ready ix pl(1) owalk(5) lit wfa] by blast
    obtain snap dk res where s: "w = (snap, dk, res)" by (cases w) auto
    from ordered_walk [OF ready ix w(3) [unfolded s] w(1)] buf owalk(5)
    show ?thesis using owalk w(2) s by (simp add: execSelect_def execSelectOrderedWalk_def Let_def)
  next
    case probe
    obtain v out where v: "evalLitOrParamValue (pl_pkProbe pl) args = Inr v" "execSelectPKResidual seed t pl v args = Some (Inr out)" "selected t pl args out"
      by (rule probe_selected [OF ready pl probe(6)])
    have "isLitOrParam (pl_pkProbe pl)" using sh probe(6) by blast
    then show ?thesis using probe v ev by (simp add: execSelect_def Let_def)
  next
    case scan
    moreover have "\<not> pl_partLookup pl" using sh np by blast
    ultimately show ?thesis using scan_selected [OF ready] by (simp add: execSelect_def Let_def)
  qed
qed


section \<open>Prepared statements and reachable tables\<close>

text \<open>What a prepared SELECT looks like.\<close>

lemma projection_range:
  assumes "planProjection s rt (newPlan st rt) = Inr pl" and "wf_table rt"
  shows "\<forall>i \<in> set (pl_projOrdinals pl). i < length (tColumns (rt_def rt))"
proof -
  have col: "colByName rt nm = Some i \<Longrightarrow> i < length (tColumns (rt_def rt))" for nm i using assms(2) by (auto simp: wf_table_def Let_def)
  have "\<forall>i \<in> set ords. i < length (tColumns (rt_def rt))" if "for_each (projColumn s rt) cs [] = Inr ords" for cs ords
    by (rule for_each_invariant [OF that]) (use col in \<open>auto simp: projColumn_def split: if_splits option.splits\<close>)
  then show ?thesis using assms(1) by (auto simp: planProjection_def newPlan_def andThen_eq_Inr split: if_splits)
qed

lemma planSelect_columns:
  assumes "planSelect rt s = Inr pl" and wf: "wf_table rt"
  shows "\<forall>i \<in> set (pl_projOrdinals pl). i < length (tColumns (rt_def rt))"
    and "0 \<le> pl_orderOrdinal pl \<longrightarrow> nat (pl_orderOrdinal pl) < length (tColumns (rt_def rt))"
proof -
  obtain pl1 pl2 wher where p: "planProjection s rt (newPlan (SelectStmt s) rt) = Inr pl1" "planOrder s rt pl1 = Inr pl2"
      "pl = planPKProbe rt wher (planOrderWalk (s\<lparr>s_where := wher\<rparr>) rt (planWhere rt wher (pl2\<lparr>pl_st := SelectStmt (s\<lparr>s_where := wher\<rparr>)\<rparr>)))"
    using assms(1) by (auto simp: planSelect_def andThen_eq_Inr Let_def)
  note f1 = planProjection_fields [OF p(1)] and f2 = planOrder_fields [OF p(2) planProjection_fields(1) [OF p(1)]]
  show "\<forall>i \<in> set (pl_projOrdinals pl). i < length (tColumns (rt_def rt))"
    using projection_range [OF p(1) wf] f2(4) by (simp add: p(3))
  have "0 \<le> pl_orderOrdinal pl2 \<longrightarrow> nat (pl_orderOrdinal pl2) < length (tColumns (rt_def rt))"
    using p(2) f1(3) wf by (auto simp: planOrder_def wf_table_def Let_def split: if_splits option.splits)
  then show "0 \<le> pl_orderOrdinal pl \<longrightarrow> nat (pl_orderOrdinal pl) < length (tColumns (rt_def rt))" by (simp add: p(3))
qed

lemma prepared_select:
  assumes p: "prepareStmt rt (SelectStmt s) = Inr pl" and wf: "wf_table rt"
  obtains w where "selOf pl = s\<lparr>s_where := w\<rparr>" "pl_table pl = rt" "bound rt w" "\<not> hasLiteral w" "planned pl"
    "\<forall>i \<in> set (pl_projOrdinals pl). i < length (tColumns (rt_def rt))"
    "0 \<le> pl_orderOrdinal pl \<longrightarrow> nat (pl_orderOrdinal pl) < length (tColumns (rt_def rt))"
proof -
  obtain st' n q want where q: "assignParamIndices (SelectStmt s) = (st', n)" "planStmt rt st' = Inr q" "pl = q\<lparr>pl_nparams := n, pl_paramWantUUID := want\<rparr>"
    "paths_sound pl (whereOf (pl_st pl))" "paths_shaped pl" by (rule prepared_plan [OF p wf])
  obtain w0 where w0: "st' = SelectStmt (s\<lparr>s_where := w0\<rparr>)" using q(1) by (auto simp: assignParamIndices_def Let_def split: prod.splits)
  have "rejectValueLiterals (SelectStmt s) = Inr ()" using p by (auto simp: prepareStmt_def andThen_eq_Inr)
  from numbered_literal [OF this q(1)] have "\<not> hasLiteral w0" by (simp add: w0 literal_free_def whereOf_def)
  have ps: "planSelect rt (s\<lparr>s_where := w0\<rparr>) = Inr q" using q(2) by (simp add: w0 planStmt_def)
  obtain w where w: "validateExpr w0 rt (s_alias s) = Inr w" "pl_st q = SelectStmt (s\<lparr>s_where := w\<rparr>)" "pl_table q = rt"
    using planSelect_ok [OF ps wf] by auto
  have sel: "selOf pl = s\<lparr>s_where := w\<rparr>" using w(2) by (simp add: q(3) selOf_def)
  show thesis
  proof (rule that [OF sel])
    show "bound rt w" by (rule validateExpr_bound [OF w(1)])
    show "\<not> hasLiteral w" using validateExpr_literal [OF w(1)] \<open>\<not> hasLiteral w0\<close> by simp
    have "pl_st pl = SelectStmt (s\<lparr>s_where := w\<rparr>)" using w(2) by (simp add: q(3))
    then show "planned pl" using q(4,5) by (simp add: planned_def sel whereOf_def)
  qed (use planSelect_columns [OF ps wf] w(3) in \<open>simp_all add: q(3)\<close>)
qed

text \<open>Neither writes nor merge steps change which indexes are ordered.\<close>

lemma mergeNext_ordered:
  assumes inv: "merge_inv seed Ks ph t" and step: "mergeNext seed ph t = Some (ph', t')"
  shows "map si_ordered (t_indexes t') = map si_ordered (t_indexes t)"
proof -
  note v = inv [unfolded merge_inv_def]
  show ?thesis
  proof (cases ph)
    case (Applying d pks drops ch)
    then have len: "length ch = length (t_indexes t)" using v by (simp add: phase_ok_def nIdx_def)
    show ?thesis using step v Applying
      by (cases pks) (auto simp: mergeOne_eq [OF _ len] comp_def)
  next
    case (Folding k drops ch)
    then show ?thesis using step by (auto simp: map_update list_update_same_conv split: if_splits)
  next
    case (Dropping drops)
    then show ?thesis using step by (cases drops) (auto simp: dropPrefix_def case_prod_beta)
  qed (use step in \<open>auto simp: Let_def split: if_splits prod.splits\<close>)
qed

lemma merging_ordered:
  assumes "merging seed Ks n (freshStore cpus rt hint base limit w) ph st"
    and "\<not> partitioned rt" and "rt_indexes rt \<noteq> []" and "length Ks = length (rt_indexes rt)"
  shows "map si_ordered (t_indexes (st_table st)) = map ri_ordered (rt_indexes rt) \<and> t_def (st_table st) = rt"
  using assms(1)
proof (induction rule: merging.induct)
  case start
  show ?case by (simp add: freshStore_def newTable_def Let_def newSecIndex_def)
next
  case (merge ph st ph' t')
  have "merge_inv seed Ks ph (st_table st)" using fresh_reach [OF merge.hyps(1) assms(2-4)] by blast
  from mergeNext_ordered [OF this merge.hyps(2)] mergeNext_frame(3) [OF this merge.hyps(2)] merge.IH show ?case by simp
next
  case (operation ph st op a st')
  note r = fresh_reach [OF operation.hyps(1) assms(2-4)]
  from store_op_refines [of seed base st n op] r operation.hyps(2,3) have "frame st st'" by auto
  then show ?case using operation.IH by (simp add: frame_def)
qed


text \<open>With callbacks that return, the loop over the two streams returns.\<close>

lemma walk_total:
  assumes "\<forall>pk s. ei pk s \<noteq> None" and "\<forall>r s. ed r s \<noteq> None"
  shows "walk done' ei ed es s \<noteq> None"
  using assms
proof (induction es arbitrary: s)
  case (Cons e es)
  then show ?case by (cases e) (auto simp: bind_eq_Some_conv, metis+)
qed simp

section \<open>Properties\<close>

lemma answers_dispatch:
  assumes p: "prepareStmt rt (SelectStmt s) = Inr pl" and wf: "wf_table rt" and np: "\<not> partitioned rt" and ne: "rt_indexes rt \<noteq> []"
    and pk: "\<not> cNullable (columnAt rt (nat (pkOrdinal rt)))"
    and reach: "merging seed (idxKinds rt) n (freshStore cpus rt hint base limit w) ph st" and rows: "valid_rows rt (st_table st)"
    and args: "int (length vargs) = pl_nparams pl" "coerceParams pl vargs = Inr args" "wf_args args" "args_pinned pl args"
    and lim: "limit_fits s" "pl_compWalk pl \<or> pl_orderWalk pl \<longrightarrow> buffer_fits pl"
    and ord: "0 \<le> pl_orderOrdinal pl \<longrightarrow> \<not> cNullable (columnAt rt (nat (pl_orderOrdinal pl)))"
  shows "\<exists>out. queryPlanV seed (st_table st) pl vargs = Some (Inr out) \<and> selected (st_table st) pl args out"
proof -
  let ?t = "st_table st"
  have len: "length (idxKinds rt) = length (rt_indexes rt)" by (simp add: idxKinds_def)
  note r = fresh_reach [OF reach np ne len] and o = merging_ordered [OF reach np ne len]
  obtain w where w: "selOf pl = s\<lparr>s_where := w\<rparr>" "pl_table pl = rt" "bound rt w" "\<not> hasLiteral w" "planned pl"
    "\<forall>i \<in> set (pl_projOrdinals pl). i < length (tColumns (rt_def rt))"
    "0 \<le> pl_orderOrdinal pl \<longrightarrow> nat (pl_orderOrdinal pl) < length (tColumns (rt_def rt))" by (rule prepared_select [OF p wf])
  have inv: "table_inv seed ?t" using r by (simp add: merge_inv_def)
  have ready: "ready seed ?t pl"
    using inv o wf rows pk lim(1) w ord by (simp add: ready_def limit_fits_def)
  have ix: "indexed seed ph ?t pl" using r o by (simp add: indexed_def w(2))
  have lit: "\<not> hasLiteral (s_where (selOf pl))" using w(1,4) by simp
  have np': "\<not> partitioned (pl_table pl)" using np w(2) by simp
  have ex: "\<exists>out. execSelect seed ?t pl args = Some (Inr out) \<and> selected ?t pl args out"
    by (rule execSelect_selected [OF ready ix np' w(5) args(4) lit args(3)]) (use lim(2) in blast)
  have q: "queryPlanV seed ?t pl vargs = (if pl_pkLookup pl then
        (case evalLitOrParamValue (pl_pkSource pl) args of Inl e \<Rightarrow> Some (Inl e) | Inr keyVal \<Rightarrow> execSelectPK seed ?t pl keyVal)
      else if pl_idxLookup pl then execSelectIdx seed ?t pl args else execSelect seed ?t pl args)"
    using args(1,2) by (simp add: queryPlanV_def checkArgs_def)
  show ?thesis
  proof (cases "pl_pkLookup pl")
    case True
    obtain v out where "evalLitOrParamValue (pl_pkSource pl) args = Inr v" "execSelectPK seed ?t pl v = Some (Inr out)" "selected ?t pl args out"
      by (rule pk_selected [OF ready w(5) args(4) True])
    then show ?thesis using True by (simp add: q)
  next
    case False
    then show ?thesis using ex by (simp add: q execSelect_def Let_def split: if_splits)
  qed
qed


text \<open>The index path of \<open>SELECT * FROM t WHERE s = ?\<close> on a table with one row.\<close>

definition indexQuery :: selectStmt where
  "indexQuery = \<lparr>s_cols = [], s_starAll = True, s_countStar = False, s_table = str ''t'', s_alias = [], s_joins = [],
     s_where = BinOp tkEq (ColRef \<lparr>cr_qual = [], cr_name = str ''s'', cr_ord = -1\<rparr>) (ParamRef (-1)),
     s_orderCol = [], s_orderQual = [], s_orderDesc = False, s_limit = -1, s_offset = 0\<rparr>"

lemmas pass_eval = passes_def rowMatcher_interp interpMatcher_def evalParam_def evalBin_def cellAt_def Value_Equal_def andThenP_def

lemma indexedTable_wf: "wf_table indexedTable"
  by (simp add: wf_table_def indexedTable_def sampleTable_def str_def wf_index_def partitioned_def less_Suc_eq Let_def split: if_splits)

lemma indexedTable_kinds: "idxKinds indexedTable = [KindString]"
  by (simp add: idxKinds_def indexedTable_def sampleTable_def colKind_def columnAt_def)




end
