(* ===== verification/SelectEdges.thy ===== *)
theory SelectEdges
  imports SelectAnswers
begin

text \<open>
  An argument of the wrong type on an ordered index: the comparison of index keys looks only at the kind
  of its left side, and the index path of an exact plan does not check the WHERE again.
\<close>

section \<open>The view of an index over one row\<close>

lemma next_steps_ordered:
  assumes "next_steps seed x y" and "merge_inv seed Ks (fst x) (snd x)"
  shows "map si_ordered (t_indexes (snd y)) = map si_ordered (t_indexes (snd x))"
  using assms
proof (induction rule: rtranclp_induct)
  case (step y z)
  have "merge_inv seed Ks (fst y) (snd y)" using next_steps_inv [OF step.hyps(1) step.prems] by blast
  moreover have "mergeNext seed (fst y) (snd y) = Some (fst z, snd z)" using step.hyps(2) by (simp add: next_step_def)
  ultimately show ?case using mergeNext_ordered step.IH [OF step.prems] by metis
qed simp

lemma quiet_single_view:
  assumes inv: "merge_inv seed [K] Idle t" and quiet: "\<forall>j < length (t_shards t). dirtyR t j = [] \<and> dirtyD t j = []"
    and one: "tbl_abs t = [pk \<mapsto> row]" "t_indexes t = [si]" "si_ordered si" "rowKey si row = Some key"
  shows "si_sorted si = [\<lparr>oe_key = key, oe_pk = pk\<rparr>]" "t_readDirtyCount t = 0"
proof -
  note v = inv [unfolded merge_inv_def]
  have hash: "shardIdxOf t p < length (t_shards t)" for p using v shardIdxOf_less by (simp add: table_inv_def)
  have fr: "fresh t p" for p
  proof -
    have "dirtyR t (shardIdxOf t p) = []" "dirtyD t (shardIdxOf t p) = []" using quiet hash by blast+
    moreover have "p \<in> set (todo Idle) \<or> tail_dirty Idle t p \<or> fresh t p" using v by (simp add: covered_def)
    ultimately show ?thesis by (simp add: tail_dirty_def tailR_def tailD_def)
  qed
  have "idx_ok K [] si" using v one(2) by (auto simp: idxs_ok_def nIdx_def)
  then have s: "si_inv K si" "view_ok si" using one(3) by (auto simp: idx_ok_synced si_synced_def)
  have rev: "map_of (si_rev si) p = (if p = pk then Some key else None)" for p using fr [of p] one by (simp add: fresh_def)
  have d: "distinct (map fst (si_rev si))" using s(1) by (simp add: si_inv_def)
  have "x \<in> set (si_rev si) \<longleftrightarrow> x = (pk, key)" for x
    using rev [of "fst x"] map_of_eq_Some_iff [OF d, of "fst x" "snd x"] by (cases x) (auto split: if_splits)
  then have "set (si_rev si) = {(pk, key)}" by blast
  then have "set (si_sorted si) = {\<lparr>oe_key = key, oe_pk = pk\<rparr>}" "distinct (si_sorted si)" using s(2) by (auto simp: view_ok_def entry_def)
  then show "si_sorted si = [\<lparr>oe_key = key, oe_pk = pk\<rparr>]" by (cases "si_sorted si" rule: remdups_adj.cases) auto
  have "\<forall>s \<in> set (t_shards t). sh_dirtyRead s = []" using quiet by (auto simp: in_set_conv_nth)
  then show "t_readDirtyCount t = 0" using v by (simp add: counted_def cong: map_cong)
qed

section \<open>The table, the row and the query\<close>

definition kindTable :: resolvedTable where
  "kindTable = \<lparr>rt_def = \<lparr>tName = str ''t'', tColumns =
      [\<lparr>cName = str ''id'', cType = TypeUUID, cPK = True, cImmutable = False, cPartitionKey = False, cNullable = False\<rparr>,
       \<lparr>cName = str ''n'', cType = TypeInt, cPK = False, cImmutable = False, cPartitionKey = False, cNullable = False\<rparr>],
      tIndexes = []\<rparr>, colByName = [str ''id'' \<mapsto> 0, str ''n'' \<mapsto> 1], pkOrdinal = 0, partitionOrdinal = -1,
      rt_indexes = [\<lparr>ri_name = str ''idx_n'', ri_ordinals = [1], ri_ordered = True\<rparr>]\<rparr>"

definition kindQuery :: selectStmt where
  "kindQuery = indexQuery\<lparr>s_where := BinOp tkEq (ColRef \<lparr>cr_qual = [], cr_name = str ''n'', cr_ord = -1\<rparr>) (ParamRef (-1))\<rparr>"

definition kindRun :: "(Row list res option \<times> Row list res option) option" where
  "kindRun = do {
     (e, st) \<leftarrow> insertJournaled 7 [UUIDVal (replicate 16 1), IntV 5] noJournal (freshStore 2 kindTable 0 0 0 ());
     t \<leftarrow> mergeIndexes 7 (st_table st);
     (case prepareStmt kindTable (SelectStmt kindQuery) of Inl e \<Rightarrow> None
      | Inr pl \<Rightarrow> Some (queryPlanV 7 t pl [StrV (str ''a'')], queryPlanV 7 (st_table st) pl [StrV (str ''a'')]))
   }"


definition kindRow :: Row where
  "kindRow = [UUIDVal (replicate 16 1), IntV 5]"

lemma kindTable_facts:
  "\<not> partitioned kindTable" "rt_indexes kindTable \<noteq> []" "length [KindInt] = length (rt_indexes kindTable)"
  "row_ok 2 kindRow" "pkOrdinal kindTable = 0" "length (rt_indexes kindTable) = 1"
  by (simp_all add: kindTable_def partitioned_def kindRow_def row_ok_def uuid_ok_def)

section \<open>Properties\<close>


end
