(* ===== verification/Spec2Isabelle.thy ===== *)
theory Spec2Isabelle
  imports PartitionStore WalLog TxnLocks Recovery SelectEdges
begin

text \<open>
  hazedb: an embedded, in-memory SQL store with a write-ahead log.
\<close>

end
